(* ===== verification/Prelude.thy ===== *)
theory Prelude
  imports Main "HOL-Library.Word" "HOL-Library.Monad_Syntax"
begin

text \<open>
  What every component shares: bytes and machine words, little endian encodings of
  integers, and C memory as a list of bytes whose reads and writes fail with \<open>None\<close>
  when they leave the allocated block.  The collection \<open>mem_simps\<close> holds the rules
  that evaluate accesses known to be in bounds.
\<close>

named_theorems mem_simps "evaluation of in-bounds memory accesses"

section \<open>Bytes and words\<close>

type_synonym byte = "8 word"
type_synonym u16 = "16 word"
type_synonym u32 = "32 word"
type_synonym u64 = "64 word"

text \<open>Small naturals as 32 bit words.\<close>

lemma unat_of_nat_u32: "k < 4294967296 \<Longrightarrow> unat (of_nat k :: u32) = k"
  by (simp add: unsigned_of_nat take_bit_nat_eq_self)

lemma of_nat_u32_less: "j < 4294967296 \<Longrightarrow> k < 4294967296 \<Longrightarrow> (of_nat j :: u32) < of_nat k \<longleftrightarrow> j < k"
  by (simp add: word_less_nat_alt unat_of_nat_u32)

lemma of_nat_u32_eq: "j < 4294967296 \<Longrightarrow> k < 4294967296 \<Longrightarrow> (of_nat j :: u32) = of_nat k \<longleftrightarrow> j = k"
  by (metis unat_of_nat_u32)

lemma sint_of_nat_u32: "k < 2147483648 \<Longrightarrow> sint (of_nat k :: u32) = int k"
  by (simp add: signed_of_nat signed_take_bit_int_eq_self)

lemma unat_of_nat_u64: "k < 18446744073709551616 \<Longrightarrow> unat (of_nat k :: u64) = k"
  by (simp add: unsigned_of_nat take_bit_nat_eq_self)

lemma of_nat_u64_less:
  "j < 18446744073709551616 \<Longrightarrow> k < 18446744073709551616 \<Longrightarrow> (of_nat j :: u64) < of_nat k \<longleftrightarrow> j < k"
  by (simp add: word_less_nat_alt unat_of_nat_u64)

lemma of_nat_u64_eq:
  "j < 18446744073709551616 \<Longrightarrow> k < 18446744073709551616 \<Longrightarrow> (of_nat j :: u64) = of_nat k \<longleftrightarrow> j = k"
  by (metis unat_of_nat_u64)

section \<open>Integers as little endian bytes\<close>

text \<open>The \<open>n\<close> low bytes of the two's complement representation, least significant first.\<close>

primrec le_bytes :: "nat \<Rightarrow> int \<Rightarrow> byte list" where
  "le_bytes 0 v = []"
| "le_bytes (Suc n) v = word_of_int v # le_bytes n (v div 256)"

primrec le_uint :: "byte list \<Rightarrow> int" where
  "le_uint [] = 0"
| "le_uint (b # bs) = uint b + 256 * le_uint bs"

definition le_sint :: "byte list \<Rightarrow> int" where
  "le_sint bs = (if 2 * le_uint bs < 256 ^ length bs then le_uint bs
                 else le_uint bs - 256 ^ length bs)"

definition int_fits :: "nat \<Rightarrow> int \<Rightarrow> bool" where
  "int_fits n v \<longleftrightarrow> - (256 ^ n) \<le> 2 * v \<and> 2 * v < 256 ^ n"

lemma length_le_bytes [simp]: "length (le_bytes n v) = n"
  by (induction n arbitrary: v) auto

lemma uint_byte_bounds: "0 \<le> uint (b :: byte)" "uint (b :: byte) < 256"
  using uint_range_size [of b] by (auto simp: word_size)

lemma le_uint_nonneg [simp]: "0 \<le> le_uint bs"
  by (induction bs) (auto simp: add_nonneg_nonneg)

lemma le_uint_bound: "le_uint bs < 256 ^ length bs"
proof (induction bs)
  case (Cons b bs)
  define p :: int where "p = 256 ^ length bs"
  from Cons.IH have "le_uint bs + 1 \<le> p" by (simp add: p_def)
  then have "uint b + 256 * le_uint bs < 256 * p"
    using uint_byte_bounds(2) [of b] by linarith
  then show ?case by (simp add: p_def)
qed simp

lemma uint_word_of_int_byte: "uint (word_of_int v :: byte) = v mod 256"
  by (simp add: uint_word_of_int)

lemma le_uint_le_bytes: "le_uint (le_bytes n v) = v mod 256 ^ n"
proof (induction n arbitrary: v)
  case (Suc n)
  show ?case
    using Suc.IH [of "v div 256"]
    by (simp add: uint_word_of_int_byte zmod_zmult2_eq)
qed simp

lemma le_sint_le_bytes:
  assumes "int_fits n v"
  shows "le_sint (le_bytes n v) = v"
proof (cases "0 \<le> v")
  case True
  with assms have "v mod 256 ^ n = v" by (simp add: int_fits_def)
  with assms True show ?thesis
    by (simp add: le_sint_def le_uint_le_bytes int_fits_def)
next
  case False
  have "v mod 256 ^ n = (v + 256 ^ n) mod 256 ^ n" by simp
  also have "\<dots> = v + 256 ^ n"
    using assms False by (intro mod_pos_pos_trivial) (auto simp: int_fits_def)
  finally show ?thesis
    using assms False by (simp add: le_sint_def le_uint_le_bytes int_fits_def)
qed

lemma int_fits_le_sint: "int_fits (length bs) (le_sint bs)"
proof -
  define p :: int where "p = 256 ^ length bs"
  have "0 \<le> le_uint bs" "le_uint bs < p" using le_uint_bound [of bs] by (simp_all add: p_def)
  then have "- p \<le> 2 * (if 2 * le_uint bs < p then le_uint bs else le_uint bs - p)"
    and "2 * (if 2 * le_uint bs < p then le_uint bs else le_uint bs - p) < p"
    by (simp_all del: le_uint_nonneg)
  then show ?thesis by (simp only: int_fits_def le_sint_def p_def)
qed

lemma le_bytes_le_uint: "le_bytes (length bs) (le_uint bs) = bs"
proof (induction bs)
  case (Cons b bs)
  have "(word_of_int (uint b + 256 * le_uint bs) :: byte) = b"
    using uint_byte_bounds [of b]
    by (intro word_uint_eqI) (simp only: uint_word_of_int_byte mod_mult_self2 mod_pos_pos_trivial)
  moreover have "(uint b + 256 * le_uint bs) div 256 = le_uint bs"
    using uint_byte_bounds [of b] by simp
  ultimately show ?case using Cons.IH by simp
qed simp

lemma int_fits_mono:
  assumes "int_fits n v" and "n \<le> m"
  shows "int_fits m v"
proof -
  have "(256 :: int) ^ n \<le> 256 ^ m" using assms(2) by (simp add: power_increasing)
  with assms(1) show ?thesis unfolding int_fits_def by linarith
qed

section \<open>Memory blocks\<close>

text \<open>\<open>rd m off n\<close> reads \<open>n\<close> bytes, \<open>wr m off bs\<close> overwrites, \<open>mem_move\<close> is \<open>memmove\<close>.\<close>

definition rd :: "'a list \<Rightarrow> nat \<Rightarrow> nat \<Rightarrow> 'a list option" where
  "rd m off n = (if off + n \<le> length m then Some (take n (drop off m)) else None)"

definition wr :: "'a list \<Rightarrow> nat \<Rightarrow> 'a list \<Rightarrow> 'a list option" where
  "wr m off bs = (if off + length bs \<le> length m
                  then Some (take off m @ bs @ drop (off + length bs) m) else None)"

definition mem_move :: "'a list \<Rightarrow> nat \<Rightarrow> nat \<Rightarrow> nat \<Rightarrow> 'a list option" where
  "mem_move m dst src n = do { bs \<leftarrow> rd m src n; wr m dst bs }"

text \<open>
  Accesses at a C \<open>int\<close> offset: a negative one is outside the block.
\<close>

definition rdz :: "'a list \<Rightarrow> int \<Rightarrow> nat \<Rightarrow> 'a list option" where
  "rdz m off n = (if off < 0 then None else rd m (nat off) n)"

definition wrz :: "'a list \<Rightarrow> int \<Rightarrow> 'a list \<Rightarrow> 'a list option" where
  "wrz m off bs = (if off < 0 then None else wr m (nat off) bs)"

text \<open>
  What the code depends on and does not choose: the byte order of the host, and the
  contents of freshly allocated bytes.  \<open>mem_resize\<close> is \<open>realloc\<close>: the common prefix
  stays, new bytes are arbitrary.
\<close>

record host =
  big_endian :: bool
  junk :: "nat \<Rightarrow> byte"

definition mem_resize :: "host \<Rightarrow> byte list \<Rightarrow> nat \<Rightarrow> byte list" where
  "mem_resize h m n = take n m @ map (junk h) [length m ..< n]"

lemma rd_Some [mem_simps]: "off + n \<le> length m \<Longrightarrow> rd m off n = Some (take n (drop off m))"
  by (simp add: rd_def)

lemma rd_None: "rd m off n = None \<longleftrightarrow> length m < off + n"
  by (simp add: rd_def)

lemma wr_Some [mem_simps]:
  "off + length bs \<le> length m \<Longrightarrow> wr m off bs = Some (take off m @ bs @ drop (off + length bs) m)"
  by (simp add: wr_def)

lemma length_rd: "rd m off n = Some bs \<Longrightarrow> length bs = n"
  by (auto simp: rd_def split: if_splits)

lemma length_wr: "wr m off bs = Some m' \<Longrightarrow> length m' = length m"
  by (auto simp: wr_def split: if_splits)

lemma rd_append [mem_simps]: "length a = off \<Longrightarrow> length b = n \<Longrightarrow> rd (a @ b @ c) off n = Some b"
  by (simp add: rd_def)

lemma wr_append [mem_simps]:
  "length a = off \<Longrightarrow> length b = length bs \<Longrightarrow> wr (a @ b @ c) off bs = Some (a @ bs @ c)"
  by (simp add: wr_def)

lemma rdz_int [mem_simps]: "rdz m (int k) n = rd m k n"
  by (simp add: rdz_def)

lemma wrz_int [mem_simps]: "wrz m (int k) bs = wr m k bs"
  by (simp add: wrz_def)

lemma length_mem_resize [simp]: "length (mem_resize h m n) = n"
  by (simp add: mem_resize_def)

lemma mem_resize_shrink [mem_simps]: "n \<le> length m \<Longrightarrow> mem_resize h m n = take n m"
  by (simp add: mem_resize_def)

lemma mem_resize_grow [mem_simps]:
  "length m \<le> n \<Longrightarrow> mem_resize h m n = m @ map (junk h) [length m ..< n]"
  by (simp add: mem_resize_def)

section \<open>Arrays of integers\<close>

text \<open>An array of \<open>n\<close> byte integers, little endian, and what the accesses above do on it.\<close>

definition enc_ints :: "nat \<Rightarrow> int list \<Rightarrow> byte list" where
  "enc_ints n vs = concat (map (le_bytes n) vs)"

lemma enc_ints_simps [simp]:
  "enc_ints n [] = []"
  "enc_ints n (v # vs) = le_bytes n v @ enc_ints n vs"
  "enc_ints n (us @ vs) = enc_ints n us @ enc_ints n vs"
  by (simp_all add: enc_ints_def)

lemma length_enc_ints [simp]: "length (enc_ints n vs) = n * length vs"
  by (induction vs) auto

lemma take_enc_ints: "take (n * k) (enc_ints n vs) = enc_ints n (take k vs)"
proof (cases "k \<le> length vs")
  case True
  have "enc_ints n vs = enc_ints n (take k vs) @ enc_ints n (drop k vs)"
    by (simp flip: enc_ints_simps(3))
  then show ?thesis using True by (simp add: take_append)
next
  case False
  then show ?thesis by simp
qed

lemma drop_enc_ints: "drop (n * k) (enc_ints n vs) = enc_ints n (drop k vs)"
proof (cases "k \<le> length vs")
  case True
  have "enc_ints n vs = enc_ints n (take k vs) @ enc_ints n (drop k vs)"
    by (simp flip: enc_ints_simps(3))
  then show ?thesis using True by simp
next
  case False
  then show ?thesis by simp
qed

lemma rd_enc_ints:
  assumes "i < length vs"
  shows "rd (enc_ints n vs) (n * i) n = Some (le_bytes n (vs ! i))"
proof -
  have "n * i + n \<le> n * length vs"
    using assms by (metis Suc_leI add.commute mult_Suc_right mult_le_mono2)
  moreover have "take n (enc_ints n (drop i vs)) = le_bytes n (vs ! i)"
    using assms by (simp flip: Cons_nth_drop_Suc)
  ultimately show ?thesis by (simp add: rd_def drop_enc_ints)
qed

lemma wr_enc_ints:
  assumes "i < length vs"
  shows "wr (enc_ints n vs) (n * i) (le_bytes n v) = Some (enc_ints n (vs[i := v]))"
proof -
  have "n * i + n \<le> n * length vs"
    using assms by (metis Suc_leI add.commute mult_Suc_right mult_le_mono2)
  moreover have "drop (n * i + n) (enc_ints n vs) = enc_ints n (drop (Suc i) vs)"
    using drop_enc_ints [of n "Suc i" vs] by (simp add: add.commute)
  ultimately show ?thesis
    using assms by (simp add: wr_def take_enc_ints upd_conv_take_nth_drop)
qed

lemma mem_move_enc_ints:
  assumes "src + k \<le> length vs" and "dst + k \<le> length vs"
  shows "mem_move (enc_ints n vs) (n * dst) (n * src) (n * k) =
    Some (enc_ints n (take dst vs @ take k (drop src vs) @ drop (dst + k) vs))"
proof -
  have "n * src + n * k \<le> n * length vs" "n * dst + n * k \<le> n * length vs"
    using assms by (metis distrib_left mult_le_mono2)+
  moreover have "take (n * k) (drop (n * src) (enc_ints n vs)) = enc_ints n (take k (drop src vs))"
    by (simp add: drop_enc_ints take_enc_ints)
  moreover have "drop (n * dst + n * k) (enc_ints n vs) = enc_ints n (drop (dst + k) vs)"
    using drop_enc_ints [of n "dst + k" vs] by (simp add: distrib_left)
  moreover have "length (enc_ints n (take k (drop src vs))) = n * k"
    using assms by simp
  ultimately show ?thesis
    by (simp add: mem_move_def rd_def wr_def take_enc_ints del: length_enc_ints)
      (simp add: drop_enc_ints)
qed

lemma enc_ints_of_bytes:
  assumes "length bs = n"
  shows "bs = enc_ints n [le_uint bs]"
  using assms le_bytes_le_uint [of bs] by simp
section \<open>Lists\<close>

lemma take_drop_split: "i < length xs \<Longrightarrow> xs = take i xs @ xs ! i # drop (Suc i) xs"
  by (simp add: id_take_nth_drop)

lemma sorted_wrt_less_nth: "sorted_wrt (<) xs \<Longrightarrow> i < j \<Longrightarrow> j < length xs \<Longrightarrow> xs ! i < (xs ! j :: 'a :: linorder)"
  by (simp add: sorted_wrt_nth_less)

text \<open>
  From the C library: \<open>tolower\<close> in the C locale, the length of the string at the start of a
  buffer, and the case-insensitive comparison of two of them.
\<close>

definition tolower :: "byte \<Rightarrow> byte" where
  "tolower c = (if 65 \<le> c \<and> c \<le> 90 then c + 32 else c)"

definition c_string :: "byte list \<Rightarrow> byte list" where
  "c_string m = takeWhile (\<lambda>c. c \<noteq> 0) m"

definition strcaseeq :: "byte list \<Rightarrow> byte list \<Rightarrow> bool" where
  "strcaseeq a b \<longleftrightarrow> map tolower (c_string a) = map tolower (c_string b)"

text \<open>The array element at an index, \<open>None\<close> past the end.\<close>

definition peek :: "'a list \<Rightarrow> nat \<Rightarrow> 'a option" where
  "peek m i = (if i < length m then Some (m ! i) else None)"

lemma peek_Some: "peek m i = Some c \<longleftrightarrow> i < length m \<and> c = m ! i"
  by (auto simp: peek_def)

section \<open>Replies\<close>

text \<open>
  What is appended to a client's output: the calls of the \<open>addReply\<close> family.  \<open>Shared\<close> is one of the
  shared objects, \<open>Raw\<close> the string of another one as it is.
\<close>

datatype reply =
    Shared string
  | MbulkHdr nat
  | Bulk "byte list"
  | LongLong int
  | ReplyError string
  | Status string
  | Raw "byte list"

text \<open>Two hosts to run examples on.\<close>

definition le_host :: host where "le_host = \<lparr>big_endian = False, junk = (\<lambda>_. 0)\<rparr>"
definition be_host :: host where "be_host = \<lparr>big_endian = True, junk = (\<lambda>_. 0)\<rparr>"

end
