(* ===== verification/Endianconv.thy ===== *)
theory Endianconv
  imports Prelude
begin

text \<open>
  \<open>redis/src/endianconv.c\<close> and \<open>endianconv.h\<close>: reversing the bytes of an integer in
  memory, always (\<open>memrev\<close>, \<open>intrev\<close>) or only on a big endian host (\<open>\<dots>ifbe\<close>).
  The host's byte order is the field \<open>big_endian\<close> of the argument \<open>h\<close>.  The functions
  on memory take the bytes at the pointer and fail with \<open>None\<close> when there are too few.
\<close>

section \<open>Integers in the memory of the host\<close>

definition native_bytes :: "host \<Rightarrow> nat \<Rightarrow> int \<Rightarrow> byte list" where
  "native_bytes h n v = (if big_endian h then rev (le_bytes n v) else le_bytes n v)"

definition native_uint :: "host \<Rightarrow> byte list \<Rightarrow> int" where
  "native_uint h bs = le_uint (if big_endian h then rev bs else bs)"

definition native_sint :: "host \<Rightarrow> byte list \<Rightarrow> int" where
  "native_sint h bs = le_sint (if big_endian h then rev bs else bs)"

section \<open>The conversions\<close>

fun memrev16 :: "byte list \<Rightarrow> byte list option" where
  "memrev16 (x0 # x1 # r) = Some (x1 # x0 # r)"
| "memrev16 _ = None"

fun memrev32 :: "byte list \<Rightarrow> byte list option" where
  "memrev32 (x0 # x1 # x2 # x3 # r) = Some (x3 # x2 # x1 # x0 # r)"
| "memrev32 _ = None"

fun memrev64 :: "byte list \<Rightarrow> byte list option" where
  "memrev64 (x0 # x1 # x2 # x3 # x4 # x5 # x6 # x7 # r) =
     Some (x7 # x6 # x5 # x4 # x3 # x2 # x1 # x0 # r)"
| "memrev64 _ = None"

definition intrev16 :: "host \<Rightarrow> u16 \<Rightarrow> u16" where
  "intrev16 h v = (case memrev16 (native_bytes h 2 (uint v)) of
     Some bs \<Rightarrow> word_of_int (native_uint h bs) | None \<Rightarrow> v)"

definition intrev32 :: "host \<Rightarrow> u32 \<Rightarrow> u32" where
  "intrev32 h v = (case memrev32 (native_bytes h 4 (uint v)) of
     Some bs \<Rightarrow> word_of_int (native_uint h bs) | None \<Rightarrow> v)"

definition intrev64 :: "host \<Rightarrow> u64 \<Rightarrow> u64" where
  "intrev64 h v = (case memrev64 (native_bytes h 8 (uint v)) of
     Some bs \<Rightarrow> word_of_int (native_uint h bs) | None \<Rightarrow> v)"

definition memrev16ifbe :: "host \<Rightarrow> byte list \<Rightarrow> byte list option" where
  "memrev16ifbe h p = (if big_endian h then memrev16 p else Some p)"

definition memrev32ifbe :: "host \<Rightarrow> byte list \<Rightarrow> byte list option" where
  "memrev32ifbe h p = (if big_endian h then memrev32 p else Some p)"

definition memrev64ifbe :: "host \<Rightarrow> byte list \<Rightarrow> byte list option" where
  "memrev64ifbe h p = (if big_endian h then memrev64 p else Some p)"

definition intrev32ifbe :: "host \<Rightarrow> u32 \<Rightarrow> u32" where
  "intrev32ifbe h v = (if big_endian h then intrev32 h v else v)"

section \<open>Reversal\<close>

lemma memrev16_rev: "length p = 2 \<Longrightarrow> memrev16 p = Some (rev p)"
  by (auto simp: length_Suc_conv numeral_eq_Suc)

lemma memrev32_rev: "length p = 4 \<Longrightarrow> memrev32 p = Some (rev p)"
  by (auto simp: length_Suc_conv numeral_eq_Suc)

lemma memrev64_rev: "length p = 8 \<Longrightarrow> memrev64 p = Some (rev p)"
  by (auto simp: length_Suc_conv numeral_eq_Suc)

lemmas memrev_rev = memrev16_rev memrev32_rev memrev64_rev

lemma length_native_bytes [simp]: "length (native_bytes h n v) = n"
  by (simp add: native_bytes_def)

text \<open>
  Storing an integer in the host's order and then converting \<open>ifbe\<close> leaves the little
  endian bytes, on every host; reading them back the same way gives the integer.
\<close>

lemma memrevifbe_native:
  "memrev16ifbe h (native_bytes h 2 v) = Some (le_bytes 2 v)"
  "memrev32ifbe h (native_bytes h 4 v) = Some (le_bytes 4 v)"
  "memrev64ifbe h (native_bytes h 8 v) = Some (le_bytes 8 v)"
  by (simp_all add: memrev16ifbe_def memrev32ifbe_def memrev64ifbe_def memrev_rev native_bytes_def)

lemma memrevifbe_le:
  "memrev16ifbe h (le_bytes 2 v) = Some (native_bytes h 2 v)"
  "memrev32ifbe h (le_bytes 4 v) = Some (native_bytes h 4 v)"
  "memrev64ifbe h (le_bytes 8 v) = Some (native_bytes h 8 v)"
  by (simp_all add: memrev16ifbe_def memrev32ifbe_def memrev64ifbe_def memrev_rev native_bytes_def)

lemma native_sint_native_bytes: "native_sint h (native_bytes h n v) = le_sint (le_bytes n v)"
  by (simp add: native_sint_def native_bytes_def)

lemma intrev32_bytes: "intrev32 h v = word_of_int (le_uint (rev (le_bytes 4 (uint v))))"
  by (simp add: intrev32_def memrev_rev native_bytes_def native_uint_def)

lemma le_bytes_uint_of_rev:
  fixes w :: "'a :: len word"
  assumes "w = word_of_int (le_uint (rev (le_bytes n v)))" and "LENGTH('a) = 8 * n"
  shows "le_bytes n (uint w) = rev (le_bytes n v)"
proof -
  have "le_uint (rev (le_bytes n v)) < 2 ^ LENGTH('a)"
    using le_uint_bound [of "rev (le_bytes n v)"] assms(2) by (simp add: power_mult)
  then have "uint w = le_uint (rev (le_bytes n v))"
    using assms(1) by (simp add: uint_word_of_int)
  then show ?thesis using le_bytes_le_uint [of "rev (le_bytes n v)"] by simp
qed

lemma word_of_int_le_bytes:
  fixes w :: "'a :: len word"
  assumes "LENGTH('a) = 8 * n"
  shows "word_of_int (le_uint (le_bytes n (uint w))) = w"
proof -
  have "uint w < 256 ^ n"
    using uint_range_size [of w] assms by (simp add: word_size power_mult)
  then show ?thesis by (simp add: le_uint_le_bytes)
qed

lemma intrev32_intrev32 [simp]: "intrev32 h (intrev32 h v) = v"
  using le_bytes_uint_of_rev [OF intrev32_bytes [of h v]]
  by (simp add: intrev32_bytes word_of_int_le_bytes)

lemma intrev16_intrev16 [simp]: "intrev16 h (intrev16 h v) = v"
proof -
  have eq: "intrev16 h w = word_of_int (le_uint (rev (le_bytes 2 (uint w))))" for w
    by (simp add: intrev16_def memrev_rev native_bytes_def native_uint_def)
  show ?thesis
    using le_bytes_uint_of_rev [OF eq [of v]] by (simp add: eq word_of_int_le_bytes)
qed

lemma intrev64_intrev64 [simp]: "intrev64 h (intrev64 h v) = v"
proof -
  have eq: "intrev64 h w = word_of_int (le_uint (rev (le_bytes 8 (uint w))))" for w
    by (simp add: intrev64_def memrev_rev native_bytes_def native_uint_def)
  show ?thesis
    using le_bytes_uint_of_rev [OF eq [of v]] by (simp add: eq word_of_int_le_bytes)
qed

lemma intrev32ifbe_intrev32ifbe [simp]: "intrev32ifbe h (intrev32ifbe h v) = v"
  by (simp add: intrev32ifbe_def)

lemma intrev32ifbe_zero [simp]: "intrev32ifbe h 0 = 0"
  by (simp add: intrev32ifbe_def intrev32_bytes numeral_eq_Suc)

text \<open>A converted field is stored as little endian bytes.\<close>

lemma native_bytes_intrev32ifbe: "native_bytes h 4 (uint (intrev32ifbe h v)) = le_bytes 4 (uint v)"
  using le_bytes_uint_of_rev [OF intrev32_bytes [of h v]]
  by (simp add: native_bytes_def intrev32ifbe_def)

end
