(* ===== verification/SetOps.thy ===== *)
theory SetOps
  imports Prelude
begin

text \<open>
  What the two implementations of a set (the sorted integer array and the hash table)
  promise to the set commands, as a locale: the answers of add, remove and find, and the
  mathematical set each state stands for.  The client is a run of such operations.
\<close>

datatype 'x set_op = SetAdd 'x | SetRem 'x | SetFind 'x

fun op_arg :: "'x set_op \<Rightarrow> 'x" where
  "op_arg (SetAdd x) = x"
| "op_arg (SetRem x) = x"
| "op_arg (SetFind x) = x"

text \<open>A run of operations: their answers, and the state at the end.\<close>

fun set_step :: "('s \<Rightarrow> 'x \<Rightarrow> ('s \<times> bool) option) \<Rightarrow> ('s \<Rightarrow> 'x \<Rightarrow> ('s \<times> bool) option) \<Rightarrow>
    ('s \<Rightarrow> 'x \<Rightarrow> ('s \<times> bool) option) \<Rightarrow> 's \<Rightarrow> 'x set_op \<Rightarrow> ('s \<times> bool) option" where
  "set_step add rem fnd s (SetAdd x) = add s x"
| "set_step add rem fnd s (SetRem x) = rem s x"
| "set_step add rem fnd s (SetFind x) = fnd s x"

primrec set_run :: "('s \<Rightarrow> 'x \<Rightarrow> ('s \<times> bool) option) \<Rightarrow> ('s \<Rightarrow> 'x \<Rightarrow> ('s \<times> bool) option) \<Rightarrow>
    ('s \<Rightarrow> 'x \<Rightarrow> ('s \<times> bool) option) \<Rightarrow> 's \<Rightarrow> 'x set_op list \<Rightarrow> ('s \<times> bool list) option" where
  "set_run add rem fnd s [] = Some (s, [])"
| "set_run add rem fnd s (c # cs) = do {
     (s, r) \<leftarrow> set_step add rem fnd s c;
     (s, rs) \<leftarrow> set_run add rem fnd s cs;
     Some (s, r # rs)
   }"

text \<open>The same operations on a mathematical set; \<open>el\<close> is the element an argument stands for.\<close>

fun set_spec_step :: "('x \<Rightarrow> 'e) \<Rightarrow> 'e set \<Rightarrow> 'x set_op \<Rightarrow> 'e set \<times> bool" where
  "set_spec_step el A (SetAdd x) = (insert (el x) A, el x \<notin> A)"
| "set_spec_step el A (SetRem x) = (A - {el x}, el x \<in> A)"
| "set_spec_step el A (SetFind x) = (A, el x \<in> A)"

primrec set_spec :: "('x \<Rightarrow> 'e) \<Rightarrow> 'e set \<Rightarrow> 'x set_op list \<Rightarrow> 'e set \<times> bool list" where
  "set_spec el A [] = (A, [])"
| "set_spec el A (c # cs) =
     (let (A, r) = set_spec_step el A c; (A, rs) = set_spec el A cs in (A, r # rs))"

locale set_ops =
  fixes rep :: "'s \<Rightarrow> 'e set \<Rightarrow> bool"
    and el :: "'x \<Rightarrow> 'e"
    and arg_ok :: "'x \<Rightarrow> bool"
    and cap :: nat
    and add rem fnd :: "'s \<Rightarrow> 'x \<Rightarrow> ('s \<times> bool) option"
  assumes rep_finite: "rep s A \<Longrightarrow> finite A"
    and add_ok: "rep s A \<Longrightarrow> arg_ok x \<Longrightarrow> Suc (card A) \<le> cap \<Longrightarrow>
      \<exists>s'. add s x = Some (s', el x \<notin> A) \<and> rep s' (insert (el x) A)"
    and rem_ok: "rep s A \<Longrightarrow> arg_ok x \<Longrightarrow> \<exists>s'. rem s x = Some (s', el x \<in> A) \<and> rep s' (A - {el x})"
    and find_ok: "rep s A \<Longrightarrow> arg_ok x \<Longrightarrow> \<exists>s'. fnd s x = Some (s', el x \<in> A) \<and> rep s' A"
begin

lemma step_refines:
  assumes "rep s A" "arg_ok (op_arg c)" "Suc (card A) \<le> cap"
  shows "\<exists>s'. set_step add rem fnd s c = Some (s', snd (set_spec_step el A c)) \<and> rep s' (fst (set_spec_step el A c)) \<and>
    card (fst (set_spec_step el A c)) \<le> Suc (card A)"
proof (cases c)
  case (SetAdd x)
  then obtain s' where "add s x = Some (s', el x \<notin> A)" "rep s' (insert (el x) A)"
    using add_ok [OF assms(1) _ assms(3), of x] assms(2) by auto
  then show ?thesis using SetAdd rep_finite [OF assms(1)] by (simp add: card_insert_if)
next
  case (SetRem x)
  then show ?thesis using rem_ok [OF assms(1)] assms(2) rep_finite [OF assms(1)] card_Diff1_le [of A "el x"]
    by (simp add: le_SucI)
next
  case (SetFind x)
  then show ?thesis using find_ok [OF assms(1)] assms(2) by simp
qed

text \<open>A run gives the answers of the mathematical set as long as it cannot grow beyond \<open>cap\<close>.\<close>

lemma run_refines:
  assumes "rep s A" "\<forall>c \<in> set cs. arg_ok (op_arg c)" "card A + length cs \<le> cap"
  shows "\<exists>s'. set_run add rem fnd s cs = Some (s', snd (set_spec el A cs)) \<and> rep s' (fst (set_spec el A cs))"
  using assms
proof (induction cs arbitrary: s A)
  case (Cons c cs)
  obtain s1 where s1: "set_step add rem fnd s c = Some (s1, snd (set_spec_step el A c))"
    "rep s1 (fst (set_spec_step el A c))" "card (fst (set_spec_step el A c)) \<le> Suc (card A)"
    using step_refines [OF Cons.prems(1), of c] Cons.prems by auto
  have "card (fst (set_spec_step el A c)) + length cs \<le> cap" using s1(3) Cons.prems(3) by simp
  then obtain s2 where "set_run add rem fnd s1 cs = Some (s2, snd (set_spec el (fst (set_spec_step el A c)) cs))"
    "rep s2 (fst (set_spec el (fst (set_spec_step el A c)) cs))"
    using Cons.IH [OF s1(2)] Cons.prems(2) by auto
  then show ?case using s1(1) by (auto simp: Let_def split: prod.splits)
qed simp

end

end
