(* ===== verification/Intset.thy ===== *)
theory Intset
  imports Endianconv SetOps
begin

text \<open>
  \<open>redis/src/intset.c\<close>: the sorted array of 16, 32 or 64 bit integers that holds small
  sets.  The record has the two header words as they are stored (little endian, so every
  use goes through \<open>intrev32ifbe\<close>) and the bytes of \<open>contents\<close>.  A C function with a
  leading underscore has the prefix \<open>u_\<close>.  \<open>None\<close> is an access outside the block or a
  signed overflow; \<open>uint32_t\<close> values are words, so their arithmetic wraps.
\<close>

section \<open>The code\<close>

record intset =
  is_encoding :: u32
  is_length :: u32
  is_contents :: "byte list"

abbreviation INTSET_ENC_INT16 :: u32 where "INTSET_ENC_INT16 \<equiv> 2"
abbreviation INTSET_ENC_INT32 :: u32 where "INTSET_ENC_INT32 \<equiv> 4"
abbreviation INTSET_ENC_INT64 :: u32 where "INTSET_ENC_INT64 \<equiv> 8"
abbreviation INT_MAX :: int where "INT_MAX \<equiv> 2147483647"

definition u_intsetValueEncoding :: "int \<Rightarrow> u32" where
  "u_intsetValueEncoding v =
     (if v < - 2147483648 \<or> v > 2147483647 then INTSET_ENC_INT64
      else if v < - 32768 \<or> v > 32767 then INTSET_ENC_INT32
      else INTSET_ENC_INT16)"

definition u_intsetGetEncoded :: "host \<Rightarrow> intset \<Rightarrow> int \<Rightarrow> u32 \<Rightarrow> int option" where
  "u_intsetGetEncoded h is pos enc =
     (if enc = INTSET_ENC_INT64 then do {
        v64 \<leftarrow> rdz (is_contents is) (8 * pos) 8;
        v64 \<leftarrow> memrev64ifbe h v64;
        Some (native_sint h v64)
      } else if enc = INTSET_ENC_INT32 then do {
        v32 \<leftarrow> rdz (is_contents is) (4 * pos) 4;
        v32 \<leftarrow> memrev32ifbe h v32;
        Some (native_sint h v32)
      } else do {
        v16 \<leftarrow> rdz (is_contents is) (2 * pos) 2;
        v16 \<leftarrow> memrev16ifbe h v16;
        Some (native_sint h v16)
      })"

definition u_intsetGet :: "host \<Rightarrow> intset \<Rightarrow> int \<Rightarrow> int option" where
  "u_intsetGet h is pos = u_intsetGetEncoded h is pos (intrev32ifbe h (is_encoding is))"

text \<open>The assignment stores the host's bytes, \<open>memrev\<close> then converts them in place.\<close>

definition u_intsetSet :: "host \<Rightarrow> intset \<Rightarrow> int \<Rightarrow> int \<Rightarrow> intset option" where
  "u_intsetSet h is pos value =
     (let encoding = intrev32ifbe h (is_encoding is) in
      if encoding = INTSET_ENC_INT64 then do {
        bs \<leftarrow> memrev64ifbe h (native_bytes h 8 value);
        c \<leftarrow> wrz (is_contents is) (8 * pos) bs;
        Some (is\<lparr>is_contents := c\<rparr>)
      } else if encoding = INTSET_ENC_INT32 then do {
        bs \<leftarrow> memrev32ifbe h (native_bytes h 4 value);
        c \<leftarrow> wrz (is_contents is) (4 * pos) bs;
        Some (is\<lparr>is_contents := c\<rparr>)
      } else do {
        bs \<leftarrow> memrev16ifbe h (native_bytes h 2 value);
        c \<leftarrow> wrz (is_contents is) (2 * pos) bs;
        Some (is\<lparr>is_contents := c\<rparr>)
      })"

definition intsetNew :: "host \<Rightarrow> intset" where
  "intsetNew h = \<lparr>is_encoding = intrev32ifbe h INTSET_ENC_INT16, is_length = 0, is_contents = []\<rparr>"

definition intsetResize :: "host \<Rightarrow> intset \<Rightarrow> u32 \<Rightarrow> intset" where
  "intsetResize h is len =
     (let size = len * intrev32ifbe h (is_encoding is) in
      is\<lparr>is_contents := mem_resize h (is_contents is) (unat size)\<rparr>)"

text \<open>
  The \<open>while\<close> loop of \<open>intsetSearch\<close>; the result is \<open>(min', mid, cur)\<close> after it.
  Positions are C \<open>int\<close>s: their sum must not overflow.
\<close>

function intsetSearch_loop ::
  "host \<Rightarrow> intset \<Rightarrow> int \<Rightarrow> int \<Rightarrow> int \<Rightarrow> int \<Rightarrow> int \<Rightarrow> (int \<times> int \<times> int) option" where
  "intsetSearch_loop h is value min' max' mid cur =
     (if max' \<ge> min' then
        if min' + max' > INT_MAX \<or> min' < 0 then None else do {
          let mid = (min' + max') div 2;
          cur \<leftarrow> u_intsetGet h is mid;
          if value > cur then intsetSearch_loop h is value (mid + 1) max' mid cur
          else if value < cur then intsetSearch_loop h is value min' (mid - 1) mid cur
          else Some (min', mid, cur)
        }
      else Some (min', mid, cur))"
  by pat_completeness auto
termination
  by (relation "measure (\<lambda>(h, is, value, min', max', mid, cur). nat (max' + 1 - min'))") auto

declare intsetSearch_loop.simps [simp del]

definition intsetSearch :: "host \<Rightarrow> intset \<Rightarrow> int \<Rightarrow> (bool \<times> u32) option" where
  "intsetSearch h is value =
     (let min' = 0; max' = sint (intrev32ifbe h (is_length is) - 1); mid = - 1; cur = - 1 in
      if intrev32ifbe h (is_length is) = 0 then Some (False, 0)
      else do {
        l \<leftarrow> u_intsetGet h is (sint (intrev32ifbe h (is_length is) - 1));
        if value > l then Some (False, intrev32ifbe h (is_length is))
        else do {
          f \<leftarrow> u_intsetGet h is 0;
          if value < f then Some (False, 0)
          else do {
            (min', mid, cur) \<leftarrow> intsetSearch_loop h is value min' max' mid cur;
            if value = cur then Some (True, word_of_int mid)
            else Some (False, word_of_int min')
          }
        }
      })"

text \<open>\<open>while(length--)\<close>: from the last element to the first.\<close>

primrec intsetUpgrade_loop :: "host \<Rightarrow> intset \<Rightarrow> nat \<Rightarrow> int \<Rightarrow> u32 \<Rightarrow> intset option" where
  "intsetUpgrade_loop h is 0 prepend curenc = Some is"
| "intsetUpgrade_loop h is (Suc l) prepend curenc = do {
     v \<leftarrow> u_intsetGetEncoded h is (int l) curenc;
     is \<leftarrow> u_intsetSet h is (int l + prepend) v;
     intsetUpgrade_loop h is l prepend curenc
   }"

definition intsetUpgradeAndAdd :: "host \<Rightarrow> intset \<Rightarrow> int \<Rightarrow> intset option" where
  "intsetUpgradeAndAdd h is value = do {
     let curenc = intrev32ifbe h (is_encoding is);
     let newenc = u_intsetValueEncoding value;
     let len = intrev32ifbe h (is_length is);
     let prepend = (if value < 0 then 1 else 0);
     let is = is\<lparr>is_encoding := intrev32ifbe h newenc\<rparr>;
     let is = intsetResize h is (intrev32ifbe h (is_length is) + 1);
     is \<leftarrow> intsetUpgrade_loop h is (unat len) prepend curenc;
     is \<leftarrow> (if prepend \<noteq> 0 then u_intsetSet h is 0 value
           else u_intsetSet h is (sint (intrev32ifbe h (is_length is))) value);
     Some (is\<lparr>is_length := intrev32ifbe h (intrev32ifbe h (is_length is) + 1)\<rparr>)
   }"

definition intsetMoveTail :: "host \<Rightarrow> intset \<Rightarrow> u32 \<Rightarrow> u32 \<Rightarrow> intset option" where
  "intsetMoveTail h is from to =
     (let bytes = intrev32ifbe h (is_length is) - from;
          encoding = intrev32ifbe h (is_encoding is);
          (src, dst, bytes) =
            (if encoding = INTSET_ENC_INT64 then (8 * unat from, 8 * unat to, bytes * 8)
             else if encoding = INTSET_ENC_INT32 then (4 * unat from, 4 * unat to, bytes * 4)
             else (2 * unat from, 2 * unat to, bytes * 2)) in do {
        c \<leftarrow> mem_move (is_contents is) dst src (unat bytes);
        Some (is\<lparr>is_contents := c\<rparr>)
      })"

text \<open>The second component is \<open>*success\<close>.\<close>

definition intsetAdd :: "host \<Rightarrow> intset \<Rightarrow> int \<Rightarrow> (intset \<times> bool) option" where
  "intsetAdd h is value =
     (let valenc = u_intsetValueEncoding value in
      if valenc > intrev32ifbe h (is_encoding is) then do {
        is \<leftarrow> intsetUpgradeAndAdd h is value;
        Some (is, True)
      } else do {
        (found, pos) \<leftarrow> intsetSearch h is value;
        if found then Some (is, False)
        else do {
          let is = intsetResize h is (intrev32ifbe h (is_length is) + 1);
          is \<leftarrow> (if pos < intrev32ifbe h (is_length is)
                then intsetMoveTail h is pos (pos + 1) else Some is);
          is \<leftarrow> u_intsetSet h is (sint pos) value;
          Some (is\<lparr>is_length := intrev32ifbe h (intrev32ifbe h (is_length is) + 1)\<rparr>, True)
        }
      })"

definition intsetRemove :: "host \<Rightarrow> intset \<Rightarrow> int \<Rightarrow> (intset \<times> bool) option" where
  "intsetRemove h is value =
     (let valenc = u_intsetValueEncoding value in
      if valenc \<le> intrev32ifbe h (is_encoding is) then do {
        (found, pos) \<leftarrow> intsetSearch h is value;
        if found then do {
          let len = intrev32ifbe h (is_length is);
          is \<leftarrow> (if pos < len - 1 then intsetMoveTail h is (pos + 1) pos else Some is);
          let is = intsetResize h is (len - 1);
          Some (is\<lparr>is_length := intrev32ifbe h (len - 1)\<rparr>, True)
        } else Some (is, False)
      } else Some (is, False))"

definition intsetFind :: "host \<Rightarrow> intset \<Rightarrow> int \<Rightarrow> bool option" where
  "intsetFind h is value =
     (let valenc = u_intsetValueEncoding value in
      if valenc \<le> intrev32ifbe h (is_encoding is) then do {
        (found, _) \<leftarrow> intsetSearch h is value;
        Some found
      } else Some False)"

text \<open>\<open>r\<close> is the value \<open>rand()\<close> returns; the modulus is taken in \<open>uint32_t\<close>.\<close>

definition intsetRandom :: "host \<Rightarrow> intset \<Rightarrow> u32 \<Rightarrow> int option" where
  "intsetRandom h is r =
     (if intrev32ifbe h (is_length is) = 0 then None
      else u_intsetGet h is (sint (r mod intrev32ifbe h (is_length is))))"

definition intsetGet :: "host \<Rightarrow> intset \<Rightarrow> u32 \<Rightarrow> int option option" where
  "intsetGet h is pos =
     (if pos < intrev32ifbe h (is_length is) then do {
        v \<leftarrow> u_intsetGet h is (sint pos);
        Some (Some v)
      } else Some None)"

definition intsetLen :: "host \<Rightarrow> intset \<Rightarrow> u32" where
  "intsetLen h is = intrev32ifbe h (is_length is)"

text \<open>\<open>sizeof(intset)\<close> is the eight bytes of the two header words.\<close>

definition intsetBlobLen :: "host \<Rightarrow> intset \<Rightarrow> nat" where
  "intsetBlobLen h is =
     8 + unat (intrev32ifbe h (is_length is) * intrev32ifbe h (is_encoding is))"

section \<open>The representation invariant\<close>

definition enc_word :: "nat \<Rightarrow> bool" where
  "enc_word n \<longleftrightarrow> n = 2 \<or> n = 4 \<or> n = 8"

definition intset_rep :: "host \<Rightarrow> intset \<Rightarrow> nat \<Rightarrow> int list \<Rightarrow> bool" where
  "intset_rep h is n vs \<longleftrightarrow>
     enc_word n \<and>
     is_encoding is = intrev32ifbe h (of_nat n) \<and>
     is_length is = intrev32ifbe h (of_nat (length vs)) \<and>
     is_contents is = enc_ints n vs \<and>
     list_all (int_fits n) vs \<and> sorted_wrt (<) vs \<and> 8 * length vs < 2 ^ 32"

lemma get_encoded:
  assumes "enc_word n" and "rd (is_contents is) (n * i) n = Some (le_bytes n v)" and "int_fits n v"
  shows "u_intsetGetEncoded h is (int i) (of_nat n) = Some v"
proof -
  have "rdz (is_contents is) (int n * int i) n = Some (le_bytes n v)"
    using assms(2) by (simp add: mem_simps flip: of_nat_mult)
  then show ?thesis
    using assms(1,3)
    by (auto simp: enc_word_def u_intsetGetEncoded_def memrevifbe_le native_sint_native_bytes
        le_sint_le_bytes)
qed

lemma set_encoded:
  assumes "enc_word n" and "is_encoding is = intrev32ifbe h (of_nat n)"
    and "wr (is_contents is) (n * i) (le_bytes n v) = Some c"
  shows "u_intsetSet h is (int i) v = Some (is\<lparr>is_contents := c\<rparr>)"
proof -
  have "wrz (is_contents is) (int n * int i) (le_bytes n v) = Some c"
    using assms(3) by (simp add: mem_simps flip: of_nat_mult)
  then show ?thesis
    using assms(1,2)
    by (auto simp: enc_word_def u_intsetSet_def memrevifbe_native Let_def)
qed

lemma get_rep:
  assumes "intset_rep h is n vs" and "i < length vs"
  shows "u_intsetGet h is (int i) = Some (vs ! i)"
proof -
  have "int_fits n (vs ! i)" using assms by (auto simp: intset_rep_def list_all_length)
  then show ?thesis
    using assms get_encoded [of n "is" i "vs ! i" h]
    by (simp add: intset_rep_def u_intsetGet_def rd_enc_ints)
qed

subsection \<open>Search\<close>

definition search_result :: "int list \<Rightarrow> int \<Rightarrow> int \<Rightarrow> int \<Rightarrow> int \<Rightarrow> bool" where
  "search_result vs x mn md cu \<longleftrightarrow>
     (if x = cu then 0 \<le> md \<and> md < int (length vs) \<and> vs ! nat md = x
      else 0 \<le> mn \<and> mn \<le> int (length vs) \<and>
        (\<forall>j < nat mn. vs ! j < x) \<and> (\<forall>j < length vs. nat mn \<le> j \<longrightarrow> x < vs ! j))"

lemma search_loop:
  assumes "intset_rep h is n vs"
    and "0 \<le> mn" "mn \<le> mx + 1" "mx < int (length vs)"
    and "\<forall>j < nat mn. vs ! j < x" "\<forall>j < length vs. mx < int j \<longrightarrow> x < vs ! j"
    and "mx < mn \<longrightarrow> x \<noteq> cu"
  shows "\<exists>mn' md' cu'. intsetSearch_loop h is x mn mx md cu = Some (mn', md', cu') \<and>
    search_result vs x mn' md' cu'"
  using assms
proof (induction h "is" x mn mx md cu rule: intsetSearch_loop.induct)
  case (1 h "is" x mn mx md cu)
  note rep = "1.prems"(1)
  have len: "8 * length vs < 2 ^ 32" and sorted: "sorted_wrt (<) vs"
    using rep by (simp_all add: intset_rep_def)
  show ?case
  proof (cases "mn \<le> mx")
    case False
    then show ?thesis
      using "1.prems" by (auto simp: intsetSearch_loop.simps [of h "is" x mn mx] search_result_def)
  next
    case True
    define m where "m = (mn + mx) div 2"
    have m: "mn \<le> m" "m \<le> mx" "0 \<le> m" "nat m < length vs"
      using True "1.prems"(2,4) by (auto simp: m_def)
    have get: "u_intsetGet h is m = Some (vs ! nat m)"
      using get_rep [OF rep m(4)] m(3) by simp
    have step: "intsetSearch_loop h is x mn mx md cu =
        (if x > vs ! nat m then intsetSearch_loop h is x (m + 1) mx m (vs ! nat m)
         else if x < vs ! nat m then intsetSearch_loop h is x mn (m - 1) m (vs ! nat m)
         else Some (mn, m, vs ! nat m))"
      using True len "1.prems"(2,4) get
      by (simp add: intsetSearch_loop.simps [of h "is" x mn mx] m_def Let_def)
    have no_ovf: "\<not> (mn + mx > INT_MAX \<or> mn < 0)" using len "1.prems"(2,4) True by auto
    consider (gt) "x > vs ! nat m" | (lt) "x < vs ! nat m" | (eq) "x = vs ! nat m"
      by linarith
    then show ?thesis
    proof cases
      case gt
      have "vs ! j < x" if "j < nat (m + 1)" for j
      proof (cases "j = nat m")
        case False
        with that m(3) have "j < nat m" by linarith
        then show ?thesis using sorted m(4) gt by (meson order.strict_trans sorted_wrt_nth_less)
      qed (use gt in simp)
      then show ?thesis
        using "1.IH"(1) [OF True no_ovf m_def get gt rep] m "1.prems" gt step by simp
    next
      case lt
      have "x < vs ! j" if "j < length vs" "m - 1 < int j" for j
      proof (cases "j = nat m")
        case False
        with that m(3) have "nat m < j" by linarith
        then show ?thesis using sorted that(1) lt by (meson order.strict_trans sorted_wrt_nth_less)
      qed (use lt in simp)
      then show ?thesis
        using "1.IH"(2) [OF True no_ovf m_def get less_not_sym [OF lt] lt rep]
          m "1.prems" lt step less_not_sym [OF lt] by simp
    next
      case eq
      then show ?thesis using step m by (simp add: search_result_def)
    qed
  qed
qed

lemma word_of_int_nat: "0 \<le> i \<Longrightarrow> word_of_int i = (of_nat (nat i) :: u32)"
  by simp

lemma sorted_find_pos:
  assumes "sorted_wrt (<) vs" and "i \<le> length vs"
    and "\<forall>j < i. vs ! j < (x :: int)" and "\<forall>j < length vs. i \<le> j \<longrightarrow> x < vs ! j"
  shows "x \<notin> set vs" and "\<forall>y \<in> set (take i vs). y < x" and "\<forall>y \<in> set (drop i vs). x < y"
proof -
  show "\<forall>y \<in> set (take i vs). y < x"
    using assms(2,3) by (auto simp: in_set_conv_nth)
  show "\<forall>y \<in> set (drop i vs). x < y"
    using assms(2,4) by (auto simp: in_set_conv_nth)
  show "x \<notin> set vs"
    using assms(3,4) by (metis in_set_conv_nth less_irrefl not_le)
qed

text \<open>What \<open>intsetSearch\<close> promises: membership, and the position of the value or where it belongs.\<close>

definition search_post :: "int list \<Rightarrow> int \<Rightarrow> bool \<Rightarrow> nat \<Rightarrow> bool" where
  "search_post vs x found pos \<longleftrightarrow>
     pos \<le> length vs \<and> (found \<longleftrightarrow> x \<in> set vs) \<and>
     (found \<longrightarrow> pos < length vs \<and> vs ! pos = x) \<and>
     (\<not> found \<longrightarrow> (\<forall>y \<in> set (take pos vs). y < x) \<and> (\<forall>y \<in> set (drop pos vs). x < y))"

lemma search_post_absent:
  assumes "sorted_wrt (<) vs" and "i \<le> length vs"
    and "\<forall>j < i. vs ! j < (x :: int)" and "\<forall>j < length vs. i \<le> j \<longrightarrow> x < vs ! j"
  shows "search_post vs x False i"
  using sorted_find_pos [OF assms] assms(2) by (simp add: search_post_def)

lemma search_rep:
  assumes rep: "intset_rep h is n vs"
  shows "\<exists>found pos. intsetSearch h is x = Some (found, of_nat pos) \<and> search_post vs x found pos"
proof (cases "vs = []")
  case True
  then show ?thesis
    using rep by (auto simp: intsetSearch_def intset_rep_def search_post_def intro!: exI [of _ 0])
next
  case False
  have len: "8 * length vs < 2 ^ 32" and sorted: "sorted_wrt (<) vs"
    and ln: "intrev32ifbe h (is_length is) = of_nat (length vs)"
    using rep by (simp_all add: intset_rep_def)
  have pred: "(of_nat (length vs) - 1 :: u32) = of_nat (length vs - 1)"
    using False by (simp add: of_nat_diff Suc_leI)
  have mx: "sint (of_nat (length vs) - 1 :: u32) = int (length vs - 1)"
    using len False unfolding pred by (intro sint_of_nat_u32) simp
  have nz: "(of_nat (length vs) :: u32) \<noteq> 0"
    using of_nat_u32_eq [of "length vs" 0] len False by simp
  have last: "u_intsetGet h is (int (length vs - 1)) = Some (vs ! (length vs - 1))"
    using False by (intro get_rep [OF rep]) simp
  have first: "u_intsetGet h is 0 = Some (vs ! 0)"
    using get_rep [OF rep, of 0] False by simp
  consider (above) "x > vs ! (length vs - 1)" | (below) "x < vs ! 0"
    | (mid) "vs ! 0 \<le> x" "x \<le> vs ! (length vs - 1)" by linarith
  then show ?thesis
  proof cases
    case above
    have lt: "vs ! j < x" if "j < length vs" for j
    proof (cases "j = length vs - 1")
      case neq: False
      with that have "j < length vs - 1" "length vs - 1 < length vs" by simp_all
      then have "vs ! j < vs ! (length vs - 1)" by (rule sorted_wrt_nth_less [OF sorted])
      with above show ?thesis by simp
    qed (use above in simp)
    moreover have "intsetSearch h is x = Some (False, of_nat (length vs))"
      using nz above last by (simp add: intsetSearch_def Let_def ln mx)
    moreover have "search_post vs x False (length vs)"
      using lt by (intro search_post_absent [OF sorted]) auto
    ultimately show ?thesis by blast
  next
    case below
    have lt: "x < vs ! j" if "j < length vs" for j
    proof (cases "j = 0")
      case neq: False
      then have "vs ! 0 < vs ! j" using that sorted_wrt_nth_less [OF sorted, of 0 j] by simp
      with below show ?thesis by simp
    qed (use below in simp)
    have "vs ! 0 \<le> vs ! (length vs - 1)"
      using sorted_wrt_nth_less [OF sorted, of 0 "length vs - 1"] False
      by (cases "length vs - 1 = 0") auto
    then have "intsetSearch h is x = Some (False, of_nat 0)"
      using nz below last first by (simp add: intsetSearch_def Let_def ln mx)
    moreover have "search_post vs x False 0"
      using lt by (intro search_post_absent [OF sorted]) auto
    ultimately show ?thesis by blast
  next
    case mid
    obtain mn md cu where loop: "intsetSearch_loop h is x 0 (int (length vs - 1)) (- 1) (- 1) =
        Some (mn, md, cu)" and res: "search_result vs x mn md cu"
      using search_loop [OF rep, of 0 "int (length vs - 1)" x "- 1" "- 1"] False by auto
    have s: "intsetSearch h is x =
        (if x = cu then Some (True, word_of_int md) else Some (False, word_of_int mn))"
      using nz mid last first loop by (simp add: intsetSearch_def Let_def ln mx)
    show ?thesis
    proof (cases "x = cu")
      case True
      with res have "search_post vs x True (nat md)" "word_of_int md = (of_nat (nat md) :: u32)"
        by (auto simp: search_result_def search_post_def)
      then show ?thesis using s True by auto
    next
      case ne: False
      with res have "search_post vs x False (nat mn)" "word_of_int mn = (of_nat (nat mn) :: u32)"
        by (auto simp: search_result_def intro!: search_post_absent [OF sorted])
      then show ?thesis using s ne by auto
    qed
  qed
qed

subsection \<open>Resizing and moving\<close>

lemma resize_rep:
  assumes "is_encoding is = intrev32ifbe h (of_nat n)" and "n * k < 4294967296"
  shows "intsetResize h is (of_nat k) = is\<lparr>is_contents := mem_resize h (is_contents is) (n * k)\<rparr>"
proof -
  have "(of_nat k * of_nat n :: u32) = of_nat (n * k)" by (simp add: mult.commute)
  then show ?thesis using assms(1)
    by (simp add: intsetResize_def Let_def unat_of_nat_u32 [OF assms(2)] del: of_nat_mult)
qed

lemma mem_resize_enc_ints_grow:
  "\<exists>j. mem_resize h (enc_ints n vs) (n * Suc (length vs)) = enc_ints n (vs @ [j])"
proof -
  define bs where "bs = map (junk h) [n * length vs ..< n * Suc (length vs)]"
  have "length bs = n" by (simp add: bs_def)
  then have "enc_ints n vs @ bs = enc_ints n (vs @ [le_uint bs])"
    using enc_ints_of_bytes [of bs n] by simp
  moreover have "mem_resize h (enc_ints n vs) (n * Suc (length vs)) = enc_ints n vs @ bs"
    by (simp add: mem_resize_grow bs_def)
  ultimately show ?thesis by auto
qed

lemma move_tail_rep:
  assumes "enc_word n" and "is_encoding is = intrev32ifbe h (of_nat n)"
    and "is_length is = intrev32ifbe h (of_nat len)" and "is_contents is = enc_ints n vs"
    and "from \<le> len" "8 * len < 4294967296" "len \<le> length vs" "to + (len - from) \<le> length vs" "8 * to < 4294967296"
  shows "intsetMoveTail h is (of_nat from) (of_nat to) =
    Some (is\<lparr>is_contents := enc_ints n (take to vs @ take (len - from) (drop from vs)
      @ drop (to + (len - from)) vs)\<rparr>)"
proof -
  have k: "(of_nat len - of_nat from :: u32) = of_nat (len - from)"
    using assms(5) by (simp add: of_nat_diff)
  have b: "unat ((of_nat len - of_nat from :: u32) * of_nat n) = n * (len - from)"
  proof -
    have "n * (len - from) \<le> 8 * len" using assms(1,5) by (auto simp: enc_word_def)
    then have "unat (of_nat (n * (len - from)) :: u32) = n * (len - from)"
      using assms(6) by (intro unat_of_nat_u32) simp
    then show ?thesis by (simp add: k mult.commute)
  qed
  have f: "unat (of_nat from :: u32) = from" "unat (of_nat to :: u32) = to"
    using assms by (simp_all add: unat_of_nat_u32)
  have mv: "mem_move (is_contents is) (n * to) (n * from) (n * (len - from)) =
      Some (enc_ints n (take to vs @ take (len - from) (drop from vs) @ drop (to + (len - from)) vs))"
    unfolding assms(4) using assms by (intro mem_move_enc_ints) auto
  show ?thesis
    using assms(1-3) b f mv
    by (auto simp: enc_word_def intsetMoveTail_def Let_def)
qed

subsection \<open>Upgrading in place\<close>

text \<open>
  The loop writes the wider elements from the back: with \<open>l\<close> elements left, the first
  \<open>m * l\<close> bytes still hold them in the old width, and the bytes from \<open>n * (l + p)\<close> on
  hold the others in the new one.  The regions never overlap because \<open>m < n\<close>.
\<close>

lemma upgrade_loop:
  assumes "enc_word m" "enc_word n" "m < n" "list_all (int_fits m) vs"
    and "is_encoding is = intrev32ifbe h (of_nat n)" "l \<le> length vs"
    and "n * (length vs + p) \<le> length (is_contents is)"
    and "take (m * l) (is_contents is) = enc_ints m (take l vs)"
    and "drop (n * (l + p)) (is_contents is) = enc_ints n (drop l vs) @ rest"
  shows "\<exists>c. intsetUpgrade_loop h is l (int p) (of_nat m) = Some (is\<lparr>is_contents := c\<rparr>) \<and>
    length c = length (is_contents is) \<and> drop (n * p) c = enc_ints n vs @ rest"
  using assms(5-)
proof (induction l arbitrary: "is")
  case 0
  then show ?case by (intro exI [of _ "is_contents is"]) simp
next
  case (Suc l)
  let ?c = "is_contents is" and ?v = "vs ! l"
  have l: "l < length vs" and fits: "int_fits m ?v"
    using Suc.prems(2) assms(4) by (auto simp: list_all_length)
  have ord: "m * Suc l \<le> n * Suc l" "m * l \<le> n * (l + p)"
    using assms(3) by (intro mult_le_mono; simp)+
  have bound: "n * Suc (l + p) \<le> length ?c"
    using Suc.prems(3) l by (metis Suc_leI add_Suc add_le_mono1 le_trans mult_le_mono2)
  have rd: "rd ?c (m * l) m = Some (le_bytes m ?v)"
  proof -
    have "take (m * Suc l) ?c = enc_ints m (take l vs) @ le_bytes m ?v"
      using Suc.prems(4) l by (simp add: take_Suc_conv_app_nth)
    then have "drop (m * l) (take (m * Suc l) ?c) = le_bytes m ?v"
      using l by simp
    moreover have "drop (m * l) (take (m * Suc l) ?c) = take m (drop (m * l) ?c)"
      by (simp only: drop_take) simp
    ultimately have "take m (drop (m * l) ?c) = le_bytes m ?v" by simp
    moreover have "m * l + m \<le> length ?c"
    proof -
      have "m * l + m \<le> n * Suc l" using ord(1) by simp
      also have "\<dots> \<le> n * Suc (l + p)" by (intro mult_le_mono2) simp
      also note bound
      finally show ?thesis .
    qed
    ultimately show ?thesis by (simp add: rd_def)
  qed
  define c' where "c' = take (n * (l + p)) ?c @ le_bytes n ?v @ drop (n * (l + p) + n) ?c"
  have wr: "wr ?c (n * (l + p)) (le_bytes n ?v) = Some c'"
    using bound by (simp add: wr_def c'_def add.commute)
  have len': "length c' = length ?c" using length_wr [OF wr] .
  have get: "u_intsetGetEncoded h is (int l) (of_nat m) = Some ?v"
    by (rule get_encoded [OF assms(1) rd fits])
  have set: "u_intsetSet h is (int l + int p) ?v = Some (is\<lparr>is_contents := c'\<rparr>)"
    using set_encoded [OF assms(2) Suc.prems(1) wr] by simp
  have tk: "take (m * l) c' = enc_ints m (take l vs)"
  proof -
    have "take (m * l) c' = take (m * l) ?c"
      using ord(2) bound by (simp add: c'_def)
    also have "\<dots> = take (m * l) (take (m * Suc l) ?c)" by (simp only: take_take) simp
    also have "\<dots> = take (m * l) (enc_ints m (take (Suc l) vs))" by (simp only: Suc.prems(4))
    also have "\<dots> = enc_ints m (take l vs)" by (simp only: take_enc_ints take_take) simp
    finally show ?thesis .
  qed
  have dr: "drop (n * (l + p)) c' = enc_ints n (drop l vs) @ rest"
  proof -
    have "drop (n * (l + p) + n) ?c = enc_ints n (drop (Suc l) vs) @ rest"
      using Suc.prems(5) by (simp add: algebra_simps)
    then have "drop (n * (l + p)) c' = le_bytes n ?v @ enc_ints n (drop (Suc l) vs) @ rest"
      using bound by (simp add: c'_def)
    then show ?thesis using l by (simp flip: Cons_nth_drop_Suc)
  qed
  obtain c where "intsetUpgrade_loop h (is\<lparr>is_contents := c'\<rparr>) l (int p) (of_nat m) =
      Some (is\<lparr>is_contents := c\<rparr>)" "length c = length ?c" "drop (n * p) c = enc_ints n vs @ rest"
    using Suc.IH [of "is\<lparr>is_contents := c'\<rparr>"] Suc.prems(1,3) l tk dr len' by auto
  then show ?case using get set by (intro exI [of _ c]) simp
qed

subsection \<open>Widths of values\<close>

definition val_width :: "int \<Rightarrow> nat" where
  "val_width x = (if int_fits 2 x then 2 else if int_fits 4 x then 4 else 8)"

lemma value_encoding: "u_intsetValueEncoding x = of_nat (val_width x)"
  by (auto simp: u_intsetValueEncoding_def val_width_def int_fits_def)

lemma val_width_word: "enc_word (val_width x)"
  by (simp add: val_width_def enc_word_def)

lemma val_width_fits: "int_fits 8 x \<Longrightarrow> val_width x \<le> n \<Longrightarrow> int_fits n x"
  by (auto simp: val_width_def split: if_splits intro: int_fits_mono)

lemma val_width_min: "int_fits n x \<Longrightarrow> enc_word n \<Longrightarrow> val_width x \<le> n"
  by (auto simp: val_width_def enc_word_def)

lemma val_width_outside:
  assumes "int_fits n v" "enc_word n" "n < val_width x"
  shows "x < 0 \<Longrightarrow> x < v" and "0 \<le> x \<Longrightarrow> v < x"
proof -
  have "\<not> int_fits n x" using val_width_min [OF _ assms(2)] assms(3) by fastforce
  then show "x < 0 \<Longrightarrow> x < v" and "0 \<le> x \<Longrightarrow> v < x"
    using assms(1) unfolding int_fits_def by linarith+
qed

lemma enc_word_less: "enc_word n \<Longrightarrow> enc_word m \<Longrightarrow> (of_nat n :: u32) < of_nat m \<longleftrightarrow> n < m"
  by (auto simp: enc_word_def)

subsection \<open>The operations\<close>

lemma intset_rep_new: "intset_rep h (intsetNew h) 2 []"
  by (simp add: intset_rep_def intsetNew_def enc_word_def intrev32ifbe_zero)

lemma upgrade_rep:
  assumes rep: "intset_rep h is m vs" and n: "n = val_width x" "m < n" "int_fits 8 x"
    and room: "8 * Suc (length vs) < 2 ^ 32"
  shows "\<exists>is'. intsetUpgradeAndAdd h is x = Some is' \<and>
    intset_rep h is' n (if x < 0 then x # vs else vs @ [x])"
proof -
  define p where "p = (if x < 0 then 1 else 0 :: nat)"
  have m: "enc_word m" "list_all (int_fits m) vs" "sorted_wrt (<) vs"
    and en: "is_encoding is = intrev32ifbe h (of_nat m)"
    and ln: "is_length is = intrev32ifbe h (of_nat (length vs))"
    and ct: "is_contents is = enc_ints m vs"
    using rep by (simp_all add: intset_rep_def)
  have nw: "enc_word n" and fx: "int_fits n x"
    using n val_width_word val_width_fits by auto
  have fits: "list_all (int_fits n) vs"
    using m(2) n(2) by (auto simp: list_all_iff intro: int_fits_mono)
  define c0 where "c0 = mem_resize h (enc_ints m vs) (n * Suc (length vs))"
  define is0 where "is0 = is\<lparr>is_encoding := intrev32ifbe h (of_nat n), is_contents := c0\<rparr>"
  have small: "n * Suc (length vs) < 4294967296"
    using room nw by (auto simp: enc_word_def)
  have rs: "intsetResize h (is\<lparr>is_encoding := intrev32ifbe h (of_nat n)\<rparr>) (of_nat (length vs) + 1) = is0"
    using resize_rep [of "is\<lparr>is_encoding := intrev32ifbe h (of_nat n)\<rparr>" h n "Suc (length vs)"] small
    by (simp add: is0_def c0_def ct add.commute)
  have "m * length vs \<le> n * Suc (length vs)" using n(2) by (intro mult_le_mono) simp_all
  then have le: "length (enc_ints m vs) \<le> n * Suc (length vs)" by simp
  have c0: "length c0 = n * Suc (length vs)" "take (m * length vs) c0 = enc_ints m vs"
    unfolding c0_def mem_resize_grow [OF le] using le by auto
  have pl: "n * (length vs + p) \<le> n * Suc (length vs)"
    by (intro mult_le_mono2) (simp add: p_def)
  obtain c where loop: "intsetUpgrade_loop h is0 (length vs) (int p) (of_nat m) = Some (is0\<lparr>is_contents := c\<rparr>)"
      and lc: "length c = n * Suc (length vs)"
      and dc: "drop (n * p) c = enc_ints n vs @ drop (n * (length vs + p)) c0"
    using upgrade_loop [of m n vs is0 h "length vs" p "drop (n * (length vs + p)) c0"] m(1,2) nw n(2) c0 pl
    by (auto simp: is0_def)
  define c' where "c' = enc_ints n (if x < 0 then x # vs else vs @ [x])"
  have st: "(if (if x < 0 then 1 else 0) \<noteq> (0 :: int) then u_intsetSet h (is0\<lparr>is_contents := c\<rparr>) 0 x
      else u_intsetSet h (is0\<lparr>is_contents := c\<rparr>) (sint (of_nat (length vs) :: u32)) x) =
      Some (is0\<lparr>is_contents := c'\<rparr>)"
  proof (cases "x < 0")
    case True
    then have "c = take n c @ enc_ints n vs"
      using dc c0(1) append_take_drop_id [of n c] by (simp add: p_def)
    then have "wr c (n * 0) (le_bytes n x) = Some c'"
      using lc True mem_simps(4) [of "[]" 0 "take n c" "le_bytes n x" "enc_ints n vs"]
      by (simp add: c'_def wr_def)
    then show ?thesis
      using True set_encoded [OF nw, of "is0\<lparr>is_contents := c\<rparr>" h 0 x c'] by (simp add: is0_def)
  next
    case False
    then have "c = enc_ints n vs @ drop (n * length vs) c0"
      using dc by (simp add: p_def)
    then have "wr c (n * length vs) (le_bytes n x) = Some c'"
      using lc False by (simp add: c'_def wr_def)
    moreover have "sint (of_nat (length vs) :: u32) = int (length vs)"
      using room by (intro sint_of_nat_u32) simp
    ultimately show ?thesis
      using False set_encoded [OF nw, of "is0\<lparr>is_contents := c\<rparr>" h "length vs" x c'] by (simp add: is0_def)
  qed
  have srt: "sorted_wrt (<) (if x < 0 then x # vs else vs @ [x])"
    using m val_width_outside n(1,2) by (auto simp: sorted_wrt_append list_all_iff)
  define is' where "is' = is0\<lparr>is_contents := c', is_length := intrev32ifbe h (of_nat (Suc (length vs)))\<rparr>"
  have un: "unat (of_nat (length vs) :: u32) = length vs"
    using room by (intro unat_of_nat_u32) simp
  have il: "is_length is0 = intrev32ifbe h (of_nat (length vs))" by (simp add: is0_def ln)
  have "intsetUpgradeAndAdd h is x = Some is'"
    using rs loop st un il
    by (cases "x < 0")
      (simp_all add: intsetUpgradeAndAdd_def en ln value_encoding Let_def is'_def p_def
        add.commute flip: n(1))
  moreover have "intset_rep h is' n (if x < 0 then x # vs else vs @ [x])"
    using nw fx fits srt room by (auto simp: intset_rep_def is'_def is0_def c'_def)
  ultimately show ?thesis by blast
qed

lemma insert_position:
  assumes "i \<le> length vs"
  shows "(take (Suc i) (vs @ [j]) @ take (length vs - i) (drop i (vs @ [j])) @
      drop (Suc i + (length vs - i)) (vs @ [j]))[i := x] = take i vs @ x # drop i vs"
    and "(vs @ [j])[length vs := x] = vs @ [x]"
proof -
  have "take (Suc i) (vs @ [j]) = take i (vs @ [j]) @ [(vs @ [j]) ! i]"
    using assms by (intro take_Suc_conv_app_nth) simp
  then have "take (Suc i) (vs @ [j]) = take i vs @ [(vs @ [j]) ! i]"
    using assms by (simp del: take_Suc)
  then show "(take (Suc i) (vs @ [j]) @ take (length vs - i) (drop i (vs @ [j])) @
      drop (Suc i + (length vs - i)) (vs @ [j]))[i := x] = take i vs @ x # drop i vs"
    using assms by (simp add: list_update_append)
qed simp

lemma sorted_insert_position:
  assumes "sorted_wrt (<) vs" "search_post vs x False i"
  shows "sorted_wrt (<) (take i vs @ x # drop i vs)" "set (take i vs @ x # drop i vs) = insert x (set vs)"
proof -
  have "sorted_wrt (<) (take i vs @ drop i vs)" using assms(1) by simp
  then have "\<forall>y \<in> set (take i vs). \<forall>z \<in> set (drop i vs). y < z"
    and "sorted_wrt (<) (take i vs)" "sorted_wrt (<) (drop i vs)"
    by (auto simp only: sorted_wrt_append)
  then show "sorted_wrt (<) (take i vs @ x # drop i vs)"
    using assms(2) by (auto simp: sorted_wrt_append search_post_def)
  have "set vs = set (take i vs) \<union> set (drop i vs)"
    by (metis append_take_drop_id set_append)
  then show "set (take i vs @ x # drop i vs) = insert x (set vs)" by auto
qed

lemma insert_in_place:
  assumes rep: "intset_rep h is n vs" and fits: "int_fits n x" and room: "8 * Suc (length vs) < 2 ^ 32"
    and post: "search_post vs x False i"
  shows "\<exists>is1 is2. (if (of_nat i :: u32) < intrev32ifbe h (is_length is)
      then intsetMoveTail h (intsetResize h is (of_nat (length vs) + 1)) (of_nat i) (of_nat i + 1)
      else Some (intsetResize h is (of_nat (length vs) + 1))) = Some is1 \<and>
    u_intsetSet h is1 (sint (of_nat i :: u32)) x = Some is2 \<and> is_length is2 = is_length is \<and>
    intset_rep h (is2\<lparr>is_length := intrev32ifbe h (of_nat (Suc (length vs)))\<rparr>) n (take i vs @ x # drop i vs)"
proof -
  have nw: "enc_word n" and en: "is_encoding is = intrev32ifbe h (of_nat n)"
    and ln: "is_length is = intrev32ifbe h (of_nat (length vs))"
    and ct: "is_contents is = enc_ints n vs" and lf: "list_all (int_fits n) vs" and srt: "sorted_wrt (<) vs"
    using rep by (simp_all add: intset_rep_def)
  have i: "i \<le> length vs" using post by (simp add: search_post_def)
  have small: "n * Suc (length vs) < 4294967296" using room nw by (auto simp: enc_word_def)
  obtain j where j: "mem_resize h (enc_ints n vs) (n * Suc (length vs)) = enc_ints n (vs @ [j])"
    using mem_resize_enc_ints_grow by blast
  define is0 where "is0 = is\<lparr>is_contents := enc_ints n (vs @ [j])\<rparr>"
  have rs: "intsetResize h is (of_nat (length vs) + 1) = is0"
    using resize_rep [OF en small] unfolding ct j is0_def by (simp add: add.commute)
  define ws where "ws = (if i < length vs then take (Suc i) (vs @ [j]) @
      take (length vs - i) (drop i (vs @ [j])) @ drop (Suc i + (length vs - i)) (vs @ [j]) else vs @ [j])"
  have lt: "(of_nat i :: u32) < of_nat (length vs) \<longleftrightarrow> i < length vs"
    using i room by (intro of_nat_u32_less) simp_all
  have one: "(of_nat i + 1 :: u32) = of_nat (Suc i)" by simp
  have mv: "(if (of_nat i :: u32) < of_nat (length vs)
      then intsetMoveTail h is0 (of_nat i) (of_nat i + 1) else Some is0) =
      Some (is0\<lparr>is_contents := enc_ints n ws\<rparr>)"
  proof (cases "i < length vs")
    case True
    then show ?thesis
      using move_tail_rep [OF nw, of is0 h "length vs" "vs @ [j]" i "Suc i"] en ln room i
      unfolding one lt by (simp add: is0_def ws_def)
  qed (simp add: lt is0_def ws_def)
  have upd: "ws[i := x] = take i vs @ x # drop i vs" and lw: "length ws = Suc (length vs)"
    using insert_position [OF i] i by (auto simp: ws_def)
  have "wr (enc_ints n ws) (n * i) (le_bytes n x) = Some (enc_ints n (ws[i := x]))"
    using i lw by (intro wr_enc_ints) simp
  moreover have "sint (of_nat i :: u32) = int i" using i room by (intro sint_of_nat_u32) simp
  ultimately have st: "u_intsetSet h (is0\<lparr>is_contents := enc_ints n ws\<rparr>) (sint (of_nat i :: u32)) x =
      Some (is0\<lparr>is_contents := enc_ints n (ws[i := x])\<rparr>)"
    using set_encoded [OF nw, of "is0\<lparr>is_contents := enc_ints n ws\<rparr>" h i x] en by (simp add: is0_def)
  have "intset_rep h (is0\<lparr>is_contents := enc_ints n (ws[i := x]),
      is_length := intrev32ifbe h (of_nat (Suc (length vs)))\<rparr>) n (take i vs @ x # drop i vs)"
    using nw en lf fits sorted_insert_position(1) [OF srt post] i room
    by (auto simp: intset_rep_def is0_def upd list_all_iff dest: in_set_takeD in_set_dropD)
  then show ?thesis
    using mv st by (auto simp: ln rs is0_def)
qed

lemma intsetAdd_rep:
  assumes rep: "intset_rep h is n vs" and x: "int_fits 8 x" and room: "8 * Suc (length vs) < 2 ^ 32"
  shows "\<exists>is' vs'. intsetAdd h is x = Some (is', x \<notin> set vs) \<and>
    intset_rep h is' (max n (val_width x)) vs' \<and> set vs' = insert x (set vs)"
proof (cases "n < val_width x")
  case True
  have nw: "enc_word n" and en: "is_encoding is = intrev32ifbe h (of_nat n)" and "list_all (int_fits n) vs"
    using rep by (simp_all add: intset_rep_def)
  then have new: "x \<notin> set vs"
    using val_width_min [OF _ nw, of x] True unfolding list_all_iff by (meson not_le)
  obtain is' where "intsetUpgradeAndAdd h is x = Some is'"
    and "intset_rep h is' (val_width x) (if x < 0 then x # vs else vs @ [x])"
    using upgrade_rep [OF rep refl True x room] by blast
  moreover from this(1) have "intsetAdd h is x = Some (is', True)"
    using True by (simp add: intsetAdd_def en value_encoding enc_word_less [OF nw val_width_word])
  moreover have "set (if x < 0 then x # vs else vs @ [x]) = insert x (set vs)" by simp
  moreover have "max n (val_width x) = val_width x" using True by simp
  ultimately show ?thesis
    using new by (intro exI [of _ is'] exI [of _ "if x < 0 then x # vs else vs @ [x]"]) presburger
next
  case False
  have nw: "enc_word n" and en: "is_encoding is = intrev32ifbe h (of_nat n)"
    and ln: "is_length is = intrev32ifbe h (of_nat (length vs))" and srt: "sorted_wrt (<) vs"
    using rep by (simp_all add: intset_rep_def)
  have nlt: "\<not> (of_nat n :: u32) < of_nat (val_width x)" using False enc_word_less [OF nw val_width_word] by simp
  obtain found i where s: "intsetSearch h is x = Some (found, of_nat i)" and post: "search_post vs x found i"
    using search_rep [OF rep] by blast
  have fx: "int_fits n x" using False val_width_fits [OF x] by simp
  show ?thesis
  proof (cases found)
    case True
    then have "intsetAdd h is x = Some (is, False)"
      using s nlt by (simp add: intsetAdd_def Let_def en value_encoding)
    then show ?thesis
      using True post rep False by (auto simp: search_post_def insert_absorb max_def)
  next
    case ff: False
    have p: "search_post vs x False i" using post ff by simp
    obtain is1 is2 where "(if (of_nat i :: u32) < intrev32ifbe h (is_length is)
          then intsetMoveTail h (intsetResize h is (of_nat (length vs) + 1)) (of_nat i) (of_nat i + 1)
          else Some (intsetResize h is (of_nat (length vs) + 1))) = Some is1"
      and "u_intsetSet h is1 (sint (of_nat i :: u32)) x = Some is2" and "is_length is2 = is_length is"
      and r: "intset_rep h (is2\<lparr>is_length := intrev32ifbe h (of_nat (Suc (length vs)))\<rparr>) n
        (take i vs @ x # drop i vs)"
      using insert_in_place [OF rep fx room p] by blast
    then have "intsetAdd h is x = Some (is2\<lparr>is_length := intrev32ifbe h (of_nat (Suc (length vs)))\<rparr>, True)"
      using s nlt ff
      by (simp add: intsetAdd_def Let_def en ln value_encoding intsetResize_def add.commute
          split: if_splits)
    moreover have "x \<notin> set vs" using p by (simp add: search_post_def)
    ultimately show ?thesis
      using r sorted_insert_position(2) [OF srt p] False by (auto simp: max_def)
  qed
qed

lemma remove_position:
  assumes "i < length vs"
  shows "take (length vs - 1) (take i vs @ take (length vs - Suc i) (drop (Suc i) vs) @
      drop (i + (length vs - Suc i)) vs) = take i vs @ drop (Suc i) vs"
    and "i = length vs - 1 \<Longrightarrow> take (length vs - 1) vs = take i vs @ drop (Suc i) vs"
  using assms by auto

lemma sorted_remove_position:
  assumes "sorted_wrt (<) vs" "search_post vs x True i"
  shows "sorted_wrt (<) (take i vs @ drop (Suc i) vs)" "set (take i vs @ drop (Suc i) vs) = set vs - {x}"
proof -
  have i: "i < length vs" "vs ! i = x" using assms(2) by (auto simp: search_post_def)
  have eq: "vs = take i vs @ x # drop (Suc i) vs" using i by (metis id_take_nth_drop)
  have srt: "sorted_wrt (<) (take i vs @ x # drop (Suc i) vs)" using assms(1) eq by simp
  then show "sorted_wrt (<) (take i vs @ drop (Suc i) vs)" by (simp add: sorted_wrt_append)
  have "x \<notin> set (take i vs)" "x \<notin> set (drop (Suc i) vs)"
    using srt by (auto simp: sorted_wrt_append)
  moreover have "set vs = set (take i vs) \<union> insert x (set (drop (Suc i) vs))"
    by (metis eq list.simps(15) set_append)
  ultimately show "set (take i vs @ drop (Suc i) vs) = set vs - {x}" by auto
qed

lemma remove_in_place:
  assumes rep: "intset_rep h is n vs" and post: "search_post vs x True i"
  shows "\<exists>is1. (if (of_nat i :: u32) < of_nat (length vs) - 1
      then intsetMoveTail h is (of_nat i + 1) (of_nat i) else Some is) = Some is1 \<and>
    intset_rep h ((intsetResize h is1 (of_nat (length vs) - 1))
      \<lparr>is_length := intrev32ifbe h (of_nat (length vs) - 1)\<rparr>) n (take i vs @ drop (Suc i) vs)"
proof -
  have nw: "enc_word n" and en: "is_encoding is = intrev32ifbe h (of_nat n)"
    and ln: "is_length is = intrev32ifbe h (of_nat (length vs))" and room: "8 * length vs < 4294967296"
    and ct: "is_contents is = enc_ints n vs" and lf: "list_all (int_fits n) vs" and srt: "sorted_wrt (<) vs"
    using rep by (simp_all add: intset_rep_def)
  have i: "i < length vs" using post by (simp add: search_post_def)
  have pred: "(of_nat (length vs) - 1 :: u32) = of_nat (length vs - 1)"
    using i by (simp add: of_nat_diff Suc_leI)
  have lt: "(of_nat i :: u32) < of_nat (length vs - 1) \<longleftrightarrow> i < length vs - 1"
    using i room by (intro of_nat_u32_less) simp_all
  have one: "(of_nat i + 1 :: u32) = of_nat (Suc i)" by simp
  define ws where "ws = (if i < length vs - 1 then take i vs @
      take (length vs - Suc i) (drop (Suc i) vs) @ drop (i + (length vs - Suc i)) vs else vs)"
  have mv: "(if (of_nat i :: u32) < of_nat (length vs - 1)
      then intsetMoveTail h is (of_nat i + 1) (of_nat i) else Some is) =
      Some (is\<lparr>is_contents := enc_ints n ws\<rparr>)"
  proof (cases "i < length vs - 1")
    case True
    then show ?thesis
      using move_tail_rep [OF nw en ln ct, of "Suc i" i] room i unfolding one lt by (simp add: ws_def)
  next
    case False
    then show ?thesis using ct unfolding lt by (simp add: ws_def)
  qed
  have lw: "length ws = length vs" and tk: "take (length vs - 1) ws = take i vs @ drop (Suc i) vs"
  proof -
    consider "i < length vs - 1" | "i = length vs - 1" using i by linarith
    then show "length ws = length vs" "take (length vs - 1) ws = take i vs @ drop (Suc i) vs"
      using remove_position [OF i] i by (cases; simp add: ws_def)+
  qed
  have small: "n * (length vs - 1) < 4294967296"
    using room nw by (auto simp: enc_word_def)
  have "n * (length vs - 1) \<le> length (enc_ints n ws)" using lw by simp
  then have "mem_resize h (enc_ints n ws) (n * (length vs - 1)) = enc_ints n (take i vs @ drop (Suc i) vs)"
    by (simp only: mem_resize_shrink take_enc_ints tk)
  then have rs: "intsetResize h (is\<lparr>is_contents := enc_ints n ws\<rparr>) (of_nat (length vs - 1)) =
      is\<lparr>is_contents := enc_ints n (take i vs @ drop (Suc i) vs)\<rparr>"
    using resize_rep [of "is\<lparr>is_contents := enc_ints n ws\<rparr>" h n "length vs - 1"] en small by simp
  have "intset_rep h (is\<lparr>is_contents := enc_ints n (take i vs @ drop (Suc i) vs),
      is_length := intrev32ifbe h (of_nat (length vs - 1))\<rparr>) n (take i vs @ drop (Suc i) vs)"
    using nw en lf sorted_remove_position(1) [OF srt post] i room
    by (auto simp: intset_rep_def list_all_iff dest: in_set_takeD in_set_dropD)
  then have "intset_rep h ((intsetResize h (is\<lparr>is_contents := enc_ints n ws\<rparr>) (of_nat (length vs - 1)))
      \<lparr>is_length := intrev32ifbe h (of_nat (length vs - 1))\<rparr>) n (take i vs @ drop (Suc i) vs)"
    unfolding rs by simp
  with mv show ?thesis unfolding pred by blast
qed

lemma intsetRemove_rep:
  assumes rep: "intset_rep h is n vs" and x: "int_fits 8 x"
  shows "\<exists>is' vs'. intsetRemove h is x = Some (is', x \<in> set vs) \<and>
    intset_rep h is' n vs' \<and> set vs' = set vs - {x}"
proof (cases "val_width x \<le> n")
  case False
  have nw: "enc_word n" and en: "is_encoding is = intrev32ifbe h (of_nat n)" and fits: "list_all (int_fits n) vs"
    using rep by (simp_all add: intset_rep_def)
  have "x \<notin> set vs"
    using fits val_width_min [OF _ nw, of x] False unfolding list_all_iff by blast
  moreover have "\<not> (of_nat (val_width x) :: u32) \<le> of_nat n"
    using False enc_word_less [OF nw val_width_word, of x] by (simp add: not_le)
  ultimately show ?thesis
    using rep by (auto simp: intsetRemove_def Let_def en value_encoding)
next
  case True
  have nw: "enc_word n" and en: "is_encoding is = intrev32ifbe h (of_nat n)"
    and ln: "is_length is = intrev32ifbe h (of_nat (length vs))" and srt: "sorted_wrt (<) vs"
    using rep by (simp_all add: intset_rep_def)
  have le: "(of_nat (val_width x) :: u32) \<le> of_nat n"
    using True enc_word_less [OF nw val_width_word, of x] by (simp add: not_less)
  obtain found i where s: "intsetSearch h is x = Some (found, of_nat i)" and post: "search_post vs x found i"
    using search_rep [OF rep] by blast
  show ?thesis
  proof (cases found)
    case False
    then show ?thesis
      using s le rep post by (auto simp: intsetRemove_def Let_def en value_encoding search_post_def)
  next
    case ff: True
    have p: "search_post vs x True i" using post ff by simp
    obtain is1 where "(if (of_nat i :: u32) < of_nat (length vs) - 1
        then intsetMoveTail h is (of_nat i + 1) (of_nat i) else Some is) = Some is1"
      and r: "intset_rep h ((intsetResize h is1 (of_nat (length vs) - 1))
        \<lparr>is_length := intrev32ifbe h (of_nat (length vs) - 1)\<rparr>) n (take i vs @ drop (Suc i) vs)"
      using remove_in_place [OF rep p] by blast
    then have "intsetRemove h is x = Some ((intsetResize h is1 (of_nat (length vs) - 1))
        \<lparr>is_length := intrev32ifbe h (of_nat (length vs) - 1)\<rparr>, True)"
      using s le ff by (simp add: intsetRemove_def Let_def en ln value_encoding split: if_splits)
    moreover have "x \<in> set vs" using p by (simp add: search_post_def)
    ultimately show ?thesis
      using r sorted_remove_position(2) [OF srt p] by auto
  qed
qed

lemma intsetFind_rep:
  assumes rep: "intset_rep h is n vs"
  shows "intsetFind h is x = Some (x \<in> set vs)"
proof (cases "val_width x \<le> n")
  case False
  have nw: "enc_word n" and en: "is_encoding is = intrev32ifbe h (of_nat n)" and fits: "list_all (int_fits n) vs"
    using rep by (simp_all add: intset_rep_def)
  have "x \<notin> set vs"
    using fits val_width_min [OF _ nw, of x] False unfolding list_all_iff by blast
  moreover have "\<not> (of_nat (val_width x) :: u32) \<le> of_nat n"
    using False enc_word_less [OF nw val_width_word, of x] by (simp add: not_le)
  ultimately show ?thesis
    by (simp add: intsetFind_def Let_def en value_encoding)
next
  case True
  have nw: "enc_word n" and en: "is_encoding is = intrev32ifbe h (of_nat n)"
    using rep by (simp_all add: intset_rep_def)
  have le: "(of_nat (val_width x) :: u32) \<le> of_nat n"
    using True enc_word_less [OF nw val_width_word, of x] by (simp add: not_less)
  obtain found i where s: "intsetSearch h is x = Some (found, of_nat i)" and post: "search_post vs x found i"
    using search_rep [OF rep] by blast
  then show ?thesis
    using le by (simp add: intsetFind_def Let_def en value_encoding search_post_def)
qed

lemma intsetGet_rep:
  assumes rep: "intset_rep h is n vs" and small: "i < 4294967296"
  shows "intsetGet h is (of_nat i) = Some (if i < length vs then Some (vs ! i) else None)"
proof -
  have ln: "is_length is = intrev32ifbe h (of_nat (length vs))" and room: "8 * length vs < 4294967296"
    using rep by (simp_all add: intset_rep_def)
  have "(of_nat i :: u32) < of_nat (length vs) \<longleftrightarrow> i < length vs"
    using small room by (intro of_nat_u32_less) simp_all
  moreover have "sint (of_nat i :: u32) = int i" if "i < length vs"
    using that room by (intro sint_of_nat_u32) simp
  ultimately show ?thesis
    using get_rep [OF rep, of i] by (simp add: intsetGet_def ln)
qed

lemma intsetRandom_rep:
  assumes rep: "intset_rep h is n vs" and "vs \<noteq> []"
  shows "\<exists>x \<in> set vs. intsetRandom h is r = Some x"
proof -
  have ln: "is_length is = intrev32ifbe h (of_nat (length vs))" and room: "8 * length vs < 4294967296"
    using rep by (simp_all add: intset_rep_def)
  let ?k = "unat r mod length vs"
  have k: "?k < length vs" using assms(2) by simp
  have "unat (r mod of_nat (length vs)) = ?k"
    using room by (simp add: unat_mod unat_of_nat_u32)
  then have m: "r mod of_nat (length vs) = of_nat ?k" by (metis of_nat_unat ucast_id)
  have "sint (of_nat ?k :: u32) = int ?k" using k room by (intro sint_of_nat_u32) simp
  moreover have "(of_nat (length vs) :: u32) \<noteq> 0"
    using of_nat_u32_eq [of "length vs" 0] room assms(2) by simp
  ultimately have "intsetRandom h is r = Some (vs ! ?k)"
    using get_rep [OF rep k] by (simp add: intsetRandom_def ln m)
  then show ?thesis using k by simp
qed

lemma intsetLen_rep: "intset_rep h is n vs \<Longrightarrow> intsetLen h is = of_nat (length vs)"
  by (simp add: intset_rep_def intsetLen_def)

lemma intsetBlobLen_rep:
  assumes "intset_rep h is n vs"
  shows "intsetBlobLen h is = 8 + length (is_contents is)"
proof -
  have "n * length vs < 4294967296" using assms by (auto simp: intset_rep_def enc_word_def)
  then have "unat (of_nat (n * length vs) :: u32) = n * length vs" by (rule unat_of_nat_u32)
  then show ?thesis using assms by (simp add: intset_rep_def intsetBlobLen_def mult.commute)
qed

section \<open>The set contract\<close>

text \<open>The state is the heap's array; \<open>intsetFind\<close> leaves it as it is.\<close>

definition intset_is :: "host \<Rightarrow> intset \<Rightarrow> int set \<Rightarrow> bool" where
  "intset_is h is A \<longleftrightarrow> (\<exists>n vs. intset_rep h is n vs \<and> set vs = A)"

definition intset_member :: "host \<Rightarrow> intset \<Rightarrow> int \<Rightarrow> (intset \<times> bool) option" where
  "intset_member h is x = map_option (Pair is) (intsetFind h is x)"

abbreviation int64 :: "int \<Rightarrow> bool" where "int64 x \<equiv> int_fits 8 x"

lemma intset_card: "intset_rep h is n vs \<Longrightarrow> card (set vs) = length vs"
  by (simp add: intset_rep_def distinct_card strict_sorted_iff)

interpretation intset_set: set_ops "intset_is h" id int64 536870911 "intsetAdd h" "intsetRemove h" "intset_member h" for h
proof
  fix s :: intset and A :: "int set" and x :: int
  assume r: "intset_is h s A"
  then obtain n vs where rep: "intset_rep h s n vs" and A: "A = set vs" by (auto simp: intset_is_def)
  show "finite A" using A by simp
  show "\<exists>s'. intset_member h s x = Some (s', id x \<in> A) \<and> intset_is h s' A"
    using intsetFind_rep [OF rep] r A by (simp add: intset_member_def)
  assume x: "int64 x"
  show "\<exists>s'. intsetRemove h s x = Some (s', id x \<in> A) \<and> intset_is h s' (A - {id x})"
    using intsetRemove_rep [OF rep x] A by (fastforce simp: intset_is_def)
  assume c: "Suc (card A) \<le> 536870911"
  then have "8 * Suc (length vs) < 2 ^ 32" using intset_card [OF rep] A by simp
  then show "\<exists>s'. intsetAdd h s x = Some (s', id x \<notin> A) \<and> intset_is h s' (insert (id x) A)"
    using intsetAdd_rep [OF rep x] A by (fastforce simp: intset_is_def)
qed

section \<open>Properties\<close>

text \<open>
  C15: any sequence of additions, removals and lookups of 64-bit integers on a new intset
  gives the answers of the mathematical set, whatever the byte order of the host, through
  all the upgrades of the encoding; no access leaves the array.
\<close>

theorem intset_run:
  assumes "\<forall>c \<in> set cs. int_fits 8 (op_arg c)" and "length cs \<le> 536870911"
  shows "\<exists>s. set_run (intsetAdd h) (intsetRemove h) (intset_member h) (intsetNew h) cs =
      Some (s, snd (set_spec id {} cs)) \<and> intset_is h s (fst (set_spec id {} cs))"
proof -
  have "intset_is h (intsetNew h) {}" using intset_rep_new by (auto simp: intset_is_def)
  then show ?thesis using intset_set.run_refines [of h "intsetNew h" "{}" cs] assms by simp
qed

theorem intset_run_witness:
  "\<exists>s. set_run (intsetAdd be_host) (intsetRemove be_host)
       (intset_member be_host) (intsetNew be_host)
       [SetAdd 5, SetAdd 5, SetAdd 70000, SetAdd (- 5000000000), SetRem 5, SetFind 70000] =
     Some (s, [True, False, True, True, True, True]) \<and>
     intset_is be_host s {70000, - 5000000000}"
  using intset_run [of "[SetAdd 5, SetAdd 5, SetAdd 70000, SetAdd (- 5000000000), SetRem 5, SetFind 70000]"
      be_host]
  by (simp add: int_fits_def Let_def insert_commute)

text \<open>
  C23: one addition keeps the representation (sorted, without duplicates, every value in the
  current width) and changes the width only as far as the new value needs.
\<close>

theorem intset_add:
  assumes "intset_rep h is n vs" and "int_fits 8 x" and "length vs < 536870911"
  shows "\<exists>is' vs'. intsetAdd h is x = Some (is', x \<notin> set vs) \<and>
    intset_rep h is' (max n (val_width x)) vs' \<and> set vs' = insert x (set vs) \<and>
    length vs' = length vs + (if x \<in> set vs then 0 else 1)"
proof -
  obtain is' vs' where r: "intsetAdd h is x = Some (is', x \<notin> set vs)"
    "intset_rep h is' (max n (val_width x)) vs'" "set vs' = insert x (set vs)"
    using intsetAdd_rep [OF assms(1,2)] assms(3) by auto
  have "length vs' = length vs + (if x \<in> set vs then 0 else 1)"
    using intset_card [OF r(2)] intset_card [OF assms(1)] r(3) by (auto simp: card_insert_if split: if_splits)
  with r show ?thesis by blast
qed

theorem intset_add_witness:
  "\<exists>is' vs'. intsetAdd le_host (intsetNew le_host) 70000 = Some (is', True) \<and>
    intset_rep le_host is' 4 vs' \<and> set vs' = {70000} \<and> length vs' = 1"
  using intset_add [OF intset_rep_new, of 70000 le_host]
  by (simp add: int_fits_def val_width_def)

text \<open>
  The search finds exactly the members and otherwise the position where the value
  keeps the array sorted.
\<close>

theorem intset_search:
  assumes "intset_rep h is n vs"
  shows "\<exists>found pos. intsetSearch h is x = Some (found, of_nat pos) \<and> pos \<le> length vs \<and> found = (x \<in> set vs) \<and>
    (found \<longrightarrow> vs ! pos = x) \<and> (\<forall>i < pos. vs ! i < x) \<and> (\<not> found \<longrightarrow> (\<forall>i. pos \<le> i \<and> i < length vs \<longrightarrow> x < vs ! i))"
proof -
  obtain found pos where s: "intsetSearch h is x = Some (found, of_nat pos)" "search_post vs x found pos"
    using search_rep [OF assms] by blast
  have p: "pos \<le> length vs" "found = (x \<in> set vs)" "found \<longrightarrow> pos < length vs \<and> vs ! pos = x"
    using s(2) by (simp_all add: search_post_def)
  have srt: "sorted_wrt (<) vs" using assms by (simp add: intset_rep_def)
  have lo: "vs ! i < x" if "i < pos" for i
  proof (cases found)
    case True
    then show ?thesis using sorted_wrt_less_nth [OF srt that] p by simp
  next
    case False
    moreover have "vs ! i \<in> set (take pos vs)" using that p(1) by (auto simp: in_set_conv_nth intro!: exI [of _ i])
    ultimately show ?thesis using s(2) by (simp add: search_post_def)
  qed
  have "x < vs ! i" if "\<not> found" "pos \<le> i" "i < length vs" for i
  proof -
    have "vs ! i \<in> set (drop pos vs)"
      using that by (auto simp: in_set_conv_nth intro!: exI [of _ "i - pos"])
    then show ?thesis using s(2) that(1) by (simp add: search_post_def)
  qed
  then show ?thesis using s(1) p lo by auto
qed

theorem intset_search_witness:
  "\<exists>found pos. intsetSearch le_host (intsetNew le_host) 7 = Some (found, of_nat pos) \<and> pos = 0 \<and> \<not> found"
  using intset_search [OF intset_rep_new [of le_host], of 7] by auto

text \<open>The bytes of the struct in the memory of the host, as they are written to disk.\<close>

definition intset_image :: "host \<Rightarrow> intset \<Rightarrow> byte list" where
  "intset_image h is = native_bytes h 4 (uint (is_encoding is)) @ native_bytes h 4 (uint (is_length is)) @ is_contents is"

lemma intset_image_rep:
  "intset_rep h is n vs \<Longrightarrow> intset_image h is =
    le_bytes 4 (uint (of_nat n :: u32)) @ le_bytes 4 (uint (of_nat (length vs) :: u32)) @ enc_ints n vs"
  by (simp add: intset_rep_def intset_image_def native_bytes_intrev32ifbe)

lemma intset_rep_unique:
  "intset_rep h is n vs \<Longrightarrow> intset_rep h' is' n' vs' \<Longrightarrow> set vs = set vs' \<Longrightarrow> vs = vs'"
  using strict_sorted_equal unfolding intset_rep_def by blast

text \<open>
  C24: the bytes of an intset do not depend on the host: two sets with the same values and
  width on hosts of any byte order are the same bytes, and so are they after the same
  addition or removal.
\<close>

theorem intset_portable:
  assumes r: "intset_rep h is n vs" and r': "intset_rep h' is' n vs"
    and x: "int_fits 8 x" and room: "length vs < 536870911"
  shows "intset_image h is = intset_image h' is' \<and>
    (\<exists>a a'. intsetAdd h is x = Some (a, x \<notin> set vs) \<and> intsetAdd h' is' x = Some (a', x \<notin> set vs) \<and>
       intset_image h a = intset_image h' a') \<and>
    (\<exists>a a'. intsetRemove h is x = Some (a, x \<in> set vs) \<and> intsetRemove h' is' x = Some (a', x \<in> set vs) \<and>
       intset_image h a = intset_image h' a')"
proof (intro conjI)
  show "intset_image h is = intset_image h' is'"
    using intset_image_rep [OF r] intset_image_rep [OF r'] by simp
  have room8: "8 * Suc (length vs) < 2 ^ 32" using room by simp
  obtain a vs1 where a: "intsetAdd h is x = Some (a, x \<notin> set vs)"
    "intset_rep h a (max n (val_width x)) vs1" "set vs1 = insert x (set vs)"
    using intsetAdd_rep [OF r x room8] by blast
  obtain a' vs2 where a': "intsetAdd h' is' x = Some (a', x \<notin> set vs)"
    "intset_rep h' a' (max n (val_width x)) vs2" "set vs2 = insert x (set vs)"
    using intsetAdd_rep [OF r' x room8] by blast
  have "vs1 = vs2" using intset_rep_unique [OF a(2) a'(2)] a(3) a'(3) by simp
  then have "intset_image h a = intset_image h' a'"
    using intset_image_rep [OF a(2)] intset_image_rep [OF a'(2)] by simp
  then show "\<exists>a a'. intsetAdd h is x = Some (a, x \<notin> set vs) \<and> intsetAdd h' is' x = Some (a', x \<notin> set vs) \<and>
      intset_image h a = intset_image h' a'" using a(1) a'(1) by blast
  obtain b vs3 where b: "intsetRemove h is x = Some (b, x \<in> set vs)" "intset_rep h b n vs3" "set vs3 = set vs - {x}"
    using intsetRemove_rep [OF r x] by blast
  obtain b' vs4 where b': "intsetRemove h' is' x = Some (b', x \<in> set vs)" "intset_rep h' b' n vs4" "set vs4 = set vs - {x}"
    using intsetRemove_rep [OF r' x] by blast
  have "vs3 = vs4" using intset_rep_unique [OF b(2) b'(2)] b(3) b'(3) by simp
  then have "intset_image h b = intset_image h' b'"
    using intset_image_rep [OF b(2)] intset_image_rep [OF b'(2)] by simp
  then show "\<exists>a a'. intsetRemove h is x = Some (a, x \<in> set vs) \<and> intsetRemove h' is' x = Some (a', x \<in> set vs) \<and>
      intset_image h a = intset_image h' a'" using b(1) b'(1) by blast
qed

theorem intset_portable_witness:
  "intset_image be_host (intsetNew be_host) = intset_image le_host (intsetNew le_host) \<and>
    (\<exists>a a'. intsetAdd be_host (intsetNew be_host) 70000 = Some (a, True) \<and>
       intsetAdd le_host (intsetNew le_host) 70000 = Some (a', True) \<and> intset_image be_host a = intset_image le_host a')"
  using intset_portable [OF intset_rep_new [of be_host] intset_rep_new [of le_host], of 70000]
  by (simp add: int_fits_def)

end
