(* ===== verification/Adlist.thy ===== *)
theory Adlist
  imports Prelude
begin

text \<open>
  \<open>redis/src/adlist.c\<close> and \<open>adlist.h\<close>: the generic doubly linked list.  Nodes live in a
  heap (a map from addresses), the list header is a record.  A dereference of \<open>NULL\<close> or
  of a freed node makes the operation fail with \<open>None\<close>.  \<open>zmalloc\<close> takes its answers
  (an address or \<open>NULL\<close>) from the heap's \<open>h_supply\<close>; the values given to the \<open>free\<close>
  method are logged in \<open>h_freed\<close>.  The abstraction is a list of (address, value) pairs.
\<close>

section \<open>The code\<close>

type_synonym addr = nat

record 'v listNode =
  n_prev :: "addr option"
  n_next :: "addr option"
  n_value :: 'v

record 'v heap =
  h_nodes :: "addr \<rightharpoonup> 'v listNode"
  h_supply :: "addr option list"
  h_freed :: "'v list"

record listIter =
  it_next :: "addr option"
  it_direction :: int

text \<open>The methods are \<open>NULL\<close> or a function; \<open>dup\<close> may itself answer \<open>NULL\<close>.\<close>

record 'v adlist =
  l_head :: "addr option"
  l_tail :: "addr option"
  l_dup :: "('v \<Rightarrow> 'v option) option"
  l_free :: bool
  l_match :: "('v \<Rightarrow> 'v \<Rightarrow> bool) option"
  l_len :: u64

abbreviation AL_START_HEAD :: int where "AL_START_HEAD \<equiv> 0"
abbreviation AL_START_TAIL :: int where "AL_START_TAIL \<equiv> 1"

fun zmalloc :: "'v heap \<Rightarrow> addr option \<times> 'v heap" where
  "zmalloc hp = (case h_supply hp of [] \<Rightarrow> (None, hp) | r # rs \<Rightarrow> (r, hp\<lparr>h_supply := rs\<rparr>))"

text \<open>Reading and writing through a pointer.\<close>

definition deref :: "'v heap \<Rightarrow> addr option \<Rightarrow> 'v listNode option" where
  "deref hp p = Option.bind p (h_nodes hp)"

definition store :: "'v heap \<Rightarrow> addr option \<Rightarrow> ('v listNode \<Rightarrow> 'v listNode) \<Rightarrow> 'v heap option" where
  "store hp p f = do {
     a \<leftarrow> p;
     n \<leftarrow> h_nodes hp a;
     Some (hp\<lparr>h_nodes := (h_nodes hp)(a \<mapsto> f n)\<rparr>)
   }"

text \<open>A fresh node, its three fields written.\<close>

definition new_node :: "'v heap \<Rightarrow> addr \<Rightarrow> addr option \<Rightarrow> addr option \<Rightarrow> 'v \<Rightarrow> 'v heap" where
  "new_node hp a p n v = hp\<lparr>h_nodes := (h_nodes hp)(a \<mapsto> \<lparr>n_prev = p, n_next = n, n_value = v\<rparr>)\<rparr>"

definition zfree :: "'v heap \<Rightarrow> addr \<Rightarrow> 'v heap" where
  "zfree hp a = hp\<lparr>h_nodes := (h_nodes hp)(a := None)\<rparr>"

definition call_free :: "'v heap \<Rightarrow> 'v adlist \<Rightarrow> 'v \<Rightarrow> 'v heap" where
  "call_free hp l v = (if l_free l then hp\<lparr>h_freed := h_freed hp @ [v]\<rparr> else hp)"

definition listCreate :: "'v heap \<Rightarrow> 'v adlist option \<times> 'v heap" where
  "listCreate hp =
     (case zmalloc hp of
        (None, hp) \<Rightarrow> (None, hp)
      | (Some _, hp) \<Rightarrow>
          (Some \<lparr>l_head = None, l_tail = None, l_dup = None, l_free = False, l_match = None, l_len = 0\<rparr>, hp))"

text \<open>\<open>while(len--)\<close> with \<open>next\<close> read before the node is h_freed.\<close>

primrec listRelease_loop :: "'v heap \<Rightarrow> 'v adlist \<Rightarrow> nat \<Rightarrow> addr option \<Rightarrow> 'v heap option" where
  "listRelease_loop hp l 0 current = Some hp"
| "listRelease_loop hp l (Suc k) current = do {
     a \<leftarrow> current;
     n \<leftarrow> h_nodes hp a;
     let hp = call_free hp l (n_value n);
     let hp = zfree hp a;
     listRelease_loop hp l k (n_next n)
   }"

definition listRelease :: "'v heap \<Rightarrow> 'v adlist \<Rightarrow> 'v heap option" where
  "listRelease hp l = listRelease_loop hp l (unat (l_len l)) (l_head l)"

text \<open>The flag is false when \<open>NULL\<close> is returned.\<close>

definition listAddNodeHead :: "'v heap \<Rightarrow> 'v adlist \<Rightarrow> 'v \<Rightarrow> ('v heap \<times> 'v adlist \<times> bool) option" where
  "listAddNodeHead hp l v =
     (case zmalloc hp of
        (None, hp) \<Rightarrow> Some (hp, l, False)
      | (Some node, hp) \<Rightarrow> do {
          (hp, l) \<leftarrow>
            (if l_len l = 0 then
               Some (new_node hp node None None v, l\<lparr>l_head := Some node, l_tail := Some node\<rparr>)
             else do {
               let hp = new_node hp node None (l_head l) v;
               hp \<leftarrow> store hp (l_head l) (\<lambda>n. n\<lparr>n_prev := Some node\<rparr>);
               Some (hp, l\<lparr>l_head := Some node\<rparr>)
             });
          Some (hp, l\<lparr>l_len := l_len l + 1\<rparr>, True)
        })"

definition listAddNodeTail :: "'v heap \<Rightarrow> 'v adlist \<Rightarrow> 'v \<Rightarrow> ('v heap \<times> 'v adlist \<times> bool) option" where
  "listAddNodeTail hp l v =
     (case zmalloc hp of
        (None, hp) \<Rightarrow> Some (hp, l, False)
      | (Some node, hp) \<Rightarrow> do {
          (hp, l) \<leftarrow>
            (if l_len l = 0 then
               Some (new_node hp node None None v, l\<lparr>l_head := Some node, l_tail := Some node\<rparr>)
             else do {
               let hp = new_node hp node (l_tail l) None v;
               hp \<leftarrow> store hp (l_tail l) (\<lambda>n. n\<lparr>n_next := Some node\<rparr>);
               Some (hp, l\<lparr>l_tail := Some node\<rparr>)
             });
          Some (hp, l\<lparr>l_len := l_len l + 1\<rparr>, True)
        })"

text \<open>\<open>if (p != NULL) p->field = x\<close>.\<close>

definition store_unless_null ::
  "'v heap \<Rightarrow> addr option \<Rightarrow> ('v listNode \<Rightarrow> 'v listNode) \<Rightarrow> 'v heap option" where
  "store_unless_null hp p f = (if p = None then Some hp else store hp p f)"

definition listInsertNode ::
  "'v heap \<Rightarrow> 'v adlist \<Rightarrow> addr \<Rightarrow> 'v \<Rightarrow> bool \<Rightarrow> ('v heap \<times> 'v adlist \<times> bool) option" where
  "listInsertNode hp l old_node v after =
     (case zmalloc hp of
        (None, hp) \<Rightarrow> Some (hp, l, False)
      | (Some node, hp) \<Rightarrow> do {
          old \<leftarrow> h_nodes hp old_node;
          let p = (if after then Some old_node else n_prev old);
          let n = (if after then n_next old else Some old_node);
          let l = (if after then (if l_tail l = Some old_node then l\<lparr>l_tail := Some node\<rparr> else l)
                   else (if l_head l = Some old_node then l\<lparr>l_head := Some node\<rparr> else l));
          let hp = new_node hp node p n v;
          hp \<leftarrow> store_unless_null hp p (\<lambda>m. m\<lparr>n_next := Some node\<rparr>);
          hp \<leftarrow> store_unless_null hp n (\<lambda>m. m\<lparr>n_prev := Some node\<rparr>);
          Some (hp, l\<lparr>l_len := l_len l + 1\<rparr>, True)
        })"

definition listDelNode :: "'v heap \<Rightarrow> 'v adlist \<Rightarrow> addr \<Rightarrow> ('v heap \<times> 'v adlist) option" where
  "listDelNode hp l node = do {
     n \<leftarrow> h_nodes hp node;
     (hp, l) \<leftarrow>
       (if n_prev n \<noteq> None then do {
          hp \<leftarrow> store hp (n_prev n) (\<lambda>m. m\<lparr>n_next := n_next n\<rparr>);
          Some (hp, l)
        } else Some (hp, l\<lparr>l_head := n_next n\<rparr>));
     n \<leftarrow> h_nodes hp node;
     (hp, l) \<leftarrow>
       (if n_next n \<noteq> None then do {
          hp \<leftarrow> store hp (n_next n) (\<lambda>m. m\<lparr>n_prev := n_prev n\<rparr>);
          Some (hp, l)
        } else Some (hp, l\<lparr>l_tail := n_prev n\<rparr>));
     n \<leftarrow> h_nodes hp node;
     let hp = call_free hp l (n_value n);
     let hp = zfree hp node;
     Some (hp, l\<lparr>l_len := l_len l - 1\<rparr>)
   }"

definition listGetIterator :: "'v heap \<Rightarrow> 'v adlist \<Rightarrow> int \<Rightarrow> listIter option \<times> 'v heap" where
  "listGetIterator hp l direction =
     (case zmalloc hp of
        (None, hp) \<Rightarrow> (None, hp)
      | (Some _, hp) \<Rightarrow>
          (Some \<lparr>it_next = (if direction = AL_START_HEAD then l_head l else l_tail l),
                 it_direction = direction\<rparr>, hp))"

definition listRewind :: "'v adlist \<Rightarrow> listIter" where
  "listRewind l = \<lparr>it_next = l_head l, it_direction = AL_START_HEAD\<rparr>"

definition listRewindTail :: "'v adlist \<Rightarrow> listIter" where
  "listRewindTail l = \<lparr>it_next = l_tail l, it_direction = AL_START_TAIL\<rparr>"

definition listNext :: "'v heap \<Rightarrow> listIter \<Rightarrow> (addr option \<times> listIter) option" where
  "listNext hp iter =
     (case it_next iter of
        None \<Rightarrow> Some (None, iter)
      | Some current \<Rightarrow> do {
          n \<leftarrow> h_nodes hp current;
          Some (Some current, iter\<lparr>it_next :=
            (if it_direction iter = AL_START_HEAD then n_next n else n_prev n)\<rparr>)
        })"


text \<open>
  The loops \<open>while((node = listNext(iter)) != NULL)\<close> stop only when the chain does, so
  they are partial functions: a cyclic chain gives \<open>None\<close>.  \<open>NULL\<close> from an allocation
  ends \<open>listDup\<close> with a release of the copy.
\<close>

partial_function (option) listDup_loop ::
  "'v heap \<Rightarrow> 'v adlist \<Rightarrow> listIter \<Rightarrow> ('v adlist option \<times> 'v heap) option" where
  "listDup_loop hp copy iter = do {
     (node, iter) \<leftarrow> listNext hp iter;
     if node = None then Some (Some copy, hp)
     else do {
       n \<leftarrow> deref hp node;
       case (case l_dup copy of None \<Rightarrow> Some (n_value n) | Some d \<Rightarrow> d (n_value n)) of
         None \<Rightarrow> do { hp \<leftarrow> listRelease hp copy; Some (None, hp) }
       | Some v \<Rightarrow> do {
           (hp, copy, ok) \<leftarrow> listAddNodeTail hp copy v;
           if ok then listDup_loop hp copy iter
           else do { hp \<leftarrow> listRelease hp copy; Some (None, hp) }
         }
     }
   }"

definition listDup :: "'v heap \<Rightarrow> 'v adlist \<Rightarrow> ('v adlist option \<times> 'v heap) option" where
  "listDup hp orig =
     (case listCreate hp of
        (None, hp) \<Rightarrow> Some (None, hp)
      | (Some copy, hp) \<Rightarrow> do {
          let copy = copy\<lparr>l_dup := l_dup orig, l_free := l_free orig, l_match := l_match orig\<rparr>;
          let (iter, hp) = listGetIterator hp orig AL_START_HEAD;
          iter \<leftarrow> iter;
          listDup_loop hp copy iter
        })"

partial_function (option) listSearchKey_loop ::
  "'v heap \<Rightarrow> 'v adlist \<Rightarrow> 'v \<Rightarrow> listIter \<Rightarrow> addr option option" where
  "listSearchKey_loop hp l key iter = do {
     (node, iter) \<leftarrow> listNext hp iter;
     if node = None then Some None
     else do {
       n \<leftarrow> deref hp node;
       if (case l_match l of Some m \<Rightarrow> m (n_value n) key | None \<Rightarrow> key = n_value n)
       then Some node
       else listSearchKey_loop hp l key iter
     }
   }"

definition listSearchKey :: "'v heap \<Rightarrow> 'v adlist \<Rightarrow> 'v \<Rightarrow> (addr option \<times> 'v heap) option" where
  "listSearchKey hp l key = do {
     let (iter, hp) = listGetIterator hp l AL_START_HEAD;
     iter \<leftarrow> iter;
     node \<leftarrow> listSearchKey_loop hp l key iter;
     Some (node, hp)
   }"

text \<open>\<open>while(index-- && n) n = n->next\<close>, and the same towards the head.\<close>

primrec listIndex_next :: "'v heap \<Rightarrow> nat \<Rightarrow> addr option \<Rightarrow> addr option option" where
  "listIndex_next hp 0 n = Some n"
| "listIndex_next hp (Suc k) n =
     (case n of None \<Rightarrow> Some None
      | Some a \<Rightarrow> do { m \<leftarrow> h_nodes hp a; listIndex_next hp k (n_next m) })"

primrec listIndex_prev :: "'v heap \<Rightarrow> nat \<Rightarrow> addr option \<Rightarrow> addr option option" where
  "listIndex_prev hp 0 n = Some n"
| "listIndex_prev hp (Suc k) n =
     (case n of None \<Rightarrow> Some None
      | Some a \<Rightarrow> do { m \<leftarrow> h_nodes hp a; listIndex_prev hp k (n_prev m) })"

text \<open>\<open>index\<close> is a C \<open>long\<close>; \<open>-index\<close> overflows for \<open>LONG_MIN\<close>.\<close>

definition listIndex :: "'v heap \<Rightarrow> 'v adlist \<Rightarrow> int \<Rightarrow> addr option option" where
  "listIndex hp l index =
     (if index = - (2 ^ 63) then None
      else if index < 0 then listIndex_prev hp (nat (- index - 1)) (l_tail l)
      else listIndex_next hp (nat index) (l_head l))"

definition listRotate :: "'v heap \<Rightarrow> 'v adlist \<Rightarrow> ('v heap \<times> 'v adlist) option" where
  "listRotate hp l =
     (if l_len l \<le> 1 then Some (hp, l)
      else do {
        t \<leftarrow> deref hp (l_tail l);
        let tl = l_tail l;
        let l = l\<lparr>l_tail := n_prev t\<rparr>;
        hp \<leftarrow> store hp (l_tail l) (\<lambda>n. n\<lparr>n_next := None\<rparr>);
        hp \<leftarrow> store hp (l_head l) (\<lambda>n. n\<lparr>n_prev := tl\<rparr>);
        hp \<leftarrow> store hp tl (\<lambda>n. n\<lparr>n_prev := None\<rparr>);
        hp \<leftarrow> store hp tl (\<lambda>n. n\<lparr>n_next := l_head l\<rparr>);
        Some (hp, l\<lparr>l_head := tl\<rparr>)
      })"

section \<open>Chains of nodes\<close>

text \<open>
  \<open>chain m p xs q\<close>: the nodes \<open>xs\<close> (address, value) are linked in both directions in
  \<open>m\<close>; the first one's \<open>prev\<close> is \<open>p\<close>, the last one's \<open>next\<close> is \<open>q\<close>.
\<close>

definition first_addr :: "(addr \<times> 'v) list \<Rightarrow> addr option \<Rightarrow> addr option" where
  "first_addr xs q = (case xs of [] \<Rightarrow> q | x # _ \<Rightarrow> Some (fst x))"

definition last_addr :: "addr option \<Rightarrow> (addr \<times> 'v) list \<Rightarrow> addr option" where
  "last_addr p xs = (if xs = [] then p else Some (fst (last xs)))"

primrec chain :: "(addr \<rightharpoonup> 'v listNode) \<Rightarrow> addr option \<Rightarrow> (addr \<times> 'v) list \<Rightarrow> addr option \<Rightarrow> bool" where
  "chain m p [] q = True"
| "chain m p (x # xs) q \<longleftrightarrow>
     m (fst x) = Some \<lparr>n_prev = p, n_next = first_addr xs q, n_value = snd x\<rparr> \<and>
     chain m (Some (fst x)) xs q"

lemma addr_simps [simp]:
  "first_addr [] q = q" "first_addr (x # xs) q = Some (fst x)"
  "last_addr p [] = p" "last_addr p (x # xs) = last_addr (Some (fst x)) xs"
  "last_addr p (xs @ [x]) = Some (fst x)"
  by (auto simp: first_addr_def last_addr_def)

lemma first_addr_append: "first_addr (xs @ ys) q = first_addr xs (first_addr ys q)"
  by (cases xs) auto

lemma last_addr_append: "last_addr p (xs @ ys) = last_addr (last_addr p xs) ys"
  by (induction xs arbitrary: p) auto

lemma last_addr_in: "b \<notin> fst ` set xs \<Longrightarrow> b \<noteq> a \<Longrightarrow> last_addr (Some a) xs \<noteq> Some b"
  by (induction xs arbitrary: a) auto

lemma first_addr_in: "b \<notin> fst ` set xs \<Longrightarrow> b \<noteq> a \<Longrightarrow> first_addr xs (Some a) \<noteq> Some b"
  by (cases xs) auto

lemma chain_append:
  "chain m p (xs @ ys) q \<longleftrightarrow> chain m p xs (first_addr ys q) \<and> chain m (last_addr p xs) ys q"
  by (induction xs arbitrary: p) (auto simp: first_addr_append)

lemma chain_frame: "a \<notin> fst ` set xs \<Longrightarrow> chain (m(a := n)) p xs q = chain m p xs q"
  by (induction xs arbitrary: p) auto

lemma chain_dom: "chain m p xs q \<Longrightarrow> fst ` set xs \<subseteq> dom m"
  by (induction xs arbitrary: p) auto

text \<open>Relinking the ends of a chain.\<close>

lemma chain_set_prev:
  assumes "chain m p (x # xs) q" and "fst x \<notin> fst ` set xs" and "m (fst x) = Some n"
  shows "chain (m(fst x \<mapsto> n\<lparr>n_prev := p'\<rparr>)) p' (x # xs) q"
  using assms by (auto simp: chain_frame)

lemma chain_set_next:
  assumes "chain m p (xs @ [x]) q" and "fst x \<notin> fst ` set xs" and "m (fst x) = Some n"
  shows "chain (m(fst x \<mapsto> n\<lparr>n_next := q'\<rparr>)) p (xs @ [x]) q'"
  using assms by (auto simp: chain_append chain_frame)

section \<open>The list\<close>

definition heap_ok :: "'v heap \<Rightarrow> bool" where
  "heap_ok hp \<longleftrightarrow> distinct (filter (\<lambda>r. r \<noteq> None) (h_supply hp)) \<and>
     (\<forall>a. Some a \<in> set (h_supply hp) \<longrightarrow> h_nodes hp a = None)"

definition list_rep :: "'v heap \<Rightarrow> 'v adlist \<Rightarrow> (addr \<times> 'v) list \<Rightarrow> bool" where
  "list_rep hp l xs \<longleftrightarrow>
     chain (h_nodes hp) None xs None \<and> distinct (map fst xs) \<and>
     l_head l = first_addr xs None \<and> l_tail l = last_addr None xs \<and>
     l_len l = of_nat (length xs) \<and> length xs < 2 ^ 64"

lemma zmalloc_Some:
  assumes "heap_ok hp" and "h_supply hp = Some a # rs"
  shows "zmalloc hp = (Some a, hp\<lparr>h_supply := rs\<rparr>)" and "h_nodes hp a = None"
    and "heap_ok (hp\<lparr>h_supply := rs\<rparr>)" and "Some a \<notin> set rs"
  using assms by (auto simp: heap_ok_def)

lemma list_len: "list_rep hp l xs \<Longrightarrow> unat (l_len l) = length xs"
  by (simp add: list_rep_def unsigned_of_nat take_bit_nat_eq_self)

lemma len_zero: "list_rep hp l xs \<Longrightarrow> l_len l = 0 \<longleftrightarrow> xs = []"
  using list_len [of hp l xs] by (metis length_0_conv unat_0 unat_eq_0)

lemma heap_ok_new_node:
  "heap_ok hp \<Longrightarrow> Some a \<notin> set (h_supply hp) \<Longrightarrow> heap_ok (new_node hp a p n v)"
  by (auto simp: heap_ok_def new_node_def)

lemma heap_ok_store: "heap_ok hp \<Longrightarrow> store hp p f = Some hp' \<Longrightarrow> heap_ok hp'"
  by (auto simp: heap_ok_def store_def split: Option.bind_splits)

lemma listAddNodeHead_rep:
  assumes ok: "heap_ok hp" and sup: "h_supply hp = Some a # rs"
    and rep: "list_rep hp l xs" and room: "Suc (length xs) < 2 ^ 64"
  shows "\<exists>hp' l'. listAddNodeHead hp l v = Some (hp', l', True) \<and> list_rep hp' l' ((a, v) # xs) \<and>
    heap_ok hp' \<and> h_supply hp' = rs"
proof -
  note z = zmalloc_Some [OF ok sup]
  have fresh: "a \<notin> fst ` set xs"
    using chain_dom [of "h_nodes hp"] rep z(2) by (fastforce simp: list_rep_def)
  show ?thesis
  proof (cases xs)
    case Nil
    then show ?thesis
      using len_zero [OF rep] z rep
      by (auto simp: listAddNodeHead_def new_node_def list_rep_def heap_ok_def)
  next
    case (Cons x ys)
    have "l_len l \<noteq> 0" and h: "l_head l = Some (fst x)" using len_zero [OF rep] rep Cons by (auto simp: list_rep_def)
    then show ?thesis
      using z rep Cons fresh room
      by (auto simp: listAddNodeHead_def new_node_def list_rep_def store_def Let_def chain_frame heap_ok_def)
  qed
qed

lemma listAddNodeTail_rep:
  assumes ok: "heap_ok hp" and sup: "h_supply hp = Some a # rs"
    and rep: "list_rep hp l xs" and room: "Suc (length xs) < 2 ^ 64"
  shows "\<exists>hp' l'. listAddNodeTail hp l v = Some (hp', l', True) \<and> list_rep hp' l' (xs @ [(a, v)]) \<and>
    heap_ok hp' \<and> h_supply hp' = rs \<and> l_dup l' = l_dup l \<and>
    (\<forall>b. b \<noteq> a \<and> b \<notin> fst ` set xs \<longrightarrow> h_nodes hp' b = h_nodes hp b)"
proof -
  note z = zmalloc_Some [OF ok sup]
  have fresh: "a \<notin> fst ` set xs"
    using chain_dom [of "h_nodes hp"] rep z(2) by (fastforce simp: list_rep_def)
  show ?thesis
  proof (cases xs rule: rev_cases)
    case Nil
    then show ?thesis
      using len_zero [OF rep] z rep
      by (auto simp: listAddNodeTail_def new_node_def list_rep_def heap_ok_def)
  next
    case (snoc ys x)
    have "l_len l \<noteq> 0" and h: "l_tail l = Some (fst x)" using len_zero [OF rep] rep snoc by (auto simp: list_rep_def)
    then show ?thesis
      using z rep snoc fresh room
      by (auto simp: listAddNodeTail_def new_node_def list_rep_def store_def Let_def chain_frame chain_append
          first_addr_append last_addr_append heap_ok_def)
  qed
qed

text \<open>A \<open>NULL\<close> allocation leaves the list as it was.\<close>

lemma add_out_of_memory:
  assumes "h_supply hp = None # rs"
  shows "listAddNodeHead hp l v = Some (hp\<lparr>h_supply := rs\<rparr>, l, False)"
    and "listAddNodeTail hp l v = Some (hp\<lparr>h_supply := rs\<rparr>, l, False)"
    and "listInsertNode hp l old v after = Some (hp\<lparr>h_supply := rs\<rparr>, l, False)"
  using assms by (simp_all add: listAddNodeHead_def listAddNodeTail_def listInsertNode_def)

lemma listInsertNode_rep:
  assumes ok: "heap_ok hp" and sup: "h_supply hp = Some a # rs"
    and rep: "list_rep hp l (us @ (b, w) # ws)" and room: "length us + length ws + 2 < 2 ^ 64"
  shows "\<exists>hp' l'. listInsertNode hp l b v after = Some (hp', l', True) \<and>
    list_rep hp' l' (if after then us @ (b, w) # (a, v) # ws else us @ (a, v) # (b, w) # ws) \<and>
    heap_ok hp' \<and> h_supply hp' = rs"
proof -
  note z = zmalloc_Some [OF ok sup]
  have fresh: "a \<notin> fst ` set us" "a \<noteq> b" "a \<notin> fst ` set ws"
    using chain_dom [of "h_nodes hp" None "us @ (b, w) # ws" None] rep z(2)
    by (auto simp: list_rep_def)
  show ?thesis
  proof (cases after)
    case True
    show ?thesis
    proof (cases ws)
      case Nil
      then show ?thesis
        using True z rep fresh room
        by (auto simp: listInsertNode_def new_node_def list_rep_def store_unless_null_def store_def Let_def
            chain_frame chain_append last_addr_in first_addr_in first_addr_append last_addr_append heap_ok_def)
    next
      case (Cons x ys)
      then show ?thesis
        using True z rep fresh room
        by (auto simp: listInsertNode_def new_node_def list_rep_def store_unless_null_def store_def Let_def
            chain_frame chain_append last_addr_in first_addr_in first_addr_append last_addr_append heap_ok_def)
    qed
  next
    case False
    show ?thesis
    proof (cases us rule: rev_cases)
      case Nil
      then show ?thesis
        using False z rep fresh room
        by (auto simp: listInsertNode_def new_node_def list_rep_def store_unless_null_def store_def Let_def
            chain_frame chain_append last_addr_in first_addr_in first_addr_append last_addr_append heap_ok_def)
    next
      case (snoc ys x)
      then show ?thesis
        using False z rep fresh room
        by (auto simp: listInsertNode_def new_node_def list_rep_def store_unless_null_def store_def Let_def
            chain_frame chain_append last_addr_in first_addr_in first_addr_append last_addr_append heap_ok_def)
    qed
  qed
qed

lemma listDelNode_rep:
  assumes rep: "list_rep hp l (us @ (b, w) # ws)"
  shows "\<exists>hp' l'. listDelNode hp l b = Some (hp', l') \<and> list_rep hp' l' (us @ ws) \<and>
    h_nodes hp' b = None \<and> h_supply hp' = h_supply hp \<and>
    h_freed hp' = (if l_free l then h_freed hp @ [w] else h_freed hp)"
proof -
  have d: "b \<notin> fst ` set us" "b \<notin> fst ` set ws" using rep by (auto simp: list_rep_def)
  show ?thesis
  proof (cases us rule: rev_cases)
    case Nil
    show ?thesis
    proof (cases ws)
      case Nil2: Nil
      then show ?thesis using Nil rep
        by (auto simp: listDelNode_def list_rep_def store_def Let_def call_free_def zfree_def)
    next
      case (Cons x ys)
      then show ?thesis using Nil rep d
        by (auto simp: listDelNode_def list_rep_def store_def Let_def call_free_def zfree_def chain_frame)
    qed
  next
    case (snoc zs y)
    show ?thesis
    proof (cases ws)
      case Nil2: Nil
      then show ?thesis using snoc rep d
        by (auto simp: listDelNode_def list_rep_def store_def Let_def call_free_def zfree_def chain_frame
            chain_append first_addr_append last_addr_append)
    next
      case (Cons x ys)
      then show ?thesis using snoc rep d
        by (auto simp: listDelNode_def list_rep_def store_def Let_def call_free_def zfree_def chain_frame
            chain_append first_addr_append last_addr_append)
    qed
  qed
qed

lemma listRotate_rep:
  assumes rep: "list_rep hp l (xs @ [x])"
  shows "\<exists>hp' l'. listRotate hp l = Some (hp', l') \<and> list_rep hp' l' (x # xs)"
proof (cases xs)
  case Nil
  then show ?thesis using rep by (auto simp: listRotate_def list_rep_def)
next
  case (Cons y ys)
  have l1: "\<not> l_len l \<le> 1"
  proof -
    have "unat (l_len l) = length (xs @ [x])" using rep by (rule list_len)
    then show ?thesis using Cons by (simp add: word_le_nat_alt)
  qed
  show ?thesis
  proof (cases ys rule: rev_cases)
    case Nil
    then show ?thesis using Cons rep l1
      by (auto simp: listRotate_def list_rep_def store_def Let_def deref_def)
  next
    case (snoc zs z)
    then show ?thesis using Cons rep l1
      by (auto simp: listRotate_def list_rep_def store_def Let_def deref_def chain_frame chain_append
          first_addr_append last_addr_append)
  qed
qed

lemma listRelease_loop_rep:
  assumes "chain (h_nodes hp) p xs None" and "distinct (map fst xs)"
  shows "\<exists>hp'. listRelease_loop hp l (length xs) (first_addr xs None) = Some hp' \<and>
    (\<forall>b. h_nodes hp' b = (if b \<in> fst ` set xs then None else h_nodes hp b)) \<and>
    h_supply hp' = h_supply hp \<and>
    h_freed hp' = (if l_free l then h_freed hp @ map snd xs else h_freed hp)"
  using assms
proof (induction xs arbitrary: hp p)
  case (Cons x xs)
  define hp1 where "hp1 = zfree (call_free hp l (snd x)) (fst x)"
  have "chain (h_nodes hp1) (Some (fst x)) xs None"
    using Cons.prems by (auto simp: hp1_def zfree_def call_free_def chain_frame)
  then obtain hp' where "listRelease_loop hp1 l (length xs) (first_addr xs None) = Some hp'"
    "\<forall>b. h_nodes hp' b = (if b \<in> fst ` set xs then None else h_nodes hp1 b)"
    "h_supply hp' = h_supply hp1"
    "h_freed hp' = (if l_free l then h_freed hp1 @ map snd xs else h_freed hp1)"
    using Cons.IH [of hp1 "Some (fst x)"] Cons.prems(2) by fastforce
  then show ?case
    using Cons.prems by (intro exI [of _ hp']) (auto simp: hp1_def zfree_def call_free_def)
qed simp

lemma listRelease_rep:
  assumes "list_rep hp l xs"
  shows "\<exists>hp'. listRelease hp l = Some hp' \<and>
    (\<forall>b. h_nodes hp' b = (if b \<in> fst ` set xs then None else h_nodes hp b)) \<and>
    h_supply hp' = h_supply hp \<and>
    h_freed hp' = (if l_free l then h_freed hp @ map snd xs else h_freed hp)"
proof -
  have "chain (h_nodes hp) None xs None" "distinct (map fst xs)" and h: "l_head l = first_addr xs None"
    using assms by (simp_all add: list_rep_def)
  then show ?thesis
    using listRelease_loop_rep unfolding listRelease_def list_len [OF assms] h by blast
qed

text \<open>Walking the chain: iterators and indexes.\<close>

lemma listNext_head:
  assumes "chain (h_nodes hp) p (x # xs) None" and "it_direction it = AL_START_HEAD"
    and "it_next it = Some (fst x)"
  shows "listNext hp it = Some (Some (fst x), it\<lparr>it_next := first_addr xs None\<rparr>)"
  using assms by (simp add: listNext_def)

lemma listNext_tail:
  assumes "chain (h_nodes hp) None (xs @ [x]) q" and "it_direction it = AL_START_TAIL"
    and "it_next it = Some (fst x)"
  shows "listNext hp it = Some (Some (fst x), it\<lparr>it_next := last_addr None xs\<rparr>)"
  using assms by (simp add: listNext_def chain_append)

lemma listSearchKey_loop_rep:
  assumes "chain (h_nodes hp) p xs None" and "it_direction it = AL_START_HEAD"
    and "it_next it = first_addr xs None"
  shows "listSearchKey_loop hp l key it = Some (map_option fst (List.find
    (\<lambda>(_, v). case l_match l of Some m \<Rightarrow> m v key | None \<Rightarrow> key = v) xs))"
  using assms
proof (induction xs arbitrary: p it)
  case Nil
  then show ?case by (simp add: listSearchKey_loop.simps listNext_def)
next
  case (Cons x xs)
  have nx: "listNext hp it = Some (Some (fst x), it\<lparr>it_next := first_addr xs None\<rparr>)"
    using listNext_head [OF Cons.prems(1,2)] Cons.prems(3) by simp
  show ?case
    using Cons.prems Cons.IH [of "Some (fst x)" "it\<lparr>it_next := first_addr xs None\<rparr>"] nx
    by (subst listSearchKey_loop.simps) (cases x, simp add: deref_def cong: option.case_cong)
qed

lemma listSearchKey_rep:
  assumes rep: "list_rep hp l xs" and "h_supply hp = Some a # rs"
  shows "listSearchKey hp l key = Some (map_option fst (List.find
    (\<lambda>(_, v). case l_match l of Some m \<Rightarrow> m v key | None \<Rightarrow> key = v) xs), hp\<lparr>h_supply := rs\<rparr>)"
proof -
  define hp1 where "hp1 = hp\<lparr>h_supply := rs\<rparr>"
  have "chain (h_nodes hp1) None xs None" using rep by (simp add: list_rep_def hp1_def)
  then show ?thesis
    using listSearchKey_loop_rep [of hp1 None xs "\<lparr>it_next = l_head l, it_direction = 0\<rparr>" l key] assms
    by (simp add: listSearchKey_def listGetIterator_def hp1_def list_rep_def)
qed

lemma listIndex_next_rep:
  "chain (h_nodes hp) p xs None \<Longrightarrow>
    listIndex_next hp k (first_addr xs None) = Some (if k < length xs then Some (fst (xs ! k)) else None)"
proof (induction k arbitrary: p xs)
  case (Suc k)
  then show ?case by (cases xs) auto
qed (auto simp: first_addr_def split: list.splits)

lemma listIndex_prev_rep:
  "chain (h_nodes hp) None xs q \<Longrightarrow>
    listIndex_prev hp k (last_addr None xs) = Some (if k < length xs then Some (fst (rev xs ! k)) else None)"
proof (induction k arbitrary: q xs)
  case 0
  then show ?case by (cases xs rule: rev_cases) auto
next
  case (Suc k)
  then show ?case by (cases xs rule: rev_cases) (auto simp: chain_append)
qed

lemma listIndex_rep:
  assumes "list_rep hp l xs" and "- (2 ^ 63) < i"
  shows "listIndex hp l i = Some (
    if 0 \<le> i then (if nat i < length xs then Some (fst (xs ! nat i)) else None)
    else (if nat (- i - 1) < length xs then Some (fst (rev xs ! nat (- i - 1))) else None))"
  using assms listIndex_next_rep [of hp None xs] listIndex_prev_rep [of hp xs None]
  by (auto simp: listIndex_def list_rep_def)

lemma chain_cong: "\<forall>b \<in> fst ` set xs. m b = m' b \<Longrightarrow> chain m p xs q = chain m' p xs q"
  by (induction xs arbitrary: p) auto

text \<open>Duplicating: the copy has fresh nodes, the original is untouched, also when \<open>dup\<close> fails.\<close>

definition dup_value :: "'v adlist \<Rightarrow> 'v \<Rightarrow> 'v option" where
  "dup_value l v = (case l_dup l of None \<Rightarrow> Some v | Some d \<Rightarrow> d v)"

lemma listDup_step:
  assumes "listNext hp it = Some (Some a, it')" and "deref hp (Some a) = Some n"
  shows "listDup_loop hp copy it = (case dup_value copy (n_value n) of
      None \<Rightarrow> do { hp \<leftarrow> listRelease hp copy; Some (None, hp) }
    | Some v \<Rightarrow> do {
        (hp, copy, ok) \<leftarrow> listAddNodeTail hp copy v;
        if ok then listDup_loop hp copy it'
        else do { hp \<leftarrow> listRelease hp copy; Some (None, hp) }
      })"
  using assms by (subst listDup_loop.simps) (simp add: dup_value_def)

lemma listDup_loop_rep:
  assumes "heap_ok hp" "chain (h_nodes hp) p xs None" "list_rep hp copy ys"
    and "fst ` set xs \<subseteq> R" "R \<subseteq> dom (h_nodes hp)" "R \<inter> fst ` set ys = {}"
    and "h_supply hp = map Some as @ rs" "length as = length xs" "length ys + length xs < 2 ^ 64"
    and "it_direction it = AL_START_HEAD" "it_next it = first_addr xs None"
  shows "\<exists>r hp'. listDup_loop hp copy it = Some (r, hp') \<and> (\<forall>b \<in> R. h_nodes hp' b = h_nodes hp b) \<and>
    (case those (map (\<lambda>x. dup_value copy (snd x)) xs) of None \<Rightarrow> r = None
     | Some vs \<Rightarrow> \<exists>c. r = Some c \<and> list_rep hp' c (ys @ zip as vs))"
  using assms
proof (induction xs arbitrary: hp p copy ys as it)
  case Nil
  then show ?case by (simp add: listDup_loop.simps listNext_def)
next
  case (Cons x xs)
  let ?it = "it\<lparr>it_next := first_addr xs None\<rparr>"
  have nx: "listNext hp it = Some (Some (fst x), ?it)"
    using listNext_head [OF Cons.prems(2,10)] Cons.prems(11) by simp
  have dr: "deref hp (Some (fst x)) = Some \<lparr>n_prev = p, n_next = first_addr xs None, n_value = snd x\<rparr>"
    using Cons.prems(2) by (simp add: deref_def)
  show ?case
  proof (cases "dup_value copy (snd x)")
    case None
    obtain hp' where "listRelease hp copy = Some hp'"
      and fr: "\<forall>b. h_nodes hp' b = (if b \<in> fst ` set ys then None else h_nodes hp b)"
      using listRelease_rep [OF Cons.prems(3)] by blast
    then have "listDup_loop hp copy it = Some (None, hp')"
      using None by (simp add: listDup_step [OF nx dr])
    moreover have "\<forall>b \<in> R. h_nodes hp' b = h_nodes hp b"
      using fr Cons.prems(6) by (simp add: disjoint_iff)
    ultimately show ?thesis using None by simp
  next
    case (Some v)
    obtain a as' where as: "as = a # as'" "length as' = length xs"
      using Cons.prems(8) by (cases as) auto
    then have sup: "h_supply hp = Some a # (map Some as' @ rs)" using Cons.prems(7) by simp
    have aR: "a \<notin> R"
      using zmalloc_Some(2) [OF Cons.prems(1) sup] Cons.prems(5) by auto
    have room: "Suc (length ys) < 2 ^ 64" using Cons.prems(9) by simp
    obtain hp1 copy1 where add: "listAddNodeTail hp copy v = Some (hp1, copy1, True)"
      and rep1: "list_rep hp1 copy1 (ys @ [(a, v)])" "heap_ok hp1" "h_supply hp1 = map Some as' @ rs"
      and d1: "l_dup copy1 = l_dup copy"
      and fr: "\<forall>b. b \<noteq> a \<and> b \<notin> fst ` set ys \<longrightarrow> h_nodes hp1 b = h_nodes hp b"
      using listAddNodeTail_rep [OF Cons.prems(1) sup Cons.prems(3) room, of v] by blast
    have same: "\<forall>b \<in> R. h_nodes hp1 b = h_nodes hp b"
      using fr aR Cons.prems(6) by (metis disjoint_iff)
    have ch1: "chain (h_nodes hp1) (Some (fst x)) xs None"
    proof -
      have "\<forall>b \<in> fst ` set xs. h_nodes hp1 b = h_nodes hp b" using same Cons.prems(4) by auto
      from chain_cong [OF this] show ?thesis using Cons.prems(2) by simp
    qed
    have dom1: "R \<subseteq> dom (h_nodes hp1)" using same Cons.prems(5) by (auto simp: dom_def)
    have "\<exists>r hp'. listDup_loop hp1 copy1 ?it = Some (r, hp') \<and> (\<forall>b \<in> R. h_nodes hp' b = h_nodes hp1 b) \<and>
      (case those (map (\<lambda>x. dup_value copy1 (snd x)) xs) of None \<Rightarrow> r = None
       | Some vs \<Rightarrow> \<exists>c. r = Some c \<and> list_rep hp' c ((ys @ [(a, v)]) @ zip as' vs))"
      using Cons.prems aR as(2)
      by (intro Cons.IH [OF rep1(2) ch1 rep1(1) _ dom1 _ rep1(3)]) auto
    moreover have "dup_value copy1 = dup_value copy" by (simp add: dup_value_def d1 fun_eq_iff)
    moreover have "listDup_loop hp copy it = listDup_loop hp1 copy1 ?it"
      using Some add by (simp add: listDup_step [OF nx dr])
    ultimately show ?thesis
      using same Some as(1) by (auto split: option.splits)
  qed
qed

lemma listDup_rep:
  assumes "heap_ok hp" and rep: "list_rep hp l xs" and "length as = length xs"
    and "h_supply hp = Some b # Some c # map Some as @ rs"
  shows "\<exists>r hp'. listDup hp l = Some (r, hp') \<and> list_rep hp' l xs \<and>
    (case those (map (\<lambda>x. dup_value l (snd x)) xs) of None \<Rightarrow> r = None
     | Some vs \<Rightarrow> \<exists>l'. r = Some l' \<and> list_rep hp' l' (zip as vs))"
proof -
  define hp1 where "hp1 = hp\<lparr>h_supply := map Some as @ rs\<rparr>"
  define copy where "copy = \<lparr>l_head = None, l_tail = None, l_dup = l_dup l, l_free = l_free l,
    l_match = l_match l, l_len = 0\<rparr>"
  define it where "it = \<lparr>it_next = l_head l, it_direction = AL_START_HEAD\<rparr>"
  have ok: "heap_ok hp1" using assms(1,4) by (auto simp: heap_ok_def hp1_def)
  have ch: "chain (h_nodes hp1) None xs None" using rep by (simp add: list_rep_def hp1_def)
  have cp: "list_rep hp1 copy []" by (simp add: list_rep_def copy_def)
  have "\<exists>r hp'. listDup_loop hp1 copy it = Some (r, hp') \<and>
    (\<forall>b \<in> fst ` set xs. h_nodes hp' b = h_nodes hp1 b) \<and>
    (case those (map (\<lambda>x. dup_value copy (snd x)) xs) of None \<Rightarrow> r = None
     | Some vs \<Rightarrow> \<exists>c. r = Some c \<and> list_rep hp' c ([] @ zip as vs))"
    using rep assms(3) chain_dom [OF ch]
    by (intro listDup_loop_rep [OF ok ch cp]) (auto simp: hp1_def it_def list_rep_def)
  then obtain r hp' where l: "listDup_loop hp1 copy it = Some (r, hp')"
    and same: "\<forall>b \<in> fst ` set xs. h_nodes hp' b = h_nodes hp1 b"
    and res: "case those (map (\<lambda>x. dup_value copy (snd x)) xs) of None \<Rightarrow> r = None
     | Some vs \<Rightarrow> \<exists>c. r = Some c \<and> list_rep hp' c ([] @ zip as vs)" by blast
  have "listDup hp l = Some (r, hp')"
    using assms(4) l by (simp add: listDup_def listCreate_def listGetIterator_def copy_def it_def hp1_def)
  moreover have "list_rep hp' l xs"
    using rep same chain_cong [of xs "h_nodes hp'" "h_nodes hp1"] ch by (simp add: list_rep_def)
  moreover have "dup_value copy = dup_value l" by (simp add: dup_value_def copy_def fun_eq_iff)
  ultimately show ?thesis using res by (auto cong: option.case_cong)
qed

section \<open>Properties\<close>

text \<open>A list of two nodes for the examples.\<close>

definition two_nodes :: "nat heap" where
  "two_nodes = \<lparr>h_nodes = [1 \<mapsto> \<lparr>n_prev = None, n_next = Some 2, n_value = 10\<rparr>,
     2 \<mapsto> \<lparr>n_prev = Some 1, n_next = None, n_value = 20\<rparr>], h_supply = [Some 3, Some 4, Some 5, Some 6], h_freed = []\<rparr>"

definition two_list :: "nat adlist" where
  "two_list = \<lparr>l_head = Some 1, l_tail = Some 2, l_dup = None, l_free = True, l_match = None, l_len = 2\<rparr>"

lemma two_rep: "list_rep two_nodes two_list [(1, 10), (2, 20)]"
  by (simp add: list_rep_def two_nodes_def two_list_def)

text \<open>An empty list beside it in the same heap.\<close>

definition no_list :: "nat adlist" where
  "no_list = two_list\<lparr>l_head := None, l_tail := None, l_len := 0\<rparr>"

lemma no_rep: "list_rep two_nodes no_list []"
  by (simp add: no_list_def list_rep_def)

lemma two_heap_ok: "heap_ok two_nodes"
  by (auto simp: heap_ok_def two_nodes_def)

text \<open>
  C25: inserting a value at either end, of the empty list too, or beside a node puts it at that place of the
  list and keeps the others, with all the links in both directions; when the allocation fails the
  list is unchanged and \<open>NULL\<close> is returned.
\<close>

theorem list_insert:
  assumes "heap_ok hp" and rep: "list_rep hp l xs" and room: "length xs + 1 < 2 ^ 64" and sup: "h_supply hp = r # rs"
  shows "case r of
     Some a \<Rightarrow>
       (\<exists>hp' l'. listAddNodeHead hp l v = Some (hp', l', True) \<and> list_rep hp' l' ((a, v) # xs)) \<and>
       (\<exists>hp' l'. listAddNodeTail hp l v = Some (hp', l', True) \<and> list_rep hp' l' (xs @ [(a, v)])) \<and>
       (\<forall>us b w ws. xs = us @ (b, w) # ws \<longrightarrow>
          (\<exists>hp' l'. listInsertNode hp l b v True = Some (hp', l', True) \<and> list_rep hp' l' (us @ (b, w) # (a, v) # ws)) \<and>
          (\<exists>hp' l'. listInsertNode hp l b v False = Some (hp', l', True) \<and> list_rep hp' l' (us @ (a, v) # (b, w) # ws)))
   | None \<Rightarrow>
       listAddNodeHead hp l v = Some (hp\<lparr>h_supply := rs\<rparr>, l, False) \<and>
       listAddNodeTail hp l v = Some (hp\<lparr>h_supply := rs\<rparr>, l, False) \<and>
       listInsertNode hp l b v after = Some (hp\<lparr>h_supply := rs\<rparr>, l, False)"
proof (cases r)
  case None
  then show ?thesis using add_out_of_memory [of hp rs] sup by simp
next
  case (Some a)
  have s: "h_supply hp = Some a # rs" and len: "Suc (length xs) < 2 ^ 64"
    using sup Some room by simp_all
  have "(\<exists>hp' l'. listInsertNode hp l b v True = Some (hp', l', True) \<and> list_rep hp' l' (us @ (b, w) # (a, v) # ws)) \<and>
      (\<exists>hp' l'. listInsertNode hp l b v False = Some (hp', l', True) \<and> list_rep hp' l' (us @ (a, v) # (b, w) # ws))"
    if x: "xs = us @ (b, w) # ws" for us b w ws
  proof -
    have "length us + length ws + 2 < 2 ^ 64" using room x by simp
    from listInsertNode_rep [OF assms(1) s rep [unfolded x] this, of v True] listInsertNode_rep [OF assms(1) s rep [unfolded x] this, of v False]
    show ?thesis by auto
  qed
  then show ?thesis
    using listAddNodeHead_rep [OF assms(1) s rep len, of v] listAddNodeTail_rep [OF assms(1) s rep len, of v] Some by auto
qed

theorem list_insert_witness:
  "(\<exists>hp' l'. listAddNodeHead two_nodes two_list 7 = Some (hp', l', True) \<and> list_rep hp' l' [(3, 7), (1, 10), (2, 20)]) \<and>
   (\<exists>hp' l'. listInsertNode two_nodes two_list 1 7 True = Some (hp', l', True) \<and> list_rep hp' l' [(1, 10), (3, 7), (2, 20)]) \<and>
   (\<exists>hp' l'. listAddNodeTail two_nodes no_list 7 = Some (hp', l', True) \<and> list_rep hp' l' [(3, 7)])"
proof -
  have sup: "h_supply two_nodes = Some 3 # [Some 4, Some 5, Some 6]" by (simp add: two_nodes_def)
  have "\<forall>us b w ws. [(1, 10), (2, 20)] = us @ (b, w) # ws \<longrightarrow>
      (\<exists>hp' l'. listInsertNode two_nodes two_list b 7 True = Some (hp', l', True) \<and> list_rep hp' l' (us @ (b, w) # (3, 7) # ws))"
    using list_insert [OF two_heap_ok two_rep _ sup, of 7] by simp
  from this [rule_format, of "[]" 1 10 "[(2, 20)]"] show ?thesis
    using list_insert [OF two_heap_ok two_rep _ sup, of 7] list_insert [OF two_heap_ok no_rep _ sup, of 7] by simp
qed

text \<open>
  deleting a node unlinks it from both directions, frees it, gives its value to the
  \<open>free\<close> method exactly when there is one, and keeps the other nodes in order.
\<close>

theorem list_delete:
  assumes "list_rep hp l (us @ (b, w) # ws)"
  shows "\<exists>hp' l'. listDelNode hp l b = Some (hp', l') \<and> list_rep hp' l' (us @ ws) \<and> h_nodes hp' b = None \<and>
    h_freed hp' = (if l_free l then h_freed hp @ [w] else h_freed hp)"
  using listDelNode_rep [OF assms] by blast

theorem list_delete_witness:
  "\<exists>hp' l'. listDelNode two_nodes two_list 1 = Some (hp', l') \<and> list_rep hp' l' [(2, 20)] \<and> h_nodes hp' 1 = None \<and>
    h_freed hp' = [10]"
  using list_delete [of two_nodes two_list "[]" 1 10 "[(2, 20)]"] two_rep by (simp add: two_list_def two_nodes_def)

text \<open>
  \<open>ListDup\<close> makes a list of fresh nodes with the duplicated values in the same order, or
  fails when a value cannot be duplicated; the original list is kept in both cases.
\<close>

theorem list_dup:
  assumes "heap_ok hp" and "list_rep hp l xs" and "length as = length xs"
    and "h_supply hp = Some b # Some c # map Some as @ rs"
  shows "\<exists>r hp'. listDup hp l = Some (r, hp') \<and> list_rep hp' l xs \<and>
    (case those (map (\<lambda>x. dup_value l (snd x)) xs) of None \<Rightarrow> r = None
     | Some vs \<Rightarrow> \<exists>l'. r = Some l' \<and> list_rep hp' l' (zip as vs))"
  by (rule listDup_rep [OF assms])

theorem list_dup_witness:
  "\<exists>r hp'. listDup two_nodes two_list = Some (r, hp') \<and> list_rep hp' two_list [(1, 10), (2, 20)] \<and>
    (\<exists>l'. r = Some l' \<and> list_rep hp' l' [(5, 10), (6, 20)])"
  using list_dup [OF two_heap_ok two_rep, of "[5, 6]" 3 4 "[]"]
  by (simp add: two_nodes_def two_list_def dup_value_def)

text \<open>
  Rotation moves the last node to the front, and releasing a list frees every node and
  gives every value to the \<open>free\<close> method once, in order.
\<close>

theorem list_rotate_release:
  assumes "list_rep hp l (xs @ [x])"
  shows "(\<exists>hp' l'. listRotate hp l = Some (hp', l') \<and> list_rep hp' l' (x # xs)) \<and>
    (\<exists>hp'. listRelease hp l = Some hp' \<and> (\<forall>b. h_nodes hp' b = (if b \<in> fst ` set (xs @ [x]) then None else h_nodes hp b)) \<and>
      h_freed hp' = (if l_free l then h_freed hp @ map snd (xs @ [x]) else h_freed hp))"
  using listRotate_rep [OF assms] listRelease_rep [OF assms] by blast

theorem list_rotate_release_witness:
  "\<exists>hp' l'. listRotate two_nodes two_list = Some (hp', l') \<and> list_rep hp' l' [(2, 20), (1, 10)]"
  using list_rotate_release [of two_nodes two_list "[(1, 10)]" "(2, 20)"] two_rep by simp

end
