(* ===== verification/Dict.thy ===== *)
theory Dict
  imports Prelude "HOL-Library.Multiset"
begin

unbundle bit_operations_syntax

text \<open>
  \<open>redis/src/dict.c\<close> and \<open>dict.h\<close>: the chained hash table that grows by incremental
  rehashing from \<open>ht[0]\<close> to \<open>ht[1]\<close>.  A bucket is the list of its chain's entries, a
  table pointer is \<open>None\<close> for \<open>NULL\<close>; \<open>unsigned long\<close> fields are words.  The callbacks
  of \<open>dictType\<close> are the argument \<open>ty\<close>; the destructors' calls are logged in \<open>d_freed\<close>.
  \<open>None\<close> as the result of an operation is an access outside a table, a failed
  \<open>assert\<close>, or an allocation that cannot succeed.
\<close>

section \<open>Data\<close>

record ('k, 'v) dictEntry =
  e_key :: 'k
  e_val :: 'v

record ('k, 'v) dictType =
  hashFunction :: "'k \<Rightarrow> u32"
  keyDup :: "('k \<Rightarrow> 'k) option"
  valDup :: "('v \<Rightarrow> 'v) option"
  keyCompare :: "('k \<Rightarrow> 'k \<Rightarrow> bool) option"
  keyDestructor :: bool
  valDestructor :: bool

record ('k, 'v) dictht =
  ht_table :: "('k, 'v) dictEntry list list option"
  ht_size :: u64
  ht_sizemask :: u64
  ht_used :: u64

datatype ('k, 'v) dict_event = FreeKey 'k | FreeVal 'v

record ('k, 'v) dict =
  ht0 :: "('k, 'v) dictht"
  ht1 :: "('k, 'v) dictht"
  rehashidx :: int
  iterators :: int
  d_freed :: "('k, 'v) dict_event list"

text \<open>The static variables of the file, and what an unwritten value field holds.\<close>

record 'v dict_env =
  dict_can_resize :: bool
  uninit_val :: 'v

abbreviation dict_force_resize_ratio :: u64 where "dict_force_resize_ratio \<equiv> 5"
abbreviation DICT_HT_INITIAL_SIZE :: u64 where "DICT_HT_INITIAL_SIZE \<equiv> 4"
abbreviation LONG_MAX :: u64 where "LONG_MAX \<equiv> 9223372036854775807"

section \<open>Hash functions\<close>

definition dictIntHashFunction :: "u32 \<Rightarrow> u32" where
  "dictIntHashFunction key =
     (let key = key + NOT (push_bit 15 key);
          key = key XOR drop_bit 10 key;
          key = key + push_bit 3 key;
          key = key XOR drop_bit 6 key;
          key = key + NOT (push_bit 11 key);
          key = key XOR drop_bit 16 key
      in key)"

definition dictIdentityHashFunction :: "u32 \<Rightarrow> u32" where
  "dictIdentityHashFunction key = key"

primrec dictGenHashFunction_loop :: "u32 \<Rightarrow> byte list \<Rightarrow> u32" where
  "dictGenHashFunction_loop hash [] = hash"
| "dictGenHashFunction_loop hash (c # buf) =
     dictGenHashFunction_loop ((push_bit 5 hash + hash) + ucast c) buf"

definition dictGenHashFunction :: "u32 \<Rightarrow> byte list \<Rightarrow> u32" where
  "dictGenHashFunction seed buf = dictGenHashFunction_loop seed buf"

primrec dictGenCaseHashFunction_loop :: "u32 \<Rightarrow> byte list \<Rightarrow> u32" where
  "dictGenCaseHashFunction_loop hash [] = hash"
| "dictGenCaseHashFunction_loop hash (c # buf) =
     dictGenCaseHashFunction_loop ((push_bit 5 hash + hash) + ucast (tolower c)) buf"

definition dictGenCaseHashFunction :: "u32 \<Rightarrow> byte list \<Rightarrow> u32" where
  "dictGenCaseHashFunction seed buf = dictGenCaseHashFunction_loop seed buf"

section \<open>Macros\<close>

definition dictIsRehashing :: "('k, 'v) dict \<Rightarrow> bool" where
  "dictIsRehashing d \<longleftrightarrow> rehashidx d \<noteq> - 1"

definition dictSlots :: "('k, 'v) dict \<Rightarrow> u64" where
  "dictSlots d = ht_size (ht0 d) + ht_size (ht1 d)"

definition dictSize :: "('k, 'v) dict \<Rightarrow> u64" where
  "dictSize d = ht_used (ht0 d) + ht_used (ht1 d)"

definition dictCompareKeys :: "('k, 'v) dictType \<Rightarrow> 'k \<Rightarrow> 'k \<Rightarrow> bool" where
  "dictCompareKeys ty key1 key2 =
     (case keyCompare ty of Some c \<Rightarrow> c key1 key2 | None \<Rightarrow> key1 = key2)"

definition dictFreeKey :: "('k, 'v) dictType \<Rightarrow> ('k, 'v) dict \<Rightarrow> ('k, 'v) dictEntry \<Rightarrow> ('k, 'v) dict" where
  "dictFreeKey ty d e = (if keyDestructor ty then d\<lparr>d_freed := d_freed d @ [FreeKey (e_key e)]\<rparr> else d)"

definition dictFreeVal :: "('k, 'v) dictType \<Rightarrow> ('k, 'v) dict \<Rightarrow> ('k, 'v) dictEntry \<Rightarrow> ('k, 'v) dict" where
  "dictFreeVal ty d e = (if valDestructor ty then d\<lparr>d_freed := d_freed d @ [FreeVal (e_val e)]\<rparr> else d)"

definition dictSetVal :: "('k, 'v) dictType \<Rightarrow> 'v \<Rightarrow> ('k, 'v) dictEntry \<Rightarrow> ('k, 'v) dictEntry" where
  "dictSetVal ty v e = e\<lparr>e_val := (case valDup ty of Some f \<Rightarrow> f v | None \<Rightarrow> v)\<rparr>"

definition dictSetKey :: "('k, 'v) dictType \<Rightarrow> 'k \<Rightarrow> ('k, 'v) dictEntry \<Rightarrow> ('k, 'v) dictEntry" where
  "dictSetKey ty k e = e\<lparr>e_key := (case keyDup ty of Some f \<Rightarrow> f k | None \<Rightarrow> k)\<rparr>"

section \<open>Tables\<close>

text \<open>
  \<open>ht->table[i]\<close>; the write of a bucket.  Only one of the two tables is addressed at a
  time: \<open>get_ht\<close> and \<open>set_ht\<close> are \<open>d->ht[t]\<close>.
\<close>

definition bucket :: "('k, 'v) dictht \<Rightarrow> nat \<Rightarrow> ('k, 'v) dictEntry list option" where
  "bucket ht i = do { t \<leftarrow> ht_table ht; if i < length t then Some (t ! i) else None }"

definition set_bucket ::
  "('k, 'v) dictht \<Rightarrow> nat \<Rightarrow> ('k, 'v) dictEntry list \<Rightarrow> ('k, 'v) dictht option" where
  "set_bucket ht i b = do {
     t \<leftarrow> ht_table ht;
     if i < length t then Some (ht\<lparr>ht_table := Some (t[i := b])\<rparr>) else None
   }"

definition get_ht :: "nat \<Rightarrow> ('k, 'v) dict \<Rightarrow> ('k, 'v) dictht" where
  "get_ht t d = (if t = 0 then ht0 d else ht1 d)"

definition set_ht :: "nat \<Rightarrow> ('k, 'v) dictht \<Rightarrow> ('k, 'v) dict \<Rightarrow> ('k, 'v) dict" where
  "set_ht t ht d = (if t = 0 then d\<lparr>ht0 := ht\<rparr> else d\<lparr>ht1 := ht\<rparr>)"

text \<open>\<open>h & ht->sizemask\<close>, stored in an \<open>unsigned int\<close>.\<close>

definition ht_index :: "('k, 'v) dictht \<Rightarrow> u32 \<Rightarrow> u32" where
  "ht_index ht h = ucast (ucast h AND ht_sizemask ht)"

definition u_dictReset :: "('k, 'v) dictht" where
  "u_dictReset = \<lparr>ht_table = None, ht_size = 0, ht_sizemask = 0, ht_used = 0\<rparr>"

definition u_dictInit :: "('k, 'v) dict" where
  "u_dictInit = \<lparr>ht0 = u_dictReset, ht1 = u_dictReset, rehashidx = - 1, iterators = 0, d_freed = []\<rparr>"

definition dictCreate :: "('k, 'v) dict" where
  "dictCreate = u_dictInit"

text \<open>The loop doubles \<open>i\<close> in \<open>unsigned long\<close>: \<open>None\<close> if it never reaches \<open>size\<close>.\<close>

partial_function (option) dictNextPower_loop :: "u64 \<Rightarrow> u64 \<Rightarrow> u64 option" where
  "dictNextPower_loop sz i = (if i \<ge> sz then Some i else dictNextPower_loop sz (i * 2))"

definition u_dictNextPower :: "u64 \<Rightarrow> u64 option" where
  "u_dictNextPower sz =
     (if sz \<ge> LONG_MAX then Some LONG_MAX else dictNextPower_loop sz DICT_HT_INITIAL_SIZE)"

text \<open>The flag is true for \<open>DICT_OK\<close>.  An array of more than \<open>2 ^ 64\<close> bytes cannot be allocated.\<close>

definition dictExpand :: "('k, 'v) dict \<Rightarrow> u64 \<Rightarrow> (('k, 'v) dict \<times> bool) option" where
  "dictExpand d sz = do {
     realsize \<leftarrow> u_dictNextPower sz;
     if dictIsRehashing d \<or> ht_used (ht0 d) > sz then Some (d, False)
     else if 2 ^ 64 \<le> unat realsize * 8 then None
     else do {
       let n = \<lparr>ht_table = Some (replicate (unat realsize) []), ht_size = realsize,
                ht_sizemask = realsize - 1, ht_used = 0\<rparr>;
       if ht_table (ht0 d) = None then Some (d\<lparr>ht0 := n\<rparr>, True)
       else Some (d\<lparr>ht1 := n, rehashidx := 0\<rparr>, True)
     }
   }"

text \<open>\<open>minimal\<close> is a C \<open>int\<close>, converted back to \<open>unsigned long\<close> for \<open>dictExpand\<close>.\<close>

definition dictResize :: "'v dict_env \<Rightarrow> ('k, 'v) dict \<Rightarrow> (('k, 'v) dict \<times> bool) option" where
  "dictResize g d =
     (if \<not> dict_can_resize g \<or> dictIsRehashing d then Some (d, False)
      else (let minimal = (ucast (ht_used (ht0 d)) :: 32 word);
                minimal = (if sint minimal < 4 then 4 else minimal)
            in dictExpand d (scast minimal)))"


section \<open>Incremental rehashing\<close>

text \<open>\<open>while(table[rehashidx] == NULL) rehashidx++\<close>; a read past the table is \<open>None\<close>.\<close>

function skip_empty :: "'e list list \<Rightarrow> nat \<Rightarrow> nat option" where
  "skip_empty t i =
     (if i < length t then (if t ! i = [] then skip_empty t (Suc i) else Some i) else None)"
  by pat_completeness auto
termination
  by (relation "measure (\<lambda>(t, i). length t - i)") auto

declare skip_empty.simps [simp del]

text \<open>\<open>while(de)\<close>: each entry of the chain goes to the front of its new bucket.\<close>

primrec rehash_chain ::
  "('k, 'v) dictType \<Rightarrow> ('k, 'v) dict \<Rightarrow> ('k, 'v) dictEntry list \<Rightarrow> ('k, 'v) dict option" where
  "rehash_chain ty d [] = Some d"
| "rehash_chain ty d (de # nextde) = do {
     let h = unat (ht_index (ht1 d) (hashFunction ty (e_key de)));
     b \<leftarrow> bucket (ht1 d) h;
     ht \<leftarrow> set_bucket (ht1 d) h (de # b);
     let d = d\<lparr>ht0 := (ht0 d)\<lparr>ht_used := ht_used (ht0 d) - 1\<rparr>, ht1 := ht\<lparr>ht_used := ht_used ht + 1\<rparr>\<rparr>;
     rehash_chain ty d nextde
   }"

primrec dictRehash_loop :: "('k, 'v) dictType \<Rightarrow> nat \<Rightarrow> ('k, 'v) dict \<Rightarrow> (('k, 'v) dict \<times> bool) option" where
  "dictRehash_loop ty 0 d = Some (d, True)"
| "dictRehash_loop ty (Suc n) d =
     (if ht_used (ht0 d) = 0 then
        Some (d\<lparr>ht0 := ht1 d, ht1 := u_dictReset, rehashidx := - 1\<rparr>, False)
      else if \<not> ht_size (ht0 d) > ucast (word_of_int (rehashidx d) :: 32 word) then None
      else do {
        t \<leftarrow> ht_table (ht0 d);
        i \<leftarrow> (if rehashidx d < 0 then None else skip_empty t (nat (rehashidx d)));
        let de = t ! i;
        d \<leftarrow> rehash_chain ty d de;
        ht \<leftarrow> set_bucket (ht0 d) i [];
        dictRehash_loop ty n (d\<lparr>ht0 := ht, rehashidx := int i + 1\<rparr>)
      })"

definition dictRehash :: "('k, 'v) dictType \<Rightarrow> ('k, 'v) dict \<Rightarrow> nat \<Rightarrow> (('k, 'v) dict \<times> bool) option" where
  "dictRehash ty d n = (if \<not> dictIsRehashing d then Some (d, False) else dictRehash_loop ty n d)"

definition u_dictRehashStep :: "('k, 'v) dictType \<Rightarrow> ('k, 'v) dict \<Rightarrow> ('k, 'v) dict option" where
  "u_dictRehashStep ty d = (if iterators d = 0 then map_option fst (dictRehash ty d 1) else Some d)"

definition step_if_rehashing :: "('k, 'v) dictType \<Rightarrow> ('k, 'v) dict \<Rightarrow> ('k, 'v) dict option" where
  "step_if_rehashing ty d = (if dictIsRehashing d then u_dictRehashStep ty d else Some d)"

text \<open>
  \<open>clock\<close> lists the successive answers of the clock in milliseconds, relative to the start:
  the loop stops when one exceeds \<open>ms\<close> or the rehashing is over.
\<close>

fun dictRehashMilliseconds_loop ::
  "('k, 'v) dictType \<Rightarrow> ('k, 'v) dict \<Rightarrow> int \<Rightarrow> int list \<Rightarrow> int \<Rightarrow> (('k, 'v) dict \<times> int) option" where
  "dictRehashMilliseconds_loop ty d ms [] rehashes = None"
| "dictRehashMilliseconds_loop ty d ms (t # ts) rehashes = do {
     (d, more) \<leftarrow> dictRehash ty d 100;
     if more then
       (if t > ms then Some (d, rehashes + 100)
        else dictRehashMilliseconds_loop ty d ms ts (rehashes + 100))
     else Some (d, rehashes)
   }"

definition dictRehashMilliseconds ::
  "('k, 'v) dictType \<Rightarrow> ('k, 'v) dict \<Rightarrow> int \<Rightarrow> int list \<Rightarrow> (('k, 'v) dict \<times> int) option" where
  "dictRehashMilliseconds ty d ms clock = dictRehashMilliseconds_loop ty d ms clock 0"

section \<open>Lookup and update\<close>

definition u_dictExpandIfNeeded :: "'v dict_env \<Rightarrow> ('k, 'v) dict \<Rightarrow> (('k, 'v) dict \<times> bool) option" where
  "u_dictExpandIfNeeded g d =
     (if dictIsRehashing d then Some (d, True)
      else if ht_size (ht0 d) = 0 then dictExpand d DICT_HT_INITIAL_SIZE
      else if ht_used (ht0 d) \<ge> ht_size (ht0 d) \<and>
          (dict_can_resize g \<or> ht_used (ht0 d) div ht_size (ht0 d) > dict_force_resize_ratio)
        then dictExpand d ((if ht_size (ht0 d) > ht_used (ht0 d) then ht_size (ht0 d)
                            else ht_used (ht0 d)) * 2)
      else Some (d, True))"

text \<open>The position in a chain of the first entry with the key.\<close>

primrec chain_find :: "('k, 'v) dictType \<Rightarrow> 'k \<Rightarrow> ('k, 'v) dictEntry list \<Rightarrow> nat option" where
  "chain_find ty key [] = None"
| "chain_find ty key (he # r) =
     (if dictCompareKeys ty key (e_key he) then Some 0 else map_option Suc (chain_find ty key r))"

text \<open>The first component is the index, or \<open>-1\<close>; it is converted to a C \<open>int\<close>.\<close>

definition u_dictKeyIndex ::
  "'v dict_env \<Rightarrow> ('k, 'v) dictType \<Rightarrow> ('k, 'v) dict \<Rightarrow> 'k \<Rightarrow> (int \<times> ('k, 'v) dict) option" where
  "u_dictKeyIndex g ty d key = do {
     (d, ok) \<leftarrow> u_dictExpandIfNeeded g d;
     if \<not> ok then Some (- 1, d)
     else do {
       let h = hashFunction ty key;
       let idx = ht_index (ht0 d) h;
       b \<leftarrow> bucket (ht0 d) (unat idx);
       if chain_find ty key b \<noteq> None then Some (- 1, d)
       else if \<not> dictIsRehashing d then Some (sint idx, d)
       else do {
         let idx = ht_index (ht1 d) h;
         b \<leftarrow> bucket (ht1 d) (unat idx);
         if chain_find ty key b \<noteq> None then Some (- 1, d)
         else Some (sint idx, d)
       }
     }
   }"

text \<open>
  A pointer to an entry: the table, the bucket and the position in the chain.  The
  entry returned by \<open>dictAddRaw\<close> is the first of its bucket, its value not yet written.
\<close>

type_synonym entry_ptr = "nat \<times> nat \<times> nat"

definition dictAddRaw ::
  "'v dict_env \<Rightarrow> ('k, 'v) dictType \<Rightarrow> ('k, 'v) dict \<Rightarrow> 'k \<Rightarrow> (entry_ptr option \<times> ('k, 'v) dict) option" where
  "dictAddRaw g ty d key = do {
     d \<leftarrow> step_if_rehashing ty d;
     (index, d) \<leftarrow> u_dictKeyIndex g ty d key;
     if index = - 1 then Some (None, d)
     else if index < 0 then None
     else do {
       let t = (if dictIsRehashing d then 1 else 0);
       let ht = get_ht t d;
       b \<leftarrow> bucket ht (nat index);
       let entry = dictSetKey ty key \<lparr>e_key = key, e_val = uninit_val g\<rparr>;
       ht \<leftarrow> set_bucket ht (nat index) (entry # b);
       Some (Some (t, nat index, 0), set_ht t (ht\<lparr>ht_used := ht_used ht + 1\<rparr>) d)
     }
   }"

text \<open>Reading and writing the entry a pointer stands for.\<close>

definition entry_at :: "('k, 'v) dict \<Rightarrow> entry_ptr \<Rightarrow> ('k, 'v) dictEntry option" where
  "entry_at d p = (case p of (t, i, j) \<Rightarrow> do {
     b \<leftarrow> bucket (get_ht t d) i;
     if j < length b then Some (b ! j) else None
   })"

definition update_entry ::
  "('k, 'v) dict \<Rightarrow> entry_ptr \<Rightarrow> (('k, 'v) dictEntry \<Rightarrow> ('k, 'v) dictEntry) \<Rightarrow> ('k, 'v) dict option" where
  "update_entry d p f = (case p of (t, i, j) \<Rightarrow> do {
     b \<leftarrow> bucket (get_ht t d) i;
     if j < length b then do {
       ht \<leftarrow> set_bucket (get_ht t d) i (b[j := f (b ! j)]);
       Some (set_ht t ht d)
     } else None
   })"

definition dictAdd ::
  "'v dict_env \<Rightarrow> ('k, 'v) dictType \<Rightarrow> ('k, 'v) dict \<Rightarrow> 'k \<Rightarrow> 'v \<Rightarrow> (('k, 'v) dict \<times> bool) option" where
  "dictAdd g ty d key v = do {
     (entry, d) \<leftarrow> dictAddRaw g ty d key;
     case entry of None \<Rightarrow> Some (d, False)
     | Some p \<Rightarrow> do { d \<leftarrow> update_entry d p (dictSetVal ty v); Some (d, True) }
   }"

definition dictFind ::
  "('k, 'v) dictType \<Rightarrow> ('k, 'v) dict \<Rightarrow> 'k \<Rightarrow> (entry_ptr option \<times> ('k, 'v) dict) option" where
  "dictFind ty d key =
     (if ht_size (ht0 d) = 0 then Some (None, d)
      else do {
        d \<leftarrow> step_if_rehashing ty d;
        let h = hashFunction ty key;
        let idx = ht_index (ht0 d) h;
        b \<leftarrow> bucket (ht0 d) (unat idx);
        case chain_find ty key b of
          Some j \<Rightarrow> Some (Some (0, unat idx, j), d)
        | None \<Rightarrow>
            if \<not> dictIsRehashing d then Some (None, d)
            else do {
              let idx = ht_index (ht1 d) h;
              b \<leftarrow> bucket (ht1 d) (unat idx);
              case chain_find ty key b of
                Some j \<Rightarrow> Some (Some (1, unat idx, j), d)
              | None \<Rightarrow> Some (None, d)
            }
      })"

definition dictFetchValue ::
  "('k, 'v) dictType \<Rightarrow> ('k, 'v) dict \<Rightarrow> 'k \<Rightarrow> ('v option \<times> ('k, 'v) dict) option" where
  "dictFetchValue ty d key = do {
     (he, d) \<leftarrow> dictFind ty d key;
     case he of None \<Rightarrow> Some (None, d)
     | Some p \<Rightarrow> do { e \<leftarrow> entry_at d p; Some (Some (e_val e), d) }
   }"

text \<open>The flag is true when the key was added; an old value is freed after the new one is set.\<close>

definition dictReplace ::
  "'v dict_env \<Rightarrow> ('k, 'v) dictType \<Rightarrow> ('k, 'v) dict \<Rightarrow> 'k \<Rightarrow> 'v \<Rightarrow> (('k, 'v) dict \<times> bool) option" where
  "dictReplace g ty d key v = do {
     (d, added) \<leftarrow> dictAdd g ty d key v;
     if added then Some (d, True)
     else do {
       (entry, d) \<leftarrow> dictFind ty d key;
       p \<leftarrow> entry;
       auxentry \<leftarrow> entry_at d p;
       d \<leftarrow> update_entry d p (dictSetVal ty v);
       Some (dictFreeVal ty d auxentry, False)
     }
   }"

definition dictReplaceRaw ::
  "'v dict_env \<Rightarrow> ('k, 'v) dictType \<Rightarrow> ('k, 'v) dict \<Rightarrow> 'k \<Rightarrow> (entry_ptr option \<times> ('k, 'v) dict) option" where
  "dictReplaceRaw g ty d key = do {
     (entry, d) \<leftarrow> dictFind ty d key;
     case entry of Some p \<Rightarrow> Some (Some p, d) | None \<Rightarrow> dictAddRaw g ty d key
   }"

text \<open>Unlinking the \<open>j\<close>th entry of bucket \<open>i\<close> of table \<open>t\<close>.\<close>

definition dict_unlink ::
  "('k, 'v) dictType \<Rightarrow> ('k, 'v) dict \<Rightarrow> entry_ptr \<Rightarrow> bool \<Rightarrow> ('k, 'v) dict option" where
  "dict_unlink ty d p nofree = (case p of (t, i, j) \<Rightarrow> do {
     b \<leftarrow> bucket (get_ht t d) i;
     let he = b ! j;
     ht \<leftarrow> set_bucket (get_ht t d) i (take j b @ drop (Suc j) b);
     let d = (if nofree then d else dictFreeVal ty (dictFreeKey ty d he) he);
     Some (set_ht t (ht\<lparr>ht_used := ht_used ht - 1\<rparr>) d)
   })"

definition dictGenericDelete ::
  "('k, 'v) dictType \<Rightarrow> ('k, 'v) dict \<Rightarrow> 'k \<Rightarrow> bool \<Rightarrow> (('k, 'v) dict \<times> bool) option" where
  "dictGenericDelete ty d key nofree =
     (if ht_size (ht0 d) = 0 then Some (d, False)
      else do {
        d \<leftarrow> step_if_rehashing ty d;
        let h = hashFunction ty key;
        let idx = ht_index (ht0 d) h;
        b \<leftarrow> bucket (ht0 d) (unat idx);
        case chain_find ty key b of
          Some j \<Rightarrow> do { d \<leftarrow> dict_unlink ty d (0, unat idx, j) nofree; Some (d, True) }
        | None \<Rightarrow>
            if \<not> dictIsRehashing d then Some (d, False)
            else do {
              let idx = ht_index (ht1 d) h;
              b \<leftarrow> bucket (ht1 d) (unat idx);
              case chain_find ty key b of
                Some j \<Rightarrow> do { d \<leftarrow> dict_unlink ty d (1, unat idx, j) nofree; Some (d, True) }
              | None \<Rightarrow> Some (d, False)
            }
      })"

definition dictDelete ::
  "('k, 'v) dictType \<Rightarrow> ('k, 'v) dict \<Rightarrow> 'k \<Rightarrow> (('k, 'v) dict \<times> bool) option" where
  "dictDelete ty d key = dictGenericDelete ty d key False"

definition dictDeleteNoFree ::
  "('k, 'v) dictType \<Rightarrow> ('k, 'v) dict \<Rightarrow> 'k \<Rightarrow> (('k, 'v) dict \<times> bool) option" where
  "dictDeleteNoFree ty d key = dictGenericDelete ty d key True"

text \<open>
  \<open>_dictClear\<close> of one table: every entry's key, then its value, is given to the
  destructors, while buckets and used entries remain.
\<close>

primrec dictClear_chain ::
  "('k, 'v) dictType \<Rightarrow> ('k, 'v) dict \<Rightarrow> u64 \<Rightarrow> ('k, 'v) dictEntry list \<Rightarrow> ('k, 'v) dict \<times> u64" where
  "dictClear_chain ty d used [] = (d, used)"
| "dictClear_chain ty d used (he # r) =
     dictClear_chain ty (dictFreeVal ty (dictFreeKey ty d he) he) (used - 1) r"

primrec dictClear_loop ::
  "('k, 'v) dictType \<Rightarrow> ('k, 'v) dict \<Rightarrow> u64 \<Rightarrow> ('k, 'v) dictEntry list list \<Rightarrow> ('k, 'v) dict" where
  "dictClear_loop ty d used [] = d"
| "dictClear_loop ty d used (b # bs) =
     (if used > 0 then (case dictClear_chain ty d used b of (d, used) \<Rightarrow> dictClear_loop ty d used bs)
      else d)"

definition u_dictClear :: "('k, 'v) dictType \<Rightarrow> ('k, 'v) dict \<Rightarrow> nat \<Rightarrow> ('k, 'v) dict" where
  "u_dictClear ty d t =
     (let ht = get_ht t d;
          d = (case ht_table ht of None \<Rightarrow> d | Some bs \<Rightarrow> dictClear_loop ty d (ht_used ht) bs)
      in set_ht t u_dictReset d)"

definition dictEmpty :: "('k, 'v) dictType \<Rightarrow> ('k, 'v) dict \<Rightarrow> ('k, 'v) dict" where
  "dictEmpty ty d =
     (let d = u_dictClear ty d 0; d = u_dictClear ty d 1 in d\<lparr>rehashidx := - 1, iterators := 0\<rparr>)"

definition dictEnableResize :: "'v dict_env \<Rightarrow> 'v dict_env" where
  "dictEnableResize g = g\<lparr>dict_can_resize := True\<rparr>"

definition dictDisableResize :: "'v dict_env \<Rightarrow> 'v dict_env" where
  "dictDisableResize g = g\<lparr>dict_can_resize := False\<rparr>"

section \<open>Well-formed tables\<close>

definition ht_entries :: "('k, 'v) dictht \<Rightarrow> ('k, 'v) dictEntry list" where
  "ht_entries ht = (case ht_table ht of None \<Rightarrow> [] | Some t \<Rightarrow> concat t)"

definition dict_entries :: "('k, 'v) dict \<Rightarrow> ('k, 'v) dictEntry list" where
  "dict_entries d = ht_entries (ht0 d) @ ht_entries (ht1 d)"

text \<open>The map a dictionary stands for: the value of the entry with an equal key.\<close>

definition dict_abs :: "('k, 'v) dictType \<Rightarrow> ('k, 'v) dict \<Rightarrow> 'k \<Rightarrow> 'v option" where
  "dict_abs ty d k = map_option e_val (List.find (\<lambda>e. dictCompareKeys ty k (e_key e)) (dict_entries d))"

text \<open>
  A table: its size and mask fit the bucket array, \<open>used\<close> counts the entries, every
  entry is in the bucket its hash selects.
\<close>

definition in_bucket :: "('k, 'v) dictType \<Rightarrow> u64 \<Rightarrow> ('k, 'v) dictEntry \<Rightarrow> nat \<Rightarrow> bool" where
  "in_bucket ty msk e i \<longleftrightarrow> unat (ucast (ucast (hashFunction ty (e_key e)) AND msk :: u64) :: u32) = i"

definition ht_ok :: "('k, 'v) dictType \<Rightarrow> ('k, 'v) dictht \<Rightarrow> bool" where
  "ht_ok ty ht \<longleftrightarrow> (case ht_table ht of None \<Rightarrow> ht = u_dictReset
     | Some t \<Rightarrow> t \<noteq> [] \<and> length t \<le> 2147483648 \<and> ht_size ht = of_nat (length t) \<and>
         ht_sizemask ht = of_nat (length t) - 1 \<and> ht_used ht = of_nat (length (concat t)) \<and>
         (\<forall>i < length t. \<forall>e \<in> set (t ! i). in_bucket ty (ht_sizemask ht) e i))"

text \<open>The keys equal to a given one, as a set: entries have different such classes.\<close>

definition keyclass :: "('k, 'v) dictType \<Rightarrow> 'k \<Rightarrow> 'k set" where
  "keyclass ty k = {k'. dictCompareKeys ty k' k}"

definition distinct_keys :: "('k, 'v) dictType \<Rightarrow> ('k, 'v) dictEntry list \<Rightarrow> bool" where
  "distinct_keys ty es \<longleftrightarrow> distinct (map (keyclass ty \<circ> e_key) es)"

text \<open>
  A dictionary: not rehashing, and then the second table is empty, or moving the entries
  of the first table's buckets from \<open>rehashidx\<close> on.
\<close>

definition dict_ok :: "('k, 'v) dictType \<Rightarrow> ('k, 'v) dict \<Rightarrow> bool" where
  "dict_ok ty d \<longleftrightarrow> ht_ok ty (ht0 d) \<and> ht_ok ty (ht1 d) \<and>
     (if rehashidx d = - 1 then ht1 d = u_dictReset
      else (\<exists>t. ht_table (ht0 d) = Some t \<and> ht_table (ht1 d) \<noteq> None \<and>
             0 \<le> rehashidx d \<and> rehashidx d \<le> int (length t) \<and> (\<forall>i < nat (rehashidx d). t ! i = []))) \<and>
     distinct_keys ty (dict_entries d) \<and> length (dict_entries d) < 2 ^ 62"

lemma mset_concat_update:
  assumes "i < length t"
  shows "mset (concat (t[i := b])) + mset (t ! i) = mset (concat t) + mset b"
proof -
  have "mset (concat t) = mset (concat (take i t @ t ! i # drop (Suc i) t))"
    using assms by (simp flip: id_take_nth_drop)
  moreover have "t[i := b] = take i t @ b # drop (Suc i) t"
    using assms by (simp add: upd_conv_take_nth_drop)
  ultimately show ?thesis by simp
qed

lemma distinct_keys_mset: "mset xs = mset ys \<Longrightarrow> distinct_keys ty xs = distinct_keys ty ys"
  unfolding distinct_keys_def by (metis mset_eq_imp_distinct_iff mset_map)

lemma u_dictReset_ok [simp]: "ht_ok ty u_dictReset" "ht_entries u_dictReset = []" "ht_table u_dictReset = None"
  by (simp_all add: ht_ok_def u_dictReset_def ht_entries_def)

lemma ht_index_lt:
  assumes "ht_ok ty ht" and "ht_table ht = Some t"
  shows "unat (ht_index ht h) < length t" and "unat (ht_index ht h) < 2147483648"
proof -
  have n: "0 < length t" "length t \<le> 2147483648" and m: "ht_sizemask ht = of_nat (length t) - 1"
    using assms by (auto simp: ht_ok_def)
  have "unat (of_nat (length t) - 1 :: u64) = length t - 1"
  proof -
    have "(of_nat (length t) - 1 :: u64) = of_nat (length t - 1)" using n by (simp add: of_nat_diff Suc_leI)
    moreover have "unat (of_nat (length t - 1) :: u64) = length t - 1"
      using n by (simp add: unsigned_of_nat take_bit_nat_eq_self)
    ultimately show ?thesis by simp
  qed
  moreover have "unat (ucast h AND ht_sizemask ht :: u64) \<le> unat (ht_sizemask ht)"
    using word_and_le1 [of "ucast h" "ht_sizemask ht"] by (simp add: word_le_nat_alt)
  ultimately have le: "unat (ucast h AND ht_sizemask ht :: u64) \<le> length t - 1" using m by simp
  have "unat (ht_index ht h) \<le> unat (ucast h AND ht_sizemask ht :: u64)"
    by (simp add: ht_index_def unsigned_ucast_eq take_bit_nat_less_eq_self)
  with le n show "unat (ht_index ht h) < length t" "unat (ht_index ht h) < 2147483648" by linarith+
qed

lemma in_bucket_index: "in_bucket ty (ht_sizemask ht) e i \<longleftrightarrow> unat (ht_index ht (hashFunction ty (e_key e))) = i"
  by (simp add: in_bucket_def ht_index_def)

lemma ht_ok_in_bucket:
  "ht_ok ty ht \<Longrightarrow> ht_table ht = Some t \<Longrightarrow> i < length t \<Longrightarrow> e \<in> set (t ! i) \<Longrightarrow>
    in_bucket ty (ht_sizemask ht) e i"
  by (auto simp: ht_ok_def)

text \<open>Replacing one bucket and adjusting \<open>used\<close>.\<close>

lemma ht_ok_set_bucket:
  assumes ok: "ht_ok ty ht" and t: "ht_table ht = Some t" and i: "i < length t"
    and b: "\<forall>e \<in> set b. in_bucket ty (ht_sizemask ht) e i"
    and u: "u + of_nat (length (t ! i)) = ht_used ht + of_nat (length b)"
  shows "ht_ok ty (ht\<lparr>ht_table := Some (t[i := b]), ht_used := u\<rparr>)"
proof -
  have "size (mset (concat (t[i := b])) + mset (t ! i)) = size (mset (concat t) + mset b)"
    using mset_concat_update [OF i] by simp
  then have "length (concat (t[i := b])) + length (t ! i) = length (concat t) + length b"
    by (simp del: length_concat)
  then have "(of_nat (length (concat (t[i := b]))) + of_nat (length (t ! i)) :: u64) =
      of_nat (length (concat t)) + of_nat (length b)" by (metis of_nat_add)
  moreover have "ht_used ht = of_nat (length (concat t))" using ok t by (simp add: ht_ok_def)
  ultimately have "u = of_nat (length (concat (t[i := b])))" using u by (metis add_right_cancel)
  then show ?thesis
    using ok t b i by (auto simp: ht_ok_def nth_list_update split: if_splits)
qed

lemma mset_ht_entries_set_bucket:
  assumes "ht_table ht = Some t" and "i < length t"
  shows "mset (ht_entries (ht\<lparr>ht_table := Some (t[i := b]), ht_used := u\<rparr>)) + mset (t ! i) =
    mset (ht_entries ht) + mset b"
  using mset_concat_update [OF assms(2)] assms(1) by (simp add: ht_entries_def)

section \<open>Dictionaries whose callbacks agree\<close>

text \<open>
  What a \<open>dictType\<close> owes the table: the comparison is an equivalence and equal keys have
  equal hashes; a duplicated key equals the original.
\<close>

locale dict_keys =
  fixes ty :: "('k, 'v) dictType"
  assumes cmp_refl: "dictCompareKeys ty k k"
    and cmp_sym: "dictCompareKeys ty a b \<Longrightarrow> dictCompareKeys ty b a"
    and cmp_trans: "dictCompareKeys ty a b \<Longrightarrow> dictCompareKeys ty b c \<Longrightarrow> dictCompareKeys ty a c"
    and hash_cong: "dictCompareKeys ty a b \<Longrightarrow> hashFunction ty a = hashFunction ty b"
    and key_dup: "keyDup ty = Some f \<Longrightarrow> dictCompareKeys ty (f k) k"
begin

lemma keyclass_eq: "keyclass ty a = keyclass ty b \<longleftrightarrow> dictCompareKeys ty a b"
  unfolding keyclass_def using cmp_refl cmp_sym cmp_trans by blast

lemma distinct_keys_same:
  assumes "distinct_keys ty es" "e \<in> set es" "e' \<in> set es"
    and "dictCompareKeys ty k (e_key e)" "dictCompareKeys ty k (e_key e')"
  shows "e = e'"
proof -
  have "keyclass ty (e_key e) = keyclass ty (e_key e')"
    using assms(4,5) keyclass_eq cmp_sym cmp_trans by blast
  then show ?thesis
    using assms(1-3) unfolding distinct_keys_def distinct_map by (metis comp_apply inj_onD)
qed

lemma find_entry:
  assumes "distinct_keys ty es" "e \<in> set es" "dictCompareKeys ty k (e_key e)"
  shows "List.find (\<lambda>e. dictCompareKeys ty k (e_key e)) es = Some e"
proof -
  have "List.find (\<lambda>e. dictCompareKeys ty k (e_key e)) es \<noteq> None"
    using assms(2,3) by (auto simp: find_None_iff)
  then obtain e' where e': "List.find (\<lambda>e. dictCompareKeys ty k (e_key e)) es = Some e'" by auto
  then have "e' \<in> set es" "dictCompareKeys ty k (e_key e')"
    by (auto simp: find_Some_iff)
  then have "e' = e" using assms by (blast intro: distinct_keys_same)
  with e' show ?thesis by simp
qed

lemma dict_abs_Some:
  assumes "dict_ok ty d" "e \<in> set (dict_entries d)" "dictCompareKeys ty k (e_key e)"
  shows "dict_abs ty d k = Some (e_val e)"
  using assms find_entry by (auto simp: dict_abs_def dict_ok_def)

lemma dict_abs_None:
  "dict_abs ty d k = None \<longleftrightarrow> (\<forall>e \<in> set (dict_entries d). \<not> dictCompareKeys ty k (e_key e))"
  by (auto simp: dict_abs_def find_None_iff)

text \<open>The abstract map depends on the entries as a multiset only.\<close>

lemma dict_abs_mset:
  assumes "dict_ok ty d" "mset (dict_entries d') = mset (dict_entries d)"
  shows "dict_abs ty d' = dict_abs ty d"
proof
  fix k
  have s: "set (dict_entries d') = set (dict_entries d)" using assms(2) by (metis mset_eq_setD)
  have dk: "distinct_keys ty (dict_entries d')"
    using assms distinct_keys_mset by (fastforce simp: dict_ok_def)
  show "dict_abs ty d' k = dict_abs ty d k"
  proof (cases "dict_abs ty d k")
    case None
    then show ?thesis using dict_abs_None [of d k] dict_abs_None [of d' k] s by simp
  next
    case (Some v)
    then obtain e where "e \<in> set (dict_entries d)" "dictCompareKeys ty k (e_key e)"
      using dict_abs_None [of d k] by auto
    moreover from this have "dict_abs ty d k = Some (e_val e)" using dict_abs_Some [OF assms(1)] by simp
    moreover have "dict_abs ty d' k = Some (e_val e)"
      using find_entry [OF dk, of e k] s calculation by (simp add: dict_abs_def)
    ultimately show ?thesis by simp
  qed
qed

subsection \<open>Rehashing\<close>

lemma rehash_chain_ok:
  assumes "ht_ok ty (ht1 d)" "ht_table (ht1 d) \<noteq> None"
  shows "\<exists>ht. rehash_chain ty d de = Some (d\<lparr>ht0 := (ht0 d)\<lparr>ht_used := ht_used (ht0 d) - of_nat (length de)\<rparr>,
      ht1 := ht\<rparr>) \<and> ht_ok ty ht \<and> ht_table ht \<noteq> None \<and>
    mset (ht_entries ht) = mset (ht_entries (ht1 d)) + mset de"
  using assms
proof (induction de arbitrary: d)
  case Nil
  then show ?case by (intro exI [of _ "ht1 d"]) simp
next
  case (Cons e de)
  obtain t where t: "ht_table (ht1 d) = Some t" using Cons.prems(2) by auto
  define i where "i = unat (ht_index (ht1 d) (hashFunction ty (e_key e)))"
  have i: "i < length t" using ht_index_lt [OF Cons.prems(1) t] by (simp add: i_def)
  define ht where "ht = (ht1 d)\<lparr>ht_table := Some (t[i := e # t ! i]), ht_used := ht_used (ht1 d) + 1\<rparr>"
  have "\<forall>e' \<in> set (t ! i). in_bucket ty (ht_sizemask (ht1 d)) e' i"
    using ht_ok_in_bucket [OF Cons.prems(1) t i] by simp
  moreover have "in_bucket ty (ht_sizemask (ht1 d)) e i" by (simp add: in_bucket_index i_def)
  ultimately have "\<forall>e' \<in> set (e # t ! i). in_bucket ty (ht_sizemask (ht1 d)) e' i" by simp
  then have ok: "ht_ok ty ht"
    unfolding ht_def by (intro ht_ok_set_bucket [OF Cons.prems(1) t i]) simp_all
  have ms: "mset (ht_entries ht) = mset (ht_entries (ht1 d)) + {#e#}"
    using mset_ht_entries_set_bucket [OF t i, of "ht_used (ht1 d) + 1" "e # t ! i"]
    by (simp add: ht_def)
  define d1 where "d1 = d\<lparr>ht0 := (ht0 d)\<lparr>ht_used := ht_used (ht0 d) - 1\<rparr>, ht1 := ht\<rparr>"
  have step: "rehash_chain ty d (e # de) = rehash_chain ty d1 de"
    using t i by (simp add: bucket_def set_bucket_def d1_def ht_def Let_def flip: i_def)
  obtain ht' where "rehash_chain ty d1 de = Some (d1\<lparr>ht0 := (ht0 d1)\<lparr>ht_used := ht_used (ht0 d1) - of_nat (length de)\<rparr>,
      ht1 := ht'\<rparr>)" "ht_ok ty ht'" "ht_table ht' \<noteq> None" "mset (ht_entries ht') = mset (ht_entries (ht1 d1)) + mset de"
    using Cons.IH [of d1] ok by (auto simp: d1_def ht_def)
  then show ?case
    using step ms by (intro exI [of _ ht']) (simp add: d1_def algebra_simps)
qed

end

lemma skip_empty_Some:
  assumes "i \<le> j" "j < length t" "t ! j \<noteq> []"
  shows "\<exists>k. skip_empty t i = Some k \<and> i \<le> k \<and> k < length t \<and> t ! k \<noteq> [] \<and> (\<forall>m. i \<le> m \<and> m < k \<longrightarrow> t ! m = [])"
  using assms
proof (induction t i rule: skip_empty.induct)
  case (1 t i)
  show ?case
  proof (cases "t ! i = []")
    case True
    then have "Suc i \<le> j" using "1.prems" by (metis Suc_leI le_neq_implies_less)
    then obtain k where "skip_empty t (Suc i) = Some k" "Suc i \<le> k" "k < length t" "t ! k \<noteq> []"
        "\<forall>m. Suc i \<le> m \<and> m < k \<longrightarrow> t ! m = []"
      using "1.IH" True "1.prems" by auto
    moreover from this(5) have "\<forall>m. i \<le> m \<and> m < k \<longrightarrow> t ! m = []"
      using True by (metis Suc_leI le_neq_implies_less)
    ultimately show ?thesis
      using True "1.prems" by (intro exI [of _ k]) (auto simp: skip_empty.simps [of t i])
  next
    case False
    then show ?thesis using "1.prems" by (auto simp: skip_empty.simps [of t i])
  qed
qed

context dict_keys
begin

lemma ht_used_zero:
  assumes "dict_ok ty d"
  shows "ht_used (ht0 d) = 0 \<longleftrightarrow> ht_entries (ht0 d) = []"
proof -
  have "length (ht_entries (ht0 d)) < 2 ^ 62" using assms by (simp add: dict_ok_def dict_entries_def)
  moreover have "ht_used (ht0 d) = of_nat (length (ht_entries (ht0 d)))"
    using assms by (auto simp: dict_ok_def ht_ok_def ht_entries_def u_dictReset_def split: option.splits)
  ultimately have "unat (ht_used (ht0 d)) = length (ht_entries (ht0 d))"
    by (simp add: unsigned_of_nat take_bit_nat_eq_self)
  then show ?thesis by (metis length_0_conv unat_0 unat_eq_0)
qed

lemma rehash_find_bucket:
  assumes ok: "dict_ok ty d" and re: "dictIsRehashing d" and nz: "ht_used (ht0 d) \<noteq> 0"
  shows "\<exists>t i. ht_table (ht0 d) = Some t \<and> 0 \<le> rehashidx d \<and> i < length t \<and>
    skip_empty t (nat (rehashidx d)) = Some i \<and> nat (rehashidx d) \<le> i \<and> (\<forall>m \<le> i. m \<noteq> i \<longrightarrow> t ! m = []) \<and>
    ht_size (ht0 d) > ucast (word_of_int (rehashidx d) :: 32 word)"
proof -
  obtain t where t: "ht_table (ht0 d) = Some t" and r: "0 \<le> rehashidx d"
      and em: "\<forall>m < nat (rehashidx d). t ! m = []"
    using ok re by (auto simp: dict_ok_def dictIsRehashing_def)
  have len: "length t \<le> 2147483648" and sz: "ht_size (ht0 d) = of_nat (length t)"
    using ok t by (auto simp: dict_ok_def ht_ok_def)
  have "concat t \<noteq> []" using nz t ht_used_zero [OF ok] by (simp add: ht_entries_def)
  then obtain j where j: "j < length t" "t ! j \<noteq> []" by (auto simp: in_set_conv_nth)
  with em have rj: "nat (rehashidx d) \<le> j" by (meson not_le)
  obtain i where i: "skip_empty t (nat (rehashidx d)) = Some i" "nat (rehashidx d) \<le> i" "i < length t"
      "\<forall>m. nat (rehashidx d) \<le> m \<and> m < i \<longrightarrow> t ! m = []"
    using skip_empty_Some [OF rj j] by blast
  have "\<forall>m \<le> i. m \<noteq> i \<longrightarrow> t ! m = []" using i(4) em by (meson le_neq_implies_less not_le)
  moreover have "ht_size (ht0 d) > ucast (word_of_int (rehashidx d) :: 32 word)"
  proof -
    have "(word_of_int (rehashidx d) :: u32) = of_nat (nat (rehashidx d))" using r by simp
    moreover have "unat (of_nat (nat (rehashidx d)) :: u32) = nat (rehashidx d)"
      using rj j(1) len by (intro unat_of_nat_u32) linarith
    ultimately have "unat (ucast (word_of_int (rehashidx d) :: 32 word) :: u64) = nat (rehashidx d)"
      using rj j(1) len by (simp add: unsigned_ucast_eq take_bit_nat_eq_self)
    moreover have "unat (ht_size (ht0 d)) = length t"
      using len sz by (simp add: unsigned_of_nat take_bit_nat_eq_self)
    ultimately show ?thesis using rj j(1) by (simp add: word_less_nat_alt)
  qed
  ultimately show ?thesis using t r i by blast
qed

text \<open>One iteration: bucket \<open>i\<close> of the first table is moved.\<close>

lemma rehash_iteration:
  assumes ok: "dict_ok ty d" and re: "dictIsRehashing d" and nz: "ht_used (ht0 d) \<noteq> 0"
  shows "\<exists>d'. (\<forall>n. dictRehash_loop ty (Suc n) d = dictRehash_loop ty n d') \<and> dict_ok ty d' \<and>
    dictIsRehashing d' \<and> mset (dict_entries d') = mset (dict_entries d) \<and>
    d_freed d' = d_freed d \<and> iterators d' = iterators d \<and> rehashidx d < rehashidx d' \<and>
    map_option length (ht_table (ht0 d')) = map_option length (ht_table (ht0 d))"
proof -
  obtain t i where t: "ht_table (ht0 d) = Some t" and r: "0 \<le> rehashidx d" and i: "i < length t"
    and sk: "skip_empty t (nat (rehashidx d)) = Some i" and ri: "nat (rehashidx d) \<le> i"
    and em: "\<forall>m \<le> i. m \<noteq> i \<longrightarrow> t ! m = []"
    and assertion: "ht_size (ht0 d) > ucast (word_of_int (rehashidx d) :: 32 word)"
    using rehash_find_bucket [OF assms] by blast
  have ht0ok: "ht_ok ty (ht0 d)" and ht1ok: "ht_ok ty (ht1 d)" "ht_table (ht1 d) \<noteq> None"
    using ok re by (auto simp: dict_ok_def dictIsRehashing_def)
  obtain h where ch: "rehash_chain ty d (t ! i) =
      Some (d\<lparr>ht0 := (ht0 d)\<lparr>ht_used := ht_used (ht0 d) - of_nat (length (t ! i))\<rparr>, ht1 := h\<rparr>)"
    and h: "ht_ok ty h" "ht_table h \<noteq> None"
    and hm: "mset (ht_entries h) = mset (ht_entries (ht1 d)) + mset (t ! i)"
    using rehash_chain_ok [OF ht1ok] by blast
  define g where "g = (ht0 d)\<lparr>ht_table := Some (t[i := []]), ht_used := ht_used (ht0 d) - of_nat (length (t ! i))\<rparr>"
  have g: "g = (ht0 d)\<lparr>ht_used := ht_used (ht0 d) - of_nat (length (t ! i)), ht_table := Some (t[i := []])\<rparr>"
    by (simp add: g_def)
  define d' where "d' = d\<lparr>ht1 := h, ht0 := g, rehashidx := int i + 1\<rparr>"
  have step: "dictRehash_loop ty (Suc n) d = dictRehash_loop ty n d'" for n
    using nz assertion t r sk ch i
    by (simp add: Let_def set_bucket_def d'_def g)
  have gok: "ht_ok ty g"
    unfolding g_def by (intro ht_ok_set_bucket [OF ht0ok t i]) simp_all
  have gm: "mset (ht_entries g) + mset (t ! i) = mset (ht_entries (ht0 d))"
    using mset_ht_entries_set_bucket [OF t i] by (simp add: g_def)
  have ms: "mset (dict_entries d') = mset (dict_entries d)"
    using gm hm by (simp add: dict_entries_def d'_def ac_simps flip: gm)
  have em': "\<forall>m < nat (int i + 1). t[i := []] ! m = []"
  proof (intro allI impI)
    fix m assume "m < nat (int i + 1)"
    then have "m \<le> i" by linarith
    then show "t[i := []] ! m = []" using em i by (cases "m = i") simp_all
  qed
  have "dict_ok ty d'"
    using ok gok h ms distinct_keys_mset [OF ms] i em' mset_eq_length [OF ms]
    by (simp add: dict_ok_def d'_def g_def)
  then show ?thesis
    using step ms r ri t by (intro exI [of _ d']) (auto simp: d'_def g_def dictIsRehashing_def)
qed

lemma rehash_finish:
  assumes ok: "dict_ok ty d" and re: "dictIsRehashing d" and z: "ht_used (ht0 d) = 0"
  defines "d' \<equiv> d\<lparr>ht0 := ht1 d, ht1 := u_dictReset, rehashidx := - 1\<rparr>"
  shows "dict_ok ty d'" "mset (dict_entries d') = mset (dict_entries d)" "\<not> dictIsRehashing d'"
proof -
  have "ht_entries (ht0 d) = []" using ht_used_zero [OF ok] z by simp
  then show ms: "mset (dict_entries d') = mset (dict_entries d)"
    by (simp add: d'_def dict_entries_def)
  show "dict_ok ty d'"
    using ok distinct_keys_mset [OF ms] mset_eq_length [OF ms] by (simp add: dict_ok_def d'_def)
  show "\<not> dictIsRehashing d'" by (simp add: d'_def dictIsRehashing_def)
qed

lemma dictRehash_loop_ok:
  assumes "dict_ok ty d" and "dictIsRehashing d"
  shows "\<exists>d'. dictRehash_loop ty n d = Some (d', dictIsRehashing d') \<and> dict_ok ty d' \<and>
    mset (dict_entries d') = mset (dict_entries d) \<and> d_freed d' = d_freed d \<and> iterators d' = iterators d \<and>
    (\<forall>t. ht_table (ht0 d) = Some t \<and> int (length t) - rehashidx d < int n \<longrightarrow> \<not> dictIsRehashing d') \<and>
    ht_table (ht0 d') \<noteq> None"
  using assms
proof (induction n arbitrary: d)
  case 0
  then show ?case by (auto simp: dict_ok_def dictIsRehashing_def)
next
  case (Suc n)
  show ?case
  proof (cases "ht_used (ht0 d) = 0")
    case True
    moreover have "ht_table (ht1 d) \<noteq> None"
      using Suc.prems by (auto simp: dict_ok_def dictIsRehashing_def)
    ultimately show ?thesis using rehash_finish [OF Suc.prems True] by simp
  next
    case False
    obtain d1 where "\<forall>n. dictRehash_loop ty (Suc n) d = dictRehash_loop ty n d1" "dict_ok ty d1"
      "dictIsRehashing d1" "mset (dict_entries d1) = mset (dict_entries d)"
      "d_freed d1 = d_freed d" "iterators d1 = iterators d" "rehashidx d < rehashidx d1"
      "map_option length (ht_table (ht0 d1)) = map_option length (ht_table (ht0 d))"
      using rehash_iteration [OF Suc.prems False] by blast
    then show ?thesis using Suc.IH [of d1] by (auto simp del: dictRehash_loop.simps)
  qed
qed

lemma dictRehash_ok:
  assumes "dict_ok ty d"
  shows "\<exists>d'. dictRehash ty d n = Some (d', dictIsRehashing d') \<and> dict_ok ty d' \<and>
    mset (dict_entries d') = mset (dict_entries d) \<and> d_freed d' = d_freed d \<and> iterators d' = iterators d \<and>
    (\<forall>t. ht_table (ht0 d) = Some t \<and> length t < n \<longrightarrow> \<not> dictIsRehashing d') \<and>
    (ht_table (ht0 d) \<noteq> None \<longrightarrow> ht_table (ht0 d') \<noteq> None)"
proof (cases "dictIsRehashing d")
  case True
  moreover have "0 \<le> rehashidx d" using assms True by (auto simp: dict_ok_def dictIsRehashing_def)
  ultimately show ?thesis
    using dictRehash_loop_ok [OF assms True, of n] by (fastforce simp: dictRehash_def)
next
  case False
  then show ?thesis using assms by (simp add: dictRehash_def)
qed

lemma step_ok:
  assumes "dict_ok ty d"
  shows "\<exists>d'. step_if_rehashing ty d = Some d' \<and> dict_ok ty d' \<and>
    mset (dict_entries d') = mset (dict_entries d) \<and> d_freed d' = d_freed d \<and> iterators d' = iterators d \<and>
    (ht_table (ht0 d) \<noteq> None \<longrightarrow> ht_table (ht0 d') \<noteq> None)"
  using dictRehash_ok [OF assms, of 1] assms
  by (auto simp: step_if_rehashing_def u_dictRehashStep_def)

end

text \<open>Changing one bucket of a dictionary.\<close>

definition put_bucket ::
  "nat \<Rightarrow> nat \<Rightarrow> ('k, 'v) dictEntry list list \<Rightarrow> ('k, 'v) dictEntry list \<Rightarrow> u64 \<Rightarrow> ('k, 'v) dict \<Rightarrow> ('k, 'v) dict" where
  "put_bucket t i tb b u d = set_ht t ((get_ht t d)\<lparr>ht_table := Some (tb[i := b]), ht_used := u\<rparr>) d"

lemma get_ht_ok: "dict_ok ty d \<Longrightarrow> ht_ok ty (get_ht t d)"
  by (simp add: dict_ok_def get_ht_def)

lemma bucket_Some: "bucket ht i = Some b \<longleftrightarrow> (\<exists>tb. ht_table ht = Some tb \<and> i < length tb \<and> b = tb ! i)"
  by (auto simp: bucket_def split: Option.bind_splits)

lemma put_bucket_entries:
  assumes "ht_table (get_ht t d) = Some tb" and "i < length tb"
  shows "mset (dict_entries (put_bucket t i tb b u d)) + mset (tb ! i) = mset (dict_entries d) + mset b"
  using mset_ht_entries_set_bucket [OF assms, of u b]
  by (simp add: put_bucket_def dict_entries_def get_ht_def set_ht_def split: if_splits)

lemma put_bucket_ok:
  assumes ok: "dict_ok ty d" and t: "ht_table (get_ht t d) = Some tb" and i: "i < length tb"
    and b: "\<forall>e \<in> set b. in_bucket ty (ht_sizemask (get_ht t d)) e i"
    and u: "u + of_nat (length (tb ! i)) = ht_used (get_ht t d) + of_nat (length b)"
    and re: "tb ! i = [] \<Longrightarrow> t \<noteq> 0 \<or> \<not> dictIsRehashing d"
    and ms: "mset (dict_entries (put_bucket t i tb b u d)) = mset es"
    and dk: "distinct_keys ty es" and len: "length es < 2 ^ 62"
  shows "dict_ok ty (put_bucket t i tb b u d)"
proof -
  have hok: "ht_ok ty ((get_ht t d)\<lparr>ht_table := Some (tb[i := b]), ht_used := u\<rparr>)"
    by (rule ht_ok_set_bucket [OF get_ht_ok [OF ok] t i b u])
  have d: "distinct_keys ty (dict_entries (put_bucket t i tb b u d))"
      "length (dict_entries (put_bucket t i tb b u d)) < 2 ^ 62"
    using distinct_keys_mset [OF ms] mset_eq_length [OF ms] dk len by simp_all
  show ?thesis
  proof (cases "t = 0")
    case False
    then have "rehashidx d \<noteq> - 1" using ok t by (auto simp: dict_ok_def get_ht_def)
    then show ?thesis
      using ok hok d False t by (auto simp: dict_ok_def put_bucket_def set_ht_def get_ht_def)
  next
    case True
    have "tb[i := b] ! m = []" if "rehashidx d \<noteq> - 1" "m < nat (rehashidx d)" for m
    proof -
      have em: "tb ! m = []" using ok t True that by (auto simp: dict_ok_def get_ht_def)
      with re True that have "m \<noteq> i" by (auto simp: dictIsRehashing_def)
      with em show ?thesis by simp
    qed
    then show ?thesis
      using ok hok d True t by (auto simp: dict_ok_def put_bucket_def set_ht_def get_ht_def)
  qed
qed

lemma put_bucket_simps [simp]:
  "d_freed (put_bucket t i tb b u d) = d_freed d" "iterators (put_bucket t i tb b u d) = iterators d"
  "rehashidx (put_bucket t i tb b u d) = rehashidx d"
  by (simp_all add: put_bucket_def set_ht_def)

definition valid_ptr :: "('k, 'v) dictType \<Rightarrow> ('k, 'v) dict \<Rightarrow> entry_ptr \<Rightarrow> 'k \<Rightarrow> ('k, 'v) dictEntry \<Rightarrow> bool" where
  "valid_ptr ty d p k e \<longleftrightarrow> fst p \<le> 1 \<and> entry_at d p = Some e \<and> dictCompareKeys ty k (e_key e)"

lemma entry_at_entries:
  assumes "fst p \<le> 1" "entry_at d p = Some e"
  shows "e \<in> set (dict_entries d)"
proof -
  obtain t i j tb where pe: "p = (t, i, j)" and tb: "ht_table (get_ht t d) = Some tb" "i < length tb"
      "j < length (tb ! i)" and e: "e = tb ! i ! j"
    using assms(2) by (cases p) (auto simp: entry_at_def bucket_Some split: Option.bind_splits if_splits)
  then have "e \<in> set (concat tb)" by (auto intro!: bexI [of _ "tb ! i"])
  then have "e \<in> set (ht_entries (get_ht t d))" using tb(1) by (simp add: ht_entries_def)
  then show ?thesis by (auto simp: dict_entries_def get_ht_def split: if_splits)
qed

text \<open>A change of a value through a pointer.\<close>

lemma update_entry_ok:
  assumes ok: "dict_ok ty d" and p: "fst p \<le> 1" "entry_at d p = Some e" and key: "e_key (f e) = e_key e"
  shows "\<exists>d'. update_entry d p f = Some d' \<and> dict_ok ty d' \<and>
    mset (dict_entries d') + {#e#} = mset (dict_entries d) + {#f e#} \<and>
    d_freed d' = d_freed d \<and> iterators d' = iterators d"
proof -
  obtain t i j where pe: "p = (t, i, j)" by (cases p)
  obtain tb where tb: "ht_table (get_ht t d) = Some tb" and i: "i < length tb" and j: "j < length (tb ! i)"
    and e: "e = tb ! i ! j"
    using p(2) by (auto simp: pe entry_at_def bucket_Some split: Option.bind_splits if_splits)
  define b where "b = (tb ! i)[j := f e]"
  define d' where "d' = put_bucket t i tb b (ht_used (get_ht t d)) d"
  have up: "update_entry d p f = Some d'"
    using tb i j by (simp add: pe update_entry_def bucket_def set_bucket_def d'_def put_bucket_def b_def e)
  have mb: "mset b + {#e#} = mset (tb ! i) + {#f e#}"
    using j by (simp add: b_def mset_update e)
  have ms: "mset (dict_entries d') + {#e#} = mset (dict_entries d) + {#f e#}"
  proof -
    have "mset (dict_entries d') + mset (tb ! i) = mset (dict_entries d) + mset b"
      unfolding d'_def by (rule put_bucket_entries [OF tb i])
    then have "mset (dict_entries d') + {#e#} + mset (tb ! i) = mset (dict_entries d) + {#f e#} + mset (tb ! i)"
      using mb by (metis (no_types, lifting) add.assoc add.commute)
    then show ?thesis by (rule add_right_imp_eq)
  qed
  have emem: "e \<in> set (dict_entries d)" by (rule entry_at_entries [OF p])
  then obtain us ws where ed: "dict_entries d = us @ e # ws" by (meson split_list)
  have ms2: "mset (dict_entries d') = mset (us @ f e # ws)" using ms by (simp add: ed)
  have "distinct_keys ty (us @ f e # ws)" "length (us @ f e # ws) < 2 ^ 62"
    using ok key by (simp_all add: dict_ok_def ed distinct_keys_def)
  moreover have "\<forall>x \<in> set b. in_bucket ty (ht_sizemask (get_ht t d)) x i"
  proof
    fix x assume "x \<in> set b"
    then have "x \<in> set (tb ! i) \<or> x = f e" using set_update_subset_insert by (fastforce simp: b_def)
    moreover have "in_bucket ty (ht_sizemask (get_ht t d)) e i"
      using ht_ok_in_bucket [OF get_ht_ok [OF ok] tb i] j e by simp
    ultimately show "in_bucket ty (ht_sizemask (get_ht t d)) x i"
      using ht_ok_in_bucket [OF get_ht_ok [OF ok] tb i] key by (auto simp: in_bucket_def)
  qed
  ultimately have "dict_ok ty d'"
    using j ms2 unfolding d'_def by (intro put_bucket_ok [OF ok tb i]) (auto simp: b_def)
  then show ?thesis using up ms by (simp add: d'_def)
qed

context dict_keys
begin

subsection \<open>Lookup\<close>

lemma chain_find_Some:
  "chain_find ty k b = Some j \<Longrightarrow> j < length b \<and> dictCompareKeys ty k (e_key (b ! j))"
  by (induction b arbitrary: j) (auto split: if_splits)

lemma chain_find_None: "chain_find ty k b = None \<longleftrightarrow> (\<forall>e \<in> set b. \<not> dictCompareKeys ty k (e_key e))"
  by (induction b) auto

text \<open>A key that is in a table is in the bucket of its hash.\<close>

lemma bucket_lookup:
  fixes k
  assumes ok: "ht_ok ty ht" and t: "ht_table ht = Some t"
  defines "i \<equiv> unat (ht_index ht (hashFunction ty k))"
  shows "bucket ht i = Some (t ! i)" "i < length t"
    "chain_find ty k (t ! i) = None \<longleftrightarrow> (\<forall>e \<in> set (ht_entries ht). \<not> dictCompareKeys ty k (e_key e))"
proof -
  show i: "i < length t" unfolding i_def by (rule ht_index_lt [OF ok t])
  then show "bucket ht i = Some (t ! i)" using t by (simp add: bucket_def)
  have "e \<in> set (t ! i)" if mem: "e \<in> set (concat t)" and c: "dictCompareKeys ty k (e_key e)" for e
  proof -
    have "\<exists>m < length t. e \<in> set (t ! m)"
    proof -
      obtain b where "b \<in> set t" "e \<in> set b" using mem by auto
      then show ?thesis by (metis in_set_conv_nth)
    qed
    then obtain m where m: "m < length t" "e \<in> set (t ! m)" by blast
    have "m = i"
      using ht_ok_in_bucket [OF ok t m] hash_cong [OF c] by (simp add: in_bucket_index i_def)
    with m show ?thesis by simp
  qed
  moreover have "set (t ! i) \<subseteq> set (concat t)" using i nth_mem [OF i] by (auto simp del: nth_mem)
  ultimately show "chain_find ty k (t ! i) = None \<longleftrightarrow> (\<forall>e \<in> set (ht_entries ht). \<not> dictCompareKeys ty k (e_key e))"
    unfolding chain_find_None ht_entries_def t by auto
qed

lemma ptr_of_bucket:
  assumes "bucket (get_ht t d) i = Some b" "chain_find ty k b = Some j" "t \<le> 1"
  shows "\<exists>e. valid_ptr ty d (t, i, j) k e"
  using chain_find_Some [OF assms(2)] assms(1,3) by (auto simp: valid_ptr_def entry_at_def)

text \<open>The search that lookup, deletion and insertion share: first \<open>ht[0]\<close>, then \<open>ht[1]\<close>.\<close>

lemma search_ok:
  fixes k
  assumes ok: "dict_ok ty d" and t0: "ht_table (ht0 d) \<noteq> None"
  defines "h \<equiv> hashFunction ty k"
  defines "i0 \<equiv> unat (ht_index (ht0 d) h)" and "i1 \<equiv> unat (ht_index (ht1 d) h)"
  shows "\<exists>b. bucket (ht0 d) i0 = Some b \<and>
    (case chain_find ty k b of
       Some j \<Rightarrow> \<exists>e. valid_ptr ty d (0, i0, j) k e
     | None \<Rightarrow>
         if \<not> dictIsRehashing d then \<forall>e \<in> set (dict_entries d). \<not> dictCompareKeys ty k (e_key e)
         else \<exists>b. bucket (ht1 d) i1 = Some b \<and>
           (case chain_find ty k b of
              Some j \<Rightarrow> \<exists>e. valid_ptr ty d (1, i1, j) k e
            | None \<Rightarrow> \<forall>e \<in> set (dict_entries d). \<not> dictCompareKeys ty k (e_key e)))"
proof -
  obtain t where t: "ht_table (ht0 d) = Some t" using t0 by auto
  have ok0: "ht_ok ty (ht0 d)" and ok1: "ht_ok ty (ht1 d)" using ok by (simp_all add: dict_ok_def)
  note b0 = bucket_lookup [OF ok0 t, of k, folded h_def, folded i0_def]
  show ?thesis
  proof (cases "chain_find ty k (t ! i0)")
    case (Some j)
    then show ?thesis using b0(1) ptr_of_bucket [of 0 d i0 "t ! i0" k j] by (simp add: get_ht_def)
  next
    case None
    then have n0: "\<forall>e \<in> set (ht_entries (ht0 d)). \<not> dictCompareKeys ty k (e_key e)" using b0(3) by simp
    show ?thesis
    proof (cases "dictIsRehashing d")
      case False
      then have "ht_entries (ht1 d) = []" using ok by (simp add: dict_ok_def dictIsRehashing_def)
      then show ?thesis using False None n0 b0(1) by (simp add: dict_entries_def)
    next
      case True
      then obtain t' where t': "ht_table (ht1 d) = Some t'" using ok by (auto simp: dict_ok_def dictIsRehashing_def)
      note b1 = bucket_lookup [OF ok1 t', of k, folded h_def, folded i1_def]
      show ?thesis
      proof (cases "chain_find ty k (t' ! i1)")
        case (Some j)
        then show ?thesis
          using True None b0(1) b1(1) ptr_of_bucket [of 1 d i1 "t' ! i1" k j] by (simp add: get_ht_def)
      next
        case n1: None
        then have "\<forall>e \<in> set (ht_entries (ht1 d)). \<not> dictCompareKeys ty k (e_key e)" using b1(3) by simp
        then show ?thesis using True None n1 n0 b0(1) b1(1) by (auto simp: dict_entries_def)
      qed
    qed
  qed
qed

lemma size_zero:
  assumes ok: "dict_ok ty d"
  shows "ht_size (ht0 d) = 0 \<longleftrightarrow> ht_table (ht0 d) = None"
    and "ht_size (ht0 d) = 0 \<Longrightarrow> dict_entries d = [] \<and> \<not> dictIsRehashing d"
proof -
  have "ht_size (ht0 d) \<noteq> 0" if "ht_table (ht0 d) = Some tb" for tb
  proof
    assume "ht_size (ht0 d) = 0"
    then have "0 < length tb" "length tb \<le> 2147483648" "(of_nat (length tb) :: u64) = of_nat 0"
      using ok that by (auto simp: dict_ok_def ht_ok_def)
    then show False using of_nat_u64_eq [of "length tb" 0] by simp
  qed
  moreover have "ht_size (ht0 d) = 0" if "ht_table (ht0 d) = None"
    using ok that by (simp add: dict_ok_def ht_ok_def u_dictReset_def)
  ultimately show eq: "ht_size (ht0 d) = 0 \<longleftrightarrow> ht_table (ht0 d) = None" by (meson not_None_eq)
  show "dict_entries d = [] \<and> \<not> dictIsRehashing d" if "ht_size (ht0 d) = 0"
    using ok that unfolding eq
    by (auto simp: dict_ok_def dict_entries_def dictIsRehashing_def ht_entries_def split: if_splits)
qed

lemma dictFind_ok:
  assumes ok: "dict_ok ty d"
  shows "\<exists>p d'. dictFind ty d k = Some (p, d') \<and> dict_ok ty d' \<and>
    mset (dict_entries d') = mset (dict_entries d) \<and> d_freed d' = d_freed d \<and> iterators d' = iterators d \<and>
    (case p of None \<Rightarrow> \<forall>e \<in> set (dict_entries d'). \<not> dictCompareKeys ty k (e_key e)
     | Some q \<Rightarrow> \<exists>e. valid_ptr ty d' q k e)"
proof (cases "ht_size (ht0 d) = 0")
  case True
  then show ?thesis using ok size_zero(2) [OF ok True] by (simp add: dictFind_def)
next
  case False
  then have "ht_table (ht0 d) \<noteq> None" using size_zero(1) [OF ok] by simp
  then obtain d1 where d1: "step_if_rehashing ty d = Some d1" "dict_ok ty d1"
    "mset (dict_entries d1) = mset (dict_entries d)" "d_freed d1 = d_freed d" "iterators d1 = iterators d"
    "ht_table (ht0 d1) \<noteq> None"
    using step_ok [OF ok] by blast
  define i0 where "i0 = unat (ht_index (ht0 d1) (hashFunction ty k))"
  define i1 where "i1 = unat (ht_index (ht1 d1) (hashFunction ty k))"
  obtain b where b: "bucket (ht0 d1) i0 = Some b" and
    s: "case chain_find ty k b of Some j \<Rightarrow> \<exists>e. valid_ptr ty d1 (0, i0, j) k e
     | None \<Rightarrow> if \<not> dictIsRehashing d1 then \<forall>e \<in> set (dict_entries d1). \<not> dictCompareKeys ty k (e_key e)
         else \<exists>b. bucket (ht1 d1) i1 = Some b \<and> (case chain_find ty k b of
              Some j \<Rightarrow> \<exists>e. valid_ptr ty d1 (1, i1, j) k e
            | None \<Rightarrow> \<forall>e \<in> set (dict_entries d1). \<not> dictCompareKeys ty k (e_key e))"
    using search_ok [OF d1(2,6), of k] unfolding i0_def i1_def by blast
  have "\<exists>p. dictFind ty d k = Some (p, d1) \<and>
    (case p of None \<Rightarrow> \<forall>e \<in> set (dict_entries d1). \<not> dictCompareKeys ty k (e_key e)
     | Some q \<Rightarrow> \<exists>e. valid_ptr ty d1 q k e)"
  proof (cases "chain_find ty k b")
    case (Some j)
    then have "dictFind ty d k = Some (Some (0, i0, j), d1)"
      using False d1(1) b by (simp add: dictFind_def Let_def i0_def)
    then show ?thesis using s Some by simp
  next
    case None
    show ?thesis
    proof (cases "dictIsRehashing d1")
      case nr: False
      then have "dictFind ty d k = Some (None, d1)"
        using None False d1(1) b by (simp add: dictFind_def Let_def i0_def)
      then show ?thesis using s None nr by simp
    next
      case True
      then obtain c where c: "bucket (ht1 d1) i1 = Some c" and
        sc: "case chain_find ty k c of Some j \<Rightarrow> \<exists>e. valid_ptr ty d1 (1, i1, j) k e
           | None \<Rightarrow> \<forall>e \<in> set (dict_entries d1). \<not> dictCompareKeys ty k (e_key e)"
        using s None by auto
      have "dictFind ty d k = Some (case chain_find ty k c of Some j \<Rightarrow> Some (1, i1, j) | None \<Rightarrow> None, d1)"
        using None True False d1(1) b c
        by (simp add: dictFind_def Let_def i0_def i1_def split: option.splits)
      then show ?thesis using sc by (cases "chain_find ty k c") simp_all
    qed
  qed
  then show ?thesis using d1 by blast
qed

end

section \<open>Growing\<close>

lemma unat_pow2_u64: "k < 64 \<Longrightarrow> unat (of_nat (2 ^ k) :: u64) = 2 ^ k"
proof -
  assume "k < 64"
  then have "(2 :: nat) ^ k < 2 ^ 64" by (intro power_strict_increasing) auto
  then show ?thesis by (intro unat_of_nat_u64) simp
qed

lemma dictNextPower_loop_pow2:
  assumes "2 \<le> k" "k \<le> 62" "unat sz \<le> 2 ^ 62" "k = 2 \<or> 2 ^ (k - 1) < unat sz"
  shows "\<exists>m. dictNextPower_loop sz (of_nat (2 ^ k)) = Some (of_nat (2 ^ m)) \<and> k \<le> m \<and> m \<le> 62 \<and>
    unat sz \<le> 2 ^ m \<and> (m = 2 \<or> 2 ^ (m - 1) < unat sz)"
  using assms
proof (induction "62 - k" arbitrary: k)
  case 0
  then have "sz \<le> of_nat (2 ^ k)" using unat_pow2_u64 [of k] by (simp add: word_le_nat_alt)
  then have "dictNextPower_loop sz (of_nat (2 ^ k)) = Some (of_nat (2 ^ k))"
    by (subst dictNextPower_loop.simps) simp
  moreover have "unat sz \<le> 2 ^ k" using 0 by simp
  ultimately show ?case using 0 by blast
next
  case (Suc n)
  have u: "unat (of_nat (2 ^ k) :: u64) = 2 ^ k" using Suc.prems(2) by (intro unat_pow2_u64) simp
  show ?case
  proof (cases "sz \<le> of_nat (2 ^ k)")
    case True
    then have "unat sz \<le> 2 ^ k" using u by (simp add: word_le_nat_alt)
    moreover have "dictNextPower_loop sz (of_nat (2 ^ k)) = Some (of_nat (2 ^ k))"
      using True by (subst dictNextPower_loop.simps) simp
    ultimately show ?thesis using Suc.prems by blast
  next
    case False
    then have lt: "2 ^ k < unat sz" using u by (simp add: word_le_nat_alt)
    have "dictNextPower_loop sz (of_nat (2 ^ k)) = dictNextPower_loop sz (of_nat (2 ^ Suc k))"
      using False by (subst dictNextPower_loop.simps) (simp add: mult.commute)
    then show ?thesis
      using Suc.hyps(1) [of "Suc k"] Suc.hyps(2) Suc.prems lt by fastforce
  qed
qed

lemma u_dictNextPower_pow2:
  assumes "unat sz \<le> 2 ^ 62"
  shows "\<exists>m. u_dictNextPower sz = Some (of_nat (2 ^ m)) \<and> 2 \<le> m \<and> m \<le> 62 \<and>
    unat sz \<le> 2 ^ m \<and> (m = 2 \<or> 2 ^ (m - 1) < unat sz)"
proof -
  have "\<not> sz \<ge> LONG_MAX" using assms by (simp add: word_le_nat_alt)
  then show ?thesis using dictNextPower_loop_pow2 [of 2 sz] assms by (simp add: u_dictNextPower_def)
qed

text \<open>A new table of \<open>2 ^ m\<close> empty buckets.\<close>

lemma new_table_ok:
  assumes "m \<le> 31"
  defines "ht \<equiv> \<lparr>ht_table = Some (replicate (2 ^ m) []), ht_size = of_nat (2 ^ m),
    ht_sizemask = of_nat (2 ^ m) - 1, ht_used = 0\<rparr>"
  shows "ht_ok ty ht" "ht_entries ht = []"
proof -
  have "(2 :: nat) ^ m \<le> 2 ^ 31" using assms(1) by (intro power_increasing) auto
  then show "ht_ok ty ht" by (auto simp: ht_ok_def ht_def)
  show "ht_entries ht = []" by (simp add: ht_entries_def ht_def)
qed

lemma dictExpand_ok:
  fixes d :: "('k, 'v) dict"
  assumes ok: "dict_ok ty d" and nr: "\<not> dictIsRehashing d" and used: "ht_used (ht0 d) \<le> sz"
    and small: "unat sz \<le> 2 ^ 30"
  shows "\<exists>d'. dictExpand d sz = Some (d', True) \<and> dict_ok ty d' \<and>
    mset (dict_entries d') = mset (dict_entries d) \<and> d_freed d' = d_freed d \<and> iterators d' = iterators d \<and>
    ht_table (ht0 d') \<noteq> None"
proof -
  obtain m where m: "u_dictNextPower sz = Some (of_nat (2 ^ m))" "m \<le> 62" "m = 2 \<or> 2 ^ (m - 1) < unat sz"
    using u_dictNextPower_pow2 [of sz] small by auto
  have m31: "m \<le> 31"
  proof (rule ccontr)
    assume "\<not> m \<le> 31"
    then have "(2 :: nat) ^ 31 \<le> 2 ^ (m - 1)" by (intro power_increasing) auto
    with m(3) small \<open>\<not> m \<le> 31\<close> show False by simp
  qed
  have u: "unat (of_nat (2 ^ m) :: u64) = 2 ^ m" using m(2) by (intro unat_pow2_u64) simp
  have "(2 :: nat) ^ m \<le> 2 ^ 31" using m31 by (intro power_increasing) auto
  then have fits: "\<not> 2 ^ 64 \<le> unat (of_nat (2 ^ m) :: u64) * 8" unfolding u by simp
  define n :: "('k, 'v) dictht" where "n = \<lparr>ht_table = Some (replicate (2 ^ m) []), ht_size = of_nat (2 ^ m),
    ht_sizemask = of_nat (2 ^ m) - 1, ht_used = 0\<rparr>"
  have n: "ht_ok ty n" "ht_entries n = []" "ht_table n \<noteq> None"
    using new_table_ok [OF m31] by (simp_all add: n_def)
  define d' where "d' = (if ht_table (ht0 d) = None then d\<lparr>ht0 := n\<rparr> else d\<lparr>ht1 := n, rehashidx := 0\<rparr>)"
  have ex: "dictExpand d sz = Some (d', True)"
    using m(1) nr used fits unfolding dictExpand_def u d'_def n_def
    by (auto simp: Let_def not_less u simp del: of_nat_power)
  have e0: "ht_entries (ht0 d) = []" if "ht_table (ht0 d) = None" using that by (simp add: ht_entries_def)
  have e1: "ht_entries (ht1 d) = []" using ok nr by (simp add: dict_ok_def dictIsRehashing_def)
  have en: "dict_entries d' = dict_entries d"
    using e0 e1 n(2) by (simp add: dict_entries_def d'_def)
  have "dict_ok ty d'"
    using ok nr n en by (auto simp: dict_ok_def d'_def dictIsRehashing_def)
  then show ?thesis using ex en n(3) by (auto simp: d'_def)
qed

context dict_keys
begin

lemma used_entries:
  assumes "dict_ok ty d" "\<not> dictIsRehashing d"
  shows "unat (ht_used (ht0 d)) = length (dict_entries d)"
proof -
  have e: "dict_entries d = ht_entries (ht0 d)"
    using assms by (simp add: dict_ok_def dictIsRehashing_def dict_entries_def)
  have "ht_used (ht0 d) = of_nat (length (ht_entries (ht0 d)))"
    using assms(1) by (auto simp: dict_ok_def ht_ok_def ht_entries_def u_dictReset_def split: option.splits)
  moreover have "length (ht_entries (ht0 d)) < 2 ^ 62" using assms(1) e by (simp add: dict_ok_def)
  ultimately show ?thesis using e by (simp add: unat_of_nat_u64)
qed

lemma expand_if_needed_ok:
  assumes ok: "dict_ok ty d" and room: "length (dict_entries d) < 2 ^ 29"
  shows "\<exists>d'. u_dictExpandIfNeeded g d = Some (d', True) \<and> dict_ok ty d' \<and>
    mset (dict_entries d') = mset (dict_entries d) \<and> d_freed d' = d_freed d \<and> iterators d' = iterators d \<and>
    ht_table (ht0 d') \<noteq> None"
proof -
  consider (re) "dictIsRehashing d" | (init) "\<not> dictIsRehashing d" "ht_size (ht0 d) = 0"
    | (grow) "\<not> dictIsRehashing d" "ht_size (ht0 d) \<noteq> 0" "ht_used (ht0 d) \<ge> ht_size (ht0 d)"
        "dict_can_resize g \<or> ht_used (ht0 d) div ht_size (ht0 d) > dict_force_resize_ratio"
    | (stay) "\<not> dictIsRehashing d" "ht_size (ht0 d) \<noteq> 0"
        "\<not> (ht_used (ht0 d) \<ge> ht_size (ht0 d) \<and>
          (dict_can_resize g \<or> ht_used (ht0 d) div ht_size (ht0 d) > dict_force_resize_ratio))"
    by blast
  then show ?thesis
  proof cases
    case re
    then have "ht_table (ht0 d) \<noteq> None" using ok by (auto simp: dict_ok_def dictIsRehashing_def)
    then show ?thesis using re ok by (simp add: u_dictExpandIfNeeded_def)
  next
    case init
    have "unat (ht_used (ht0 d)) = 0" using used_entries [OF ok init(1)] size_zero(2) [OF ok init(2)] by simp
    then have "ht_used (ht0 d) \<le> 4" by (simp add: word_le_nat_alt)
    then show ?thesis using dictExpand_ok [OF ok init(1), of 4] init by (simp add: u_dictExpandIfNeeded_def)
  next
    case grow
    let ?sz = "(if ht_size (ht0 d) > ht_used (ht0 d) then ht_size (ht0 d) else ht_used (ht0 d)) * 2"
    have "?sz = ht_used (ht0 d) * 2" using grow(3) by auto
    moreover have u: "unat (ht_used (ht0 d) * 2) = 2 * length (dict_entries d)"
      using used_entries [OF ok grow(1)] room by (simp add: unat_word_ariths)
    ultimately have "ht_used (ht0 d) \<le> ?sz" "unat ?sz \<le> 2 ^ 30"
      using used_entries [OF ok grow(1)] room by (simp_all add: word_le_nat_alt)
    then show ?thesis
      using dictExpand_ok [OF ok grow(1)] grow by (simp add: u_dictExpandIfNeeded_def)
  next
    case stay
    then show ?thesis using ok size_zero(1) [OF ok] by (auto simp: u_dictExpandIfNeeded_def)
  qed
qed

end

lemma sint_u32_small: "unat (w :: u32) < 2147483648 \<Longrightarrow> sint w = int (unat w)"
  using sint_of_nat_u32 [of "unat w"] by (metis of_nat_unat ucast_id)

definition stored_val :: "('k, 'v) dictType \<Rightarrow> 'v \<Rightarrow> 'v" where
  "stored_val ty v = (case valDup ty of Some f \<Rightarrow> f v | None \<Rightarrow> v)"

definition has_key :: "('k, 'v) dictType \<Rightarrow> ('k, 'v) dict \<Rightarrow> 'k \<Rightarrow> bool" where
  "has_key ty d k \<longleftrightarrow> (\<exists>e \<in> set (dict_entries d). dictCompareKeys ty k (e_key e))"

lemma has_key_mset: "mset (dict_entries d') = mset (dict_entries d) \<Longrightarrow> has_key ty d' k = has_key ty d k"
  unfolding has_key_def by (metis mset_eq_setD)

context dict_keys
begin

section \<open>Insertion\<close>

lemma key_index_ok:
  assumes ok: "dict_ok ty d" and room: "length (dict_entries d) < 2 ^ 29"
  shows "\<exists>i d'. u_dictKeyIndex g ty d k = Some (i, d') \<and> dict_ok ty d' \<and>
    mset (dict_entries d') = mset (dict_entries d) \<and> d_freed d' = d_freed d \<and> iterators d' = iterators d \<and>
    (if has_key ty d k then i = - 1
     else i = int (unat (ht_index (get_ht (if dictIsRehashing d' then 1 else 0) d') (hashFunction ty k))) \<and>
       ht_table (get_ht (if dictIsRehashing d' then 1 else 0) d') \<noteq> None)"
proof -
  obtain d1 where d1: "u_dictExpandIfNeeded g d = Some (d1, True)" "dict_ok ty d1"
    "mset (dict_entries d1) = mset (dict_entries d)" "d_freed d1 = d_freed d" "iterators d1 = iterators d"
    "ht_table (ht0 d1) \<noteq> None"
    using expand_if_needed_ok [OF ok room] by blast
  have hk: "has_key ty d1 k = has_key ty d k" by (rule has_key_mset [OF d1(3)])
  define i0 where "i0 = unat (ht_index (ht0 d1) (hashFunction ty k))"
  define i1 where "i1 = unat (ht_index (ht1 d1) (hashFunction ty k))"
  obtain b where b: "bucket (ht0 d1) i0 = Some b" and
    s: "case chain_find ty k b of Some j \<Rightarrow> \<exists>e. valid_ptr ty d1 (0, i0, j) k e
     | None \<Rightarrow> if \<not> dictIsRehashing d1 then \<forall>e \<in> set (dict_entries d1). \<not> dictCompareKeys ty k (e_key e)
         else \<exists>b. bucket (ht1 d1) i1 = Some b \<and> (case chain_find ty k b of
              Some j \<Rightarrow> \<exists>e. valid_ptr ty d1 (1, i1, j) k e
            | None \<Rightarrow> \<forall>e \<in> set (dict_entries d1). \<not> dictCompareKeys ty k (e_key e))"
    using search_ok [OF d1(2,6), of k] unfolding i0_def i1_def by blast
  have ptr: "has_key ty d1 k" if "valid_ptr ty d1 p k e" for p e
    using that entry_at_entries unfolding valid_ptr_def has_key_def by blast
  have s0: "sint (ht_index (ht0 d1) (hashFunction ty k)) = int i0"
    unfolding i0_def using ht_index_lt(2) [of ty "ht0 d1"] d1(2,6) by (intro sint_u32_small) (auto simp: dict_ok_def)
  show ?thesis
  proof (cases "chain_find ty k b")
    case (Some j)
    then have "u_dictKeyIndex g ty d k = Some (- 1, d1)"
      using d1(1) b by (simp add: u_dictKeyIndex_def Let_def i0_def)
    moreover have "has_key ty d k" using s Some ptr hk by auto
    ultimately show ?thesis using d1 by simp
  next
    case None
    show ?thesis
    proof (cases "dictIsRehashing d1")
      case False
      then have "u_dictKeyIndex g ty d k = Some (int i0, d1)"
        using d1(1) b None s0 by (simp add: u_dictKeyIndex_def Let_def i0_def)
      moreover have "\<not> has_key ty d k" using s None False hk by (auto simp: has_key_def)
      ultimately show ?thesis using d1 False by (simp add: i0_def get_ht_def)
    next
      case True
      have t1: "ht_table (ht1 d1) \<noteq> None" using True d1(2) by (auto simp: dict_ok_def dictIsRehashing_def)
      have s1: "sint (ht_index (ht1 d1) (hashFunction ty k)) = int i1"
        unfolding i1_def using ht_index_lt(2) [of ty "ht1 d1"] d1(2) t1 by (intro sint_u32_small) (auto simp: dict_ok_def)
      obtain c where c: "bucket (ht1 d1) i1 = Some c" and
        sc: "case chain_find ty k c of Some j \<Rightarrow> \<exists>e. valid_ptr ty d1 (1, i1, j) k e
           | None \<Rightarrow> \<forall>e \<in> set (dict_entries d1). \<not> dictCompareKeys ty k (e_key e)"
        using s None True by auto
      have ix: "u_dictKeyIndex g ty d k = Some (if chain_find ty k c \<noteq> None then - 1 else int i1, d1)"
        using d1(1) b None True c s1 by (simp add: u_dictKeyIndex_def Let_def i0_def i1_def)
      show ?thesis
      proof (cases "chain_find ty k c")
        case c1: None
        then have "\<not> has_key ty d k" using sc hk by (auto simp: has_key_def)
        then show ?thesis using ix c1 d1 True t1 by (simp add: i1_def get_ht_def)
      next
        case (Some j)
        then have "has_key ty d k" using sc ptr hk by auto
        then show ?thesis using ix Some d1 by simp
      qed
    qed
  qed
qed

lemma distinct_keys_add:
  assumes "distinct_keys ty es" "\<forall>e \<in> set es. \<not> dictCompareKeys ty k (e_key e)"
    "dictCompareKeys ty (e_key e') k"
  shows "distinct_keys ty (e' # es)"
proof -
  have "keyclass ty (e_key e') \<noteq> keyclass ty (e_key e)" if "e \<in> set es" for e
    using assms(2,3) that cmp_sym cmp_trans unfolding keyclass_eq by blast
  then show ?thesis using assms(1) by (auto simp: distinct_keys_def)
qed

lemma dictAddRaw_ok:
  assumes ok: "dict_ok ty d" and room: "length (dict_entries d) < 2 ^ 29"
  shows "\<exists>p d'. dictAddRaw g ty d k = Some (p, d') \<and> dict_ok ty d' \<and>
    d_freed d' = d_freed d \<and> iterators d' = iterators d \<and>
    (if has_key ty d k then p = None \<and> mset (dict_entries d') = mset (dict_entries d)
     else \<exists>q e. p = Some q \<and> valid_ptr ty d' q k e \<and>
       mset (dict_entries d') = mset (dict_entries d) + {#e#})"
proof -
  obtain d0 where d0: "step_if_rehashing ty d = Some d0" "dict_ok ty d0"
    "mset (dict_entries d0) = mset (dict_entries d)" "d_freed d0 = d_freed d" "iterators d0 = iterators d"
    using step_ok [OF ok] by blast
  have room0: "length (dict_entries d0) < 2 ^ 29" using room mset_eq_length [OF d0(3)] by simp
  have hk0: "has_key ty d0 k = has_key ty d k" by (rule has_key_mset [OF d0(3)])
  obtain i d1 where ix: "u_dictKeyIndex g ty d0 k = Some (i, d1)" and d1: "dict_ok ty d1"
    "mset (dict_entries d1) = mset (dict_entries d0)" "d_freed d1 = d_freed d0" "iterators d1 = iterators d0"
    and i: "if has_key ty d0 k then i = - 1
     else i = int (unat (ht_index (get_ht (if dictIsRehashing d1 then 1 else 0) d1) (hashFunction ty k))) \<and>
       ht_table (get_ht (if dictIsRehashing d1 then 1 else 0) d1) \<noteq> None"
    using key_index_ok [OF d0(2) room0] by blast
  show ?thesis
  proof (cases "has_key ty d k")
    case True
    then show ?thesis using d0 ix d1 i hk0 by (simp add: dictAddRaw_def)
  next
    case False
    define t where "t = (if dictIsRehashing d1 then 1 else 0 :: nat)"
    define n where "n = unat (ht_index (get_ht t d1) (hashFunction ty k))"
    obtain tb where tb: "ht_table (get_ht t d1) = Some tb" and i: "i = int n"
      using i False hk0 by (auto simp: t_def n_def)
    have n: "n < length tb" unfolding n_def by (rule ht_index_lt [OF get_ht_ok [OF d1(1)] tb])
    define e where "e = dictSetKey ty k \<lparr>e_key = k, e_val = uninit_val g\<rparr>"
    have ek: "dictCompareKeys ty (e_key e) k"
      using cmp_refl key_dup by (auto simp: e_def dictSetKey_def split: option.splits)
    define d' where "d' = put_bucket t n tb (e # tb ! n) (ht_used (get_ht t d1) + 1) d1"
    have raw: "dictAddRaw g ty d k = Some (Some (t, n, 0), d')"
      using d0(1) ix i tb n
      by (simp add: dictAddRaw_def Let_def bucket_def set_bucket_def d'_def put_bucket_def e_def flip: t_def)
    have ms: "mset (dict_entries d') = mset (e # dict_entries d1)"
      using put_bucket_entries [OF tb n, of "e # tb ! n" "ht_used (get_ht t d1) + 1"] by (simp add: d'_def)
    have nk: "\<forall>x \<in> set (dict_entries d1). \<not> dictCompareKeys ty k (e_key x)"
      using False has_key_mset [OF d1(2)] hk0 by (auto simp: has_key_def)
    have dk: "distinct_keys ty (e # dict_entries d1)"
      using distinct_keys_add [OF _ nk ek] d1(1) by (simp add: dict_ok_def)
    have len: "length (e # dict_entries d1) < 2 ^ 62"
      using room0 mset_eq_length [OF d1(2)] by simp
    have ib: "\<forall>x \<in> set (e # tb ! n). in_bucket ty (ht_sizemask (get_ht t d1)) x n"
      using ht_ok_in_bucket [OF get_ht_ok [OF d1(1)] tb n] hash_cong [OF ek]
      by (auto simp: in_bucket_index n_def)
    have "dict_ok ty d'"
      unfolding d'_def using ms dk len ib
      by (intro put_bucket_ok [OF d1(1) tb n]) (auto simp: d'_def t_def)
    moreover have "entry_at d' (t, n, 0) = Some e"
      using n by (simp add: entry_at_def d'_def put_bucket_def get_ht_def set_ht_def bucket_def)
    moreover have "t \<le> 1" by (simp add: t_def)
    ultimately show ?thesis
      using raw False ms d1(2-4) d0(3-5) cmp_sym [OF ek] by (auto simp: valid_ptr_def d'_def)
  qed
qed

lemma dictAdd_ok:
  assumes ok: "dict_ok ty d" and room: "length (dict_entries d) < 2 ^ 29"
  shows "\<exists>d'. dictAdd g ty d k v = Some (d', \<not> has_key ty d k) \<and> dict_ok ty d' \<and>
    d_freed d' = d_freed d \<and> iterators d' = iterators d \<and>
    (if has_key ty d k then mset (dict_entries d') = mset (dict_entries d)
     else \<exists>e. dictCompareKeys ty k (e_key e) \<and> e_val e = stored_val ty v \<and>
       mset (dict_entries d') = mset (dict_entries d) + {#e#})"
proof -
  obtain p d1 where raw: "dictAddRaw g ty d k = Some (p, d1)" and d1: "dict_ok ty d1"
    "d_freed d1 = d_freed d" "iterators d1 = iterators d" and
    r: "if has_key ty d k then p = None \<and> mset (dict_entries d1) = mset (dict_entries d)
     else \<exists>q e. p = Some q \<and> valid_ptr ty d1 q k e \<and>
       mset (dict_entries d1) = mset (dict_entries d) + {#e#}"
    using dictAddRaw_ok [OF assms] by blast
  show ?thesis
  proof (cases "has_key ty d k")
    case True
    then show ?thesis using raw d1 r by (simp add: dictAdd_def)
  next
    case False
    then obtain q e where q: "p = Some q" "valid_ptr ty d1 q k e"
      "mset (dict_entries d1) = mset (dict_entries d) + {#e#}" using r by auto
    have q': "fst q \<le> 1" "entry_at d1 q = Some e" using q(2) by (simp_all add: valid_ptr_def)
    have "e_key (dictSetVal ty v e) = e_key e" by (simp add: dictSetVal_def)
    then obtain d' where "update_entry d1 q (dictSetVal ty v) = Some d'" "dict_ok ty d'"
      "mset (dict_entries d') + {#e#} = mset (dict_entries d1) + {#dictSetVal ty v e#}"
      "d_freed d' = d_freed d1" "iterators d' = iterators d1"
      using update_entry_ok [OF d1(1) q', of "dictSetVal ty v"] by blast
    moreover from this(3) q(3) have "mset (dict_entries d') = mset (dict_entries d) + {#dictSetVal ty v e#}"
      by simp
    moreover have "e_val (dictSetVal ty v e) = stored_val ty v" "dictCompareKeys ty k (e_key (dictSetVal ty v e))"
      using q(2) by (simp_all add: dictSetVal_def stored_val_def valid_ptr_def)
    ultimately show ?thesis
      using raw q(1) d1 False by (auto simp: dictAdd_def)
  qed
qed


text \<open>What a change of the multiset of entries is for the abstract map.\<close>

lemma dict_abs_iff:
  assumes "dict_ok ty d"
  shows "dict_abs ty d k = Some v \<longleftrightarrow> (\<exists>e \<in># mset (dict_entries d). dictCompareKeys ty k (e_key e) \<and> e_val e = v)"
  using dict_abs_Some [OF assms] dict_abs_None [of d k] by (metis option.inject not_None_eq set_mset_mset)

lemma has_key_abs: "has_key ty d k \<longleftrightarrow> dict_abs ty d k \<noteq> None"
  using dict_abs_None [of d k] by (auto simp: has_key_def)

lemma dict_abs_add:
  assumes ok: "dict_ok ty d" "dict_ok ty d'" and ms: "mset (dict_entries d') = mset (dict_entries d) + {#e#}"
    and e: "dictCompareKeys ty k (e_key e)"
  shows "dict_abs ty d' k' = (if dictCompareKeys ty k' k then Some (e_val e) else dict_abs ty d k')"
proof (cases "dictCompareKeys ty k' k")
  case True
  then have "dictCompareKeys ty k' (e_key e)" using e cmp_trans by blast
  then have "dict_abs ty d' k' = Some (e_val e)" by (subst dict_abs_iff [OF ok(2)]) (auto simp: ms)
  then show ?thesis using True by simp
next
  case False
  then have "\<not> dictCompareKeys ty k' (e_key e)" using e cmp_trans cmp_sym by blast
  then have "dict_abs ty d' k' = Some v \<longleftrightarrow> dict_abs ty d k' = Some v" for v
    unfolding dict_abs_iff [OF ok(2)] dict_abs_iff [OF ok(1)] ms by auto
  then have "dict_abs ty d' k' = dict_abs ty d k'"
    by (metis not_None_eq)
  then show ?thesis using False by simp
qed

lemma dict_abs_remove:
  assumes ok: "dict_ok ty d" "dict_ok ty d'" and ms: "mset (dict_entries d') + {#e#} = mset (dict_entries d)"
    and e: "dictCompareKeys ty k (e_key e)"
  shows "dict_abs ty d' k' = (if dictCompareKeys ty k' k then None else dict_abs ty d k')"
proof (cases "dictCompareKeys ty k' k")
  case True
  then have k'e: "dictCompareKeys ty k' (e_key e)" using e cmp_trans by blast
  have "dict_abs ty d' k' = None"
    unfolding dict_abs_None
  proof
    fix x assume x: "x \<in> set (dict_entries d')"
    have "distinct_keys ty (e # dict_entries d')"
      using ok(1) distinct_keys_mset [of "e # dict_entries d'" "dict_entries d"] ms by (simp add: dict_ok_def)
    then have "keyclass ty (e_key e) \<noteq> keyclass ty (e_key x)" using x by (auto simp: distinct_keys_def)
    then show "\<not> dictCompareKeys ty k' (e_key x)"
      using k'e cmp_sym cmp_trans unfolding keyclass_eq by blast
  qed
  then show ?thesis using True by simp
next
  case False
  then have "\<not> dictCompareKeys ty k' (e_key e)" using e cmp_trans cmp_sym by blast
  then have "dict_abs ty d' k' = Some v \<longleftrightarrow> dict_abs ty d k' = Some v" for v
    unfolding dict_abs_iff [OF ok(2)] dict_abs_iff [OF ok(1)] ms [symmetric] by auto
  then have "dict_abs ty d' k' = dict_abs ty d k'"
    by (metis not_None_eq)
  then show ?thesis using False by simp
qed

lemma dictAdd_abs:
  assumes ok: "dict_ok ty d" and room: "length (dict_entries d) < 2 ^ 29"
  shows "\<exists>d'. dictAdd g ty d k v = Some (d', dict_abs ty d k = None) \<and> dict_ok ty d' \<and>
    d_freed d' = d_freed d \<and> iterators d' = iterators d \<and>
    length (dict_entries d') = length (dict_entries d) + (if dict_abs ty d k = None then 1 else 0) \<and>
    (\<forall>k'. dict_abs ty d' k' = (if dict_abs ty d k = None \<and> dictCompareKeys ty k' k
       then Some (stored_val ty v) else dict_abs ty d k'))"
proof -
  obtain d' where a: "dictAdd g ty d k v = Some (d', \<not> has_key ty d k)" "dict_ok ty d'"
    "d_freed d' = d_freed d" "iterators d' = iterators d" and
    m: "if has_key ty d k then mset (dict_entries d') = mset (dict_entries d)
     else \<exists>e. dictCompareKeys ty k (e_key e) \<and> e_val e = stored_val ty v \<and>
       mset (dict_entries d') = mset (dict_entries d) + {#e#}"
    using dictAdd_ok [OF assms] by blast
  show ?thesis
  proof (cases "has_key ty d k")
    case True
    then have ms: "mset (dict_entries d') = mset (dict_entries d)" using m by simp
    have "dict_abs ty d' = dict_abs ty d" by (rule dict_abs_mset [OF ok ms])
    moreover have "dict_abs ty d k \<noteq> None" using True by (simp add: has_key_abs)
    ultimately show ?thesis using a True mset_eq_length [OF ms] by auto
  next
    case False
    then obtain e where e: "dictCompareKeys ty k (e_key e)" "e_val e = stored_val ty v"
       "mset (dict_entries d') = mset (dict_entries d) + {#e#}" using m by auto
    have "length (dict_entries d') = length (dict_entries d) + 1"
      using arg_cong [OF e(3), of size] by simp
    moreover have "dict_abs ty d k = None" using False by (simp add: has_key_abs)
    ultimately show ?thesis
      using a False dict_abs_add [OF ok a(2) e(3,1)] e(2) by simp
  qed
qed

end

lemma mset_remove_nth: "j < length b \<Longrightarrow> mset (take j b @ drop (Suc j) b) + {#b ! j#} = mset b"
proof -
  assume j: "j < length b"
  have "mset (take j b @ b ! j # drop (Suc j) b) = mset b" using j by (simp flip: id_take_nth_drop)
  then show ?thesis by simp
qed

text \<open>The destructors' calls for one removed entry.\<close>

definition freed_events :: "('k, 'v) dictType \<Rightarrow> ('k, 'v) dictEntry \<Rightarrow> ('k, 'v) dict_event list" where
  "freed_events ty e = (if keyDestructor ty then [FreeKey (e_key e)] else []) @
     (if valDestructor ty then [FreeVal (e_val e)] else [])"

lemma free_both:
  "dictFreeVal ty (dictFreeKey ty d e) e = d\<lparr>d_freed := d_freed d @ freed_events ty e\<rparr>"
  by (simp add: dictFreeVal_def dictFreeKey_def freed_events_def)

lemma dict_ok_freed [simp]: "dict_ok ty (d\<lparr>d_freed := f\<rparr>) = dict_ok ty d"
  by (simp add: dict_ok_def dict_entries_def)

lemma dict_entries_freed [simp]: "dict_entries (d\<lparr>d_freed := f\<rparr>) = dict_entries d"
  by (simp add: dict_entries_def)

lemma distinct_keys_subset:
  assumes "mset xs + {#e#} = mset ys" "distinct_keys ty ys"
  shows "distinct_keys ty xs" "length xs < length ys"
  using distinct_keys_mset [of "e # xs" ys ty] mset_eq_length [of "e # xs" ys] assms
  by (auto simp: distinct_keys_def)

section \<open>Removal\<close>

lemma unlink_ok:
  assumes ok: "dict_ok ty d" and p: "fst p \<le> 1" "entry_at d p = Some e"
  shows "\<exists>d'. dict_unlink ty d p nofree = Some d' \<and> dict_ok ty d' \<and>
    mset (dict_entries d') + {#e#} = mset (dict_entries d) \<and> iterators d' = iterators d \<and>
    d_freed d' = d_freed d @ (if nofree then [] else freed_events ty e)"
proof -
  obtain t i j where pe: "p = (t, i, j)" by (cases p)
  obtain tb where tb: "ht_table (get_ht t d) = Some tb" and i: "i < length tb" and j: "j < length (tb ! i)"
    and e: "e = tb ! i ! j"
    using p(2) by (auto simp: pe entry_at_def bucket_Some split: Option.bind_splits if_splits)
  define b where "b = take j (tb ! i) @ drop (Suc j) (tb ! i)"
  define d1 where "d1 = put_bucket t i tb b (ht_used (get_ht t d) - 1) d"
  have ms: "mset (dict_entries d1) + {#e#} = mset (dict_entries d)"
  proof -
    have "mset (dict_entries d1) + mset (tb ! i) = mset (dict_entries d) + mset b"
      unfolding d1_def by (rule put_bucket_entries [OF tb i])
    moreover have "mset (tb ! i) = mset b + {#e#}" using mset_remove_nth [OF j] by (simp add: b_def e)
    ultimately show ?thesis by simp
  qed
  have dk: "distinct_keys ty (dict_entries d1)" "length (dict_entries d1) < 2 ^ 62"
    using distinct_keys_subset [OF ms, of ty] ok by (auto simp: dict_ok_def)
  have "\<forall>x \<in> set b. in_bucket ty (ht_sizemask (get_ht t d)) x i"
    using ht_ok_in_bucket [OF get_ht_ok [OF ok] tb i] by (auto simp: b_def dest: in_set_takeD in_set_dropD)
  moreover have "ht_used (get_ht t d) - 1 + of_nat (length (tb ! i)) = ht_used (get_ht t d) + of_nat (length b)"
  proof -
    have "length (tb ! i) = Suc (length b)" using j by (simp add: b_def)
    then show ?thesis by simp
  qed
  moreover have "t \<noteq> 0 \<or> \<not> dictIsRehashing d" if "tb ! i = []" using j that by simp
  ultimately have ok1: "dict_ok ty d1"
    unfolding d1_def using dk by (intro put_bucket_ok [OF ok tb i]) (auto simp: d1_def)
  define d' where "d' = (if nofree then d1 else d1\<lparr>d_freed := d_freed d @ freed_events ty e\<rparr>)"
  have "dict_unlink ty d p nofree = Some d'"
    using tb i by (simp add: pe dict_unlink_def bucket_def set_bucket_def free_both e d'_def d1_def
        put_bucket_def b_def Let_def get_ht_def set_ht_def)
  then show ?thesis using ok1 ms by (simp add: d'_def d1_def)
qed

context dict_keys
begin

lemma dictGenericDelete_ok:
  assumes ok: "dict_ok ty d"
  shows "\<exists>d'. dictGenericDelete ty d k nofree = Some (d', has_key ty d k) \<and> dict_ok ty d' \<and>
    iterators d' = iterators d \<and>
    (if has_key ty d k
     then \<exists>e. dictCompareKeys ty k (e_key e) \<and> mset (dict_entries d') + {#e#} = mset (dict_entries d) \<and>
       d_freed d' = d_freed d @ (if nofree then [] else freed_events ty e)
     else mset (dict_entries d') = mset (dict_entries d) \<and> d_freed d' = d_freed d)"
proof (cases "ht_size (ht0 d) = 0")
  case True
  then show ?thesis using ok size_zero(2) [OF ok True] by (simp add: dictGenericDelete_def has_key_def)
next
  case False
  then have "ht_table (ht0 d) \<noteq> None" using size_zero(1) [OF ok] by simp
  then obtain d1 where d1: "step_if_rehashing ty d = Some d1" "dict_ok ty d1"
    "mset (dict_entries d1) = mset (dict_entries d)" "d_freed d1 = d_freed d" "iterators d1 = iterators d"
    "ht_table (ht0 d1) \<noteq> None"
    using step_ok [OF ok] by blast
  have hk: "has_key ty d1 k = has_key ty d k" by (rule has_key_mset [OF d1(3)])
  define i0 where "i0 = unat (ht_index (ht0 d1) (hashFunction ty k))"
  define i1 where "i1 = unat (ht_index (ht1 d1) (hashFunction ty k))"
  have found: ?thesis if "dictGenericDelete ty d k nofree = do { d \<leftarrow> dict_unlink ty d1 p nofree; Some (d, True) }"
    "valid_ptr ty d1 p k e" for p e
  proof -
    have p: "fst p \<le> 1" "entry_at d1 p = Some e" and ke: "dictCompareKeys ty k (e_key e)"
      using that(2) by (simp_all add: valid_ptr_def)
    have "has_key ty d k" using entry_at_entries [OF p] ke hk by (auto simp: has_key_def)
    then show ?thesis using unlink_ok [OF d1(2) p, of nofree] that(1) d1 ke by auto
  qed
  obtain b where b: "bucket (ht0 d1) i0 = Some b" and
    s: "case chain_find ty k b of Some j \<Rightarrow> \<exists>e. valid_ptr ty d1 (0, i0, j) k e
     | None \<Rightarrow> if \<not> dictIsRehashing d1 then \<forall>e \<in> set (dict_entries d1). \<not> dictCompareKeys ty k (e_key e)
         else \<exists>b. bucket (ht1 d1) i1 = Some b \<and> (case chain_find ty k b of
              Some j \<Rightarrow> \<exists>e. valid_ptr ty d1 (1, i1, j) k e
            | None \<Rightarrow> \<forall>e \<in> set (dict_entries d1). \<not> dictCompareKeys ty k (e_key e))"
    using search_ok [OF d1(2,6), of k] unfolding i0_def i1_def by blast
  show ?thesis
  proof (cases "chain_find ty k b")
    case (Some j)
    have "dictGenericDelete ty d k nofree = do { d \<leftarrow> dict_unlink ty d1 (0, i0, j) nofree; Some (d, True) }"
      using Some False d1(1) b by (simp add: dictGenericDelete_def Let_def i0_def)
    moreover obtain e where "valid_ptr ty d1 (0, i0, j) k e" using s Some by auto
    ultimately show ?thesis by (rule found)
  next
    case None
    show ?thesis
    proof (cases "dictIsRehashing d1")
      case nr: False
      then have "dictGenericDelete ty d k nofree = Some (d1, False)"
        using None False d1(1) b by (simp add: dictGenericDelete_def Let_def i0_def)
      moreover have "\<not> has_key ty d k" using s None nr hk by (auto simp: has_key_def)
      ultimately show ?thesis using d1 by simp
    next
      case True
      then obtain c where c: "bucket (ht1 d1) i1 = Some c" and
        sc: "case chain_find ty k c of Some j \<Rightarrow> \<exists>e. valid_ptr ty d1 (1, i1, j) k e
           | None \<Rightarrow> \<forall>e \<in> set (dict_entries d1). \<not> dictCompareKeys ty k (e_key e)"
        using s None by auto
      show ?thesis
      proof (cases "chain_find ty k c")
        case n1: None
        then have "dictGenericDelete ty d k nofree = Some (d1, False)"
          using None True False d1(1) b c by (simp add: dictGenericDelete_def Let_def i0_def i1_def)
        moreover have "\<not> has_key ty d k" using sc n1 hk by (auto simp: has_key_def)
        ultimately show ?thesis using d1 by simp
      next
        case (Some j)
        have "dictGenericDelete ty d k nofree = do { d \<leftarrow> dict_unlink ty d1 (1, i1, j) nofree; Some (d, True) }"
          using Some None True False d1(1) b c by (simp add: dictGenericDelete_def Let_def i0_def i1_def)
        moreover obtain e where "valid_ptr ty d1 (1, i1, j) k e" using sc Some by auto
        ultimately show ?thesis by (rule found)
      qed
    qed
  qed
qed

lemma dictGenericDelete_abs:
  assumes ok: "dict_ok ty d"
  shows "\<exists>d'. dictGenericDelete ty d k nofree = Some (d', dict_abs ty d k \<noteq> None) \<and> dict_ok ty d' \<and>
    length (dict_entries d') \<le> length (dict_entries d) \<and>
    (\<forall>k'. dict_abs ty d' k' = (if dictCompareKeys ty k' k then None else dict_abs ty d k'))"
proof -
  obtain d' where d': "dictGenericDelete ty d k nofree = Some (d', has_key ty d k)" "dict_ok ty d'" and
    c: "if has_key ty d k
     then \<exists>e. dictCompareKeys ty k (e_key e) \<and> mset (dict_entries d') + {#e#} = mset (dict_entries d) \<and>
       d_freed d' = d_freed d @ (if nofree then [] else freed_events ty e)
     else mset (dict_entries d') = mset (dict_entries d) \<and> d_freed d' = d_freed d"
    using dictGenericDelete_ok [OF ok] by blast
  show ?thesis
  proof (cases "has_key ty d k")
    case True
    then obtain e where e: "dictCompareKeys ty k (e_key e)" "mset (dict_entries d') + {#e#} = mset (dict_entries d)"
      using c by auto
    have "length (dict_entries d') \<le> length (dict_entries d)"
      using arg_cong [OF e(2), of size] by simp
    moreover have "dict_abs ty d k \<noteq> None" using True by (simp add: has_key_abs)
    ultimately show ?thesis using d' True dict_abs_remove [OF ok d'(2) e(2,1)] by simp
  next
    case False
    then have ms: "mset (dict_entries d') = mset (dict_entries d)" using c by simp
    have "dict_abs ty d' = dict_abs ty d" by (rule dict_abs_mset [OF ok ms])
    moreover have "dict_abs ty d k' = None" if "dictCompareKeys ty k' k" for k'
      using False that cmp_sym cmp_trans unfolding has_key_abs dict_abs_None by (meson has_key_def)
    moreover have "dict_abs ty d k = None" using False by (simp add: has_key_abs)
    ultimately show ?thesis using d' False mset_eq_length [OF ms] by auto
  qed
qed

lemma dictFetchValue_abs:
  assumes ok: "dict_ok ty d"
  shows "\<exists>d'. dictFetchValue ty d k = Some (dict_abs ty d k, d') \<and> dict_ok ty d' \<and>
    dict_abs ty d' = dict_abs ty d \<and> d_freed d' = d_freed d \<and> iterators d' = iterators d \<and>
    length (dict_entries d') = length (dict_entries d)"
proof -
  obtain p d' where f: "dictFind ty d k = Some (p, d')" "dict_ok ty d'"
    "mset (dict_entries d') = mset (dict_entries d)" "d_freed d' = d_freed d" "iterators d' = iterators d" and
    r: "case p of None \<Rightarrow> \<forall>e \<in> set (dict_entries d'). \<not> dictCompareKeys ty k (e_key e)
     | Some q \<Rightarrow> \<exists>e. valid_ptr ty d' q k e"
    using dictFind_ok [OF ok] by blast
  have abs: "dict_abs ty d' = dict_abs ty d" by (rule dict_abs_mset [OF ok f(3)])
  have "dictFetchValue ty d k = Some (dict_abs ty d' k, d')"
  proof (cases p)
    case None
    then have "dict_abs ty d' k = None" using r dict_abs_None by simp
    then show ?thesis using f None by (simp add: dictFetchValue_def)
  next
    case (Some q)
    then obtain e where e: "fst q \<le> 1" "entry_at d' q = Some e" "dictCompareKeys ty k (e_key e)"
      using r by (auto simp: valid_ptr_def)
    then have "dict_abs ty d' k = Some (e_val e)" using dict_abs_Some [OF f(2) entry_at_entries] by blast
    then show ?thesis using f Some e by (simp add: dictFetchValue_def)
  qed
  then show ?thesis using f abs mset_eq_length [OF f(3)] by auto
qed

end

section \<open>Replacing and clearing\<close>

context dict_keys
begin

text \<open>The old value is given to the destructor after the new one is in place.\<close>

lemma dictReplace_abs:
  assumes ok: "dict_ok ty d" and room: "length (dict_entries d) < 2 ^ 29"
  shows "\<exists>d'. dictReplace g ty d k v = Some (d', dict_abs ty d k = None) \<and> dict_ok ty d' \<and>
    length (dict_entries d') = length (dict_entries d) + (if dict_abs ty d k = None then 1 else 0) \<and>
    d_freed d' = d_freed d @ (case dict_abs ty d k of Some old \<Rightarrow> if valDestructor ty then [FreeVal old] else []
                              | None \<Rightarrow> []) \<and>
    (\<forall>k'. dict_abs ty d' k' = (if dictCompareKeys ty k' k then Some (stored_val ty v) else dict_abs ty d k'))"
proof -
  obtain d1 where a: "dictAdd g ty d k v = Some (d1, dict_abs ty d k = None)" "dict_ok ty d1"
    "d_freed d1 = d_freed d" "length (dict_entries d1) = length (dict_entries d) + (if dict_abs ty d k = None then 1 else 0)"
    "\<forall>k'. dict_abs ty d1 k' = (if dict_abs ty d k = None \<and> dictCompareKeys ty k' k
       then Some (stored_val ty v) else dict_abs ty d k')"
    using dictAdd_abs [OF assms] by blast
  show ?thesis
  proof (cases "dict_abs ty d k")
    case None
    then show ?thesis using a by (simp add: dictReplace_def)
  next
    case (Some old)
    then have ab: "dict_abs ty d1 = dict_abs ty d" using a(5) by auto
    obtain p d2 where f: "dictFind ty d1 k = Some (p, d2)" "dict_ok ty d2"
      "mset (dict_entries d2) = mset (dict_entries d1)" "d_freed d2 = d_freed d1" and
      r: "case p of None \<Rightarrow> \<forall>e \<in> set (dict_entries d2). \<not> dictCompareKeys ty k (e_key e)
        | Some q \<Rightarrow> \<exists>e. valid_ptr ty d2 q k e"
      using dictFind_ok [OF a(2)] by blast
    have ab2: "dict_abs ty d2 = dict_abs ty d" using dict_abs_mset [OF a(2) f(3)] ab by simp
    have "p \<noteq> None" using r dict_abs_None [of d2 k] ab2 Some by (cases p) auto
    then obtain q e where q: "p = Some q" "fst q \<le> 1" "entry_at d2 q = Some e" and
        ke: "dictCompareKeys ty k (e_key e)"
      using r by (auto simp: valid_ptr_def)
    have "dict_abs ty d2 k = Some (e_val e)"
      by (rule dict_abs_Some [OF f(2) entry_at_entries [OF q(2,3)] ke])
    then have old: "e_val e = old" using ab2 Some by simp
    have key: "e_key (dictSetVal ty v e) = e_key e" and vl: "e_val (dictSetVal ty v e) = stored_val ty v"
      by (simp_all add: dictSetVal_def stored_val_def)
    obtain d3 where u: "update_entry d2 q (dictSetVal ty v) = Some d3" "dict_ok ty d3"
      "mset (dict_entries d3) + {#e#} = mset (dict_entries d2) + {#dictSetVal ty v e#}" "d_freed d3 = d_freed d2"
      using update_entry_ok [OF f(2) q(2,3), of "dictSetVal ty v", OF key] by blast
    define d4 where "d4 = dictFreeVal ty d3 e"
    have rep: "dictReplace g ty d k v = Some (d4, False)"
      using a(1) Some f(1) q(1,3) u(1) by (simp add: dictReplace_def d4_def)
    have ok4: "dict_ok ty d4" and en4: "dict_entries d4 = dict_entries d3"
      and fr4: "d_freed d4 = d_freed d @ (if valDestructor ty then [FreeVal old] else [])"
      using u f(4) a(3) old by (auto simp: d4_def dictFreeVal_def)
    have len: "length (dict_entries d4) = length (dict_entries d)"
      using arg_cong [OF u(3), of size] mset_eq_length [OF f(3)] a(4) Some en4 by simp
    have "dict_abs ty d4 k' = (if dictCompareKeys ty k' k then Some (stored_val ty v) else dict_abs ty d k')" for k'
    proof (cases "dictCompareKeys ty k' k")
      case True
      then have "dictCompareKeys ty k' (e_key (dictSetVal ty v e))" using ke cmp_trans key by metis
      moreover have "dictSetVal ty v e \<in># mset (dict_entries d3)"
      proof (cases "dictSetVal ty v e = e")
        case True
        then have "mset (dict_entries d3) = mset (dict_entries d2)" using u(3) by simp
        then show ?thesis using True entry_at_entries [OF q(2,3)] by (metis set_mset_mset mset_eq_setD)
      next
        case False
        have "dictSetVal ty v e \<in># mset (dict_entries d3) + {#e#}" unfolding u(3) by simp
        then show ?thesis using False by simp
      qed
      ultimately have "dict_abs ty d4 k' = Some (stored_val ty v)"
        using dict_abs_iff [OF ok4] vl en4 by auto
      then show ?thesis using True by simp
    next
      case False
      then have "\<not> dictCompareKeys ty k' (e_key e)" using ke cmp_trans cmp_sym by blast
      then have nk: "\<not> dictCompareKeys ty k' (e_key x)" if "x \<in># {#e, dictSetVal ty v e#}" for x
        using that key by auto
      have "dict_abs ty d4 k' = Some w \<longleftrightarrow> (\<exists>x \<in># mset (dict_entries d3) + {#e#}. dictCompareKeys ty k' (e_key x) \<and> e_val x = w)" for w
        unfolding dict_abs_iff [OF ok4] en4 using nk by auto
      moreover have "dict_abs ty d2 k' = Some w \<longleftrightarrow> (\<exists>x \<in># mset (dict_entries d2) + {#dictSetVal ty v e#}. dictCompareKeys ty k' (e_key x) \<and> e_val x = w)" for w
        unfolding dict_abs_iff [OF f(2)] using nk by auto
      ultimately have "dict_abs ty d4 k' = Some w \<longleftrightarrow> dict_abs ty d2 k' = Some w" for w
        unfolding u(3) by blast
      then have "dict_abs ty d4 k' = dict_abs ty d2 k'" by (metis not_None_eq)
      then show ?thesis using False ab2 by simp
    qed
    then show ?thesis using rep ok4 len fr4 Some by simp
  qed
qed

end

lemma clear_chain_freed:
  "dictClear_chain ty d u es = (d\<lparr>d_freed := d_freed d @ concat (map (freed_events ty) es)\<rparr>, u - of_nat (length es))"
  by (induction es arbitrary: d u) (simp_all add: free_both algebra_simps)

text \<open>The loop stops early when the count of used entries reaches zero: no entry is left then.\<close>

lemma clear_loop_freed:
  assumes "length (concat bs) < 2 ^ 62" "u = of_nat (length (concat bs))"
  shows "dictClear_loop ty d u bs = d\<lparr>d_freed := d_freed d @ concat (map (freed_events ty) (concat bs))\<rparr>"
  using assms
proof (induction bs arbitrary: d u)
  case (Cons b bs)
  show ?case
  proof (cases "u = 0")
    case True
    then have "(of_nat (length (concat (b # bs))) :: u64) = of_nat 0" using Cons.prems(2) by simp
    then have "length (concat (b # bs)) = 0"
      using Cons.prems(1) of_nat_u64_eq [of "length (concat (b # bs))" 0] by (simp del: length_concat)
    then have em: "concat (b # bs) = []" by (metis length_0_conv)
    show ?thesis unfolding em using True by simp
  next
    case False
    have "u - of_nat (length b) = of_nat (length (concat bs))" using Cons.prems(2) by simp
    then have "dictClear_loop ty d' (u - of_nat (length b)) bs =
        d'\<lparr>d_freed := d_freed d' @ concat (map (freed_events ty) (concat bs))\<rparr>" for d'
      using Cons.prems(1) by (intro Cons.IH) simp_all
    then show ?thesis using False by (simp add: clear_chain_freed word_neq_0_conv)
  qed
qed simp

lemma u_dictClear_freed:
  assumes "ht_ok ty (get_ht t d)" "length (ht_entries (get_ht t d)) < 2 ^ 62"
  shows "u_dictClear ty d t =
    set_ht t u_dictReset (d\<lparr>d_freed := d_freed d @ concat (map (freed_events ty) (ht_entries (get_ht t d)))\<rparr>)"
proof (cases "ht_table (get_ht t d)")
  case (Some bs)
  then have "ht_used (get_ht t d) = of_nat (length (concat bs))" "ht_entries (get_ht t d) = concat bs"
    using assms(1) by (simp_all add: ht_ok_def ht_entries_def)
  then show ?thesis using assms(2) Some clear_loop_freed [of bs]
    by (simp add: u_dictClear_def Let_def del: length_concat map_concat)
qed (simp add: u_dictClear_def Let_def ht_entries_def)

text \<open>\<open>dictEmpty\<close> gives every entry to the destructors exactly once.\<close>

lemma dictEmpty_freed:
  assumes "dict_ok ty d"
  shows "dictEmpty ty d = dictCreate\<lparr>d_freed := d_freed d @ concat (map (freed_events ty) (dict_entries d))\<rparr>"
proof -
  have b: "length (ht_entries (ht0 d)) < 2 ^ 62" "length (ht_entries (ht1 d)) < 2 ^ 62"
    "ht_ok ty (ht0 d)" "ht_ok ty (ht1 d)"
    using assms by (simp_all add: dict_ok_def dict_entries_def)
  have 0: "u_dictClear ty d 0 = d\<lparr>ht0 := u_dictReset, d_freed := d_freed d @ concat (map (freed_events ty) (ht_entries (ht0 d)))\<rparr>"
    using u_dictClear_freed [of ty 0 d] b by (simp add: get_ht_def set_ht_def)
  have 1: "u_dictClear ty d' 1 = d'\<lparr>ht1 := u_dictReset, d_freed := d_freed d' @ concat (map (freed_events ty) (ht_entries (ht1 d')))\<rparr>"
    if "ht1 d' = ht1 d" for d'
    using u_dictClear_freed [of ty 1 d'] b that by (simp add: get_ht_def set_ht_def)
  show ?thesis
    by (simp add: dictEmpty_def Let_def 0 1 [simplified] dictCreate_def u_dictInit_def dict_entries_def)
qed

lemma dictCreate_ok [simp]: "dict_ok ty dictCreate" "dict_entries dictCreate = []" "d_freed dictCreate = []"
  by (simp_all add: dict_ok_def dictCreate_def u_dictInit_def dict_entries_def distinct_keys_def)

section \<open>Iterators\<close>

text \<open>
  A pointer into the chain of the iterator's bucket is the number of entries from the
  pointed one to the end of the chain, \<open>None\<close> for \<open>NULL\<close>: it is stable when entries are
  added at the front or the entry before it is deleted.
\<close>

record dictIterator =
  it_table :: nat
  it_index :: int
  it_safe :: bool
  it_entry :: "nat option"
  it_nextEntry :: "nat option"

definition dictGetIterator :: dictIterator where
  "dictGetIterator = \<lparr>it_table = 0, it_index = - 1, it_safe = False, it_entry = None, it_nextEntry = None\<rparr>"

definition dictGetSafeIterator :: dictIterator where
  "dictGetSafeIterator = dictGetIterator\<lparr>it_safe := True\<rparr>"

text \<open>\<open>(signed) ht->size\<close> is a conversion to a 32-bit \<open>int\<close>.\<close>

definition signed_size :: "('k, 'v) dictht \<Rightarrow> int" where
  "signed_size ht = sint (ucast (ht_size ht) :: 32 word)"

text \<open>The branch for a \<open>NULL\<close> entry; the flag is true when the loop breaks.\<close>

definition dictNext_bucket ::
  "('k, 'v) dict \<Rightarrow> dictIterator \<Rightarrow> (('k, 'v) dict \<times> dictIterator \<times> bool) option" where
  "dictNext_bucket d iter =
     (let d = (if it_safe iter \<and> it_index iter = - 1 \<and> it_table iter = 0
               then d\<lparr>iterators := iterators d + 1\<rparr> else d);
          index = it_index iter + 1;
          over = (index \<ge> signed_size (get_ht (it_table iter) d))
      in if over \<and> \<not> (dictIsRehashing d \<and> it_table iter = 0)
         then Some (d, iter\<lparr>it_index := index\<rparr>, True)
         else (let iter = (if over then iter\<lparr>it_table := it_table iter + 1, it_index := 0\<rparr>
                           else iter\<lparr>it_index := index\<rparr>)
               in do {
                 b \<leftarrow> bucket (get_ht (it_table iter) d) (nat (it_index iter));
                 Some (d, iter\<lparr>it_entry := if b = [] then None else Some (length b)\<rparr>, False)
               }))"

partial_function (option) dictNext ::
  "('k, 'v) dict \<Rightarrow> dictIterator \<Rightarrow> (('k, 'v) dictEntry option \<times> ('k, 'v) dict \<times> dictIterator) option" where
  "dictNext d iter = do {
     (d, iter, stop) \<leftarrow> (if it_entry iter = None then dictNext_bucket d iter
                        else Some (d, iter\<lparr>it_entry := it_nextEntry iter\<rparr>, False));
     if stop then Some (None, d, iter)
     else (case it_entry iter of
         None \<Rightarrow> dictNext d iter
       | Some m \<Rightarrow> do {
           b \<leftarrow> bucket (get_ht (it_table iter) d) (nat (it_index iter));
           if m = 0 \<or> m > length b then None
           else Some (Some (b ! (length b - m)), d,
                      iter\<lparr>it_nextEntry := if m = 1 then None else Some (m - 1)\<rparr>)
         })
   }"

definition dictReleaseIterator :: "('k, 'v) dict \<Rightarrow> dictIterator \<Rightarrow> ('k, 'v) dict" where
  "dictReleaseIterator d iter =
     (if it_safe iter \<and> \<not> (it_index iter = - 1 \<and> it_table iter = 0)
      then d\<lparr>iterators := iterators d - 1\<rparr> else d)"

text \<open>A caller's loop \<open>while((de = dictNext(di)) != NULL)\<close>: the entries it sees.\<close>

partial_function (option) dict_iterate ::
  "('k, 'v) dict \<Rightarrow> dictIterator \<Rightarrow> ('k, 'v) dictEntry list \<Rightarrow> (('k, 'v) dictEntry list \<times> ('k, 'v) dict \<times> dictIterator) option" where
  "dict_iterate d iter seen = do {
     (de, d, iter) \<leftarrow> dictNext d iter;
     case de of None \<Rightarrow> Some (seen, d, iter) | Some e \<Rightarrow> dict_iterate d iter (seen @ [e])
   }"

subsection \<open>An iteration returns every entry once\<close>

definition ht_buckets :: "('k, 'v) dictht \<Rightarrow> ('k, 'v) dictEntry list list" where
  "ht_buckets ht = (case ht_table ht of None \<Rightarrow> [] | Some t \<Rightarrow> t)"

definition bucket_rest :: "('k, 'v) dict \<Rightarrow> nat \<Rightarrow> int \<Rightarrow> ('k, 'v) dictEntry list" where
  "bucket_rest d t i = concat (drop (nat (i + 1)) (ht_buckets (get_ht t d))) @
     (if t = 0 \<and> dictIsRehashing d then ht_entries (ht1 d) else [])"

definition iter_rest :: "('k, 'v) dict \<Rightarrow> dictIterator \<Rightarrow> ('k, 'v) dictEntry list" where
  "iter_rest d it =
     (case it_entry it of None \<Rightarrow> [] | Some _ \<Rightarrow>
        (case it_nextEntry it of None \<Rightarrow> []
         | Some m \<Rightarrow> (let b = ht_buckets (get_ht (it_table it) d) ! nat (it_index it) in drop (length b - m) b))) @
     bucket_rest d (it_table it) (it_index it)"

definition iter_ok :: "('k, 'v) dict \<Rightarrow> dictIterator \<Rightarrow> bool" where
  "iter_ok d it \<longleftrightarrow> it_table it \<le> 1 \<and> (it_table it = 1 \<longrightarrow> dictIsRehashing d) \<and> - 1 \<le> it_index it \<and>
     it_index it < int (length (ht_buckets (get_ht (it_table it) d))) \<and>
     (it_entry it \<noteq> None \<longrightarrow> 0 \<le> it_index it \<and>
        (\<forall>m. it_nextEntry it = Some m \<longrightarrow> 1 \<le> m \<and> m \<le> length (ht_buckets (get_ht (it_table it) d) ! nat (it_index it))))"

definition same_tables :: "('k, 'v) dict \<Rightarrow> ('k, 'v) dict \<Rightarrow> bool" where
  "same_tables d d' \<longleftrightarrow> (\<exists>n. d' = d\<lparr>iterators := n\<rparr>)"

lemma iterators_update_simps [simp]:
  "dictIsRehashing (d\<lparr>iterators := n\<rparr>) = dictIsRehashing d" "get_ht t (d\<lparr>iterators := n\<rparr>) = get_ht t d"
  by (simp_all add: dictIsRehashing_def get_ht_def)

lemma same_tables_simps:
  assumes "same_tables d d'"
  shows "ht0 d' = ht0 d" "ht1 d' = ht1 d" "rehashidx d' = rehashidx d" "d_freed d' = d_freed d"
    "dictIsRehashing d' = dictIsRehashing d" "get_ht t d' = get_ht t d" "iter_rest d' it = iter_rest d it"
    "iter_ok d' it = iter_ok d it" "bucket_rest d' t i = bucket_rest d t i" "dict_ok ty d' = dict_ok ty d"
    "dict_entries d' = dict_entries d"
  using assms by (auto simp: same_tables_def dictIsRehashing_def get_ht_def iter_rest_def iter_ok_def
      bucket_rest_def dict_ok_def dict_entries_def cong: option.case_cong)

definition small_tables :: "('k, 'v) dictType \<Rightarrow> ('k, 'v) dict \<Rightarrow> bool" where
  "small_tables ty d \<longleftrightarrow> dict_ok ty d \<and> length (ht_buckets (ht0 d)) < 2147483648 \<and>
     length (ht_buckets (ht1 d)) < 2147483648"

lemma signed_size_buckets:
  assumes "ht_ok ty ht" "length (ht_buckets ht) < 2147483648"
  shows "signed_size ht = int (length (ht_buckets ht))"
proof (cases "ht_table ht")
  case (Some t)
  have "unat (ht_size ht) = length t"
    using assms Some by (simp add: ht_ok_def ht_buckets_def unsigned_of_nat take_bit_nat_eq_self)
  then have "ucast (ht_size ht) = (of_nat (length t) :: u32)" by (metis of_nat_unat)
  then show ?thesis using assms(2) Some sint_of_nat_u32 [of "length t"]
    by (simp add: signed_size_def ht_buckets_def)
qed (use assms(1) in \<open>simp add: ht_ok_def ht_buckets_def signed_size_def u_dictReset_def\<close>)

lemma get_ht_1: "get_ht (Suc 0) d = ht1 d"
  by (simp add: get_ht_def)

lemma bucket_buckets: "bucket ht i = (if i < length (ht_buckets ht) then Some (ht_buckets ht ! i) else None)"
  by (simp add: bucket_def ht_buckets_def split: option.split)

lemma ht_entries_buckets: "ht_entries ht = concat (ht_buckets ht)"
  by (simp add: ht_entries_def ht_buckets_def split: option.split)

text \<open>Moving to the next bucket: the iteration is over, or the new bucket begins what is left.\<close>

lemma dictNext_bucket_ok:
  assumes sm: "small_tables ty d" and it: "iter_ok d it" and en: "it_entry it = None"
  shows "\<exists>d' it' stop. dictNext_bucket d it = Some (d', it', stop) \<and> same_tables d d' \<and> it_safe it' = it_safe it \<and>
    (if stop then iter_rest d it = []
     else it_table it' \<le> 1 \<and> (it_table it' = 1 \<longrightarrow> dictIsRehashing d) \<and> 0 \<le> it_index it' \<and>
       it_index it' < int (length (ht_buckets (get_ht (it_table it') d))) \<and>
       it_entry it' = (let b = ht_buckets (get_ht (it_table it') d) ! nat (it_index it') in
          if b = [] then None else Some (length b)) \<and>
       iter_rest d it = ht_buckets (get_ht (it_table it') d) ! nat (it_index it') @
          bucket_rest d (it_table it') (it_index it') \<and>
       (it_table it' = it_table it \<and> it_index it' = it_index it + 1 \<or> it_table it = 0 \<and> it_table it' = 1))"
proof -
  define t where "t = it_table it"
  define i where "i = it_index it"
  define bs where "bs = ht_buckets (get_ht t d)"
  define d' where "d' = (if it_safe it \<and> i = - 1 \<and> t = 0 then d\<lparr>iterators := iterators d + 1\<rparr> else d)"
  have st: "same_tables d d'"
    unfolding same_tables_def d'_def by (cases d) (auto intro: exI [of _ "iterators d"] exI [of _ "iterators d + 1"])
  note same = same_tables_simps [OF st]
  have t1: "t \<le> 1" and i1: "- 1 \<le> i" "i < int (length bs)" and tr: "t = 1 \<longrightarrow> dictIsRehashing d"
    using it by (simp_all add: iter_ok_def t_def i_def bs_def)
  have rest: "iter_rest d it = bucket_rest d t i" using en by (simp add: iter_rest_def t_def i_def)
  have hok: "ht_ok ty (get_ht t d)" and lb: "length bs < 2147483648"
    using sm t1 by (auto simp: small_tables_def dict_ok_def get_ht_def bs_def)
  have ss: "signed_size (get_ht t d) = int (length bs)"
    using signed_size_buckets [OF hok] lb by (simp add: bs_def)
  show ?thesis
  proof (cases "i + 1 < int (length bs)")
    case True
    define b where "b = bs ! nat (i + 1)"
    define it' where "it' = it\<lparr>it_index := i + 1, it_entry := if b = [] then None else Some (length b)\<rparr>"
    have "nat (i + 1) < length bs" using True i1 by simp
    then have "dictNext_bucket d it = Some (d', it', False)"
      using True ss by (simp add: dictNext_bucket_def Let_def same bucket_buckets it'_def b_def bs_def t_def i_def
          flip: d'_def [unfolded t_def i_def])
    moreover have "drop (nat (i + 1)) bs = b # drop (nat (i + 2)) bs"
    proof -
      have "nat (i + 2) = Suc (nat (i + 1))" using i1 by simp
      then show ?thesis using Cons_nth_drop_Suc [of "nat (i + 1)" bs] True i1 by (simp add: b_def)
    qed
    then have "iter_rest d it = b @ bucket_rest d t (i + 1)"
      by (simp add: rest bucket_rest_def bs_def add.commute)
    ultimately show ?thesis
      using st t1 tr True i1 by (intro exI [of _ d'] exI [of _ it'] exI [of _ False])
        (simp add: it'_def t_def bs_def b_def i_def Let_def)
  next
    case False
    then have dr: "drop (nat (i + 1)) bs = []" by simp
    show ?thesis
    proof (cases "dictIsRehashing d \<and> t = 0")
      case nr: False
      then have "dictNext_bucket d it = Some (d', it\<lparr>it_index := i + 1\<rparr>, True)"
        using False ss by (simp add: dictNext_bucket_def Let_def same t_def i_def bs_def
          flip: d'_def [unfolded t_def i_def])
      moreover have "iter_rest d it = []" using nr dr by (auto simp: rest bucket_rest_def bs_def)
      ultimately show ?thesis using st by (intro exI [of _ d'] exI [of _ "it\<lparr>it_index := i + 1\<rparr>"] exI [of _ True]) simp
    next
      case re: True
      define bs1 where "bs1 = ht_buckets (ht1 d)"
      have "ht_ok ty (ht1 d)" "ht_table (ht1 d) \<noteq> None"
        using sm re by (auto simp: small_tables_def dict_ok_def dictIsRehashing_def)
      then have ne: "0 < length bs1" by (auto simp: bs1_def ht_buckets_def ht_ok_def)
      define b where "b = bs1 ! 0"
      define it' where "it' = it\<lparr>it_table := 1, it_index := 0, it_entry := if b = [] then None else Some (length b)\<rparr>"
      have "dictNext_bucket d it = Some (d', it', False)"
      proof -
        have "i = - 1 \<Longrightarrow> bs = []" using False by simp
        then show ?thesis
          using re False ss ne by (simp add: dictNext_bucket_def Let_def t_def i_def bs_def it'_def b_def
            bucket_buckets bs1_def d'_def get_ht_1)
      qed
      moreover have "bs1 = b # drop 1 bs1" using ne by (simp add: b_def Cons_nth_drop_Suc)
      then have "concat bs1 = b @ concat (drop 1 bs1)" by (metis concat.simps(2))
      then have "iter_rest d it = b @ bucket_rest d 1 0"
        using re dr by (simp add: rest bucket_rest_def bs_def ht_entries_buckets get_ht_def flip: bs1_def)
      ultimately show ?thesis
        using st re ne by (intro exI [of _ d'] exI [of _ it'] exI [of _ False])
          (simp add: it'_def t_def b_def bs1_def Let_def get_ht_def)
    qed
  qed
qed

lemma dictNext_ok:
  assumes sm: "small_tables ty d" and it: "iter_ok d it"
  shows "\<exists>d' it'. same_tables d d' \<and>
    (case iter_rest d it of
       [] \<Rightarrow> dictNext d it = Some (None, d', it')
     | e # r \<Rightarrow> dictNext d it = Some (Some e, d', it') \<and> iter_ok d' it' \<and> iter_rest d' it' = r)"
  using assms
proof (induction "(if it_table it = 0 then 1 + length (ht_buckets (ht1 d)) else 0) +
    nat (int (length (ht_buckets (get_ht (it_table it) d))) - it_index it) +
    (if it_entry it = None then 0 else 1)"
    arbitrary: d it rule: less_induct)
  case less
  text \<open>The entry the loop returns, once the pointer is set.\<close>
  have ret: "\<exists>d' it'. same_tables d d' \<and> (case drop (length b - m) b @ bucket_rest d (it_table it1) (it_index it1) of
       [] \<Rightarrow> dictNext d it = Some (None, d', it')
     | e # r \<Rightarrow> dictNext d it = Some (Some e, d', it') \<and> iter_ok d' it' \<and> iter_rest d' it' = r)"
    if eq: "dictNext d it = do {
           b \<leftarrow> bucket (get_ht (it_table it1) d1) (nat (it_index it1));
           if m = 0 \<or> m > length b then None
           else Some (Some (b ! (length b - m)), d1, it1\<lparr>it_nextEntry := if m = 1 then None else Some (m - 1)\<rparr>)
         }" and st: "same_tables d d1" and e1: "it_entry it1 = Some m"
      and b: "b = ht_buckets (get_ht (it_table it1) d) ! nat (it_index it1)"
      and m: "1 \<le> m" "m \<le> length b" and ok: "it_table it1 \<le> 1" "it_table it1 = 1 \<longrightarrow> dictIsRehashing d"
        "0 \<le> it_index it1" "it_index it1 < int (length (ht_buckets (get_ht (it_table it1) d)))"
    for d1 it1 b m
  proof -
    note same = same_tables_simps [OF st]
    define it2 where "it2 = it1\<lparr>it_nextEntry := if m = 1 then None else Some (m - 1)\<rparr>"
    have dr: "drop (length b - m) b = b ! (length b - m) # drop (Suc (length b - m)) b"
      using m by (simp add: Cons_nth_drop_Suc)
    have "nat (it_index it1) < length (ht_buckets (get_ht (it_table it1) d))" using ok by simp
    then have n: "dictNext d it = Some (Some (b ! (length b - m)), d1, it2)"
      using eq m b by (simp add: bucket_buckets same it2_def)
    have ok2: "iter_ok d1 it2"
      using ok e1 m b by (auto simp: iter_ok_def it2_def same)
    have "Suc (length b - m) = length b - (m - 1)" using m by simp
    then have rest2: "iter_rest d1 it2 = drop (Suc (length b - m)) b @ bucket_rest d (it_table it1) (it_index it1)"
      using e1 m b by (simp add: iter_rest_def it2_def same Let_def)
    show ?thesis using st n ok2 rest2 unfolding dr by auto
  qed
  text \<open>From a \<open>NULL\<close> entry.\<close>
  show ?case
  proof (cases "it_entry it")
    case None
    obtain d1 it1 stop where nb: "dictNext_bucket d it = Some (d1, it1, stop)" and st: "same_tables d d1" and
      r: "if stop then iter_rest d it = []
     else it_table it1 \<le> 1 \<and> (it_table it1 = 1 \<longrightarrow> dictIsRehashing d) \<and> 0 \<le> it_index it1 \<and>
       it_index it1 < int (length (ht_buckets (get_ht (it_table it1) d))) \<and>
       it_entry it1 = (let b = ht_buckets (get_ht (it_table it1) d) ! nat (it_index it1) in
          if b = [] then None else Some (length b)) \<and>
       iter_rest d it = ht_buckets (get_ht (it_table it1) d) ! nat (it_index it1) @
          bucket_rest d (it_table it1) (it_index it1) \<and>
       (it_table it1 = it_table it \<and> it_index it1 = it_index it + 1 \<or> it_table it = 0 \<and> it_table it1 = 1)"
      using dictNext_bucket_ok [OF less.prems None] by blast
    note same = same_tables_simps [OF st]
    show ?thesis
    proof (cases stop)
      case True
      then have "dictNext d it = Some (None, d1, it1)" using nb None by (simp add: dictNext.simps [of d it])
      then show ?thesis using r True st by auto
    next
      case False
      define b where "b = ht_buckets (get_ht (it_table it1) d) ! nat (it_index it1)"
      show ?thesis
      proof (cases "b = []")
        case True
        have e1: "it_entry it1 = None" using r False True by (simp add: Let_def b_def)
        have ok1: "iter_ok d1 it1" using r False e1 by (simp add: iter_ok_def same)
        have rest1: "iter_rest d it = iter_rest d1 it1" using r False True e1 by (simp add: iter_rest_def same b_def)
        have "small_tables ty d1" using less.prems(1) by (simp add: small_tables_def same)
        moreover have "nat (int (length (ht_buckets (get_ht 1 d))) - it_index it1) \<le> length (ht_buckets (ht1 d))"
        proof -
          have "0 \<le> it_index it1" using r False by auto
          then show ?thesis by (simp add: get_ht_def)
        qed
        then have "(if it_table it1 = 0 then 1 + length (ht_buckets (ht1 d1)) else 0) +
            nat (int (length (ht_buckets (get_ht (it_table it1) d1))) - it_index it1) +
            (if it_entry it1 = None then 0 else 1)
          < (if it_table it = 0 then 1 + length (ht_buckets (ht1 d)) else 0) +
            nat (int (length (ht_buckets (get_ht (it_table it) d))) - it_index it) +
            (if it_entry it = None then 0 else 1)"
          using r False e1 None less.prems(2) by (auto simp: same iter_ok_def)
        ultimately obtain d2 it2 where "same_tables d1 d2" "case iter_rest d1 it1 of
            [] \<Rightarrow> dictNext d1 it1 = Some (None, d2, it2)
          | e # r \<Rightarrow> dictNext d1 it1 = Some (Some e, d2, it2) \<and> iter_ok d2 it2 \<and> iter_rest d2 it2 = r"
          using less.hyps [OF _ _ ok1] by blast
        moreover from this(1) have "same_tables d d2" using st unfolding same_tables_def by auto
        moreover have "dictNext d it = dictNext d1 it1"
          using nb None False e1 by (simp add: dictNext.simps [of d it])
        ultimately show ?thesis unfolding rest1 by metis
      next
        case ne: False
        have e1: "it_entry it1 = Some (length b)" using r False ne by (simp add: Let_def b_def)
        have "dictNext d it = do {
           b' \<leftarrow> bucket (get_ht (it_table it1) d1) (nat (it_index it1));
           if length b = 0 \<or> length b > length b' then None
           else Some (Some (b' ! (length b' - length b)), d1, it1\<lparr>it_nextEntry := if length b = 1 then None else Some (length b - 1)\<rparr>)
         }"
          using nb None False e1 by (simp add: dictNext.simps [of d it])
        from ret [OF this st e1 b_def] show ?thesis using r False ne by (simp add: b_def Suc_le_eq)
      qed
    qed
  next
    case (Some x)
    define it1 where "it1 = it\<lparr>it_entry := it_nextEntry it\<rparr>"
    have iok: "0 \<le> it_index it" using less.prems(2) Some by (simp add: iter_ok_def)
    show ?thesis
    proof (cases "it_nextEntry it")
      case None
      have e1: "it_entry it1 = None" by (simp add: it1_def None)
      have "dictNext d it = dictNext d it1"
        using Some e1 by (simp add: dictNext.simps [of d it] flip: it1_def)
      moreover have "iter_ok d it1" using less.prems(2) e1 by (simp add: iter_ok_def it1_def)
      moreover have "iter_rest d it1 = iter_rest d it" using None Some by (simp add: iter_rest_def it1_def)
      moreover have "(if it_table it1 = 0 then 1 + length (ht_buckets (ht1 d)) else 0) +
            nat (int (length (ht_buckets (get_ht (it_table it1) d))) - it_index it1) +
            (if it_entry it1 = None then 0 else 1)
          < (if it_table it = 0 then 1 + length (ht_buckets (ht1 d)) else 0) +
            nat (int (length (ht_buckets (get_ht (it_table it) d))) - it_index it) +
            (if it_entry it = None then 0 else 1)" using e1 Some by (simp add: it1_def)
      ultimately show ?thesis using less.hyps [OF _ less.prems(1)] by metis
    next
      case (Some m)
      define b where "b = ht_buckets (get_ht (it_table it1) d) ! nat (it_index it1)"
      have e1: "it_entry it1 = Some m" by (simp add: it1_def Some)
      have m: "1 \<le> m" "m \<le> length b"
        using less.prems(2) \<open>it_entry it = Some x\<close> Some by (simp_all add: iter_ok_def b_def it1_def)
      have "dictNext d it = do {
           b' \<leftarrow> bucket (get_ht (it_table it1) d) (nat (it_index it1));
           if m = 0 \<or> m > length b' then None
           else Some (Some (b' ! (length b' - m)), d, it1\<lparr>it_nextEntry := if m = 1 then None else Some (m - 1)\<rparr>)
         }"
        using \<open>it_entry it = Some x\<close> e1 by (simp add: dictNext.simps [of d it] flip: it1_def)
      moreover have "same_tables d d" unfolding same_tables_def by (intro exI [of _ "iterators d"]) simp
      moreover have "iter_rest d it = drop (length b - m) b @ bucket_rest d (it_table it1) (it_index it1)"
        using \<open>it_entry it = Some x\<close> Some by (simp add: iter_rest_def b_def it1_def Let_def)
      ultimately show ?thesis
        using ret [OF _ _ e1 b_def m] less.prems(2) iok by (simp add: iter_ok_def it1_def)
    qed
  qed
qed

lemma dict_iterate_rest:
  assumes "small_tables ty d" "iter_ok d it"
  shows "\<exists>d' it'. dict_iterate d it seen = Some (seen @ iter_rest d it, d', it') \<and> same_tables d d'"
  using assms
proof (induction "iter_rest d it" arbitrary: d it seen)
  case Nil
  then obtain d' it' where "dictNext d it = Some (None, d', it')" "same_tables d d'"
    using dictNext_ok [OF Nil.prems] by (auto simp flip: Nil.hyps)
  then show ?case by (simp add: dict_iterate.simps flip: Nil.hyps)
next
  case (Cons e r)
  then obtain d1 it1 where n: "dictNext d it = Some (Some e, d1, it1)" "same_tables d d1" "iter_ok d1 it1" "iter_rest d1 it1 = r"
    using dictNext_ok [OF Cons.prems] by (auto simp flip: Cons.hyps(2))
  have "small_tables ty d1" using Cons.prems(1) same_tables_simps [OF n(2)] by (simp add: small_tables_def)
  then obtain d' it' where "dict_iterate d1 it1 (seen @ [e]) = Some ((seen @ [e]) @ iter_rest d1 it1, d', it')" "same_tables d1 d'"
    using Cons.hyps(1) [of d1 it1] n(3,4) by blast
  moreover from this(2) have "same_tables d d'" using n(2) unfolding same_tables_def by auto
  ultimately show ?case using n by (simp add: dict_iterate.simps [of d] flip: Cons.hyps(2))
qed

lemma dict_iterate_entries:
  assumes "small_tables ty d"
  shows "\<exists>d' it'. dict_iterate d (dictGetIterator\<lparr>it_safe := s\<rparr>) [] = Some (dict_entries d, d', it') \<and> same_tables d d'"
proof -
  have "iter_ok d (dictGetIterator\<lparr>it_safe := s\<rparr>)" by (simp add: iter_ok_def dictGetIterator_def)
  moreover have "iter_rest d (dictGetIterator\<lparr>it_safe := s\<rparr>) = dict_entries d"
    using assms by (auto simp: iter_rest_def dictGetIterator_def bucket_rest_def get_ht_def dict_entries_def
        ht_entries_buckets small_tables_def dict_ok_def dictIsRehashing_def ht_buckets_def)
  ultimately show ?thesis using dict_iterate_rest [OF assms, of "dictGetIterator\<lparr>it_safe := s\<rparr>" "[]"] by simp
qed

section \<open>A random entry\<close>

text \<open>
  The answers of \<open>random()\<close> are a list; \<open>None\<close> when it runs out.  The first loop draws
  until the bucket is not empty, then one entry of its chain is drawn.
\<close>

fun random_bucket_rehashing ::
  "('k, 'v) dict \<Rightarrow> u64 list \<Rightarrow> (nat \<times> nat \<times> u64 list) option" where
  "random_bucket_rehashing d [] = None"
| "random_bucket_rehashing d (r # rs) =
     (let h = (ucast (r mod (ht_size (ht0 d) + ht_size (ht1 d))) :: u32);
          (t, i) = (if ucast h \<ge> ht_size (ht0 d) then (1, unat (ucast h - ht_size (ht0 d)))
                    else (0, unat h))
      in do {
        he \<leftarrow> bucket (get_ht t d) i;
        if he = [] then random_bucket_rehashing d rs else Some (t, i, rs)
      })"

fun random_bucket :: "('k, 'v) dict \<Rightarrow> u64 list \<Rightarrow> (nat \<times> nat \<times> u64 list) option" where
  "random_bucket d [] = None"
| "random_bucket d (r # rs) =
     (let h = (ucast (r AND ht_sizemask (ht0 d)) :: u32) in do {
        he \<leftarrow> bucket (ht0 d) (unat h);
        if he = [] then random_bucket d rs else Some (0, unat h, rs)
      })"

definition dictGetRandomKey ::
  "('k, 'v) dictType \<Rightarrow> ('k, 'v) dict \<Rightarrow> u64 list \<Rightarrow> (entry_ptr option \<times> ('k, 'v) dict) option" where
  "dictGetRandomKey ty d rs =
     (if dictSize d = 0 then Some (None, d)
      else do {
        d \<leftarrow> step_if_rehashing ty d;
        (t, i, rs) \<leftarrow> (if dictIsRehashing d then random_bucket_rehashing d rs else random_bucket d rs);
        b \<leftarrow> bucket (get_ht t d) i;
        (case rs of [] \<Rightarrow> None
         | r # rs \<Rightarrow> Some (Some (t, i, nat (uint r mod int (length b))), d))
      })"

lemma random_bucket_rehashing_sound:
  "random_bucket_rehashing d rs = Some (t, i, rs') \<Longrightarrow> t \<le> 1 \<and> (\<exists>b. bucket (get_ht t d) i = Some b \<and> b \<noteq> [])"
  by (induction d rs rule: random_bucket_rehashing.induct)
    (auto simp: Let_def split: if_splits Option.bind_splits)

lemma random_bucket_sound:
  "random_bucket d rs = Some (t, i, rs') \<Longrightarrow> t \<le> 1 \<and> (\<exists>b. bucket (get_ht t d) i = Some b \<and> b \<noteq> [])"
  by (induction d rs rule: random_bucket.induct)
    (auto simp: Let_def get_ht_def split: if_splits Option.bind_splits)

text \<open>A drawn index is always inside the tables: the draw fails only when the list runs out.\<close>

lemma random_bucket_total:
  assumes "ht_ok ty (ht0 d)" "ht_table (ht0 d) \<noteq> None" "b \<noteq> []" "bucket (ht0 d) i = Some b"
    and "\<exists>r \<in> set rs. unat (ucast (r AND ht_sizemask (ht0 d)) :: u32) = i"
  shows "random_bucket d (rs @ [r']) \<noteq> None \<and> (\<forall>t i rs'. random_bucket d (rs @ [r']) = Some (t, i, rs') \<longrightarrow> rs' \<noteq> [])"
  using assms(5)
proof (induction rs)
  case (Cons r rs)
  obtain tb where tb: "ht_table (ht0 d) = Some tb" using assms(2) by auto
  define h where "h = unat (ucast (r AND ht_sizemask (ht0 d)) :: u32)"
  have "h < length tb"
  proof -
    have n: "0 < length tb" "length tb \<le> 2147483648" "ht_sizemask (ht0 d) = of_nat (length tb) - 1"
      using assms(1) tb by (auto simp: ht_ok_def)
    have "(of_nat (length tb) - 1 :: u64) = of_nat (length tb - 1)" using n by (simp add: of_nat_diff Suc_leI)
    moreover have "unat (of_nat (length tb - 1) :: u64) = length tb - 1"
      using n by (simp add: unsigned_of_nat take_bit_nat_eq_self)
    ultimately have "unat (ht_sizemask (ht0 d)) = length tb - 1" using n(3) by simp
    moreover have "unat (r AND ht_sizemask (ht0 d)) \<le> unat (ht_sizemask (ht0 d))"
      using word_and_le1 [of r "ht_sizemask (ht0 d)"] by (simp add: word_le_nat_alt)
    moreover have "h \<le> unat (r AND ht_sizemask (ht0 d))"
      by (simp add: h_def unsigned_ucast_eq take_bit_nat_less_eq_self)
    ultimately show ?thesis using n by linarith
  qed
  then have bh: "bucket (ht0 d) h = Some (tb ! h)" using tb by (simp add: bucket_def)
  show ?case
  proof (cases "tb ! h = []")
    case True
    then have "h \<noteq> i" using bh assms(3,4) by auto
    then have "\<exists>r \<in> set rs. unat (ucast (r AND ht_sizemask (ht0 d)) :: u32) = i"
      using Cons.prems by (auto simp: h_def)
    then show ?thesis using Cons.IH True bh by (simp add: Let_def h_def)
  next
    case False
    then show ?thesis using bh by (simp add: Let_def h_def)
  qed
qed simp

lemma dictGetRandomKey_sound:
  assumes "dictGetRandomKey ty d rs = Some (Some p, d')"
  shows "fst p \<le> 1 \<and> (\<exists>e. entry_at d' p = Some e)"
proof -
  obtain t i b r rs1 rs2 where rb: "(if dictIsRehashing d' then random_bucket_rehashing d' rs else random_bucket d' rs) = Some (t, i, r # rs2)"
    and b: "bucket (get_ht t d') i = Some b" and p: "p = (t, i, nat (uint r mod int (length b)))"
    using assms by (auto simp: dictGetRandomKey_def split: if_splits Option.bind_splits list.splits)
  have "t \<le> 1 \<and> b \<noteq> []" using rb b random_bucket_rehashing_sound random_bucket_sound by (fastforce split: if_splits)
  moreover from this have "nat (uint r mod int (length b)) < length b" by (simp add: nat_less_iff)
  ultimately show ?thesis using b p by (simp add: entry_at_def)
qed

end
