(* ===== verification/Util.thy ===== *)
theory Util
  imports Prelude
begin

text \<open>
  \<open>redis/src/util.c\<close>: glob-style matching, sizes with units, and the conversions between
  integers and their decimal strings.  A \<open>const char *\<close> is a memory block and an index
  into it; reading outside the block is \<open>None\<close>.
\<close>

section \<open>Glob-style matching\<close>

text \<open>\<open>while(pattern[1] == '*')\<close>\<close>

function skip_stars :: "byte list \<Rightarrow> nat \<Rightarrow> int \<Rightarrow> (nat \<times> int) option" where
  "skip_stars pm i pl = do {
     c \<leftarrow> peek pm (i + 1);
     if c = 42 then skip_stars pm (i + 1) (pl - 1) else Some (i, pl)
   }"
  by pat_completeness auto
termination by (relation "measure (\<lambda>(pm, i, pl). length pm - i)") (auto simp: peek_Some)

text \<open>The loop over the bytes of a class: the match flag, and where it ends.\<close>

function glob_class ::
  "bool \<Rightarrow> byte list \<Rightarrow> nat \<Rightarrow> int \<Rightarrow> byte list \<Rightarrow> nat \<Rightarrow> bool \<Rightarrow> (bool \<times> nat \<times> int) option" where
  "glob_class nocase pm i pl sm j mat = do {
     p0 \<leftarrow> peek pm i;
     if p0 = 92 then do {
       p1 \<leftarrow> peek pm (i + 1);
       s0 \<leftarrow> peek sm j;
       glob_class nocase pm (i + 2) (pl - 2) sm j (mat \<or> p1 = s0)
     }
     else if p0 = 93 then Some (mat, i, pl)
     else if pl = 0 then Some (mat, i - 1, pl + 1)
     else do {
       p1 \<leftarrow> peek pm (i + 1);
       if p1 = 45 \<and> pl \<ge> 3 then do {
         p2 \<leftarrow> peek pm (i + 2);
         s0 \<leftarrow> peek sm j;
         let (start, stop) = (if sint p0 > sint p2 then (p2, p0) else (p0, p2));
         let (start, stop, c) = (if nocase then (tolower start, tolower stop, tolower s0) else (start, stop, s0));
         glob_class nocase pm (i + 3) (pl - 3) sm j (mat \<or> sint c \<ge> sint start \<and> sint c \<le> sint stop)
       }
       else do {
         s0 \<leftarrow> peek sm j;
         glob_class nocase pm (i + 1) (pl - 1) sm j
           (mat \<or> (if nocase then tolower p0 = tolower s0 else p0 = s0))
       }
     }
   }"
  by pat_completeness auto
termination by (relation "measure (\<lambda>(nocase, pm, i, pl, sm, j, mat). length pm - i)") (auto simp: peek_Some)

declare skip_stars.simps [simp del] glob_class.simps [simp del]

text \<open>
  One pass through the \<open>switch\<close> for a byte other than \<open>'*'\<close>: \<open>Some None\<close> when it returns no
  match, or else the pattern and the string positions before \<open>pattern++\<close>.
\<close>

definition glob_one ::
  "bool \<Rightarrow> byte list \<Rightarrow> nat \<Rightarrow> int \<Rightarrow> byte list \<Rightarrow> nat \<Rightarrow> int \<Rightarrow> (nat \<times> int \<times> nat \<times> int) option option" where
  "glob_one nocase pm i pl sm j sl = do {
     p0 \<leftarrow> peek pm i;
     if p0 = 63 then
       (if sl = 0 then Some None else Some (Some (i, pl, j + 1, sl - 1)))
     else if p0 = 91 then do {
       let (i, pl) = (i + 1, pl - 1);
       p0 \<leftarrow> peek pm i;
       let neg = (p0 = 94);
       let (i, pl) = (if neg then (i + 1, pl - 1) else (i, pl));
       (mat, i, pl) \<leftarrow> glob_class nocase pm i pl sm j False;
       let mat = (if neg then \<not> mat else mat);
       if \<not> mat then Some None else Some (Some (i, pl, j + 1, sl - 1))
     }
     else do {
       let (i, pl) = (if p0 = 92 \<and> pl \<ge> 2 then (i + 1, pl - 1) else (i, pl));
       p0 \<leftarrow> peek pm i;
       s0 \<leftarrow> peek sm j;
       if (if nocase then tolower p0 \<noteq> tolower s0 else p0 \<noteq> s0) then Some None
       else Some (Some (i, pl, j + 1, sl - 1))
     }
   }"

text \<open>\<open>while(*pattern == '*')\<close> at the end of the string.\<close>

function strip_stars :: "byte list \<Rightarrow> nat \<Rightarrow> int \<Rightarrow> (nat \<times> int) option" where
  "strip_stars pm i pl = do {
     c \<leftarrow> peek pm i;
     if c = 42 then strip_stars pm (i + 1) (pl - 1) else Some (i, pl)
   }"
  by pat_completeness auto
termination by (relation "measure (\<lambda>(pm, i, pl). length pm - i)") (auto simp: peek_Some)

declare strip_stars.simps [simp del]

lemma skip_stars_ge: "skip_stars pm i pl = Some (i', pl') \<Longrightarrow> i \<le> i' \<and> i' + 1 < length pm"
proof (induction pm i pl rule: skip_stars.induct)
  case (1 pm i pl)
  then obtain c where c: "peek pm (i + 1) = Some c" by (auto simp: skip_stars.simps [of pm i] split: Option.bind_splits)
  show ?case
  proof (cases "c = 42")
    case True
    then have "skip_stars pm (i + 1) (pl - 1) = Some (i', pl')" using "1.prems" c by (simp add: skip_stars.simps [of pm i])
    then show ?thesis using "1.IH" [OF c True] by simp
  next
    case False
    then have "i' = i" using "1.prems" c by (simp add: skip_stars.simps [of pm i])
    then show ?thesis using c by (simp add: peek_Some)
  qed
qed

lemma glob_class_ge: "glob_class nc pm i pl sm j m = Some (m', i', pl') \<Longrightarrow> i \<le> i' + 1"
proof (induction "length pm - i" arbitrary: i pl m nc rule: less_induct)
  case less
  have ih: "i \<le> Suc i'" if "glob_class nc2 pm i2 pl2 sm j m2 = Some (m', i', pl')" "i < length pm" "i < i2"
    for nc2 i2 pl2 m2
  proof -
    have "length pm - i2 < length pm - i" using that(2,3) by arith
    then show ?thesis using less.hyps that(1,3) by fastforce
  qed
  from less.prems show ?case
    by (subst (asm) glob_class.simps)
      (auto simp: Let_def peek_Some split: Option.bind_splits if_splits intro: ih)
qed

lemma glob_one_progress:
  assumes "glob_one nc pm i pl sm j sl = Some (Some (i', pl', j', sl'))"
  shows "i \<le> i' \<and> i < length pm"
proof -
  obtain p0 where p0: "peek pm i = Some p0" using assms by (auto simp: glob_one_def split: Option.bind_splits)
  show ?thesis using assms p0
    by (auto simp: glob_one_def Let_def peek_Some split: Option.bind_splits if_splits dest!: glob_class_ge)
qed

text \<open>
  \<open>stringmatchlen\<close> from given positions, and its loop \<open>while(stringLen)\<close> that tries the
  rest of the pattern at every later position of the string.
\<close>

function (sequential) glob :: "bool \<Rightarrow> byte list \<Rightarrow> nat \<Rightarrow> int \<Rightarrow> byte list \<Rightarrow> nat \<Rightarrow> int \<Rightarrow> bool option"
  and glob_star :: "bool \<Rightarrow> byte list \<Rightarrow> nat \<Rightarrow> int \<Rightarrow> byte list \<Rightarrow> nat \<Rightarrow> int \<Rightarrow> bool option" where
  "glob nocase pm i pl sm j sl =
     (if pl = 0 then Some (sl = 0)
      else do {
        p0 \<leftarrow> peek pm i;
        if p0 = 42 then do {
          (i, pl) \<leftarrow> skip_stars pm i pl;
          if pl = 1 then Some True else glob_star nocase pm (i + 1) (pl - 1) sm j sl
        }
        else do {
          r \<leftarrow> glob_one nocase pm i pl sm j sl;
          case r of
            None \<Rightarrow> Some False
          | Some (i, pl, j, sl) \<Rightarrow>
              (if sl = 0 then do { (i, pl) \<leftarrow> strip_stars pm (i + 1) (pl - 1); Some (pl = 0) }
               else glob nocase pm (i + 1) (pl - 1) sm j sl)
        }
      })"
| "glob_star nocase pm i pl sm j sl =
     (if sl = 0 then Some False
      else do {
        r \<leftarrow> glob nocase pm i pl sm j sl;
        if r then Some True
        else do { s0 \<leftarrow> peek sm j; glob_star nocase pm i pl sm (j + 1) (sl - 1) }
      })"
  by pat_completeness auto
termination
  apply (relation "inv_image (less_than <*lex*> less_than <*lex*> less_than)
     (\<lambda>x. case x of Inl (nocase, pm, i, pl, sm, j, sl) \<Rightarrow> (length pm - i, length sm - j, 0)
        | Inr (nocase, pm, i, pl, sm, j, sl) \<Rightarrow> (length pm - i, length sm - j, 1 :: nat))")
  apply (auto simp: peek_Some dest!: skip_stars_ge glob_one_progress)
  done

declare glob.simps [simp del] glob_star.simps [simp del]

definition stringmatchlen :: "byte list \<Rightarrow> int \<Rightarrow> byte list \<Rightarrow> int \<Rightarrow> bool \<Rightarrow> bool option" where
  "stringmatchlen pattern patternLen str stringLen nocase =
     glob nocase pattern 0 patternLen str 0 stringLen"

definition stringmatch :: "byte list \<Rightarrow> byte list \<Rightarrow> bool \<Rightarrow> bool option" where
  "stringmatch pattern str nocase =
     stringmatchlen pattern (int (length (c_string pattern))) str (int (length (c_string str))) nocase"

section \<open>Sizes with units\<close>

definition isdigit :: "byte \<Rightarrow> bool" where
  "isdigit c \<longleftrightarrow> 48 \<le> c \<and> c \<le> 57"

text \<open>\<open>strtoll\<close> in base 10 on a string of digits with an optional sign, saturating.\<close>

definition dec_val :: "byte list \<Rightarrow> nat" where
  "dec_val ds = foldl (\<lambda>v d. v * 10 + (unat d - 48)) 0 ds"

definition strtoll10 :: "byte list \<Rightarrow> int" where
  "strtoll10 s =
     (let v = (if s \<noteq> [] \<and> hd s = 45 then - int (dec_val (takeWhile isdigit (tl s)))
               else int (dec_val (takeWhile isdigit s)))
      in if v < - (2 ^ 63) then - (2 ^ 63) else if v > 2 ^ 63 - 1 then 2 ^ 63 - 1 else v)"

text \<open>
  The string is given without its terminator.  The result is the number of bytes and
  \<open>*err\<close>; the product wraps.
\<close>

definition memtoll :: "byte list \<Rightarrow> u64 \<times> bool" where
  "memtoll p =
     (let n = (if p \<noteq> [] \<and> hd p = 45 then 1 + length (takeWhile isdigit (tl p))
               else length (takeWhile isdigit p));
          u = map tolower (drop n p);
          (mul, err) =
            (if u = [] \<or> u = [98] then (1, False)
             else if u = [107] then (1000, False)
             else if u = [107, 98] then (1024, False)
             else if u = [109] then (1000 * 1000, False)
             else if u = [109, 98] then (1024 * 1024, False)
             else if u = [103] then (1000 * 1000 * 1000, False)
             else if u = [103, 98] then (1024 * 1024 * 1024, False)
             else (1, True))
      in if n \<ge> 128 then (2 ^ 63 - 1, True)
         else (word_of_int (strtoll10 (take n p)) * mul, err))"

section \<open>Integers and strings\<close>

text \<open>\<open>do { *p-- = '0'+(v%10); v /= 10; } while(v)\<close>\<close>

function ll2string_loop :: "u64 \<Rightarrow> byte list \<Rightarrow> byte list" where
  "ll2string_loop v p =
     (let p = (48 + ucast (v mod 10)) # p; v = v div 10
      in if v = 0 then p else ll2string_loop v p)"
  by pat_completeness auto
termination
proof (relation "measure (\<lambda>(v, p). unat v)")
  fix v xa :: u64 and p x
  assume "x = (48 + ucast (v mod 10)) # p" and xa: "xa = v div 10" "xa \<noteq> 0"
  have eq: "unat xa = unat v div 10" by (simp add: xa(1) unat_div)
  have nz: "unat xa \<noteq> 0" using xa(2) by (simp only: unat_eq_0 not_False_eq_True)
  have "0 < unat v" using nz unfolding eq by (metis bot_nat_0.not_eq_extremum div_0)
  then have "unat xa < unat v" unfolding eq by simp
  then show "((xa, x), (v, p)) \<in> measure (\<lambda>(v, p). unat v)" by simp
qed simp

declare ll2string_loop.simps [simp del]

text \<open>The bytes written to \<open>s\<close> and the returned length; a \<open>long long\<close> is its 64 bits.\<close>

definition ll2string :: "nat \<Rightarrow> u64 \<Rightarrow> byte list \<times> nat" where
  "ll2string len value =
     (if len = 0 then ([], 0)
      else (let v = (if sint value < 0 then - value else value);
                p = ll2string_loop v [];
                p = (if sint value < 0 then 45 # p else p);
                l = length p;
                l = (if l + 1 > len then len - 1 else l)
            in (take l p @ [0], l)))"

text \<open>The digits after the first: \<open>None\<close> on overflow; the bytes not used remain.\<close>

fun string2ll_loop :: "u64 \<Rightarrow> byte list \<Rightarrow> (u64 \<times> byte list) option" where
  "string2ll_loop v [] = Some (v, [])"
| "string2ll_loop v (c # p) =
     (if c \<ge> 48 \<and> c \<le> 57 then
        (if v > (2 ^ 64 - 1) div 10 then None
         else (let v = v * 10 in
           if v > (2 ^ 64 - 1) - (ucast c - 48) then None
           else string2ll_loop (v + (ucast c - 48)) p))
      else Some (v, c # p))"

definition string2ll :: "byte list \<Rightarrow> u64 option" where
  "string2ll s =
     (if s = [] then None
      else if length s = 1 \<and> hd s = 48 then Some 0
      else
        let negative = (hd s = 45); p = (if negative then tl s else s) in
        if p = [] then None
        else if hd p \<ge> 49 \<and> hd p \<le> 57 then do {
          (v, p) \<leftarrow> string2ll_loop (ucast (hd p) - 48) (tl p);
          if p \<noteq> [] then None
          else if negative then (if v > 2 ^ 63 then None else Some (- v))
          else (if v > 2 ^ 63 - 1 then None else Some v)
        }
        else None)"

definition string2l :: "byte list \<Rightarrow> u64 option" where
  "string2l s = do {
     llval \<leftarrow> string2ll s;
     if sint llval < - (2 ^ 63) \<or> sint llval > 2 ^ 63 - 1 then None else Some llval
   }"

subsection \<open>The decimal string of a number\<close>

fun dec :: "nat \<Rightarrow> byte list" where
  "dec n = (if n < 10 then [48 + of_nat n] else dec (n div 10) @ [48 + of_nat (n mod 10)])"

declare dec.simps [simp del]

definition idec :: "int \<Rightarrow> byte list" where
  "idec i = (if i < 0 then 45 # dec (nat (- i)) else dec (nat i))"

lemma dec_not_Nil [simp]: "dec n \<noteq> []"
  by (subst dec.simps) simp

lemma ll2string_loop_dec: "ll2string_loop v p = dec (unat v) @ p"
proof (induction v p rule: ll2string_loop.induct)
  case (1 v p)
  have d: "ucast (v mod 10) = (of_nat (unat v mod 10) :: byte)"
  proof -
    have "ucast (v mod 10) = (of_nat (unat (v mod 10)) :: byte)" by simp
    also have "unat (v mod 10) = unat v mod 10" by (simp add: unat_mod)
    finally show ?thesis .
  qed
  have z: "v div 10 = 0 \<longleftrightarrow> unat v < 10"
  proof -
    have "v div 10 = 0 \<longleftrightarrow> unat v div 10 = 0" using unat_eq_0 [of "v div 10"] by (simp add: unat_div)
    then show ?thesis by (simp add: div_eq_0_iff)
  qed
  show ?case
  proof (cases "v div 10 = 0")
    case True
    then have "unat v < 10" using z by simp
    then show ?thesis using True d by (simp add: ll2string_loop.simps [of v] dec.simps [of "unat v"])
  next
    case False
    then have "\<not> unat v < 10" using z by simp
    then show ?thesis using False d "1.IH" [OF refl refl False]
      by (simp add: ll2string_loop.simps [of v] dec.simps [of "unat v"] unat_div)
  qed
qed


abbreviation dec_step :: "nat \<Rightarrow> byte \<Rightarrow> nat" where
  "dec_step v d \<equiv> v * 10 + (unat d - 48)"

lemma dec_step_ge: "v \<le> foldl dec_step v ds"
proof (induction ds arbitrary: v)
  case (Cons d ds)
  have "v \<le> dec_step v d" by simp
  also have "\<dots> \<le> foldl dec_step (dec_step v d) ds" by (rule Cons.IH)
  finally show ?case by simp
qed simp

lemma string2ll_loop_val:
  "string2ll_loop v p =
     (let n = foldl dec_step (unat v) (takeWhile isdigit p)
      in if n < 2 ^ 64 then Some (of_nat n, dropWhile isdigit p) else None)"
proof (induction v p rule: string2ll_loop.induct)
  case (1 v)
  have "unat v < 2 ^ 64" using unsigned_less [of v] by simp
  then show ?case by simp
next
  case (2 v c p)
  show ?case
  proof (cases "isdigit c")
    case False
    have "unat v < 2 ^ 64" using unsigned_less [of v] by simp
    then show ?thesis using False by (auto simp: isdigit_def)
  next
    case True
    define k where "k = unat c - 48"
    have kc: "48 \<le> unat c" "unat c \<le> 57" using True by (simp_all add: isdigit_def word_le_nat_alt)
    then have k9: "k \<le> 9" by (simp add: k_def)
    have uk: "unat (ucast c - 48 :: u64) = k"
    proof -
      have u: "unat (ucast c :: u64) = unat c" using kc by (simp add: unsigned_ucast_eq take_bit_nat_eq_self)
      moreover have "(48 :: u64) \<le> ucast c" using kc by (simp add: word_le_nat_alt u)
      ultimately show ?thesis by (simp add: unat_sub k_def)
    qed
    have over1: "v > (2 ^ 64 - 1) div 10 \<longleftrightarrow> unat v > 1844674407370955161"
      by (simp add: word_less_nat_alt)
    show ?thesis
    proof (cases "unat v > 1844674407370955161")
      case big: True
      have "2 ^ 64 \<le> dec_step (unat v) c" using big by simp
      then have "\<not> foldl dec_step (dec_step (unat v) c) (takeWhile isdigit p) < 2 ^ 64"
        using dec_step_ge [of "dec_step (unat v) c" "takeWhile isdigit p"] by linarith
      moreover have "string2ll_loop v (c # p) = None"
        using True big over1 by (simp add: isdigit_def)
      ultimately show ?thesis using True by (simp add: Let_def)
    next
      case small: False
      have m: "unat (v * 10) = unat v * 10" using small by (simp add: unat_mult_lem [THEN iffD1])
      have over2: "v * 10 > (2 ^ 64 - 1) - (ucast c - 48) \<longleftrightarrow> dec_step (unat v) c \<ge> 2 ^ 64"
      proof -
        have "(ucast c - 48 :: u64) \<le> 2 ^ 64 - 1" by (simp add: word_le_nat_alt uk) (use k9 in linarith)
        then have "unat ((2 ^ 64 - 1 :: u64) - (ucast c - 48)) = unat (2 ^ 64 - 1 :: u64) - unat (ucast c - 48 :: u64)"
          by (rule unat_sub)
        also have "\<dots> = 18446744073709551615 - k" unfolding uk by simp
        finally show ?thesis using k9 unfolding word_less_nat_alt m by (auto simp: k_def)
      qed
      show ?thesis
      proof (cases "dec_step (unat v) c \<ge> 2 ^ 64")
        case big: True
        then have "\<not> foldl dec_step (dec_step (unat v) c) (takeWhile isdigit p) < 2 ^ 64"
          using dec_step_ge [of "dec_step (unat v) c" "takeWhile isdigit p"] by linarith
        moreover have "string2ll_loop v (c # p) = None"
          using True small over1 big over2 kc by (simp add: isdigit_def Let_def)
        ultimately show ?thesis using True by (simp add: Let_def)
      next
        case fits: False
        have "unat (v * 10 + (ucast c - 48)) = dec_step (unat v) c"
          using fits m uk by (simp add: unat_add_lem [THEN iffD1] k_def)
        moreover have "string2ll_loop v (c # p) = string2ll_loop (v * 10 + (ucast c - 48)) p"
          using True small over1 fits over2 by (simp add: isdigit_def Let_def)
        moreover have "string2ll_loop (v * 10 + (ucast c - 48)) p =
           (let n = foldl dec_step (unat (v * 10 + (ucast c - 48))) (takeWhile isdigit p)
            in if n < 2 ^ 64 then Some (of_nat n, dropWhile isdigit p) else None)"
          using True small over1 fits over2 by (intro "2.IH") (auto simp: isdigit_def)
        ultimately show ?thesis using True by (simp add: Let_def)
      qed
    qed
  qed
qed


lemma dec_digits: "\<forall>d \<in> set (dec n). isdigit d"
proof (induction n rule: dec.induct)
  case (1 n)
  have "isdigit (48 + of_nat k)" if "k < 10" for k
  proof -
    have "unat (48 + of_nat k :: byte) = 48 + k" using that by (simp add: unat_word_ariths unsigned_of_nat take_bit_nat_eq_self)
    then show ?thesis using that by (simp add: isdigit_def word_le_nat_alt)
  qed
  then show ?case using "1" by (auto simp: dec.simps [of n])
qed

lemma dec_val_append: "dec_val (xs @ [d]) = dec_step (dec_val xs) d"
  by (simp add: dec_val_def)

lemma unat_digit: "k < 10 \<Longrightarrow> unat (48 + of_nat k :: byte) = 48 + k"
  by (simp add: unat_word_ariths unsigned_of_nat take_bit_nat_eq_self)

lemma dec_val_dec: "dec_val (dec n) = n"
proof (induction n rule: dec.induct)
  case (1 n)
  show ?case
  proof (cases "n < 10")
    case True
    then show ?thesis by (simp add: dec.simps [of n] dec_val_def unat_digit)
  next
    case False
    have "n mod 10 < 10" by simp
    then show ?thesis
      using False "1" by (simp add: dec.simps [of n] dec_val_append unat_digit del: of_nat_mod)
  qed
qed

lemma hd_dec: "n \<noteq> 0 \<Longrightarrow> hd (dec n) \<noteq> 48"
proof (induction n rule: dec.induct)
  case (1 n)
  show ?case
  proof (cases "n < 10")
    case True
    have "unat (48 + of_nat n :: byte) \<noteq> unat (48 :: byte)" using True "1.prems" by (simp add: unat_digit)
    then show ?thesis using True by (auto simp: dec.simps [of n])
  next
    case False
    then show ?thesis using "1.IH" by (simp add: dec.simps [of n])
  qed
qed

text \<open>Digits without a leading zero are the decimal string of their value.\<close>

lemma dec_dec_val:
  assumes "ds \<noteq> []" "\<forall>d \<in> set ds. isdigit d" "hd ds \<noteq> 48"
  shows "dec (dec_val ds) = ds \<and> dec_val ds \<noteq> 0"
  using assms
proof (induction ds rule: rev_induct)
  case (snoc d ds)
  have d: "48 \<le> unat d" "unat d \<le> 57" using snoc.prems(2) by (simp_all add: isdigit_def word_le_nat_alt)
  have dd: "48 + of_nat (unat d - 48) = d"
  proof -
    have "(48 + of_nat (unat d - 48) :: byte) = of_nat (48 + (unat d - 48))" by (simp only: of_nat_add of_nat_numeral)
    also have "\<dots> = d" using d(1) by simp
    finally show ?thesis .
  qed
  show ?case
  proof (cases "ds = []")
    case True
    then have "unat d \<noteq> 48" using snoc.prems(3) by (auto simp: word_unat_eq_iff)
    then show ?thesis using True d dd by (simp add: dec_val_def dec.simps [of "unat d - 48"])
  next
    case False
    then have ih: "dec (dec_val ds) = ds" "dec_val ds \<noteq> 0" using snoc by auto
    define n where "n = dec_step (dec_val ds) d"
    obtain k where k: "unat d - 48 = k" "k < 10" using d by auto
    have n: "\<not> n < 10" "n div 10 = dec_val ds" "n mod 10 = unat d - 48"
      unfolding n_def k(1) using ih(2) k(2) by simp_all
    have "dec n = ds @ [d]" using n dd ih(1) by (simp add: dec.simps [of n] del: of_nat_mod)
    then show ?thesis using n(1) by (simp add: dec_val_append flip: n_def)
  qed
qed simp

text \<open>Reading and writing agree: the accepted strings are exactly the canonical ones.\<close>

lemma length_dec: "n < 10 ^ Suc k \<Longrightarrow> length (dec n) \<le> Suc k"
proof (induction k arbitrary: n)
  case (Suc k)
  then have "n div 10 < 10 ^ Suc k" by (simp add: div_less_iff_less_mult mult.commute)
  then show ?case using Suc.IH [of "n div 10"] by (simp add: dec.simps [of n])
qed (simp add: dec.simps)

lemma length_idec: "- (2 ^ 63) \<le> i \<Longrightarrow> i < 2 ^ 63 \<Longrightarrow> length (idec i) \<le> 20"
  using length_dec [of "nat i" 18] length_dec [of "nat (- i)" 18]
  by (auto simp: idec_def nat_less_iff)

lemma sint_u64: "sint (v :: u64) = (if uint v < 2 ^ 63 then uint v else uint v - 2 ^ 64)"
proof -
  have b: "0 \<le> uint v" "uint v < 2 ^ 64" using unsigned_less [of v] by simp_all
  have g: "sint (word_of_int k :: u64) = k" if "- (2 ^ 63) \<le> k" "k < 2 ^ 63" for k
    using that by (simp add: signed_of_int signed_take_bit_int_eq_self)
  have e: "(word_of_int (uint v - 18446744073709551616) :: u64) = v" "(word_of_int (uint v) :: u64) = v" by simp_all
  have "sint v = uint v - 18446744073709551616" if "\<not> uint v < 2 ^ 63"
    using g [of "uint v - 18446744073709551616", unfolded e] that b by simp
  moreover have "sint v = uint v" if "uint v < 2 ^ 63"
    using g [of "uint v", unfolded e] that b(1) by linarith
  ultimately show ?thesis by simp
qed

lemma uint_uminus_u64: "v \<noteq> 0 \<Longrightarrow> uint (- v :: u64) = 18446744073709551616 - uint v"
proof -
  assume "v \<noteq> 0"
  then have "0 < uint v" using uint_0_iff [of v] by (simp add: order_less_le)
  moreover have "uint v < 2 ^ 64" using unsigned_less [of v] by simp
  ultimately have "uint (word_of_int (18446744073709551616 - uint v) :: u64) = 18446744073709551616 - uint v"
    by (simp only: unsigned_of_int) (simp add: take_bit_int_eq_self)
  moreover have "(word_of_int (18446744073709551616 - uint v) :: u64) = - v" by simp
  ultimately show ?thesis by metis
qed
lemma ll2string_idec:
  assumes "20 < len"
  shows "ll2string len v = (idec (sint v) @ [0], length (idec (sint v)))"
proof -
  have l: "length (dec n) \<le> 19" if "n \<le> 2 ^ 63" for n
    using that length_dec [of n 18] by simp
  have b: "0 \<le> uint v" "uint v < 2 ^ 64" using unsigned_less [of v] by simp_all
  show ?thesis
  proof (cases "sint v < 0")
    case True
    then have v: "uint v \<ge> 2 ^ 63" by (simp add: sint_u64 split: if_splits)
    then have "v \<noteq> 0" by auto
    then have "uint (- v) = - sint v" using v by (simp add: uint_uminus_u64 sint_u64)
    then have "unat (- v) = nat (- sint v)" by (metis nat_uint_eq)
    moreover have "nat (- sint v) \<le> 2 ^ 63" using v by (simp add: sint_u64)
    ultimately show ?thesis using True assms l [of "nat (- sint v)"]
      by (simp add: ll2string_def Let_def ll2string_loop_dec idec_def)
  next
    case False
    then have s: "sint v = uint v" "uint v < 2 ^ 63" using b by (simp_all add: sint_u64 split: if_splits)
    then have "unat v = nat (sint v)" "unat v \<le> 2 ^ 63" by (simp_all flip: nat_uint_eq)
    then show ?thesis using False assms l [of "unat v"]
      by (simp add: ll2string_def Let_def ll2string_loop_dec idec_def)
  qed
qed

lemma takeWhile_dec [simp]: "takeWhile isdigit (dec n) = dec n" "dropWhile isdigit (dec n) = []"
  using dec_digits [of n] by (simp_all add: takeWhile_eq_all_conv dropWhile_eq_Nil_conv)

lemma isdigit_minus [simp]: "\<not> isdigit 45"
  by (simp add: isdigit_def)

lemma dec_val_Cons: "dec_val (c # ds) = foldl dec_step (unat c - 48) ds"
  by (simp add: dec_val_def)

text \<open>\<open>string2ll\<close> after the sign: a first digit that is not zero, then the loop.\<close>

lemma string2ll_loop_first:
  assumes "p \<noteq> []" "49 \<le> hd p" "hd p \<le> 57"
  shows "string2ll_loop (ucast (hd p) - 48) (tl p) =
     (let n = dec_val (takeWhile isdigit p) in if n < 2 ^ 64 then Some (of_nat n, dropWhile isdigit p) else None)"
proof -
  obtain c q where p: "p = c # q" using assms(1) by (cases p) auto
  have c: "49 \<le> unat c" "unat c \<le> 57" "isdigit c" using assms(2,3) by (simp_all add: p isdigit_def word_le_nat_alt)
  have u: "unat (ucast c :: u64) = unat c" using c by (simp add: unsigned_ucast_eq take_bit_nat_eq_self)
  have "(48 :: u64) \<le> ucast c" using c by (simp add: word_le_nat_alt u)
  then have "unat (ucast c - 48 :: u64) = unat c - 48" by (simp add: unat_sub u)
  then show ?thesis using c(3) by (simp add: p string2ll_loop_val dec_val_Cons Let_def)
qed

lemma string2ll_idec: "string2ll (idec (sint v)) = Some v"
proof (cases "sint v = 0")
  case True
  then have "v = 0" by (metis signed_0 sint_u64 signed_word_eqI)
  then show ?thesis by (simp add: idec_def dec.simps string2ll_def)
next
  case False
  define n where "n = nat \<bar>sint v\<bar>"
  have n0: "n \<noteq> 0" using False by (simp add: n_def)
  have b: "0 \<le> uint v" "uint v < 2 ^ 64" using unsigned_less [of v] by simp_all
  have ub: "uint v < 2 ^ 63 \<Longrightarrow> unat v < 2 ^ 63" by (simp flip: nat_uint_eq)
  have nb: "n \<le> 2 ^ 63" "n = 2 ^ 63 \<Longrightarrow> sint v < 0"
    unfolding n_def using b ub by (auto simp: sint_u64 simp del: unsigned_greater_eq split: if_splits)
  obtain c q where d: "dec n = c # q" by (cases "dec n") auto
  have c: "49 \<le> c" "c \<le> 57" "c \<noteq> 45" "c \<noteq> 48"
  proof -
    have "isdigit c" "c \<noteq> 48" using dec_digits [of n] hd_dec [OF n0] by (simp_all add: d)
    then show "49 \<le> c" "c \<le> 57" "c \<noteq> 45" "c \<noteq> 48"
      by (auto simp: isdigit_def word_le_nat_alt word_unat_eq_iff)
  qed
  have loop: "string2ll_loop (ucast c - 48) q = Some (of_nat n, [])"
    using string2ll_loop_first [of "dec n"] c nb takeWhile_dec [of n] dec_val_dec [of n] by (simp add: d Let_def)
  show ?thesis
  proof (cases "sint v < 0")
    case True
    then have s: "idec (sint v) = 45 # c # q" using d by (simp add: idec_def n_def)
    have "(of_nat n :: u64) = - v"
    proof -
      have "int n = - sint v" using True by (simp add: n_def)
      then have "(of_int (int n) :: u64) = of_int (- sint v)" by simp
      then show ?thesis by simp
    qed
    moreover have "\<not> (of_nat n :: u64) > 9223372036854775808"
      using nb of_nat_u64_less [of 9223372036854775808 n] by simp
    ultimately show ?thesis using c loop by (simp add: s string2ll_def)
  next
    case pos: False
    then have s: "idec (sint v) = c # q" using d by (simp add: idec_def n_def)
    have "(of_nat n :: u64) = v"
    proof -
      have "int n = sint v" using pos by (simp add: n_def)
      then have "(of_int (int n) :: u64) = of_int (sint v)" by simp
      then show ?thesis by simp
    qed
    moreover have "\<not> (of_nat n :: u64) > 9223372036854775807"
      using nb pos of_nat_u64_less [of 9223372036854775807 n] by auto
    ultimately show ?thesis using c loop by (simp add: s string2ll_def)
  qed
qed

lemma string2ll_Some:
  assumes "string2ll s = Some v"
  shows "s = idec (sint v)"
proof (cases "length s = 1 \<and> hd s = 48")
  case True
  then have "s = [48]" by (cases s) auto
  moreover from this assms have "v = 0" by (simp add: string2ll_def)
  ultimately show ?thesis by (simp add: idec_def dec.simps)
next
  case False
  define neg where "neg = (hd s = 45)"
  define p where "p = (if neg then tl s else s)"
  have "s \<noteq> []" using assms by (auto simp: string2ll_def)
  then have s: "s = (if neg then 45 # p else p)" by (cases s) (auto simp: p_def neg_def)
  have p: "p \<noteq> []" "49 \<le> hd p" "hd p \<le> 57" and
    r: "do { (v, p) \<leftarrow> string2ll_loop (ucast (hd p) - 48) (tl p);
          if p \<noteq> [] then None
          else if neg then (if v > 2 ^ 63 then None else Some (- v))
          else (if v > 2 ^ 63 - 1 then None else Some v) } = Some v"
    using assms False \<open>s \<noteq> []\<close> unfolding string2ll_def Let_def neg_def [symmetric] p_def [symmetric]
    by (simp_all split: if_splits)
  define n where "n = dec_val (takeWhile isdigit p)"
  have n: "n < 2 ^ 64" "dropWhile isdigit p = []"
    using r by (auto simp: string2ll_loop_first [OF p] Let_def simp flip: n_def split: if_splits)
  then have dig: "\<forall>d \<in> set p. isdigit d" and pn: "dec_val p = n"
    by (auto simp: n_def dropWhile_eq_Nil_conv takeWhile_eq_all_conv [THEN iffD2])
  have "hd p \<noteq> 48" using p(2) by auto
  then have dn: "dec n = p" "n \<noteq> 0" using dec_dec_val [OF p(1) dig] pn by auto
  have un: "unat (of_nat n :: u64) = n" using n(1) by (intro unat_of_nat_u64) simp
  show ?thesis
  proof (cases neg)
    case True
    then have v: "v = - of_nat n" and "\<not> (of_nat n :: u64) > 9223372036854775808"
      using r n by (auto simp: string2ll_loop_first [OF p] Let_def simp flip: n_def split: if_splits)
    then have "n \<le> 2 ^ 63" using un by (simp add: word_less_nat_alt)
    moreover have "(of_nat n :: u64) \<noteq> 0" using un dn(2) by auto
    moreover have "uint (of_nat n :: u64) = int n" using un by (metis uint_nat)
    ultimately have "uint v = 2 ^ 64 - int n" "n \<le> 2 ^ 63" by (simp_all add: v uint_uminus_u64)
    then have "sint v = - int n" by (simp add: sint_u64)
    then show ?thesis using dn s True by (simp add: idec_def)
  next
    case pos: False
    then have v: "v = of_nat n" and "\<not> (of_nat n :: u64) > 9223372036854775807"
      using r n by (auto simp: string2ll_loop_first [OF p] Let_def simp flip: n_def split: if_splits)
    then have "n < 2 ^ 63" using un by (simp add: word_less_nat_alt)
    moreover have "uint v = int n" using un by (metis uint_nat v)
    ultimately have "sint v = int n" by (simp add: sint_u64)
    then show ?thesis using dn s pos by (simp add: idec_def)
  qed
qed

section \<open>What a pattern matches\<close>

text \<open>
  The patterns without classes, as a recursive definition: a star stands for any
  bytes, a question mark for one, a backslash makes the next byte literal.
\<close>

definition same_byte :: "bool \<Rightarrow> byte \<Rightarrow> byte \<Rightarrow> bool" where
  "same_byte nocase a b \<longleftrightarrow> (if nocase then tolower a = tolower b else a = b)"

function glob_spec :: "bool \<Rightarrow> byte list \<Rightarrow> byte list \<Rightarrow> bool" where
  "glob_spec nc p s =
     (case p of
        [] \<Rightarrow> s = []
      | c # p' \<Rightarrow>
          if c = 42 then (\<exists>k \<in> set [0..<Suc (length s)]. glob_spec nc p' (drop k s))
          else if c = 63 then s \<noteq> [] \<and> glob_spec nc p' (tl s)
          else if c = 92 \<and> p' \<noteq> [] then s \<noteq> [] \<and> same_byte nc (hd p') (hd s) \<and> glob_spec nc (tl p') (tl s)
          else s \<noteq> [] \<and> same_byte nc c (hd s) \<and> glob_spec nc p' (tl s))"
  by pat_completeness auto
termination by (relation "measure (\<lambda>(nc, p, s). length p)") (auto simp: less_Suc_eq_le)

declare glob_spec.simps [simp del]

lemma glob_spec_Nil [simp]: "glob_spec nc [] s = (s = [])"
  by (simp add: glob_spec.simps)

lemma glob_spec_star: "glob_spec nc (42 # p) s \<longleftrightarrow> (\<exists>k \<le> length s. glob_spec nc p (drop k s))"
  by (simp add: glob_spec.simps [of nc "42 # p"] less_Suc_eq_le Bex_def del: upt_Suc)

lemma glob_spec_star_star: "glob_spec nc (42 # 42 # p) s = glob_spec nc (42 # p) s"
proof -
  have "glob_spec nc (42 # 42 # p) s \<longleftrightarrow> (\<exists>k \<le> length s. \<exists>m \<le> length s - k. glob_spec nc p (drop (m + k) s))"
    by (simp add: glob_spec_star)
  also have "\<dots> \<longleftrightarrow> (\<exists>k \<le> length s. glob_spec nc p (drop k s))"
  proof
    assume "\<exists>k \<le> length s. \<exists>m \<le> length s - k. glob_spec nc p (drop (m + k) s)"
    then obtain k m where "k \<le> length s" "m \<le> length s - k" "glob_spec nc p (drop (m + k) s)" by blast
    then show "\<exists>k \<le> length s. glob_spec nc p (drop k s)" by (intro exI [of _ "m + k"]) simp
  next
    assume "\<exists>k \<le> length s. glob_spec nc p (drop k s)"
    then obtain k where "k \<le> length s" "glob_spec nc p (drop k s)" by blast
    then show "\<exists>k \<le> length s. \<exists>m \<le> length s - k. glob_spec nc p (drop (m + k) s)"
      by (intro exI [of _ k] conjI exI [of _ 0]) simp_all
  qed
  finally show ?thesis by (simp add: glob_spec_star)
qed

lemma glob_spec_star_end: "glob_spec nc [42] s"
  by (auto simp: glob_spec_star)

lemma glob_spec_empty: "glob_spec nc p [] \<longleftrightarrow> (\<forall>c \<in> set p. c = 42)"
proof (induction p)
  case (Cons c p)
  then show ?case by (cases "c = 42") (simp_all add: glob_spec_star, simp add: glob_spec.simps)
qed simp

text \<open>A star tries the rest of the pattern here, or after one more byte.\<close>

lemma glob_spec_star_step:
  "glob_spec nc (42 # p) s \<longleftrightarrow> glob_spec nc p s \<or> s \<noteq> [] \<and> glob_spec nc (42 # p) (tl s)"
proof -
  have "glob_spec nc (42 # p) s \<longleftrightarrow> glob_spec nc p s \<or> (\<exists>k. Suc k \<le> length s \<and> glob_spec nc p (drop (Suc k) s))"
    unfolding glob_spec_star by (metis drop0 le0 not0_implies_Suc)
  also have "(\<exists>k. Suc k \<le> length s \<and> glob_spec nc p (drop (Suc k) s)) \<longleftrightarrow> s \<noteq> [] \<and> glob_spec nc (42 # p) (tl s)"
    unfolding glob_spec_star by (cases s) auto
  finally show ?thesis .
qed

lemma glob_spec_one:
  "c \<noteq> 42 \<Longrightarrow> glob_spec nc (c # p) s \<longleftrightarrow> s \<noteq> [] \<and>
    (if c = 63 then glob_spec nc p (tl s)
     else if c = 92 \<and> p \<noteq> [] then same_byte nc (hd p) (hd s) \<and> glob_spec nc (tl p) (tl s)
     else same_byte nc c (hd s) \<and> glob_spec nc p (tl s))"
  by (simp add: glob_spec.simps [of nc "c # p"])

subsection \<open>The matcher finds what the pattern describes\<close>

text \<open>
  A string of the heap: its bytes, then a zero byte.  The pattern has no zero byte and
  no opening bracket.
\<close>

lemma peek_terminated:
  "i \<le> length P \<Longrightarrow> peek (P @ 0 # r) i = Some (if i < length P then P ! i else 0)"
  by (simp add: peek_def nth_append)

lemma strip_stars_end:
  assumes "i \<le> length P" "0 \<notin> set P"
  shows "\<exists>i'. strip_stars (P @ 0 # r) i (int (length P - i)) = Some (i', int (length P - i')) \<and>
    i' \<le> length P \<and> (i' = length P \<longleftrightarrow> (\<forall>c \<in> set (drop i P). c = 42))"
  using assms
proof (induction "length P - i" arbitrary: i rule: less_induct)
  case less
  show ?case
  proof (cases "i < length P")
    case False
    then show ?thesis using less.prems by (simp add: strip_stars.simps peek_terminated)
  next
    case True
    then have dr: "drop i P = P ! i # drop (Suc i) P" by (simp add: Cons_nth_drop_Suc)
    show ?thesis
    proof (cases "P ! i = 42")
      case star: True
      have lt: "length P - Suc i < length P - i" "Suc i \<le> length P" using True by simp_all
      obtain i' where "strip_stars (P @ 0 # r) (Suc i) (int (length P - Suc i)) = Some (i', int (length P - i'))"
        "i' \<le> length P" "i' = length P \<longleftrightarrow> (\<forall>c \<in> set (drop (Suc i) P). c = 42)"
        using less.hyps [OF lt less.prems(2)] by blast
      moreover have st: "strip_stars (P @ 0 # r) i n = strip_stars (P @ 0 # r) (Suc i) (n - 1)" for n
        using True star by (simp add: strip_stars.simps [of _ i] peek_terminated)
      moreover have "int (length P - i) - 1 = int (length P - Suc i)" using True by simp
      then have "strip_stars (P @ 0 # r) i (int (length P - i)) = strip_stars (P @ 0 # r) (Suc i) (int (length P - Suc i))"
        by (simp only: st)
      ultimately show ?thesis using star unfolding dr by (intro exI [of _ i']) (simp only: list.set ball_simps simp_thms)
    next
      case False
      then show ?thesis using True less.prems by (simp add: strip_stars.simps peek_terminated dr)
    qed
  qed
qed

lemma skip_stars_end:
  assumes "i < length P" "P ! i = 42" "0 \<notin> set P"
  shows "\<exists>i'. skip_stars (P @ 0 # r) i (int (length P - i)) = Some (i', int (length P - i')) \<and>
    i \<le> i' \<and> i' < length P \<and> P ! i' = 42 \<and> (Suc i' < length P \<longrightarrow> P ! Suc i' \<noteq> 42) \<and>
    (\<forall>nc s. glob_spec nc (drop i P) s = glob_spec nc (drop i' P) s)"
  using assms
proof (induction "length P - i" arbitrary: i rule: less_induct)
  case less
  have dr: "drop i P = 42 # drop (Suc i) P" using less.prems by (simp add: Cons_nth_drop_Suc flip: less.prems(2))
  have pk: "peek (P @ 0 # r) (Suc i) = Some (if Suc i < length P then P ! Suc i else 0)"
    using less.prems peek_terminated [of "Suc i" P r] by simp
  show ?case
  proof (cases "Suc i < length P \<and> P ! Suc i = 42")
    case True
    then have lt: "length P - Suc i < length P - i" "Suc i < length P" "P ! Suc i = 42" by auto
    obtain i' where i': "skip_stars (P @ 0 # r) (Suc i) (int (length P - Suc i)) = Some (i', int (length P - i'))"
      "Suc i \<le> i'" "i' < length P" "P ! i' = 42" "Suc i' < length P \<longrightarrow> P ! Suc i' \<noteq> 42"
      "\<forall>nc s. glob_spec nc (drop (Suc i) P) s = glob_spec nc (drop i' P) s"
      using less.hyps [OF lt less.prems(3)] by blast
    have "drop (Suc i) P = 42 # drop (Suc (Suc i)) P" using True by (simp add: Cons_nth_drop_Suc flip: conjunct2 [OF True])
    then have "glob_spec nc (drop i P) s = glob_spec nc (drop (Suc i) P) s" for nc s
      using glob_spec_star_star dr by simp
    moreover have st: "skip_stars (P @ 0 # r) i n = skip_stars (P @ 0 # r) (Suc i) (n - 1)" for n
      using True pk by (simp add: skip_stars.simps [of _ i])
    have "int (length P - i) - 1 = int (length P - Suc i)" using True by simp
    then have "skip_stars (P @ 0 # r) i (int (length P - i)) = skip_stars (P @ 0 # r) (Suc i) (int (length P - Suc i))"
      by (simp only: st)
    ultimately show ?thesis using i' by (intro exI [of _ i']) (simp only: Suc_leD simp_thms)
  next
    case False
    then have "skip_stars (P @ 0 # r) i (int (length P - i)) = Some (i, int (length P - i))"
      using pk by (simp add: skip_stars.simps [of _ i])
    then show ?thesis using less.prems False by auto
  qed
qed


text \<open>One byte of the pattern that is not a star.\<close>

lemma glob_one_spec:
  assumes "i < length P" "j \<le> length S" "0 \<notin> set P" "91 \<notin> set P" "P ! i \<noteq> 42"
  shows "\<exists>r. glob_one nc (P @ 0 # pr) i (int (length P - i)) (S @ 0 # sr) j (int (length S - j)) = Some r \<and>
    (case r of None \<Rightarrow> \<not> glob_spec nc (drop i P) (drop j S)
     | Some (i', pl', j', sl') \<Rightarrow> i \<le> i' \<and> i' < length P \<and> pl' = int (length P - i') \<and> j < length S \<and> j' = Suc j \<and>
         sl' = int (length S - j') \<and>
         glob_spec nc (drop i P) (drop j S) = glob_spec nc (drop (Suc i') P) (drop (Suc j) S))"
proof -
  have dr: "drop i P = P ! i # drop (Suc i) P" using assms(1) by (simp add: Cons_nth_drop_Suc)
  have b91: "P ! k \<noteq> 91" "P ! k \<noteq> 0" if "k < length P" for k using assms(3,4) that nth_mem by metis+
  have pk: "peek (P @ 0 # pr) k = Some (if k < length P then P ! k else 0)" if "k \<le> length P" for k
    using that by (rule peek_terminated)
  have sk: "peek (S @ 0 # sr) j = Some (if j < length S then S ! j else 0)"
    using assms(2) by (rule peek_terminated)
  have sn: "drop j S \<noteq> [] \<longleftrightarrow> j < length S" "j < length S \<Longrightarrow> hd (drop j S) = S ! j"
      "tl (drop j S) = drop (Suc j) S"
    using assms(2) by (auto simp: hd_drop_conv_nth tl_drop drop_Suc)
  have t0: "tolower a \<noteq> tolower 0" if "a \<noteq> 0" for a
  proof -
    have "tolower a \<noteq> 0"
    proof (cases "65 \<le> a \<and> a \<le> 90")
      case True
      then have "unat (a + 32) = unat a + 32" "0 < unat a"
        by (simp_all add: word_le_nat_alt unat_word_ariths)
      then have "a + 32 \<noteq> 0" by (metis add_eq_0_iff_both_eq_0 less_numeral_extra(3) unat_0)
      then show ?thesis using True by (simp add: tolower_def)
    qed (use that in \<open>auto simp: tolower_def\<close>)
    then show ?thesis by (simp add: tolower_def)
  qed
  have sb: "same_byte nc a 0 = False" if "a \<noteq> 0" for a using that t0 by (simp add: same_byte_def)
  show ?thesis
  proof (cases "P ! i = 63")
    case True
    then show ?thesis using assms sn pk [of i]
      by (auto simp: glob_one_def dr glob_spec_one of_nat_diff Let_def)
  next
    case False
    define i' where "i' = (if P ! i = 92 \<and> Suc i < length P then Suc i else i)"
    have i': "i \<le> i'" "i' < length P" "P ! i' \<noteq> 0" using assms(1) b91 by (auto simp: i'_def)
    define s0 where "s0 = (if j < length S then S ! j else 0)"
    have pl: "int (length P - i) \<ge> 2 \<longleftrightarrow> Suc i < length P" by auto
    have pl': "int (length P - i) - 1 = int (length P - Suc i)" using assms(1) by simp
    have sl: "j < length S \<Longrightarrow> int (length S - j) - 1 = int (length S - Suc j)" by simp
    have pki: "peek (P @ 0 # pr) i = Some (P ! i)" "peek (P @ 0 # pr) i' = Some (P ! i')"
      using pk [of i] pk [of i'] i' assms(1) by simp_all
    have g0: "glob_one nc (P @ 0 # pr) i (int (length P - i)) (S @ 0 # sr) j n =
       Some (if same_byte nc (P ! i') s0 then Some (i', int (length P - i'), Suc j, n - 1) else None)" for n
    proof (cases "P ! i = 92 \<and> Suc i < length P")
      case True
      then have i1: "i' = Suc i" by (simp add: i'_def)
      show ?thesis using True pki sk
        unfolding glob_one_def same_byte_def s0_def i1
        by (simp only: pl pl' bind.bind_lunit Let_def) simp
    next
      case nb: False
      then have i1: "i' = i" by (auto simp: i'_def)
      have c2: "(P ! i = 92 \<and> int (length P - i) \<ge> 2) = False" using nb pl by blast
      show ?thesis using pki sk False b91(1) [OF assms(1)]
        unfolding glob_one_def same_byte_def s0_def i1
        by (simp only: c2 bind.bind_lunit Let_def if_False case_prod_conv) simp
    qed
    have g: "glob_one nc (P @ 0 # pr) i (int (length P - i)) (S @ 0 # sr) j (int (length S - j)) =
       Some (if j < length S \<and> same_byte nc (P ! i') (S ! j)
             then Some (i', int (length P - i'), Suc j, int (length S - Suc j)) else None)"
      unfolding g0 s0_def using sl sb [OF i'(3)] by auto
    have s: "glob_spec nc (drop i P) (drop j S) \<longleftrightarrow>
        j < length S \<and> same_byte nc (P ! i') (S ! j) \<and> glob_spec nc (drop (Suc i') P) (drop (Suc j) S)"
    proof (cases "P ! i = 92 \<and> Suc i < length P")
      case True
      then have "i' = Suc i" "drop (Suc i) P \<noteq> []" "hd (drop (Suc i) P) = P ! Suc i" "tl (drop (Suc i) P) = drop (Suc (Suc i)) P"
        by (simp_all add: i'_def hd_drop_conv_nth, simp add: tl_drop drop_Suc)
      then show ?thesis using True sn assms(5) by (auto simp: dr glob_spec_one)
    next
      case nb: False
      then have "i' = i" "P ! i = 92 \<Longrightarrow> drop (Suc i) P = []" by (auto simp: i'_def)
      then show ?thesis using nb False sn assms(5) by (auto simp: dr glob_spec_one)
    qed
    show ?thesis unfolding g using s i' by auto
  qed
qed


lemma glob_ok:
  assumes "i \<le> length P" "j \<le> length S" "0 \<notin> set P" "91 \<notin> set P"
  shows "glob nc (P @ 0 # pr) i (int (length P - i)) (S @ 0 # sr) j (int (length S - j)) =
    Some (glob_spec nc (drop i P) (drop j S))"
  using assms(1,2)
proof (induction "length P - i" arbitrary: i j rule: less_induct)
  case less
  text \<open>The loop of a star at \<open>i' \<ge> i\<close>, by the claim for the pattern after it.\<close>
  have star: "glob_star nc (P @ 0 # pr) (Suc i') (int (length P - Suc i')) (S @ 0 # sr) j (int (length S - j)) =
      Some (glob_spec nc (42 # drop (Suc i') P) (drop j S))"
    if i': "i \<le> i'" "Suc i' < length P" "P ! Suc i' \<noteq> 42" and j: "j \<le> length S" for i' j
    using j
  proof (induction "length S - j" arbitrary: j)
    case 0
    then have "drop j S = []" by simp
    moreover have "\<not> glob_spec nc (42 # drop (Suc i') P) []"
      using i' by (simp add: glob_spec_empty) (metis Cons_nth_drop_Suc list.set_intros(1))
    ultimately show ?case using 0 by (simp add: glob_star.simps)
  next
    case (Suc n)
    then have j: "j < length S" by simp
    have lt: "length P - Suc i' < length P - i" using i' by simp
    have g: "glob nc (P @ 0 # pr) (Suc i') (int (length P - Suc i')) (S @ 0 # sr) j (int (length S - j)) =
        Some (glob_spec nc (drop (Suc i') P) (drop j S))"
      by (rule less.hyps [OF lt]) (use i' j in simp_all)
    have sj: "int (length S - j) - 1 = int (length S - Suc j)" "int (length S - j) \<noteq> 0" using j by simp_all
    have ih: "glob_star nc (P @ 0 # pr) (Suc i') (int (length P - Suc i')) (S @ 0 # sr) (Suc j) (int (length S - Suc j)) =
        Some (glob_spec nc (42 # drop (Suc i') P) (drop (Suc j) S))"
      by (rule Suc.hyps) (use Suc.hyps(2) j in simp_all)
    have "peek (S @ 0 # sr) j = Some (S ! j)" using j peek_terminated [of j S sr] by simp
    then have "glob_star nc (P @ 0 # pr) (Suc i') (int (length P - Suc i')) (S @ 0 # sr) j (int (length S - j)) =
        Some (glob_spec nc (drop (Suc i') P) (drop j S) \<or> glob_spec nc (42 # drop (Suc i') P) (drop (Suc j) S))"
      using sj(2) by (subst glob_star.simps) (simp only: g ih sj if_False bind.bind_lunit Suc_eq_plus1 [symmetric] split: if_splits, simp)
    moreover have "drop j S \<noteq> []" "tl (drop j S) = drop (Suc j) S" using j by (simp_all add: tl_drop drop_Suc)
    ultimately show ?case by (simp add: glob_spec_star_step [of nc _ "drop j S"])
  qed
  show ?case
  proof (cases "i < length P")
    case False
    then show ?thesis using less.prems by (auto simp: glob.simps)
  next
    case True
    then have pi: "int (length P - i) \<noteq> 0" by simp
    have pk: "peek (P @ 0 # pr) i = Some (P ! i)" using True peek_terminated [of i P pr] by simp
    show ?thesis
    proof (cases "P ! i = 42")
      case st: True
      obtain i' where i': "skip_stars (P @ 0 # pr) i (int (length P - i)) = Some (i', int (length P - i'))"
        "i \<le> i'" "i' < length P" "P ! i' = 42" "Suc i' < length P \<longrightarrow> P ! Suc i' \<noteq> 42"
        "\<forall>nc s. glob_spec nc (drop i P) s = glob_spec nc (drop i' P) s"
        using skip_stars_end [OF True st assms(3)] by blast
      have dr: "drop i' P = 42 # drop (Suc i') P" using i'(3,4) by (metis Cons_nth_drop_Suc)
      have sub: "int (length P - i') - 1 = int (length P - Suc i')" using i'(3) by simp
      have eq: "glob nc (P @ 0 # pr) i (int (length P - i)) (S @ 0 # sr) j (int (length S - j)) =
          (if int (length P - i') = 1 then Some True
           else glob_star nc (P @ 0 # pr) (Suc i') (int (length P - Suc i')) (S @ 0 # sr) j (int (length S - j)))"
        by (subst glob.simps) (simp only: pi pk st i'(1) if_False if_True bind.bind_lunit case_prod_conv sub Suc_eq_plus1 [symmetric] simp_thms)
      show ?thesis
      proof (cases "Suc i' < length P")
        case False
        then have "Suc i' = length P" using i'(3) by simp
        then show ?thesis unfolding eq using i'(6) dr glob_spec_star_end by simp
      next
        case lt: True
        then have "int (length P - i') \<noteq> 1" by simp
        then show ?thesis unfolding eq using star [OF i'(2) lt _ less.prems(2)] i'(5,6) lt dr by simp
      qed
    next
      case ns: False
      obtain r where r: "glob_one nc (P @ 0 # pr) i (int (length P - i)) (S @ 0 # sr) j (int (length S - j)) = Some r" and
        c: "case r of None \<Rightarrow> \<not> glob_spec nc (drop i P) (drop j S)
     | Some (i', pl', j', sl') \<Rightarrow> i \<le> i' \<and> i' < length P \<and> pl' = int (length P - i') \<and> j < length S \<and> j' = Suc j \<and>
         sl' = int (length S - j') \<and>
         glob_spec nc (drop i P) (drop j S) = glob_spec nc (drop (Suc i') P) (drop (Suc j) S)"
        using glob_one_spec [OF True less.prems(2) assms(3,4) ns] by blast
      show ?thesis
      proof (cases r)
        case None
        then show ?thesis using r c pi pk ns by (subst glob.simps) simp
      next
        case (Some q)
        obtain i' pl' j' sl' where q: "q = (i', pl', j', sl')" by (cases q) auto
        have c': "i \<le> i'" "i' < length P" "pl' = int (length P - i')" "j < length S" "j' = Suc j"
          "sl' = int (length S - Suc j)"
          "glob_spec nc (drop i P) (drop j S) = glob_spec nc (drop (Suc i') P) (drop (Suc j) S)"
          using c by (simp_all add: Some q)
        have sub: "pl' - 1 = int (length P - Suc i')" using c' by simp
        have eq: "glob nc (P @ 0 # pr) i (int (length P - i)) (S @ 0 # sr) j (int (length S - j)) =
            (if sl' = 0 then do { (i, pl) \<leftarrow> strip_stars (P @ 0 # pr) (Suc i') (int (length P - Suc i')); Some (pl = 0) }
             else glob nc (P @ 0 # pr) (Suc i') (int (length P - Suc i')) (S @ 0 # sr) j' sl')"
          by (subst glob.simps)
            (simp only: pi pk ns r Some q sub if_False bind.bind_lunit case_prod_conv option.case Suc_eq_plus1 [symmetric])
        show ?thesis
        proof (cases "sl' = 0")
          case True
          then have "drop (Suc j) S = []" using c' by simp
          moreover obtain i2 where "strip_stars (P @ 0 # pr) (Suc i') (int (length P - Suc i')) = Some (i2, int (length P - i2))"
            "i2 \<le> length P" "i2 = length P \<longleftrightarrow> (\<forall>c \<in> set (drop (Suc i') P). c = 42)"
            using strip_stars_end [OF Suc_leI [OF c'(2)] assms(3)] by blast
          ultimately show ?thesis unfolding eq using True c'(7) by (auto simp: glob_spec_empty)
        next
          case False
          have lt: "length P - Suc i' < length P - i" using c' by simp
          have "glob nc (P @ 0 # pr) (Suc i') (int (length P - Suc i')) (S @ 0 # sr) (Suc j) (int (length S - Suc j)) =
              Some (glob_spec nc (drop (Suc i') P) (drop (Suc j) S))"
            by (rule less.hyps [OF lt]) (use c' in simp_all)
          then show ?thesis unfolding eq using False c' by simp
        qed
      qed
    qed
  qed
qed

section \<open>Properties\<close>

text \<open>
  C17: parsing and printing integers agree exactly: \<open>string2ll\<close> accepts a string if and only
  if it is the text \<open>ll2string\<close> writes for the value, so signs, leading zeros, spaces and
  overflow are all rejected.
\<close>

theorem string2ll_ll2string:
  "string2ll s = Some v \<longleftrightarrow> ll2string 32 v = (s @ [0], length s)"
proof
  assume "string2ll s = Some v"
  then have "s = idec (sint v)" by (rule string2ll_Some)
  then show "ll2string 32 v = (s @ [0], length s)" by (simp add: ll2string_idec)
next
  assume "ll2string 32 v = (s @ [0], length s)"
  then have "s = idec (sint v)" by (simp add: ll2string_idec)
  then show "string2ll s = Some v" by (simp add: string2ll_idec)
qed

lemma matchlen_glob:
  assumes "0 \<notin> set p" and "91 \<notin> set p"
  shows "stringmatchlen (p @ [0]) (int (length p)) (s @ [0]) (int (length s)) nocase = Some (glob_spec nocase p s)"
  using glob_ok [of 0 p 0 s nocase "[]" "[]"] assms by (simp add: stringmatchlen_def)

text \<open>
  C18: on zero-terminated strings, a pattern without classes matches exactly what its stars,
  question marks and escapes describe, in both case modes; the matcher never reads outside
  the strings.
\<close>

theorem stringmatchlen_spec:
  assumes "0 \<notin> set p" and "91 \<notin> set p"
  shows "stringmatchlen (p @ [0]) (int (length p)) (s @ [0]) (int (length s)) nocase = Some (glob_spec nocase p s)"
  using assms by (rule matchlen_glob)

theorem stringmatchlen_spec_witness:
  "stringmatchlen ([97, 42, 99] @ [0]) 3 ([65, 98, 98, 67] @ [0]) 4 True = Some (glob_spec True [97, 42, 99] [65, 98, 98, 67])"
  using stringmatchlen_spec [of "[97, 42, 99]" "[65, 98, 98, 67]" True] by simp

text \<open>
  with a class the matcher can read past the end of the string: the negated class
  \<open>[^a]b\<close> against the empty string consumes the terminator and compares the byte after it.
\<close>

theorem stringmatchlen_class_overread:
  "stringmatchlen ([91, 94, 97, 93, 98] @ [0]) 5 ([] @ [0]) 0 nocase = None"
  by (simp add: stringmatchlen_def glob.simps glob_one_def peek_def glob_class.simps tolower_def Let_def)

end
