(* ===== verification/Object.thy ===== *)
theory Object
  imports Util
begin

text \<open>
  String objects of \<open>redis/src/object.c\<close>: reference counts, the integer encoding and the
  shared integers, comparison, and conversion to numbers.  Objects live in a store
  addressed by pointers; a panic, a failed assertion or the use of a freed object is
  \<open>None\<close>.
\<close>

section \<open>Data\<close>

text \<open>\<open>encoding\<close> and \<open>ptr\<close> of an object of type \<open>REDIS_STRING\<close>.\<close>

datatype str_enc = ENC_RAW "byte list" | ENC_INT u64

record robj =
  o_str :: str_enc
  o_refcount :: int
  o_lru :: nat

record store =
  so_objs :: "nat \<Rightarrow> robj option"
  so_next :: nat
  so_lruclock :: nat
  so_maxmemory :: nat
  so_shared :: "nat \<Rightarrow> nat"

abbreviation REDIS_SHARED_INTEGERS :: nat where "REDIS_SHARED_INTEGERS \<equiv> 10000"
abbreviation REDIS_LRU_CLOCK_MAX :: nat where "REDIS_LRU_CLOCK_MAX \<equiv> 2097151"
abbreviation REDIS_LRU_CLOCK_RESOLUTION :: nat where "REDIS_LRU_CLOCK_RESOLUTION \<equiv> 10"

section \<open>Reference counts\<close>

definition createObject :: "str_enc \<Rightarrow> store \<Rightarrow> nat \<times> store" where
  "createObject v st =
     (let a = so_next st
      in (a, st\<lparr>so_objs := (so_objs st)(a \<mapsto> \<lparr>o_str = v, o_refcount = 1, o_lru = so_lruclock st\<rparr>),
                so_next := Suc a\<rparr>))"

definition createStringObject :: "byte list \<Rightarrow> store \<Rightarrow> nat \<times> store" where
  "createStringObject s st = createObject (ENC_RAW s) st"

definition set_obj :: "nat \<Rightarrow> robj \<Rightarrow> store \<Rightarrow> store" where
  "set_obj a v st = st\<lparr>so_objs := (so_objs st)(a \<mapsto> v)\<rparr>"

definition incrRefCount :: "nat \<Rightarrow> store \<Rightarrow> store option" where
  "incrRefCount a st = do {
     obj \<leftarrow> so_objs st a;
     Some (set_obj a (obj\<lparr>o_refcount := o_refcount obj + 1\<rparr>) st)
   }"

definition decrRefCount :: "nat \<Rightarrow> store \<Rightarrow> store option" where
  "decrRefCount a st = do {
     obj \<leftarrow> so_objs st a;
     if o_refcount obj \<le> 0 then None
     else if o_refcount obj = 1 then Some (st\<lparr>so_objs := (so_objs st)(a := None)\<rparr>)
     else Some (set_obj a (obj\<lparr>o_refcount := o_refcount obj - 1\<rparr>) st)
   }"

definition resetRefCount :: "nat \<Rightarrow> store \<Rightarrow> store option" where
  "resetRefCount a st = do { obj \<leftarrow> so_objs st a; Some (set_obj a (obj\<lparr>o_refcount := 0\<rparr>) st) }"

text \<open>A \<open>long long\<close> always fits a \<open>long\<close> here, so the last branch is never taken.\<close>

definition createStringObjectFromLongLong :: "u64 \<Rightarrow> store \<Rightarrow> (nat \<times> store) option" where
  "createStringObjectFromLongLong value st =
     (if sint value \<ge> 0 \<and> sint value < int REDIS_SHARED_INTEGERS then do {
        let a = so_shared st (nat (sint value));
        st \<leftarrow> incrRefCount a st;
        Some (a, st)
      }
      else if sint value \<ge> - (2 ^ 63) \<and> sint value \<le> 2 ^ 63 - 1 then Some (createObject (ENC_INT value) st)
      else Some (createObject (ENC_RAW (idec (sint value))) st))"

definition dupStringObject :: "nat \<Rightarrow> store \<Rightarrow> (nat \<times> store) option" where
  "dupStringObject a st = do {
     obj \<leftarrow> so_objs st a;
     case o_str obj of ENC_RAW s \<Rightarrow> Some (createStringObject s st) | ENC_INT _ \<Rightarrow> None
   }"

section \<open>Encodings\<close>

definition isObjectRepresentableAsLongLong :: "str_enc \<Rightarrow> u64 option" where
  "isObjectRepresentableAsLongLong v = (case v of ENC_INT n \<Rightarrow> Some n | ENC_RAW s \<Rightarrow> string2ll s)"

definition tryObjectEncoding :: "nat \<Rightarrow> store \<Rightarrow> (nat \<times> store) option" where
  "tryObjectEncoding a st = do {
     obj \<leftarrow> so_objs st a;
     case o_str obj of
       ENC_INT _ \<Rightarrow> Some (a, st)
     | ENC_RAW s \<Rightarrow>
         (if o_refcount obj > 1 then Some (a, st)
          else case string2l s of
            None \<Rightarrow> Some (a, st)
          | Some value \<Rightarrow>
              (if so_maxmemory st = 0 \<and> sint value \<ge> 0 \<and> sint value < int REDIS_SHARED_INTEGERS then do {
                 st \<leftarrow> decrRefCount a st;
                 let b = so_shared st (nat (sint value));
                 st \<leftarrow> incrRefCount b st;
                 Some (b, st)
               }
               else Some (a, set_obj a (obj\<lparr>o_str := ENC_INT value\<rparr>) st)))
   }"

text \<open>The string in a buffer that \<open>ll2string\<close> has filled.\<close>

definition ll2string_buf :: "nat \<Rightarrow> u64 \<Rightarrow> byte list" where
  "ll2string_buf n v = c_string (fst (ll2string n v))"

definition getDecodedObject :: "nat \<Rightarrow> store \<Rightarrow> (nat \<times> store) option" where
  "getDecodedObject a st = do {
     obj \<leftarrow> so_objs st a;
     case o_str obj of
       ENC_RAW _ \<Rightarrow> do { st \<leftarrow> incrRefCount a st; Some (a, st) }
     | ENC_INT v \<Rightarrow> Some (createStringObject (ll2string_buf 32 v) st)
   }"

section \<open>Comparison\<close>

text \<open>The sign of \<open>memcmp\<close> on the common prefix, and the comparisons built on it.\<close>

fun memcmp :: "byte list \<Rightarrow> byte list \<Rightarrow> int" where
  "memcmp (a # as) (b # bs) = (if a < b then - 1 else if a > b then 1 else memcmp as bs)"
| "memcmp _ _ = 0"

definition sdscmp :: "byte list \<Rightarrow> byte list \<Rightarrow> int" where
  "sdscmp s1 s2 =
     (let c = memcmp s1 s2 in if c = 0 then int (length s1) - int (length s2) else c)"

definition strcmp :: "byte list \<Rightarrow> byte list \<Rightarrow> int" where
  "strcmp s1 s2 = memcmp (c_string s1 @ [0]) (c_string s2 @ [0])"

text \<open>A raw string is given to \<open>strcmp\<close> with its terminator.\<close>

definition compareStringObjects :: "nat \<Rightarrow> nat \<Rightarrow> store \<Rightarrow> int option" where
  "compareStringObjects a b st = do {
     oa \<leftarrow> so_objs st a;
     ob \<leftarrow> so_objs st b;
     if a = b then Some 0
     else (case (o_str oa, o_str ob) of
         (ENC_RAW s1, ENC_RAW s2) \<Rightarrow> Some (sdscmp s1 s2)
       | (ENC_INT v1, ENC_RAW s2) \<Rightarrow> Some (strcmp (fst (ll2string 128 v1)) (s2 @ [0]))
       | (ENC_RAW s1, ENC_INT v2) \<Rightarrow> Some (strcmp (s1 @ [0]) (fst (ll2string 128 v2)))
       | (ENC_INT v1, ENC_INT v2) \<Rightarrow> Some (strcmp (fst (ll2string 128 v1)) (fst (ll2string 128 v2))))
   }"

definition equalStringObjects :: "nat \<Rightarrow> nat \<Rightarrow> store \<Rightarrow> bool option" where
  "equalStringObjects a b st = do {
     oa \<leftarrow> so_objs st a;
     ob \<leftarrow> so_objs st b;
     case (o_str oa, o_str ob) of
       (ENC_INT v1, ENC_INT v2) \<Rightarrow> Some (v1 = v2)
     | _ \<Rightarrow> map_option (\<lambda>c. c = 0) (compareStringObjects a b st)
   }"

definition stringObjectLen :: "str_enc \<Rightarrow> nat" where
  "stringObjectLen v = (case v of ENC_RAW s \<Rightarrow> length s | ENC_INT n \<Rightarrow> snd (ll2string 32 n))"

section \<open>Numbers\<close>

definition isspace :: "byte \<Rightarrow> bool" where
  "isspace c \<longleftrightarrow> c = 32 \<or> 9 \<le> c \<and> c \<le> 13"

text \<open>
  \<open>strtoll(s, &eptr, 10)\<close> on a terminated string: the value, the rest from \<open>eptr\<close> on, and
  whether \<open>errno\<close> is \<open>ERANGE\<close>.
\<close>

definition strtoll :: "byte list \<Rightarrow> int \<times> byte list \<times> bool" where
  "strtoll s =
     (let t = dropWhile isspace s;
          neg = (t \<noteq> [] \<and> hd t = 45);
          u = (if t \<noteq> [] \<and> (hd t = 45 \<or> hd t = 43) then tl t else t);
          ds = takeWhile isdigit u;
          v = (if neg then - int (dec_val ds) else int (dec_val ds))
      in if ds = [] then (0, s, False)
         else if v < - (2 ^ 63) then (- (2 ^ 63), dropWhile isdigit u, True)
         else if v > 2 ^ 63 - 1 then (2 ^ 63 - 1, dropWhile isdigit u, True)
         else (v, dropWhile isdigit u, False))"

definition getLongLongFromObject :: "str_enc option \<Rightarrow> u64 option" where
  "getLongLongFromObject ob =
     (case ob of
        None \<Rightarrow> Some 0
      | Some (ENC_INT v) \<Rightarrow> Some v
      | Some (ENC_RAW s) \<Rightarrow>
          (case strtoll (s @ [0]) of (value, eptr, erange) \<Rightarrow>
             if isspace (hd (s @ [0])) \<or> hd eptr \<noteq> 0 \<or> erange then None
             else Some (word_of_int value)))"

definition estimateObjectIdleTime :: "nat \<Rightarrow> nat \<Rightarrow> nat" where
  "estimateObjectIdleTime lruclock lru =
     (if lruclock \<ge> lru then (lruclock - lru) * REDIS_LRU_CLOCK_RESOLUTION
      else (REDIS_LRU_CLOCK_MAX - lru + lruclock) * REDIS_LRU_CLOCK_RESOLUTION)"

section \<open>The string an object stands for\<close>

definition str_bytes :: "str_enc \<Rightarrow> byte list" where
  "str_bytes v = (case v of ENC_RAW s \<Rightarrow> s | ENC_INT n \<Rightarrow> idec (sint n))"

lemma idec_no_zero: "0 \<notin> set (idec i)"
proof -
  have "\<not> isdigit 0" by (simp add: isdigit_def)
  then show ?thesis using dec_digits unfolding idec_def by (auto split: if_splits)
qed

lemma c_string_append_zero [simp]: "0 \<notin> set s \<Longrightarrow> c_string (s @ 0 # r) = s"
proof -
  assume "0 \<notin> set s"
  then have "\<forall>c \<in> set s. c \<noteq> 0" by metis
  then show ?thesis by (simp add: c_string_def)
qed

lemma ll2string_buf_eq: "20 < n \<Longrightarrow> ll2string_buf n v = idec (sint v)"
  by (simp add: ll2string_buf_def ll2string_idec idec_no_zero)

lemma str_bytes_INT_inj: "str_bytes (ENC_INT v) = str_bytes (ENC_INT w) \<longleftrightarrow> v = w"
  using string2ll_idec by (metis option.inject str_bytes_def str_enc.simps(6))

subsection \<open>Objects keep their strings\<close>

definition store_ok :: "store \<Rightarrow> bool" where
  "store_ok st \<longleftrightarrow> (\<forall>a \<ge> so_next st. so_objs st a = None) \<and>
     (\<forall>n < REDIS_SHARED_INTEGERS. \<exists>obj. so_objs st (so_shared st n) = Some obj \<and>
        o_str obj = ENC_INT (of_nat n) \<and> o_refcount obj \<ge> 1)"

definition obj_str :: "store \<Rightarrow> nat \<Rightarrow> str_enc option" where
  "obj_str st a = map_option o_str (so_objs st a)"

lemma obj_str_Some: "obj_str st a = Some v \<longleftrightarrow> (\<exists>obj. so_objs st a = Some obj \<and> o_str obj = v)"
  by (auto simp: obj_str_def)

lemma incrRefCount_ok:
  assumes "store_ok st" "so_objs st a = Some obj" "o_refcount obj \<ge> 0"
  shows "\<exists>st'. incrRefCount a st = Some st' \<and> store_ok st' \<and> obj_str st' = obj_str st \<and>
    so_objs st' a = Some (obj\<lparr>o_refcount := o_refcount obj + 1\<rparr>)"
proof -
  define st' where "st' = set_obj a (obj\<lparr>o_refcount := o_refcount obj + 1\<rparr>) st"
  have "incrRefCount a st = Some st'" using assms(2) by (simp add: incrRefCount_def st'_def)
  moreover have "store_ok st'"
    using assms by (fastforce simp: store_ok_def st'_def set_obj_def)
  moreover have "obj_str st' = obj_str st" using assms(2) by (auto simp: obj_str_def st'_def set_obj_def)
  ultimately show ?thesis by (simp add: st'_def set_obj_def)
qed

lemma createObject_ok:
  assumes "store_ok st"
  shows "\<exists>st'. createObject v st = (so_next st, st') \<and> store_ok st' \<and> obj_str st' = (obj_str st)(so_next st \<mapsto> v)"
proof -
  define st' where "st' = snd (createObject v st)"
  have f: "so_objs st (so_next st) = None" using assms by (simp add: store_ok_def)
  have "store_ok st'"
    unfolding store_ok_def
  proof (intro conjI allI impI)
    fix n assume "n < REDIS_SHARED_INTEGERS"
    then obtain obj where "so_objs st (so_shared st n) = Some obj" "o_str obj = ENC_INT (of_nat n)" "o_refcount obj \<ge> 1"
      using assms by (auto simp: store_ok_def)
    moreover from this(1) f have "so_shared st n \<noteq> so_next st" by auto
    ultimately show "\<exists>obj. so_objs st' (so_shared st' n) = Some obj \<and> o_str obj = ENC_INT (of_nat n) \<and> 1 \<le> o_refcount obj"
      by (simp add: st'_def createObject_def Let_def)
  qed (use assms in \<open>simp add: st'_def createObject_def Let_def store_ok_def\<close>)
  moreover have "obj_str st' = (obj_str st)(so_next st \<mapsto> v)"
    by (auto simp: obj_str_def st'_def createObject_def Let_def)
  ultimately show ?thesis by (simp add: st'_def createObject_def Let_def)
qed

lemma getDecodedObject_ok:
  assumes "store_ok st" "so_objs st a = Some obj" "o_refcount obj \<ge> 0"
  shows "\<exists>a' st'. getDecodedObject a st = Some (a', st') \<and> store_ok st' \<and>
    obj_str st' a' = Some (ENC_RAW (str_bytes (o_str obj))) \<and> (\<forall>b. b \<noteq> a' \<longrightarrow> obj_str st' b = obj_str st b)"
proof (cases "o_str obj")
  case (ENC_RAW s)
  obtain st' where st': "incrRefCount a st = Some st'" "store_ok st'" "obj_str st' = obj_str st"
    using incrRefCount_ok [OF assms] by blast
  moreover have "getDecodedObject a st = Some (a, st')"
    using assms(2) ENC_RAW st'(1) by (simp add: getDecodedObject_def)
  moreover have "obj_str st' a = Some (ENC_RAW s)" using st'(3) assms(2) ENC_RAW by (simp add: obj_str_def)
  ultimately show ?thesis using ENC_RAW by (simp add: str_bytes_def)
next
  case (ENC_INT v)
  then show ?thesis
    using createObject_ok [OF assms(1), of "ENC_RAW (idec (sint v))"] assms(2)
    by (auto simp: getDecodedObject_def createStringObject_def ll2string_buf_eq str_bytes_def)
qed

lemma uint_range_u64: "0 \<le> uint (v :: u64)" "uint (v :: u64) < 2 ^ 64"
  using unsigned_less [of v] by simp_all

lemma sint_range_u64: "- (2 ^ 63) \<le> sint (v :: u64) \<and> sint v \<le> 2 ^ 63 - 1"
proof (cases "uint v < 2 ^ 63")
  case True
  then show ?thesis using uint_range_u64 [of v] unfolding sint_u64 if_P [OF True] by (intro conjI; linarith)
next
  case False
  then show ?thesis using uint_range_u64 [of v] unfolding sint_u64 if_not_P [OF False] by simp
qed

lemma string2l_eq: "string2l s = string2ll s"
proof -
  have "\<not> sint (v :: u64) < - (2 ^ 63) \<and> \<not> sint v > 2 ^ 63 - 1" for v
    using sint_range_u64 [of v] by linarith
  then show ?thesis by (cases "string2ll s") (simp_all add: string2l_def)
qed

text \<open>Encoding changes the representation only, also when a shared integer is returned.\<close>

lemma tryObjectEncoding_ok:
  assumes st: "store_ok st" and obj: "so_objs st a = Some obj" "o_refcount obj \<ge> 1"
  shows "\<exists>a' st' v. tryObjectEncoding a st = Some (a', st') \<and> store_ok st' \<and>
    obj_str st' a' = Some v \<and> str_bytes v = str_bytes (o_str obj) \<and>
    (o_refcount obj = 1 \<longrightarrow> v = (case string2ll (str_bytes (o_str obj)) of Some n \<Rightarrow> ENC_INT n | None \<Rightarrow> o_str obj)) \<and>
    (\<forall>b. b \<noteq> a \<longrightarrow> obj_str st' b = obj_str st b)"
proof (cases "o_str obj")
  case (ENC_INT v)
  then show ?thesis
    using st obj by (intro exI [of _ a] exI [of _ st] exI [of _ "ENC_INT v"])
      (simp add: tryObjectEncoding_def obj_str_def str_bytes_def string2ll_idec)
next
  case (ENC_RAW s)
  show ?thesis
  proof (cases "o_refcount obj > 1 \<or> string2ll s = None")
    case True
    then show ?thesis
      using st obj ENC_RAW by (intro exI [of _ a] exI [of _ st] exI [of _ "ENC_RAW s"])
        (auto simp: tryObjectEncoding_def obj_str_def str_bytes_def string2l_eq)
  next
    case False
    then obtain n where n: "string2ll s = Some n" and one: "o_refcount obj = 1" using obj(2) by auto
    have s: "s = idec (sint n)" by (rule string2ll_Some [OF n])
    show ?thesis
    proof (cases "so_maxmemory st = 0 \<and> sint n \<ge> 0 \<and> sint n < int REDIS_SHARED_INTEGERS")
      case sh: True
      define k where "k = nat (sint n)"
      have k: "k < REDIS_SHARED_INTEGERS" "of_nat k = n"
      proof -
        have "int k = sint n" using sh by (simp add: k_def)
        then have "(of_int (int k) :: u64) = of_int (sint n)" by simp
        then show "of_nat k = n" by simp
      next
        show "k < REDIS_SHARED_INTEGERS" using sh unfolding k_def by linarith
      qed
      obtain sobj where sobj: "so_objs st (so_shared st k) = Some sobj" "o_str sobj = ENC_INT (of_nat k)" "o_refcount sobj \<ge> 1"
        using st k(1) by (auto simp: store_ok_def)
      have ne: "so_shared st j \<noteq> a" if "j < REDIS_SHARED_INTEGERS" for j
        using st that obj(1) ENC_RAW unfolding store_ok_def by fastforce
      define st1 where "st1 = st\<lparr>so_objs := (so_objs st)(a := None)\<rparr>"
      have d: "decrRefCount a st = Some st1" using obj(1) one by (simp add: decrRefCount_def st1_def)
      have st1: "store_ok st1" using st ne by (auto simp: store_ok_def st1_def)
      obtain st2 where st2: "incrRefCount (so_shared st k) st1 = Some st2" "store_ok st2" "obj_str st2 = obj_str st1"
        using incrRefCount_ok [OF st1, of "so_shared st k" sobj] sobj ne [OF k(1)] by (auto simp: st1_def)
      have "tryObjectEncoding a st = Some (so_shared st k, st2)"
        using obj(1) ENC_RAW one n sh d st2(1) by (simp add: tryObjectEncoding_def string2l_eq k_def st1_def)
      moreover have "obj_str st2 (so_shared st k) = Some (ENC_INT n)"
        using st2(3) sobj(1,2) ne [OF k(1)] k(2) by (simp add: obj_str_def st1_def)
      moreover have "\<forall>b. b \<noteq> a \<longrightarrow> obj_str st2 b = obj_str st b"
        using st2(3) by (simp add: obj_str_def st1_def)
      ultimately show ?thesis using st2(2) ENC_RAW s n by (auto simp: str_bytes_def)
    next
      case nsh: False
      define st1 where "st1 = set_obj a (obj\<lparr>o_str := ENC_INT n\<rparr>) st"
      have "tryObjectEncoding a st = Some (a, st1)"
        using obj(1) ENC_RAW one n nsh unfolding tryObjectEncoding_def string2l_eq st1_def by auto
      moreover have "store_ok st1"
        using st obj ENC_RAW unfolding store_ok_def st1_def set_obj_def by fastforce
      moreover have "obj_str st1 a = Some (ENC_INT n)" "\<forall>b. b \<noteq> a \<longrightarrow> obj_str st1 b = obj_str st b"
        by (auto simp: obj_str_def st1_def set_obj_def)
      ultimately show ?thesis using ENC_RAW s n by (auto simp: str_bytes_def)
    qed
  qed
qed

subsection \<open>Equality of objects is equality of strings\<close>

lemma memcmp_refl [simp]: "memcmp s s = 0"
  by (induction s) auto

lemma memcmp_zero: "memcmp a b = 0 \<longleftrightarrow> take (length b) a = take (length a) b"
  by (induction a b rule: memcmp.induct) auto

lemma sdscmp_zero: "sdscmp a b = 0 \<longleftrightarrow> a = b"
  by (auto simp: sdscmp_def Let_def memcmp_zero)

lemma memcmp_terminated:
  "0 \<notin> set a \<Longrightarrow> 0 \<notin> set b \<Longrightarrow> memcmp (a @ [0]) (b @ [0]) = 0 \<longleftrightarrow> a = b"
proof (induction a arbitrary: b)
  case Nil
  show ?case
  proof (cases b)
    case (Cons x l)
    then have "x \<noteq> 0" using Nil.prems(2) by auto
    then have "0 < x" by (simp only: word_neq_0_conv)
    then show ?thesis using Cons by simp
  qed simp
next
  case (Cons x a)
  then show ?case by (cases b) (auto intro: word_neq_0_conv [THEN iffD1])
qed

lemma strcmp_zero: "strcmp a b = 0 \<longleftrightarrow> c_string a = c_string b"
proof -
  have "0 \<notin> set (c_string s)" for s by (auto simp: c_string_def dest: set_takeWhileD)
  then show ?thesis by (simp add: strcmp_def memcmp_terminated)
qed

lemma ll2string_c: "c_string (fst (ll2string 128 v)) = idec (sint v)"
  by (simp add: ll2string_idec idec_no_zero)

lemma c_string_no_zero: "0 \<notin> set s \<Longrightarrow> c_string s = s"
  using c_string_append_zero [of s "[]"] by (simp add: c_string_def takeWhile_eq_all_conv) metis

lemma c_string_terminated: "c_string (s @ [0]) = c_string s"
  by (induction s) (simp_all add: c_string_def)

text \<open>One object is integer encoded and the other is not.\<close>

definition mixed :: "str_enc \<Rightarrow> str_enc \<Rightarrow> bool" where
  "mixed x y \<longleftrightarrow> (case (x, y) of (ENC_RAW _, ENC_INT _) \<Rightarrow> True | (ENC_INT _, ENC_RAW _) \<Rightarrow> True | _ \<Rightarrow> False)"

lemma equalStringObjects_ok:
  assumes a: "so_objs st a = Some oa" and b: "so_objs st b = Some ob"
  shows "equalStringObjects a b st = Some
    (str_bytes (o_str oa) = str_bytes (o_str ob) \<or> mixed (o_str oa) (o_str ob) \<and> c_string (str_bytes (o_str oa)) = c_string (str_bytes (o_str ob)))"
proof (cases "a = b")
  case True
  then show ?thesis using a b
    by (auto simp: equalStringObjects_def compareStringObjects_def split: str_enc.split)
next
  case False
  show ?thesis
    using False a b str_bytes_INT_inj
    by (cases "o_str oa"; cases "o_str ob")
      (auto simp: equalStringObjects_def compareStringObjects_def mixed_def sdscmp_zero strcmp_zero ll2string_c c_string_terminated
        str_bytes_def c_string_no_zero idec_no_zero)
qed
lemma stringObjectLen_ok: "stringObjectLen v = length (str_bytes v)"
  by (simp add: stringObjectLen_def str_bytes_def ll2string_idec split: str_enc.split)

section \<open>Properties\<close>

text \<open>
  C22: encoding a string object never changes the string it stands for: the object returned
  (the same, or a shared integer) has the string of the argument, a canonical number of an
  unshared object is always stored as an integer, and no other object changes.
\<close>

theorem try_object_encoding:
  assumes "store_ok st" "so_objs st a = Some obj" "o_refcount obj \<ge> 1"
  shows "\<exists>a' st' v. tryObjectEncoding a st = Some (a', st') \<and> store_ok st' \<and>
    obj_str st' a' = Some v \<and> str_bytes v = str_bytes (o_str obj) \<and>
    (o_refcount obj = 1 \<longrightarrow> v = (case string2ll (str_bytes (o_str obj)) of Some n \<Rightarrow> ENC_INT n | None \<Rightarrow> o_str obj)) \<and>
    (\<forall>b. b \<noteq> a \<longrightarrow> obj_str st' b = obj_str st b)"
  by (rule tryObjectEncoding_ok [OF assms])

text \<open>A store with the shared integers at the addresses from 0 on, and one string object.\<close>

definition small_store :: store where
  "small_store = \<lparr>so_objs = (\<lambda>a. if a < 10000 then Some \<lparr>o_str = ENC_INT (of_nat a), o_refcount = 1, o_lru = 0\<rparr>
       else if a = 10000 then Some \<lparr>o_str = ENC_RAW [52, 50], o_refcount = 1, o_lru = 0\<rparr> else None),
     so_next = 10001, so_lruclock = 0, so_maxmemory = 0, so_shared = id\<rparr>"

lemma small_store_ok: "store_ok small_store"
  by (simp add: store_ok_def small_store_def)

theorem try_object_encoding_witness:
  "\<exists>a' st' v. tryObjectEncoding 10000 small_store = Some (a', st') \<and> store_ok st' \<and>
    obj_str st' a' = Some v \<and> str_bytes v = [52, 50]"
proof -
  have "so_objs small_store 10000 = Some \<lparr>o_str = ENC_RAW [52, 50], o_refcount = 1, o_lru = 0\<rparr>"
    by (simp add: small_store_def)
  from try_object_encoding [OF small_store_ok this] show ?thesis by (auto simp: str_bytes_def)
qed

text \<open>
  C26: two string objects are equal objects exactly when they stand for the same bytes, for all encodings, but for
  one case: when one is integer encoded and the other is not, the strings are compared only up to the first
  zero byte.
\<close>

theorem equal_string_objects:
  assumes "so_objs st a = Some oa" and "so_objs st b = Some ob"
  shows "equalStringObjects a b st = Some
    (str_bytes (o_str oa) = str_bytes (o_str ob) \<or> mixed (o_str oa) (o_str ob) \<and> c_string (str_bytes (o_str oa)) = c_string (str_bytes (o_str ob)))"
  by (rule equalStringObjects_ok [OF assms])

text \<open>The same store with a string that has a zero byte.\<close>

definition zero_store :: store where
  "zero_store = small_store\<lparr>so_objs := (so_objs small_store)(10000 \<mapsto> \<lparr>o_str = ENC_RAW [52, 50, 0, 120], o_refcount = 1, o_lru = 0\<rparr>)\<rparr>"

theorem equal_string_objects_witness:
  "equalStringObjects 42 10000 small_store = Some (str_bytes (ENC_INT 42) = str_bytes (ENC_RAW [52, 50])) \<and>
   equalStringObjects 42 10000 zero_store = Some True \<and> equalStringObjects 42 42 zero_store = Some True"
proof -
  have i: "idec 42 = [52, 50]" by (simp add: idec_def dec.simps)
  have z: "so_objs zero_store 42 = Some \<lparr>o_str = ENC_INT 42, o_refcount = 1, o_lru = 0\<rparr>"
    "so_objs zero_store 10000 = Some \<lparr>o_str = ENC_RAW [52, 50, 0, 120], o_refcount = 1, o_lru = 0\<rparr>"
    by (simp_all add: zero_store_def small_store_def)
  show ?thesis
    using equal_string_objects [OF z] equal_string_objects [OF z(1) z(1)]
      equal_string_objects [of small_store 42 "\<lparr>o_str = ENC_INT 42, o_refcount = 1, o_lru = 0\<rparr>" 10000
        "\<lparr>o_str = ENC_RAW [52, 50], o_refcount = 1, o_lru = 0\<rparr>"]
    by (simp add: small_store_def str_bytes_def mixed_def i c_string_def)
qed

text \<open>
  The comparison is not binary safe when one object is integer encoded: a raw string
  with a zero byte equals the integer object of the digits before it, although the two
  strings differ (\<open>equalStringObjects\<close> is meant to compare strings).
\<close>

theorem equal_string_objects_zero_byte:
  "equalStringObjects 42 10000 zero_store = Some True \<and> str_bytes (ENC_INT 42) \<noteq> str_bytes (ENC_RAW [52, 50, 0, 120])"
proof -
  have i: "idec 42 = [52, 50]" by (simp add: idec_def dec.simps)
  have l: "ll2string 128 42 = ([52, 50, 0], 2)" using ll2string_idec [of 128 42] by (simp add: i)
  show ?thesis
    by (simp add: zero_store_def small_store_def equalStringObjects_def compareStringObjects_def l strcmp_def
        c_string_def str_bytes_def i)
qed

lemma takeWhile_dec_zero: "takeWhile isdigit (dec n @ 0 # r) = dec n" "dropWhile isdigit (dec n @ 0 # r) = 0 # r"
proof -
  have "\<not> isdigit 0" by (simp add: isdigit_def)
  moreover have "\<forall>d \<in> set (dec n). isdigit d" by (rule dec_digits)
  ultimately show "takeWhile isdigit (dec n @ 0 # r) = dec n" "dropWhile isdigit (dec n @ 0 # r) = 0 # r"
    by (simp_all add: takeWhile_append2 dropWhile_append2)
qed

lemma digit_not_space: "isdigit d \<Longrightarrow> \<not> isspace d \<and> d \<noteq> 45 \<and> d \<noteq> 43"
proof -
  assume "isdigit d"
  then have "48 \<le> unat d" by (simp add: isdigit_def word_le_nat_alt)
  then have "\<not> unat d \<le> 13" "unat d \<noteq> 32" "unat d \<noteq> 45" "unat d \<noteq> 43" by simp_all
  then show ?thesis by (auto simp: isspace_def word_le_nat_alt)
qed

lemma strtoll_idec:
  assumes "- (2 ^ 63) \<le> i" "i \<le> 2 ^ 63 - 1"
  shows "strtoll (idec i @ 0 # r) = (i, 0 # r, False) \<and> \<not> isspace (hd (idec i @ 0 # r))"
proof -
  obtain d ds where d: "dec (nat \<bar>i\<bar>) = d # ds" by (cases "dec (nat \<bar>i\<bar>)") auto
  then have dd: "\<not> isspace d" "d \<noteq> 45" "d \<noteq> 43" using dec_digits [of "nat \<bar>i\<bar>"] digit_not_space by auto
  have sp: "\<not> isspace 45" by (simp add: isspace_def)
  note tw = takeWhile_dec_zero [of "nat \<bar>i\<bar>" r, unfolded d] and dv = dec_val_dec [of "nat \<bar>i\<bar>", unfolded d]
  show ?thesis
  proof (cases "i < 0")
    case True
    then have "idec i = 45 # d # ds" using d by (simp add: idec_def)
    then show ?thesis using True tw dv sp assms by (simp add: strtoll_def Let_def)
  next
    case False
    then have "idec i = d # ds" using d by (simp add: idec_def)
    then show ?thesis using False tw dv dd assms by (simp add: strtoll_def Let_def)
  qed
qed

lemma c_string_split: "\<exists>r. s @ [0] = c_string s @ 0 # r"
  by (induction s) (auto simp: c_string_def)

lemma digits_split:
  assumes "0 \<notin> set u"
  shows "takeWhile isdigit (u @ 0 # r) = takeWhile isdigit u \<and> (hd (dropWhile isdigit (u @ 0 # r)) = 0 \<longleftrightarrow> list_all isdigit u)"
  using assms by (induction u) (auto simp: isdigit_def)

lemma takeWhile_all: "list_all P u \<Longrightarrow> takeWhile P u = u"
  by (induction u) auto

text \<open>An optional sign and digits, within the range of a \<open>long long\<close>.\<close>

definition numeral_of :: "byte list \<Rightarrow> int \<Rightarrow> bool" where
  "numeral_of t n \<longleftrightarrow>
     (let ds = (if t \<noteq> [] \<and> (hd t = 45 \<or> hd t = 43) then tl t else t)
      in ds \<noteq> [] \<and> list_all isdigit ds \<and>
         n = (if hd t = 45 then - int (dec_val ds) else int (dec_val ds)) \<and> - (2 ^ 63) \<le> n \<and> n < 2 ^ 63)"

lemma read_raw:
  "getLongLongFromObject (Some (ENC_RAW s)) = Some v \<longleftrightarrow>
     c_string s = [] \<and> v = 0 \<or> (\<exists>n. numeral_of (c_string s) n \<and> v = word_of_int n)"
proof -
  define t where "t = c_string s"
  have z: "0 \<notin> set t" by (auto simp: t_def c_string_def dest: set_takeWhileD)
  obtain r where r: "s @ [0] = t @ 0 # r" using c_string_split unfolding t_def by blast
  have z0: "\<not> isspace 0" "\<not> isdigit 0" by (simp_all add: isspace_def isdigit_def)
  show ?thesis unfolding t_def [symmetric]
  proof (cases t)
    case Nil
    then show "(getLongLongFromObject (Some (ENC_RAW s)) = Some v) = (t = [] \<and> v = 0 \<or> (\<exists>n. numeral_of t n \<and> v = word_of_int n))"
      using r z0 by (auto simp: getLongLongFromObject_def strtoll_def Let_def numeral_of_def)
  next
    case (Cons b bs)
    define u where "u = (if b = 45 \<or> b = 43 then bs else t)"
    have zu: "0 \<notin> set u" using z Cons by (auto simp: u_def)
    define ds where "ds = takeWhile isdigit u"
    define n where "n = (if b = 45 then - int (dec_val ds) else int (dec_val ds))"
    note d = digits_split [OF zu, of r]
    have hb: "b \<noteq> 0" using z Cons by auto
    show "(getLongLongFromObject (Some (ENC_RAW s)) = Some v) = (t = [] \<and> v = 0 \<or> (\<exists>n. numeral_of t n \<and> v = word_of_int n))"
    proof (cases "isspace b")
      case True
      have "\<not> numeral_of t m" for m
      proof
        assume "numeral_of t m"
        moreover have "b \<noteq> 45" "b \<noteq> 43" using True by (auto simp: isspace_def)
        ultimately have "isdigit b" using Cons by (simp add: numeral_of_def Let_def)
        then show False using digit_not_space True by blast
      qed
      then show ?thesis using True r Cons by (auto simp: getLongLongFromObject_def split: prod.split)
    next
      case False
      have st: "strtoll (s @ [0]) =
          (if ds = [] then (0, s @ [0], False)
           else if n < - (2 ^ 63) then (- (2 ^ 63), dropWhile isdigit (u @ 0 # r), True)
           else if n > 2 ^ 63 - 1 then (2 ^ 63 - 1, dropWhile isdigit (u @ 0 # r), True)
           else (n, dropWhile isdigit (u @ 0 # r), False))"
      proof -
        define w where "w = t @ 0 # r"
        have w: "dropWhile isspace w = w" "w \<noteq> []" "hd w = b" using False by (simp_all add: w_def Cons)
        have wu: "(if w \<noteq> [] \<and> (hd w = 45 \<or> hd w = 43) then tl w else w) = u @ 0 # r" by (simp add: w_def Cons u_def)
        have tu: "takeWhile isdigit (u @ 0 # r) = ds" using d by (simp add: ds_def)
        show ?thesis unfolding r w_def [symmetric] strtoll_def Let_def w(1) wu tu using w(2,3) by (simp add: n_def)
      qed
      have tl: "(if t \<noteq> [] \<and> (hd t = 45 \<or> hd t = 43) then tl t else t) = u" by (simp add: Cons u_def)
      have n': "list_all isdigit u \<Longrightarrow> (if hd t = 45 then - int (dec_val u) else int (dec_val u)) = n"
        by (simp only: n_def ds_def takeWhile_all [of isdigit u]) (simp add: Cons)
      have num: "numeral_of t m \<longleftrightarrow> u \<noteq> [] \<and> list_all isdigit u \<and> m = n \<and> - (2 ^ 63) \<le> n \<and> n < 2 ^ 63" for m
        unfolding numeral_of_def tl Let_def using n' by blast
      have e: "ds = [] \<Longrightarrow> list_all isdigit u \<Longrightarrow> u = []" by (simp only: ds_def takeWhile_all [of isdigit u])
      have e2: "u = [] \<Longrightarrow> ds = []" by (simp add: ds_def)
      show ?thesis unfolding num
        using False hb d e e2 st by (auto simp: getLongLongFromObject_def r Cons)
    qed
  qed
qed

text \<open>
  C27: which objects are read as integers, and as which.  A missing object is 0 and an integer encoded one its value.
  A raw string is read up to its first zero byte, bytes after it are ignored: when nothing is there it is 0,
  otherwise it must be an optional sign and digits, without spaces, of a number that fits a \<open>long long\<close>; every
  other string is an error.
\<close>

theorem long_long_from_object:
  "getLongLongFromObject ob = Some v \<longleftrightarrow>
     (case ob of
        None \<Rightarrow> v = 0
      | Some (ENC_INT w) \<Rightarrow> v = w
      | Some (ENC_RAW s) \<Rightarrow> c_string s = [] \<and> v = 0 \<or> (\<exists>n. numeral_of (c_string s) n \<and> v = word_of_int n))"
  using read_raw [of _ v] by (auto simp: getLongLongFromObject_def [of None] getLongLongFromObject_def [of "Some (ENC_INT _)"] split: option.split str_enc.split)

theorem long_long_from_object_witness:
  "getLongLongFromObject (Some (ENC_RAW [45, 49, 50, 0, 120])) = Some (- 12) \<and> getLongLongFromObject (Some (ENC_RAW [49, 32])) = None"
proof -
  have "numeral_of [45, 49, 50] (- 12)" by (simp add: numeral_of_def isdigit_def dec_val_def)
  moreover have "\<not> numeral_of [49, 32] n" for n by (simp add: numeral_of_def isdigit_def)
  ultimately show ?thesis
    using long_long_from_object [of "Some (ENC_RAW [45, 49, 50, 0, 120])" "- 12"] long_long_from_object [of "Some (ENC_RAW [49, 32])"]
    by (cases "getLongLongFromObject (Some (ENC_RAW [49, 32]))") (auto simp: c_string_def)
qed

end
