(* ===== verification/DictTypes.thy ===== *)
theory DictTypes
  imports Dict Object SetOps "HOL-Library.Signed_Division"
begin

text \<open>
  The dictionary types of \<open>redis/src/redis.c\<close>: the hash and comparison functions for sds
  and object keys, and the interpretations of the contract \<open>dict_keys\<close> on them.  The
  functions that resize and rehash the databases' dictionaries are here too.
\<close>

section \<open>Keys\<close>

definition dictSdsKeyCompare :: "byte list \<Rightarrow> byte list \<Rightarrow> bool" where
  "dictSdsKeyCompare key1 key2 =
     (if length key1 \<noteq> length key2 then False else memcmp key1 key2 = 0)"

definition dictSdsKeyCaseCompare :: "byte list \<Rightarrow> byte list \<Rightarrow> bool" where
  "dictSdsKeyCaseCompare key1 key2 = strcaseeq (key1 @ [0]) (key2 @ [0])"

definition dictSdsHash :: "u32 \<Rightarrow> byte list \<Rightarrow> u32" where
  "dictSdsHash seed key = dictGenHashFunction seed key"

definition dictSdsCaseHash :: "u32 \<Rightarrow> byte list \<Rightarrow> u32" where
  "dictSdsCaseHash seed key = dictGenCaseHashFunction seed key"

text \<open>An object key; the decoded copies are released again, so only their strings matter.\<close>

definition decoded_ptr :: "str_enc \<Rightarrow> byte list" where
  "decoded_ptr v = (case v of ENC_RAW s \<Rightarrow> s | ENC_INT n \<Rightarrow> ll2string_buf 32 n)"

definition dictEncObjKeyCompare :: "str_enc \<Rightarrow> str_enc \<Rightarrow> bool" where
  "dictEncObjKeyCompare o1 o2 =
     (case (o1, o2) of
        (ENC_INT v1, ENC_INT v2) \<Rightarrow> v1 = v2
      | _ \<Rightarrow> dictSdsKeyCompare (decoded_ptr o1) (decoded_ptr o2))"

definition dictEncObjHash :: "u32 \<Rightarrow> str_enc \<Rightarrow> u32" where
  "dictEncObjHash seed ob =
     (case ob of
        ENC_RAW s \<Rightarrow> dictGenHashFunction seed s
      | ENC_INT v \<Rightarrow> (case ll2string 32 v of (buf, len) \<Rightarrow> dictGenHashFunction seed (take len buf)))"

section \<open>Types\<close>

definition setDictType :: "u32 \<Rightarrow> (str_enc, 'v) dictType" where
  "setDictType seed = \<lparr>hashFunction = dictEncObjHash seed, keyDup = None, valDup = None,
     keyCompare = Some dictEncObjKeyCompare, keyDestructor = True, valDestructor = False\<rparr>"

definition zsetDictType :: "u32 \<Rightarrow> (str_enc, 'v) dictType" where
  "zsetDictType seed = \<lparr>hashFunction = dictEncObjHash seed, keyDup = None, valDup = None,
     keyCompare = Some dictEncObjKeyCompare, keyDestructor = True, valDestructor = False\<rparr>"

definition dbDictType :: "u32 \<Rightarrow> (byte list, 'v) dictType" where
  "dbDictType seed = \<lparr>hashFunction = dictSdsHash seed, keyDup = None, valDup = None,
     keyCompare = Some dictSdsKeyCompare, keyDestructor = True, valDestructor = True\<rparr>"

definition keyptrDictType :: "u32 \<Rightarrow> (byte list, 'v) dictType" where
  "keyptrDictType seed = \<lparr>hashFunction = dictSdsHash seed, keyDup = None, valDup = None,
     keyCompare = Some dictSdsKeyCompare, keyDestructor = False, valDestructor = False\<rparr>"

definition commandTableDictType :: "u32 \<Rightarrow> (byte list, 'v) dictType" where
  "commandTableDictType seed = \<lparr>hashFunction = dictSdsCaseHash seed, keyDup = None, valDup = None,
     keyCompare = Some dictSdsKeyCaseCompare, keyDestructor = True, valDestructor = False\<rparr>"

definition hashDictType :: "u32 \<Rightarrow> (str_enc, 'v) dictType" where
  "hashDictType seed = \<lparr>hashFunction = dictEncObjHash seed, keyDup = None, valDup = None,
     keyCompare = Some dictEncObjKeyCompare, keyDestructor = True, valDestructor = True\<rparr>"

section \<open>The contract of a dictionary type\<close>

lemma dictSdsKeyCompare_eq: "dictSdsKeyCompare a b \<longleftrightarrow> a = b"
  by (auto simp: dictSdsKeyCompare_def memcmp_zero)

lemma decoded_ptr_eq: "decoded_ptr v = str_bytes v"
  by (simp add: decoded_ptr_def str_bytes_def ll2string_buf_eq split: str_enc.split)

lemma dictEncObjKeyCompare_eq: "dictEncObjKeyCompare a b \<longleftrightarrow> str_bytes a = str_bytes b"
  using str_bytes_INT_inj
  by (auto simp: dictEncObjKeyCompare_def dictSdsKeyCompare_eq decoded_ptr_eq split: str_enc.split)

lemma dictEncObjHash_eq: "dictEncObjHash seed v = dictGenHashFunction seed (str_bytes v)"
  by (simp add: dictEncObjHash_def ll2string_idec str_bytes_def split: str_enc.split)

lemmas dict_type_defs = setDictType_def zsetDictType_def dbDictType_def keyptrDictType_def
  hashDictType_def dictCompareKeys_def dictSdsKeyCompare_eq dictEncObjKeyCompare_eq dictEncObjHash_eq

interpretation set_dict: dict_keys "setDictType seed :: (str_enc, 'v) dictType" for seed
  by unfold_locales (simp_all add: dict_type_defs)

interpretation zset_dict: dict_keys "zsetDictType seed :: (str_enc, 'v) dictType" for seed
  by unfold_locales (simp_all add: dict_type_defs)

interpretation db_dict: dict_keys "dbDictType seed :: (byte list, 'v) dictType" for seed
  by unfold_locales (simp_all add: dict_type_defs)

interpretation expires_dict: dict_keys "keyptrDictType seed :: (byte list, 'v) dictType" for seed
  by unfold_locales (simp_all add: dict_type_defs)

interpretation hash_dict: dict_keys "hashDictType seed :: (str_enc, 'v) dictType" for seed
  by unfold_locales (simp_all add: dict_type_defs)

section \<open>The case-insensitive command table\<close>

lemma case_hash_map: "dictGenCaseHashFunction_loop h k = dictGenHashFunction_loop h (map tolower k)"
  by (induction k arbitrary: h) simp_all

text \<open>Names without a zero byte that compare equal hash alike.\<close>

lemma command_hash_cong:
  assumes "0 \<notin> set a" "0 \<notin> set b" "dictSdsKeyCaseCompare a b"
  shows "dictSdsCaseHash seed a = dictSdsCaseHash seed b"
proof -
  have "map tolower a = map tolower b"
    using assms by (simp add: dictSdsKeyCaseCompare_def strcaseeq_def)
  then show ?thesis
    by (simp add: dictSdsCaseHash_def dictGenCaseHashFunction_def case_hash_map)
qed

section \<open>Resizing the databases\<close>

definition htNeedsResize :: "('k, 'v) dict \<Rightarrow> bool" where
  "htNeedsResize d =
     (let sz = sint (dictSlots d); used = sint (dictSize d)
      in sz \<noteq> 0 \<and> used \<noteq> 0 \<and> sz > 4 \<and> sint (word_of_int (used * 100) :: u64) sdiv sz < 10)"


text \<open>A database as the pair of its key and expires dictionaries; \<open>clock\<close> as in \<open>Dict\<close>.\<close>

fun tryResizeHashTables ::
  "'v dict_env \<Rightarrow> 'w dict_env \<Rightarrow> ((byte list, 'v) dict \<times> (byte list, 'w) dict) list \<Rightarrow>
    ((byte list, 'v) dict \<times> (byte list, 'w) dict) list option" where
  "tryResizeHashTables g g' [] = Some []"
| "tryResizeHashTables g g' ((d, ex) # dbs) = do {
     d \<leftarrow> (if htNeedsResize d then map_option fst (dictResize g d) else Some d);
     ex \<leftarrow> (if htNeedsResize ex then map_option fst (dictResize g' ex) else Some ex);
     dbs \<leftarrow> tryResizeHashTables g g' dbs;
     Some ((d, ex) # dbs)
   }"

fun incrementallyRehash ::
  "(byte list, 'v) dictType \<Rightarrow> (byte list, 'w) dictType \<Rightarrow> int list \<Rightarrow>
    ((byte list, 'v) dict \<times> (byte list, 'w) dict) list \<Rightarrow>
    ((byte list, 'v) dict \<times> (byte list, 'w) dict) list option" where
  "incrementallyRehash ty ty' clock [] = Some []"
| "incrementallyRehash ty ty' clock ((d, ex) # dbs) =
     (if dictIsRehashing d then do {
        (d, _) \<leftarrow> dictRehashMilliseconds ty d 1 clock;
        Some ((d, ex) # dbs)
      }
      else if dictIsRehashing ex then do {
        (ex, _) \<leftarrow> dictRehashMilliseconds ty' ex 1 clock;
        Some ((d, ex) # dbs)
      }
      else map_option (Cons (d, ex)) (incrementallyRehash ty ty' clock dbs))"

definition updateDictResizePolicy :: "int \<Rightarrow> int \<Rightarrow> 'v dict_env \<Rightarrow> 'v dict_env" where
  "updateDictResizePolicy rdb_child_pid aof_child_pid g =
     (if rdb_child_pid = - 1 \<and> aof_child_pid = - 1 then dictEnableResize g else dictDisableResize g)"

section \<open>A dictionary as a set\<close>

text \<open>
  The hash table of a set object: the elements are the keys, the values are \<open>NULL\<close>.  The
  three operations as \<open>t_set.c\<close> calls them.
\<close>

definition hashset_add ::
  "unit dict_env \<Rightarrow> u32 \<Rightarrow> (str_enc, unit) dict \<Rightarrow> str_enc \<Rightarrow> ((str_enc, unit) dict \<times> bool) option" where
  "hashset_add g seed d v = dictAdd g (setDictType seed) d v ()"

definition hashset_remove :: "u32 \<Rightarrow> (str_enc, unit) dict \<Rightarrow> str_enc \<Rightarrow> ((str_enc, unit) dict \<times> bool) option" where
  "hashset_remove seed d v = dictDelete (setDictType seed) d v"

definition hashset_member :: "u32 \<Rightarrow> (str_enc, unit) dict \<Rightarrow> str_enc \<Rightarrow> ((str_enc, unit) dict \<times> bool) option" where
  "hashset_member seed d v = do { (p, d) \<leftarrow> dictFind (setDictType seed) d v; Some (d, p \<noteq> None) }"

definition hashset_is :: "u32 \<Rightarrow> (str_enc, unit) dict \<Rightarrow> byte list set \<Rightarrow> bool" where
  "hashset_is seed d A \<longleftrightarrow> dict_ok (setDictType seed) d \<and> A = str_bytes ` e_key ` set (dict_entries d)"

lemma set_cmp [simp]: "dictCompareKeys (setDictType seed) a b \<longleftrightarrow> str_bytes a = str_bytes b"
  by (simp add: dict_type_defs)

lemma hashset_card:
  assumes "hashset_is seed d A"
  shows "card A = length (dict_entries d)"
proof -
  have "distinct (map (keyclass (setDictType seed :: (str_enc, unit) dictType) \<circ> e_key) (dict_entries d))"
    using assms by (simp add: hashset_is_def dict_ok_def distinct_keys_def)
  then have "distinct (map (str_bytes \<circ> e_key) (dict_entries d))"
    by (auto simp: distinct_map inj_on_def keyclass_def)
  then have "card (set (map (str_bytes \<circ> e_key) (dict_entries d))) = length (dict_entries d)"
    by (simp only: distinct_card length_map)
  moreover have "A = set (map (str_bytes \<circ> e_key) (dict_entries d))"
    using assms by (simp add: hashset_is_def image_comp)
  ultimately show ?thesis by simp
qed

lemma hashset_has_key: "hashset_is seed d A \<Longrightarrow> has_key (setDictType seed) d v \<longleftrightarrow> str_bytes v \<in> A"
  by (auto simp: hashset_is_def has_key_def)

interpretation hash_set: set_ops "hashset_is seed" str_bytes "\<lambda>_. True" 536870912
  "hashset_add g seed" "hashset_remove seed" "hashset_member seed" for seed g
proof
  let ?ty = "setDictType seed :: (str_enc, unit) dictType"
  fix s :: "(str_enc, unit) dict" and A :: "byte list set" and x :: str_enc
  assume r: "hashset_is seed s A"
  then have ok: "dict_ok ?ty s" by (simp add: hashset_is_def)
  note hk = hashset_has_key [OF r, of x]
  have A: "A = str_bytes ` e_key ` set_mset (mset (dict_entries s))" using r by (simp add: hashset_is_def)
  show "finite A" by (simp add: A)
  show "\<exists>s'. hashset_member seed s x = Some (s', str_bytes x \<in> A) \<and> hashset_is seed s' A"
  proof -
    obtain p d' where f: "dictFind ?ty s x = Some (p, d')" "dict_ok ?ty d'"
      "mset (dict_entries d') = mset (dict_entries s)" and
      c: "case p of None \<Rightarrow> \<forall>e \<in> set (dict_entries d'). \<not> dictCompareKeys ?ty x (e_key e)
       | Some q \<Rightarrow> \<exists>e. valid_ptr ?ty d' q x e"
      using set_dict.dictFind_ok [OF ok, of x] by blast
    have hs: "hashset_is seed d' A" using f(2,3) by (simp add: hashset_is_def A flip: set_mset_mset)
    have "p \<noteq> None \<longleftrightarrow> has_key ?ty d' x"
    proof (cases p)
      case (Some q)
      then obtain e where "fst q \<le> 1" "entry_at d' q = Some e" "dictCompareKeys ?ty x (e_key e)"
        using c by (auto simp: valid_ptr_def)
      then have "has_key ?ty d' x" using entry_at_entries [of q d' e] unfolding has_key_def by blast
      then show ?thesis using Some by simp
    qed (use c in \<open>simp add: has_key_def\<close>)
    then have "p \<noteq> None \<longleftrightarrow> str_bytes x \<in> A" using hashset_has_key [OF hs] by simp
    then show ?thesis using f(1) hs by (simp add: hashset_member_def)
  qed
  show "\<exists>s'. hashset_remove seed s x = Some (s', str_bytes x \<in> A) \<and> hashset_is seed s' (A - {str_bytes x})"
  proof -
    obtain d' where d': "dictDelete ?ty s x = Some (d', has_key ?ty s x)"
      "dict_ok ?ty d'" and
      c: "if has_key ?ty s x
     then \<exists>e. dictCompareKeys ?ty x (e_key e) \<and> mset (dict_entries d') + {#e#} = mset (dict_entries s) \<and>
       d_freed d' = d_freed s @ (if False then [] else freed_events ?ty e)
     else mset (dict_entries d') = mset (dict_entries s) \<and> d_freed d' = d_freed s"
      using set_dict.dictGenericDelete_ok [OF ok, of x False] unfolding dictDelete_def by blast
    have "str_bytes ` e_key ` set (dict_entries d') = A - {str_bytes x}"
    proof (cases "has_key ?ty s x")
      case False
      then show ?thesis using c hk by (simp add: A flip: set_mset_mset)
    next
      case True
      then obtain e where e: "str_bytes x = str_bytes (e_key e)" "mset (dict_entries d') + {#e#} = mset (dict_entries s)"
        using c by auto
      have "distinct_keys ?ty (e # dict_entries d')"
        using ok distinct_keys_mset [of "e # dict_entries d'" "dict_entries s"] e(2) by (simp add: dict_ok_def)
      then have "str_bytes (e_key y) \<noteq> str_bytes x" if "y \<in> set (dict_entries d')" for y
        using that e(1) by (fastforce simp: distinct_keys_def keyclass_def image_iff)
      then have "str_bytes x \<notin> str_bytes ` e_key ` set (dict_entries d')" by (metis (no_types, lifting) image_iff)
      moreover have "A = insert (str_bytes x) (str_bytes ` e_key ` set (dict_entries d'))"
        by (simp add: A e(1) flip: e(2))
      ultimately show ?thesis by simp
    qed
    then show ?thesis using d' hk by (simp add: hashset_remove_def hashset_is_def)
  qed
  assume "Suc (card A) \<le> 536870912"
  then have room: "length (dict_entries s) < 2 ^ 29" using hashset_card [OF r] by simp
  show "\<exists>s'. hashset_add g seed s x = Some (s', str_bytes x \<notin> A) \<and> hashset_is seed s' (insert (str_bytes x) A)"
  proof -
    obtain d' where d': "dictAdd g ?ty s x () = Some (d', \<not> has_key ?ty s x)"
      "dict_ok ?ty d'" and
      c: "if has_key ?ty s x then mset (dict_entries d') = mset (dict_entries s)
     else \<exists>e. dictCompareKeys ?ty x (e_key e) \<and> e_val e = stored_val ?ty () \<and>
       mset (dict_entries d') = mset (dict_entries s) + {#e#}"
      using set_dict.dictAdd_ok [OF ok room] by blast
    have "str_bytes ` e_key ` set (dict_entries d') = insert (str_bytes x) A"
    proof (cases "has_key ?ty s x")
      case True
      then have "str_bytes x \<in> A" using hk by simp
      moreover have "mset (dict_entries d') = mset (dict_entries s)" using c True by simp
      then have "str_bytes ` e_key ` set (dict_entries d') = A" by (simp add: A flip: set_mset_mset)
      ultimately show ?thesis by (simp add: insert_absorb)
    next
      case False
      then show ?thesis using c by (auto simp: A simp flip: set_mset_mset)
    qed
    then show ?thesis using d' hk by (simp add: hashset_add_def hashset_is_def)
  qed
qed

section \<open>Runs of keyspace operations\<close>

text \<open>
  A sequence of operations on a database's dictionary, rehashing steps of any size
  anywhere between them, against the same sequence on a finite map.
\<close>

datatype ('k, 'v) dict_cmd = CAdd 'k 'v | CReplace 'k 'v | CDelete 'k | CFetch 'k | CRehash nat

datatype 'v dict_ans = Flag bool | Value "'v option" | Done

fun dict_cmd_step :: "'v dict_env \<Rightarrow> ('k, 'v) dictType \<Rightarrow> ('k, 'v) dict \<Rightarrow> ('k, 'v) dict_cmd \<Rightarrow>
    (('k, 'v) dict \<times> 'v dict_ans) option" where
  "dict_cmd_step g ty d (CAdd k v) = map_option (map_prod id Flag) (dictAdd g ty d k v)"
| "dict_cmd_step g ty d (CReplace k v) = map_option (map_prod id Flag) (dictReplace g ty d k v)"
| "dict_cmd_step g ty d (CDelete k) = map_option (map_prod id Flag) (dictDelete ty d k)"
| "dict_cmd_step g ty d (CFetch k) = map_option (\<lambda>(v, d). (d, Value v)) (dictFetchValue ty d k)"
| "dict_cmd_step g ty d (CRehash n) = map_option (\<lambda>(d, _). (d, Done)) (dictRehash ty d n)"

primrec dict_run :: "'v dict_env \<Rightarrow> ('k, 'v) dictType \<Rightarrow> ('k, 'v) dict \<Rightarrow> ('k, 'v) dict_cmd list \<Rightarrow>
    (('k, 'v) dict \<times> 'v dict_ans list) option" where
  "dict_run g ty d [] = Some (d, [])"
| "dict_run g ty d (c # cs) = do {
     (d, r) \<leftarrow> dict_cmd_step g ty d c;
     (d, rs) \<leftarrow> dict_run g ty d cs;
     Some (d, r # rs)
   }"

fun map_step :: "('k \<rightharpoonup> 'v) \<Rightarrow> ('k, 'v) dict_cmd \<Rightarrow> ('k \<rightharpoonup> 'v) \<times> 'v dict_ans" where
  "map_step m (CAdd k v) = (if m k = None then (m(k \<mapsto> v), Flag True) else (m, Flag False))"
| "map_step m (CReplace k v) = (m(k \<mapsto> v), Flag (m k = None))"
| "map_step m (CDelete k) = (m(k := None), Flag (m k \<noteq> None))"
| "map_step m (CFetch k) = (m, Value (m k))"
| "map_step m (CRehash n) = (m, Done)"

primrec map_run :: "('k \<rightharpoonup> 'v) \<Rightarrow> ('k, 'v) dict_cmd list \<Rightarrow> ('k \<rightharpoonup> 'v) \<times> 'v dict_ans list" where
  "map_run m [] = (m, [])"
| "map_run m (c # cs) = (let (m, r) = map_step m c; (m, rs) = map_run m cs in (m, r # rs))"

lemma db_cmp [simp]: "dictCompareKeys (dbDictType seed) a b \<longleftrightarrow> a = b"
  by (simp add: dict_type_defs)

lemma db_stored_val [simp]: "stored_val (dbDictType seed) v = v"
  by (simp add: stored_val_def dbDictType_def)

lemma dict_cmd_refines:
  fixes d :: "(byte list, 'v) dict"
  assumes ok: "dict_ok (dbDictType seed) d" and room: "length (dict_entries d) < 2 ^ 29"
  shows "\<exists>d'. dict_cmd_step g (dbDictType seed) d c = Some (d', snd (map_step (dict_abs (dbDictType seed) d) c)) \<and>
    dict_ok (dbDictType seed) d' \<and> dict_abs (dbDictType seed) d' = fst (map_step (dict_abs (dbDictType seed) d) c) \<and>
    length (dict_entries d') \<le> Suc (length (dict_entries d))"
proof -
  let ?ty = "dbDictType seed :: (byte list, 'v) dictType"
  show ?thesis
proof (cases c)
  case (CAdd k v)
  obtain d' where "dictAdd g ?ty d k v = Some (d', dict_abs ?ty d k = None)" "dict_ok ?ty d'"
    "length (dict_entries d') = length (dict_entries d) + (if dict_abs ?ty d k = None then 1 else 0)"
    "\<forall>k'. dict_abs ?ty d' k' = (if dict_abs ?ty d k = None \<and> dictCompareKeys ?ty k' k
       then Some (stored_val ?ty v) else dict_abs ?ty d k')"
    using db_dict.dictAdd_abs [OF ok room, of g k v] by blast
  then show ?thesis using CAdd by (auto simp: fun_eq_iff)
next
  case (CReplace k v)
  obtain d' where "dictReplace g ?ty d k v = Some (d', dict_abs ?ty d k = None)" "dict_ok ?ty d'"
    "length (dict_entries d') = length (dict_entries d) + (if dict_abs ?ty d k = None then 1 else 0)"
    "\<forall>k'. dict_abs ?ty d' k' = (if dictCompareKeys ?ty k' k
       then Some (stored_val ?ty v) else dict_abs ?ty d k')"
    using db_dict.dictReplace_abs [OF ok room, of g k v] by blast
  then show ?thesis using CReplace by (auto simp: fun_eq_iff)
next
  case (CDelete k)
  obtain d' where "dictDelete ?ty d k = Some (d', dict_abs ?ty d k \<noteq> None)" "dict_ok ?ty d'"
    "length (dict_entries d') \<le> length (dict_entries d)"
    "\<forall>k'. dict_abs ?ty d' k' = (if dictCompareKeys ?ty k' k then None else dict_abs ?ty d k')"
    using db_dict.dictGenericDelete_abs [OF ok, of k False] unfolding dictDelete_def by blast
  then show ?thesis using CDelete by (auto simp: fun_eq_iff)
next
  case (CFetch k)
  then show ?thesis using db_dict.dictFetchValue_abs [OF ok, of k] by auto
next
  case (CRehash n)
  obtain d' where d': "dictRehash ?ty d n = Some (d', dictIsRehashing d')" "dict_ok ?ty d'"
    "mset (dict_entries d') = mset (dict_entries d)"
    using db_dict.dictRehash_ok [OF ok] by blast
  then show ?thesis using CRehash db_dict.dict_abs_mset [OF ok d'(3)] mset_eq_length [OF d'(3)] by simp
qed
qed

lemma dict_run_refines:
  assumes "dict_ok (dbDictType seed) d" "length (dict_entries d) + length cs \<le> 2 ^ 29"
  shows "\<exists>d'. dict_run g (dbDictType seed) d cs = Some (d', snd (map_run (dict_abs (dbDictType seed) d) cs)) \<and>
    dict_ok (dbDictType seed) d' \<and> dict_abs (dbDictType seed) d' = fst (map_run (dict_abs (dbDictType seed) d) cs)"
  using assms
proof (induction cs arbitrary: d)
  case (Cons c cs)
  then have "length (dict_entries d) < 2 ^ 29" by simp
  then obtain d1 where d1: "dict_cmd_step g (dbDictType seed) d c = Some (d1, snd (map_step (dict_abs (dbDictType seed) d) c))"
    "dict_ok (dbDictType seed) d1" "dict_abs (dbDictType seed) d1 = fst (map_step (dict_abs (dbDictType seed) d) c)"
    "length (dict_entries d1) \<le> Suc (length (dict_entries d))"
    using dict_cmd_refines [OF Cons.prems(1)] by blast
  then obtain d2 where "dict_run g (dbDictType seed) d1 cs = Some (d2, snd (map_run (dict_abs (dbDictType seed) d1) cs))"
    "dict_ok (dbDictType seed) d2" "dict_abs (dbDictType seed) d2 = fst (map_run (dict_abs (dbDictType seed) d1) cs)"
    using Cons.IH [OF d1(2)] Cons.prems(2) by auto
  then show ?case using d1 by (auto simp: Let_def split: prod.splits)
qed simp

lemma dict_abs_create: "dict_abs ty dictCreate = Map.empty"
  by (simp add: dict_abs_def fun_eq_iff)

section \<open>Properties\<close>

text \<open>
  C14: any sequence of additions, replacements, deletions, lookups and rehashing steps on a
  new database dictionary gives the answers of a finite map, through every expansion and
  at every stage of the incremental rehashing, for every seed and resize policy.
\<close>

theorem db_dict_run:
  assumes "length cs \<le> 2 ^ 29"
  shows "\<exists>d. dict_run g (dbDictType seed) dictCreate cs = Some (d, snd (map_run Map.empty cs)) \<and>
    dict_ok (dbDictType seed) d \<and> dict_abs (dbDictType seed) d = fst (map_run Map.empty cs)"
  using dict_run_refines [of seed dictCreate cs g] assms by (simp add: dict_abs_create)

theorem db_dict_run_witness:
  "\<exists>d. dict_run \<lparr>dict_can_resize = True, uninit_val = 0 :: nat\<rparr> (dbDictType 5381) dictCreate
      [CAdd [97] 1, CAdd [97] 2, CReplace [98] 3, CRehash 2, CFetch [97], CDelete [98]] =
    Some (d, [Flag True, Flag False, Flag True, Done, Value (Some 1), Flag True])"
  using db_dict_run [of "[CAdd [97] 1, CAdd [97] 2, CReplace [98] 3, CRehash 2, CFetch [97], CDelete [98]]"
      "\<lparr>dict_can_resize = True, uninit_val = 0 :: nat\<rparr>" 5381]
  by (auto simp: Let_def)

text \<open>
  C16: a hash table used as a set, with string objects in any encoding as elements, gives the
  answers of the mathematical set of strings for any sequence of operations.
\<close>

theorem hash_set_run:
  assumes "length cs \<le> 536870912"
  shows "\<exists>d. set_run (hashset_add g seed) (hashset_remove seed) (hashset_member seed) dictCreate cs =
      Some (d, snd (set_spec str_bytes {} cs)) \<and> hashset_is seed d (fst (set_spec str_bytes {} cs))"
proof -
  have "hashset_is seed dictCreate {}" by (simp add: hashset_is_def)
  then show ?thesis using hash_set.run_refines [of seed dictCreate "{}" cs g] assms by simp
qed

theorem hash_set_run_witness:
  "\<exists>d. set_run (hashset_add \<lparr>dict_can_resize = True, uninit_val = ()\<rparr> 5381) (hashset_remove 5381) (hashset_member 5381)
      dictCreate [SetAdd (ENC_RAW [97]), SetAdd (ENC_RAW [97]), SetRem (ENC_RAW [97])] = Some (d, [True, False, True])"
  using hash_set_run [of "[SetAdd (ENC_RAW [97]), SetAdd (ENC_RAW [97]), SetRem (ENC_RAW [97])]"
      "\<lparr>dict_can_resize = True, uninit_val = ()\<rparr>" 5381]
  by (auto simp: Let_def str_bytes_def)

text \<open>
  A dictionary in the middle of rehashing: of the five keys, the last was added after the table of four buckets was
  full, and the first bucket has been moved.
\<close>

definition demo_entry :: "byte \<Rightarrow> (byte list, nat) dictEntry" where
  "demo_entry c = \<lparr>e_key = [c], e_val = unat c\<rparr>"

definition demo_dict :: "(byte list, nat) dict" where
  "demo_dict = \<lparr>
     ht0 = \<lparr>ht_table = Some [[], [demo_entry 100], [demo_entry 97], [demo_entry 98]], ht_size = 4, ht_sizemask = 3, ht_used = 3\<rparr>,
     ht1 = \<lparr>ht_table = Some [[], [], [], [], [demo_entry 99], [], [demo_entry 101], []], ht_size = 8, ht_sizemask = 7, ht_used = 2\<rparr>,
     rehashidx = 1, iterators = 0, d_freed = []\<rparr>"

lemma demo_dict_ok: "dict_ok (dbDictType 1) demo_dict"
proof -
  have h: "unat (ucast (ucast (hashFunction (dbDictType 1 :: (byte list, nat) dictType) (e_key (demo_entry c))) AND m :: u64) :: u32) =
      unat (ucast (ucast (33 + ucast c :: u32) AND m) :: u32)" for c m
    by (simp add: dbDictType_def dictSdsHash_def dictGenHashFunction_def demo_entry_def)
  have b: "in_bucket (dbDictType 1) 3 (demo_entry 100) i \<longleftrightarrow> i = 1" "in_bucket (dbDictType 1) 3 (demo_entry 97) i \<longleftrightarrow> i = 2"
    "in_bucket (dbDictType 1) 3 (demo_entry 98) i \<longleftrightarrow> i = 3" "in_bucket (dbDictType 1) 7 (demo_entry 99) i \<longleftrightarrow> i = 4"
    "in_bucket (dbDictType 1) 7 (demo_entry 101) i \<longleftrightarrow> i = 6" for i
    by (auto simp: in_bucket_def h)
  have "\<forall>i < 4. \<forall>e \<in> set ([[], [demo_entry 100], [demo_entry 97], [demo_entry 98]] ! i). in_bucket (dbDictType 1) 3 e i"
    by (auto simp: b nth_Cons')
  moreover have "\<forall>i < 8. \<forall>e \<in> set ([[], [], [], [], [demo_entry 99], [], [demo_entry 101], []] ! i). in_bucket (dbDictType 1) 7 e i"
    by (auto simp: b nth_Cons')
  moreover have "distinct_keys (dbDictType 1) [demo_entry 100, demo_entry 97, demo_entry 98, demo_entry 99, demo_entry 101]"
    by (auto simp: distinct_keys_def keyclass_def dictCompareKeys_def dbDictType_def dictSdsKeyCompare_eq demo_entry_def)
  ultimately show ?thesis
    by (simp add: dict_ok_def ht_ok_def demo_dict_def dict_entries_def ht_entries_def)
qed

text \<open>
  C20: rehashing moves entries only: \<open>n\<close> steps keep the entries, the invariant and the
  destructor log, report whether work is left, and finish when \<open>n\<close> exceeds the number of
  buckets of the old table.
\<close>

theorem dict_rehash:
  assumes "dict_ok (dbDictType seed) d"
  shows "\<exists>d'. dictRehash (dbDictType seed) d n = Some (d', dictIsRehashing d') \<and> dict_ok (dbDictType seed) d' \<and>
    mset (dict_entries d') = mset (dict_entries d) \<and> d_freed d' = d_freed d \<and>
    (\<forall>t. ht_table (ht0 d) = Some t \<and> length t < n \<longrightarrow> \<not> dictIsRehashing d')"
  using db_dict.dictRehash_ok [OF assms, of n] by blast

theorem dict_rehash_witness:
  "dictIsRehashing demo_dict \<and> (\<exists>d'. dictRehash (dbDictType 1) demo_dict 5 = Some (d', False) \<and>
    mset (dict_entries d') = {#demo_entry 97, demo_entry 98, demo_entry 99, demo_entry 100, demo_entry 101#} \<and> \<not> dictIsRehashing d')"
  using dict_rehash [OF demo_dict_ok, of 5] by (auto simp: demo_dict_def dictIsRehashing_def dict_entries_def ht_entries_def)

text \<open>
  C21: replacing a value frees exactly the old value, after the new one is stored, and deleting
  a key frees its key and value once unless \<open>dictDeleteNoFree\<close> is used.
\<close>

theorem dict_replace_delete_frees:
  fixes d :: "(byte list, 'v) dict"
  assumes "dict_ok (dbDictType seed) d" and "length (dict_entries d) < 2 ^ 29" and "dict_abs (dbDictType seed) d k = Some old"
  shows "(\<exists>d'. dictReplace g (dbDictType seed) d k v = Some (d', False) \<and> d_freed d' = d_freed d @ [FreeVal old] \<and>
      dict_abs (dbDictType seed) d' = (dict_abs (dbDictType seed) d)(k \<mapsto> v)) \<and>
    (\<exists>d'. dictDelete (dbDictType seed) d k = Some (d', True) \<and> d_freed d' = d_freed d @ [FreeKey k, FreeVal old]) \<and>
    (\<exists>d'. dictDeleteNoFree (dbDictType seed) d k = Some (d', True) \<and> d_freed d' = d_freed d)"
proof -
  let ?ty = "dbDictType seed :: (byte list, 'v) dictType"
  have hk: "has_key ?ty d k" using assms(3) by (simp add: db_dict.has_key_abs)
  have vd: "valDestructor ?ty" "keyDestructor ?ty" by (simp_all add: dbDictType_def)
  obtain d1 where d1: "dictReplace g ?ty d k v = Some (d1, False)" "d_freed d1 = d_freed d @ [FreeVal old]"
      "\<forall>k'. dict_abs ?ty d1 k' = (if k' = k then Some v else dict_abs ?ty d k')"
    using db_dict.dictReplace_abs [OF assms(1,2), of g k v] assms(3) vd by auto
  have "dict_abs ?ty d1 = (dict_abs ?ty d)(k \<mapsto> v)" using d1(3) by auto
  moreover have del: "\<exists>d'. dictGenericDelete ?ty d k nf = Some (d', True) \<and>
      d_freed d' = d_freed d @ (if nf then [] else [FreeKey k, FreeVal old])" for nf
  proof -
    obtain d' e where d': "dictGenericDelete ?ty d k nf = Some (d', True)" "k = e_key e"
      "mset (dict_entries d') + {#e#} = mset (dict_entries d)"
      "d_freed d' = d_freed d @ (if nf then [] else freed_events ?ty e)"
      using db_dict.dictGenericDelete_ok [OF assms(1), of k nf] hk by auto
    have "e \<in># mset (dict_entries d)" by (simp flip: d'(3))
    then have "e_val e = old" using db_dict.dict_abs_Some [OF assms(1), of e k] d'(2) assms(3) by simp
    then show ?thesis using d' vd by (auto simp: freed_events_def)
  qed
  ultimately show ?thesis using d1 del [of False] del [of True] by (simp add: dictDelete_def dictDeleteNoFree_def)
qed

theorem dict_replace_delete_frees_witness:
  "\<exists>d d' :: (byte list, nat) dict. dict_abs (dbDictType 1 :: (byte list, nat) dictType) d [97] = Some 5 \<and>
    dictReplace \<lparr>dict_can_resize = True, uninit_val = 0\<rparr> (dbDictType 1) d [97] 6 = Some (d', False) \<and>
    d_freed d' = d_freed d @ [FreeVal 5]"
proof -
  let ?ty = "dbDictType 1 :: (byte list, nat) dictType"
  let ?g = "\<lparr>dict_can_resize = True, uninit_val = 0 :: nat\<rparr>"
  have "length (dict_entries (dictCreate :: (byte list, nat) dict)) < 2 ^ 29" by simp
  from db_dict.dictAdd_abs [OF dictCreate_ok(1) this, of ?g 1 "[97]" 5]
  obtain d where d: "dict_ok ?ty d" "length (dict_entries d) \<le> 1" "dict_abs ?ty d [97] = Some 5"
    by (auto simp: dict_abs_create)
  then have "length (dict_entries d) < 2 ^ 29" by simp
  from dict_replace_delete_frees [OF d(1) this d(3), of ?g 6] d(3) show ?thesis by blast
qed

text \<open>
  Emptying a dictionary gives every entry's key and value to the destructors exactly once
  and leaves a new dictionary.
\<close>

theorem dict_empty_frees:
  fixes d :: "(str_enc, 'v) dict"
  assumes "dict_ok (hashDictType seed) d"
  shows "dictEmpty (hashDictType seed) d =
    dictCreate\<lparr>d_freed := d_freed d @ concat (map (\<lambda>e. [FreeKey (e_key e), FreeVal (e_val e)]) (dict_entries d))\<rparr>"
proof -
  have "freed_events (hashDictType seed :: (str_enc, 'v) dictType) = (\<lambda>e. [FreeKey (e_key e), FreeVal (e_val e)])"
    by (simp add: freed_events_def hashDictType_def fun_eq_iff)
  then show ?thesis using dictEmpty_freed [OF assms] by (simp only:)
qed

theorem dict_empty_frees_witness:
  "dictEmpty (hashDictType 1) (dictCreate :: (str_enc, nat) dict) = dictCreate"
proof -
  have "(dictCreate :: (str_enc, nat) dict)\<lparr>d_freed := []\<rparr> = dictCreate" by (simp add: dictCreate_def u_dictInit_def)
  then show ?thesis using dict_empty_frees [of 1 "dictCreate :: (str_enc, nat) dict"] by simp
qed

text \<open>
  C19: iterating over a dictionary without changing it returns every entry once, in table
  order, also while it is being rehashed, and leaves its tables as they were.
\<close>

theorem dict_iterate_all:
  assumes "dict_ok ty d" and "length (ht_buckets (ht0 d)) < 2147483648" and "length (ht_buckets (ht1 d)) < 2147483648"
  shows "\<exists>d' it. dict_iterate d (if safe then dictGetSafeIterator else dictGetIterator) [] =
      Some (dict_entries d, d', it) \<and> same_tables d d'"
proof -
  have "(if safe then dictGetSafeIterator else dictGetIterator) = dictGetIterator\<lparr>it_safe := safe\<rparr>"
    by (simp add: dictGetSafeIterator_def dictGetIterator_def)
  then show ?thesis using dict_iterate_entries [of ty d safe] assms by (simp add: small_tables_def)
qed

theorem dict_iterate_all_witness:
  "\<exists>d' it. dict_iterate demo_dict dictGetSafeIterator [] =
     Some ([demo_entry 100, demo_entry 97, demo_entry 98, demo_entry 99, demo_entry 101], d', it) \<and> same_tables demo_dict d'"
  using dict_iterate_all [OF demo_dict_ok, of True] by (simp add: demo_dict_def ht_buckets_def dict_entries_def ht_entries_def)

text \<open>
  The callbacks of the command table do not agree on names with a zero byte: two names
  that compare equal can have different hashes.
\<close>

theorem command_table_hash:
  "\<exists>a b. dictSdsKeyCaseCompare a b \<and> dictSdsCaseHash 5381 a \<noteq> dictSdsCaseHash 5381 b"
proof -
  have "dictSdsKeyCaseCompare [71, 0, 1] [103] \<and> dictSdsCaseHash 5381 [71, 0, 1] \<noteq> dictSdsCaseHash 5381 [103]"
    by (simp add: dictSdsKeyCaseCompare_def strcaseeq_def c_string_def tolower_def dictSdsCaseHash_def
        dictGenCaseHashFunction_def)
  then show ?thesis by blast
qed

end
