(* ===== verification/Pubsub.thy ===== *)
theory Pubsub
  imports Util "HOL-Library.AList"
begin

text \<open>
  \<open>redis/src/pubsub.c\<close>: channels, patterns and the delivery of messages.  A client is a
  number; the dictionaries are association lists, the order in which the iterator of a
  client's channels returns them is the argument \<open>iter\<close>.  Strings are byte lists; their
  reference counts are not modelled.  \<open>None\<close> is a failed assertion, a \<open>NULL\<close> node given
  to \<open>listDelNode\<close>, or a pattern match that reads outside its strings.
\<close>

section \<open>State\<close>

type_synonym cid = nat

record pclient =
  pc_channels :: "byte list list"
  pc_patterns :: "byte list list"
  pc_reply :: "reply list"

record pubsubPattern =
  pat_client :: cid
  pat_pattern :: "byte list"

record pserver =
  ps_clients :: "cid \<Rightarrow> pclient"
  ps_channels :: "(byte list \<times> cid list) list"
  ps_patterns :: "pubsubPattern list"

definition upd_client :: "cid \<Rightarrow> (pclient \<Rightarrow> pclient) \<Rightarrow> pserver \<Rightarrow> pserver" where
  "upd_client c f s = s\<lparr>ps_clients := (ps_clients s)(c := f (ps_clients s c))\<rparr>"

definition addReplies :: "cid \<Rightarrow> reply list \<Rightarrow> pserver \<Rightarrow> pserver" where
  "addReplies c rs s = upd_client c (\<lambda>cl. cl\<lparr>pc_reply := pc_reply cl @ rs\<rparr>) s"

text \<open>The number of subscriptions a client is told after a change.\<close>

definition subscriptions :: "cid \<Rightarrow> pserver \<Rightarrow> int" where
  "subscriptions c s = int (length (pc_channels (ps_clients s c))) + int (length (pc_patterns (ps_clients s c)))"

section \<open>Subscriptions\<close>

definition listMatchPubsubPattern :: "pubsubPattern \<Rightarrow> pubsubPattern \<Rightarrow> bool" where
  "listMatchPubsubPattern pa pb \<longleftrightarrow> pat_client pa = pat_client pb \<and> pat_pattern pa = pat_pattern pb"

definition pubsubSubscribeChannel :: "cid \<Rightarrow> byte list \<Rightarrow> pserver \<Rightarrow> bool \<times> pserver" where
  "pubsubSubscribeChannel c channel s =
     (let (retval, s) =
        (if channel \<in> set (pc_channels (ps_clients s c)) then (False, s)
         else
           (let s = upd_client c (\<lambda>cl. cl\<lparr>pc_channels := pc_channels cl @ [channel]\<rparr>) s;
                clients = (case map_of (ps_channels s) channel of None \<Rightarrow> [] | Some l \<Rightarrow> l);
                s = s\<lparr>ps_channels := AList.update channel (clients @ [c]) (ps_channels s)\<rparr>
            in (True, s)))
      in (retval, addReplies c [MbulkHdr 3, Shared ''subscribe'', Bulk channel, LongLong (subscriptions c s)] s))"

definition pubsubUnsubscribeChannel :: "cid \<Rightarrow> byte list \<Rightarrow> bool \<Rightarrow> pserver \<Rightarrow> (bool \<times> pserver) option" where
  "pubsubUnsubscribeChannel c channel notify s = do {
     (retval, s) \<leftarrow>
       (if channel \<in> set (pc_channels (ps_clients s c)) then do {
          let s = upd_client c (\<lambda>cl. cl\<lparr>pc_channels := removeAll channel (pc_channels cl)\<rparr>) s;
          clients \<leftarrow> map_of (ps_channels s) channel;
          if c \<notin> set clients then None
          else do {
            let clients = remove1 c clients;
            Some (True, s\<lparr>ps_channels := (if clients = [] then AList.delete channel (ps_channels s)
                                         else AList.update channel clients (ps_channels s))\<rparr>)
          }
        }
        else Some (False, s));
     Some (retval,
       if notify then addReplies c [MbulkHdr 3, Shared ''unsubscribe'', Bulk channel, LongLong (subscriptions c s)] s
       else s)
   }"

definition pubsubSubscribePattern :: "cid \<Rightarrow> byte list \<Rightarrow> pserver \<Rightarrow> bool \<times> pserver" where
  "pubsubSubscribePattern c pattern s =
     (let (retval, s) =
        (if pattern \<in> set (pc_patterns (ps_clients s c)) then (False, s)
         else
           (let s = upd_client c (\<lambda>cl. cl\<lparr>pc_patterns := pc_patterns cl @ [pattern]\<rparr>) s
            in (True, s\<lparr>ps_patterns := ps_patterns s @ [\<lparr>pat_client = c, pat_pattern = pattern\<rparr>]\<rparr>)))
      in (retval, addReplies c [MbulkHdr 3, Shared ''psubscribe'', Bulk pattern, LongLong (subscriptions c s)] s))"

text \<open>The first node that matches is deleted from both lists.\<close>

fun list_del_match :: "('a \<Rightarrow> bool) \<Rightarrow> 'a list \<Rightarrow> 'a list option" where
  "list_del_match m [] = None"
| "list_del_match m (x # xs) = (if m x then Some xs else map_option (Cons x) (list_del_match m xs))"

definition pubsubUnsubscribePattern :: "cid \<Rightarrow> byte list \<Rightarrow> bool \<Rightarrow> pserver \<Rightarrow> (bool \<times> pserver) option" where
  "pubsubUnsubscribePattern c pattern notify s = do {
     (retval, s) \<leftarrow>
       (if pattern \<in> set (pc_patterns (ps_clients s c)) then do {
          let s = upd_client c (\<lambda>cl. cl\<lparr>pc_patterns := remove1 pattern (pc_patterns cl)\<rparr>) s;
          pats \<leftarrow> list_del_match (\<lambda>p. listMatchPubsubPattern p \<lparr>pat_client = c, pat_pattern = pattern\<rparr>) (ps_patterns s);
          Some (True, s\<lparr>ps_patterns := pats\<rparr>)
        }
        else Some (False, s));
     Some (retval,
       if notify then addReplies c [MbulkHdr 3, Shared ''punsubscribe'', Bulk pattern, LongLong (subscriptions c s)] s
       else s)
   }"

text \<open>The loops over all channels or patterns, which were listed when the loop began.\<close>

primrec unsubscribe_channels :: "cid \<Rightarrow> byte list list \<Rightarrow> bool \<Rightarrow> pserver \<Rightarrow> (nat \<times> pserver) option" where
  "unsubscribe_channels c [] notify s = Some (0, s)"
| "unsubscribe_channels c (ch # chs) notify s = do {
     (r, s) \<leftarrow> pubsubUnsubscribeChannel c ch notify s;
     (n, s) \<leftarrow> unsubscribe_channels c chs notify s;
     Some ((if r then 1 else 0) + n, s)
   }"

definition pubsubUnsubscribeAllChannels ::
  "(byte list list \<Rightarrow> byte list list) \<Rightarrow> cid \<Rightarrow> bool \<Rightarrow> pserver \<Rightarrow> (nat \<times> pserver) option" where
  "pubsubUnsubscribeAllChannels iter c notify s =
     unsubscribe_channels c (iter (pc_channels (ps_clients s c))) notify s"

primrec unsubscribe_patterns :: "cid \<Rightarrow> byte list list \<Rightarrow> bool \<Rightarrow> pserver \<Rightarrow> (nat \<times> pserver) option" where
  "unsubscribe_patterns c [] notify s = Some (0, s)"
| "unsubscribe_patterns c (p # ps) notify s = do {
     (r, s) \<leftarrow> pubsubUnsubscribePattern c p notify s;
     (n, s) \<leftarrow> unsubscribe_patterns c ps notify s;
     Some ((if r then 1 else 0) + n, s)
   }"

definition pubsubUnsubscribeAllPatterns :: "cid \<Rightarrow> bool \<Rightarrow> pserver \<Rightarrow> (nat \<times> pserver) option" where
  "pubsubUnsubscribeAllPatterns c notify s = unsubscribe_patterns c (pc_patterns (ps_clients s c)) notify s"

section \<open>Messages\<close>

definition publish_channel :: "byte list \<Rightarrow> byte list \<Rightarrow> cid \<Rightarrow> pserver \<Rightarrow> pserver" where
  "publish_channel channel message c s =
     addReplies c [MbulkHdr 3, Shared ''message'', Bulk channel, Bulk message] s"

primrec publish_patterns :: "byte list \<Rightarrow> byte list \<Rightarrow> pubsubPattern list \<Rightarrow> pserver \<Rightarrow> (nat \<times> pserver) option" where
  "publish_patterns channel message [] s = Some (0, s)"
| "publish_patterns channel message (p # ps) s = do {
     m \<leftarrow> stringmatchlen (pat_pattern p @ [0]) (int (length (pat_pattern p))) (channel @ [0]) (int (length channel)) False;
     let s = (if m then addReplies (pat_client p)
                [MbulkHdr 4, Shared ''pmessage'', Bulk (pat_pattern p), Bulk channel, Bulk message] s else s);
     (n, s) \<leftarrow> publish_patterns channel message ps s;
     Some ((if m then 1 else 0) + n, s)
   }"

definition pubsubPublishMessage :: "byte list \<Rightarrow> byte list \<Rightarrow> pserver \<Rightarrow> (nat \<times> pserver) option" where
  "pubsubPublishMessage channel message s = do {
     let clients = (case map_of (ps_channels s) channel of None \<Rightarrow> [] | Some l \<Rightarrow> l);
     let s = fold (publish_channel channel message) clients s;
     (n, s) \<leftarrow> publish_patterns channel message (ps_patterns s) s;
     Some (length clients + n, s)
   }"

section \<open>Commands\<close>

definition subscribeCommand :: "cid \<Rightarrow> byte list list \<Rightarrow> pserver \<Rightarrow> pserver" where
  "subscribeCommand c args s = fold (\<lambda>ch s. snd (pubsubSubscribeChannel c ch s)) args s"

definition unsubscribeCommand ::
  "(byte list list \<Rightarrow> byte list list) \<Rightarrow> cid \<Rightarrow> byte list list \<Rightarrow> pserver \<Rightarrow> pserver option" where
  "unsubscribeCommand iter c args s =
     (if args = [] then map_option snd (pubsubUnsubscribeAllChannels iter c True s)
      else map_option snd (unsubscribe_channels c args True s))"

definition psubscribeCommand :: "cid \<Rightarrow> byte list list \<Rightarrow> pserver \<Rightarrow> pserver" where
  "psubscribeCommand c args s = fold (\<lambda>p s. snd (pubsubSubscribePattern c p s)) args s"

definition punsubscribeCommand :: "cid \<Rightarrow> byte list list \<Rightarrow> pserver \<Rightarrow> pserver option" where
  "punsubscribeCommand c args s =
     (if args = [] then map_option snd (pubsubUnsubscribeAllPatterns c True s)
      else map_option snd (unsubscribe_patterns c args True s))"

definition publishCommand :: "cid \<Rightarrow> byte list \<Rightarrow> byte list \<Rightarrow> pserver \<Rightarrow> pserver option" where
  "publishCommand c channel message s = do {
     (n, s) \<leftarrow> pubsubPublishMessage channel message s;
     Some (addReplies c [LongLong (int n)] s)
   }"

section \<open>The tables agree\<close>

text \<open>
  The clients of a channel and the channels of a client are the same relation, and so are
  the patterns; no list has duplicates, and a channel without clients has no entry.
\<close>

definition subs :: "pserver \<Rightarrow> byte list \<Rightarrow> cid list" where
  "subs s ch = (case map_of (ps_channels s) ch of None \<Rightarrow> [] | Some l \<Rightarrow> l)"

definition ps_ok :: "pserver \<Rightarrow> bool" where
  "ps_ok s \<longleftrightarrow>
     (\<forall>ch. distinct (subs s ch) \<and> map_of (ps_channels s) ch \<noteq> Some []) \<and>
     (\<forall>c ch. ch \<in> set (pc_channels (ps_clients s c)) \<longleftrightarrow> c \<in> set (subs s ch)) \<and>
     (\<forall>c. distinct (pc_channels (ps_clients s c)) \<and> distinct (pc_patterns (ps_clients s c))) \<and>
     distinct (ps_patterns s) \<and>
     (\<forall>c p. p \<in> set (pc_patterns (ps_clients s c)) \<longleftrightarrow> \<lparr>pat_client = c, pat_pattern = p\<rparr> \<in> set (ps_patterns s))"

lemma addReplies_simps [simp]:
  "ps_channels (addReplies c rs s) = ps_channels s" "ps_patterns (addReplies c rs s) = ps_patterns s"
  "pc_channels (ps_clients (addReplies c rs s) c') = pc_channels (ps_clients s c')"
  "pc_patterns (ps_clients (addReplies c rs s) c') = pc_patterns (ps_clients s c')"
  "subs (addReplies c rs s) ch = subs s ch"
  by (simp_all add: addReplies_def upd_client_def subs_def)

lemma addReplies_ok [simp]: "ps_ok (addReplies c rs s) = ps_ok s"
  by (simp add: ps_ok_def)

lemma subscribe_channel_ok:
  assumes "ps_ok s"
  shows "\<exists>s'. pubsubSubscribeChannel c ch s = (ch \<notin> set (pc_channels (ps_clients s c)), s') \<and> ps_ok s' \<and>
    (\<forall>c'. set (pc_channels (ps_clients s' c')) = set (pc_channels (ps_clients s c')) \<union> (if c' = c then {ch} else {})) \<and>
    (\<forall>c'. pc_patterns (ps_clients s' c') = pc_patterns (ps_clients s c'))"
proof (cases "ch \<in> set (pc_channels (ps_clients s c))")
  case True
  then show ?thesis using assms by (auto simp: pubsubSubscribeChannel_def)
next
  case False
  define s1 where "s1 = (upd_client c (\<lambda>cl. cl\<lparr>pc_channels := pc_channels cl @ [ch]\<rparr>) s)
      \<lparr>ps_channels := AList.update ch (subs s ch @ [c]) (ps_channels s)\<rparr>"
  have eq: "\<exists>rs. pubsubSubscribeChannel c ch s = (True, addReplies c rs s1)"
    using False by (auto simp: pubsubSubscribeChannel_def s1_def subs_def Let_def upd_client_def)
  have ch: "pc_channels (ps_clients s1 c') = pc_channels (ps_clients s c') @ (if c' = c then [ch] else [])"
    and pt: "pc_patterns (ps_clients s1 c') = pc_patterns (ps_clients s c')" for c'
    by (simp_all add: s1_def upd_client_def)
  have sb: "subs s1 ch' = (if ch' = ch then subs s ch @ [c] else subs s ch')" for ch'
    by (simp add: subs_def s1_def update_conv)
  have "c \<notin> set (subs s ch)" using assms False by (simp add: ps_ok_def)
  moreover have "map_of (ps_channels s1) ch' \<noteq> Some []" for ch'
    using assms by (simp add: s1_def update_conv ps_ok_def)
  moreover have "ps_patterns s1 = ps_patterns s" by (simp add: s1_def upd_client_def)
  ultimately have "ps_ok s1" using assms False by (auto simp: ps_ok_def ch pt sb)
  then show ?thesis using eq False ch pt by auto
qed

lemma unsubscribe_channel_ok:
  assumes "ps_ok s"
  shows "\<exists>s'. pubsubUnsubscribeChannel c ch notify s = Some (ch \<in> set (pc_channels (ps_clients s c)), s') \<and> ps_ok s' \<and>
    (\<forall>c'. set (pc_channels (ps_clients s' c')) = set (pc_channels (ps_clients s c')) - (if c' = c then {ch} else {})) \<and>
    (\<forall>c'. pc_patterns (ps_clients s' c') = pc_patterns (ps_clients s c'))"
proof (cases "ch \<in> set (pc_channels (ps_clients s c))")
  case False
  then show ?thesis using assms by (auto simp: pubsubUnsubscribeChannel_def)
next
  case True
  then have c: "c \<in> set (subs s ch)" using assms by (simp add: ps_ok_def)
  then obtain l where l: "map_of (ps_channels s) ch = Some l" "subs s ch = l" "c \<in> set l"
    by (cases "map_of (ps_channels s) ch") (auto simp: subs_def)
  have dl: "distinct l" using assms l(2) by (auto simp: ps_ok_def)
  define s1 where "s1 = (upd_client c (\<lambda>cl. cl\<lparr>pc_channels := removeAll ch (pc_channels cl)\<rparr>) s)
      \<lparr>ps_channels := (if remove1 c l = [] then AList.delete ch (ps_channels s) else AList.update ch (remove1 c l) (ps_channels s))\<rparr>"
  have eq: "\<exists>s2. pubsubUnsubscribeChannel c ch notify s = Some (True, s2) \<and> (s2 = s1 \<or> (\<exists>rs. s2 = addReplies c rs s1))"
    using True l by (auto simp: pubsubUnsubscribeChannel_def s1_def Let_def upd_client_def)
  have ch: "pc_channels (ps_clients s1 c') = (if c' = c then removeAll ch (pc_channels (ps_clients s c')) else pc_channels (ps_clients s c'))"
    and pt: "pc_patterns (ps_clients s1 c') = pc_patterns (ps_clients s c')" for c'
    by (simp_all add: s1_def upd_client_def)
  have sb: "subs s1 ch' = (if ch' = ch then remove1 c l else subs s ch')" for ch'
    by (simp add: subs_def s1_def update_conv' delete_conv')
  moreover have "map_of (ps_channels s1) ch' \<noteq> Some []" for ch'
    using assms by (simp add: s1_def update_conv' delete_conv' ps_ok_def)
  moreover have "ps_patterns s1 = ps_patterns s" by (simp add: s1_def upd_client_def)
  ultimately have "ps_ok s1" using assms dl l(2) by (auto simp: ps_ok_def ch pt sb distinct_removeAll)
  then show ?thesis using eq True ch pt by auto
qed

lemma subscribe_pattern_ok:
  assumes "ps_ok s"
  shows "\<exists>s'. pubsubSubscribePattern c p s = (p \<notin> set (pc_patterns (ps_clients s c)), s') \<and> ps_ok s' \<and>
    (\<forall>c'. set (pc_patterns (ps_clients s' c')) = set (pc_patterns (ps_clients s c')) \<union> (if c' = c then {p} else {})) \<and>
    (\<forall>c'. pc_channels (ps_clients s' c') = pc_channels (ps_clients s c'))"
proof (cases "p \<in> set (pc_patterns (ps_clients s c))")
  case True
  then show ?thesis using assms by (auto simp: pubsubSubscribePattern_def)
next
  case False
  define s1 where "s1 = (upd_client c (\<lambda>cl. cl\<lparr>pc_patterns := pc_patterns cl @ [p]\<rparr>) s)
      \<lparr>ps_patterns := ps_patterns s @ [\<lparr>pat_client = c, pat_pattern = p\<rparr>]\<rparr>"
  have eq: "\<exists>rs. pubsubSubscribePattern c p s = (True, addReplies c rs s1)"
    using False by (auto simp: pubsubSubscribePattern_def s1_def Let_def upd_client_def)
  have "ps_ok s1" using assms False
    by (auto simp: ps_ok_def s1_def upd_client_def subs_def)
  moreover have "pc_channels (ps_clients s1 c') = pc_channels (ps_clients s c')"
    "set (pc_patterns (ps_clients s1 c')) = set (pc_patterns (ps_clients s c')) \<union> (if c' = c then {p} else {})" for c'
    by (auto simp: s1_def upd_client_def)
  ultimately show ?thesis using eq False by auto
qed

lemma list_del_match_remove1:
  "p \<in> set ps \<Longrightarrow> list_del_match (\<lambda>q. listMatchPubsubPattern q p) ps = Some (remove1 p ps)"
proof (induction ps)
  case (Cons q ps)
  have "listMatchPubsubPattern q p \<longleftrightarrow> q = (p :: pubsubPattern)"
    by (cases p; cases q) (simp add: listMatchPubsubPattern_def)
  then show ?case using Cons by auto
qed simp

lemma unsubscribe_pattern_ok:
  assumes "ps_ok s"
  shows "\<exists>s'. pubsubUnsubscribePattern c p notify s = Some (p \<in> set (pc_patterns (ps_clients s c)), s') \<and> ps_ok s' \<and>
    (\<forall>c'. set (pc_patterns (ps_clients s' c')) = set (pc_patterns (ps_clients s c')) - (if c' = c then {p} else {})) \<and>
    (\<forall>c'. pc_channels (ps_clients s' c') = pc_channels (ps_clients s c'))"
proof (cases "p \<in> set (pc_patterns (ps_clients s c))")
  case False
  then show ?thesis using assms by (auto simp: pubsubUnsubscribePattern_def)
next
  case True
  then have mem: "\<lparr>pat_client = c, pat_pattern = p\<rparr> \<in> set (ps_patterns s)" using assms by (simp add: ps_ok_def)
  define s1 where "s1 = (upd_client c (\<lambda>cl. cl\<lparr>pc_patterns := remove1 p (pc_patterns cl)\<rparr>) s)
      \<lparr>ps_patterns := remove1 \<lparr>pat_client = c, pat_pattern = p\<rparr> (ps_patterns s)\<rparr>"
  have eq: "\<exists>s2. pubsubUnsubscribePattern c p notify s = Some (True, s2) \<and> (s2 = s1 \<or> (\<exists>rs. s2 = addReplies c rs s1))"
    using True list_del_match_remove1 [OF mem]
    by (auto simp: pubsubUnsubscribePattern_def s1_def Let_def upd_client_def)
  have "distinct (pc_patterns (ps_clients s c))" "distinct (ps_patterns s)" using assms by (simp_all add: ps_ok_def)
  then have "ps_ok s1" using assms
    by (auto simp: ps_ok_def s1_def upd_client_def subs_def)
  moreover have "pc_channels (ps_clients s1 c') = pc_channels (ps_clients s c')"
    "set (pc_patterns (ps_clients s1 c')) = set (pc_patterns (ps_clients s c')) - (if c' = c then {p} else {})" for c'
    using \<open>distinct (pc_patterns (ps_clients s c))\<close> by (auto simp: s1_def upd_client_def)
  ultimately show ?thesis using eq True by auto
qed

lemma unsubscribe_channels_ok:
  assumes "ps_ok s"
  shows "\<exists>n s'. unsubscribe_channels c chs notify s = Some (n, s') \<and> ps_ok s' \<and>
    (\<forall>c'. set (pc_channels (ps_clients s' c')) = set (pc_channels (ps_clients s c')) - (if c' = c then set chs else {})) \<and>
    (\<forall>c'. pc_patterns (ps_clients s' c') = pc_patterns (ps_clients s c'))"
  using assms
proof (induction chs arbitrary: s)
  case (Cons ch chs)
  obtain s1 where s1: "pubsubUnsubscribeChannel c ch notify s = Some (ch \<in> set (pc_channels (ps_clients s c)), s1)" "ps_ok s1"
    "\<forall>c'. set (pc_channels (ps_clients s1 c')) = set (pc_channels (ps_clients s c')) - (if c' = c then {ch} else {})"
    "\<forall>c'. pc_patterns (ps_clients s1 c') = pc_patterns (ps_clients s c')"
    using unsubscribe_channel_ok [OF Cons.prems] by blast
  obtain n s2 where s2: "unsubscribe_channels c chs notify s1 = Some (n, s2)" "ps_ok s2"
    "\<forall>c'. set (pc_channels (ps_clients s2 c')) = set (pc_channels (ps_clients s1 c')) - (if c' = c then set chs else {})"
    "\<forall>c'. pc_patterns (ps_clients s2 c') = pc_patterns (ps_clients s1 c')"
    using Cons.IH [OF s1(2)] by blast
  have "set (pc_channels (ps_clients s2 c')) = set (pc_channels (ps_clients s c')) - (if c' = c then set (ch # chs) else {})" for c'
    using s1(3) s2(3) by auto
  then show ?case using s1 s2 by (auto simp: Let_def)
qed simp

lemma unsubscribe_patterns_ok:
  assumes "ps_ok s"
  shows "\<exists>n s'. unsubscribe_patterns c ps notify s = Some (n, s') \<and> ps_ok s' \<and>
    (\<forall>c'. set (pc_patterns (ps_clients s' c')) = set (pc_patterns (ps_clients s c')) - (if c' = c then set ps else {})) \<and>
    (\<forall>c'. pc_channels (ps_clients s' c') = pc_channels (ps_clients s c'))"
  using assms
proof (induction ps arbitrary: s)
  case (Cons p ps)
  obtain s1 where s1: "pubsubUnsubscribePattern c p notify s = Some (p \<in> set (pc_patterns (ps_clients s c)), s1)" "ps_ok s1"
    "\<forall>c'. set (pc_patterns (ps_clients s1 c')) = set (pc_patterns (ps_clients s c')) - (if c' = c then {p} else {})"
    "\<forall>c'. pc_channels (ps_clients s1 c') = pc_channels (ps_clients s c')"
    using unsubscribe_pattern_ok [OF Cons.prems] by blast
  obtain n s2 where s2: "unsubscribe_patterns c ps notify s1 = Some (n, s2)" "ps_ok s2"
    "\<forall>c'. set (pc_patterns (ps_clients s2 c')) = set (pc_patterns (ps_clients s1 c')) - (if c' = c then set ps else {})"
    "\<forall>c'. pc_channels (ps_clients s2 c') = pc_channels (ps_clients s1 c')"
    using Cons.IH [OF s1(2)] by blast
  have "set (pc_patterns (ps_clients s2 c')) = set (pc_patterns (ps_clients s c')) - (if c' = c then set (p # ps) else {})" for c'
    using s1(3) s2(3) by auto
  then show ?case using s1 s2 by (auto simp: Let_def)
qed simp


section \<open>Delivery\<close>

lemma reply_addReplies [simp]:
  "pc_reply (ps_clients (addReplies c rs s) c') = pc_reply (ps_clients s c') @ (if c' = c then rs else [])"
  by (simp add: addReplies_def upd_client_def)

lemma publish_channel_fold:
  assumes "distinct l"
  shows "pc_reply (ps_clients (fold (publish_channel ch m) l s) c) = pc_reply (ps_clients s c) @
      (if c \<in> set l then [MbulkHdr 3, Shared ''message'', Bulk ch, Bulk m] else []) \<and>
    ps_patterns (fold (publish_channel ch m) l s) = ps_patterns s \<and>
    subs (fold (publish_channel ch m) l s) = subs s \<and>
    ps_ok (fold (publish_channel ch m) l s) = ps_ok s"
  using assms
proof (induction l arbitrary: s)
  case (Cons a l)
  have "subs (addReplies a rs s) = subs s" for rs by (rule ext) simp
  then show ?case using Cons by (auto simp: publish_channel_def)
qed simp

text \<open>The matcher's answer for a pattern; \<open>None\<close> when it reads outside of the strings.\<close>

definition pat_match :: "byte list \<Rightarrow> byte list \<Rightarrow> bool option" where
  "pat_match p ch = stringmatchlen (p @ [0]) (int (length p)) (ch @ [0]) (int (length ch)) False"

lemma pat_match_plain: "0 \<notin> set p \<Longrightarrow> 91 \<notin> set p \<Longrightarrow> pat_match p ch = Some (glob_spec False p ch)"
  using glob_ok [of 0 p 0 ch False "[]" "[]"] by (simp add: pat_match_def stringmatchlen_def)

definition pattern_messages :: "byte list \<Rightarrow> byte list \<Rightarrow> cid \<Rightarrow> pubsubPattern list \<Rightarrow> reply list" where
  "pattern_messages ch m c ps =
     concat (map (\<lambda>p. [MbulkHdr 4, Shared ''pmessage'', Bulk (pat_pattern p), Bulk ch, Bulk m])
       (filter (\<lambda>p. pat_client p = c \<and> pat_match (pat_pattern p) ch = Some True) ps))"

lemma publish_patterns_ok:
  "if \<exists>p \<in> set ps. pat_match (pat_pattern p) ch = None then publish_patterns ch m ps s = None
   else \<exists>s'. publish_patterns ch m ps s = Some (length (filter (\<lambda>p. pat_match (pat_pattern p) ch = Some True) ps), s') \<and>
    (\<forall>c. pc_reply (ps_clients s' c) = pc_reply (ps_clients s c) @ pattern_messages ch m c ps) \<and>
    ps_ok s' = ps_ok s \<and> subs s' = subs s"
proof (induction ps arbitrary: s)
  case (Cons p ps)
  show ?case
  proof (cases "pat_match (pat_pattern p) ch")
    case None
    then show ?thesis by (simp flip: pat_match_def)
  next
    case (Some b)
    define s1 where "s1 = (if b then addReplies (pat_client p)
        [MbulkHdr 4, Shared ''pmessage'', Bulk (pat_pattern p), Bulk ch, Bulk m] s else s)"
    have sub1: "subs s1 = subs s" by (rule ext) (simp add: s1_def)
    have step: "publish_patterns ch m (p # ps) s = do { (n, s) \<leftarrow> publish_patterns ch m ps s1; Some ((if b then 1 else 0) + n, s) }"
      using Some by (simp add: s1_def Let_def flip: pat_match_def)
    show ?thesis
    proof (cases "\<exists>q \<in> set ps. pat_match (pat_pattern q) ch = None")
      case True
      then show ?thesis using step Cons.IH [of s1] by auto
    next
      case False
      then obtain s2 where s2: "publish_patterns ch m ps s1 = Some (length (filter (\<lambda>p. pat_match (pat_pattern p) ch = Some True) ps), s2)"
        "\<forall>c. pc_reply (ps_clients s2 c) = pc_reply (ps_clients s1 c) @ pattern_messages ch m c ps"
        "ps_ok s2 = ps_ok s1" "subs s2 = subs s1"
        using Cons.IH [of s1] unfolding if_not_P [OF False] by blast
      have "publish_patterns ch m (p # ps) s = Some (length (filter (\<lambda>p. pat_match (pat_pattern p) ch = Some True) (p # ps)), s2)"
        using step s2(1) Some by simp
      moreover have "pc_reply (ps_clients s2 c) = pc_reply (ps_clients s c) @ pattern_messages ch m c (p # ps)" for c
        using s2(2) Some by (simp add: s1_def pattern_messages_def)
      moreover have "ps_ok s1 = ps_ok s" by (simp add: s1_def)
      moreover have "\<not> (\<exists>q \<in> set (p # ps). pat_match (pat_pattern q) ch = None)" using False Some by simp
      ultimately show ?thesis using s2(3,4) sub1 by simp
    qed
  qed
qed (simp add: pattern_messages_def)

section \<open>Properties\<close>

text \<open>The subscriptions as a relation, and what each command does to it.\<close>

datatype ps_cmd = Subscribe cid "byte list list" | Unsubscribe cid "byte list list"
  | PSubscribe cid "byte list list" | PUnsubscribe cid "byte list list"

fun ps_step :: "(byte list list \<Rightarrow> byte list list) \<Rightarrow> pserver \<Rightarrow> ps_cmd \<Rightarrow> pserver option" where
  "ps_step iter s (Subscribe c args) = Some (subscribeCommand c args s)"
| "ps_step iter s (Unsubscribe c args) = unsubscribeCommand iter c args s"
| "ps_step iter s (PSubscribe c args) = Some (psubscribeCommand c args s)"
| "ps_step iter s (PUnsubscribe c args) = punsubscribeCommand c args s"

fun ps_run :: "(byte list list \<Rightarrow> byte list list) \<Rightarrow> pserver \<Rightarrow> ps_cmd list \<Rightarrow> pserver option" where
  "ps_run iter s [] = Some s"
| "ps_run iter s (x # xs) = do { s \<leftarrow> ps_step iter s x; ps_run iter s xs }"

type_synonym subscriptions_of = "cid \<Rightarrow> byte list set"

fun sub_step :: "subscriptions_of \<times> subscriptions_of \<Rightarrow> ps_cmd \<Rightarrow> subscriptions_of \<times> subscriptions_of" where
  "sub_step (ch, pt) (Subscribe c args) = (ch(c := ch c \<union> set args), pt)"
| "sub_step (ch, pt) (Unsubscribe c args) = (ch(c := (if args = [] then {} else ch c - set args)), pt)"
| "sub_step (ch, pt) (PSubscribe c args) = (ch, pt(c := pt c \<union> set args))"
| "sub_step (ch, pt) (PUnsubscribe c args) = (ch, pt(c := (if args = [] then {} else pt c - set args)))"

definition sub_abs :: "pserver \<Rightarrow> subscriptions_of \<times> subscriptions_of" where
  "sub_abs s = (\<lambda>c. set (pc_channels (ps_clients s c)), \<lambda>c. set (pc_patterns (ps_clients s c)))"

lemma subscribeCommand_ok:
  assumes "ps_ok s"
  shows "ps_ok (subscribeCommand c args s) \<and> sub_abs (subscribeCommand c args s) = sub_step (sub_abs s) (Subscribe c args)"
  using assms unfolding subscribeCommand_def
proof (induction args arbitrary: s)
  case (Cons ch args)
  obtain s1 where s1: "pubsubSubscribeChannel c ch s = (ch \<notin> set (pc_channels (ps_clients s c)), s1)" "ps_ok s1"
    "\<forall>c'. set (pc_channels (ps_clients s1 c')) = set (pc_channels (ps_clients s c')) \<union> (if c' = c then {ch} else {})"
    "\<forall>c'. pc_patterns (ps_clients s1 c') = pc_patterns (ps_clients s c')"
    using subscribe_channel_ok [OF Cons.prems] by blast
  have "sub_abs s1 = sub_step (sub_abs s) (Subscribe c [ch])"
    using s1(3,4) by (auto simp: sub_abs_def fun_eq_iff)
  then show ?case using Cons.IH [OF s1(2)] s1(1) by (auto simp: sub_abs_def fun_eq_iff)
qed (auto simp: sub_abs_def fun_eq_iff)

lemma psubscribeCommand_ok:
  assumes "ps_ok s"
  shows "ps_ok (psubscribeCommand c args s) \<and> sub_abs (psubscribeCommand c args s) = sub_step (sub_abs s) (PSubscribe c args)"
  using assms unfolding psubscribeCommand_def
proof (induction args arbitrary: s)
  case (Cons p args)
  obtain s1 where s1: "pubsubSubscribePattern c p s = (p \<notin> set (pc_patterns (ps_clients s c)), s1)" "ps_ok s1"
    "\<forall>c'. set (pc_patterns (ps_clients s1 c')) = set (pc_patterns (ps_clients s c')) \<union> (if c' = c then {p} else {})"
    "\<forall>c'. pc_channels (ps_clients s1 c') = pc_channels (ps_clients s c')"
    using subscribe_pattern_ok [OF Cons.prems] by blast
  have "sub_abs s1 = sub_step (sub_abs s) (PSubscribe c [p])"
    using s1(3,4) by (auto simp: sub_abs_def fun_eq_iff)
  then show ?case using Cons.IH [OF s1(2)] s1(1) by (auto simp: sub_abs_def fun_eq_iff)
qed (auto simp: sub_abs_def fun_eq_iff)

lemma ps_step_ok:
  assumes "ps_ok s" "\<And>l. set (iter l) = set l"
  shows "\<exists>s'. ps_step iter s x = Some s' \<and> ps_ok s' \<and> sub_abs s' = sub_step (sub_abs s) x"
proof (cases x)
  case (Unsubscribe c args)
  define chs where "chs = (if args = [] then iter (pc_channels (ps_clients s c)) else args)"
  obtain n s' where "unsubscribe_channels c chs True s = Some (n, s')" "ps_ok s'"
    "\<forall>c'. set (pc_channels (ps_clients s' c')) = set (pc_channels (ps_clients s c')) - (if c' = c then set chs else {})"
    "\<forall>c'. pc_patterns (ps_clients s' c') = pc_patterns (ps_clients s c')"
    using unsubscribe_channels_ok [OF assms(1)] by blast
  then show ?thesis using Unsubscribe assms(2)
    by (auto simp: unsubscribeCommand_def pubsubUnsubscribeAllChannels_def chs_def sub_abs_def fun_eq_iff split: if_splits)
next
  case (PUnsubscribe c args)
  define ps where "ps = (if args = [] then pc_patterns (ps_clients s c) else args)"
  obtain n s' where "unsubscribe_patterns c ps True s = Some (n, s')" "ps_ok s'"
    "\<forall>c'. set (pc_patterns (ps_clients s' c')) = set (pc_patterns (ps_clients s c')) - (if c' = c then set ps else {})"
    "\<forall>c'. pc_channels (ps_clients s' c') = pc_channels (ps_clients s c')"
    using unsubscribe_patterns_ok [OF assms(1)] by blast
  then show ?thesis using PUnsubscribe
    by (auto simp: punsubscribeCommand_def pubsubUnsubscribeAllPatterns_def ps_def sub_abs_def fun_eq_iff split: if_splits)
qed (use assms subscribeCommand_ok psubscribeCommand_ok in auto)

lemma ps_run_ok:
  assumes "ps_ok s" "\<And>l. set (iter l) = set l"
  shows "\<exists>s'. ps_run iter s xs = Some s' \<and> ps_ok s' \<and> sub_abs s' = fold (\<lambda>x a. sub_step a x) xs (sub_abs s)"
  using assms(1)
proof (induction xs arbitrary: s)
  case (Cons x xs)
  obtain s1 where "ps_step iter s x = Some s1" "ps_ok s1" "sub_abs s1 = sub_step (sub_abs s) x"
    using ps_step_ok [OF Cons.prems assms(2)] by blast
  then show ?case using Cons.IH [of s1] by auto
qed simp

definition ps_empty :: pserver where
  "ps_empty = \<lparr>ps_clients = (\<lambda>_. \<lparr>pc_channels = [], pc_patterns = [], pc_reply = []\<rparr>), ps_channels = [], ps_patterns = []\<rparr>"

lemma ps_empty_ok: "ps_ok ps_empty"
  by (simp add: ps_ok_def ps_empty_def subs_def)

text \<open>
  C31: any sequence of subscribe and unsubscribe commands of any clients from an empty server
  ends normally (no assertion fails), leaves the server's and the clients' tables agreeing,
  and gives each client exactly the channels and patterns of the commands.
\<close>

theorem pubsub_run:
  assumes "\<And>l. set (iter l) = set l"
  shows "\<exists>s. ps_run iter ps_empty xs = Some s \<and> ps_ok s \<and>
    sub_abs s = fold (\<lambda>x a. sub_step a x) xs (\<lambda>_. {}, \<lambda>_. {})"
  using ps_run_ok [OF ps_empty_ok assms, of xs] by (simp add: sub_abs_def ps_empty_def)

theorem pubsub_run_witness:
  "\<exists>s. ps_run rev ps_empty [Subscribe 1 [[97], [98]], PSubscribe 2 [[97, 42]], Unsubscribe 1 []] = Some s \<and> ps_ok s \<and>
    set (pc_channels (ps_clients s 1)) = {} \<and> set (pc_patterns (ps_clients s 2)) = {[97, 42]}"
proof -
  obtain s where "ps_run rev ps_empty [Subscribe 1 [[97], [98]], PSubscribe 2 [[97, 42]], Unsubscribe 1 []] = Some s" "ps_ok s"
    "sub_abs s = fold (\<lambda>x a. sub_step a x) [Subscribe 1 [[97], [98]], PSubscribe 2 [[97, 42]], Unsubscribe 1 []] (\<lambda>_. {}, \<lambda>_. {})"
    using pubsub_run [of rev] by fastforce
  then show ?thesis by (simp add: sub_abs_def fun_eq_iff)
qed

text \<open>
  C32: a published message reaches exactly the clients subscribed to the channel, once each,
  and then each client once for every pattern of its own that the matcher accepts for the channel, in the
  order of the patterns; the number returned is the number of deliveries.  The only exception is a
  pattern with which the matcher reads outside of the strings: then there is no result.  For a pattern without a
  class and without a zero byte this does not happen, and the matcher accepts what the pattern describes.
\<close>

theorem publish_delivers:
  assumes "ps_ok s"
  shows "(if \<exists>p \<in> set (ps_patterns s). pat_match (pat_pattern p) ch = None then pubsubPublishMessage ch m s = None
     else \<exists>s'. pubsubPublishMessage ch m s =
        Some (card {c. ch \<in> set (pc_channels (ps_clients s c))} +
              length (filter (\<lambda>p. pat_match (pat_pattern p) ch = Some True) (ps_patterns s)), s') \<and> ps_ok s' \<and>
      (\<forall>c. pc_reply (ps_clients s' c) = pc_reply (ps_clients s c) @
         (if ch \<in> set (pc_channels (ps_clients s c)) then [MbulkHdr 3, Shared ''message'', Bulk ch, Bulk m] else []) @
         pattern_messages ch m c (ps_patterns s))) \<and>
    (\<forall>p. 0 \<notin> set p \<and> 91 \<notin> set p \<longrightarrow> pat_match p ch = Some (glob_spec False p ch))"
proof (intro conjI allI impI)
  have d: "distinct (subs s ch)" and sub: "\<And>c. ch \<in> set (pc_channels (ps_clients s c)) \<longleftrightarrow> c \<in> set (subs s ch)"
    using assms(1) by (simp_all add: ps_ok_def)
  define s1 where "s1 = fold (publish_channel ch m) (subs s ch) s"
  note f = publish_channel_fold [OF d, of ch m s, folded s1_def]
  have pats: "ps_patterns s1 = ps_patterns s" using f by simp
  have pub: "pubsubPublishMessage ch m s = do { (n, s2) \<leftarrow> publish_patterns ch m (ps_patterns s1) s1; Some (length (subs s ch) + n, s2) }"
    unfolding s1_def by (simp add: pubsubPublishMessage_def subs_def Let_def)
  have "{c. ch \<in> set (pc_channels (ps_clients s c))} = set (subs s ch)" using sub by auto
  then have n: "card {c. ch \<in> set (pc_channels (ps_clients s c))} = length (subs s ch)" using d by (simp add: distinct_card)
  show "if \<exists>p \<in> set (ps_patterns s). pat_match (pat_pattern p) ch = None then pubsubPublishMessage ch m s = None
     else \<exists>s'. pubsubPublishMessage ch m s =
        Some (card {c. ch \<in> set (pc_channels (ps_clients s c))} +
              length (filter (\<lambda>p. pat_match (pat_pattern p) ch = Some True) (ps_patterns s)), s') \<and> ps_ok s' \<and>
      (\<forall>c. pc_reply (ps_clients s' c) = pc_reply (ps_clients s c) @
         (if ch \<in> set (pc_channels (ps_clients s c)) then [MbulkHdr 3, Shared ''message'', Bulk ch, Bulk m] else []) @
         pattern_messages ch m c (ps_patterns s))"
  proof (cases "\<exists>p \<in> set (ps_patterns s). pat_match (pat_pattern p) ch = None")
    case True
    then show ?thesis using publish_patterns_ok [of "ps_patterns s1" ch m s1] pub pats by simp
  next
    case False
    then obtain s2 where
      "publish_patterns ch m (ps_patterns s1) s1 = Some (length (filter (\<lambda>p. pat_match (pat_pattern p) ch = Some True) (ps_patterns s1)), s2)"
      "\<forall>c. pc_reply (ps_clients s2 c) = pc_reply (ps_clients s1 c) @ pattern_messages ch m c (ps_patterns s1)" "ps_ok s2 = ps_ok s1"
      using publish_patterns_ok [of "ps_patterns s1" ch m s1] unfolding pats if_not_P [OF False] by blast
    then show ?thesis using False pub f assms(1) sub n by simp
  qed
  show "pat_match p ch = Some (glob_spec False p ch)" if "0 \<notin> set p \<and> 91 \<notin> set p" for p
    using that pat_match_plain by blast
qed

text \<open>
  Client 7 subscribes to the channel \<open>a\<close>, client 2 to the pattern \<open>[ab]\<close>, client 3 to \<open>b*\<close>; a message to \<open>a\<close>
  reaches the first two.
\<close>

definition demo_pubsub :: pserver where
  "demo_pubsub = psubscribeCommand 3 [[98, 42]] (psubscribeCommand 2 [[91, 97, 98, 93]] (subscribeCommand 7 [[97]] ps_empty))"

theorem publish_delivers_witness:
  "\<exists>s'. pubsubPublishMessage [97] [109] demo_pubsub = Some (2, s') \<and>
    pc_reply (ps_clients s' 7) = pc_reply (ps_clients demo_pubsub 7) @ [MbulkHdr 3, Shared ''message'', Bulk [97], Bulk [109]] \<and>
    pc_reply (ps_clients s' 2) = pc_reply (ps_clients demo_pubsub 2) @ [MbulkHdr 4, Shared ''pmessage'', Bulk [91, 97, 98, 93], Bulk [97], Bulk [109]] \<and>
    pc_reply (ps_clients s' 3) = pc_reply (ps_clients demo_pubsub 3)"
proof -
  have ok: "ps_ok demo_pubsub"
    unfolding demo_pubsub_def using subscribeCommand_ok [OF ps_empty_ok] psubscribeCommand_ok by blast
  have p: "ps_patterns demo_pubsub = [\<lparr>pat_client = 2, pat_pattern = [91, 97, 98, 93]\<rparr>, \<lparr>pat_client = 3, pat_pattern = [98, 42]\<rparr>]"
    by (simp add: demo_pubsub_def psubscribeCommand_def pubsubSubscribePattern_def subscribeCommand_def pubsubSubscribeChannel_def
        ps_empty_def upd_client_def addReplies_def Let_def)
  have c: "pc_channels (ps_clients demo_pubsub c) = (if c = 7 then [[97]] else [])" for c
    by (simp add: demo_pubsub_def psubscribeCommand_def pubsubSubscribePattern_def subscribeCommand_def pubsubSubscribeChannel_def
        ps_empty_def upd_client_def addReplies_def Let_def)
  have m: "pat_match [91, 97, 98, 93] [97] = Some True" "pat_match [98, 42] [97] = Some False"
    by (simp_all add: pat_match_def stringmatchlen_def glob.simps glob_one_def peek_def glob_class.simps strip_stars.simps tolower_def Let_def)
  have "{c. [97] \<in> set (pc_channels (ps_clients demo_pubsub c))} = {7}" by (auto simp: c)
  then show ?thesis using publish_delivers [OF ok, of "[97]" "[109]"]
    by (auto simp: c p m pattern_messages_def)
qed

end
