(* ===== verification/Multi.thy ===== *)
theory Multi
  imports Pubsub
begin

text \<open>
  \<open>redis/src/multi.c\<close>: MULTI, EXEC, DISCARD, WATCH and UNWATCH, with the hooks
  \<open>signalModifiedKey\<close> and \<open>signalFlushedDb\<close> of \<open>db.c\<close> and the dispatch at the end of
  \<open>processCommand\<close>.  Clients are numbers, keys are byte lists, a database's dictionary of
  watched keys is an association list.  A command other than these five is given by what
  it does to the state here: the keys it signals as modified, and its replies.  Like the code it may look at
  the flag \<open>REDIS_MULTI\<close> of its client, as the blocking commands on lists do; a command that blocks does nothing here.
  \<open>None\<close> is a failed assertion or a \<open>NULL\<close> node given to \<open>listDelNode\<close>.
\<close>

section \<open>State\<close>

type_synonym key = "byte list"

datatype effect = Modified nat key bool | Flushed int | Select nat | Out "reply list"

datatype proc =
    MultiProc | ExecProc | DiscardProc | WatchProc | UnwatchProc
  | OtherProc "bool \<Rightarrow> nat \<Rightarrow> byte list list \<Rightarrow> (nat \<Rightarrow> key \<Rightarrow> bool) \<Rightarrow> effect list"

record multiCmd =
  mc_cmd :: proc
  mc_argv :: "byte list list"

record watchedKey =
  wk_key :: key
  wk_db :: nat

record mclient =
  cl_multi :: bool
  cl_dirty_cas :: bool
  cl_commands :: "multiCmd list"
  cl_watched :: "watchedKey list"
  cl_db :: nat
  cl_out :: "reply list"

record mserver =
  ms_clients :: "cid \<Rightarrow> mclient"
  ms_client_list :: "cid list"
  ms_watched :: "nat \<Rightarrow> (key \<times> cid list) list"
  ms_exists :: "nat \<Rightarrow> key \<Rightarrow> bool"
  ms_dirty :: int
  ms_aof_on :: bool
  ms_has_slaves :: bool
  ms_aof_feed :: "(nat \<times> byte list list) list"
  ms_slave_feed :: "(nat \<times> byte list list) list"

definition on_client :: "cid \<Rightarrow> (mclient \<Rightarrow> mclient) \<Rightarrow> mserver \<Rightarrow> mserver" where
  "on_client c f s = s\<lparr>ms_clients := (ms_clients s)(c := f (ms_clients s c))\<rparr>"

definition addReply :: "cid \<Rightarrow> reply \<Rightarrow> mserver \<Rightarrow> mserver" where
  "addReply c r s = on_client c (\<lambda>cl. cl\<lparr>cl_out := cl_out cl @ [r]\<rparr>) s"

section \<open>Watched keys\<close>

definition watchForKey :: "cid \<Rightarrow> key \<Rightarrow> mserver \<Rightarrow> mserver" where
  "watchForKey c k s =
     (let cl = ms_clients s c; db = cl_db cl in
      if \<exists>wk \<in> set (cl_watched cl). wk_db wk = db \<and> wk_key wk = k then s
      else
        (let clients = (case map_of (ms_watched s db) k of None \<Rightarrow> [] | Some l \<Rightarrow> l);
             s = s\<lparr>ms_watched := (ms_watched s)(db := AList.update k (clients @ [c]) (ms_watched s db))\<rparr>
         in on_client c (\<lambda>cl. cl\<lparr>cl_watched := cl_watched cl @ [\<lparr>wk_key = k, wk_db = db\<rparr>]\<rparr>) s))"

text \<open>The loop of \<open>unwatchAllKeys\<close> over the client's list, which it empties.\<close>

primrec unwatch_loop :: "cid \<Rightarrow> watchedKey list \<Rightarrow> mserver \<Rightarrow> mserver option" where
  "unwatch_loop c [] s = Some s"
| "unwatch_loop c (wk # wks) s = do {
     clients \<leftarrow> map_of (ms_watched s (wk_db wk)) (wk_key wk);
     if c \<notin> set clients then None
     else do {
       let clients = remove1 c clients;
       let w = (if clients = [] then AList.delete (wk_key wk) (ms_watched s (wk_db wk))
                else AList.update (wk_key wk) clients (ms_watched s (wk_db wk)));
       let s = s\<lparr>ms_watched := (ms_watched s)(wk_db wk := w)\<rparr>;
       unwatch_loop c wks (on_client c (\<lambda>cl. cl\<lparr>cl_watched := wks\<rparr>) s)
     }
   }"

definition unwatchAllKeys :: "cid \<Rightarrow> mserver \<Rightarrow> mserver option" where
  "unwatchAllKeys c s =
     (if cl_watched (ms_clients s c) = [] then Some s
      else unwatch_loop c (cl_watched (ms_clients s c)) s)"

definition mark_dirty :: "cid \<Rightarrow> mserver \<Rightarrow> mserver" where
  "mark_dirty c s = on_client c (\<lambda>cl. cl\<lparr>cl_dirty_cas := True\<rparr>) s"

definition touchWatchedKey :: "nat \<Rightarrow> key \<Rightarrow> mserver \<Rightarrow> mserver" where
  "touchWatchedKey db k s =
     (if ms_watched s db = [] then s
      else case map_of (ms_watched s db) k of
        None \<Rightarrow> s
      | Some clients \<Rightarrow> fold mark_dirty clients s)"

text \<open>For every client, the keys it watches that exist in the flushed database; \<open>-1\<close> is all of them.\<close>

definition flush_key :: "int \<Rightarrow> cid \<Rightarrow> watchedKey \<Rightarrow> mserver \<Rightarrow> mserver" where
  "flush_key dbid c wk s =
     (if dbid = - 1 \<or> int (wk_db wk) = dbid then
        (if ms_exists s (wk_db wk) (wk_key wk) then mark_dirty c s else s)
      else s)"

definition touchWatchedKeysOnFlush :: "int \<Rightarrow> mserver \<Rightarrow> mserver" where
  "touchWatchedKeysOnFlush dbid s =
     fold (\<lambda>c s. fold (flush_key dbid c) (cl_watched (ms_clients s c)) s) (ms_client_list s) s"

definition signalModifiedKey :: "nat \<Rightarrow> key \<Rightarrow> mserver \<Rightarrow> mserver" where
  "signalModifiedKey db k s = touchWatchedKey db k s"

definition signalFlushedDb :: "int \<Rightarrow> mserver \<Rightarrow> mserver" where
  "signalFlushedDb dbid s = touchWatchedKeysOnFlush dbid s"

section \<open>Transactions\<close>

definition initClientMultiState :: "cid \<Rightarrow> mserver \<Rightarrow> mserver" where
  "initClientMultiState c s = on_client c (\<lambda>cl. cl\<lparr>cl_commands := []\<rparr>) s"

definition queueMultiCommand :: "cid \<Rightarrow> multiCmd \<Rightarrow> mserver \<Rightarrow> mserver" where
  "queueMultiCommand c m s = on_client c (\<lambda>cl. cl\<lparr>cl_commands := cl_commands cl @ [m]\<rparr>) s"

definition clear_multi :: "cid \<Rightarrow> mserver \<Rightarrow> mserver" where
  "clear_multi c s = on_client c (\<lambda>cl. cl\<lparr>cl_multi := False, cl_dirty_cas := False\<rparr>) s"

definition discardTransaction :: "cid \<Rightarrow> mserver \<Rightarrow> mserver option" where
  "discardTransaction c s = unwatchAllKeys c (clear_multi c (initClientMultiState c s))"

definition multiCommand :: "cid \<Rightarrow> mserver \<Rightarrow> mserver" where
  "multiCommand c s =
     (if cl_multi (ms_clients s c) then addReply c (ReplyError ''MULTI calls can not be nested'') s
      else addReply c (Shared ''ok'') (on_client c (\<lambda>cl. cl\<lparr>cl_multi := True\<rparr>) s))"

definition discardCommand :: "cid \<Rightarrow> mserver \<Rightarrow> mserver option" where
  "discardCommand c s =
     (if \<not> cl_multi (ms_clients s c) then Some (addReply c (ReplyError ''DISCARD without MULTI'') s)
      else map_option (addReply c (Shared ''ok'')) (discardTransaction c s))"

definition watchCommand :: "cid \<Rightarrow> byte list list \<Rightarrow> mserver \<Rightarrow> mserver" where
  "watchCommand c ks s =
     (if cl_multi (ms_clients s c) then addReply c (ReplyError ''WATCH inside MULTI is not allowed'') s
      else addReply c (Shared ''ok'') (fold (watchForKey c) ks s))"

definition unwatchCommand :: "cid \<Rightarrow> mserver \<Rightarrow> mserver option" where
  "unwatchCommand c s = do {
     s \<leftarrow> unwatchAllKeys c s;
     Some (addReply c (Shared ''ok'') (on_client c (\<lambda>cl. cl\<lparr>cl_dirty_cas := False\<rparr>) s))
   }"

definition execCommandReplicateMulti :: "cid \<Rightarrow> mserver \<Rightarrow> mserver" where
  "execCommandReplicateMulti c s =
     (let e = (cl_db (ms_clients s c), [[77, 85, 76, 84, 73]]);
          s = (if ms_aof_on s then s\<lparr>ms_aof_feed := ms_aof_feed s @ [e]\<rparr> else s)
      in if ms_has_slaves s then s\<lparr>ms_slave_feed := ms_slave_feed s @ [e]\<rparr> else s)"

text \<open>What a command other than the five does here.\<close>

fun apply_effect :: "cid \<Rightarrow> effect \<Rightarrow> mserver \<Rightarrow> mserver" where
  "apply_effect c (Modified db k ex) s =
     (let s = signalModifiedKey db k s
      in s\<lparr>ms_exists := (ms_exists s)(db := (ms_exists s db)(k := ex)), ms_dirty := ms_dirty s + 1\<rparr>)"
| "apply_effect c (Flushed dbid) s =
     (let s = signalFlushedDb dbid s
      in s\<lparr>ms_exists := (\<lambda>db k. if dbid = - 1 \<or> int db = dbid then False else ms_exists s db k)\<rparr>)"
| "apply_effect c (Select db) s = on_client c (\<lambda>cl. cl\<lparr>cl_db := db\<rparr>) s"
| "apply_effect c (Out rs) s = fold (addReply c) rs s"

text \<open>\<open>EXEC\<close> is never queued, so its call from the queue does not arise.\<close>

definition call_queued :: "cid \<Rightarrow> multiCmd \<Rightarrow> mserver \<Rightarrow> mserver option" where
  "call_queued c m s =
     (case mc_cmd m of
        MultiProc \<Rightarrow> Some (multiCommand c s)
      | ExecProc \<Rightarrow> None
      | DiscardProc \<Rightarrow> discardCommand c s
      | WatchProc \<Rightarrow> Some (watchCommand c (mc_argv m) s)
      | UnwatchProc \<Rightarrow> unwatchCommand c s
      | OtherProc f \<Rightarrow> Some (fold (apply_effect c) (f (cl_multi (ms_clients s c)) (cl_db (ms_clients s c)) (mc_argv m) (ms_exists s)) s))"

primrec exec_loop :: "cid \<Rightarrow> multiCmd list \<Rightarrow> mserver \<Rightarrow> mserver option" where
  "exec_loop c [] s = Some s"
| "exec_loop c (m # ms) s = do { s \<leftarrow> call_queued c m s; exec_loop c ms s }"

definition execCommand :: "cid \<Rightarrow> mserver \<Rightarrow> mserver option" where
  "execCommand c s =
     (if \<not> cl_multi (ms_clients s c) then Some (addReply c (ReplyError ''EXEC without MULTI'') s)
      else if cl_dirty_cas (ms_clients s c) then do {
        s \<leftarrow> unwatchAllKeys c (clear_multi c (initClientMultiState c s));
        Some (addReply c (Shared ''nullmultibulk'') s)
      }
      else do {
        let s = execCommandReplicateMulti c s;
        s \<leftarrow> unwatchAllKeys c s;
        let commands = cl_commands (ms_clients s c);
        let s = addReply c (MbulkHdr (length commands)) s;
        s \<leftarrow> exec_loop c commands s;
        let s = clear_multi c (initClientMultiState c s);
        Some (s\<lparr>ms_dirty := ms_dirty s + 1\<rparr>)
      })"

text \<open>The end of \<open>processCommand\<close>: inside a transaction commands are queued.\<close>

fun tx_proc :: "proc \<Rightarrow> bool" where
  "tx_proc UnwatchProc = False"
| "tx_proc (OtherProc f) = False"
| "tx_proc _ = True"

definition processCommand_exec :: "cid \<Rightarrow> multiCmd \<Rightarrow> mserver \<Rightarrow> mserver option" where
  "processCommand_exec c m s =
     (if cl_multi (ms_clients s c) \<and> \<not> tx_proc (mc_cmd m)
      then Some (addReply c (Shared ''queued'') (queueMultiCommand c m s))
      else case mc_cmd m of ExecProc \<Rightarrow> execCommand c s | _ \<Rightarrow> call_queued c m s)"

primrec process_all :: "(cid \<times> multiCmd) list \<Rightarrow> mserver \<Rightarrow> mserver option" where
  "process_all [] s = Some s"
| "process_all (x # xs) s = do { s \<leftarrow> processCommand_exec (fst x) (snd x) s; process_all xs s }"

section \<open>The watch tables agree\<close>

definition watchers :: "mserver \<Rightarrow> nat \<Rightarrow> key \<Rightarrow> cid list" where
  "watchers s db k = (case map_of (ms_watched s db) k of None \<Rightarrow> [] | Some l \<Rightarrow> l)"

text \<open>
  The clients watching a key and the keys watched by a client are the same relation, without
  duplicates, and no transaction command is in a queue.
\<close>

definition ms_ok :: "mserver \<Rightarrow> bool" where
  "ms_ok s \<longleftrightarrow>
     (\<forall>c db k. \<lparr>wk_key = k, wk_db = db\<rparr> \<in> set (cl_watched (ms_clients s c)) \<longleftrightarrow> c \<in> set (watchers s db k)) \<and>
     (\<forall>c. distinct (cl_watched (ms_clients s c))) \<and> (\<forall>db k. distinct (watchers s db k)) \<and>
     (\<forall>c. \<forall>m \<in> set (cl_commands (ms_clients s c)). \<not> tx_proc (mc_cmd m))"

text \<open>What a client keeps: its watched keys, its transaction, and its dirty flag once it is set.\<close>

definition kept :: "mclient \<Rightarrow> mclient \<Rightarrow> bool" where
  "kept x y \<longleftrightarrow> cl_watched y = cl_watched x \<and> cl_multi y = cl_multi x \<and> cl_commands y = cl_commands x \<and>
     (cl_dirty_cas x \<longrightarrow> cl_dirty_cas y)"

lemma kept_refl [simp]: "kept x x"
  by (simp add: kept_def)

lemma kept_trans: "kept x y \<Longrightarrow> kept y z \<Longrightarrow> kept x z"
  by (auto simp: kept_def)

text \<open>A step that only marks clients dirty, replies, or changes the keyspace.\<close>

definition quiet :: "mserver \<Rightarrow> mserver \<Rightarrow> bool" where
  "quiet s s' \<longleftrightarrow> (\<forall>c. kept (ms_clients s c) (ms_clients s' c)) \<and> ms_watched s' = ms_watched s"

lemma quiet_refl [simp]: "quiet s s"
  by (simp add: quiet_def)

lemma quiet_trans: "quiet s t \<Longrightarrow> quiet t u \<Longrightarrow> quiet s u"
  unfolding quiet_def by (metis kept_trans)

lemma quiet_ok: "quiet s s' \<Longrightarrow> ms_ok s' = ms_ok s"
  by (simp add: quiet_def ms_ok_def kept_def watchers_def)

lemma quiet_fold: "(\<And>x s. quiet s (f x s)) \<Longrightarrow> quiet s (fold f xs s)"
  by (induction xs arbitrary: s) (auto intro: quiet_trans)

lemma quiet_addReply [simp]: "quiet s (addReply c r s)"
  by (simp add: quiet_def addReply_def on_client_def kept_def)

lemma quiet_mark_dirty [simp]: "quiet s (mark_dirty c s)"
  by (simp add: quiet_def mark_dirty_def on_client_def kept_def)

lemma quiet_touch [simp]: "quiet s (touchWatchedKey db k s)"
  by (auto simp: touchWatchedKey_def intro: quiet_fold split: option.split)

lemma quiet_flush [simp]: "quiet s (touchWatchedKeysOnFlush d s)"
  unfolding touchWatchedKeysOnFlush_def by (intro quiet_fold) (simp add: flush_key_def)

lemma quiet_upd [simp]:
  "quiet s (s'\<lparr>ms_exists := e\<rparr>) = quiet s s'" "quiet s (s'\<lparr>ms_dirty := n\<rparr>) = quiet s s'"
  by (simp_all add: quiet_def)

lemma quiet_db: "quiet s (on_client c (\<lambda>cl. cl\<lparr>cl_db := db\<rparr>) s)"
  by (simp add: quiet_def on_client_def kept_def)

lemma quiet_effect: "quiet s (apply_effect c e s)"
  by (cases e) (simp_all add: Let_def signalModifiedKey_def signalFlushedDb_def quiet_fold quiet_db)

lemma mark_dirty_fold:
  "cl_dirty_cas (ms_clients (fold mark_dirty cs s) c) \<longleftrightarrow> c \<in> set cs \<or> cl_dirty_cas (ms_clients s c)"
  by (induction cs arbitrary: s) (auto simp: mark_dirty_def on_client_def)

text \<open>Touching a key marks exactly the clients that watch it.\<close>

lemma touch_dirty:
  "cl_dirty_cas (ms_clients (touchWatchedKey db k s) c) \<longleftrightarrow> c \<in> set (watchers s db k) \<or> cl_dirty_cas (ms_clients s c)"
  by (auto simp: touchWatchedKey_def watchers_def mark_dirty_fold split: option.split)

lemma effects_dirty:
  assumes "Modified db k ex \<in> set es" "c \<in> set (watchers s db k)"
  shows "cl_dirty_cas (ms_clients (fold (apply_effect c') es s) c)"
  using assms
proof (induction es arbitrary: s)
  case (Cons e es)
  have q: "quiet s (apply_effect c' e s)" by (rule quiet_effect)
  show ?case
  proof (cases "e = Modified db k ex")
    case True
    then have d: "cl_dirty_cas (ms_clients (apply_effect c' e s) c)"
      using Cons.prems(2) by (simp add: signalModifiedKey_def touch_dirty Let_def)
    have "quiet (apply_effect c' e s) (fold (apply_effect c') es (apply_effect c' e s))"
      by (rule quiet_fold) (rule quiet_effect)
    then show ?thesis using d by (simp add: quiet_def kept_def)
  next
    case False
    moreover have "watchers (apply_effect c' e s) = watchers s" using q by (simp add: quiet_def watchers_def fun_eq_iff)
    ultimately show ?thesis using Cons by simp
  qed
qed simp

lemma watchForKey_ok:
  assumes "ms_ok s"
  shows "ms_ok (watchForKey c k s) \<and> (\<forall>x. x \<noteq> c \<longrightarrow> ms_clients (watchForKey c k s) x = ms_clients s x) \<and>
    set (cl_watched (ms_clients (watchForKey c k s) c)) =
      insert \<lparr>wk_key = k, wk_db = cl_db (ms_clients s c)\<rparr> (set (cl_watched (ms_clients s c))) \<and>
    (\<exists>w. ms_clients (watchForKey c k s) c = (ms_clients s c)\<lparr>cl_watched := w\<rparr>)"
proof -
  define db where "db = cl_db (ms_clients s c)"
  have found: "(\<exists>wk \<in> set (cl_watched (ms_clients s c)). wk_db wk = db \<and> wk_key wk = k) \<longleftrightarrow>
      \<lparr>wk_key = k, wk_db = db\<rparr> \<in> set (cl_watched (ms_clients s c))"
  proof
    assume "\<exists>wk \<in> set (cl_watched (ms_clients s c)). wk_db wk = db \<and> wk_key wk = k"
    then obtain wk where "wk \<in> set (cl_watched (ms_clients s c))" "wk_db wk = db" "wk_key wk = k" by blast
    moreover from this(2,3) have "wk = \<lparr>wk_key = k, wk_db = db\<rparr>" by (cases wk) simp
    ultimately show "\<lparr>wk_key = k, wk_db = db\<rparr> \<in> set (cl_watched (ms_clients s c))" by simp
  qed force
  show ?thesis
  proof (cases "\<lparr>wk_key = k, wk_db = db\<rparr> \<in> set (cl_watched (ms_clients s c))")
    case True
    then have "watchForKey c k s = s" using found by (simp add: watchForKey_def Let_def db_def)
    then show ?thesis using assms True by (auto simp: db_def intro!: exI [of _ "cl_watched (ms_clients s c)"])
  next
    case False
    define s' where "s' = on_client c (\<lambda>cl. cl\<lparr>cl_watched := cl_watched cl @ [\<lparr>wk_key = k, wk_db = db\<rparr>]\<rparr>)
      (s\<lparr>ms_watched := (ms_watched s)(db := AList.update k (watchers s db k @ [c]) (ms_watched s db))\<rparr>)"
    have eq: "watchForKey c k s = s'"
      using False found unfolding watchForKey_def Let_def s'_def watchers_def db_def by (simp only: if_False)
    have w: "watchers s' d k' = (if d = db \<and> k' = k then watchers s db k @ [c] else watchers s d k')" for d k'
      by (simp add: s'_def on_client_def watchers_def update_conv)
    have cl: "ms_clients s' x = (if x = c then (ms_clients s c)\<lparr>cl_watched := cl_watched (ms_clients s c) @ [\<lparr>wk_key = k, wk_db = db\<rparr>]\<rparr>
        else ms_clients s x)" for x by (simp add: s'_def on_client_def)
    have "c \<notin> set (watchers s db k)" using assms False by (auto simp: ms_ok_def)
    then have "ms_ok s'" using assms False by (auto simp: ms_ok_def w cl)
    then show ?thesis unfolding eq by (auto simp: cl db_def)
  qed
qed

lemma watch_fold_ok:
  assumes "ms_ok s"
  shows "ms_ok (fold (watchForKey c) ks s) \<and> (\<forall>x. x \<noteq> c \<longrightarrow> ms_clients (fold (watchForKey c) ks s) x = ms_clients s x) \<and>
    set (cl_watched (ms_clients s c)) \<subseteq> set (cl_watched (ms_clients (fold (watchForKey c) ks s) c)) \<and>
    (\<forall>k \<in> set ks. \<lparr>wk_key = k, wk_db = cl_db (ms_clients s c)\<rparr> \<in> set (cl_watched (ms_clients (fold (watchForKey c) ks s) c))) \<and>
    (\<exists>w. ms_clients (fold (watchForKey c) ks s) c = (ms_clients s c)\<lparr>cl_watched := w\<rparr>)"
  using assms
proof (induction ks arbitrary: s)
  case Nil
  then show ?case by (auto intro!: exI [of _ "cl_watched (ms_clients s c)"])
next
  case (Cons k ks)
  note k = watchForKey_ok [OF Cons.prems, of c k]
  define s1 where "s1 = watchForKey c k s"
  note ih = Cons.IH [of s1]
  have ok1: "ms_ok s1" using k by (simp add: s1_def)
  obtain w where w: "ms_clients s1 c = (ms_clients s c)\<lparr>cl_watched := w\<rparr>" using k by (auto simp: s1_def)
  obtain w' where w': "ms_clients (fold (watchForKey c) ks s1) c = (ms_clients s1 c)\<lparr>cl_watched := w'\<rparr>" using ih ok1 by auto
  have sub: "insert \<lparr>wk_key = k, wk_db = cl_db (ms_clients s c)\<rparr> (set (cl_watched (ms_clients s c))) = set (cl_watched (ms_clients s1 c))"
    using k by (simp add: s1_def)
  have db: "cl_db (ms_clients s1 c) = cl_db (ms_clients s c)" using w by simp
  have ih': "ms_ok (fold (watchForKey c) ks s1)" "\<forall>x. x \<noteq> c \<longrightarrow> ms_clients (fold (watchForKey c) ks s1) x = ms_clients s1 x"
    "set (cl_watched (ms_clients s1 c)) \<subseteq> set (cl_watched (ms_clients (fold (watchForKey c) ks s1) c))"
    "\<forall>k \<in> set ks. \<lparr>wk_key = k, wk_db = cl_db (ms_clients s c)\<rparr> \<in> set (cl_watched (ms_clients (fold (watchForKey c) ks s1) c))"
    using ih [OF ok1] unfolding db by blast+
  have f: "fold (watchForKey c) (k # ks) s = fold (watchForKey c) ks s1" by (simp add: s1_def)
  have o: "\<forall>x. x \<noteq> c \<longrightarrow> ms_clients s1 x = ms_clients s x" using k by (simp add: s1_def)
  show ?case
    unfolding f
  proof (intro conjI)
    show "\<forall>x. x \<noteq> c \<longrightarrow> ms_clients (fold (watchForKey c) ks s1) x = ms_clients s x" using ih'(2) o by simp
    show "set (cl_watched (ms_clients s c)) \<subseteq> set (cl_watched (ms_clients (fold (watchForKey c) ks s1) c))"
      using sub ih'(3) by blast
    show "\<forall>k \<in> set (k # ks). \<lparr>wk_key = k, wk_db = cl_db (ms_clients s c)\<rparr> \<in> set (cl_watched (ms_clients (fold (watchForKey c) ks s1) c))"
      using sub ih'(3,4) by auto
    show "\<exists>w. ms_clients (fold (watchForKey c) ks s1) c = (ms_clients s c)\<lparr>cl_watched := w\<rparr>"
      using w w' by (intro exI [of _ w']) simp
  qed (rule ih'(1))
qed


lemma unwatch_loop_ok:
  assumes "ms_ok s" "cl_watched (ms_clients s c) = wks"
  shows "\<exists>w. unwatch_loop c wks s = Some (s\<lparr>ms_clients := (ms_clients s)(c := (ms_clients s c)\<lparr>cl_watched := []\<rparr>), ms_watched := w\<rparr>) \<and>
    ms_ok (s\<lparr>ms_clients := (ms_clients s)(c := (ms_clients s c)\<lparr>cl_watched := []\<rparr>), ms_watched := w\<rparr>)"
  using assms
proof (induction wks arbitrary: s)
  case Nil
  have "(ms_clients s c)\<lparr>cl_watched := []\<rparr> = ms_clients s c" using Nil.prems(2) by (cases "ms_clients s c") simp
  then have "s\<lparr>ms_clients := (ms_clients s)(c := (ms_clients s c)\<lparr>cl_watched := []\<rparr>), ms_watched := ms_watched s\<rparr> = s"
    by simp
  from ssubst [OF this, of "\<lambda>t. unwatch_loop c [] s = Some t \<and> ms_ok t"] Nil.prems(1)
  show ?case by (intro exI [of _ "ms_watched s"]) (simp add: fun_upd_def)
next
  case (Cons wk wks)
  obtain k db where wk: "wk = \<lparr>wk_key = k, wk_db = db\<rparr>" by (cases wk) auto
  have "wk \<in> set (cl_watched (ms_clients s c))" using Cons.prems(2) by simp
  then have c: "c \<in> set (watchers s db k)" using Cons.prems(1) wk by (simp add: ms_ok_def)
  then obtain l where l: "map_of (ms_watched s db) k = Some l" "watchers s db k = l"
    by (cases "map_of (ms_watched s db) k") (auto simp: watchers_def)
  define w where "w = (if remove1 c l = [] then AList.delete k (ms_watched s db) else AList.update k (remove1 c l) (ms_watched s db))"
  define s1 where "s1 = on_client c (\<lambda>cl. cl\<lparr>cl_watched := wks\<rparr>) (s\<lparr>ms_watched := (ms_watched s)(db := w)\<rparr>)"
  have eq: "unwatch_loop c (wk # wks) s = unwatch_loop c wks s1"
    using l c by (simp add: wk s1_def w_def Let_def)
  have wt: "watchers s1 d k' = (if d = db \<and> k' = k then remove1 c l else watchers s d k')" for d k'
    by (simp add: s1_def on_client_def watchers_def w_def update_conv' delete_conv')
  have cl: "ms_clients s1 x = (if x = c then (ms_clients s c)\<lparr>cl_watched := wks\<rparr> else ms_clients s x)" for x
    by (simp add: s1_def on_client_def)
  have d: "distinct l" "distinct (wk # wks)" using Cons.prems l(2) by (auto simp: ms_ok_def) (metis distinct.simps(2))+
  have ok1: "ms_ok s1"
    unfolding ms_ok_def
  proof (intro conjI allI)
    fix x d' k'
    show "\<lparr>wk_key = k', wk_db = d'\<rparr> \<in> set (cl_watched (ms_clients s1 x)) \<longleftrightarrow> x \<in> set (watchers s1 d' k')"
    proof (cases "x = c")
      case True
      have "\<lparr>wk_key = k', wk_db = d'\<rparr> \<in> set (wk # wks) \<longleftrightarrow> c \<in> set (watchers s d' k')"
        using Cons.prems(1) unfolding Cons.prems(2) [symmetric] ms_ok_def by blast
      then show ?thesis using True d l(2) by (auto simp: cl wt wk)
    next
      case False
      then have "\<lparr>wk_key = k', wk_db = d'\<rparr> \<in> set (cl_watched (ms_clients s x)) \<longleftrightarrow> x \<in> set (watchers s d' k')"
        using Cons.prems(1) by (simp add: ms_ok_def)
      then show ?thesis using False d l(2) by (auto simp: cl wt)
    qed
  qed (use Cons.prems(1) d in \<open>auto simp: ms_ok_def cl wt\<close>)
  have "cl_watched (ms_clients s1 c) = wks" by (simp add: cl)
  from Cons.IH [OF ok1 this] obtain w' where ih:
    "unwatch_loop c wks s1 = Some (s1\<lparr>ms_clients := (ms_clients s1)(c := (ms_clients s1 c)\<lparr>cl_watched := []\<rparr>), ms_watched := w'\<rparr>)"
    "ms_ok (s1\<lparr>ms_clients := (ms_clients s1)(c := (ms_clients s1 c)\<lparr>cl_watched := []\<rparr>), ms_watched := w'\<rparr>)" by blast
  have seq: "s1\<lparr>ms_clients := (ms_clients s1)(c := (ms_clients s1 c)\<lparr>cl_watched := []\<rparr>), ms_watched := w'\<rparr> =
      s\<lparr>ms_clients := (ms_clients s)(c := (ms_clients s c)\<lparr>cl_watched := []\<rparr>), ms_watched := w'\<rparr>"
    by (simp add: s1_def on_client_def)
  show ?case using ih unfolding seq eq by blast
qed

lemma unwatchAllKeys_ok:
  assumes "ms_ok s"
  shows "\<exists>w. unwatchAllKeys c s = Some (s\<lparr>ms_clients := (ms_clients s)(c := (ms_clients s c)\<lparr>cl_watched := []\<rparr>), ms_watched := w\<rparr>) \<and>
    ms_ok (s\<lparr>ms_clients := (ms_clients s)(c := (ms_clients s c)\<lparr>cl_watched := []\<rparr>), ms_watched := w\<rparr>)"
proof (cases "cl_watched (ms_clients s c) = []")
  case True
  then show ?thesis using unwatch_loop_ok [OF assms True] by (simp add: unwatchAllKeys_def)
next
  case False
  then show ?thesis using unwatch_loop_ok [OF assms refl] by (simp add: unwatchAllKeys_def)
qed

section \<open>Every command keeps the tables\<close>

text \<open>A change of one client that keeps its watched keys and queues no transaction command.\<close>

lemma on_client_ok:
  assumes "ms_ok s" "cl_watched (f (ms_clients s c)) = cl_watched (ms_clients s c)"
    "\<forall>m \<in> set (cl_commands (f (ms_clients s c))). \<not> tx_proc (mc_cmd m)"
  shows "ms_ok (on_client c f s)"
  using assms by (auto simp: ms_ok_def on_client_def watchers_def)

lemma addReply_ok [simp]: "ms_ok (addReply c r s) = ms_ok s"
  by (rule quiet_ok) simp

definition others_kept :: "cid \<Rightarrow> mserver \<Rightarrow> mserver \<Rightarrow> bool" where
  "others_kept c s s' \<longleftrightarrow> (\<forall>x. x \<noteq> c \<longrightarrow> kept (ms_clients s x) (ms_clients s' x))"

lemma others_kept_trans: "others_kept c s t \<Longrightarrow> others_kept c t u \<Longrightarrow> others_kept c s u"
  unfolding others_kept_def by (metis kept_trans)

lemma others_kept_on_client [simp]: "others_kept c s (on_client c f s)"
  by (simp add: others_kept_def on_client_def)

lemma others_kept_reply [simp]: "others_kept c s (addReply c r (on_client c f s))"
  by (simp add: others_kept_def on_client_def addReply_def)

lemma quiet_others: "quiet s s' \<Longrightarrow> others_kept c s s'"
  by (simp add: quiet_def others_kept_def)

lemma commands_ok: "ms_ok s \<Longrightarrow> \<forall>m \<in> set (cl_commands (ms_clients s c)). \<not> tx_proc (mc_cmd m)"
  by (simp add: ms_ok_def)

lemma clear_ok:
  assumes "ms_ok s"
  shows "ms_ok (clear_multi c (initClientMultiState c s))" "others_kept c s (clear_multi c (initClientMultiState c s))"
proof -
  have "ms_ok (initClientMultiState c s)"
    unfolding initClientMultiState_def using assms by (intro on_client_ok) simp_all
  then show "ms_ok (clear_multi c (initClientMultiState c s))"
    unfolding clear_multi_def using commands_ok by (intro on_client_ok) simp_all
  show "others_kept c s (clear_multi c (initClientMultiState c s))"
    unfolding clear_multi_def initClientMultiState_def using others_kept_trans others_kept_on_client by blast
qed

lemma unwatchCommand_ok:
  assumes "ms_ok s"
  shows "\<exists>s'. unwatchCommand c s = Some s' \<and> ms_ok s' \<and> others_kept c s s'"
proof -
  obtain w where w: "unwatchAllKeys c s = Some (s\<lparr>ms_clients := (ms_clients s)(c := (ms_clients s c)\<lparr>cl_watched := []\<rparr>), ms_watched := w\<rparr>)"
    "ms_ok (s\<lparr>ms_clients := (ms_clients s)(c := (ms_clients s c)\<lparr>cl_watched := []\<rparr>), ms_watched := w\<rparr>)"
    using unwatchAllKeys_ok [OF assms] by blast
  define s1 where "s1 = s\<lparr>ms_clients := (ms_clients s)(c := (ms_clients s c)\<lparr>cl_watched := []\<rparr>), ms_watched := w\<rparr>"
  have "ms_ok (on_client c (\<lambda>cl. cl\<lparr>cl_dirty_cas := False\<rparr>) s1)"
    using w(2) commands_ok unfolding s1_def [symmetric] by (intro on_client_ok) simp_all
  moreover have "others_kept c s (addReply c r (on_client c (\<lambda>cl. cl\<lparr>cl_dirty_cas := False\<rparr>) s1))" for r
    by (simp add: others_kept_def s1_def on_client_def addReply_def)
  ultimately show ?thesis using w(1) by (simp add: unwatchCommand_def flip: s1_def)
qed

lemma discardTransaction_ok:
  assumes "ms_ok s"
  shows "\<exists>s'. discardTransaction c s = Some s' \<and> ms_ok s' \<and> others_kept c s s' \<and>
    ms_clients s' c = (ms_clients s c)\<lparr>cl_commands := [], cl_multi := False, cl_dirty_cas := False, cl_watched := []\<rparr> \<and>
    ms_exists s' = ms_exists s \<and> ms_dirty s' = ms_dirty s"
proof -
  define s1 where "s1 = clear_multi c (initClientMultiState c s)"
  have s1: "ms_ok s1" "others_kept c s s1" using clear_ok [OF assms] by (simp_all add: s1_def)
  obtain w where w: "unwatchAllKeys c s1 = Some (s1\<lparr>ms_clients := (ms_clients s1)(c := (ms_clients s1 c)\<lparr>cl_watched := []\<rparr>), ms_watched := w\<rparr>)"
    "ms_ok (s1\<lparr>ms_clients := (ms_clients s1)(c := (ms_clients s1 c)\<lparr>cl_watched := []\<rparr>), ms_watched := w\<rparr>)"
    using unwatchAllKeys_ok [OF s1(1)] by blast
  have "others_kept c s (s1\<lparr>ms_clients := (ms_clients s1)(c := (ms_clients s1 c)\<lparr>cl_watched := []\<rparr>), ms_watched := w\<rparr>)"
    using s1(2) by (simp add: others_kept_def)
  moreover have "ms_clients s1 c = (ms_clients s c)\<lparr>cl_commands := [], cl_multi := False, cl_dirty_cas := False\<rparr>"
    "ms_exists s1 = ms_exists s" "ms_dirty s1 = ms_dirty s"
    by (simp_all add: s1_def clear_multi_def initClientMultiState_def on_client_def)
  ultimately show ?thesis using w by (simp add: discardTransaction_def flip: s1_def)
qed

lemma call_queued_ok:
  assumes "ms_ok s" "mc_cmd m \<noteq> ExecProc"
  shows "\<exists>s'. call_queued c m s = Some s' \<and> ms_ok s' \<and> others_kept c s s'"
proof (cases "mc_cmd m")
  case MultiProc
  have "ms_ok (on_client c (\<lambda>cl. cl\<lparr>cl_multi := True\<rparr>) s)"
    using assms(1) commands_ok by (intro on_client_ok) simp_all
  then show ?thesis using assms(1) MultiProc
    by (auto simp: call_queued_def multiCommand_def intro: quiet_others)
next
  case DiscardProc
  obtain s' where "discardTransaction c s = Some s'" "ms_ok s'" "others_kept c s s'"
    using discardTransaction_ok [OF assms(1)] by blast
  then show ?thesis using assms(1) DiscardProc
    by (auto simp: call_queued_def discardCommand_def intro: quiet_others others_kept_trans [OF _ quiet_others])
next
  case WatchProc
  have "others_kept c s (fold (watchForKey c) (mc_argv m) s)"
    using watch_fold_ok [OF assms(1), of c "mc_argv m"] by (simp add: others_kept_def)
  then show ?thesis using assms(1) WatchProc watch_fold_ok [OF assms(1), of c "mc_argv m"]
    by (auto simp: call_queued_def watchCommand_def intro: quiet_others others_kept_trans [OF _ quiet_others])
next
  case UnwatchProc
  then show ?thesis using unwatchCommand_ok [OF assms(1)] by (simp add: call_queued_def)
next
  case (OtherProc f)
  have q: "quiet s (fold (apply_effect c) es s)" for es by (rule quiet_fold) (rule quiet_effect)
  then show ?thesis using assms(1) OtherProc quiet_ok [OF q] by (auto simp: call_queued_def intro: quiet_others)
qed (use assms in auto)

lemma exec_loop_ok:
  assumes "ms_ok s" "\<forall>m \<in> set ms. \<not> tx_proc (mc_cmd m)"
  shows "\<exists>s'. exec_loop c ms s = Some s' \<and> ms_ok s' \<and> others_kept c s s'"
  using assms
proof (induction ms arbitrary: s)
  case (Cons m ms)
  have "mc_cmd m \<noteq> ExecProc" using Cons.prems(2) by auto
  then obtain s1 where "call_queued c m s = Some s1" "ms_ok s1" "others_kept c s s1"
    using call_queued_ok [OF Cons.prems(1)] by blast
  then show ?case using Cons.IH [of s1] Cons.prems(2) by (auto intro: others_kept_trans)
qed (simp add: others_kept_def)

lemma call_queued_exec_loop: "exec_loop c (xs @ ys) s = Option.bind (exec_loop c xs s) (exec_loop c ys)"
  by (induction xs arbitrary: s) (auto split: bind_splits)

lemma replicate_kept [simp]: "ms_clients (execCommandReplicateMulti c s) = ms_clients s" 
  "ms_watched (execCommandReplicateMulti c s) = ms_watched s" "ms_exists (execCommandReplicateMulti c s) = ms_exists s"
  "ms_dirty (execCommandReplicateMulti c s) = ms_dirty s"
  by (simp_all add: execCommandReplicateMulti_def Let_def)

lemma execCommand_ok:
  assumes "ms_ok s"
  shows "\<exists>s'. execCommand c s = Some s' \<and> ms_ok s' \<and> others_kept c s s'"
proof -
  consider "\<not> cl_multi (ms_clients s c)" | "cl_multi (ms_clients s c)" "cl_dirty_cas (ms_clients s c)"
    | "cl_multi (ms_clients s c)" "\<not> cl_dirty_cas (ms_clients s c)" by blast
  then show ?thesis
  proof cases
    case 1
    then show ?thesis using assms by (simp add: execCommand_def quiet_others)
  next
    case 2
    obtain s' where d: "discardTransaction c s = Some s'" "ms_ok s'" "others_kept c s s'"
      using discardTransaction_ok [OF assms] by blast
    have "execCommand c s = Some (addReply c (Shared ''nullmultibulk'') s')"
      using 2 d(1) by (simp add: execCommand_def discardTransaction_def)
    then show ?thesis using d others_kept_trans [OF d(3) quiet_others] by simp
  next
    case 3
    define s0 where "s0 = execCommandReplicateMulti c s"
    have q0: "quiet s s0" by (simp add: quiet_def s0_def)
    have ok0: "ms_ok s0" using assms quiet_ok [OF q0] by simp
    obtain w where w: "unwatchAllKeys c s0 = Some (s0\<lparr>ms_clients := (ms_clients s0)(c := (ms_clients s0 c)\<lparr>cl_watched := []\<rparr>), ms_watched := w\<rparr>)"
      "ms_ok (s0\<lparr>ms_clients := (ms_clients s0)(c := (ms_clients s0 c)\<lparr>cl_watched := []\<rparr>), ms_watched := w\<rparr>)"
      using unwatchAllKeys_ok [OF ok0] by blast
    define s1 where "s1 = s0\<lparr>ms_clients := (ms_clients s0)(c := (ms_clients s0 c)\<lparr>cl_watched := []\<rparr>), ms_watched := w\<rparr>"
    have o1: "others_kept c s s1" using q0 by (simp add: others_kept_def s1_def quiet_def)
    define s2 where "s2 = addReply c (MbulkHdr (length (cl_commands (ms_clients s1 c)))) s1"
    have ok2: "ms_ok s2" "others_kept c s1 s2" using w(2) by (simp_all add: s2_def s1_def quiet_others)
    obtain s3 where s3: "exec_loop c (cl_commands (ms_clients s1 c)) s2 = Some s3" "ms_ok s3" "others_kept c s2 s3"
      using exec_loop_ok [OF ok2(1)] commands_ok w(2) unfolding s1_def [symmetric] by blast
    define s4 where "s4 = clear_multi c (initClientMultiState c s3)"
    have s4: "ms_ok s4" "others_kept c s3 s4" using clear_ok [OF s3(2)] by (simp_all add: s4_def)
    have "execCommand c s = Some (s4\<lparr>ms_dirty := ms_dirty s4 + 1\<rparr>)"
      using 3 w(1) s3(1) by (simp add: execCommand_def Let_def s4_def flip: s0_def s1_def s2_def)
    moreover have "quiet s4 (s4\<lparr>ms_dirty := ms_dirty s4 + 1\<rparr>)" by simp
    ultimately show ?thesis
      using s4 quiet_ok quiet_others others_kept_trans [OF o1 others_kept_trans [OF ok2(2) others_kept_trans [OF s3(3) s4(2)]]]
      by (metis others_kept_trans)
  qed
qed

lemma processCommand_exec_ok:
  assumes "ms_ok s"
  shows "\<exists>s'. processCommand_exec c m s = Some s' \<and> ms_ok s' \<and> others_kept c s s'"
proof -
  consider "cl_multi (ms_clients s c) \<and> \<not> tx_proc (mc_cmd m)" | "\<not> (cl_multi (ms_clients s c) \<and> \<not> tx_proc (mc_cmd m))" "mc_cmd m = ExecProc"
    | "\<not> (cl_multi (ms_clients s c) \<and> \<not> tx_proc (mc_cmd m))" "mc_cmd m \<noteq> ExecProc" by blast
  then show ?thesis
  proof cases
    case 1
    have "ms_ok (queueMultiCommand c m s)"
      unfolding queueMultiCommand_def using assms 1 commands_ok [OF assms] by (intro on_client_ok) auto
    moreover have "others_kept c s (addReply c r (queueMultiCommand c m s))" for r
      by (simp add: queueMultiCommand_def)
    ultimately show ?thesis using 1 by (simp add: processCommand_exec_def)
  next
    case 2
    then show ?thesis using execCommand_ok [OF assms] by (simp add: processCommand_exec_def)
  next
    case 3
    then have "processCommand_exec c m s = call_queued c m s"
      unfolding processCommand_exec_def by (simp only: if_False) (cases "mc_cmd m"; simp)
    then show ?thesis using call_queued_ok [OF assms 3(2)] by simp
  qed
qed

lemma process_all_ok: "ms_ok s \<Longrightarrow> \<exists>s'. process_all xs s = Some s' \<and> ms_ok s'"
proof (induction xs arbitrary: s)
  case (Cons x xs)
  then show ?case using processCommand_exec_ok [OF Cons.prems, of "fst x" "snd x"] by auto
qed simp

section \<open>Aborted transactions\<close>

text \<open>A command of \<open>c\<close> other than EXEC, DISCARD and UNWATCH keeps what it watches and its dirty flag.\<close>

fun keeps_watch :: "proc \<Rightarrow> bool" where
  "keeps_watch ExecProc = False"
| "keeps_watch DiscardProc = False"
| "keeps_watch UnwatchProc = False"
| "keeps_watch _ = True"

definition still :: "cid \<Rightarrow> mserver \<Rightarrow> mserver \<Rightarrow> bool" where
  "still c s s' \<longleftrightarrow> set (cl_watched (ms_clients s c)) \<subseteq> set (cl_watched (ms_clients s' c)) \<and>
     (cl_dirty_cas (ms_clients s c) \<longrightarrow> cl_dirty_cas (ms_clients s' c))"

lemma still_trans: "still c s t \<Longrightarrow> still c t u \<Longrightarrow> still c s u"
  by (auto simp: still_def)

lemma still_quiet: "quiet s s' \<Longrightarrow> still c s s'"
  by (simp add: still_def quiet_def kept_def)

lemma still_reply: "still c s s' \<Longrightarrow> still c s (addReply c' r s')"
  using still_trans still_quiet quiet_addReply by blast

lemma still_own:
  assumes "ms_ok s" "keeps_watch (mc_cmd m)" "processCommand_exec c m s = Some s'"
  shows "still c s s'"
proof -
  have q: "quiet s (fold (apply_effect c) es s)" for es by (rule quiet_fold) (rule quiet_effect)
  have w: "still c s (fold (watchForKey c) ks s)" for ks
    using watch_fold_ok [OF assms(1), of c ks] by (auto simp: still_def)
  have m: "still c s (on_client c (\<lambda>cl. cl\<lparr>cl_multi := True\<rparr>) s)" "still c s (queueMultiCommand c m s)" "still c s s"
    by (simp_all add: still_def on_client_def queueMultiCommand_def)
  note r = still_reply [OF m(1)] still_reply [OF m(2)] still_reply [OF m(3)] still_reply [OF w] still_quiet [OF q]
  show ?thesis
    using assms(2,3) by (cases "mc_cmd m")
      (auto simp: processCommand_exec_def call_queued_def multiCommand_def watchCommand_def split: if_splits intro: r)
qed

lemma still_step:
  assumes "ms_ok s" "fst x = c \<Longrightarrow> keeps_watch (mc_cmd (snd x))" "processCommand_exec (fst x) (snd x) s = Some s'"
  shows "still c s s'"
proof (cases "fst x = c")
  case True
  then show ?thesis using still_own assms by metis
next
  case False
  then have "kept (ms_clients s c) (ms_clients s' c)"
    using processCommand_exec_ok [OF assms(1), of "fst x" "snd x"] assms(3) by (auto simp: others_kept_def)
  then show ?thesis by (simp add: still_def kept_def)
qed

lemma still_run:
  assumes "ms_ok s" "\<forall>x \<in> set xs. fst x = c \<longrightarrow> keeps_watch (mc_cmd (snd x))" "process_all xs s = Some s'"
  shows "still c s s' \<and> ms_ok s'"
  using assms
proof (induction xs arbitrary: s)
  case Nil
  then show ?case by (simp add: still_def)
next
  case (Cons x xs)
  obtain s1 where s1: "processCommand_exec (fst x) (snd x) s = Some s1" "process_all xs s1 = Some s'"
    using Cons.prems(3) by (auto split: bind_splits)
  have "ms_ok s1" using processCommand_exec_ok [OF Cons.prems(1), of "fst x" "snd x"] s1(1) by auto
  moreover have "still c s s1" by (rule still_step [OF Cons.prems(1) _ s1(1)]) (use Cons.prems(2) in auto)
  ultimately show ?case using Cons.IH [OF _ _ s1(2)] Cons.prems(2) still_trans by (metis list.set_intros(2))
qed

lemma process_all_append: "process_all (xs @ ys) s = Option.bind (process_all xs s) (process_all ys)"
  by (induction xs arbitrary: s) (auto split: bind_splits)

text \<open>A concrete server: client 0 is in a transaction and watches key \<open>[107]\<close> of database 0.\<close>

definition demo_client :: mclient where
  "demo_client = \<lparr>cl_multi = False, cl_dirty_cas = False, cl_commands = [], cl_watched = [], cl_db = 0, cl_out = []\<rparr>"

definition demo_server :: mserver where
  "demo_server = \<lparr>ms_clients = (\<lambda>_. demo_client)(0 := demo_client\<lparr>cl_multi := True, cl_watched := [\<lparr>wk_key = [107], wk_db = 0\<rparr>],
       cl_commands := [\<lparr>mc_cmd = OtherProc (\<lambda>multi db argv ex. [Modified db [107] True, Out [Shared ''ok'']]), mc_argv = []\<rparr>]\<rparr>),
     ms_client_list = [0, 1], ms_watched = (\<lambda>_. [])(0 := [([107], [0])]), ms_exists = \<lambda>_ _. False, ms_dirty = 0,
     ms_aof_on = True, ms_has_slaves = False, ms_aof_feed = [], ms_slave_feed = []\<rparr>"

lemma demo_ok: "ms_ok demo_server"
  unfolding ms_ok_def demo_server_def demo_client_def watchers_def by auto

lemma exec_dirty:
  assumes "ms_ok s" "cl_multi (ms_clients s c)" "cl_dirty_cas (ms_clients s c)" "mc_cmd m = ExecProc"
  shows "\<exists>s'. processCommand_exec c m s = Some s' \<and> ms_exists s' = ms_exists s \<and> ms_dirty s' = ms_dirty s \<and>
    ms_clients s' c = (ms_clients s c)\<lparr>cl_commands := [], cl_multi := False, cl_dirty_cas := False, cl_watched := [],
      cl_out := cl_out (ms_clients s c) @ [Shared ''nullmultibulk'']\<rparr>"
proof -
  obtain s' where d: "discardTransaction c s = Some s'" "ms_exists s' = ms_exists s" "ms_dirty s' = ms_dirty s"
    "ms_clients s' c = (ms_clients s c)\<lparr>cl_commands := [], cl_multi := False, cl_dirty_cas := False, cl_watched := []\<rparr>"
    using discardTransaction_ok [OF assms(1)] by blast
  have "processCommand_exec c m s = Some (addReply c (Shared ''nullmultibulk'') s')"
    using assms d(1) by (simp add: processCommand_exec_def execCommand_def discardTransaction_def)
  then show ?thesis using d by (simp add: addReply_def on_client_def)
qed

text \<open>
  C28: WATCH gives optimistic locking.  If client \<open>c\<close> watches a key, and after that (whatever \<open>c\<close> queues,
  watches or runs short of EXEC, DISCARD and UNWATCH, and whatever other clients do) another client
  outside a transaction runs a command that modifies the key, then the EXEC of \<open>c\<close> replies with a null
  multi bulk, executes nothing, and leaves \<open>c\<close> with an empty queue and no watched keys.
\<close>

theorem watch_aborts:
  assumes "ms_ok s" "\<lparr>wk_key = k, wk_db = db\<rparr> \<in> set (cl_watched (ms_clients s c))"
    "\<forall>x \<in> set (xs @ ys). fst x = c \<longrightarrow> keeps_watch (mc_cmd (snd x))"
    "process_all xs s = Some s1" "c' \<noteq> c" "\<not> cl_multi (ms_clients s1 c')" "mc_cmd m = OtherProc f"
    "Modified db k ex \<in> set (f False (cl_db (ms_clients s1 c')) (mc_argv m) (ms_exists s1))"
    "process_all (xs @ (c', m) # ys) s = Some s2" "cl_multi (ms_clients s2 c)" "mc_cmd e = ExecProc"
  shows "\<exists>s3. processCommand_exec c e s2 = Some s3 \<and> ms_exists s3 = ms_exists s2 \<and> ms_dirty s3 = ms_dirty s2 \<and>
    ms_clients s3 c = (ms_clients s2 c)\<lparr>cl_commands := [], cl_multi := False, cl_dirty_cas := False, cl_watched := [],
      cl_out := cl_out (ms_clients s2 c) @ [Shared ''nullmultibulk'']\<rparr>"
proof -
  have s1: "still c s s1" "ms_ok s1" using still_run [OF assms(1) _ assms(4)] assms(3) by auto
  have "c \<in> set (watchers s1 db k)" using s1 assms(2) by (auto simp: still_def ms_ok_def)
  define sm where "sm = fold (apply_effect c') (f False (cl_db (ms_clients s1 c')) (mc_argv m) (ms_exists s1)) s1"
  have m: "processCommand_exec c' m s1 = Some sm"
    using assms(6,7) by (simp add: processCommand_exec_def call_queued_def sm_def)
  have d: "cl_dirty_cas (ms_clients sm c)"
    unfolding sm_def by (rule effects_dirty [OF assms(8)]) fact
  have okm: "ms_ok sm" using processCommand_exec_ok [OF s1(2), of c' m] m by auto
  have "process_all ys sm = Some s2" using assms(9) m by (simp add: process_all_append assms(4))
  from still_run [OF okm _ this] assms(3) have "still c sm s2" "ms_ok s2" by auto
  with d show ?thesis using exec_dirty [OF _ assms(10) _ assms(11)] by (simp add: still_def)
qed

theorem watch_aborts_witness:
  "\<exists>s2 s3. process_all [(1, \<lparr>mc_cmd = OtherProc (\<lambda>multi db argv ex. [Modified db [107] True]), mc_argv = []\<rparr>)] demo_server = Some s2 \<and>
     processCommand_exec 0 \<lparr>mc_cmd = ExecProc, mc_argv = []\<rparr> s2 = Some s3 \<and> ms_exists s3 0 [107] \<and>
     cl_out (ms_clients s3 0) = [Shared ''nullmultibulk''] \<and> cl_watched (ms_clients s3 0) = []"
proof -
  let ?m = "\<lparr>mc_cmd = OtherProc (\<lambda>multi db argv ex. [Modified db [107] True]), mc_argv = []\<rparr>"
  obtain s2 where s2: "process_all ([] @ (1, ?m) # []) demo_server = Some s2" "cl_multi (ms_clients s2 0)"
    "ms_exists s2 0 [107]" "cl_out (ms_clients s2 0) = []"
    by (simp add: demo_server_def demo_client_def processCommand_exec_def call_queued_def signalModifiedKey_def
        touchWatchedKey_def mark_dirty_def on_client_def Let_def)
  have "\<lparr>wk_key = [107], wk_db = 0\<rparr> \<in> set (cl_watched (ms_clients demo_server 0))"
    "\<not> cl_multi (ms_clients demo_server 1)" by (simp_all add: demo_server_def demo_client_def)
  from watch_aborts [OF demo_ok this(1) _ _ _ this(2) _ _ s2(1,2), of "\<lambda>multi db argv ex. [Modified db [107] True]" True
      "\<lparr>mc_cmd = ExecProc, mc_argv = []\<rparr>"]
  show ?thesis using s2 by (auto simp: demo_server_def demo_client_def)
qed

section \<open>Committed transactions\<close>

text \<open>The server as if client \<open>c\<close> were not in a transaction.\<close>

definition forget :: "cid \<Rightarrow> mserver \<Rightarrow> mserver" where
  "forget c s = on_client c (\<lambda>cl. cl\<lparr>cl_multi := False, cl_commands := []\<rparr>) s"

lemma forget_simps [simp]:
  "ms_watched (forget c s) = ms_watched s" "ms_exists (forget c s) = ms_exists s" "ms_dirty (forget c s) = ms_dirty s"
  "ms_client_list (forget c s) = ms_client_list s" "cl_watched (ms_clients (forget c s) x) = cl_watched (ms_clients s x)"
  "cl_db (ms_clients (forget c s) x) = cl_db (ms_clients s x)"
  "\<not> cl_multi (ms_clients (forget c s) c)"
  by (simp_all add: forget_def on_client_def)

lemma forget_upd [simp]:
  "forget c (s\<lparr>ms_exists := e\<rparr>) = (forget c s)\<lparr>ms_exists := e\<rparr>" "forget c (s\<lparr>ms_dirty := n\<rparr>) = (forget c s)\<lparr>ms_dirty := n\<rparr>"
  "forget c (s\<lparr>ms_watched := w\<rparr>) = (forget c s)\<lparr>ms_watched := w\<rparr>"
  by (simp_all add: forget_def on_client_def)

lemma forget_on_client:
  assumes "\<And>cl. f (cl\<lparr>cl_multi := False, cl_commands := []\<rparr>) = (f cl)\<lparr>cl_multi := False, cl_commands := []\<rparr>"
  shows "forget c (on_client x f s) = on_client x f (forget c s)"
  using assms by (simp add: forget_def on_client_def fun_upd_twist)

lemma forget_fold:
  assumes "\<And>x s. forget c (f x s) = f x (forget c s)"
  shows "forget c (fold f xs s) = fold f xs (forget c s)"
  using assms by (induction xs arbitrary: s) auto

lemma forget_mark [simp]: "forget c (mark_dirty x s) = mark_dirty x (forget c s)"
  unfolding mark_dirty_def by (rule forget_on_client) simp

lemma forget_reply [simp]: "forget c (addReply x r s) = addReply x r (forget c s)"
  unfolding addReply_def by (rule forget_on_client) simp

lemma forget_touch [simp]: "forget c (touchWatchedKey db k s) = touchWatchedKey db k (forget c s)"
  by (simp add: touchWatchedKey_def forget_fold split: option.split)

lemma forget_flush [simp]: "forget c (touchWatchedKeysOnFlush d s) = touchWatchedKeysOnFlush d (forget c s)"
proof -
  have "forget c (flush_key d x wk s) = flush_key d x wk (forget c s)" for x wk s
    by (simp add: flush_key_def)
  then show ?thesis
    unfolding touchWatchedKeysOnFlush_def by (subst forget_fold) (simp_all add: forget_fold)
qed

lemma mark_fold_simps [simp]:
  "ms_exists (fold mark_dirty cs s) = ms_exists s" "ms_dirty (fold mark_dirty cs s) = ms_dirty s"
  by (induction cs arbitrary: s) (simp_all add: mark_dirty_def on_client_def)

lemma touch_simps [simp]:
  "ms_exists (touchWatchedKey db k s) = ms_exists s" "ms_dirty (touchWatchedKey db k s) = ms_dirty s"
  by (simp_all add: touchWatchedKey_def split: option.split)

lemma fold_same: "(\<And>x s. g (f x s) = g s) \<Longrightarrow> g (fold f xs s) = g s"
  by (induction xs arbitrary: s) auto

lemma flush_simps [simp]:
  "ms_exists (touchWatchedKeysOnFlush d s) = ms_exists s" "ms_dirty (touchWatchedKeysOnFlush d s) = ms_dirty s"
  unfolding touchWatchedKeysOnFlush_def by (intro fold_same; simp add: flush_key_def mark_dirty_def on_client_def)+

lemma forget_effect: "forget c (apply_effect x e s) = apply_effect x e (forget c s)"
  by (cases e) (simp_all add: Let_def signalModifiedKey_def signalFlushedDb_def forget_fold forget_on_client)

lemma forget_unwatch_loop: "map_option (forget c) (unwatch_loop x wks s) = unwatch_loop x wks (forget c s)"
  by (induction wks arbitrary: s) (auto simp: forget_on_client Let_def split: bind_split option.split)

lemma forget_unwatchAllKeys: "map_option (forget c) (unwatchAllKeys x s) = unwatchAllKeys x (forget c s)"
  by (simp add: unwatchAllKeys_def forget_unwatch_loop)

text \<open>A command as it behaves in a transaction, whatever the flag of its client.\<close>

definition inside_multi :: "multiCmd \<Rightarrow> multiCmd" where
  "inside_multi m = (case mc_cmd m of OtherProc f \<Rightarrow> m\<lparr>mc_cmd := OtherProc (\<lambda>_. f True)\<rparr> | _ \<Rightarrow> m)"

lemma forget_call:
  assumes "\<not> tx_proc (mc_cmd m)" "cl_multi (ms_clients s c)"
  shows "map_option (forget c) (call_queued c m s) = processCommand_exec c (inside_multi m) (forget c s)"
proof (cases "mc_cmd m")
  case UnwatchProc
  have "map_option (forget c) (unwatchCommand c s) = unwatchCommand c (forget c s)"
    unfolding unwatchCommand_def forget_unwatchAllKeys [symmetric]
    by (cases "unwatchAllKeys c s") (simp_all add: forget_on_client)
  then show ?thesis using UnwatchProc by (simp add: processCommand_exec_def call_queued_def inside_multi_def)
next
  case (OtherProc f)
  then show ?thesis using assms(2) by (simp add: processCommand_exec_def call_queued_def inside_multi_def forget_fold forget_effect)
qed (use assms in auto)

text \<open>A client that watches nothing is not marked dirty by its own commands.\<close>

definition clean :: "cid \<Rightarrow> mserver \<Rightarrow> bool" where
  "clean c s \<longleftrightarrow> ms_ok s \<and> cl_watched (ms_clients s c) = [] \<and> \<not> cl_dirty_cas (ms_clients s c)"

lemma flush_clean:
  assumes "cl_watched (ms_clients s c) = []" "\<not> cl_dirty_cas (ms_clients s c)"
  shows "\<not> cl_dirty_cas (ms_clients (touchWatchedKeysOnFlush d s) c)"
proof -
  have "ms_clients (fold (flush_key d x) wks s) c = ms_clients s c" if "x \<noteq> c" for x wks s
    using that by (intro fold_same [of "\<lambda>s. ms_clients s c"]) (simp add: flush_key_def mark_dirty_def on_client_def)
  then have "ms_clients (fold (flush_key d x) (cl_watched (ms_clients s x)) s) c = ms_clients s c"
    if "cl_watched (ms_clients s c) = []" for x s
    using that by (cases "x = c") simp_all
  then have "ms_clients (fold (\<lambda>c s. fold (flush_key d c) (cl_watched (ms_clients s c)) s) xs s) c = ms_clients s c"
    if "cl_watched (ms_clients s c) = []" for xs s
    using that by (induction xs arbitrary: s) simp_all
  then show ?thesis using assms by (simp add: touchWatchedKeysOnFlush_def)
qed

lemma effect_clean:
  assumes "clean c s"
  shows "clean c (apply_effect x e s)"
proof -
  have q: "quiet s (apply_effect x e s)" by (rule quiet_effect)
  have w: "c \<notin> set (watchers s db k)" for db k
  proof
    assume "c \<in> set (watchers s db k)"
    moreover have "ms_ok s" using assms by (simp add: clean_def)
    ultimately have "\<lparr>wk_key = k, wk_db = db\<rparr> \<in> set (cl_watched (ms_clients s c))" unfolding ms_ok_def by blast
    then show False using assms by (simp add: clean_def)
  qed
  have r: "cl_dirty_cas (ms_clients (fold (addReply x) rs s) c) = cl_dirty_cas (ms_clients s c)" for rs
    by (rule fold_same [of "\<lambda>s. cl_dirty_cas (ms_clients s c)"]) (simp add: addReply_def on_client_def)
  have "\<not> cl_dirty_cas (ms_clients (apply_effect x e s) c)"
    using assms w flush_clean [of s c] r
    by (cases e) (auto simp: Let_def signalModifiedKey_def signalFlushedDb_def touch_dirty clean_def on_client_def)
  then show ?thesis using assms quiet_ok [OF q] q by (simp add: clean_def quiet_def kept_def)
qed

lemma clean_fold: "clean c s \<Longrightarrow> clean c (fold (apply_effect x) es s)"
  by (induction es arbitrary: s) (simp_all add: effect_clean)

lemma call_clean:
  assumes "clean c s" "\<not> tx_proc (mc_cmd m)"
  shows "\<exists>s'. call_queued c m s = Some s' \<and> clean c s' \<and> cl_multi (ms_clients s' c) = cl_multi (ms_clients s c)"
proof (cases "mc_cmd m")
  case UnwatchProc
  have "clean c (addReply c r (on_client c (\<lambda>cl. cl\<lparr>cl_dirty_cas := False\<rparr>) s))" for r
    using assms(1) on_client_ok [of s "\<lambda>cl. cl\<lparr>cl_dirty_cas := False\<rparr>" c] commands_ok [of s c]
    by (simp add: clean_def) (simp add: addReply_def on_client_def)
  then show ?thesis using UnwatchProc assms(1)
    by (simp add: call_queued_def unwatchCommand_def unwatchAllKeys_def clean_def) (simp add: addReply_def on_client_def)
next
  case (OtherProc f)
  have "quiet s (fold (apply_effect c) es s)" for es by (rule quiet_fold) (rule quiet_effect)
  then show ?thesis using OtherProc clean_fold [OF assms(1)] by (simp add: call_queued_def quiet_def kept_def)
qed (use assms in auto)

lemma exec_loop_replay:
  assumes "clean c s" "cl_multi (ms_clients s c)" "\<forall>m \<in> set ms. \<not> tx_proc (mc_cmd m)"
  shows "\<exists>s'. exec_loop c ms s = Some s' \<and> clean c s' \<and>
    process_all (map (\<lambda>m. (c, inside_multi m)) ms) (forget c s) = Some (forget c s')"
  using assms
proof (induction ms arbitrary: s)
  case (Cons m ms)
  obtain s1 where s1: "call_queued c m s = Some s1" "clean c s1" "cl_multi (ms_clients s1 c)"
    using call_clean [OF Cons.prems(1)] Cons.prems(2,3) by auto
  have "processCommand_exec c (inside_multi m) (forget c s) = Some (forget c s1)"
    using forget_call [of m s c] Cons.prems(2,3) s1(1) by simp
  then show ?case using Cons.IH [OF s1(2,3)] Cons.prems(3) s1(1) by simp
qed simp

lemma clear_forget:
  assumes "\<not> cl_dirty_cas (ms_clients s c)"
  shows "clear_multi c (initClientMultiState c s) = forget c s"
proof -
  have "(ms_clients s c)\<lparr>cl_commands := [], cl_multi := False, cl_dirty_cas := False\<rparr> =
      (ms_clients s c)\<lparr>cl_multi := False, cl_commands := []\<rparr>" using assms by (cases "ms_clients s c") simp
  then show ?thesis by (simp add: clear_multi_def initClientMultiState_def forget_def on_client_def)
qed

text \<open>
  C29: a transaction that commits.  If the watched keys of \<open>c\<close> are untouched (the dirty flag is off),
  EXEC replies with the number of queued commands and has exactly the effect, on the keyspace, on every
  client and on the watch tables, of leaving the transaction and running the queued commands one after
  the other as ordinary commands of \<open>c\<close>, but that a command that looks at the flag of a transaction still sees it:
  BLPOP, BRPOP and BRPOPLPUSH reply at once instead of blocking.  For every other command \<open>inside_multi\<close> is the
  command itself.  The server is marked changed once more at the end.
\<close>

theorem exec_commits:
  assumes "ms_ok s" "cl_multi (ms_clients s c)" "\<not> cl_dirty_cas (ms_clients s c)" "mc_cmd e = ExecProc"
  shows "\<exists>s0 s1. discardTransaction c (execCommandReplicateMulti c s) = Some s0 \<and>
    process_all (map (\<lambda>m. (c, inside_multi m)) (cl_commands (ms_clients s c)))
      (addReply c (MbulkHdr (length (cl_commands (ms_clients s c)))) s0) = Some s1 \<and>
    processCommand_exec c e s = Some (s1\<lparr>ms_dirty := ms_dirty s1 + 1\<rparr>)"
proof -
  define r where "r = execCommandReplicateMulti c s"
  let ?n = "MbulkHdr (length (cl_commands (ms_clients s c)))"
  have "quiet s r" by (simp add: quiet_def r_def)
  then have r: "ms_ok r" "ms_clients r = ms_clients s" using assms(1) quiet_ok by (simp_all add: r_def)
  obtain u where u: "unwatchAllKeys c r = Some u" "ms_ok u" "ms_clients u c = (ms_clients s c)\<lparr>cl_watched := []\<rparr>"
    using unwatchAllKeys_ok [OF r(1), of c] r(2) by auto
  have "clear_multi c (initClientMultiState c r) = forget c r" using clear_forget [of r c] assms(3) r(2) by simp
  then have d: "discardTransaction c r = Some (forget c u)"
    unfolding discardTransaction_def forget_unwatchAllKeys [symmetric] using u(1)
    by (simp flip: forget_unwatchAllKeys)
  have "clean c (addReply c ?n u)" using u(2,3) assms(3) by (simp add: clean_def) (simp add: addReply_def on_client_def)
  moreover have "cl_multi (ms_clients (addReply c ?n u) c)" using u(3) assms(2) by (simp add: addReply_def on_client_def)
  ultimately
  obtain v where v: "exec_loop c (cl_commands (ms_clients s c)) (addReply c ?n u) = Some v" "clean c v"
    "process_all (map (\<lambda>m. (c, inside_multi m)) (cl_commands (ms_clients s c))) (addReply c ?n (forget c u)) = Some (forget c v)"
    using exec_loop_replay [of c "addReply c ?n u" "cl_commands (ms_clients s c)"] commands_ok [OF assms(1)] by auto
  have "clear_multi c (initClientMultiState c v) = forget c v" using clear_forget v(2) by (simp add: clean_def)
  then have "processCommand_exec c e s = Some ((forget c v)\<lparr>ms_dirty := ms_dirty (forget c v) + 1\<rparr>)"
    using assms(2-4) u(1,3) v(1) by (simp add: processCommand_exec_def execCommand_def Let_def flip: r_def)
  then show ?thesis using d v(3) unfolding r_def by blast
qed

text \<open>The client has queued a command that writes its key, and a BLPOP on an empty list.\<close>

definition blpop_server :: mserver where
  "blpop_server = on_client 0 (\<lambda>cl. cl\<lparr>cl_commands := cl_commands cl @
     [\<lparr>mc_cmd = OtherProc (\<lambda>multi db argv ex. if multi then [Out [Shared ''nullmultibulk'']] else []), mc_argv = []\<rparr>]\<rparr>) demo_server"

lemma blpop_ok: "ms_ok blpop_server"
  unfolding ms_ok_def blpop_server_def demo_server_def demo_client_def watchers_def on_client_def by auto

theorem exec_commits_witness:
  "\<exists>s1. processCommand_exec 0 \<lparr>mc_cmd = ExecProc, mc_argv = []\<rparr> blpop_server = Some (s1\<lparr>ms_dirty := ms_dirty s1 + 1\<rparr>) \<and>
     ms_exists s1 0 [107] \<and> cl_out (ms_clients s1 0) = [MbulkHdr 2, Shared ''ok'', Shared ''nullmultibulk'']"
proof -
  obtain s0 s1 where s: "discardTransaction 0 (execCommandReplicateMulti 0 blpop_server) = Some s0"
    "process_all (map (\<lambda>m. (0, inside_multi m)) (cl_commands (ms_clients blpop_server 0)))
       (addReply 0 (MbulkHdr (length (cl_commands (ms_clients blpop_server 0)))) s0) = Some s1"
    "processCommand_exec 0 \<lparr>mc_cmd = ExecProc, mc_argv = []\<rparr> blpop_server = Some (s1\<lparr>ms_dirty := ms_dirty s1 + 1\<rparr>)"
    using exec_commits [OF blpop_ok, of 0 "\<lparr>mc_cmd = ExecProc, mc_argv = []\<rparr>"]
    by (auto simp: blpop_server_def demo_server_def demo_client_def on_client_def)
  have "ms_exists s1 0 [107] \<and> cl_out (ms_clients s1 0) = [MbulkHdr 2, Shared ''ok'', Shared ''nullmultibulk'']"
    using s(1,2) by (auto simp: blpop_server_def demo_server_def demo_client_def execCommandReplicateMulti_def Let_def discardTransaction_def
        unwatchAllKeys_def clear_multi_def initClientMultiState_def on_client_def addReply_def processCommand_exec_def
        call_queued_def inside_multi_def signalModifiedKey_def touchWatchedKey_def)
  then show ?thesis using s(3) by blast
qed

section \<open>Every run\<close>

text \<open>
  C30: whatever commands the clients send, starting from clients without transactions and empty watch
  tables, no command fails an assertion or removes a missing list node, and afterwards the two
  sides of the watch relation agree without duplicates: a client's list holds a key exactly when the
  key's table entry holds the client; no transaction command is ever queued.
\<close>

theorem transactions_run:
  assumes "\<forall>c. cl_watched (ms_clients s c) = [] \<and> cl_commands (ms_clients s c) = []" "\<forall>db. ms_watched s db = []"
  shows "\<exists>s'. process_all xs s = Some s' \<and> ms_ok s'"
  by (rule process_all_ok) (use assms in \<open>simp add: ms_ok_def watchers_def\<close>)

theorem transactions_run_witness:
  "\<exists>s'. process_all [(0, \<lparr>mc_cmd = WatchProc, mc_argv = [[107]]\<rparr>), (0, \<lparr>mc_cmd = MultiProc, mc_argv = []\<rparr>),
       (1, \<lparr>mc_cmd = DiscardProc, mc_argv = []\<rparr>), (0, \<lparr>mc_cmd = ExecProc, mc_argv = []\<rparr>)]
     (demo_server\<lparr>ms_clients := \<lambda>_. demo_client, ms_watched := \<lambda>_. []\<rparr>) = Some s' \<and> ms_ok s'"
  by (rule transactions_run) (simp_all add: demo_server_def demo_client_def)

end
