(* ===== verification/Sds.thy ===== *)
theory Sds
  imports Object "HOL-Library.Sublist"
begin

text \<open>
  \<open>redis/src/sds.c\<close>, \<open>sds.h\<close>: dynamic strings.  A string is its header, with the C
  \<open>int\<close> fields \<open>len\<close> and \<open>free\<close>, and the bytes allocated after it; \<open>size_t\<close> values
  are naturals.  Writes outside the allocation and failed assertions are \<open>None\<close>.  An allocation
  that fails ends the process in \<open>zmalloc\<close>, so the tests for \<open>NULL\<close> have no branch here.
  The functions that parse and print lines work on the contents of the strings.
\<close>

section \<open>Strings\<close>

record sdshdr =
  sh_len :: int
  sh_free :: int
  sh_buf :: "byte list"

definition int32 :: "int \<Rightarrow> int" where
  "int32 x = sint (word_of_int x :: u32)"

definition size_t :: "int \<Rightarrow> nat" where
  "size_t x = nat (x mod 2 ^ 64)"

definition sdslen :: "sdshdr \<Rightarrow> nat" where
  "sdslen s = size_t (sh_len s)"

definition sdsavail :: "sdshdr \<Rightarrow> nat" where
  "sdsavail s = size_t (sh_free s)"

definition sdsnewlen :: "host \<Rightarrow> byte list option \<Rightarrow> nat \<Rightarrow> sdshdr option" where
  "sdsnewlen h init initlen = do {
     buf \<leftarrow> (case init of
         Some m \<Rightarrow> (let buf = mem_resize h [] (initlen + 1) in
           if initlen \<noteq> 0 then do { bs \<leftarrow> rd m 0 initlen; wr buf 0 bs } else Some buf)
       | None \<Rightarrow> Some (replicate (initlen + 1) 0));
     buf \<leftarrow> wr buf initlen [0];
     Some \<lparr>sh_len = int32 (int initlen), sh_free = 0, sh_buf = buf\<rparr>
   }"

definition sdsempty :: "host \<Rightarrow> sdshdr option" where
  "sdsempty h = sdsnewlen h (Some []) 0"

definition sdsnew :: "host \<Rightarrow> byte list option \<Rightarrow> sdshdr option" where
  "sdsnew h init = sdsnewlen h init (case init of None \<Rightarrow> 0 | Some m \<Rightarrow> length (c_string m))"

definition sdsdup :: "host \<Rightarrow> sdshdr \<Rightarrow> sdshdr option" where
  "sdsdup h s = sdsnewlen h (Some (sh_buf s)) (sdslen s)"

definition sdsupdatelen :: "sdshdr \<Rightarrow> sdshdr option" where
  "sdsupdatelen s =
     (if 0 \<notin> set (sh_buf s) then None
      else let reallen = int32 (int (length (c_string (sh_buf s)))) in
        Some (s\<lparr>sh_free := int32 (sh_free s + int32 (sh_len s - reallen)), sh_len := reallen\<rparr>))"

definition sdsclear :: "sdshdr \<Rightarrow> sdshdr option" where
  "sdsclear s = do {
     buf \<leftarrow> wr (sh_buf s) 0 [0];
     Some (s\<lparr>sh_free := int32 (sh_free s + sh_len s), sh_len := 0, sh_buf := buf\<rparr>)
   }"

text \<open>The header takes 8 bytes; a block of more than \<open>2 ^ 64\<close> bytes does not exist.\<close>

definition sdsMakeRoomFor :: "host \<Rightarrow> sdshdr \<Rightarrow> nat \<Rightarrow> sdshdr option" where
  "sdsMakeRoomFor h s addlen =
     (if sdsavail s \<ge> addlen then Some s
      else
        let len = sdslen s;
            newlen = (len + addlen) mod 2 ^ 64;
            newlen = (if newlen < 1024 * 1024 then newlen * 2 else (newlen + 1024 * 1024) mod 2 ^ 64)
        in if 8 + newlen + 1 \<ge> 2 ^ 64 then None
           else Some (s\<lparr>sh_free := int32 (int newlen - int len), sh_buf := mem_resize h (sh_buf s) (newlen + 1)\<rparr>))"

definition sdsRemoveFreeSpace :: "host \<Rightarrow> sdshdr \<Rightarrow> sdshdr" where
  "sdsRemoveFreeSpace h s = s\<lparr>sh_free := 0, sh_buf := mem_resize h (sh_buf s) (size_t (sh_len s + 1))\<rparr>"

definition sdsAllocSize :: "sdshdr \<Rightarrow> nat" where
  "sdsAllocSize s = size_t (8 + sh_len s + sh_free s + 1)"

definition sdsIncrLen :: "sdshdr \<Rightarrow> int \<Rightarrow> sdshdr option" where
  "sdsIncrLen s incr =
     (if sh_free s < incr then None
      else
        let len = int32 (sh_len s + incr); free = int32 (sh_free s - incr) in
        if free < 0 then None
        else do { buf \<leftarrow> wrz (sh_buf s) len [0]; Some \<lparr>sh_len = len, sh_free = free, sh_buf = buf\<rparr> })"

definition sdsgrowzero :: "host \<Rightarrow> sdshdr \<Rightarrow> nat \<Rightarrow> sdshdr option" where
  "sdsgrowzero h s len =
     (let curlen = size_t (sh_len s) in
      if len \<le> curlen then Some s
      else do {
        s \<leftarrow> sdsMakeRoomFor h s (len - curlen);
        buf \<leftarrow> wr (sh_buf s) curlen (replicate (len - curlen + 1) 0);
        let totlen = size_t (sh_len s + sh_free s);
        Some \<lparr>sh_len = int32 (int len), sh_free = int32 (int totlen - int len), sh_buf = buf\<rparr>
      })"

definition sdscatlen :: "host \<Rightarrow> sdshdr \<Rightarrow> byte list \<Rightarrow> nat \<Rightarrow> sdshdr option" where
  "sdscatlen h s t len = do {
     let curlen = sdslen s;
     s \<leftarrow> sdsMakeRoomFor h s len;
     bs \<leftarrow> rd t 0 len;
     buf \<leftarrow> wr (sh_buf s) curlen bs;
     buf \<leftarrow> wr buf (curlen + len) [0];
     Some \<lparr>sh_len = int32 (int (curlen + len)), sh_free = int32 (sh_free s - int len), sh_buf = buf\<rparr>
   }"

definition sdscat :: "host \<Rightarrow> sdshdr \<Rightarrow> byte list \<Rightarrow> sdshdr option" where
  "sdscat h s t = sdscatlen h s t (length (c_string t))"

definition sdscatsds :: "host \<Rightarrow> sdshdr \<Rightarrow> sdshdr \<Rightarrow> sdshdr option" where
  "sdscatsds h s t = sdscatlen h s (sh_buf t) (sdslen t)"

definition sdscpylen :: "host \<Rightarrow> sdshdr \<Rightarrow> byte list \<Rightarrow> nat \<Rightarrow> sdshdr option" where
  "sdscpylen h s t len = do {
     let totlen = size_t (sh_free s + sh_len s);
     s \<leftarrow> (if totlen < len then sdsMakeRoomFor h s (size_t (int len - sh_len s)) else Some s);
     let totlen = size_t (sh_free s + sh_len s);
     bs \<leftarrow> rd t 0 len;
     buf \<leftarrow> wr (sh_buf s) 0 bs;
     buf \<leftarrow> wr buf len [0];
     Some \<lparr>sh_len = int32 (int len), sh_free = int32 (int totlen - int len), sh_buf = buf\<rparr>
   }"

definition sdscpy :: "host \<Rightarrow> sdshdr \<Rightarrow> byte list \<Rightarrow> sdshdr option" where
  "sdscpy h s t = sdscpylen h s t (length (c_string t))"

text \<open>
  \<open>out\<close> is everything the format produces; \<open>vsnprintf\<close> stores as much of it as fits before a
  zero byte.  The buffer is doubled until its last but one byte stays zero.
\<close>

function vprintf_loop :: "host \<Rightarrow> byte list \<Rightarrow> nat \<Rightarrow> byte list" where
  "vprintf_loop h out buflen =
     (let buf = (mem_resize h [] buflen)[buflen - 2 := 0];
          k = min (length out) (buflen - 1);
          buf = take k out @ [0] @ drop (k + 1) buf
      in if 2 \<le> buflen \<and> buf ! (buflen - 2) \<noteq> 0 then vprintf_loop h out (buflen * 2) else buf)"
  by pat_completeness auto
termination
proof (relation "measure (\<lambda>(h, out, n). length out + 2 - n)")
  fix h out n x xa xb
  assume x: "x = (mem_resize h [] n)[n - 2 := 0]" and k: "xa = min (length out) (n - 1)"
    and b: "xb = take xa out @ [0] @ drop (xa + 1) x" and nz: "2 \<le> n \<and> xb ! (n - 2) \<noteq> 0"
  have "n - 2 < length out"
  proof (rule ccontr)
    assume "\<not> n - 2 < length out"
    then have "xa = length out \<and> length out \<le> n - 2" using k nz by auto
    moreover have "length x = n" by (simp add: x)
    moreover have "\<not> n \<le> Suc (Suc (length out)) \<Longrightarrow> Suc (n - 3) = n - 2" by arith
    ultimately have "xb ! (n - 2) = x ! (n - 2) \<or> xb ! (n - 2) = 0"
      using nz by (auto simp: b nth_append nth_Cons')
    then have "xb ! (n - 2) = 0" using nz by (auto simp: x)
    then show False using nz by simp
  qed
  then show "((h, out, n * 2), (h, out, n)) \<in> measure (\<lambda>(h, out, n). length out + 2 - n)"
    using conjunct1 [OF nz] by auto
qed simp

declare vprintf_loop.simps [simp del]

definition sdscatvprintf :: "host \<Rightarrow> sdshdr \<Rightarrow> byte list \<Rightarrow> sdshdr option" where
  "sdscatvprintf h s out = sdscat h s (vprintf_loop h out 16)"

section \<open>Parts of strings\<close>

text \<open>\<open>strchr(cset, c)\<close> also finds the terminator of \<open>cset\<close>.\<close>

definition strchr :: "byte list \<Rightarrow> byte \<Rightarrow> bool" where
  "strchr cset c \<longleftrightarrow> c = 0 \<or> c \<in> set (c_string cset)"

function trim_left :: "byte list \<Rightarrow> byte list \<Rightarrow> int \<Rightarrow> int \<Rightarrow> int option" where
  "trim_left m cset sp en =
     (if sp \<le> en then do {
        c \<leftarrow> rdz m sp 1;
        if strchr cset (hd c) then trim_left m cset (sp + 1) en else Some sp
      } else Some sp)"
  by pat_completeness auto
termination by (relation "measure (\<lambda>(m, cset, sp, en). nat (en + 1 - sp))") auto

function trim_right :: "byte list \<Rightarrow> byte list \<Rightarrow> int \<Rightarrow> int \<Rightarrow> int option" where
  "trim_right m cset start ep =
     (if ep > start then do {
        c \<leftarrow> rdz m ep 1;
        if strchr cset (hd c) then trim_right m cset start (ep - 1) else Some ep
      } else Some ep)"
  by pat_completeness auto
termination by (relation "measure (\<lambda>(m, cset, start, ep). nat (ep - start))") auto

declare trim_left.simps [simp del]
declare trim_right.simps [simp del]

definition sdstrim :: "sdshdr \<Rightarrow> byte list \<Rightarrow> sdshdr option" where
  "sdstrim s cset = do {
     let en = int (sdslen s) - 1;
     sp \<leftarrow> trim_left (sh_buf s) cset 0 en;
     ep \<leftarrow> trim_right (sh_buf s) cset 0 en;
     let len = (if sp > ep then 0 else nat (ep - sp + 1));
     buf \<leftarrow> (if sp \<noteq> 0 then mem_move (sh_buf s) 0 (nat sp) len else Some (sh_buf s));
     buf \<leftarrow> wr buf len [0];
     Some \<lparr>sh_len = int32 (int len), sh_free = int32 (sh_free s + (sh_len s - int len)), sh_buf = buf\<rparr>
   }"

definition sdsrange :: "sdshdr \<Rightarrow> int \<Rightarrow> int \<Rightarrow> sdshdr option" where
  "sdsrange s start en =
     (let len = sdslen s in
      if len = 0 then Some s
      else
        let start = (if start < 0 then max 0 (int32 (int len + start)) else start);
            en = (if en < 0 then max 0 (int32 (int len + en)) else en);
            newlen = (if start > en then 0 else size_t (int32 (en - start + 1)));
            (start, newlen) =
              (if newlen \<noteq> 0 then
                 (if start \<ge> int32 (int len) then (start, 0)
                  else if en \<ge> int32 (int len)
                  then (start, let en = int32 (int len - 1) in
                          if start > en then 0 else size_t (int32 (en - start + 1)))
                  else (start, newlen))
               else (0, newlen))
        in do {
          buf \<leftarrow> (if start \<noteq> 0 \<and> newlen \<noteq> 0 then mem_move (sh_buf s) 0 (nat start) newlen else Some (sh_buf s));
          buf \<leftarrow> wr buf newlen [0];
          Some \<lparr>sh_len = int32 (int newlen), sh_free = int32 (sh_free s + (sh_len s - int newlen)), sh_buf = buf\<rparr>
        })"

definition toupper :: "byte \<Rightarrow> byte" where
  "toupper c = (if 97 \<le> c \<and> c \<le> 122 then c - 32 else c)"

text \<open>The loops over the bytes of a string.\<close>

definition map_prefix :: "nat \<Rightarrow> (byte \<Rightarrow> byte) \<Rightarrow> sdshdr \<Rightarrow> sdshdr option" where
  "map_prefix n f s = do { bs \<leftarrow> rd (sh_buf s) 0 n; buf \<leftarrow> wr (sh_buf s) 0 (map f bs); Some (s\<lparr>sh_buf := buf\<rparr>) }"

definition sdstolower :: "sdshdr \<Rightarrow> sdshdr option" where
  "sdstolower s = map_prefix (nat (int32 (int (sdslen s)))) tolower s"

definition sdstoupper :: "sdshdr \<Rightarrow> sdshdr option" where
  "sdstoupper s = map_prefix (nat (int32 (int (sdslen s)))) toupper s"

primrec map_char :: "byte list \<Rightarrow> byte list \<Rightarrow> nat \<Rightarrow> nat \<Rightarrow> byte \<Rightarrow> byte option" where
  "map_char from to i 0 c = Some c"
| "map_char from to i (Suc n) c = do {
     f \<leftarrow> peek from i;
     if c = f then peek to i else map_char from to (i + 1) n c
   }"

definition sdsmapchars :: "sdshdr \<Rightarrow> byte list \<Rightarrow> byte list \<Rightarrow> nat \<Rightarrow> sdshdr option" where
  "sdsmapchars s from to setlen = do {
     bs \<leftarrow> rd (sh_buf s) 0 (sdslen s);
     bs \<leftarrow> those (List.map (map_char from to 0 setlen) bs);
     buf \<leftarrow> wr (sh_buf s) 0 bs;
     Some (s\<lparr>sh_buf := buf\<rparr>)
   }"

section \<open>The contents of a string\<close>

definition sds_ok :: "sdshdr \<Rightarrow> bool" where
  "sds_ok s \<longleftrightarrow> 0 \<le> sh_len s \<and> 0 \<le> sh_free s \<and> sh_len s + sh_free s < 2 ^ 31 \<and>
     int (length (sh_buf s)) = sh_len s + sh_free s + 1 \<and> sh_buf s ! nat (sh_len s) = 0"

definition sds_val :: "sdshdr \<Rightarrow> byte list" where
  "sds_val s = take (nat (sh_len s)) (sh_buf s)"

definition sds_rep :: "byte list \<Rightarrow> byte list \<Rightarrow> sdshdr" where
  "sds_rep v g = \<lparr>sh_len = int (length v), sh_free = int (length g), sh_buf = v @ 0 # g\<rparr>"

text \<open>Every well-formed string is its contents, the terminator and the free bytes.\<close>

lemma sds_ok_rep: "sds_ok s \<longleftrightarrow> (\<exists>v g. s = sds_rep v g \<and> length v + length g < 2 ^ 31)"
proof
  assume ok: "sds_ok s"
  define n where "n = nat (sh_len s)"
  have n: "sh_len s = int n" "n < length (sh_buf s)" using ok by (auto simp: n_def sds_ok_def)
  have l: "int (length (drop (Suc n) (sh_buf s))) = sh_free s" using ok n by (simp add: sds_ok_def)
  have "sh_buf s = take n (sh_buf s) @ 0 # drop (Suc n) (sh_buf s)"
    using take_drop_split [OF n(2)] ok by (simp add: sds_ok_def n_def)
  then have "s = sds_rep (take n (sh_buf s)) (drop (Suc n) (sh_buf s))"
    using n l by (cases s) (simp add: sds_rep_def)
  moreover have "length (take n (sh_buf s)) + length (drop (Suc n) (sh_buf s)) < 2 ^ 31"
    using ok n l by (simp add: sds_ok_def; arith)
  ultimately show "\<exists>v g. s = sds_rep v g \<and> length v + length g < 2 ^ 31" by blast
qed (auto simp: sds_ok_def sds_rep_def)

lemma sds_val_rep [simp]: "sds_val (sds_rep v g) = v"
  by (simp add: sds_val_def sds_rep_def)

lemma int32_id [simp]: "- (2 ^ 31) \<le> x \<Longrightarrow> x < 2 ^ 31 \<Longrightarrow> int32 x = x"
  by (simp add: int32_def signed_of_int signed_take_bit_int_eq_self)

lemma size_t_int [simp]: "int n < 2 ^ 64 \<Longrightarrow> size_t (int n) = n"
  by (simp add: size_t_def)

lemma sdslen_rep: "length v + length g < 2 ^ 31 \<Longrightarrow> sdslen (sds_rep v g) = length v"
  by (simp add: sdslen_def sds_rep_def)

lemma sdsavail_rep: "length v + length g < 2 ^ 31 \<Longrightarrow> sdsavail (sds_rep v g) = length g"
  by (simp add: sdsavail_def sds_rep_def)

lemma sdsnewlen_rep:
  assumes "length m < 2 ^ 31"
  shows "sdsnewlen h (Some m) (length m) = Some (sds_rep m [])"
proof -
  have "wr (mem_resize h [] (length m + 1)) 0 m = Some (m @ [junk h (length m)])"
    by (simp add: wr_def mem_resize_def)
  moreover have "mem_resize h [] 1 = [junk h 0]" by (simp add: mem_resize_def)
  ultimately show ?thesis
    using assms by (cases "m = []") (simp_all add: sdsnewlen_def Let_def rd_def wr_def sds_rep_def)
qed

lemma sdsMakeRoomFor_rep:
  assumes "length v + length g < 2 ^ 31" "length v + n + 2 ^ 20 < 2 ^ 31"
  shows "\<exists>g'. sdsMakeRoomFor h (sds_rep v g) n = Some (sds_rep v g') \<and> n \<le> length g' \<and> length g \<le> length g' \<and>
    take (length g) g' = g \<and> length v + length g' < 2 ^ 31 \<and> (n \<le> length g \<longrightarrow> g' = g)"
proof (cases "n \<le> length g")
  case True
  then show ?thesis using assms by (intro exI [of _ g]) (simp add: sdsMakeRoomFor_def sdsavail_rep)
next
  case False
  define m where "m = (if length v + n < 1024 * 1024 then (length v + n) * 2 else length v + n + 1024 * 1024)"
  define g' where "g' = g @ map (junk h) [length v + 1 + length g ..< m + 1]"
  have m: "length v + n \<le> m" "m < 2 ^ 31" using assms by (auto simp: m_def)
  have lg: "length g' = m - length v" using m False by (simp add: g'_def)
  have "mem_resize h (v @ 0 # g) (m + 1) = v @ 0 # g'"
    using m False by (subst mem_resize_grow) (simp_all add: g'_def)
  moreover have "((length v + n) mod 2 ^ 64) = length v + n" "(length v + n + 1024 * 1024) mod 2 ^ 64 = length v + n + 1024 * 1024"
    using assms by simp_all
  ultimately have "sdsMakeRoomFor h (sds_rep v g) n = Some (sds_rep v g')"
    using False m assms lg unfolding sdsMakeRoomFor_def
    by (simp only: sdsavail_rep sdslen_rep Let_def if_False flip: m_def) (simp add: sds_rep_def of_nat_diff)
  moreover have "n \<le> length g'" "length g \<le> length g'" "length v + length g' < 2 ^ 31" "take (length g) g' = g"
    using lg m False by (auto simp: g'_def)
  ultimately show ?thesis using False by blast
qed

lemma sdscatlen_rep:
  assumes "length v + length g < 2 ^ 31" "length v + length t + 2 ^ 20 < 2 ^ 31"
  shows "\<exists>g'. sdscatlen h (sds_rep v g) (t @ u) (length t) = Some (sds_rep (v @ t) g') \<and> length (v @ t) + length g' < 2 ^ 31"
proof -
  obtain g1 where g1: "sdsMakeRoomFor h (sds_rep v g) (length t) = Some (sds_rep v g1)" "length t \<le> length g1"
    "length v + length g1 < 2 ^ 31" using sdsMakeRoomFor_rep [OF assms] by blast
  have w1: "wr (v @ 0 # g1) (length v) t = Some (v @ t @ drop (length t) (0 # g1))"
    using g1(2) by (simp add: wr_def)
  have "drop (length t) (0 # g1) \<noteq> []" using g1(2) by simp
  then obtain x g2 where g2: "drop (length t) (0 # g1) = x # g2" by (cases "drop (length t) (0 # g1)") auto
  have lg2: "length g2 = length g1 - length t" using arg_cong [OF g2, of length] g1(2) by simp
  have "wr (v @ t @ x # g2) (length v + length t) [0] = Some ((v @ t) @ 0 # g2)"
    using wr_append [of "v @ t" "length v + length t" "[x]" "[0]" g2] by simp
  then have "sdscatlen h (sds_rep v g) (t @ u) (length t) = Some (sds_rep (v @ t) g2)"
    using g1 w1 g2 lg2 assms by (simp add: sdscatlen_def sdslen_rep rd_def Let_def) (simp add: sds_rep_def of_nat_diff)
  then show ?thesis using lg2 g1(2,3) by (intro exI [of _ g2]) simp
qed

lemma sdsgrowzero_rep:
  assumes "length v + length g < 2 ^ 31" "n + 2 ^ 20 < 2 ^ 31"
  shows "\<exists>v' g'. sdsgrowzero h (sds_rep v g) n = Some (sds_rep v' g') \<and> v' = v @ replicate (n - length v) 0 \<and>
    length v' + length g' < 2 ^ 31"
proof (cases "n \<le> length v")
  case True
  then show ?thesis using assms by (auto simp: sdsgrowzero_def sds_rep_def)
next
  case False
  then have b: "length v + (n - length v) + 2 ^ 20 < 2 ^ 31" using assms(2) by simp
  obtain g1 where g1: "sdsMakeRoomFor h (sds_rep v g) (n - length v) = Some (sds_rep v g1)" "n - length v \<le> length g1"
    "length v + length g1 < 2 ^ 31" using sdsMakeRoomFor_rep [OF assms(1) b] by blast
  define g2 where "g2 = drop (n - length v) g1"
  have l: "n \<le> length v + length g1" "\<not> n \<le> length v" using g1(2) False by auto
  have w: "wr (v @ 0 # g1) (length v) (replicate (n - length v + 1) 0) = Some ((v @ replicate (n - length v) 0) @ 0 # g2)"
    using g1(2) by (simp add: wr_def g2_def replicate_app_Cons_same)
  have "sdsgrowzero h (sds_rep v g) n = Some (sds_rep (v @ replicate (n - length v) 0) g2)"
    using g1 l w assms unfolding sdsgrowzero_def
    by (simp add: sds_rep_def Let_def) (simp add: g2_def of_nat_diff flip: of_nat_add)
  then show ?thesis using g1 l by (intro exI [of _ "v @ replicate (n - length v) 0"] exI [of _ g2] conjI) (simp_all add: g2_def)
qed

lemma sdscpylen_rep:
  assumes "length v + length g < 2 ^ 31" "length t + 2 ^ 20 < 2 ^ 31"
  shows "\<exists>g'. sdscpylen h (sds_rep v g) (t @ u) (length t) = Some (sds_rep t g') \<and> length t + length g' < 2 ^ 31"
proof -
  have "\<exists>g1. (if length v + length g < length t then sdsMakeRoomFor h (sds_rep v g) (length t - length v) else Some (sds_rep v g)) =
      Some (sds_rep v g1) \<and> length t \<le> length v + length g1 \<and> length v + length g1 < 2 ^ 31"
  proof (cases "length v + length g < length t")
    case True
    then have b: "length v + (length t - length v) + 2 ^ 20 < 2 ^ 31" using assms(2) by simp
    obtain g1 where "sdsMakeRoomFor h (sds_rep v g) (length t - length v) = Some (sds_rep v g1)" "length t - length v \<le> length g1"
      "length v + length g1 < 2 ^ 31" using sdsMakeRoomFor_rep [OF assms(1) b] by blast
    then show ?thesis using True by (intro exI [of _ g1]) simp
  next
    case False
    then show ?thesis using assms(1) by (intro exI [of _ g]) simp
  qed
  then obtain g1 where g1: "(if length v + length g < length t then sdsMakeRoomFor h (sds_rep v g) (length t - length v) else Some (sds_rep v g)) =
      Some (sds_rep v g1)" "length t \<le> length v + length g1" "length v + length g1 < 2 ^ 31" by blast
  define m where "m = v @ 0 # g1"
  have w1: "wr m 0 t = Some (t @ drop (length t) m)" using g1(2) by (simp add: wr_def m_def)
  have "length t < length m" using g1(2) by (simp add: m_def)
  then have "drop (length t) m \<noteq> []" by simp
  then obtain x g2 where g2: "drop (length t) m = x # g2" by (cases "drop (length t) m") auto
  have lg2: "length g2 = length v + length g1 - length t" using arg_cong [OF g2, of length] g1(2) by (simp add: m_def)
  have w2: "wr (t @ x # g2) (length t) [0] = Some (t @ 0 # g2)" using wr_append [of t "length t" "[x]" "[0]" g2] by simp
  have sz: "size_t (int (length g) + int (length v)) = length v + length g"
    "size_t (int (length g1) + int (length v)) = length v + length g1"
    using assms(1) g1(3) size_t_int [of "length v + length g"] size_t_int [of "length v + length g1"]
    by (simp_all add: add.commute)
  have sz2: "size_t (int (length t) - int (length v)) = length t - length v" if "length v + length g < length t"
    using assms that size_t_int [of "length t - length v"] by (simp add: of_nat_diff)
  have "sdscpylen h (sds_rep v g) (t @ u) (length t) =
      do { s \<leftarrow> (if length v + length g < length t then sdsMakeRoomFor h (sds_rep v g) (length t - length v) else Some (sds_rep v g));
        buf \<leftarrow> wr (sh_buf s) 0 t; buf \<leftarrow> wr buf (length t) [0];
        Some \<lparr>sh_len = int32 (int (length t)), sh_free = int32 (int (size_t (sh_free s + sh_len s)) - int (length t)), sh_buf = buf\<rparr> }"
    using sz(1) sz2 by (simp add: sdscpylen_def sds_rep_def rd_def Let_def)
  also have "\<dots> = Some (sds_rep t g2)"
    unfolding g1(1) using w1 w2 g2 sz(2) lg2 g1(2,3) assms(2) by (simp add: sds_rep_def of_nat_diff flip: m_def)
  finally show ?thesis using lg2 g1(2,3) by (intro exI [of _ g2]) simp
qed

lemma size_t_nat: "0 \<le> x \<Longrightarrow> x < 2 ^ 64 \<Longrightarrow> size_t x = nat x"
  by (simp add: size_t_def)

lemma sds_rep_simps [simp]:
  "sh_len (sds_rep v g) = int (length v)" "sh_free (sds_rep v g) = int (length g)" "sh_buf (sds_rep v g) = v @ 0 # g"
  by (simp_all add: sds_rep_def)

text \<open>Keeping a part of the contents moves it to the front and terminates it.\<close>

lemma keep_rep:
  assumes "length v + length g < 2 ^ 31" "i + k \<le> length v"
  shows "\<exists>g'. do { buf \<leftarrow> (if c then mem_move (v @ 0 # g) 0 i k else Some (v @ 0 # g)); buf \<leftarrow> wr buf k [0];
        Some \<lparr>sh_len = int32 (int k), sh_free = int32 (int (length g) + (int (length v) - int k)), sh_buf = buf\<rparr> } =
      Some (sds_rep (take k (if c then drop i v else v)) g') \<and> k + length g' < 2 ^ 31"
proof -
  define x where "x = take k (if c then drop i v else v)"
  have lx: "length x = k" using assms by (simp add: x_def)
  have "\<exists>r. (if c then mem_move (v @ 0 # g) 0 i k else Some (v @ 0 # g)) = Some (x @ r) \<and>
      length x + length r = length v + length g + 1"
  proof (cases c)
    case True
    have "rd (v @ 0 # g) i k = Some x" using True assms(2) by (simp add: rd_def x_def)
    then have "mem_move (v @ 0 # g) 0 i k = Some (x @ drop k (v @ 0 # g))"
      using assms(2) lx by (simp add: mem_move_def wr_def)
    then show ?thesis using True assms(2) lx by auto
  next
    case False
    then have "v @ 0 # g = x @ drop k v @ 0 # g" by (simp add: x_def)
    then show ?thesis using False assms(2) lx by (intro exI [of _ "drop k v @ 0 # g"]) simp
  qed
  then obtain r where r: "(if c then mem_move (v @ 0 # g) 0 i k else Some (v @ 0 # g)) = Some (x @ r)"
    "length x + length r = length v + length g + 1" by blast
  then obtain y g' where y: "r = y # g'" using assms(2) lx by (cases r) auto
  have "wr (x @ y # g') k [0] = Some (x @ 0 # g')" using wr_append [of x k "[y]" "[0]" g'] lx by simp
  moreover have "int (length g) + (int (length v) - int k) = int (length g')"
    "length v + length g = k + length g'" using r(2) lx y by simp_all
  ultimately show ?thesis using r(1) y lx assms
    by (intro exI [of _ g']) (simp add: sds_rep_def flip: x_def)
qed

definition trim_spec :: "byte list \<Rightarrow> byte list \<Rightarrow> byte list" where
  "trim_spec cset v = rev (dropWhile (strchr cset) (rev (dropWhile (strchr cset) v)))"

lemma rdz_1: "n < length m \<Longrightarrow> rdz m (int n) 1 = Some [m ! n]"
  by (simp add: rdz_int rd_def take_Suc_conv_app_nth flip: Cons_nth_drop_Suc)

lemma trim_left_val:
  "n \<le> length v \<Longrightarrow> trim_left (v @ r) cset (int n) (int (length v) - 1) =
     Some (int n + int (length (takeWhile (strchr cset) (drop n v))))"
proof (induction "length v - n" arbitrary: n)
  case 0
  then show ?case by (simp add: trim_left.simps)
next
  case (Suc d)
  then have n: "n < length v" by simp
  have d: "drop n v = v ! n # drop (Suc n) v" using n by (simp add: Cons_nth_drop_Suc)
  have "trim_left (v @ r) cset (int n + 1) (int (length v) - 1) =
     Some (int (Suc n) + int (length (takeWhile (strchr cset) (drop (Suc n) v))))"
    using Suc.hyps(1) [of "Suc n"] Suc.hyps(2) n by (simp add: add.commute)
  then show ?case
    using n rdz_1 [of n "v @ r"] d by (subst trim_left.simps) (simp add: nth_append)
qed

text \<open>The right end stops at the first byte, whether or not that one is in the set.\<close>

lemma trim_right_val:
  "n < length v \<Longrightarrow> trim_right (v @ r) cset 0 (int n) =
     Some (int (n - length (takeWhile (strchr cset) (rev (take n (drop 1 v))))))"
proof (induction n)
  case 0
  then show ?case by (simp add: trim_right.simps)
next
  case (Suc n)
  then have t: "take (Suc n) (drop 1 v) = take n (drop 1 v) @ [v ! Suc n]" by (simp add: take_Suc_conv_app_nth)
  have "trim_right (v @ r) cset 0 (int n) =
     Some (int (n - length (takeWhile (strchr cset) (rev (take n (drop 1 v))))))"
    using Suc by simp
  then show ?case
    using Suc.prems rdz_1 [of "Suc n" "v @ r"] t
    by (subst trim_right.simps) (simp add: nth_append del: of_nat_Suc, simp)
qed

lemma sdstrim_rep:
  assumes "length v + length g < 2 ^ 31"
  shows "\<exists>g'. sdstrim (sds_rep v g) cset = Some (sds_rep (trim_spec cset v) g') \<and>
    length (trim_spec cset v) + length g' < 2 ^ 31"
proof -
  define a where "a = length (takeWhile (strchr cset) v)"
  define w where "w = drop a v"
  have w: "w = dropWhile (strchr cset) v" "a \<le> length v"
    by (simp_all add: w_def a_def dropWhile_eq_drop length_takeWhile_le)
  have left: "trim_left (v @ 0 # g) cset 0 (int (length v) - 1) = Some (int a)"
    using trim_left_val [of 0 v "0 # g" cset] by (simp add: a_def)
  define k where "k = length (trim_spec cset v)"
  define b where "b = length (takeWhile (strchr cset) (rev w))"
  have ts: "trim_spec cset v = rev (drop b (rev w))"
    unfolding trim_spec_def b_def w(1) [symmetric] by (simp only: dropWhile_eq_drop)
  have kb: "k = length w - b" "b \<le> length w"
    using length_takeWhile_le [of "strchr cset" "rev w"] by (simp_all add: k_def ts) (simp add: b_def)
  have tk: "trim_spec cset v = take k w"
    by (simp add: ts kb drop_rev)
  obtain ep where right: "trim_right (v @ 0 # g) cset 0 (int (length v) - 1) = Some ep"
    and ep: "(if int a > ep then 0 else nat (ep - int a + 1)) = k"
  proof (cases v rule: rev_cases)
    case Nil
    then show ?thesis using that [of "- 1"] w kb by (simp add: trim_right.simps w_def k_def trim_spec_def)
  next
    case (snoc u x)
    have r: "trim_right (v @ 0 # g) cset 0 (int (length v) - 1) =
        Some (int (length u - length (takeWhile (strchr cset) (rev (drop 1 v)))))"
      using trim_right_val [of "length u" v "0 # g" cset] snoc by simp
    show ?thesis
    proof (cases "w = []")
      case True
      then have all: "\<forall>c \<in> set v. strchr cset c" using w(1) by (simp add: dropWhile_eq_Nil_conv)
      then have "length (takeWhile (strchr cset) (rev (drop 1 v))) = length u"
        using snoc by (subst takeWhile_eq_all_conv [THEN iffD2]) (auto dest: in_set_dropD)
      moreover have "a = length v" using True w(2) by (simp add: w_def)
      ultimately show ?thesis using that r True kb snoc by simp
    next
      case False
      then have ws: "\<not> strchr cset (hd w)" unfolding w(1) by (rule hd_dropWhile)
      have tw: "takeWhile (strchr cset) (rev (drop 1 v)) = takeWhile (strchr cset) (rev w)"
      proof (cases "a = 0")
        case True
        then have "rev w = rev (drop 1 v) @ [hd w]" using False by (cases v) (simp_all add: w_def)
        then show ?thesis using ws by (simp add: takeWhile_tail)
      next
        case nz: False
        have "drop 1 (take a v @ w) = drop 1 (take a v) @ w" using nz w(2) by (simp add: drop_append)
        then have "drop 1 v = drop 1 (take a v) @ w" by (simp add: w_def)
        then show ?thesis using ws False takeWhile_append1 [of "hd w" "rev w"] by simp
      qed
      have "b < length w"
      proof (rule ccontr)
        assume "\<not> b < length w"
        then have "takeWhile (strchr cset) (rev w) = rev w"
          using kb(2) by (metis b_def length_rev linorder_le_less_linear order_antisym_conv takeWhile_dropWhile_id append_eq_conv_conj takeWhile_eq_take take_all)
        then show False using ws False by (metis hd_in_set set_rev takeWhile_eq_all_conv)
      qed
      moreover have "length w + a = length v" using w(2) by (simp add: w_def)
      ultimately show ?thesis using that r kb snoc tw by (simp add: b_def)
    qed
  qed
  have len: "sdslen (sds_rep v g) = length v" by (rule sdslen_rep) fact
  have eq: "sdstrim (sds_rep v g) cset =
      do { buf \<leftarrow> (if int a \<noteq> 0 then mem_move (v @ 0 # g) 0 a k else Some (v @ 0 # g)); buf \<leftarrow> wr buf k [0];
        Some \<lparr>sh_len = int32 (int k), sh_free = int32 (int (length g) + (int (length v) - int k)), sh_buf = buf\<rparr> }"
    unfolding sdstrim_def by (simp only: len Let_def sds_rep_simps left right ep Option.bind.simps nat_int)
  have ak: "a + k \<le> length v" using kb w(2) by (simp add: w_def)
  have "\<exists>g'. sdstrim (sds_rep v g) cset = Some (sds_rep (take k (if int a \<noteq> 0 then drop a v else v)) g') \<and> k + length g' < 2 ^ 31"
    unfolding eq by (rule keep_rep [OF assms ak])
  moreover have "(if int a \<noteq> 0 then drop a v else v) = w" by (simp add: w_def)
  ultimately show ?thesis by (simp only: tk [symmetric] k_def [symmetric])
qed

definition range_spec :: "int \<Rightarrow> int \<Rightarrow> byte list \<Rightarrow> byte list" where
  "range_spec a b v =
     (let n = int (length v);
          a = (if a < 0 then max 0 (n + a) else a);
          b = (if b < 0 then max 0 (n + b) else b)
      in if a > b \<or> a \<ge> n then [] else take (nat (min b (n - 1) - a + 1)) (drop (nat a) v))"

lemma sdsrange_rep:
  assumes "length v + length g < 2 ^ 31" "- (2 ^ 31) \<le> a" "a < 2 ^ 31" "- (2 ^ 31) \<le> b" "b < 2 ^ 31"
  shows "\<exists>g'. sdsrange (sds_rep v g) a b = Some (sds_rep (range_spec a b v) g') \<and>
    length (range_spec a b v) + length g' < 2 ^ 31"
proof (cases "v = []")
  case True
  then show ?thesis using assms sdslen_rep [OF assms(1)] by (auto simp: sdsrange_def range_spec_def Let_def)
next
  case False
  define n where "n = int (length v)"
  have n: "0 < n" "n < 2 ^ 31" using False assms(1) by (simp_all add: n_def)
  have len: "sdslen (sds_rep v g) = length v" by (rule sdslen_rep) fact
  define p where "p = (if a < 0 then max 0 (n + a) else a)"
  define q where "q = (if b < 0 then max 0 (n + b) else b)"
  have pq: "0 \<le> p" "p < 2 ^ 31" "0 \<le> q" "q < 2 ^ 31" using n assms by (auto simp: p_def q_def)
  have pw: "(if a < 0 then max 0 (int32 (n + a)) else a) = p" "(if b < 0 then max 0 (int32 (n + b)) else b) = q"
    using n assms by (simp_all add: p_def q_def)
  define nl where "nl = (if p > q then 0 else size_t (int32 (q - p + 1)))"
  define k where "k = (if p > q \<or> p \<ge> n then 0 else nat (min q (n - 1) - p + 1))"
  have nl0: "nl \<noteq> 0 \<longleftrightarrow> p \<le> q"
  proof (cases "p = 0 \<and> q = 2 ^ 31 - 1")
    case True
    have "size_t (int32 (2 ^ 31)) \<noteq> 0" by (simp add: int32_def size_t_def)
    then show ?thesis using True by (simp add: nl_def)
  next
    case False
    then show ?thesis using pq by (auto simp: nl_def size_t_nat)
  qed
  have s2: "(if nl \<noteq> 0 then (if p \<ge> int32 n then (p, 0) else if q \<ge> int32 n
        then (p, let en = int32 (n - 1) in if p > en then 0 else size_t (int32 (en - p + 1)))
        else (p, nl)) else (0, nl)) = (if p \<le> q then p else 0, k)"
    using n pq nl0 by (auto simp: k_def nl_def size_t_nat Let_def)
  have eq: "sdsrange (sds_rep v g) a b =
      do { buf \<leftarrow> (if (if p \<le> q then p else 0) \<noteq> 0 \<and> k \<noteq> 0 then mem_move (v @ 0 # g) 0 (nat (if p \<le> q then p else 0)) k else Some (v @ 0 # g));
        buf \<leftarrow> wr buf k [0];
        Some \<lparr>sh_len = int32 (int k), sh_free = int32 (int (length g) + (int (length v) - int k)), sh_buf = buf\<rparr> }"
    using False unfolding sdsrange_def len Let_def [of "length v"] n_def [symmetric]
    by (simp only: pw Let_def [of p] Let_def [of q] Let_def [of nl] nl_def [symmetric] s2
        Let_def [of "(if p \<le> q then p else 0, k)"] prod.case sds_rep_simps length_0_conv if_False n_def [symmetric])
  define i where "i = nat (if k = 0 then 0 else p)"
  have ik: "i + k \<le> length v" using pq n by (auto simp: i_def k_def n_def)
  have kz: "k = 0 \<longleftrightarrow> \<not> (p \<le> q \<and> p < n)" using pq n by (simp add: k_def min_def)
  have c: "((if p \<le> q then p else 0) \<noteq> 0 \<and> k \<noteq> 0) = (i \<noteq> 0)" "i \<noteq> 0 \<Longrightarrow> nat (if p \<le> q then p else 0) = i"
    using pq kz by (simp_all add: i_def split: if_splits)
  have eq2: "sdsrange (sds_rep v g) a b =
      do { buf \<leftarrow> (if i \<noteq> 0 then mem_move (v @ 0 # g) 0 i k else Some (v @ 0 # g));
        buf \<leftarrow> wr buf k [0];
        Some \<lparr>sh_len = int32 (int k), sh_free = int32 (int (length g) + (int (length v) - int k)), sh_buf = buf\<rparr> }"
    unfolding eq c(1) using c(2) by (cases "i = 0") simp_all
  have "take k (if i \<noteq> 0 then drop i v else v) = range_spec a b v"
  proof -
    have r: "range_spec a b v = (if p > q \<or> p \<ge> n then [] else take (nat (min q (n - 1) - p + 1)) (drop (nat p) v))"
      by (simp only: range_spec_def Let_def p_def q_def n_def)
    show ?thesis
    proof (cases "p \<le> q \<and> p < n")
      case True
      then have "i = nat p" using kz by (simp add: i_def)
      moreover have "k = nat (min q (n - 1) - p + 1)" using True by (simp add: k_def)
      moreover have "\<not> (p > q \<or> p \<ge> n)" using True by simp
      ultimately show ?thesis unfolding r by (simp only: if_False) simp
    next
      case False
      then show ?thesis using kz by (auto simp: r)
    qed
  qed
  moreover have "length (take k (if i \<noteq> 0 then drop i v else v)) = k" using ik by simp
  moreover have "\<exists>g'. sdsrange (sds_rep v g) a b = Some (sds_rep (take k (if i \<noteq> 0 then drop i v else v)) g') \<and> k + length g' < 2 ^ 31"
    unfolding eq2 by (rule keep_rep [OF assms(1) ik])
  ultimately show ?thesis by (simp only:)
qed

lemma c_string_0 [simp]: "c_string (v @ 0 # g) = c_string v"
  by (induction v) (simp_all add: c_string_def)

lemma c_string_idem [simp]: "c_string (c_string v) = c_string v"
  by (metis c_string_def takeWhile_idem)

lemma length_c_string: "length (c_string v) \<le> length v"
  by (simp add: c_string_def length_takeWhile_le)

lemma c_string_take: "c_string v = take (length (c_string v)) v"
  unfolding c_string_def by (rule takeWhile_eq_take)

lemma sdsIncrLen_rep:
  assumes "length v + length g < 2 ^ 31" "k \<le> length v"
  shows "\<exists>g'. sdsIncrLen (sds_rep v g) (- int k) = Some (sds_rep (take (length v - k) v) g') \<and>
    length v - k + length g' < 2 ^ 31"
proof -
  define n where "n = length v - k"
  obtain r where r: "v @ 0 # g = take n v @ r" "length r = k + 1 + length g"
    using assms(2) by (intro that [of "drop n v @ 0 # g"]) (simp_all add: n_def)
  then obtain y g' where y: "r = y # g'" by (cases r) auto
  have ln: "length (take n v) = n" by (simp add: n_def)
  have "wrz (v @ 0 # g) (int n) [0] = Some (take n v @ 0 # g')"
    using wr_append [of "take n v" n "[y]" "[0]" g'] ln by (simp add: wrz_int r(1) y)
  moreover have "int (length v) - int k = int n" "int (length g) + int k = int (length g')" "n + length g' < 2 ^ 31"
    using assms r(2) y by (simp_all add: n_def of_nat_diff)
  ultimately show ?thesis
    unfolding n_def [symmetric] using ln assms
    by (intro exI [of _ g']) (simp add: sdsIncrLen_def Let_def sds_rep_def)
qed

lemma sdsclear_rep: "length v + length g < 2 ^ 31 \<Longrightarrow>
    \<exists>g'. sdsclear (sds_rep v g) = Some (sds_rep [] g') \<and> length g' < 2 ^ 31"
proof -
  assume a: "length v + length g < 2 ^ 31"
  obtain y g' where y: "v @ 0 # g = y # g'" by (cases "v @ 0 # g") auto
  have l: "length g' = length v + length g" using arg_cong [OF y, of length] by simp
  have w: "wr (v @ 0 # g) 0 [0] = Some (0 # g')" by (simp add: y wr_def)
  have "int32 (int (length g) + int (length v)) = int (length g')" using a l by simp
  then have "sdsclear (sds_rep v g) = Some (sds_rep [] g')"
    using w by (simp add: sdsclear_def sds_rep_def)
  then show ?thesis using a l by auto
qed

lemma sdsupdatelen_rep: "length v + length g < 2 ^ 31 \<Longrightarrow>
    \<exists>g'. sdsupdatelen (sds_rep v g) = Some (sds_rep (c_string v) g') \<and> length (c_string v) + length g' < 2 ^ 31"
proof -
  assume a: "length v + length g < 2 ^ 31"
  define k where "k = length (c_string v)"
  have k: "k \<le> length v" by (simp add: k_def length_c_string)
  have "dropWhile (\<lambda>c. c \<noteq> 0) (v @ 0 # g) \<noteq> []" by (simp add: dropWhile_eq_Nil_conv)
  then obtain y g' where y: "dropWhile (\<lambda>c. c \<noteq> 0) (v @ 0 # g) = y # g'" by (meson neq_Nil_conv)
  have "y = 0" using hd_dropWhile [of "\<lambda>c. c \<noteq> 0" "v @ 0 # g"] y by simp
  have s: "v @ 0 # g = c_string v @ 0 # g'"
    using takeWhile_dropWhile_id [of "\<lambda>c. c \<noteq> 0" "v @ 0 # g"] y \<open>y = 0\<close> c_string_0 [of v g] unfolding c_string_def by metis
  have l: "length g' = length v + length g - k" "k \<le> length v + length g" using arg_cong [OF s, of length] k by (simp_all add: k_def)
  have i: "int32 (int (length g) + int32 (int (length v) - int k)) = int (length g')" using l k a by simp
  have "sdsupdatelen (sds_rep v g) = Some (sds_rep (c_string v) g')"
    using a k i s unfolding sdsupdatelen_def k_def by (simp add: Let_def sds_rep_def)
  then show ?thesis using l k a by (intro exI [of _ g']) (simp flip: k_def)
qed

lemma map_prefix_rep: "map_prefix (length v) f (sds_rep v g) = Some (sds_rep (map f v) g)"
  by (simp add: map_prefix_def rd_def wr_def sds_rep_def)

lemma sdstolower_rep: "length v + length g < 2 ^ 31 \<Longrightarrow> sdstolower (sds_rep v g) = Some (sds_rep (map tolower v) g)"
  using map_prefix_rep by (simp add: sdstolower_def sdslen_rep)

lemma sdstoupper_rep: "length v + length g < 2 ^ 31 \<Longrightarrow> sdstoupper (sds_rep v g) = Some (sds_rep (map toupper v) g)"
  using map_prefix_rep by (simp add: sdstoupper_def sdslen_rep)

lemma sdsRemoveFreeSpace_rep:
  "length v + length g < 2 ^ 31 \<Longrightarrow> sdsRemoveFreeSpace h (sds_rep v g) = sds_rep v []"
  by (simp add: sdsRemoveFreeSpace_def mem_resize_def size_t_nat nat_add_distrib sds_rep_def)

text \<open>However the buffer is grown, it ends up holding the formatted text.\<close>

lemma vprintf_loop_c_string: "2 \<le> n \<Longrightarrow> 0 \<notin> set out \<Longrightarrow> c_string (vprintf_loop h out n) = out"
proof (induction h out n rule: vprintf_loop.induct)
  case (1 h out n)
  define k where "k = min (length out) (n - 1)"
  define buf where "buf = take k out @ [0] @ drop (k + 1) ((mem_resize h [] n)[n - 2 := 0])"
  show ?case
  proof (cases "buf ! (n - 2) \<noteq> 0")
    case True
    then show ?thesis
      using "1.IH" [OF refl refl refl] "1.prems" by (subst vprintf_loop.simps) (simp add: k_def buf_def Let_def)
  next
    case False
    have "length out \<le> k"
    proof (rule ccontr)
      assume "\<not> length out \<le> k"
      then have "k = n - 1" "n - 2 < k" "n - 2 < length out" using "1.prems" by (auto simp: k_def)
      then have "buf ! (n - 2) = out ! (n - 2)" by (simp add: buf_def nth_append)
      then show False using False "1.prems"(2) \<open>n - 2 < length out\<close> by (metis nth_mem)
    qed
    then have "buf = out @ 0 # drop (k + 1) ((mem_resize h [] n)[n - 2 := 0])" by (simp add: buf_def)
    then have "c_string buf = out" using "1.prems"(2) by (auto simp: c_string_def takeWhile_append)
    then show ?thesis using False by (subst vprintf_loop.simps) (simp add: k_def buf_def Let_def)
  qed
qed

section \<open>Every sequence of operations\<close>

datatype sds_op =
    Cat "byte list" | Printf "byte list" | Cpy "byte list" | Room nat | Growzero nat | Range int int
  | Trim "byte list" | IncrLen int | Clear | Updatelen | RemoveFree | Lower | Upper

fun sds_step :: "host \<Rightarrow> sds_op \<Rightarrow> sdshdr \<Rightarrow> sdshdr option" where
  "sds_step h (Cat t) s = sdscatlen h s t (length t)"
| "sds_step h (Printf t) s = sdscatvprintf h s t"
| "sds_step h (Cpy t) s = sdscpylen h s t (length t)"
| "sds_step h (Room n) s = sdsMakeRoomFor h s n"
| "sds_step h (Growzero n) s = sdsgrowzero h s n"
| "sds_step h (Range a b) s = sdsrange s a b"
| "sds_step h (Trim cset) s = sdstrim s cset"
| "sds_step h (IncrLen k) s = sdsIncrLen s k"
| "sds_step h Clear s = sdsclear s"
| "sds_step h Updatelen s = sdsupdatelen s"
| "sds_step h RemoveFree s = Some (sdsRemoveFreeSpace h s)"
| "sds_step h Lower s = sdstolower s"
| "sds_step h Upper s = sdstoupper s"

primrec sds_steps :: "host \<Rightarrow> sds_op list \<Rightarrow> sdshdr \<Rightarrow> sdshdr option" where
  "sds_steps h [] s = Some s"
| "sds_steps h (op # ops) s = do { s \<leftarrow> sds_step h op s; sds_steps h ops s }"

text \<open>What each does to a byte list, and when its arguments are in the range it is written for.\<close>

fun sds_spec :: "sds_op \<Rightarrow> byte list \<Rightarrow> byte list" where
  "sds_spec (Cat t) v = v @ t"
| "sds_spec (Printf t) v = v @ t"
| "sds_spec (Cpy t) v = t"
| "sds_spec (Room n) v = v"
| "sds_spec (Growzero n) v = v @ replicate (n - length v) 0"
| "sds_spec (Range a b) v = range_spec a b v"
| "sds_spec (Trim cset) v = trim_spec cset v"
| "sds_spec (IncrLen k) v = take (length v - nat (- k)) v"
| "sds_spec Clear v = []"
| "sds_spec Updatelen v = c_string v"
| "sds_spec RemoveFree v = v"
| "sds_spec Lower v = map tolower v"
| "sds_spec Upper v = map toupper v"

fun sds_pre :: "sds_op \<Rightarrow> byte list \<Rightarrow> bool" where
  "sds_pre (Cat t) v \<longleftrightarrow> length v + length t < 2 ^ 30"
| "sds_pre (Printf t) v \<longleftrightarrow> length v + length t < 2 ^ 30 \<and> 0 \<notin> set t"
| "sds_pre (Cpy t) v \<longleftrightarrow> length t < 2 ^ 30"
| "sds_pre (Room n) v \<longleftrightarrow> length v + n < 2 ^ 30"
| "sds_pre (Growzero n) v \<longleftrightarrow> n < 2 ^ 30"
| "sds_pre (Range a b) v \<longleftrightarrow> - (2 ^ 31) \<le> a \<and> a < 2 ^ 31 \<and> - (2 ^ 31) \<le> b \<and> b < 2 ^ 31"
| "sds_pre (IncrLen k) v \<longleftrightarrow> k \<le> 0 \<and> - k \<le> int (length v)"
| "sds_pre _ v \<longleftrightarrow> True"

primrec sds_pres :: "sds_op list \<Rightarrow> byte list \<Rightarrow> bool" where
  "sds_pres [] v \<longleftrightarrow> True"
| "sds_pres (op # ops) v \<longleftrightarrow> sds_pre op v \<and> sds_pres ops (sds_spec op v)"

lemma sds_step_rep:
  assumes ok: "length v + length g < 2 ^ 31" and pre: "sds_pre op v"
  shows "\<exists>g'. sds_step h op (sds_rep v g) = Some (sds_rep (sds_spec op v) g') \<and> length (sds_spec op v) + length g' < 2 ^ 31"
proof (cases op)
  case (Cat t)
  then show ?thesis using sdscatlen_rep [OF ok, of t h "[]"] pre by simp
next
  case (Printf t)
  have "c_string (vprintf_loop h t 16) = t" using vprintf_loop_c_string Printf pre by simp
  then obtain u where u: "vprintf_loop h t 16 = t @ u" "length (c_string (vprintf_loop h t 16)) = length t"
    by (metis append_take_drop_id c_string_take)
  show ?thesis using Printf pre sdscatlen_rep [OF ok, of t h u] unfolding Printf sds_step.simps sdscatvprintf_def sdscat_def u(2)
    by (simp add: u(1))
next
  case (Cpy t)
  then show ?thesis using sdscpylen_rep [OF ok, of t h "[]"] pre by simp
next
  case (Room n)
  then show ?thesis using sdsMakeRoomFor_rep [OF ok, of n h] pre by auto
next
  case (Growzero n)
  then show ?thesis using sdsgrowzero_rep [OF ok, of n h] pre by auto
next
  case (Range a b)
  then show ?thesis using sdsrange_rep [OF ok, of a b] pre by auto
next
  case (Trim cset)
  then show ?thesis using sdstrim_rep [OF ok] by simp
next
  case (IncrLen k)
  then have "- int (nat (- k)) = k" "nat (- k) \<le> length v" using pre by (auto simp: nat_le_iff)
  then show ?thesis using sdsIncrLen_rep [OF ok, of "nat (- k)"] unfolding IncrLen
    by (simp only: sds_step.simps sds_spec.simps length_take min.absorb2 diff_le_self)
next
  case Clear
  then show ?thesis using sdsclear_rep [OF ok] by simp
next
  case Updatelen
  then show ?thesis using sdsupdatelen_rep [OF ok] by simp
next
  case RemoveFree
  then show ?thesis using sdsRemoveFreeSpace_rep [OF ok, of h] ok by (intro exI [of _ "[]"]) simp
next
  case Lower
  then show ?thesis using sdstolower_rep [OF ok] ok by auto
next
  case Upper
  then show ?thesis using sdstoupper_rep [OF ok] ok by auto
qed

text \<open>
  C33: any sequence of operations on a well-formed string, with lengths below \<open>2 ^ 30\<close>, stays inside the
  allocation, fails no assertion, keeps the header consistent with the allocation and the terminator in
  place, and has exactly the effect of the corresponding operations on byte lists (\<open>sdsrange\<close> of slicing,
  \<open>sdstrim\<close> of stripping both ends, and so on), whatever the uninitialised bytes are.
\<close>

theorem sds_run:
  assumes "sds_ok s" "sds_pres ops (sds_val s)"
  shows "\<exists>s'. sds_steps h ops s = Some s' \<and> sds_ok s' \<and> sds_val s' = fold sds_spec ops (sds_val s)"
  using assms
proof (induction ops arbitrary: s)
  case (Cons op ops)
  obtain v g where s: "s = sds_rep v g" "length v + length g < 2 ^ 31" using Cons.prems(1) by (auto simp: sds_ok_rep)
  obtain g' where g': "sds_step h op s = Some (sds_rep (sds_spec op v) g')" "length (sds_spec op v) + length g' < 2 ^ 31"
    using sds_step_rep [OF s(2), of op h] Cons.prems(2) s(1) by auto
  have "sds_ok (sds_rep (sds_spec op v) g')" using g'(2) sds_ok_rep by blast
  then show ?case using Cons.IH [of "sds_rep (sds_spec op v) g'"] Cons.prems(2) s(1) g'(1) by simp
qed simp

theorem sds_run_witness:
  "\<exists>s'. sds_steps le_host [Cat [120, 102, 111, 111, 120], Trim [120], Growzero 5, Range 1 (- 2), Upper]
        (sds_rep [120] []) = Some s' \<and> sds_ok s' \<and> sds_val s' = [79, 79, 0]"
proof -
  have "sds_ok (sds_rep [120] [])" unfolding sds_ok_rep by force
  moreover have "sds_pres [Cat [120, 102, 111, 111, 120], Trim [120], Growzero 5, Range 1 (- 2), Upper] (sds_val (sds_rep [120] []))"
    by simp
  moreover have "fold sds_spec [Cat [120, 102, 111, 111, 120], Trim [120], Growzero 5, Range 1 (- 2), Upper] [120] = [79, 79, 0]"
    by code_simp
  ultimately show ?thesis
    using sds_run [of "sds_rep [120] []" "[Cat [120, 102, 111, 111, 120], Trim [120], Growzero 5, Range 1 (- 2), Upper]" le_host]
    by (simp only: sds_val_rep)
qed

end
