(* ===== verification/Sdsline.thy ===== *)
theory Sdsline
  imports Sds
begin

text \<open>
  The functions of \<open>redis/src/sds.c\<close> that split, print and parse strings: \<open>sdssplitlen\<close>,
  \<open>sdsfromlonglong\<close>, \<open>sdscatrepr\<close> and \<open>sdssplitargs\<close>.  A resulting string is given by its
  contents (\<open>Sds\<close> shows that \<open>sdsnewlen\<close> and \<open>sdscatlen\<close> store and append them).  Reads past
  the end of the input and writes past the end of the token array are \<open>None\<close>.
\<close>

section \<open>Splitting at a separator\<close>

text \<open>
  \<open>fuel\<close> for the loop variable \<open>j\<close> is the input length: it grows in every round.  \<open>slots\<close> is the size of
  the token array, a C \<open>int\<close>.
\<close>

definition add_token :: "nat \<Rightarrow> byte list \<Rightarrow> byte list list \<Rightarrow> byte list list option" where
  "add_token slots t toks = (if length toks < slots then Some (toks @ [t]) else None)"

function split_loop ::
  "byte list \<Rightarrow> nat \<Rightarrow> byte list \<Rightarrow> nat \<Rightarrow> nat \<Rightarrow> nat \<Rightarrow> nat \<Rightarrow> byte list list \<Rightarrow> (nat \<times> nat \<times> byte list list) option" where
  "split_loop s len sep seplen j start slots toks =
     (if j + (seplen - 1) < len then do {
        let slots = (if slots < length toks + 2 then slots * 2 else slots);
        if slots \<ge> 2 ^ 31 then None
        else do {
          c \<leftarrow> rd s j 1;
          d \<leftarrow> rd sep 0 1;
          b \<leftarrow> (if seplen = 1 \<and> c = d then Some True
               else do { x \<leftarrow> rd s j seplen; y \<leftarrow> rd sep 0 seplen; Some (x = y) });
          if b then do {
            t \<leftarrow> rd s start (j - start);
            toks \<leftarrow> add_token slots t toks;
            split_loop s len sep seplen (j + (seplen - 1) + 1) (j + seplen) slots toks
          } else split_loop s len sep seplen (j + 1) start slots toks
        }
      } else Some (start, slots, toks))"
  by pat_completeness auto
termination by (relation "measure (\<lambda>(s, len, sep, seplen, j, start, slots, toks). len - j)") auto

declare split_loop.simps [simp del]

text \<open>The outer \<open>None\<close> is an access out of bounds, the inner one the returned \<open>NULL\<close>.\<close>

definition sdssplitlen :: "byte list \<Rightarrow> int \<Rightarrow> byte list \<Rightarrow> int \<Rightarrow> byte list list option option" where
  "sdssplitlen s len sep seplen =
     (if seplen < 1 \<or> len < 0 then Some None
      else if len = 0 then Some (Some [])
      else do {
        (start, slots, toks) \<leftarrow> split_loop s (nat len) sep (nat seplen) 0 0 5 [];
        t \<leftarrow> rd s start (nat len - start);
        toks \<leftarrow> add_token slots t toks;
        Some (Some toks)
      })"

section \<open>Printing\<close>

definition sdsfromlonglong :: "u64 \<Rightarrow> byte list option" where
  "sdsfromlonglong value =
     (let v = (if sint value < 0 then - value else value);
          p = ll2string_loop v [];
          p = (if sint value < 0 then 45 # p else p)
      in if length p \<le> 32 then Some p else None)"

definition isprint :: "byte \<Rightarrow> bool" where
  "isprint c \<longleftrightarrow> 32 \<le> c \<and> c \<le> 126"

definition hex_digit :: "byte \<Rightarrow> byte" where
  "hex_digit n = (if n < 10 then 48 + n else 87 + n)"

text \<open>What the loop of \<open>sdscatrepr\<close> appends for one byte.\<close>

definition repr_char :: "byte \<Rightarrow> byte list" where
  "repr_char c =
     (if c = 92 \<or> c = 34 then [92, c]
      else if c = 10 then [92, 110]
      else if c = 13 then [92, 114]
      else if c = 9 then [92, 116]
      else if c = 7 then [92, 97]
      else if c = 8 then [92, 98]
      else if isprint c then [c]
      else [92, 120, hex_digit (drop_bit 4 c), hex_digit (c mod 16)])"

definition sdscatrepr :: "byte list \<Rightarrow> byte list \<Rightarrow> nat \<Rightarrow> byte list option" where
  "sdscatrepr s p len = do {
     bs \<leftarrow> rd p 0 len;
     Some (s @ [34] @ concat (List.map repr_char bs) @ [34])
   }"

section \<open>Parsing a line\<close>

definition is_hex_digit :: "byte \<Rightarrow> bool" where
  "is_hex_digit c \<longleftrightarrow> 48 \<le> c \<and> c \<le> 57 \<or> 97 \<le> c \<and> c \<le> 102 \<or> 65 \<le> c \<and> c \<le> 70"

definition hex_digit_to_int :: "byte \<Rightarrow> byte" where
  "hex_digit_to_int c =
     (if 48 \<le> c \<and> c \<le> 57 then c - 48
      else if 97 \<le> c \<and> c \<le> 102 then c - 87
      else if 65 \<le> c \<and> c \<le> 70 then c - 55
      else 0)"

text \<open>The line is the bytes from \<open>p\<close> on; the tests of \<open>p[1]\<close>, \<open>p[2]\<close>, \<open>p[3]\<close> are made from left to right.\<close>

definition and_then :: "bool option \<Rightarrow> bool option \<Rightarrow> bool option" where
  "and_then a b = do { x \<leftarrow> a; if x then b else Some False }"

definition test :: "byte list \<Rightarrow> nat \<Rightarrow> (byte \<Rightarrow> bool) \<Rightarrow> bool option" where
  "test p i f = map_option f (peek p i)"

definition unescape :: "byte \<Rightarrow> byte" where
  "unescape c =
     (if c = 110 then 10 else if c = 114 then 13 else if c = 116 then 9
      else if c = 98 then 8 else if c = 97 then 7 else c)"

text \<open>A closing quote must be followed by a space or nothing at all.\<close>

definition bad_close :: "byte list \<Rightarrow> bool option" where
  "bad_close p = and_then (test p 1 (\<lambda>c. c \<noteq> 0)) (test p 1 (\<lambda>c. \<not> isspace c))"

datatype tok = TokErr | TokDone "byte list" "byte list" | TokMore "byte list" bool bool "byte list"

text \<open>
  One round of \<open>while(!done)\<close> up to its last statement \<open>if (*p) p++\<close>: an error, or the position and
  \<open>current\<close> with \<open>done\<close> set, or these and the states \<open>inq\<close> and \<open>insq\<close>.
\<close>

definition tok_round :: "byte list \<Rightarrow> bool \<Rightarrow> bool \<Rightarrow> byte list \<Rightarrow> tok option" where
  "tok_round p inq insq cur =
     (if inq then do {
        hex \<leftarrow> and_then (test p 0 (\<lambda>c. c = 92)) (and_then (test p 1 (\<lambda>c. c = 120))
                 (and_then (test p 2 is_hex_digit) (test p 3 is_hex_digit)));
        esc \<leftarrow> and_then (test p 0 (\<lambda>c. c = 92)) (test p 1 (\<lambda>c. c \<noteq> 0));
        c \<leftarrow> peek p 0;
        if hex then do {
          a \<leftarrow> peek p 2;
          b \<leftarrow> peek p 3;
          Some (TokMore (drop 3 p) inq insq (cur @ [hex_digit_to_int a * 16 + hex_digit_to_int b]))
        } else if esc then do {
          a \<leftarrow> peek p 1;
          Some (TokMore (drop 1 p) inq insq (cur @ [unescape a]))
        } else if c = 34 then do {
          bad \<leftarrow> bad_close p;
          Some (if bad then TokErr else TokDone p cur)
        } else if c = 0 then Some TokErr
        else Some (TokMore p inq insq (cur @ [c]))
      } else if insq then do {
        esc \<leftarrow> and_then (test p 0 (\<lambda>c. c = 92)) (test p 1 (\<lambda>c. c = 39));
        c \<leftarrow> peek p 0;
        if esc then Some (TokMore (drop 1 p) inq insq (cur @ [39]))
        else if c = 39 then do {
          bad \<leftarrow> bad_close p;
          Some (if bad then TokErr else TokDone p cur)
        } else if c = 0 then Some TokErr
        else Some (TokMore p inq insq (cur @ [c]))
      } else do {
        c \<leftarrow> peek p 0;
        Some (if c = 32 \<or> c = 10 \<or> c = 13 \<or> c = 9 \<or> c = 0 then TokDone p cur
              else if c = 34 then TokMore p True insq cur
              else if c = 39 then TokMore p inq True cur
              else TokMore p inq insq (cur @ [c]))
      })"

text \<open>\<open>if (*p) p++\<close>\<close>

definition advance :: "byte list \<Rightarrow> byte list" where
  "advance p = (case p of [] \<Rightarrow> [] | c # q \<Rightarrow> if c \<noteq> 0 then q else p)"

lemma tok_round_more:
  "tok_round p inq insq cur = Some (TokMore p' inq' insq' cur') \<Longrightarrow>
     p \<noteq> [] \<and> (p' = p \<and> hd p \<noteq> 0 \<or> p' = drop 1 p \<or> p' = drop 3 p)"
  by (cases p) (auto simp: tok_round_def peek_def split: bind_splits if_splits)

lemma length_advance: "length (advance p) \<le> length p"
  by (simp add: advance_def split: list.split)

lemma tok_round_shrinks:
  assumes "tok_round p inq insq cur = Some (TokMore p' inq' insq' cur')"
  shows "length (advance p') < length p"
proof -
  note m = tok_round_more [OF assms]
  then have "p' = p \<and> hd p \<noteq> 0 \<Longrightarrow> ?thesis" by (cases p) (simp_all add: advance_def)
  moreover have "p' \<noteq> p \<or> hd p = 0 \<Longrightarrow> length p' < length p" using m by auto
  ultimately show ?thesis using length_advance [of p'] by fastforce
qed

function token_loop :: "byte list \<Rightarrow> bool \<Rightarrow> bool \<Rightarrow> byte list \<Rightarrow> tok option" where
  "token_loop p inq insq cur =
     (case tok_round p inq insq cur of
        None \<Rightarrow> None
      | Some TokErr \<Rightarrow> Some TokErr
      | Some (TokDone p' cur') \<Rightarrow> Some (TokDone (advance p') cur')
      | Some (TokMore p' inq' insq' cur') \<Rightarrow> token_loop (advance p') inq' insq' cur')"
  by pat_completeness auto
termination by (relation "measure (\<lambda>(p, inq, insq, cur). length p)") (auto dest: tok_round_shrinks)

declare token_loop.simps [simp del]

definition skip_blanks :: "byte list \<Rightarrow> byte list" where
  "skip_blanks p = dropWhile (\<lambda>c. c \<noteq> 0 \<and> isspace c) p"

lemma token_loop_le:
  "token_loop p inq insq cur = Some (TokDone p' cur') \<Longrightarrow> length p' \<le> length p"
proof (induction p inq insq cur rule: token_loop.induct)
  case (1 p inq insq cur)
  show ?case
  proof (cases "tok_round p inq insq cur")
    case None
    then show ?thesis using "1.prems" by (simp add: token_loop.simps)
  next
    case (Some t)
    show ?thesis
    proof (cases t)
      case (TokDone q c)
      then have "q = p" using Some
        by (auto simp: tok_round_def split: bind_splits if_splits)
      then show ?thesis using "1.prems" Some TokDone
        by (subst (asm) token_loop.simps) (auto simp: advance_def split: list.splits if_splits)
    next
      case (TokMore q i j c)
      then have "length p' \<le> length (advance q)" using "1.IH" [OF Some TokMore] "1.prems" Some
        by (subst (asm) (2) token_loop.simps) simp
      then show ?thesis using tok_round_shrinks Some TokMore by fastforce
    qed (use "1.prems" Some in \<open>simp add: token_loop.simps\<close>)
  qed
qed

lemma token_loop_less:
  assumes "token_loop p False False cur = Some (TokDone p' cur')" "peek p 0 = Some c" "c \<noteq> 0" "\<not> isspace c"
  shows "length p' < length p"
proof -
  obtain q i j d where m: "tok_round p False False cur = Some (TokMore q i j d)"
  proof -
    have "c \<noteq> 32 \<and> c \<noteq> 10 \<and> c \<noteq> 13 \<and> c \<noteq> 9" using assms(4) by (auto simp: isspace_def)
    then show ?thesis using assms(2,3) that
by (cases "c = 34"; cases "c = 39") (auto simp: tok_round_def intro: that)
  qed
  then have "token_loop (advance q) i j d = Some (TokDone p' cur')"
    using assms(1) by (subst (asm) token_loop.simps) simp
  then show ?thesis using token_loop_le tok_round_shrinks [OF m] by fastforce
qed

lemma skip_blanks_hd: "peek (skip_blanks p) 0 = Some c \<Longrightarrow> c \<noteq> 0 \<Longrightarrow> \<not> isspace c"
  using hd_dropWhile [of "\<lambda>c. c \<noteq> 0 \<and> isspace c" p]
  by (auto simp: peek_Some skip_blanks_def hd_conv_nth)

lemma length_skip_blanks: "length (skip_blanks p) \<le> length p"
  by (simp add: skip_blanks_def length_dropWhile_le)

text \<open>The tokens, or \<open>err\<close> as \<open>None\<close>.\<close>

function args_loop :: "byte list \<Rightarrow> byte list list \<Rightarrow> byte list list option option" where
  "args_loop p vec =
     (case peek (skip_blanks p) 0 of
        None \<Rightarrow> None
      | Some c \<Rightarrow>
          if c = 0 then Some (Some vec)
          else (case token_loop (skip_blanks p) False False [] of
              Some (TokDone p' cur) \<Rightarrow> args_loop p' (vec @ [cur])
            | Some TokErr \<Rightarrow> Some None
            | _ \<Rightarrow> None))"
  by pat_completeness auto
termination
proof (relation "measure (\<lambda>(p, vec). length p)")
  fix p and vec :: "byte list list" and c t p' cur
  assume "peek (skip_blanks p) 0 = Some c" "c \<noteq> 0" "token_loop (skip_blanks p) False False [] = Some t" "t = TokDone p' cur"
  then have "length p' < length p"
    using token_loop_less skip_blanks_hd length_skip_blanks [of p] by fastforce
  then show "((p', vec @ [cur]), (p, vec)) \<in> measure (\<lambda>(p, vec). length p)" by simp
qed simp

declare args_loop.simps [simp del]

text \<open>
  The returned vector, \<open>None\<close> for \<open>NULL\<close>, and \<open>*argc\<close>.  \<open>NULL\<close> is also the vector of an empty line; the loop
  that frees the tokens after an error leaves \<open>*argc\<close> at \<open>-1\<close>.
\<close>

definition sdssplitargs :: "byte list \<Rightarrow> (byte list list option \<times> int) option" where
  "sdssplitargs line =
     (case args_loop line [] of
        None \<Rightarrow> None
      | Some None \<Rightarrow> Some (None, - 1)
      | Some (Some vec) \<Rightarrow> Some (if vec = [] then None else Some vec, int (length vec)))"

section \<open>Splitting and joining\<close>

fun join :: "byte list \<Rightarrow> byte list list \<Rightarrow> byte list" where
  "join sep [] = []"
| "join sep [t] = t"
| "join sep (t # ts) = t @ sep @ join sep ts"

lemma join_snoc: "ts \<noteq> [] \<Longrightarrow> join sep (ts @ [t]) = join sep ts @ sep @ t"
proof (induction ts)
  case (Cons a ts)
  then show ?case by (cases ts) auto
qed simp

section \<open>Quoting and parsing\<close>

text \<open>A line with every string quoted, separated by blanks.\<close>

definition quoted :: "byte list \<Rightarrow> byte list" where
  "quoted s = [34] @ concat (List.map repr_char s) @ [34]"

lemma hex_digit_byte:
  assumes "n < 16"
  shows "is_hex_digit (hex_digit n) \<and> hex_digit_to_int (hex_digit n) = n"
proof -
  have "\<forall>k < 16. is_hex_digit (hex_digit (of_nat k)) \<and> hex_digit_to_int (hex_digit (of_nat k)) = (of_nat k :: byte)"
    by code_simp
  moreover have "unat n < 16" using assms by (simp add: word_less_nat_alt)
  ultimately show ?thesis by (metis of_nat_unat ucast_id)
qed

lemma hex_digits_byte:
  "is_hex_digit (hex_digit (drop_bit 4 c))" "is_hex_digit (hex_digit (c mod 16))"
  "hex_digit_to_int (hex_digit (drop_bit 4 c)) * 16 + hex_digit_to_int (hex_digit (c mod 16)) = (c :: byte)"
proof -
  have d: "drop_bit 4 c = c div 16" by (simp add: drop_bit_eq_div)
  have "c div 16 < 16" "c mod 16 < 16"
    using unsigned_less [of c, where 'a = nat] by (simp_all add: word_less_nat_alt unat_div unat_mod less_mult_imp_div_less)
  then show "is_hex_digit (hex_digit (drop_bit 4 c))" "is_hex_digit (hex_digit (c mod 16))"
    "hex_digit_to_int (hex_digit (drop_bit 4 c)) * 16 + hex_digit_to_int (hex_digit (c mod 16)) = c"
    using div_mult_mod_eq [of c 16] by (simp_all add: hex_digit_byte d)
qed

lemma token_loop_more:
  "tok_round p inq insq cur = Some (TokMore p' i j c) \<Longrightarrow> token_loop p inq insq cur = token_loop (advance p') i j c"
  by (simp add: token_loop.simps)

lemma token_loop_char: "token_loop (repr_char c @ q) True insq cur = token_loop q True insq (cur @ [c])"
proof -
  consider "c = 92 \<or> c = 34 \<or> c = 10 \<or> c = 13 \<or> c = 9 \<or> c = 7 \<or> c = 8"
    | "isprint c" "c \<noteq> 92" "c \<noteq> 34"
    | "\<not> isprint c" "\<not> (c = 92 \<or> c = 34 \<or> c = 10 \<or> c = 13 \<or> c = 9 \<or> c = 7 \<or> c = 8)" by blast
  then show ?thesis
  proof cases
    case 1
    then have "tok_round (repr_char c @ q) True insq cur = Some (TokMore (drop 1 (repr_char c) @ q) True insq (cur @ [c]))"
      by (elim disjE) (simp_all add: repr_char_def tok_round_def and_then_def test_def peek_def unescape_def)
    moreover have "advance (drop 1 (repr_char c) @ q) = q"
      using 1 by (elim disjE) (simp_all add: repr_char_def advance_def)
    ultimately show ?thesis by (simp add: token_loop_more)
  next
    case 2
    then have r: "repr_char c = [c]" "c \<noteq> 0" by (auto simp: repr_char_def isprint_def)
    then have "tok_round (repr_char c @ q) True insq cur = Some (TokMore (c # q) True insq (cur @ [c]))"
      using 2 by (simp add: tok_round_def and_then_def test_def peek_def)
    then show ?thesis using r by (simp add: token_loop_more advance_def)
  next
    case 3
    define a b where "a = hex_digit (drop_bit 4 c)" and "b = hex_digit (c mod 16)"
    have h: "is_hex_digit a" "is_hex_digit b" "hex_digit_to_int a * 16 + hex_digit_to_int b = c"
      using hex_digits_byte by (simp_all add: a_def b_def)
    then have "b \<noteq> 0" by (auto simp: is_hex_digit_def)
    have r: "repr_char c = [92, 120, a, b]" using 3 by (simp add: repr_char_def a_def b_def)
    have "tok_round (repr_char c @ q) True insq cur = Some (TokMore (b # q) True insq (cur @ [c]))"
      using h by (simp add: r tok_round_def and_then_def test_def peek_def)
    then show ?thesis using \<open>b \<noteq> 0\<close> by (simp add: token_loop_more advance_def)
  qed
qed

lemma token_loop_quoted:
  assumes "x = 0 \<or> isspace x"
  shows "token_loop (quoted s @ x # r) False False cur = Some (TokDone (x # r) (cur @ s))"
proof -
  have "token_loop (concat (List.map repr_char s) @ 34 # x # r) True False cur = Some (TokDone (x # r) (cur @ s))" for cur
  proof (induction s arbitrary: cur)
    case Nil
    have "bad_close (34 # x # r) = Some False" using assms by (auto simp: bad_close_def and_then_def test_def peek_def)
    then have "tok_round (34 # x # r) True False cur = Some (TokDone (34 # x # r) cur)"
      by (simp add: tok_round_def and_then_def test_def peek_def)
    then show ?case by (simp add: token_loop.simps advance_def)
  next
    case (Cons c s)
    then show ?case by (simp add: token_loop_char)
  qed
  moreover have "tok_round (quoted s @ x # r) False False cur = Some (TokMore (quoted s @ x # r) True False cur)"
    by (simp add: tok_round_def quoted_def peek_def)
  moreover have "advance (quoted s @ x # r) = concat (List.map repr_char s) @ 34 # x # r"
    by (simp add: quoted_def advance_def)
  ultimately show ?thesis by (simp only: token_loop_more)
qed

lemma args_loop_blank: "args_loop (32 # p) vec = args_loop p vec"
proof -
  have "skip_blanks (32 # p) = skip_blanks p" by (simp add: skip_blanks_def isspace_def)
  then show ?thesis by (simp only: args_loop.simps [of "32 # p" vec] args_loop.simps [of p vec])
qed

lemma args_loop_quoted:
  "args_loop (join [32] (List.map quoted ss) @ 0 # r) vec = Some (Some (vec @ ss))"
proof (induction ss arbitrary: vec)
  case Nil
  then show ?case by (simp add: args_loop.simps skip_blanks_def peek_def)
next
  case (Cons s ss)
  define rest where "rest = (if ss = [] then 0 # r else 32 # join [32] (List.map quoted ss) @ 0 # r)"
  have p: "join [32] (List.map quoted (s # ss)) @ 0 # r = quoted s @ rest" by (cases ss) (simp_all add: rest_def)
  have sk: "skip_blanks (quoted s @ rest) = quoted s @ rest" by (simp add: skip_blanks_def quoted_def isspace_def)
  obtain x q where x: "rest = x # q" "x = 0 \<or> isspace x" by (simp add: rest_def isspace_def split: if_splits) metis
  have "args_loop (quoted s @ rest) vec = args_loop rest (vec @ [s])"
  proof -
    have "peek (quoted s @ rest) 0 = Some 34" by (simp add: quoted_def peek_def)
    moreover have "(34 :: byte) \<noteq> 0" by simp
    ultimately show ?thesis using token_loop_quoted [OF x(2), of s q "[]"]
      unfolding args_loop.simps [of "quoted s @ rest" vec] sk
      by (simp only: x(1) option.case if_False tok.case append_Nil)
  qed
  also have "\<dots> = Some (Some (vec @ s # ss))"
    using Cons.IH [of "vec @ [s]"] by (cases "ss = []") (simp_all add: rest_def args_loop_blank)
  finally show ?case by (simp only: p)
qed

text \<open>
  C34: \<open>sdssplitargs\<close> undoes \<open>sdscatrepr\<close>: any list of byte strings, each printed as a quoted string
  and joined with blanks, is parsed back to exactly these strings, without reading past the end of the line;
  for no string at all the result is \<open>NULL\<close> with count zero.
\<close>

theorem splitargs_catrepr:
  "sdssplitargs (join [32] (List.map (\<lambda>s. the (sdscatrepr [] s (length s))) ss) @ [0]) =
     Some (if ss = [] then None else Some ss, int (length ss))"
proof -
  have "the (sdscatrepr [] s (length s)) = quoted s" for s by (simp add: sdscatrepr_def rd_def quoted_def)
  then show ?thesis using args_loop_quoted [of ss "[]" "[]"] by (simp add: sdssplitargs_def)
qed

text \<open>Reading the line stops at its terminator.\<close>

lemma tok_round_safe:
  assumes "0 \<in> set p"
  shows "\<exists>t. tok_round p inq insq cur = Some t \<and> (\<forall>p' i j c. t = TokMore p' i j c \<longrightarrow> 0 \<in> set (advance p')) \<and>
    (\<forall>p' c. t = TokDone p' c \<longrightarrow> p' = p)"
proof -
  obtain a q where p: "p = a # q" using assms by (cases p) auto
  show ?thesis
  proof (cases "a = 0")
    case True
    then show ?thesis by (simp add: p tok_round_def and_then_def test_def peek_def)
  next
    case a: False
    then have q0: "0 \<in> set q" using assms p by auto
    obtain b r where q: "q = b # r" using q0 by (cases q) auto
    have bc: "bad_close p = Some (b \<noteq> 0 \<and> \<not> isspace b)" by (simp add: bad_close_def and_then_def test_def peek_def p q)
    have r0: "b \<noteq> 0 \<Longrightarrow> 0 \<in> set r" using q0 q by auto
    obtain x where hex: "and_then (test p 0 (\<lambda>c. c = 92)) (and_then (test p 1 (\<lambda>c. c = 120))
                 (and_then (test p 2 is_hex_digit) (test p 3 is_hex_digit))) = Some x"
      and x: "x \<Longrightarrow> \<exists>c d s. r = c # d # s \<and> 0 \<in> set s \<and> d \<noteq> 0"
    proof (cases "a = 92 \<and> b = 120")
      case True
      then obtain c s where r: "r = c # s" using r0 by (cases r) auto
      show ?thesis
      proof (cases "is_hex_digit c")
        case c: True
        then have "c \<noteq> 0" by (auto simp: is_hex_digit_def)
        then have s0: "0 \<in> set s" using r0 True r by auto
        then obtain d u where s: "s = d # u" by (cases s) auto
        have "is_hex_digit d \<Longrightarrow> d \<noteq> 0" by (auto simp: is_hex_digit_def)
        then show ?thesis using that [of "is_hex_digit d"] True c s0
          by (auto simp: and_then_def test_def peek_def p q r s)
      next
        case False
        then show ?thesis using that [of False] True by (simp add: and_then_def test_def peek_def p q r)
      qed
    next
      case False
      then show ?thesis using that [of False] by (auto simp: and_then_def test_def peek_def p q)
    qed
    obtain y where esc: "and_then (test p 0 (\<lambda>c. c = 92)) (test p 1 (\<lambda>c. c \<noteq> 0)) = Some y" "y \<Longrightarrow> b \<noteq> 0"
      using that [of "a = 92 \<and> b \<noteq> 0"] by (cases "a = 92") (simp_all add: and_then_def test_def peek_def p q)
    obtain z where esq: "and_then (test p 0 (\<lambda>c. c = 92)) (test p 1 (\<lambda>c. c = 39)) = Some z" "z \<Longrightarrow> b \<noteq> 0"
      using that [of "a = 92 \<and> b = 39"] by (cases "a = 92") (simp_all add: and_then_def test_def peek_def p q)
    have ad: "advance p = q" "b \<noteq> 0 \<Longrightarrow> advance (drop 1 p) = r" using a by (simp_all add: advance_def p q)
    show ?thesis
    proof (cases inq)
      case True
      show ?thesis
      proof (cases x)
        case X: True
        then obtain c d s where r: "r = c # d # s" "0 \<in> set s" "d \<noteq> 0" using x by blast
        then show ?thesis using hex esc X True by (simp add: tok_round_def peek_def p q advance_def)
      next
        case False
        then show ?thesis using hex esc True bc ad q0 r0 a
          by (cases y) (auto simp: tok_round_def peek_def p q)
      qed
    next
      case False
      then show ?thesis using esq bc ad q0 r0 a
        by (cases insq; cases z) (auto simp: tok_round_def peek_def p q)
    qed
  qed
qed

lemma token_loop_safe:
  "0 \<in> set p \<Longrightarrow> \<exists>t. token_loop p inq insq cur = Some t \<and> (\<forall>p' i j c. t \<noteq> TokMore p' i j c) \<and>
     (\<forall>p' c. t = TokDone p' c \<longrightarrow> 0 \<in> set p')"
proof (induction p inq insq cur rule: token_loop.induct)
  case (1 p inq insq cur)
  obtain t where t: "tok_round p inq insq cur = Some t" "\<forall>p' i j c. t = TokMore p' i j c \<longrightarrow> 0 \<in> set (advance p')"
    "\<forall>p' c. t = TokDone p' c \<longrightarrow> p' = p"
    using tok_round_safe [OF "1.prems"] by blast
  show ?case
  proof (cases t)
    case TokErr
    then show ?thesis using t by (simp add: token_loop.simps)
  next
    case (TokDone p' c)
    then have "0 \<in> set (advance p')" using t "1.prems" by (cases p) (auto simp: advance_def)
    then show ?thesis using t TokDone by (simp add: token_loop.simps)
  next
    case (TokMore p' i j c)
    then show ?thesis using "1.IH" [OF t(1) TokMore] t(1,2) by (simp add: token_loop_more)
  qed
qed

lemma args_loop_safe: "0 \<in> set p \<Longrightarrow> args_loop p vec \<noteq> None"
proof (induction p vec rule: args_loop.induct)
  case (1 p vec)
  have s0: "0 \<in> set (skip_blanks p)"
    using "1.prems" by (induction p) (auto simp: skip_blanks_def)
  then have "skip_blanks p \<noteq> []" by auto
  then obtain c where c: "peek (skip_blanks p) 0 = Some c" by (simp add: peek_def)
  obtain t where t: "token_loop (skip_blanks p) False False [] = Some t" "\<forall>p' i j c. t \<noteq> TokMore p' i j c"
    "\<forall>p' c. t = TokDone p' c \<longrightarrow> 0 \<in> set p'" using token_loop_safe [OF s0] by blast
  show ?case
  proof (cases "c = 0")
    case True
    then show ?thesis using c by (simp add: args_loop.simps [of p vec])
  next
    case False
    have "args_loop p vec = (case t of TokDone p' cur \<Rightarrow> args_loop p' (vec @ [cur]) | TokErr \<Rightarrow> Some None | _ \<Rightarrow> None)"
      unfolding args_loop.simps [of p vec] c t(1) using False by (simp split: tok.split)
    moreover have "t = TokDone p' cur \<Longrightarrow> args_loop p' (vec @ [cur]) \<noteq> None" for p' cur
      using "1.IH" [OF c False t(1)] t(3) by blast
    ultimately show ?thesis using t(2) by (auto split: tok.split)
  qed
qed

text \<open>
  C35: on any terminated line, quotes and escapes cut off anywhere included, \<open>sdssplitargs\<close> returns
  without reading past the terminator.
\<close>

theorem splitargs_safe:
  assumes "0 \<in> set line"
  shows "\<exists>v n. sdssplitargs line = Some (v, n)"
  using args_loop_safe [OF assms, of "[]"] by (auto simp: sdssplitargs_def split: option.splits)

theorem splitargs_safe_witness: "\<exists>v n. sdssplitargs [34, 92, 120, 52, 0] = Some (v, n)"
  by (rule splitargs_safe) simp

section \<open>Tokens and separators\<close>

lemma sublist_take_drop:
  assumes "sublist sep (take n (drop a s))"
  shows "\<exists>p. a \<le> p \<and> p + length sep \<le> a + n \<and> (sep \<noteq> [] \<longrightarrow> p + length sep \<le> length s) \<and> take (length sep) (drop p s) = sep"
proof -
  obtain ps ss where e: "take n (drop a s) = ps @ sep @ ss" using assms by (auto simp: sublist_def)
  define u where "u = drop n (drop a s)"
  have d: "drop a s = ps @ sep @ ss @ u" using e append_take_drop_id [of n "drop a s"] by (simp add: u_def)
  have "drop (a + length ps) s = sep @ ss @ u" using arg_cong [OF d, of "drop (length ps)"] by (simp add: add.commute)
  moreover have "length ps + length sep \<le> n" using arg_cong [OF e, of length] by simp
  moreover have "sep \<noteq> [] \<Longrightarrow> a + length ps + length sep \<le> length s"
    using arg_cong [OF d, of length] by (cases "a \<le> length s") auto
  ultimately show ?thesis by (intro exI [of _ "a + length ps"]) simp
qed

definition first_sep :: "byte list \<Rightarrow> byte list \<Rightarrow> bool" where
  "first_sep sep t \<longleftrightarrow> \<not> sublist sep (butlast (t @ sep))"

lemma split_loop_ok:
  assumes "sep \<noteq> []" "length s < 2 ^ 30" "start \<le> j" "j \<le> length s" "length toks < slots" "5 \<le> slots"
    "slots < 2 ^ 31" "length toks \<le> start" "concat (List.map (\<lambda>t. t @ sep) toks) = take start s"
    "\<forall>t \<in> set toks. first_sep sep t" "\<forall>p. start \<le> p \<and> p < j \<longrightarrow> take (length sep) (drop p s) \<noteq> sep"
  shows "\<exists>start' slots' toks'. split_loop (s @ u) (length s) sep (length sep) j start slots toks = Some (start', slots', toks') \<and>
    start' \<le> length s \<and> length toks' < slots' \<and> concat (List.map (\<lambda>t. t @ sep) toks') = take start' s \<and>
    (\<forall>t \<in> set toks'. first_sep sep t) \<and>
    (\<forall>p. start' \<le> p \<and> p + length sep \<le> length s \<longrightarrow> take (length sep) (drop p s) \<noteq> sep)"
  using assms(3-)
proof (induction "length s - j" arbitrary: j start slots toks rule: less_induct)
  case less
  define m where "m = length sep"
  have m: "0 < m" using assms(1) by (simp add: m_def)
  show ?case
  proof (cases "j + (m - 1) < length s")
    case False
    then have "split_loop (s @ u) (length s) sep m j start slots toks = Some (start, slots, toks)"
      by (subst split_loop.simps) simp
    moreover have "\<forall>p. start \<le> p \<and> p + m \<le> length s \<longrightarrow> take m (drop p s) \<noteq> sep"
    proof (intro allI impI)
      fix p
      assume "start \<le> p \<and> p + m \<le> length s"
      then have "start \<le> p \<and> p < j" using False m by arith
      then show "take m (drop p s) \<noteq> sep" using less.prems(9) by (simp add: m_def)
    qed
    ultimately show ?thesis using less.prems unfolding m_def [symmetric] by auto
  next
    case True
    define sl where "sl = (if slots < length toks + 2 then slots * 2 else slots)"
    have sl: "length toks + 2 \<le> sl" "5 \<le> sl" "sl < 2 ^ 31"
      using less.prems True assms(2) by (auto simp: sl_def)
    have jm: "j + m \<le> length s" using True m by simp
    have m1: "1 \<le> m" "j + 1 \<le> length s" using jm m by simp_all
    then have rds: "rd (s @ u) j m = Some (take m (drop j s))" "rd sep 0 m = Some sep"
      "\<exists>c. rd (s @ u) j 1 = Some c" "\<exists>d. rd sep 0 1 = Some d"
      using jm unfolding rd_def m_def by simp_all
    then obtain c d where cd: "rd (s @ u) j 1 = Some c" "rd sep 0 1 = Some d" by blast
    define b where "b \<longleftrightarrow> take m (drop j s) = sep"
    have beq: "(if m = 1 \<and> c = d then Some True else do { x \<leftarrow> rd (s @ u) j m; y \<leftarrow> rd sep 0 m; Some (x = y) }) = Some b"
      using cd rds by (auto simp: b_def)
    have step: "split_loop (s @ u) (length s) sep m j start slots toks =
       (if b then do { t \<leftarrow> rd (s @ u) start (j - start); toks \<leftarrow> add_token sl t toks;
            split_loop (s @ u) (length s) sep m (j + (m - 1) + 1) (j + m) sl toks }
        else split_loop (s @ u) (length s) sep m (j + 1) start sl toks)"
      unfolding split_loop.simps [of "s @ u" "length s" sep m j start slots toks] Let_def sl_def [symmetric]
      using True sl(3) cd beq by simp
    show ?thesis
    proof (cases b)
      case False
      have "\<forall>p. start \<le> p \<and> p < j + 1 \<longrightarrow> take (length sep) (drop p s) \<noteq> sep"
        using less.prems(9) False by (auto simp: b_def m_def less_Suc_eq)
      moreover have "Suc j \<le> length s" "length s - Suc j < length s - j" using jm m by simp_all
      ultimately show ?thesis
        using less.hyps [of "j + 1" start toks sl] less.prems sl step False by (simp add: m_def)
    next
      case b: True
      define t where "t = take (j - start) (drop start s)"
      have t: "rd (s @ u) start (j - start) = Some t" using less.prems jm by (simp add: rd_def t_def)
      have "drop (j - start) (drop start s) = drop j s" using less.prems(1) by simp
      then have ts: "t @ sep = take (j - start + m) (drop start s)" using b
        unfolding t_def take_add b_def by (simp only:)
      have lt: "length (t @ sep) = j - start + m" using ts jm less.prems(1) by simp
      have "first_sep sep t"
      proof (rule ccontr)
        assume "\<not> first_sep sep t"
        then have "sublist sep (take (j - start + m - 1) (drop start s))"
          using jm less.prems(1) m by (simp add: first_sep_def ts butlast_take)
        from sublist_take_drop [OF this] obtain p where "start \<le> p" "p + m \<le> start + (j - start + m - 1)"
          "take m (drop p s) = sep" by (auto simp: m_def)
        moreover from this have "p < j" using less.prems(1) m by arith
        ultimately show False using less.prems(9) by (simp add: m_def)
      qed
      moreover have "concat (List.map (\<lambda>t. t @ sep) (toks @ [t])) = take (j + m) s"
        using less.prems(1,7) ts take_add [of start "j - start + m" s] by simp
      moreover have "add_token sl t toks = Some (toks @ [t])" using sl by (simp add: add_token_def)
      moreover have "length s - (j + m) < length s - j" using m jm by simp
      moreover note assms(1) [symmetric]
      ultimately show ?thesis
        using less.hyps [of "j + m" "j + m" "toks @ [t]" sl] less.prems sl jm m step b t by (simp flip: m_def)
    qed
  qed
qed

lemma join_concat: "join sep (ts @ [t]) = concat (List.map (\<lambda>t. t @ sep) ts) @ t"
proof (induction ts)
  case (Cons a ts)
  then show ?case by (cases ts) auto
qed simp

lemma split_line:
  assumes "sep \<noteq> []" "s \<noteq> []" "length s < 2 ^ 30"
  shows "\<exists>toks. sdssplitlen (s @ u) (int (length s)) sep (int (length sep)) = Some (Some toks) \<and> toks \<noteq> [] \<and>
    join sep toks = s \<and> (\<forall>t \<in> set (butlast toks). \<not> sublist sep (butlast (t @ sep))) \<and> \<not> sublist sep (last toks)"
proof -
  obtain start slots toks where l: "split_loop (s @ u) (length s) sep (length sep) 0 0 5 [] = Some (start, slots, toks)"
    "start \<le> length s" "length toks < slots" "concat (List.map (\<lambda>t. t @ sep) toks) = take start s"
    "\<forall>t \<in> set toks. first_sep sep t" "\<forall>p. start \<le> p \<and> p + length sep \<le> length s \<longrightarrow> take (length sep) (drop p s) \<noteq> sep"
    using split_loop_ok [OF assms(1,3), of 0 0 "[]" 5 u] by auto
  define t where "t = drop start s"
  have "rd (s @ u) start (length s - start) = Some t" using l(2) by (simp add: rd_def t_def)
  then have r: "sdssplitlen (s @ u) (int (length s)) sep (int (length sep)) = Some (Some (toks @ [t]))"
    using assms(1,2) l(1,3) by (simp add: sdssplitlen_def add_token_def nat_le_iff Suc_le_eq)
  have "join sep (toks @ [t]) = s" using l(4) by (simp add: join_concat t_def)
  moreover have "\<not> sublist sep t"
  proof
    assume "sublist sep t"
    then have "sublist sep (take (length s - start) (drop start s))" by (simp add: t_def)
    from sublist_take_drop [OF this] show False using l(6) assms(1) by blast
  qed
  ultimately show ?thesis using r l(5) by (intro exI [of _ "toks @ [t]"]) (simp add: first_sep_def)
qed

text \<open>
  C36: \<open>sdssplitlen\<close> on a string shorter than \<open>2 ^ 30\<close> bytes (followed by any other) and a non-empty separator stays inside its
  input and inside the token array it grows (room for the final element included), and splits at the
  leftmost occurrences: the tokens joined by the separator are the string, the separator occurs in none of
  them, and in none of them followed by the separator does it occur earlier.  The empty string has no token.
\<close>

theorem splitlen_join:
  assumes "sep \<noteq> []" "s \<noteq> []" "length s < 2 ^ 30"
  shows "\<exists>toks. sdssplitlen (s @ u) (int (length s)) sep (int (length sep)) = Some (Some toks) \<and> toks \<noteq> [] \<and>
    join sep toks = s \<and> (\<forall>t \<in> set (butlast toks). \<not> sublist sep (butlast (t @ sep))) \<and> \<not> sublist sep (last toks)"
  using assms by (rule split_line)

theorem splitlen_join_witness:
  "\<exists>toks. sdssplitlen [97, 44, 44, 44, 98, 13] 5 [44, 44] 2 = Some (Some toks) \<and> join [44, 44] toks = [97, 44, 44, 44, 98]"
  using splitlen_join [of "[44, 44]" "[97, 44, 44, 44, 98]" "[13]"] by auto

text \<open>
  \<open>Sdsfromlonglong\<close> writes within its 32 byte buffer and gives the decimal digits of every
  \<open>long long\<close>, the smallest one included.
\<close>

theorem fromlonglong_decimal: "sdsfromlonglong v = Some (idec (sint v))"
proof -
  define p where "p = (if sint v < 0 then 45 # ll2string_loop (if sint v < 0 then - v else v) []
      else ll2string_loop (if sint v < 0 then - v else v) [])"
  have ll: "ll2string len v = (let l = (if length p + 1 > len then len - 1 else length p) in (take l p @ [0], l))" if "len \<noteq> 0" for len
    using that by (simp add: ll2string_def p_def Let_def)
  have "p = idec (sint v)" using ll [of "length p + 22"] ll2string_idec [of "length p + 22" v] by simp
  moreover have "length (idec (sint v)) \<le> 20"
    using ll [of 21] ll2string_idec [of 21 v] by (simp add: Let_def split: if_splits)
  ultimately show ?thesis by (simp add: sdsfromlonglong_def Let_def flip: p_def)
qed

end
