(* ===== verification/Networking.thy ===== *)
theory Networking
  imports Sdsline
begin

text \<open>
  The request side of \<open>redis/src/networking.c\<close>: \<open>readQueryFromClient\<close>, \<open>processInputBuffer\<close> and the
  two protocols.  A client is the fields these functions use; its query buffer is given by the contents of
  the dynamic string (\<open>Sds\<close> shows what \<open>sdsrange\<close> and \<open>sdsIncrLen\<close> do to them; the hints
  to \<open>sdsMakeRoomFor\<close> do not change them).  \<open>argc\<close> is the length of \<open>argv\<close>.  \<open>processCommand\<close> is a
  parameter that acts on the rest of the server, and may block the client or have it closed.  Failed
  assertions are \<open>None\<close>.  A call of \<open>read\<close> that would block is one that does not happen here, and a read error is an end of file.
\<close>

section \<open>The client\<close>

text \<open>\<open>q_mbl\<close> is \<open>multibulklen\<close>; \<open>q_bulk\<close> is \<open>bulklen\<close>, with \<open>None\<close> for its \<open>-1\<close>.\<close>

datatype reqtype = REQ_UNKNOWN | REQ_INLINE | REQ_MULTIBULK

record 'w qclient =
  q_buf :: "byte list"
  q_req :: reqtype
  q_mbl :: nat
  q_bulk :: "nat option"
  q_argv :: "byte list list"
  q_blocked :: bool
  q_close :: bool
  q_out :: "string list"
  q_world :: 'w

text \<open>\<open>processCommand\<close>: the server afterwards, whether the client is blocked, whether it is to be closed, and \<open>REDIS_OK\<close>.\<close>

type_synonym 'w executor = "byte list list \<Rightarrow> 'w \<Rightarrow> 'w \<times> bool \<times> bool \<times> bool"

definition INLINE_MAX_SIZE :: nat where "INLINE_MAX_SIZE = 1024 * 64"
definition MBULK_BIG_ARG :: nat where "MBULK_BIG_ARG = 1024 * 32"
definition IOBUF_LEN :: nat where "IOBUF_LEN = 1024 * 16"

definition resetClient :: "'w qclient \<Rightarrow> 'w qclient" where
  "resetClient c = c\<lparr>q_argv := [], q_req := REQ_UNKNOWN, q_mbl := 0, q_bulk := None\<rparr>"

definition trim_buf :: "nat \<Rightarrow> 'w qclient \<Rightarrow> 'w qclient" where
  "trim_buf pos c = c\<lparr>q_buf := range_spec (int pos) (- 1) (q_buf c)\<rparr>"

definition addReplyError :: "string \<Rightarrow> 'w qclient \<Rightarrow> 'w qclient" where
  "addReplyError e c = c\<lparr>q_out := q_out c @ [e]\<rparr>"

definition setProtocolError :: "nat \<Rightarrow> 'w qclient \<Rightarrow> 'w qclient" where
  "setProtocolError pos c = trim_buf pos (c\<lparr>q_close := True\<rparr>)"

section \<open>Inline requests\<close>

text \<open>\<open>strstr(s, "\r\n")\<close> on a terminated string, as an offset.\<close>

fun find_crlf :: "byte list \<Rightarrow> nat option" where
  "find_crlf [] = None"
| "find_crlf [a] = None"
| "find_crlf (a # b # s) =
     (if a = 0 then None
      else if a = 13 \<and> b = 10 then Some 0
      else map_option Suc (find_crlf (b # s)))"

text \<open>The returned flag is \<open>REDIS_OK\<close>.\<close>

definition processInlineBuffer :: "'w qclient \<Rightarrow> ('w qclient \<times> bool) option" where
  "processInlineBuffer c =
     (case find_crlf (q_buf c) of
        None \<Rightarrow>
          Some (if length (q_buf c) > INLINE_MAX_SIZE
                then setProtocolError 0 (addReplyError ''Protocol error: too big inline request'' c)
                else c, False)
      | Some querylen \<Rightarrow> do {
          r \<leftarrow> sdssplitlen (q_buf c) (int querylen) [32] 1;
          argv \<leftarrow> r;
          Some ((trim_buf (querylen + 2) c)\<lparr>q_argv := filter (\<lambda>a. a \<noteq> []) argv\<rparr>, True)
        })"

section \<open>Multi bulk requests\<close>

text \<open>\<open>strchr(querybuf+pos, '\r')\<close>: the search stops at a zero byte.\<close>

definition find_cr :: "nat \<Rightarrow> byte list \<Rightarrow> nat option" where
  "find_cr pos buf =
     (let s = c_string (drop pos buf)
      in if 13 \<in> set s then Some (pos + length (takeWhile (\<lambda>b. b \<noteq> 13) s)) else None)"

datatype progress = Go | Wait | Fail

definition expected_msg :: "byte \<Rightarrow> string" where
  "expected_msg b = ''Protocol error: expected '' @ [CHR 0x27, CHR 0x24, CHR 0x27] @ '', got '' @ [CHR 0x27, char_of (unat b), CHR 0x27]"

text \<open>The part of the loop that reads a bulk length.\<close>

definition read_bulklen :: "'w qclient \<Rightarrow> nat \<Rightarrow> progress \<times> 'w qclient \<times> nat" where
  "read_bulklen c pos =
     (case find_cr pos (q_buf c) of
        None \<Rightarrow>
          (Wait, if length (q_buf c) > INLINE_MAX_SIZE
                 then setProtocolError 0 (addReplyError ''Protocol error: too big bulk count string'' c)
                 else c, pos)
      | Some newline \<Rightarrow>
          if int newline > int (length (q_buf c)) - 2 then (Wait, c, pos)
          else if q_buf c ! pos \<noteq> 36
          then (Fail, setProtocolError pos (addReplyError (expected_msg (q_buf c ! pos)) c), pos)
          else
            (case map_option sint (string2ll (take (newline - (pos + 1)) (drop (pos + 1) (q_buf c)))) of
               None \<Rightarrow> (Fail, setProtocolError pos (addReplyError ''Protocol error: invalid bulk length'' c), pos)
             | Some ll \<Rightarrow>
                 if ll < 0 \<or> ll > 512 * 1024 * 1024
                 then (Fail, setProtocolError pos (addReplyError ''Protocol error: invalid bulk length'' c), pos)
                 else
                   let pos = newline + 2;
                       (c, pos) = (if nat ll \<ge> MBULK_BIG_ARG then (trim_buf pos c, 0) else (c, pos))
                   in (Go, c\<lparr>q_bulk := Some (nat ll)\<rparr>, pos)))"

text \<open>The bulk argument itself, when it is complete.\<close>

definition take_bulk :: "'w qclient \<Rightarrow> nat \<Rightarrow> ('w qclient \<times> nat) option" where
  "take_bulk c pos = do {
     bulklen \<leftarrow> q_bulk c;
     if length (q_buf c) - pos < bulklen + 2 then None
     else
       let (c', pos') =
         (if pos = 0 \<and> bulklen \<ge> MBULK_BIG_ARG \<and> length (q_buf c) = bulklen + 2
          then (c\<lparr>q_argv := q_argv c @ [take (length (q_buf c) - 2) (q_buf c)], q_buf := []\<rparr>, 0)
          else (c\<lparr>q_argv := q_argv c @ [take bulklen (drop pos (q_buf c))]\<rparr>, pos + (bulklen + 2)))
       in Some (c'\<lparr>q_bulk := None, q_mbl := q_mbl c - 1\<rparr>, pos')
   }"

lemma read_bulklen_mbl: "read_bulklen c pos = (st, c', pos') \<Longrightarrow> q_mbl c' = q_mbl c"
  by (auto simp: read_bulklen_def setProtocolError_def addReplyError_def trim_buf_def Let_def
      split: option.splits if_splits)

lemma take_bulk_mbl: "take_bulk c pos = Some (c', pos') \<Longrightarrow> q_mbl c' = q_mbl c - 1"
  by (auto simp: take_bulk_def Let_def split: if_splits bind_splits)

text \<open>The loop: the client, and the position reached, or \<open>None\<close> for the returns of \<open>REDIS_ERR\<close> inside it.\<close>

function mb_loop :: "'w qclient \<Rightarrow> nat \<Rightarrow> 'w qclient \<times> nat option" where
  "mb_loop c pos =
     (if q_mbl c = 0 then (c, Some pos)
      else
        (case (if q_bulk c = None then read_bulklen c pos else (Go, c, pos)) of
           (Wait, c', pos') \<Rightarrow> (c', Some pos')
         | (Fail, c', pos') \<Rightarrow> (c', None)
         | (Go, c', pos') \<Rightarrow>
             (case take_bulk c' pos' of
                None \<Rightarrow> (c', Some pos')
              | Some (c'', pos'') \<Rightarrow> mb_loop c'' pos'')))"
  by pat_completeness auto
termination
  by (relation "measure (\<lambda>(c, pos). q_mbl c)") (auto dest!: take_bulk_mbl dest: read_bulklen_mbl [OF sym] split: if_splits)

declare mb_loop.simps [simp del]

definition mb_rest :: "'w qclient \<Rightarrow> nat \<Rightarrow> ('w qclient \<times> bool) option" where
  "mb_rest c pos =
     (if q_mbl c = 0 then None
      else
        (case mb_loop c pos of
           (c, None) \<Rightarrow> Some (c, False)
         | (c, Some pos) \<Rightarrow>
             let c = (if pos \<noteq> 0 then trim_buf pos c else c)
             in Some (c, q_mbl c = 0)))"

definition processMultibulkBuffer :: "'w qclient \<Rightarrow> ('w qclient \<times> bool) option" where
  "processMultibulkBuffer c =
     (if q_mbl c = 0 then
        (if q_argv c \<noteq> [] then None
         else
           (case find_cr 0 (q_buf c) of
              None \<Rightarrow>
                Some (if length (q_buf c) > INLINE_MAX_SIZE
                      then setProtocolError 0 (addReplyError ''Protocol error: too big mbulk count string'' c)
                      else c, False)
            | Some newline \<Rightarrow>
                if int newline > int (length (q_buf c)) - 2 then Some (c, False)
                else if q_buf c ! 0 \<noteq> 42 then None
                else
                  (case map_option sint (string2ll (take (newline - 1) (drop 1 (q_buf c)))) of
                     None \<Rightarrow> Some (setProtocolError 0 (addReplyError ''Protocol error: invalid multibulk length'' c), False)
                   | Some ll \<Rightarrow>
                       if ll > 1024 * 1024
                       then Some (setProtocolError 0 (addReplyError ''Protocol error: invalid multibulk length'' c), False)
                       else if ll \<le> 0 then Some (trim_buf (newline + 2) c, True)
                       else mb_rest (c\<lparr>q_mbl := nat ll\<rparr>) (newline + 2))))
      else mb_rest c 0)"

section \<open>The input buffer\<close>

lemma range_spec_drop [simp]: "range_spec (int p) (- 1) v = drop p v"
proof (cases "v = []")
  case False
  then show ?thesis by (cases "p < length v") (auto simp: range_spec_def Let_def min_def of_nat_diff)
qed (simp add: range_spec_def)

lemma find_crlf_less: "find_crlf s = Some n \<Longrightarrow> n + 2 \<le> length s"
  by (induction s arbitrary: n rule: find_crlf.induct) (auto split: if_splits)

lemma trim_buf_simps [simp]:
  "q_buf (trim_buf p c) = drop p (q_buf c)" "q_req (trim_buf p c) = q_req c" "q_mbl (trim_buf p c) = q_mbl c"
  "q_bulk (trim_buf p c) = q_bulk c" "q_argv (trim_buf p c) = q_argv c" "q_blocked (trim_buf p c) = q_blocked c"
  "q_close (trim_buf p c) = q_close c" "q_out (trim_buf p c) = q_out c" "q_world (trim_buf p c) = q_world c"
  by (simp_all add: trim_buf_def)

lemma trim_buf_0 [simp]: "trim_buf 0 c = c"
  using range_spec_drop [of 0 "q_buf c"] by (simp add: trim_buf_def)

lemma inline_shrinks:
  "processInlineBuffer c = Some (c', True) \<Longrightarrow> length (q_buf c') < length (q_buf c)"
  using find_crlf_less [of "q_buf c"]
  by (auto simp: processInlineBuffer_def split: option.splits bind_splits)

lemma find_cr_bounds: "find_cr pos buf = Some n \<Longrightarrow> pos \<le> n \<and> n < length buf"
proof -
  assume a: "find_cr pos buf = Some n"
  define s where "s = c_string (drop pos buf)"
  have n: "13 \<in> set s" "n = pos + length (takeWhile (\<lambda>b. b \<noteq> 13) s)" using a by (auto simp: find_cr_def Let_def s_def split: if_splits)
  have "length (takeWhile (\<lambda>b. b \<noteq> 13) s) < length s"
    using n(1) length_takeWhile_le [of "\<lambda>b. b \<noteq> 13" s]
    by (metis (mono_tags, lifting) le_neq_implies_less takeWhile_eq_take take_all_iff takeWhile_eq_all_conv order_refl)
  moreover have "length s \<le> length buf - pos" unfolding s_def using length_c_string [of "drop pos buf"] by simp
  ultimately show ?thesis using n(2) by simp
qed

text \<open>The position in the buffer never moves past its end, and what is left shrinks with every bulk.\<close>

lemma read_bulklen_left:
  assumes "read_bulklen c pos = (Go, c', pos')"
  shows "pos' \<le> length (q_buf c') \<and> length (q_buf c') - pos' < length (q_buf c) - pos \<and> q_argv c' = q_argv c"
  using assms find_cr_bounds [of pos "q_buf c"]
  by (auto simp: read_bulklen_def Let_def split: option.splits if_splits)

lemma take_bulk_left:
  assumes "take_bulk c pos = Some (c', pos')" "pos \<le> length (q_buf c)"
  shows "pos' \<le> length (q_buf c') \<and> length (q_buf c') - pos' < length (q_buf c) - pos \<and> q_argv c' \<noteq> []"
  using assms by (auto simp: take_bulk_def Let_def split: if_splits bind_splits)

lemma mb_loop_left:
  assumes "pos \<le> length (q_buf c)"
  shows "case mb_loop c pos of
      (c', None) \<Rightarrow> True
    | (c', Some pos') \<Rightarrow> pos' \<le> length (q_buf c') \<and> length (q_buf c') - pos' \<le> length (q_buf c) - pos \<and>
        (q_mbl c \<noteq> 0 \<and> q_mbl c' = 0 \<longrightarrow> length (q_buf c') - pos' < length (q_buf c) - pos \<and> q_argv c' \<noteq> [])"
  using assms
proof (induction c pos rule: mb_loop.induct)
  case (1 c pos)
  show ?case
  proof (cases "q_mbl c = 0")
    case True
    then show ?thesis using "1.prems" by (simp add: mb_loop.simps)
  next
    case mbl: False
    obtain st c1 p1 where r: "(if q_bulk c = None then read_bulklen c pos else (Go, c, pos)) = (st, c1, p1)"
      by (metis prod_cases3)
    have m1: "q_mbl c1 = q_mbl c" using r read_bulklen_mbl by (auto split: if_splits)
    show ?thesis
    proof (cases st)
      case Go
      have g: "p1 \<le> length (q_buf c1)" "length (q_buf c1) - p1 \<le> length (q_buf c) - pos"
        using r Go "1.prems" read_bulklen_left [of c pos c1 p1] by (auto split: if_splits)
      show ?thesis
      proof (cases "take_bulk c1 p1")
        case None
        then show ?thesis using r Go mbl m1 g by (simp add: mb_loop.simps [of c pos])
      next
        case (Some y)
        obtain c2 p2 where y: "y = (c2, p2)" by force
        have t: "p2 \<le> length (q_buf c2)" "length (q_buf c2) - p2 < length (q_buf c1) - p1" "q_argv c2 \<noteq> []"
          using take_bulk_left [of c1 p1 c2 p2] Some y g by auto
        have e: "mb_loop c pos = mb_loop c2 p2" using r Go mbl Some y by (simp add: mb_loop.simps [of c pos])
        have ih: "case mb_loop c2 p2 of (c', None) \<Rightarrow> True
          | (c', Some pos') \<Rightarrow> pos' \<le> length (q_buf c') \<and> length (q_buf c') - pos' \<le> length (q_buf c2) - p2 \<and>
            (q_mbl c2 \<noteq> 0 \<and> q_mbl c' = 0 \<longrightarrow> length (q_buf c') - pos' < length (q_buf c2) - p2 \<and> q_argv c' \<noteq> [])"
          by (rule "1.IH" [OF mbl r [symmetric] Go refl Some y [symmetric] t(1)])
        show ?thesis
        proof (cases "q_mbl c2 = 0")
          case True
          then have "mb_loop c2 p2 = (c2, Some p2)" by (simp add: mb_loop.simps)
          then show ?thesis using e t g by simp
        next
          case False
          then show ?thesis using ih e t g by (auto split: option.splits)
        qed
      qed
    next
      case Wait
      have "q_bulk c = None" "read_bulklen c pos = (Wait, c1, p1)" using r Wait by (auto split: if_splits)
      then have "p1 = pos \<and> length (q_buf c1) = length (q_buf c)"
        by (auto simp: read_bulklen_def setProtocolError_def addReplyError_def Let_def split: option.splits if_splits)
      then show ?thesis using r Wait mbl m1 "1.prems" by (simp add: mb_loop.simps [of c pos])
    next
      case Fail
      then show ?thesis using r mbl by (simp add: mb_loop.simps [of c pos])
    qed
  qed
qed

lemma mb_rest_shrinks:
  assumes "mb_rest c pos = Some (c', True)" "pos \<le> length (q_buf c)"
  shows "length (q_buf c') < length (q_buf c) - pos \<and> q_argv c' \<noteq> []"
  using mb_loop_left [OF assms(2)] assms(1)
  by (auto simp: mb_rest_def Let_def split: prod.splits option.splits if_splits)

lemma multibulk_shrinks:
  assumes "processMultibulkBuffer c = Some (c', True)"
  shows "length (q_buf c') < length (q_buf c)"
proof (cases "q_mbl c = 0")
  case False
  then have "mb_rest c 0 = Some (c', True)" using assms by (simp add: processMultibulkBuffer_def)
  from mb_rest_shrinks [OF this] show ?thesis by simp
next
  case True
  then obtain n where n: "find_cr 0 (q_buf c) = Some n" "n + 2 \<le> length (q_buf c)"
    using assms by (auto simp: processMultibulkBuffer_def split: option.splits if_splits)
  have "q_argv c = []" "q_buf c ! 0 = 42" using assms True n
    by (auto simp: processMultibulkBuffer_def split: option.splits if_splits)
  then obtain ll where "c' = trim_buf (n + 2) c \<or> mb_rest (c\<lparr>q_mbl := nat ll\<rparr>) (n + 2) = Some (c', True)"
    using assms True n by (auto simp: processMultibulkBuffer_def split: option.splits if_splits)
  then show ?thesis using n(2) mb_rest_shrinks [of "c\<lparr>q_mbl := nat ll\<rparr>" "n + 2" c'] by auto
qed

text \<open>\<open>processCommand\<close> on the arguments of the client.\<close>

definition run_command :: "'w executor \<Rightarrow> 'w qclient \<Rightarrow> 'w qclient \<times> bool" where
  "run_command ex c =
     (let (w, blocked, close, ok) = ex (q_argv c) (q_world c)
      in (c\<lparr>q_world := w, q_blocked := blocked, q_close := close\<rparr>, ok))"

lemma run_command_buf [simp]: "q_buf (fst (run_command ex c)) = q_buf c"
  by (simp add: run_command_def split: prod.split)

lemma resetClient_simps [simp]:
  "q_buf (resetClient c) = q_buf c" "q_req (resetClient c) = REQ_UNKNOWN" "q_mbl (resetClient c) = 0"
  "q_bulk (resetClient c) = None" "q_argv (resetClient c) = []" "q_blocked (resetClient c) = q_blocked c"
  "q_close (resetClient c) = q_close c" "q_world (resetClient c) = q_world c"
  by (simp_all add: resetClient_def)

definition request_type :: "'w qclient \<Rightarrow> 'w qclient" where
  "request_type c =
     (if q_req c = REQ_UNKNOWN
      then c\<lparr>q_req := if hd (q_buf c) = 42 then REQ_MULTIBULK else REQ_INLINE\<rparr> else c)"

definition process_request :: "'w qclient \<Rightarrow> ('w qclient \<times> bool) option" where
  "process_request c =
     (case q_req c of
        REQ_INLINE \<Rightarrow> processInlineBuffer c
      | REQ_MULTIBULK \<Rightarrow> processMultibulkBuffer c
      | REQ_UNKNOWN \<Rightarrow> None)"

lemma process_request_shrinks:
  "process_request c = Some (c', True) \<Longrightarrow> length (q_buf c') < length (q_buf c)"
  by (auto simp: process_request_def intro: inline_shrinks multibulk_shrinks split: reqtype.splits)

lemma request_shrinks:
  "process_request (request_type c) = Some (c', True) \<Longrightarrow> length (q_buf c') < length (q_buf c)"
  using process_request_shrinks [of "request_type c" c'] by (auto simp: request_type_def split: if_splits)

lemma run_command_buf': "(c', ok) = run_command ex c \<Longrightarrow> q_buf c' = q_buf c"
  using run_command_buf [of ex c] by (metis fst_conv)

text \<open>Every round takes something from the buffer, so the loop ends.\<close>

function processInputBuffer :: "'w executor \<Rightarrow> 'w qclient \<Rightarrow> 'w qclient option" where
  "processInputBuffer ex c =
     (if q_buf c = [] \<or> q_blocked c \<or> q_close c then Some c
      else
        (case process_request (request_type c) of
           None \<Rightarrow> None
         | Some (c', ok) \<Rightarrow>
             if \<not> ok then Some c'
             else if q_argv c' = [] then processInputBuffer ex (resetClient c')
             else (case run_command ex c' of
                (c'', ok) \<Rightarrow> processInputBuffer ex (if ok then resetClient c'' else c''))))"
  by pat_completeness auto
termination
  by (relation "measure (\<lambda>(ex, c). length (q_buf c))")
    (auto dest!: request_shrinks run_command_buf')

declare processInputBuffer.simps [simp del]

text \<open>
  One call of \<open>readQueryFromClient\<close> when \<open>stream\<close> is waiting in the socket and \<open>read\<close> returns
  \<open>n\<close> of the bytes asked for.  The inner \<open>None\<close> is a freed client: end of file, or a buffer over the limit.
\<close>

definition read_len :: "'w qclient \<Rightarrow> nat" where
  "read_len c =
     (case q_bulk c of
        Some b \<Rightarrow>
          if q_req c = REQ_MULTIBULK \<and> q_mbl c \<noteq> 0 \<and> b \<ge> MBULK_BIG_ARG
          then min IOBUF_LEN (b + 2 - length (q_buf c)) else IOBUF_LEN
      | None \<Rightarrow> IOBUF_LEN)"

definition readQueryFromClient ::
  "nat \<Rightarrow> 'w executor \<Rightarrow> nat \<Rightarrow> byte list \<Rightarrow> 'w qclient \<Rightarrow> ('w qclient option \<times> byte list) option" where
  "readQueryFromClient max_len ex n stream c =
     (let k = min n (min (read_len c) (length stream)) in
      if k = 0 then Some (None, stream)
      else
        let c = c\<lparr>q_buf := q_buf c @ take k stream\<rparr> in
        if length (q_buf c) > max_len then Some (None, drop k stream)
        else do { c \<leftarrow> processInputBuffer ex c; Some (Some c, drop k stream) })"

section \<open>Requests in the multi bulk protocol\<close>

definition enc_bulk :: "byte list \<Rightarrow> byte list" where
  "enc_bulk a = [36] @ dec (length a) @ [13, 10] @ a @ [13, 10]"

definition enc_bulks :: "byte list list \<Rightarrow> byte list" where
  "enc_bulks as = concat (List.map enc_bulk as)"

definition enc_cmd :: "byte list list \<Rightarrow> byte list" where
  "enc_cmd as = [42] @ dec (length as) @ [13, 10] @ enc_bulks as"

definition valid_cmd :: "byte list list \<Rightarrow> bool" where
  "valid_cmd as \<longleftrightarrow> as \<noteq> [] \<and> length as \<le> 1024 * 1024 \<and> (\<forall>a \<in> set as. length a \<le> 512 * 1024 * 1024)"

lemma enc_bulks_simps [simp]: "enc_bulks [] = []" "enc_bulks (a # as) = enc_bulk a @ enc_bulks as"
  by (simp_all add: enc_bulks_def)

lemma dec_no_cr: "b \<in> set (dec n) \<Longrightarrow> b \<noteq> 13 \<and> b \<noteq> 0"
  using dec_digits [of n] by (auto simp: isdigit_def)

lemma string2ll_dec: "n < 2 ^ 63 \<Longrightarrow> map_option sint (string2ll (dec n)) = Some (int n)"
proof -
  assume n: "n < 2 ^ 63"
  have s: "sint (of_nat n :: u64) = int n" using n by (simp add: signed_of_nat signed_take_bit_int_eq_self)
  have "string2ll (idec (sint (of_nat n :: u64))) = Some (of_nat n)" by (rule string2ll_idec)
  then show ?thesis by (simp add: s idec_def)
qed

text \<open>A buffer that holds a beginning of a line: the line is not there, cut after its first terminator byte, or complete.\<close>

lemma find_cr_line:
  assumes "drop pos buf @ rest = h @ 13 # 10 # t" "\<forall>b \<in> set h. b \<noteq> 13 \<and> b \<noteq> 0" "pos \<le> length buf"
  shows "length buf \<le> pos + length h \<and> find_cr pos buf = None \<or>
    length buf = pos + length h + 1 \<and> find_cr pos buf = Some (pos + length h) \<or>
    pos + length h + 2 \<le> length buf \<and> find_cr pos buf = Some (pos + length h) \<and>
      take (length h) (drop pos buf) = h \<and> drop (pos + length h + 2) buf @ rest = t"
proof -
  define d where "d = drop pos buf"
  have ld: "length d = length buf - pos" by (simp add: d_def)
  have d: "d = take (length d) (h @ 13 # 10 # t)" using assms(1) by (metis append_eq_conv_conj d_def)
  show ?thesis
  proof (cases "length d \<le> length h")
    case True
    then have "d = take (length d) h" using d by simp
    then have "13 \<notin> set (c_string d)" using assms(2) unfolding c_string_def
      by (metis in_set_takeD set_takeWhileD)
    then show ?thesis using True ld assms(3) by (simp add: find_cr_def flip: d_def)
  next
    case False
    then obtain m where m: "length d = length h + Suc m" by (metis less_imp_Suc_add linorder_not_le add_Suc_right)
    then have d2: "d = h @ 13 # take m (10 # t)" using d by simp
    have "c_string d = h @ 13 # c_string (take m (10 # t))"
      unfolding d2 c_string_def using assms(2) by (simp add: takeWhile_append)
    moreover have "takeWhile (\<lambda>b. b \<noteq> 13) (h @ 13 # x) = h" for x
      using assms(2) by (simp add: takeWhile_append)
    ultimately have f: "find_cr pos buf = Some (pos + length h)" by (simp add: find_cr_def Let_def flip: d_def)
    show ?thesis
    proof (cases m)
      case 0
      then have "length buf = pos + length h + 1" using m ld assms(3) by simp
      then show ?thesis using f by blast
    next
      case (Suc k)
      have "drop (pos + length h + 2) buf = drop (length h + 2) d" by (simp add: d_def add.commute add.left_commute)
      then have "drop (pos + length h + 2) buf @ rest = drop (length h + 2) (d @ rest)" using m Suc by simp
      also have "\<dots> = t" using assms(1) by (simp flip: d_def)
      finally have "drop (pos + length h + 2) buf @ rest = t" .
      moreover have "pos + length h + 2 \<le> length buf" using m ld Suc assms(3) by arith
      moreover have "take (length h) d = h" using d2 by simp
      ultimately show ?thesis using f unfolding d_def by blast
    qed
  qed
qed

section \<open>Partial requests\<close>

text \<open>What is still to come of the arguments \<open>as\<close>, given what is known of the first one.\<close>

definition to_come :: "nat option \<Rightarrow> byte list list \<Rightarrow> byte list" where
  "to_come b as = (case b of None \<Rightarrow> enc_bulks as | Some n \<Rightarrow> hd as @ [13, 10] @ enc_bulks (tl as))"

definition bulk_ok :: "nat option \<Rightarrow> byte list list \<Rightarrow> bool" where
  "bulk_ok b as \<longleftrightarrow> b = None \<or> as \<noteq> [] \<and> b = Some (length (hd as))"

text \<open>The buffer is short, or holds nothing but a big argument.\<close>

definition fits :: "'w qclient \<Rightarrow> nat \<Rightarrow> bool" where
  "fits c pos \<longleftrightarrow> length (q_buf c) \<le> INLINE_MAX_SIZE \<or>
     pos = 0 \<and> (\<exists>b \<ge> MBULK_BIG_ARG. q_bulk c = Some b \<and> length (q_buf c) \<le> b + 2)"

definition frame :: "'w qclient \<Rightarrow> 'w qclient \<Rightarrow> bool" where
  "frame c c' \<longleftrightarrow> q_req c' = q_req c \<and> q_blocked c' = q_blocked c \<and> q_close c' = q_close c \<and> q_out c' = q_out c \<and>
     q_world c' = q_world c"

lemma frame_refl [simp]: "frame c c"
  by (simp add: frame_def)

lemma frame_trans: "frame c c' \<Longrightarrow> frame c' c'' \<Longrightarrow> frame c c''"
  by (simp add: frame_def)

lemma read_bulklen_ok:
  assumes "drop pos (q_buf c) @ rest = enc_bulk a @ s" "pos \<le> length (q_buf c)" "length a \<le> 512 * 1024 * 1024"
    "length (q_buf c) \<le> INLINE_MAX_SIZE"
  shows "read_bulklen c pos = (Wait, c, pos) \<and> length (q_buf c) < pos + 16 \<and> rest \<noteq> [] \<or>
    (\<exists>c' pos'. read_bulklen c pos = (Go, c', pos') \<and> frame c c' \<and> q_bulk c' = Some (length a) \<and> q_mbl c' = q_mbl c \<and>
       q_argv c' = q_argv c \<and> drop pos' (q_buf c') @ rest = a @ [13, 10] @ s \<and> pos' \<le> length (q_buf c') \<and>
       length (q_buf c') \<le> INLINE_MAX_SIZE)"
proof -
  define h where "h = 36 # dec (length a)"
  define t where "t = a @ [13, 10] @ s"
  have e: "drop pos (q_buf c) @ rest = h @ 13 # 10 # t" using assms(1) by (simp add: enc_bulk_def h_def t_def)
  have h0: "\<forall>b \<in> set h. b \<noteq> 13 \<and> b \<noteq> 0" using dec_no_cr by (auto simp: h_def)
  have lh: "length h \<le> 10" using length_dec [of "length a" 8] assms(3) by (simp add: h_def)
  from find_cr_line [OF e h0 assms(2)] consider
    "length (q_buf c) \<le> pos + length h" "find_cr pos (q_buf c) = None"
    | "length (q_buf c) = pos + length h + 1" "find_cr pos (q_buf c) = Some (pos + length h)"
    | "pos + length h + 2 \<le> length (q_buf c)" "find_cr pos (q_buf c) = Some (pos + length h)"
      "take (length h) (drop pos (q_buf c)) = h" "drop (pos + length h + 2) (q_buf c) @ rest = t"
    by (elim disjE conjE) (rule that; assumption)+
  then show ?thesis
  proof cases
    case 1
    moreover have "rest \<noteq> []" using arg_cong [OF e, of length] 1(1) assms(2) by auto
    ultimately show ?thesis using assms(4) lh by (simp add: read_bulklen_def)
  next
    case 2
    moreover have "rest \<noteq> []" using arg_cong [OF e, of length] 2(1) assms(2) by auto
    ultimately show ?thesis using lh by (simp add: read_bulklen_def)
  next
    case 3
    define p where "p = pos + length h + 2"
    have hd: "q_buf c ! pos = 36"
    proof -
      have "drop pos (q_buf c) ! 0 = h ! 0" using 3(3) by (metis h_def length_greater_0_conv list.distinct(1) nth_take)
      then show ?thesis using assms(2) by (simp add: h_def)
    qed
    have num: "take (pos + length h - (pos + 1)) (drop (pos + 1) (q_buf c)) = dec (length a)"
      using arg_cong [OF 3(3), of "drop 1"] by (simp add: h_def drop_take)
    have "map_option sint (string2ll (dec (length a))) = Some (int (length a))"
      using assms(3) by (intro string2ll_dec) simp
    then obtain v where v: "string2ll (dec (length a)) = Some v" "sint v = int (length a)" by auto
    then have r: "read_bulklen c pos = (Go, if MBULK_BIG_ARG \<le> length a then trim_buf p c \<lparr>q_bulk := Some (length a)\<rparr>
          else c\<lparr>q_bulk := Some (length a)\<rparr>, if MBULK_BIG_ARG \<le> length a then 0 else p)"
      using 3(1,2) hd assms(3) unfolding read_bulklen_def 3(2) option.case num v(1) by (simp add: Let_def p_def v(2))
    show ?thesis
    proof (cases "MBULK_BIG_ARG \<le> length a")
      case True
      then show ?thesis using 3 assms(4)
        by - (rule disjI2, intro exI conjI, rule r, simp_all add: frame_def p_def t_def)
    next
      case False
      then show ?thesis using 3 assms(4)
        by - (rule disjI2, intro exI conjI, rule r, simp_all add: frame_def p_def t_def)
    qed
  qed
qed

lemma take_bulk_ok:
  assumes "drop pos (q_buf c) @ rest = a @ [13, 10] @ s" "pos \<le> length (q_buf c)" "q_bulk c = Some (length a)" "fits c pos"
  shows "take_bulk c pos = None \<and> length (q_buf c) < pos + length a + 2 \<and> rest \<noteq> [] \<or>
    (\<exists>c' pos'. take_bulk c pos = Some (c', pos') \<and> frame c c' \<and> q_bulk c' = None \<and> q_mbl c' = q_mbl c - 1 \<and>
       q_argv c' = q_argv c @ [a] \<and> drop pos' (q_buf c') @ rest = s \<and> pos' \<le> length (q_buf c') \<and>
       length (q_buf c') \<le> INLINE_MAX_SIZE)"
proof (cases "length (q_buf c) < pos + length a + 2")
  case True
  then have "length (q_buf c) - pos < length a + 2" using assms(2) by arith
  then have "take_bulk c pos = None" using assms(3) by (simp add: take_bulk_def)
  moreover have "rest \<noteq> []" using arg_cong [OF assms(1), of length] True assms(2) by auto
  ultimately show ?thesis using True by blast
next
  case False
  define d where "d = drop pos (q_buf c)"
  have ld: "length a + 2 \<le> length d" using False assms(2) by (simp add: d_def)
  have t: "take (length a) d = a"
    using arg_cong [OF assms(1), of "take (length a)"] ld by (simp flip: d_def)
  have dd: "drop (length a + 2) d @ rest = s"
    using arg_cong [OF assms(1), of "drop (length a + 2)"] ld by (simp flip: d_def)
  show ?thesis
  proof (cases "pos = 0 \<and> MBULK_BIG_ARG \<le> length a \<and> length (q_buf c) = length a + 2")
    case True
    then have r: "take_bulk c pos = Some (c\<lparr>q_argv := q_argv c @ [a], q_buf := [], q_bulk := None, q_mbl := q_mbl c - 1\<rparr>, 0)"
      using assms(3) t by (simp add: take_bulk_def d_def)
    have "rest = s" using dd True by (simp add: d_def)
    then show ?thesis
      by - (rule disjI2, intro exI conjI, rule r, simp_all add: frame_def)
  next
    case other: False
    then have r: "take_bulk c pos = Some (c\<lparr>q_argv := q_argv c @ [a], q_bulk := None, q_mbl := q_mbl c - 1\<rparr>, pos + (length a + 2))"
      using assms(2,3) t False by (auto simp: take_bulk_def d_def Let_def)
    have "length (q_buf c) \<le> INLINE_MAX_SIZE" using assms(3,4) other False by (auto simp: fits_def)
    moreover have "drop (pos + (length a + 2)) (q_buf c) @ rest = s" using dd by (simp add: d_def add.commute add.left_commute)
    ultimately show ?thesis using False
      by - (rule disjI2, intro exI conjI, rule r, simp_all add: frame_def)
  qed
qed

definition stuck :: "'w qclient \<Rightarrow> bool" where
  "stuck c \<longleftrightarrow> length (q_buf c) < (case q_bulk c of None \<Rightarrow> 16 | Some b \<Rightarrow> b + 2)"

text \<open>The loop reads arguments while they are complete, and stops inside the next one.\<close>

lemma mb_loop_ok:
  assumes "q_mbl c = length as" "bulk_ok (q_bulk c) as" "drop pos (q_buf c) @ rest = to_come (q_bulk c) as @ s"
    "pos \<le> length (q_buf c)" "fits c pos" "\<forall>a \<in> set as. length a \<le> 512 * 1024 * 1024"
  shows "\<exists>c' pos' ds rs. mb_loop c pos = (c', Some pos') \<and> frame c c' \<and> as = ds @ rs \<and> q_argv c' = q_argv c @ ds \<and>
    q_mbl c' = length rs \<and> bulk_ok (q_bulk c') rs \<and> drop pos' (q_buf c') @ rest = to_come (q_bulk c') rs @ s \<and>
    pos' \<le> length (q_buf c') \<and> (rs = [] \<longrightarrow> length (q_buf c') \<le> INLINE_MAX_SIZE \<or> as = []) \<and>
    (rs \<noteq> [] \<longrightarrow> length (q_buf c') < pos' + (case q_bulk c' of None \<Rightarrow> 16 | Some b \<Rightarrow> b + 2) \<and> rest \<noteq> [])"
  using assms
proof (induction as arbitrary: c pos)
  case Nil
  then show ?case by (intro exI [of _ c] exI [of _ pos]) (simp add: mb_loop.simps)
next
  case (Cons a as)
  have la: "length a \<le> 512 * 1024 * 1024" using Cons.prems(6) by simp
  have mbl: "q_mbl c \<noteq> 0" using Cons.prems(1) by simp
  have "(if q_bulk c = None then read_bulklen c pos else (Go, c, pos)) = (Wait, c, pos) \<and>
      q_bulk c = None \<and> length (q_buf c) < pos + 16 \<and> rest \<noteq> [] \<or>
    (\<exists>c1 p1. (if q_bulk c = None then read_bulklen c pos else (Go, c, pos)) = (Go, c1, p1) \<and> frame c c1 \<and> q_bulk c1 = Some (length a) \<and>
      q_mbl c1 = q_mbl c \<and> q_argv c1 = q_argv c \<and> drop p1 (q_buf c1) @ rest = a @ [13, 10] @ enc_bulks as @ s \<and>
      p1 \<le> length (q_buf c1) \<and> fits c1 p1)"
  proof (cases "q_bulk c")
    case None
    then have "length (q_buf c) \<le> INLINE_MAX_SIZE" using Cons.prems(5) by (auto simp: fits_def)
    moreover have "drop pos (q_buf c) @ rest = enc_bulk a @ enc_bulks as @ s" using Cons.prems(3) None by (simp add: to_come_def)
    ultimately show ?thesis using read_bulklen_ok [of pos c rest a "enc_bulks as @ s"] Cons.prems(4) la None by (auto simp: fits_def)
  next
    case (Some b)
    then show ?thesis using Cons.prems by (auto simp: bulk_ok_def to_come_def)
  qed
  then consider
      "(if q_bulk c = None then read_bulklen c pos else (Go, c, pos)) = (Wait, c, pos)" "q_bulk c = None" "length (q_buf c) < pos + 16" "rest \<noteq> []"
    | c1 p1 where "(if q_bulk c = None then read_bulklen c pos else (Go, c, pos)) = (Go, c1, p1)" "frame c c1" "q_bulk c1 = Some (length a)"
      "q_mbl c1 = q_mbl c" "q_argv c1 = q_argv c" "drop p1 (q_buf c1) @ rest = a @ [13, 10] @ enc_bulks as @ s"
      "p1 \<le> length (q_buf c1)" "fits c1 p1"
    by (elim disjE exE conjE) (rule that; assumption)+
  then show ?case
  proof cases
    case 1
    have "mb_loop c pos = (c, Some pos)" using 1(1) mbl by (simp add: mb_loop.simps [of c pos])
    moreover have "\<exists>ds rs. a # as = ds @ rs \<and> q_argv c = q_argv c @ ds \<and> q_mbl c = length rs \<and> bulk_ok (q_bulk c) rs \<and>
        drop pos (q_buf c) @ rest = to_come (q_bulk c) rs @ s \<and> rs \<noteq> []"
      using Cons.prems(1-3) by (intro exI [of _ "[]"] exI [of _ "a # as"]) simp
    ultimately show ?thesis using Cons.prems(4) 1(2-4) by fastforce
  next
    case (2 c1 p1)
    from take_bulk_ok [OF 2(6,7,3,8)] consider
        "take_bulk c1 p1 = None" "length (q_buf c1) < p1 + length a + 2" "rest \<noteq> []"
      | c2 p2 where "take_bulk c1 p1 = Some (c2, p2)" "frame c1 c2" "q_bulk c2 = None" "q_mbl c2 = q_mbl c1 - 1"
        "q_argv c2 = q_argv c1 @ [a]" "drop p2 (q_buf c2) @ rest = enc_bulks as @ s" "p2 \<le> length (q_buf c2)"
        "length (q_buf c2) \<le> INLINE_MAX_SIZE"
      by (elim disjE exE conjE) (rule that; assumption)+
    then show ?thesis
    proof cases
      case w: 1
      have "mb_loop c pos = (c1, Some p1)" using 2(1) w mbl by (simp add: mb_loop.simps [of c pos])
      moreover have "\<exists>ds rs. a # as = ds @ rs \<and> q_argv c1 = q_argv c @ ds \<and> q_mbl c1 = length rs \<and> bulk_ok (q_bulk c1) rs \<and>
          drop p1 (q_buf c1) @ rest = to_come (q_bulk c1) rs @ s \<and> rs \<noteq> []"
        using Cons.prems(1) 2 by (intro exI [of _ "[]"] exI [of _ "a # as"]) (simp add: bulk_ok_def to_come_def)
      ultimately show ?thesis using 2(2,3,7) w(2,3) by fastforce
    next
      case (2 c2 p2)
      note b = 2 and g = \<open>(if q_bulk c = None then read_bulklen c pos else (Go, c, pos)) = (Go, c1, p1)\<close>
      have e: "mb_loop c pos = mb_loop c2 p2" using g b(1) mbl by (simp add: mb_loop.simps [of c pos])
      have fr: "frame c c2" using frame_trans b(2) \<open>frame c c1\<close> by blast
      have arg: "q_argv c2 = q_argv c @ [a]" using b(5) \<open>q_argv c1 = q_argv c\<close> by simp
      have m2: "q_mbl c2 = length as" using b(4) \<open>q_mbl c1 = q_mbl c\<close> Cons.prems(1) by simp
      have "\<exists>c' pos' ds rs. mb_loop c2 p2 = (c', Some pos') \<and> frame c2 c' \<and> as = ds @ rs \<and> q_argv c' = q_argv c2 @ ds \<and>
          q_mbl c' = length rs \<and> bulk_ok (q_bulk c') rs \<and> drop pos' (q_buf c') @ rest = to_come (q_bulk c') rs @ s \<and>
          pos' \<le> length (q_buf c') \<and> (rs = [] \<longrightarrow> length (q_buf c') \<le> INLINE_MAX_SIZE \<or> as = []) \<and>
          (rs \<noteq> [] \<longrightarrow> length (q_buf c') < pos' + (case q_bulk c' of None \<Rightarrow> 16 | Some b \<Rightarrow> b + 2) \<and> rest \<noteq> [])"
        using Cons.IH [OF m2] b Cons.prems(6) by (simp add: bulk_ok_def to_come_def fits_def)
      then obtain c' pos' ds rs where ih: "mb_loop c2 p2 = (c', Some pos')" "frame c2 c'" "as = ds @ rs" "q_argv c' = q_argv c2 @ ds"
          "q_mbl c' = length rs" "bulk_ok (q_bulk c') rs" "drop pos' (q_buf c') @ rest = to_come (q_bulk c') rs @ s"
          "pos' \<le> length (q_buf c')" "rs = [] \<longrightarrow> length (q_buf c') \<le> INLINE_MAX_SIZE \<or> as = []"
          "rs \<noteq> [] \<longrightarrow> length (q_buf c') < pos' + (case q_bulk c' of None \<Rightarrow> 16 | Some b \<Rightarrow> b + 2) \<and> rest \<noteq> []" by blast
      have "rs = [] \<longrightarrow> length (q_buf c') \<le> INLINE_MAX_SIZE"
      proof
        assume "rs = []"
        show "length (q_buf c') \<le> INLINE_MAX_SIZE"
        proof (cases "as = []")
          case True
          then have "mb_loop c2 p2 = (c2, Some p2)" using m2 by (simp add: mb_loop.simps)
          then show ?thesis using ih(1) b(8) by simp
        qed (use ih(9) \<open>rs = []\<close> in simp)
      qed
      then show ?thesis using ih frame_trans [OF fr ih(2)] arg unfolding e
        by (intro exI [of _ c'] exI [of _ pos'] exI [of _ "a # ds"] exI [of _ rs]) simp
    qed
  qed
qed

text \<open>
  The client has read a part of the commands \<open>cmds\<close>, the last of it being in its buffer; \<open>rest\<close> is what
  has not arrived.
\<close>

definition expects :: "'w qclient \<Rightarrow> byte list \<Rightarrow> byte list list list \<Rightarrow> bool" where
  "expects c rest cmds \<longleftrightarrow> \<not> q_blocked c \<and> \<not> q_close c \<and> (\<forall>x \<in> set cmds. valid_cmd x) \<and>
     (q_req c \<noteq> REQ_INLINE \<and> q_mbl c = 0 \<and> q_argv c = [] \<and> q_bulk c = None \<and>
        q_buf c @ rest = concat (List.map enc_cmd cmds) \<or>
      q_req c = REQ_MULTIBULK \<and>
        (\<exists>as cs. as \<noteq> [] \<and> cmds = (q_argv c @ as) # cs \<and> q_mbl c = length as \<and> bulk_ok (q_bulk c) as \<and>
           q_buf c @ rest = to_come (q_bulk c) as @ concat (List.map enc_cmd cs)))"

lemma mb_rest_ok:
  assumes "as \<noteq> []" "q_mbl c = length as" "bulk_ok (q_bulk c) as" "drop pos (q_buf c) @ rest = to_come (q_bulk c) as @ concat (List.map enc_cmd cs)"
    "pos \<le> length (q_buf c)" "fits c pos" "valid_cmd (q_argv c @ as)" "\<forall>x \<in> set cs. valid_cmd x"
    "\<not> q_blocked c" "\<not> q_close c" "q_req c = REQ_MULTIBULK"
  shows "\<exists>c' ok. mb_rest c pos = Some (c', ok) \<and> frame c c' \<and>
    (\<not> ok \<longrightarrow> expects c' rest ((q_argv c @ as) # cs) \<and> stuck c' \<and> rest \<noteq> []) \<and>
    (ok \<longrightarrow> q_argv c' = q_argv c @ as \<and> q_buf c' @ rest = concat (List.map enc_cmd cs) \<and> length (q_buf c') \<le> INLINE_MAX_SIZE)"
proof -
  have "\<forall>a \<in> set as. length a \<le> 512 * 1024 * 1024" using assms(7) by (simp add: valid_cmd_def)
  from mb_loop_ok [OF assms(2-6) this] obtain c1 p1 ds rs where l: "mb_loop c pos = (c1, Some p1)" "frame c c1" "as = ds @ rs"
    "q_argv c1 = q_argv c @ ds" "q_mbl c1 = length rs" "bulk_ok (q_bulk c1) rs"
    "drop p1 (q_buf c1) @ rest = to_come (q_bulk c1) rs @ concat (List.map enc_cmd cs)" "p1 \<le> length (q_buf c1)"
    "rs = [] \<longrightarrow> length (q_buf c1) \<le> INLINE_MAX_SIZE \<or> as = []"
    "rs \<noteq> [] \<longrightarrow> length (q_buf c1) < p1 + (case q_bulk c1 of None \<Rightarrow> 16 | Some b \<Rightarrow> b + 2) \<and> rest \<noteq> []" by blast
  define c2 where "c2 = trim_buf p1 c1"
  have "(if p1 \<noteq> 0 then trim_buf p1 c1 else c1) = c2" by (cases "p1 = 0") (simp_all add: c2_def)
  then have r: "mb_rest c pos = Some (c2, q_mbl c2 = 0)" using l(1) assms(1,2) by (simp add: mb_rest_def Let_def)
  have fr: "frame c c2" using l(2) by (simp add: frame_def c2_def)
  show ?thesis
  proof (cases "rs = []")
    case True
    then have "to_come (q_bulk c1) rs = []" using l(6) by (simp add: bulk_ok_def to_come_def)
    then show ?thesis using r fr True l assms(1) by (intro exI [of _ c2] exI [of _ True]) (simp add: c2_def)
  next
    case False
    have "expects c2 rest ((q_argv c @ as) # cs)"
      unfolding expects_def
      using False l assms(7-11) fr by (auto simp: c2_def frame_def intro!: exI [of _ rs])
    moreover have "stuck c2" using False l(8,10) by (auto simp: stuck_def c2_def)
    ultimately show ?thesis using r fr False l(5,10) by (intro exI [of _ c2] exI [of _ False]) (simp add: c2_def)
  qed
qed

lemma expects_header:
  assumes "valid_cmd cmd" "q_buf c @ rest = enc_cmd cmd @ s" "q_req c = REQ_MULTIBULK" "q_mbl c = 0" "q_argv c = []" "q_bulk c = None"
    "length (q_buf c) \<le> INLINE_MAX_SIZE"
  shows "processMultibulkBuffer c = Some (c, False) \<and> length (q_buf c) < 16 \<and> rest \<noteq> [] \<or>
    (\<exists>pos. pos \<le> length (q_buf c) \<and> drop pos (q_buf c) @ rest = enc_bulks cmd @ s \<and>
       processMultibulkBuffer c = mb_rest (c\<lparr>q_mbl := length cmd\<rparr>) pos)"
proof -
  define h where "h = 42 # dec (length cmd)"
  define t where "t = enc_bulks cmd @ s"
  have l: "length cmd \<le> 1024 * 1024" "cmd \<noteq> []" using assms(1) by (simp_all add: valid_cmd_def)
  have e: "drop 0 (q_buf c) @ rest = h @ 13 # 10 # t" using assms(2) by (simp add: enc_cmd_def h_def t_def)
  have h0: "\<forall>b \<in> set h. b \<noteq> 13 \<and> b \<noteq> 0" using dec_no_cr by (auto simp: h_def)
  have lh: "length h \<le> 8" using length_dec [of "length cmd" 6] l(1) by (simp add: h_def)
  from find_cr_line [OF e h0] consider
    "length (q_buf c) \<le> 0 + length h" "find_cr 0 (q_buf c) = None"
    | "length (q_buf c) = 0 + length h + 1" "find_cr 0 (q_buf c) = Some (0 + length h)"
    | "0 + length h + 2 \<le> length (q_buf c)" "find_cr 0 (q_buf c) = Some (0 + length h)"
      "take (length h) (drop 0 (q_buf c)) = h" "drop (0 + length h + 2) (q_buf c) @ rest = t" by auto
  then show ?thesis
  proof cases
    case 1
    moreover have "rest \<noteq> []" using arg_cong [OF e, of length] 1(1) by auto
    ultimately show ?thesis using assms lh by (simp add: processMultibulkBuffer_def)
  next
    case 2
    moreover have "rest \<noteq> []" using arg_cong [OF e, of length] 2(1) by auto
    ultimately show ?thesis using assms lh by (simp add: processMultibulkBuffer_def)
  next
    case 3
    have hd: "q_buf c ! 0 = 42"
    proof -
      have "q_buf c ! 0 = h ! 0" using 3(3) by (metis h_def length_greater_0_conv list.distinct(1) nth_take drop_0)
      then show ?thesis by (simp add: h_def)
    qed
    have num: "take (0 + length h - 1) (drop 1 (q_buf c)) = dec (length cmd)"
      using arg_cong [OF 3(3), of "drop 1"] by (simp add: h_def drop_take)
    obtain v where v: "string2ll (dec (length cmd)) = Some v" "sint v = int (length cmd)"
      using string2ll_dec [of "length cmd"] l(1) by auto
    have "processMultibulkBuffer c = mb_rest (c\<lparr>q_mbl := length cmd\<rparr>) (0 + length h + 2)"
      using assms(4,5) 3(1,2) hd l unfolding processMultibulkBuffer_def 3(2) option.case num v(1)
      by (simp add: v(2))
    then show ?thesis using 3(1,4) by (auto simp: t_def)
  qed
qed

lemma request_ok:
  assumes "expects c rest cmds" "fits c 0" "q_buf c \<noteq> []"
  shows "\<exists>c' ok. process_request (request_type c) = Some (c', ok) \<and> q_world c' = q_world c \<and>
    (\<not> ok \<longrightarrow> expects c' rest cmds \<and> stuck c' \<and> rest \<noteq> []) \<and>
    (ok \<longrightarrow> (\<exists>cmd cs. cmds = cmd # cs \<and> q_argv c' = cmd \<and> cmd \<noteq> [] \<and> q_buf c' @ rest = concat (List.map enc_cmd cs) \<and>
       length (q_buf c') \<le> INLINE_MAX_SIZE \<and> \<not> q_blocked c' \<and> \<not> q_close c'))"
proof (cases "q_mbl c = 0")
  case True
  have idle: "q_req c \<noteq> REQ_INLINE" "q_argv c = []" "q_bulk c = None" "q_buf c @ rest = concat (List.map enc_cmd cmds)"
    "\<not> q_blocked c" "\<not> q_close c" "\<forall>x \<in> set cmds. valid_cmd x"
    using assms(1) True by (auto simp: expects_def)
  obtain cmd cs where cmds: "cmds = cmd # cs" using idle(4) assms(3) by (cases cmds) auto
  have v: "valid_cmd cmd" using idle(7) cmds by simp
  have len: "length (q_buf c) \<le> INLINE_MAX_SIZE" using assms(2) idle(3) by (simp add: fits_def)
  define d where "d = request_type c"
  have "hd (q_buf c) = 42" using idle(4) assms(3) by (cases "q_buf c") (simp_all add: cmds enc_cmd_def)
  then have d: "d = c\<lparr>q_req := REQ_MULTIBULK\<rparr>" using idle(1) by (cases "q_req c") (simp_all add: d_def request_type_def)
  have p: "process_request d = processMultibulkBuffer d" by (simp add: process_request_def d)
  have b: "q_buf d @ rest = enc_cmd cmd @ concat (List.map enc_cmd cs)" using idle(4) by (simp add: d cmds)
  consider "processMultibulkBuffer d = Some (d, False)" "length (q_buf d) < 16" "rest \<noteq> []"
    | pos where "pos \<le> length (q_buf d)" "drop pos (q_buf d) @ rest = enc_bulks cmd @ concat (List.map enc_cmd cs)"
      "processMultibulkBuffer d = mb_rest (d\<lparr>q_mbl := length cmd\<rparr>) pos"
    using expects_header [OF v b] True idle len by (auto simp: d)
  then show ?thesis
  proof cases
    case 1
    have "expects d rest cmds" using idle True by (auto simp: expects_def d)
    moreover have "stuck d" using 1(2) idle(3) by (simp add: stuck_def d)
    ultimately show ?thesis using p 1(1,3) by (auto simp: d simp flip: d_def)
  next
    case (2 pos)
    have "\<exists>c' ok. mb_rest (d\<lparr>q_mbl := length cmd\<rparr>) pos = Some (c', ok) \<and> frame (d\<lparr>q_mbl := length cmd\<rparr>) c' \<and>
      (\<not> ok \<longrightarrow> expects c' rest ((q_argv (d\<lparr>q_mbl := length cmd\<rparr>) @ cmd) # cs) \<and> stuck c' \<and> rest \<noteq> []) \<and>
      (ok \<longrightarrow> q_argv c' = q_argv (d\<lparr>q_mbl := length cmd\<rparr>) @ cmd \<and> q_buf c' @ rest = concat (List.map enc_cmd cs) \<and>
         length (q_buf c') \<le> INLINE_MAX_SIZE)"
      using 2(1,2) v idle cmds len
      by (intro mb_rest_ok) (simp_all add: d bulk_ok_def to_come_def fits_def valid_cmd_def)
    moreover have "q_argv (d\<lparr>q_mbl := length cmd\<rparr>) @ cmd = cmd" using idle(2) by (simp add: d)
    moreover have "frame (d\<lparr>q_mbl := length cmd\<rparr>) c' \<Longrightarrow> q_world c' = q_world c \<and> q_blocked c' = q_blocked c \<and> q_close c' = q_close c" for c'
      by (simp add: frame_def d)
    moreover have "cmd \<noteq> []" using v by (simp add: valid_cmd_def)
    ultimately show ?thesis using p 2(3) idle(5,6) cmds unfolding d_def [symmetric] by metis
  qed
next
  case False
  then obtain as cs where m: "q_req c = REQ_MULTIBULK" "as \<noteq> []" "cmds = (q_argv c @ as) # cs" "q_mbl c = length as" "bulk_ok (q_bulk c) as"
    "q_buf c @ rest = to_come (q_bulk c) as @ concat (List.map enc_cmd cs)"
    "\<not> q_blocked c" "\<not> q_close c" "\<forall>x \<in> set cmds. valid_cmd x"
    using assms(1) by (auto simp: expects_def)
  have p: "process_request (request_type c) = mb_rest c 0"
    using m False by (simp add: process_request_def request_type_def processMultibulkBuffer_def)
  have "\<exists>c' ok. mb_rest c 0 = Some (c', ok) \<and> frame c c' \<and>
    (\<not> ok \<longrightarrow> expects c' rest ((q_argv c @ as) # cs) \<and> stuck c' \<and> rest \<noteq> []) \<and>
    (ok \<longrightarrow> q_argv c' = q_argv c @ as \<and> q_buf c' @ rest = concat (List.map enc_cmd cs) \<and> length (q_buf c') \<le> INLINE_MAX_SIZE)"
    using m assms(2) by (intro mb_rest_ok) simp_all
  moreover have "q_argv c @ as \<noteq> []" using m(2) by simp
  moreover have "frame c c' \<Longrightarrow> q_world c' = q_world c \<and> q_blocked c' = q_blocked c \<and> q_close c' = q_close c" for c'
    by (simp add: frame_def)
  ultimately show ?thesis using p m(3,7,8) by metis
qed

text \<open>An executor that runs every command to its end.\<close>

definition run_all :: "(byte list list \<Rightarrow> 'w \<Rightarrow> 'w) \<Rightarrow> 'w executor" where
  "run_all f = (\<lambda>argv w. (f argv w, False, False, True))"

lemma enc_bulks_Nil [simp]: "enc_bulks as = [] \<longleftrightarrow> as = []"
  by (cases as) (simp_all add: enc_bulk_def)

lemma input_ok:
  "expects c rest cmds \<Longrightarrow> fits c 0 \<Longrightarrow>
     \<exists>c' ds cs. processInputBuffer (run_all f) c = Some c' \<and> cmds = ds @ cs \<and> q_world c' = fold f ds (q_world c) \<and>
       expects c' rest cs \<and> stuck c' \<and> (rest = [] \<longrightarrow> cs = [])"
proof (induction "length (q_buf c)" arbitrary: c cmds rule: less_induct)
  case less
  have ne: "\<not> q_blocked c" "\<not> q_close c" using less.prems(1) by (auto simp: expects_def)
  show ?case
  proof (cases "q_buf c = []")
    case True
    then have "stuck c" by (simp add: stuck_def split: option.split)
    moreover have "rest = [] \<longrightarrow> cmds = []" using less.prems(1) True
      by (cases cmds) (auto simp: expects_def to_come_def enc_cmd_def split: option.splits)
    ultimately show ?thesis using True less.prems(1) by (intro exI [of _ c] exI [of _ "[]"] exI [of _ cmds]) (simp add: processInputBuffer.simps)
  next
    case False
    obtain c' ok where r: "process_request (request_type c) = Some (c', ok)" "q_world c' = q_world c"
      "\<not> ok \<longrightarrow> expects c' rest cmds \<and> stuck c' \<and> rest \<noteq> []"
      "ok \<longrightarrow> (\<exists>cmd cs. cmds = cmd # cs \<and> q_argv c' = cmd \<and> cmd \<noteq> [] \<and> q_buf c' @ rest = concat (List.map enc_cmd cs) \<and>
       length (q_buf c') \<le> INLINE_MAX_SIZE \<and> \<not> q_blocked c' \<and> \<not> q_close c')"
      using request_ok [OF less.prems False] by blast
    show ?thesis
    proof (cases ok)
      case False
      then have "processInputBuffer (run_all f) c = Some c'" using r(1) \<open>q_buf c \<noteq> []\<close> ne by (subst processInputBuffer.simps) simp
      then show ?thesis using r False by (intro exI [of _ c'] exI [of _ "[]"] exI [of _ cmds]) simp
    next
      case True
      then obtain cmd cs where k: "cmds = cmd # cs" "q_argv c' = cmd" "cmd \<noteq> []" "q_buf c' @ rest = concat (List.map enc_cmd cs)"
        "length (q_buf c') \<le> INLINE_MAX_SIZE" "\<not> q_blocked c'" "\<not> q_close c'" using r(4) by blast
      define c2 where "c2 = resetClient (fst (run_command (run_all f) c'))"
      have rc: "run_command (run_all f) c' = (c'\<lparr>q_world := f cmd (q_world c'), q_blocked := False, q_close := False\<rparr>, True)"
        by (simp add: run_command_def run_all_def k(2))
      have st: "processInputBuffer (run_all f) c = processInputBuffer (run_all f) c2"
        using r(1) True \<open>q_buf c \<noteq> []\<close> ne k(2,3) rc by (subst processInputBuffer.simps) (simp add: c2_def)
      have lt: "length (q_buf c2) < length (q_buf c)"
        using request_shrinks [of c c'] r(1) True by (simp add: c2_def)
      have "\<forall>x \<in> set cs. valid_cmd x" using less.prems(1) k(1) by (auto simp: expects_def)
      then have "expects c2 rest cs" using k rc by (auto simp: expects_def c2_def)
      moreover have "fits c2 0" using k(5) by (simp add: fits_def c2_def)
      ultimately obtain c3 ds cs' where ih: "processInputBuffer (run_all f) c2 = Some c3" "cs = ds @ cs'"
        "q_world c3 = fold f ds (q_world c2)" "expects c3 rest cs'" "stuck c3" "rest = [] \<longrightarrow> cs' = []"
        using less.hyps [OF lt] by blast
      moreover have "q_world c2 = f cmd (q_world c)" using rc r(2) by (simp add: c2_def)
      ultimately show ?thesis using st k(1) by (intro exI [of _ c3] exI [of _ "cmd # ds"] exI [of _ cs']) simp
    qed
  qed
qed

section \<open>Reading from the socket\<close>

text \<open>A sequence of calls of \<open>readQueryFromClient\<close>, as long as data is waiting and the client lives.\<close>

primrec reads :: "nat \<Rightarrow> 'w executor \<Rightarrow> nat list \<Rightarrow> byte list \<Rightarrow> 'w qclient \<Rightarrow> ('w qclient option \<times> byte list) option" where
  "reads max_len ex [] stream c = Some (Some c, stream)"
| "reads max_len ex (n # ns) stream c =
     (if stream = [] then Some (Some c, stream)
      else
        (case readQueryFromClient max_len ex n stream c of
           Some (Some c, stream) \<Rightarrow> reads max_len ex ns stream c
         | r \<Rightarrow> r))"

lemma read_ok:
  assumes "expects c stream cmds" "stuck c" "0 < n" "stream \<noteq> []" "2 ^ 29 + 2 \<le> max_len"
  shows "\<exists>c' k ds cs. readQueryFromClient max_len (run_all f) n stream c = Some (Some c', drop k stream) \<and> 0 < k \<and>
    cmds = ds @ cs \<and> q_world c' = fold f ds (q_world c) \<and> expects c' (drop k stream) cs \<and> stuck c' \<and> (drop k stream = [] \<longrightarrow> cs = [])"
proof -
  define k where "k = min n (min (read_len c) (length stream))"
  define d where "d = c\<lparr>q_buf := q_buf c @ take k stream\<rparr>"
  have b: "\<And>b. q_bulk c = Some b \<Longrightarrow> b \<le> 512 * 1024 * 1024"
    using assms(1) by (auto simp: expects_def bulk_ok_def valid_cmd_def)
  have bulk: "\<And>b. q_bulk c = Some b \<Longrightarrow> q_req c = REQ_MULTIBULK \<and> q_mbl c \<noteq> 0"
    using assms(1) by (auto simp: expects_def bulk_ok_def)
  have rl: "0 < read_len c" "read_len c \<le> IOBUF_LEN"
    using assms(2) by (auto simp: read_len_def stuck_def IOBUF_LEN_def split: option.splits)
  have k: "0 < k" "k \<le> read_len c" using assms(3,4) rl(1) by (auto simp: k_def)
  have ld: "length (q_buf d) \<le> length (q_buf c) + k" by (simp add: d_def)
  have e: "expects d (drop k stream) cmds" using assms(1) by (simp add: expects_def d_def)
  have "fits d 0 \<and> length (q_buf d) \<le> 2 ^ 29 + 2"
  proof (cases "\<exists>b \<ge> MBULK_BIG_ARG. q_bulk c = Some b")
    case True
    then obtain x where x: "q_bulk c = Some x" "MBULK_BIG_ARG \<le> x" by blast
    then have "read_len c \<le> x + 2 - length (q_buf c)" using bulk by (simp add: read_len_def)
    then have "length (q_buf d) \<le> x + 2" using ld k(2) assms(2) x by (simp add: stuck_def)
    then show ?thesis using x b [OF x(1)] by (auto simp: fits_def d_def)
  next
    case False
    then have "length (q_buf c) < MBULK_BIG_ARG + 2" using assms(2)
      by (cases "q_bulk c") (auto simp: stuck_def MBULK_BIG_ARG_def)
    then have "length (q_buf d) \<le> INLINE_MAX_SIZE" using ld k(2) rl(2) by (simp add: MBULK_BIG_ARG_def INLINE_MAX_SIZE_def IOBUF_LEN_def)
    then show ?thesis by (simp add: fits_def INLINE_MAX_SIZE_def)
  qed
  then have f: "fits d 0" "\<not> length (q_buf d) > max_len" using assms(5) by simp_all
  obtain c' ds cs where i: "processInputBuffer (run_all f) d = Some c'" "cmds = ds @ cs" "q_world c' = fold f ds (q_world d)"
    "expects c' (drop k stream) cs" "stuck c'" "drop k stream = [] \<longrightarrow> cs = []" using input_ok [OF e f(1), of f] by blast
  have "readQueryFromClient max_len (run_all f) n stream c = Some (Some c', drop k stream)"
    using k(1) f(2) i(1) by (simp add: readQueryFromClient_def Let_def flip: k_def d_def)
  moreover have "q_world d = q_world c" by (simp add: d_def)
  ultimately show ?thesis using i k(1) by auto
qed

lemma reads_ok:
  assumes "expects c stream cmds" "stuck c" "\<forall>n \<in> set ns. 0 < n" "stream = [] \<longrightarrow> cmds = []" "2 ^ 29 + 2 \<le> max_len"
  shows "\<exists>c' rest ds cs. reads max_len (run_all f) ns stream c = Some (Some c', rest) \<and> cmds = ds @ cs \<and>
    q_world c' = fold f ds (q_world c) \<and> expects c' rest cs \<and> stuck c' \<and> length rest \<le> length stream - length ns \<and> (rest = [] \<longrightarrow> cs = [])"
  using assms(1-4)
proof (induction ns arbitrary: stream c cmds)
  case Nil
  then show ?case by (intro exI [of _ c] exI [of _ stream] exI [of _ "[]"] exI [of _ cmds]) simp
next
  case (Cons n ns)
  show ?case
  proof (cases "stream = []")
    case True
    then show ?thesis using Cons.prems by (intro exI [of _ c] exI [of _ stream] exI [of _ "[]"] exI [of _ cmds]) simp
  next
    case False
    obtain c1 k ds cs where r: "readQueryFromClient max_len (run_all f) n stream c = Some (Some c1, drop k stream)" "0 < k"
      "cmds = ds @ cs" "q_world c1 = fold f ds (q_world c)" "expects c1 (drop k stream) cs" "stuck c1" "drop k stream = [] \<longrightarrow> cs = []"
      using read_ok [OF Cons.prems(1,2) _ False assms(5), of n f] Cons.prems(3) by auto
    obtain c2 rest ds' cs' where i: "reads max_len (run_all f) ns (drop k stream) c1 = Some (Some c2, rest)" "cs = ds' @ cs'"
      "q_world c2 = fold f ds' (q_world c1)" "expects c2 rest cs'" "stuck c2" "length rest \<le> length (drop k stream) - length ns"
      "rest = [] \<longrightarrow> cs' = []"
      using Cons.IH [OF r(5,6) _ r(7)] Cons.prems(3) by auto
    then show ?thesis using r False
      by (intro exI [of _ c2] exI [of _ rest] exI [of _ "ds @ ds'"] exI [of _ cs']) auto
  qed
qed

definition new_qclient :: "'w \<Rightarrow> 'w qclient" where
  "new_qclient w = \<lparr>q_buf = [], q_req = REQ_UNKNOWN, q_mbl = 0, q_bulk = None, q_argv = [], q_blocked = False, q_close = False,
     q_out = [], q_world = w\<rparr>"

lemma new_qclient_world: "q_world (new_qclient w) = w"
  by (simp add: new_qclient_def)

lemma reads_all:
  assumes "\<forall>x \<in> set cmds. valid_cmd x" "\<forall>n \<in> set ns. 0 < n" "length (concat (List.map enc_cmd cmds)) \<le> length ns"
    "2 ^ 29 + 2 \<le> max_len"
  shows "\<exists>c. reads max_len (run_all f) ns (concat (List.map enc_cmd cmds)) (new_qclient w) = Some (Some c, []) \<and>
    q_world c = fold f cmds w \<and> q_buf c = [] \<and> \<not> q_close c"
proof -
  have e: "expects (new_qclient w) (concat (List.map enc_cmd cmds)) cmds" "stuck (new_qclient w)"
    using assms(1) by (simp_all add: expects_def new_qclient_def stuck_def)
  have n: "concat (List.map enc_cmd cmds) = [] \<longrightarrow> cmds = []" by (cases cmds) (simp_all add: enc_cmd_def)
  obtain c rest ds cs where r: "reads max_len (run_all f) ns (concat (List.map enc_cmd cmds)) (new_qclient w) = Some (Some c, rest)"
    "cmds = ds @ cs" "q_world c = fold f ds w" "expects c rest cs" "length rest \<le> length (concat (List.map enc_cmd cmds)) - length ns"
    "rest = [] \<longrightarrow> cs = []"
    using reads_ok [OF e assms(2) n assms(4), of f] unfolding new_qclient_world by blast
  have "rest = []" "cs = []" using r(5,6) assms(3) by simp_all
  then show ?thesis using r(1-4) by (intro exI [of _ c]) (auto simp: expects_def)
qed

section \<open>Arbitrary input\<close>


lemma close_simps [simp]:
  "q_close (setProtocolError p c)" "q_close (addReplyError e c) = q_close c" "q_buf (addReplyError e c) = q_buf c"
  "q_blocked (setProtocolError p c) = q_blocked c" "q_blocked (addReplyError e c) = q_blocked c"
  by (simp_all add: setProtocolError_def addReplyError_def)

lemma Ex_Not [simp]: "Ex Not" "\<exists>b. \<not> b"
  by blast+

lemma length_setProtocolError: "length (q_buf (setProtocolError p c)) \<le> length (q_buf c)"
  by (simp add: setProtocolError_def)












section \<open>A valid request that is rejected\<close>

text \<open>Arguments below the big size are read without limits on the buffer.\<close>

lemma mb_loop_arg:
  assumes "q_mbl c \<noteq> 0" "q_bulk c = None" "drop pos (q_buf c) = enc_bulk a @ s" "pos \<le> length (q_buf c)" "length a < MBULK_BIG_ARG"
  shows "mb_loop c pos = mb_loop (c\<lparr>q_argv := q_argv c @ [a], q_mbl := q_mbl c - 1\<rparr>) (pos + length (enc_bulk a))"
proof -
  define h where "h = 36 # dec (length a)"
  have e: "drop pos (q_buf c) @ [] = h @ 13 # 10 # a @ [13, 10] @ s" using assms(3) by (simp add: enc_bulk_def h_def)
  have h0: "\<forall>b \<in> set h. b \<noteq> 13 \<and> b \<noteq> 0" using dec_no_cr by (auto simp: h_def)
  have l: "length (q_buf c) = pos + length h + 2 + length a + 2 + length s"
    using arg_cong [OF e, of length] assms(4) by simp
  have f: "find_cr pos (q_buf c) = Some (pos + length h)"
    "drop (pos + length h + 2) (q_buf c) = a @ [13, 10] @ s"
    using find_cr_line [OF e h0 assms(4)] l by auto
  have hd: "q_buf c ! pos = 36"
  proof -
    have "drop pos (q_buf c) ! 0 = 36" using e by (simp add: h_def)
    then show ?thesis using assms(4) by simp
  qed
  have num: "take (pos + length h - (pos + 1)) (drop (pos + 1) (q_buf c)) = dec (length a)"
  proof -
    have "drop (pos + 1) (q_buf c) = dec (length a) @ 13 # 10 # a @ [13, 10] @ s"
      using arg_cong [OF e, of "drop 1"] by (simp add: h_def)
    then show ?thesis by (simp add: h_def)
  qed
  obtain v where v: "string2ll (dec (length a)) = Some v" "sint v = int (length a)"
    using string2ll_dec [of "length a"] assms(5) by (auto simp: MBULK_BIG_ARG_def)
  have r: "read_bulklen c pos = (Go, c\<lparr>q_bulk := Some (length a)\<rparr>, pos + length h + 2)"
    using f(1) hd l assms(5) unfolding read_bulklen_def f(1) option.case num v(1)
    by (simp add: Let_def v(2) MBULK_BIG_ARG_def)
  have t: "take_bulk (c\<lparr>q_bulk := Some (length a)\<rparr>) (pos + length h + 2) =
      Some (c\<lparr>q_argv := q_argv c @ [a], q_mbl := q_mbl c - 1\<rparr>, pos + length h + 2 + (length a + 2))"
    using l f(2) assms(2) by (simp add: take_bulk_def)
  have "length (enc_bulk a) = length h + 2 + length a + 2" by (simp add: enc_bulk_def h_def)
  then show ?thesis using assms(1,2) r t by (simp add: mb_loop.simps [of c pos] add.assoc)
qed

lemma multibulk_header:
  assumes "q_buf c = 42 # dec n @ 13 # 10 # x" "q_mbl c = 0" "q_argv c = []" "0 < n" "n \<le> 1024 * 1024"
  shows "processMultibulkBuffer c = mb_rest (c\<lparr>q_mbl := n\<rparr>) (length (dec n) + 3)"
proof -
  define h where "h = 42 # dec n"
  have e: "drop 0 (q_buf c) @ [] = h @ 13 # 10 # x" using assms(1) by (simp add: h_def)
  have h0: "\<forall>b \<in> set h. b \<noteq> 13 \<and> b \<noteq> 0" using dec_no_cr by (auto simp: h_def)
  have l: "length (q_buf c) = length h + 2 + length x" using assms(1) by (simp add: h_def)
  have f: "find_cr 0 (q_buf c) = Some (length h)"
    using find_cr_line [OF e h0] l by auto
  have num: "take (length h - 1) (drop 1 (q_buf c)) = dec n" using assms(1) by (simp add: h_def)
  have hd: "q_buf c ! 0 = 42" using assms(1) by simp
  obtain v where v: "string2ll (dec n) = Some v" "sint v = int n"
    using string2ll_dec [of n] assms(5) by auto
  have "processMultibulkBuffer c = mb_rest (c\<lparr>q_mbl := n\<rparr>) (length h + 2)"
    using assms(2-5) f hd l unfolding processMultibulkBuffer_def f option.case num v(1) by (simp add: v(2))
  then show ?thesis by (simp add: h_def numeral_3_eq_3)
qed

lemma mb_loop_args:
  assumes "q_mbl c = length as + Suc m" "q_bulk c = None" "drop pos (q_buf c) = enc_bulks as @ t" "pos \<le> length (q_buf c)"
    "\<forall>x \<in> set as. length x < MBULK_BIG_ARG"
  shows "mb_loop c pos = mb_loop (c\<lparr>q_argv := q_argv c @ as, q_mbl := Suc m\<rparr>) (pos + length (enc_bulks as))"
  using assms
proof (induction as arbitrary: c pos)
  case (Cons a as)
  define c1 where "c1 = c\<lparr>q_argv := q_argv c @ [a], q_mbl := q_mbl c - 1\<rparr>"
  have d: "drop pos (q_buf c) = enc_bulk a @ enc_bulks as @ t" using Cons.prems(3) by simp
  have "length (drop pos (q_buf c)) = length (enc_bulk a) + length (enc_bulks as @ t)" unfolding d by simp
  then have le: "pos + length (enc_bulk a) \<le> length (q_buf c)" using Cons.prems(4) by simp
  have "mb_loop c pos = mb_loop c1 (pos + length (enc_bulk a))"
    unfolding c1_def using Cons.prems d by (intro mb_loop_arg) simp_all
  also have "\<dots> = mb_loop (c1\<lparr>q_argv := q_argv c1 @ as, q_mbl := Suc m\<rparr>) (pos + length (enc_bulk a) + length (enc_bulks as))"
  proof (rule Cons.IH)
    have "drop (pos + length (enc_bulk a)) (q_buf c) = drop (length (enc_bulk a)) (drop pos (q_buf c))" by (simp add: add.commute)
    then show "drop (pos + length (enc_bulk a)) (q_buf c1) = enc_bulks as @ t" unfolding d by (simp add: c1_def)
  qed (use Cons.prems le in \<open>simp_all add: c1_def\<close>)
  finally show ?case by (simp add: c1_def add.assoc)
next
  case Nil
  then have "c\<lparr>q_argv := q_argv c @ [], q_mbl := Suc m\<rparr> = c" by simp
  then show ?case by simp
qed

text \<open>
  C38: a valid request can be refused.  The limit on a count line is compared with the length of the whole query
  buffer, the arguments already read from it included: whenever the buffer ends inside the count of
  an argument, or before it, after arguments below the big size that fill it beyond the limit of 64 KB, this is a protocol error
  and the client is closed, though the rest of the request would complete it.  (The buffer of a client blocked by an earlier
  command grows to this length before it is parsed.)
\<close>

theorem valid_request_rejected:
  assumes v: "valid_cmd (as @ a # bs)" and small: "\<forall>x \<in> set as. length x < MBULK_BIG_ARG" and k: "k \<le> length (dec (length a)) + 1"
    and p: "p = [42] @ dec (length (as @ a # bs)) @ [13, 10] @ enc_bulks as @ take k (36 # dec (length a))"
    and long: "INLINE_MAX_SIZE < length p"
  shows "(\<exists>s. enc_cmd (as @ a # bs) = p @ s) \<and>
    (\<exists>c'. processInputBuffer ex ((new_qclient w)\<lparr>q_buf := p\<rparr>) = Some c' \<and>
       q_close c' \<and> q_out c' = [''Protocol error: too big bulk count string''] \<and> q_world c' = w)"
proof
  define h where "h = take k (36 # dec (length a))"
  define n where "n = length (as @ a # bs)"
  have n: "0 < n" "n \<le> 1024 * 1024" using v by (simp_all add: n_def valid_cmd_def)
  have eb: "enc_bulks (xs @ ys) = enc_bulks xs @ enc_bulks ys" for xs ys by (simp add: enc_bulks_def)
  have "enc_bulk a = h @ drop k (36 # dec (length a)) @ [13, 10] @ a @ [13, 10]"
    by (simp only: h_def enc_bulk_def append_assoc [symmetric] append_take_drop_id) simp
  then show "\<exists>s. enc_cmd (as @ a # bs) = p @ s" unfolding p enc_cmd_def eb by (simp flip: h_def)
  define c where "c = (new_qclient w)\<lparr>q_buf := p, q_req := REQ_MULTIBULK\<rparr>"
  define c0 where "c0 = c\<lparr>q_mbl := n\<rparr>"
  define c1 where "c1 = c0\<lparr>q_argv := as, q_mbl := Suc (length bs)\<rparr>"
  define pos where "pos = length (dec n) + 3 + length (enc_bulks as)"
  have pn: "p = 42 # dec n @ 13 # 10 # enc_bulks as @ h" by (simp add: p h_def n_def)
  have "q_buf c = 42 # dec n @ 13 # 10 # enc_bulks as @ h" by (simp add: c_def pn)
  from multibulk_header [OF this] have hd: "processMultibulkBuffer c = mb_rest c0 (length (dec n) + 3)"
    using n by (simp add: c_def c0_def new_qclient_def)
  define l1 where "l1 = 42 # dec n @ [13, 10]"
  have l1: "p = l1 @ enc_bulks as @ h" "length (dec n) + 3 = length l1" by (simp_all add: pn l1_def)
  have "drop (length (dec n) + 3) p = enc_bulks as @ h" unfolding l1(2) by (simp add: l1(1))
  then have "mb_loop c0 (length (dec n) + 3) = mb_loop (c0\<lparr>q_argv := q_argv c0 @ as, q_mbl := Suc (length bs)\<rparr>) pos"
    unfolding pos_def using small by (intro mb_loop_args [where t = h]) (simp_all add: c0_def c_def new_qclient_def n_def pn)
  then have l0: "mb_loop c0 (length (dec n) + 3) = mb_loop c1 pos" by (simp add: c1_def c0_def c_def new_qclient_def)
  have dp: "drop pos p = h" unfolding pos_def l1(2) by (simp add: l1(1))
  have "13 \<notin> set h" using dec_no_cr [of 13 "length a"] by (auto simp: h_def dest: in_set_takeD)
  then have "13 \<notin> set (c_string h)" by (auto simp: c_string_def dest: set_takeWhileD)
  then have f: "find_cr pos p = None" by (simp add: find_cr_def dp)
  have b1: "q_buf c1 = p" "q_mbl c1 \<noteq> 0" "q_bulk c1 = None" by (simp_all add: c1_def c0_def c_def new_qclient_def)
  define e1 where "e1 = setProtocolError 0 (addReplyError ''Protocol error: too big bulk count string'' c1)"
  have "mb_loop c1 pos = (e1, Some pos)"
    using f b1 long by (simp add: mb_loop.simps [of c1 pos] read_bulklen_def e1_def)
  then have l: "mb_loop c0 (length (dec n) + 3) = (e1, Some pos)" using l0 by simp
  define e where "e = trim_buf pos e1"
  have "q_mbl e1 = Suc (length bs)" by (simp add: e1_def setProtocolError_def addReplyError_def c1_def)
  then have r: "mb_rest c0 (length (dec n) + 3) = Some (e, False)"
    using n(1) unfolding mb_rest_def l by (simp add: c0_def e_def pos_def)
  have "request_type ((new_qclient w)\<lparr>q_buf := p\<rparr>) = c" by (simp add: request_type_def new_qclient_def c_def pn)
  moreover have "process_request c = Some (e, False)" using hd r by (simp add: process_request_def c_def)
  ultimately have "processInputBuffer ex ((new_qclient w)\<lparr>q_buf := p\<rparr>) = Some e"
    by (subst processInputBuffer.simps) (simp add: new_qclient_def pn)
  moreover have "q_close e \<and> q_out e = [''Protocol error: too big bulk count string''] \<and> q_world e = w"
    by (simp add: e_def e1_def setProtocolError_def addReplyError_def c1_def c0_def c_def new_qclient_def)
  ultimately show "\<exists>c'. processInputBuffer ex ((new_qclient w)\<lparr>q_buf := p\<rparr>) = Some c' \<and>
      q_close c' \<and> q_out c' = [''Protocol error: too big bulk count string''] \<and> q_world c' = w" by blast
qed

text \<open>Three arguments of 30000 bytes and the beginning of the count of the fourth.\<close>

theorem valid_request_rejected_witness:
  "\<exists>p s c'. enc_cmd [replicate 30000 0, replicate 30000 0, replicate 30000 0, [0]] = p @ s \<and>
     processInputBuffer (run_all (\<lambda>argv w. w)) ((new_qclient ())\<lparr>q_buf := p\<rparr>) = Some c' \<and> q_close c'"
proof -
  define a :: "byte list" where "a = replicate 30000 0"
  have a: "length a = 30000" by (simp add: a_def)
  have la: "length (enc_bulk a) = 30010" by (simp add: enc_bulk_def a dec.simps)
  define p where "p = [42] @ dec (length ([a, a, a] @ [0] # [])) @ [13, 10] @ enc_bulks [a, a, a] @ take 1 (36 # dec (length [0 :: byte]))"
  have lp: "INLINE_MAX_SIZE < length p" by (simp add: p_def INLINE_MAX_SIZE_def la)
  have v: "valid_cmd ([a, a, a] @ [0] # [])" by (simp add: valid_cmd_def a)
  have sm: "\<forall>x \<in> set [a, a, a]. length x < MBULK_BIG_ARG" by (simp add: a MBULK_BIG_ARG_def)
  from valid_request_rejected [OF v sm _ p_def lp, of "run_all (\<lambda>argv w. w)" "()"]
  have "(\<exists>s. enc_cmd [a, a, a, [0]] = p @ s) \<and> (\<exists>c'. processInputBuffer (run_all (\<lambda>argv w. w)) ((new_qclient ())\<lparr>q_buf := p\<rparr>) = Some c' \<and> q_close c')"
    by auto
  then show ?thesis unfolding a_def by blast
qed

end
