(* ===== verification/Aof.thy ===== *)
theory Aof
  imports Networking
begin

text \<open>
  \<open>redis/src/aof.c\<close>: the append only file.  Commands are turned into requests of the multi bulk
  protocol and appended to a buffer, which \<open>flushAppendOnlyFile\<close> writes to the file; during a
  rewrite they are also kept in a list of blocks; \<open>loadAppendOnlyFile\<close> executes a file.  The clock,
  the state of background jobs and what \<open>write\<close> returns are arguments.  Objects are given by
  their encodings.  Not modelled: starting and stopping the log, the rewrite itself and its child process, read errors of
  the file, and the assertions that the fake client of the loading has no replies and is not blocked.
\<close>

section \<open>The rewrite buffer\<close>

text \<open>The bytes used of a block, and the room left in it.\<close>

record aofrwblock =
  rb_buf :: "byte list"
  rb_free :: nat

definition AOF_RW_BUF_BLOCK_SIZE :: nat where "AOF_RW_BUF_BLOCK_SIZE = 1024 * 1024 * 10"

definition aofRewriteBufferReset :: "aofrwblock list" where
  "aofRewriteBufferReset = []"

definition aofRewriteBufferSize :: "aofrwblock list \<Rightarrow> nat" where
  "aofRewriteBufferSize bl =
     (if bl = [] then 0 else (length bl - 1) * AOF_RW_BUF_BLOCK_SIZE + length (rb_buf (last bl)))"

definition new_block :: aofrwblock where
  "new_block = \<lparr>rb_buf = [], rb_free = AOF_RW_BUF_BLOCK_SIZE\<rparr>"

definition fill_block :: "aofrwblock list \<Rightarrow> byte list \<Rightarrow> aofrwblock list \<times> byte list" where
  "fill_block bl s =
     (if bl = [] then (bl, s)
      else
        let b = last bl; thislen = min (rb_free b) (length s)
        in (butlast bl @ [\<lparr>rb_buf = rb_buf b @ take thislen s, rb_free = rb_free b - thislen\<rparr>], drop thislen s))"

lemma fill_block_less:
  "(bl', s') = fill_block bl s \<Longrightarrow> s \<noteq> [] \<Longrightarrow>
     length s' \<le> length s \<and> (bl \<noteq> [] \<and> rb_free (last bl) \<noteq> 0 \<longrightarrow> length s' < length s)"
  by (auto simp: fill_block_def Let_def split: if_splits)

text \<open>After a round that leaves data there is a fresh block, so the next round takes some of it.\<close>

function aofRewriteBufferAppend :: "aofrwblock list \<Rightarrow> byte list \<Rightarrow> aofrwblock list" where
  "aofRewriteBufferAppend bl s =
     (if s = [] then bl
      else
        (case fill_block bl s of
           (bl', s') \<Rightarrow> if s' = [] then bl' else aofRewriteBufferAppend (bl' @ [new_block]) s'))"
  by pat_completeness auto
termination
  by (relation "measure (\<lambda>(bl, s). 2 * length s + (if bl \<noteq> [] \<and> rb_free (last bl) \<noteq> 0 then 0 else 1))")
    (auto dest: fill_block_less simp: new_block_def AOF_RW_BUF_BLOCK_SIZE_def)

declare aofRewriteBufferAppend.simps [simp del]

text \<open>\<open>nwritten\<close> is what \<open>write\<close> returns for each block; \<open>None\<close> is \<open>-1\<close>.\<close>

primrec aofRewriteBufferWrite :: "int list \<Rightarrow> aofrwblock list \<Rightarrow> byte list \<Rightarrow> byte list option" where
  "aofRewriteBufferWrite ws [] out = Some out"
| "aofRewriteBufferWrite ws (b # bl) out =
     (if rb_buf b = [] then aofRewriteBufferWrite ws bl out
      else if hd (ws @ [- 1]) = int (length (rb_buf b)) then aofRewriteBufferWrite (tl ws) bl (out @ rb_buf b)
      else None)"

section \<open>Commands as requests\<close>

definition header :: "byte \<Rightarrow> nat \<Rightarrow> byte list" where
  "header c n = (case ll2string 31 (of_nat n) of (p, l) \<Rightarrow> c # take l p @ [13, 10])"

definition catAppendOnlyGenericCommand :: "byte list \<Rightarrow> str_enc list \<Rightarrow> byte list" where
  "catAppendOnlyGenericCommand dst argv =
     fold (\<lambda>ob dst. let s = str_bytes ob in dst @ header 36 (length s) @ s @ [13, 10])
       argv (dst @ header 42 (length argv))"

datatype aof_proc = EXPIRE | PEXPIRE | EXPIREAT | SETEX | PSETEX | OTHER_CMD

text \<open>The time as a \<open>long long\<close>.\<close>

definition catAppendOnlyExpireAtCommand :: "u64 \<Rightarrow> byte list \<Rightarrow> aof_proc \<Rightarrow> str_enc \<Rightarrow> str_enc \<Rightarrow> byte list" where
  "catAppendOnlyExpireAtCommand mstime buf cmd key seconds =
     (let t = (word_of_int (fst (strtoll (str_bytes seconds @ [0]))) :: u64);
          t = (if cmd = EXPIRE \<or> cmd = SETEX \<or> cmd = EXPIREAT then t * 1000 else t);
          t = (if cmd = EXPIRE \<or> cmd = PEXPIRE \<or> cmd = SETEX \<or> cmd = PSETEX then t + mstime else t)
      in catAppendOnlyGenericCommand buf [ENC_RAW [80, 69, 88, 80, 73, 82, 69, 65, 84], key, ENC_INT t])"

record aof_state =
  a_selected_db :: int
  a_on :: bool
  a_child :: bool
  a_buf :: "byte list"
  a_blocks :: "aofrwblock list"

definition select_text :: "int \<Rightarrow> byte list" where
  "select_text dictid =
     (let seldb = idec dictid
      in [42, 50, 13, 10, 36, 54, 13, 10, 83, 69, 76, 69, 67, 84, 13, 10, 36] @ dec (length seldb) @ [13, 10] @ seldb @ [13, 10])"

definition feedAppendOnlyFile :: "u64 \<Rightarrow> aof_proc \<Rightarrow> int \<Rightarrow> str_enc list \<Rightarrow> aof_state \<Rightarrow> aof_state option" where
  "feedAppendOnlyFile mstime cmd dictid argv s = do {
     let (buf, s) = (if dictid \<noteq> a_selected_db s then (select_text dictid, s\<lparr>a_selected_db := dictid\<rparr>) else ([], s));
     buf \<leftarrow>
       (if cmd = EXPIRE \<or> cmd = PEXPIRE \<or> cmd = EXPIREAT then do {
          a1 \<leftarrow> peek argv 1;
          a2 \<leftarrow> peek argv 2;
          Some (catAppendOnlyExpireAtCommand mstime buf cmd a1 a2)
        } else if cmd = SETEX \<or> cmd = PSETEX then do {
          a1 \<leftarrow> peek argv 1;
          a2 \<leftarrow> peek argv 2;
          a3 \<leftarrow> peek argv 3;
          let buf = catAppendOnlyGenericCommand buf [ENC_RAW [83, 69, 84], a1, a3];
          Some (catAppendOnlyExpireAtCommand mstime buf cmd a1 a2)
        } else Some (catAppendOnlyGenericCommand buf argv));
     let s = (if a_on s then s\<lparr>a_buf := a_buf s @ buf\<rparr> else s);
     Some (if a_child s then s\<lparr>a_blocks := aofRewriteBufferAppend (a_blocks s) buf\<rparr> else s)
   }"

section \<open>Writing the buffer\<close>

datatype fsync = FSYNC_NO | FSYNC_ALWAYS | FSYNC_EVERYSEC

text \<open>The file as written and as synchronised, and the fields of the server that decide about them.\<close>

record aof_file =
  f_fsync :: fsync
  f_no_fsync_on_rewrite :: bool
  f_children :: bool
  f_postponed :: int
  f_delayed :: nat
  f_last_fsync :: int
  f_size :: nat
  f_written :: "byte list"
  f_synced :: nat
  f_jobs :: nat
  f_buf :: "byte list"

text \<open>
  \<open>nwritten\<close> is the result of \<open>write\<close>.  \<open>None\<close> is \<open>exit(1)\<close>.  \<open>f_synced\<close> is the length of the file
  at the last \<open>aof_fsync\<close>, \<open>f_jobs\<close> counts the background jobs started.
\<close>

definition after_write :: "int \<Rightarrow> bool \<Rightarrow> aof_file \<Rightarrow> aof_file" where
  "after_write unixtime sync_in_progress f =
     (if f_no_fsync_on_rewrite f \<and> f_children f then f
      else if f_fsync f = FSYNC_ALWAYS then f\<lparr>f_synced := length (f_written f), f_last_fsync := unixtime\<rparr>
      else if f_fsync f = FSYNC_EVERYSEC \<and> unixtime > f_last_fsync f
      then (if sync_in_progress then f else f\<lparr>f_jobs := f_jobs f + 1\<rparr>)\<lparr>f_last_fsync := unixtime\<rparr>
      else f)"

definition flushAppendOnlyFile :: "bool \<Rightarrow> int \<Rightarrow> bool \<Rightarrow> int \<Rightarrow> aof_file \<Rightarrow> aof_file option" where
  "flushAppendOnlyFile pending unixtime force nwritten f =
     (if f_buf f = [] then Some f
      else
        let sync_in_progress = (f_fsync f = FSYNC_EVERYSEC \<and> pending) in
        if f_fsync f = FSYNC_EVERYSEC \<and> \<not> force \<and> sync_in_progress \<and> f_postponed f = 0
        then Some (f\<lparr>f_postponed := unixtime\<rparr>)
        else if f_fsync f = FSYNC_EVERYSEC \<and> \<not> force \<and> sync_in_progress \<and> unixtime - f_postponed f < 2
        then Some f
        else
          let f = (if f_fsync f = FSYNC_EVERYSEC \<and> \<not> force \<and> sync_in_progress then f\<lparr>f_delayed := f_delayed f + 1\<rparr> else f);
              f = f\<lparr>f_postponed := 0\<rparr>
          in if nwritten \<noteq> int (length (f_buf f)) then None
             else Some (after_write unixtime sync_in_progress
               (f\<lparr>f_size := f_size f + length (f_buf f), f_written := f_written f @ f_buf f, f_buf := []\<rparr>)))"

section \<open>Loading a file\<close>

datatype 'a io = IOk 'a | ReadErr | FmtErr | UnknownCmd | Fault

text \<open>\<open>fgets(buf, n, fp)\<close>: the line with its newline, at most \<open>n - 1\<close> bytes, and the rest of the file.\<close>

definition fgets :: "nat \<Rightarrow> byte list \<Rightarrow> (byte list \<times> byte list) option" where
  "fgets n s =
     (if s = [] then None
      else let k = min (n - 1) (length (takeWhile (\<lambda>b. b \<noteq> 10) s) + 1) in Some (take k s, drop k s))"

definition strtol :: "byte list \<Rightarrow> int" where
  "strtol s = fst (strtoll s)"

text \<open>A negative length makes \<open>sdsnewlen\<close> allocate a block of nearly \<open>2 ^ 64\<close> bytes, \<open>Fault\<close>.\<close>

primrec load_args :: "nat \<Rightarrow> byte list \<Rightarrow> (byte list list \<times> byte list) io" where
  "load_args 0 s = IOk ([], s)"
| "load_args (Suc n) s =
     (case fgets 128 s of
        None \<Rightarrow> ReadErr
      | Some (buf, s) \<Rightarrow>
          if hd buf \<noteq> 36 then FmtErr
          else
            let len = strtol (tl buf) in
            if len < 0 then Fault
            else if len \<noteq> 0 \<and> length s < nat len then FmtErr
            else if length (drop (nat len) s) < 2 then FmtErr
            else
              (case load_args n (drop (nat len + 2) s) of
                 IOk (as, s') \<Rightarrow> IOk (take (nat len) s # as, s')
               | e \<Rightarrow> e))"

lemma load_args_le: "load_args n s = IOk (as, s') \<Longrightarrow> length s' \<le> length s"
proof (induction n arbitrary: s as s')
  case (Suc n)
  obtain buf t where f: "fgets 128 s = Some (buf, t)" using Suc.prems by (auto split: option.splits)
  have "length t \<le> length s" using f by (auto simp: fgets_def Let_def split: if_splits)
  moreover have "length s' \<le> length t" if "load_args n (drop k t) = IOk (bs, s')" for k bs
    using Suc.IH [OF that] by simp
  ultimately show ?case using Suc.prems f
    by (fastforce simp: Let_def split: if_splits io.splits prod.splits)
qed simp

lemma fgets_less: "fgets 128 s = Some (buf, t) \<Longrightarrow> length t < length s"
  by (auto simp: fgets_def Let_def split: if_splits)

text \<open>\<open>ex\<close> runs a command, \<open>None\<close> for an unknown one; \<open>multi\<close> tells whether a transaction is open.\<close>

function load :: "(byte list list \<Rightarrow> 'w \<Rightarrow> 'w option) \<Rightarrow> ('w \<Rightarrow> bool) \<Rightarrow> byte list \<Rightarrow> 'w \<Rightarrow> 'w io" where
  "load ex multi s w =
     (case fgets 128 s of
        None \<Rightarrow> if multi w then ReadErr else IOk w
      | Some (buf, s) \<Rightarrow>
          if hd buf \<noteq> 42 then FmtErr
          else
            (let argc = int32 (strtol (tl buf)) in
             if argc < 1 then FmtErr
             else
               (case load_args (nat argc) s of
                  IOk (argv, s) \<Rightarrow> (case ex argv w of None \<Rightarrow> UnknownCmd | Some w \<Rightarrow> load ex multi s w)
                | ReadErr \<Rightarrow> ReadErr
                | FmtErr \<Rightarrow> FmtErr
                | UnknownCmd \<Rightarrow> UnknownCmd
                | Fault \<Rightarrow> Fault)))"
  by pat_completeness auto
termination
  by (relation "measure (\<lambda>(ex, multi, s, w). length s)") (auto dest!: load_args_le fgets_less)

declare load.simps [simp del]

text \<open>An empty file is \<open>REDIS_ERR\<close>, \<open>None\<close>.\<close>

definition loadAppendOnlyFile :: "(byte list list \<Rightarrow> 'w \<Rightarrow> 'w option) \<Rightarrow> ('w \<Rightarrow> bool) \<Rightarrow> byte list \<Rightarrow> 'w \<Rightarrow> 'w io option" where
  "loadAppendOnlyFile ex multi file w = (if file = [] then None else Some (load ex multi file w))"

section \<open>What is logged\<close>

lemma header_dec: "n < 2 ^ 63 \<Longrightarrow> header c n = c # dec n @ [13, 10]"
proof -
  assume n: "n < 2 ^ 63"
  have "sint (of_nat n :: u64) = int n" using n by (simp add: signed_of_nat signed_take_bit_int_eq_self)
  then have "ll2string 31 (of_nat n) = (dec n @ [0], length (dec n))"
    using ll2string_idec [of 31 "of_nat n"] by (simp add: idec_def)
  then show ?thesis by (simp add: header_def)
qed

definition small_args :: "byte list list \<Rightarrow> bool" where
  "small_args as \<longleftrightarrow> as \<noteq> [] \<and> length as < 2 ^ 31 \<and> (\<forall>a \<in> set as. length a < 2 ^ 31)"

lemma cat_enc:
  assumes "small_args (List.map str_bytes argv)"
  shows "catAppendOnlyGenericCommand dst argv = dst @ enc_cmd (List.map str_bytes argv)"
proof -
  have "fold (\<lambda>ob dst. let s = str_bytes ob in dst @ header 36 (length s) @ s @ [13, 10]) argv d =
      d @ enc_bulks (List.map str_bytes argv)" if "\<forall>a \<in> set argv. length (str_bytes a) < 2 ^ 31" for d
    using that by (induction argv arbitrary: d) (simp_all add: Let_def header_dec enc_bulk_def)
  then show ?thesis
    using assms by (simp add: catAppendOnlyGenericCommand_def small_args_def header_dec enc_cmd_def)
qed

text \<open>The time at which a key expires, and the commands that stand for one.\<close>

definition expire_at :: "u64 \<Rightarrow> aof_proc \<Rightarrow> byte list \<Rightarrow> int" where
  "expire_at mstime cmd arg =
     (let t = fst (strtoll (arg @ [0]));
          t = (if cmd = EXPIRE \<or> cmd = SETEX \<or> cmd = EXPIREAT then t * 1000 else t);
          t = (if cmd = EXPIRE \<or> cmd = PEXPIRE \<or> cmd = SETEX \<or> cmd = PSETEX then t + uint mstime else t)
      in sint (word_of_int t :: u64))"

definition pexpireat :: "u64 \<Rightarrow> aof_proc \<Rightarrow> byte list \<Rightarrow> byte list \<Rightarrow> byte list list" where
  "pexpireat mstime cmd key arg = [[80, 69, 88, 80, 73, 82, 69, 65, 84], key, idec (expire_at mstime cmd arg)]"

definition logged :: "u64 \<Rightarrow> aof_proc \<Rightarrow> byte list list \<Rightarrow> byte list list list" where
  "logged mstime cmd as =
     (if cmd = EXPIRE \<or> cmd = PEXPIRE \<or> cmd = EXPIREAT then [pexpireat mstime cmd (as ! 1) (as ! 2)]
      else if cmd = SETEX \<or> cmd = PSETEX then [[[83, 69, 84], as ! 1, as ! 3], pexpireat mstime cmd (as ! 1) (as ! 2)]
      else [as])"

definition logged_select :: "int \<Rightarrow> int \<Rightarrow> byte list list list" where
  "logged_select sel dictid = (if dictid \<noteq> sel then [[[83, 69, 76, 69, 67, 84], idec dictid]] else [])"

lemma expire_at_bounds: "- (2 ^ 63) \<le> expire_at m cmd arg \<and> expire_at m cmd arg < 2 ^ 63"
  unfolding expire_at_def Let_def using sint_range_size [of "word_of_int x :: u64" for x] by (simp add: word_size)

lemma enc_select:
  assumes "- (2 ^ 31) \<le> d" "d < 2 ^ 31"
  shows "select_text d = enc_cmd [[83, 69, 76, 69, 67, 84], idec d]"
proof -
  have "dec 2 = [50]" "dec 6 = [54]" by (simp_all add: dec.simps)
  moreover have "length [a, b] = 2" "length [83, 69, 76, 69, 67, 84 :: byte] = 6" for a b :: "byte list" by simp_all
  ultimately show ?thesis unfolding enc_cmd_def enc_bulks_simps enc_bulk_def select_text_def Let_def by (simp only:) simp
qed

lemma cat_expire:
  assumes "length (str_bytes key) < 2 ^ 31"
  shows "catAppendOnlyExpireAtCommand m buf cmd key sec = buf @ enc_cmd (pexpireat m cmd (str_bytes key) (str_bytes sec))"
proof -
  define t where "t = expire_at m cmd (str_bytes sec)"
  define w :: u64 where "w =
     (let t = (word_of_int (fst (strtoll (str_bytes sec @ [0]))) :: u64);
          t = (if cmd = EXPIRE \<or> cmd = SETEX \<or> cmd = EXPIREAT then t * 1000 else t)
      in (if cmd = EXPIRE \<or> cmd = PEXPIRE \<or> cmd = SETEX \<or> cmd = PSETEX then t + m else t))"
  have "sint w = t"
    by (simp add: w_def t_def expire_at_def Let_def wi_hom_syms)
  then have m: "List.map str_bytes [ENC_RAW [80, 69, 88, 80, 73, 82, 69, 65, 84], key, ENC_INT w] = pexpireat m cmd (str_bytes key) (str_bytes sec)"
    by (simp add: str_bytes_def pexpireat_def t_def)
  have "length (idec (expire_at m cmd x)) < 2 ^ 31" for x
    using length_idec [of "expire_at m cmd x"] expire_at_bounds [of m cmd x] by simp
  then have "small_args (pexpireat m cmd (str_bytes key) (str_bytes sec))"
    using assms by (simp add: small_args_def pexpireat_def)
  then have "catAppendOnlyGenericCommand buf [ENC_RAW [80, 69, 88, 80, 73, 82, 69, 65, 84], key, ENC_INT w] =
      buf @ enc_cmd (pexpireat m cmd (str_bytes key) (str_bytes sec))"
    using cat_enc [of "[ENC_RAW [80, 69, 88, 80, 73, 82, 69, 65, 84], key, ENC_INT w]" buf] by (simp only: m)
  then show ?thesis by (simp add: catAppendOnlyExpireAtCommand_def w_def Let_def)
qed

text \<open>The arguments a command needs.\<close>

definition min_args :: "aof_proc \<Rightarrow> nat" where
  "min_args cmd = (if cmd = SETEX \<or> cmd = PSETEX then 4 else if cmd = OTHER_CMD then 1 else 3)"

definition feed_pre :: "aof_proc \<Rightarrow> int \<Rightarrow> str_enc list \<Rightarrow> bool" where
  "feed_pre cmd d argv \<longleftrightarrow> small_args (List.map str_bytes argv) \<and> min_args cmd \<le> length argv \<and> - (2 ^ 31) \<le> d \<and> d < 2 ^ 31"

lemma feed_ok:
  assumes "feed_pre cmd d argv"
  shows "\<exists>s'. feedAppendOnlyFile m cmd d argv s = Some s' \<and> a_selected_db s' = d \<and> a_on s' = a_on s \<and> a_child s' = a_child s \<and>
    a_buf s' = a_buf s @ (if a_on s then concat (List.map enc_cmd (logged_select (a_selected_db s) d @ logged m cmd (List.map str_bytes argv))) else []) \<and>
    a_blocks s' = (if a_child s then aofRewriteBufferAppend (a_blocks s)
      (concat (List.map enc_cmd (logged_select (a_selected_db s) d @ logged m cmd (List.map str_bytes argv)))) else a_blocks s)"
proof -
  define sel where "sel = concat (List.map enc_cmd (logged_select (a_selected_db s) d))"
  have d: "- (2 ^ 31) \<le> d" "d < 2 ^ 31" and sm: "small_args (List.map str_bytes argv)" and ma: "min_args cmd \<le> length argv"
    using assms by (simp_all add: feed_pre_def)
  have sel: "(if d \<noteq> a_selected_db s then (select_text d, s\<lparr>a_selected_db := d\<rparr>) else ([], s)) = (sel, s\<lparr>a_selected_db := d\<rparr>)"
    using enc_select [OF d] by (simp add: sel_def logged_select_def)
  have small: "i < length argv \<Longrightarrow> length (str_bytes (argv ! i)) < 2 ^ 31" for i
    using sm by (simp add: small_args_def)
  have E: "(if cmd = EXPIRE \<or> cmd = PEXPIRE \<or> cmd = EXPIREAT then do {
          a1 \<leftarrow> peek argv 1; a2 \<leftarrow> peek argv 2;
          Some (catAppendOnlyExpireAtCommand m sel cmd a1 a2)
        } else if cmd = SETEX \<or> cmd = PSETEX then do {
          a1 \<leftarrow> peek argv 1; a2 \<leftarrow> peek argv 2; a3 \<leftarrow> peek argv 3;
          let buf = catAppendOnlyGenericCommand sel [ENC_RAW [83, 69, 84], a1, a3];
          Some (catAppendOnlyExpireAtCommand m buf cmd a1 a2)
        } else Some (catAppendOnlyGenericCommand sel argv)) =
      Some (sel @ concat (List.map enc_cmd (logged m cmd (List.map str_bytes argv))))"
  proof (cases "cmd = EXPIRE \<or> cmd = PEXPIRE \<or> cmd = EXPIREAT")
    case True
    then have "2 < length argv" using ma by (auto simp: min_args_def)
    then show ?thesis using True small [of 1] by (simp add: peek_def cat_expire logged_def)
  next
    case ne: False
    show ?thesis
    proof (cases "cmd = SETEX \<or> cmd = PSETEX")
      case True
      then have l: "3 < length argv" using ma by (auto simp: min_args_def)
      have "small_args (List.map str_bytes [ENC_RAW [83, 69, 84], argv ! 1, argv ! 3])"
        using l small [of 1] small [of 3] by (simp add: small_args_def str_bytes_def)
      then have c: "catAppendOnlyGenericCommand sel [ENC_RAW [83, 69, 84], argv ! Suc 0, argv ! 3] =
          sel @ enc_cmd [[83, 69, 84], str_bytes (argv ! 1), str_bytes (argv ! 3)]"
        using cat_enc [of "[ENC_RAW [83, 69, 84], argv ! 1, argv ! 3]" sel] by (simp add: str_bytes_def)
      show ?thesis using True ne l small [of 1] by (simp add: peek_def c cat_expire logged_def)
    next
      case False
      then show ?thesis using ne cat_enc [OF sm, of sel] by (simp add: logged_def)
    qed
  qed
  show ?thesis unfolding feedAppendOnlyFile_def sel Let_def prod.case E [unfolded Let_def] by (simp add: sel_def)
qed

primrec feed_all :: "(u64 \<times> aof_proc \<times> int \<times> str_enc list) list \<Rightarrow> aof_state \<Rightarrow> aof_state option" where
  "feed_all [] s = Some s"
| "feed_all (x # xs) s = (case x of (m, cmd, d, argv) \<Rightarrow> do { s \<leftarrow> feedAppendOnlyFile m cmd d argv s; feed_all xs s })"

primrec logged_all :: "int \<Rightarrow> (u64 \<times> aof_proc \<times> int \<times> str_enc list) list \<Rightarrow> byte list list list" where
  "logged_all sel [] = []"
| "logged_all sel (x # xs) = (case x of (m, cmd, d, argv) \<Rightarrow>
     logged_select sel d @ logged m cmd (List.map str_bytes argv) @ logged_all d xs)"

definition feeds_pre :: "(u64 \<times> aof_proc \<times> int \<times> str_enc list) list \<Rightarrow> bool" where
  "feeds_pre xs \<longleftrightarrow> (\<forall>(m, cmd, d, argv) \<in> set xs. feed_pre cmd d argv)"

lemma feed_all_ok:
  "feeds_pre xs \<Longrightarrow> a_on s \<Longrightarrow> \<exists>s'. feed_all xs s = Some s' \<and>
     a_buf s' = a_buf s @ concat (List.map enc_cmd (logged_all (a_selected_db s) xs))"
proof (induction xs arbitrary: s)
  case (Cons x xs)
  obtain m cmd d argv where x: "x = (m, cmd, d, argv)" by (metis prod_cases4)
  have "feed_pre cmd d argv" using Cons.prems(1) x by (auto simp: feeds_pre_def)
  from feed_ok [OF this, of m s] obtain s1 where s1: "feedAppendOnlyFile m cmd d argv s = Some s1" "a_selected_db s1 = d" "a_on s1"
    "a_buf s1 = a_buf s @ concat (List.map enc_cmd (logged_select (a_selected_db s) d @ logged m cmd (List.map str_bytes argv)))"
    using Cons.prems(2) by auto
  have "feeds_pre xs" using Cons.prems(1) by (simp add: feeds_pre_def)
  then show ?case using Cons.IH [of s1] s1 x by auto
qed simp

lemma logged_small: "feed_pre cmd d argv \<Longrightarrow> \<forall>c \<in> set (logged_select sel d @ logged m cmd (List.map str_bytes argv)). small_args c"
proof -
  assume a: "feed_pre cmd d argv"
  have e: "length (idec (expire_at m cmd x)) < 2 ^ 31" for x
    using length_idec [of "expire_at m cmd x"] expire_at_bounds [of m cmd x] by simp
  have i: "length (idec d) < 2 ^ 31" using length_idec [of d] a by (simp add: feed_pre_def)
  have s: "i < length argv \<Longrightarrow> length (str_bytes (argv ! i)) < 2 ^ 31" for i
    using a by (simp add: feed_pre_def small_args_def)
  have l: "min_args cmd \<le> length argv" and sm: "small_args (List.map str_bytes argv)" using a by (simp_all add: feed_pre_def)
  have "\<forall>c \<in> set (logged m cmd (List.map str_bytes argv)). small_args c"
    using l sm e s [of 1] s [of 3] by (cases cmd) (simp_all add: logged_def min_args_def pexpireat_def small_args_def)
  then show ?thesis using i by (auto simp: logged_select_def small_args_def)
qed

lemma logged_all_small: "feeds_pre xs \<Longrightarrow> \<forall>c \<in> set (logged_all sel xs). small_args c"
proof (induction xs arbitrary: sel)
  case (Cons x xs)
  obtain m cmd d argv where x: "x = (m, cmd, d, argv)" by (metis prod_cases4)
  have "feed_pre cmd d argv" "feeds_pre xs" using Cons.prems x by (auto simp: feeds_pre_def)
  then show ?case using Cons.IH [of d] logged_small [of cmd d argv sel m] x by auto
qed simp

section \<open>Loading what was logged\<close>

lemma fgets_line:
  assumes "length (dec n) < 100" "c \<noteq> 10"
  shows "fgets 128 (c # dec n @ 13 # 10 # s) = Some (c # dec n @ [13, 10], s)"
proof -
  have nl: "\<forall>b \<in> set (dec n). b \<noteq> 10" using dec_digits [of n] by (auto simp: isdigit_def)
  have "takeWhile (\<lambda>b. b \<noteq> 10) (c # dec n @ 13 # 10 # s) = c # dec n @ [13]"
    using nl assms(2) by (simp add: takeWhile_append)
  then show ?thesis using assms(1) by (simp add: fgets_def min_def)
qed

lemma strtol_dec: "n < 2 ^ 63 \<Longrightarrow> strtol (dec n @ [13, 10]) = int n"
proof -
  assume n: "n < 2 ^ 63"
  have d: "\<forall>b \<in> set (dec n). isdigit b" by (rule dec_digits)
  have sp: "isdigit b \<Longrightarrow> \<not> isspace b \<and> b \<noteq> 45 \<and> b \<noteq> 43" for b by (auto simp: isdigit_def isspace_def word_le_nat_alt)
  obtain b r where br: "dec n = b # r" by (cases "dec n") auto
  have b: "\<not> isspace b" "b \<noteq> 45" "b \<noteq> 43" using d sp br by auto
  have "takeWhile isdigit (dec n @ [13, 10]) = dec n" using d by (simp add: takeWhile_append isdigit_def)
  then show ?thesis using b n dec_val_dec [of n] by (simp add: strtol_def strtoll_def Let_def br)
qed

lemma load_args_enc:
  "\<forall>a \<in> set as. length a < 2 ^ 31 \<Longrightarrow> load_args (length as) (enc_bulks as @ s) = IOk (as, s)"
proof (induction as)
  case (Cons a as)
  have la: "length a < 2 ^ 31" using Cons.prems by simp
  have ld: "length (dec (length a)) < 100" using length_dec [of "length a" 9] la by simp
  have f: "fgets 128 (enc_bulk a @ enc_bulks as @ s) = Some (36 # dec (length a) @ [13, 10], a @ [13, 10] @ enc_bulks as @ s)"
    using fgets_line [OF ld, of 36 "a @ [13, 10] @ enc_bulks as @ s"] by (simp add: enc_bulk_def)
  show ?case using f strtol_dec [of "length a"] la Cons by (simp add: Let_def)
qed simp

lemma load_cmd:
  assumes "small_args c"
  shows "load ex multi (enc_cmd c @ s) w = (case ex c w of None \<Rightarrow> UnknownCmd | Some w' \<Rightarrow> load ex multi s w')"
proof -
  have l: "length c < 2 ^ 31" "0 < length c" "\<forall>a \<in> set c. length a < 2 ^ 31" using assms by (simp_all add: small_args_def)
  have ld: "length (dec (length c)) < 100" using length_dec [of "length c" 9] l(1) by simp
  have f: "fgets 128 (enc_cmd c @ s) = Some (42 # dec (length c) @ [13, 10], enc_bulks c @ s)"
    using fgets_line [OF ld, of 42 "enc_bulks c @ s"] by (simp add: enc_cmd_def)
  have i: "int32 (strtol (tl (42 # dec (length c) @ [13, 10]))) = int (length c)"
    using strtol_dec [of "length c"] l(1) by simp
  show ?thesis
    unfolding load.simps [of ex multi "enc_cmd c @ s"] f option.case prod.case Let_def i
    using l(2) load_args_enc [OF l(3), of s] by (simp add: Suc_le_eq)
qed

lemma load_all:
  assumes "\<forall>c \<in> set cmds. small_args c"
  shows "load (\<lambda>argv w. Some (f argv w)) multi (concat (List.map enc_cmd cmds) @ s) w =
    load (\<lambda>argv w. Some (f argv w)) multi s (fold f cmds w)"
  using assms by (induction cmds arbitrary: w) (simp_all add: load_cmd)

lemma load_end: "load ex multi [] w = (if multi w then ReadErr else IOk w)"
  by (simp add: load.simps fgets_def)

text \<open>
  C39: the append only file replays what was logged.  Whatever commands are fed to the log, in whatever
  databases and with whatever encodings of their arguments, loading the logged bytes executes exactly these
  commands in order, each preceded by a SELECT when its database differs from the last one, with
  EXPIRE, PEXPIRE and EXPIREAT turned into PEXPIREAT with the absolute time in milliseconds, and SETEX and
  PSETEX into a SET and a PEXPIREAT.  A log that ends inside of a transaction, a MULTI without its EXEC, is
  reported as truncated; whether a transaction is open is \<open>multi\<close> of what the commands have done.
\<close>

theorem aof_replays:
  assumes "feeds_pre xs" "a_on s" "a_buf s = []" "feed_all xs s = Some s'" "xs \<noteq> []"
  shows "loadAppendOnlyFile (\<lambda>argv w. Some (f argv w)) multi (a_buf s') w =
    (let w' = fold f (logged_all (a_selected_db s) xs) w in Some (if multi w' then ReadErr else IOk w'))"
proof -
  have b: "a_buf s' = concat (List.map enc_cmd (logged_all (a_selected_db s) xs))"
    using feed_all_ok [OF assms(1,2)] assms(3,4) by auto
  have "logged m cmd as \<noteq> []" for m cmd as by (simp add: logged_def)
  then have "logged_all (a_selected_db s) xs \<noteq> []" using assms(5) by (cases xs) (auto split: prod.split)
  then have "a_buf s' \<noteq> []" by (cases "logged_all (a_selected_db s) xs") (simp_all add: b enc_cmd_def)
  then show ?thesis
    using load_all [OF logged_all_small [OF assms(1), where sel = "a_selected_db s"], where f = f and multi = multi and s = "[]" and w = w]
    by (simp add: loadAppendOnlyFile_def b Let_def load_end)
qed

text \<open>A world that keeps the commands and whether MULTI has been seen without EXEC, and a transaction with a SETEX.\<close>

definition track :: "byte list list \<Rightarrow> bool \<times> byte list list list \<Rightarrow> bool \<times> byte list list list" where
  "track argv w = (if argv = [[77, 85, 76, 84, 73]] then True else if argv = [[69, 88, 69, 67]] then False else fst w, snd w @ [argv])"

definition transaction :: "(u64 \<times> aof_proc \<times> int \<times> str_enc list) list" where
  "transaction = [(1000, OTHER_CMD, 0, [ENC_RAW [77, 85, 76, 84, 73]]),
     (1000, SETEX, 0, [ENC_RAW [115], ENC_RAW [107], ENC_INT 10, ENC_RAW [118]]), (1000, OTHER_CMD, 0, [ENC_RAW [69, 88, 69, 67]])]"

theorem aof_replays_witness:
  "\<exists>s' t'. feed_all transaction \<lparr>a_selected_db = - 1, a_on = True, a_child = False, a_buf = [], a_blocks = []\<rparr> = Some s' \<and>
     loadAppendOnlyFile (\<lambda>argv w. Some (track argv w)) fst (a_buf s') (False, []) =
       Some (IOk (False, [[[83, 69, 76, 69, 67, 84], idec 0], [[77, 85, 76, 84, 73]], [[83, 69, 84], [107], [118]],
         [[80, 69, 88, 80, 73, 82, 69, 65, 84], [107], idec 11000], [[69, 88, 69, 67]]])) \<and>
     feed_all (butlast transaction) \<lparr>a_selected_db = - 1, a_on = True, a_child = False, a_buf = [], a_blocks = []\<rparr> = Some t' \<and>
     loadAppendOnlyFile (\<lambda>argv w. Some (track argv w)) fst (a_buf t') (False, []) = Some ReadErr"
proof -
  let ?s = "\<lparr>a_selected_db = - 1, a_on = True, a_child = False, a_buf = [], a_blocks = []\<rparr>"
  have i: "idec 10 = [49, 48]" by (simp add: idec_def dec.simps)
  have p: "feeds_pre transaction" "feeds_pre (butlast transaction)"
    by (simp_all add: transaction_def feeds_pre_def feed_pre_def small_args_def min_args_def str_bytes_def i)
  have t: "expire_at 1000 SETEX [49, 48] = 11000" by (simp add: expire_at_def strtoll_def Let_def isspace_def isdigit_def dec_val_def)
  obtain s' where s': "feed_all transaction ?s = Some s'" using feed_all_ok [OF p(1), of ?s] by auto
  obtain t' where t': "feed_all (butlast transaction) ?s = Some t'" using feed_all_ok [OF p(2), of ?s] by auto
  have l: "logged_all (- 1) transaction = [[[83, 69, 76, 69, 67, 84], idec 0], [[77, 85, 76, 84, 73]], [[83, 69, 84], [107], [118]],
      [[80, 69, 88, 80, 73, 82, 69, 65, 84], [107], idec 11000], [[69, 88, 69, 67]]]"
    "logged_all (- 1) (butlast transaction) = [[[83, 69, 76, 69, 67, 84], idec 0], [[77, 85, 76, 84, 73]], [[83, 69, 84], [107], [118]],
      [[80, 69, 88, 80, 73, 82, 69, 65, 84], [107], idec 11000]]"
    by (simp_all add: transaction_def logged_select_def logged_def pexpireat_def str_bytes_def i t)
  have ne: "transaction \<noteq> []" "butlast transaction \<noteq> []" by (simp_all add: transaction_def)
  show ?thesis
    using aof_replays [OF p(1) _ _ s' ne(1), of track fst "(False, [])"] aof_replays [OF p(2) _ _ t' ne(2), of track fst "(False, [])"] s' t'
    by (simp add: l track_def)
qed

text \<open>
  C40: the log is a stream of client requests.  The bytes logged for any commands, sent to a server in
  whatever pieces the socket delivers them, make its request parser execute exactly the logged
  commands in order, and nothing is left in the query buffer.
\<close>

theorem aof_stream_parsed:
  assumes "feeds_pre xs" "a_on s" "a_buf s = []" "feed_all xs s = Some s'"
    "\<forall>c \<in> set (logged_all (a_selected_db s) xs). valid_cmd c" "\<forall>n \<in> set ns. 0 < n" "length (a_buf s') \<le> length ns"
    "2 ^ 29 + 2 \<le> max_len"
  shows "\<exists>c. reads max_len (run_all f) ns (a_buf s') (new_qclient w) = Some (Some c, []) \<and>
    q_world c = fold f (logged_all (a_selected_db s) xs) w \<and> q_buf c = [] \<and> \<not> q_close c"
proof -
  have b: "a_buf s' = concat (List.map enc_cmd (logged_all (a_selected_db s) xs))"
    using feed_all_ok [OF assms(1,2)] assms(3,4) by auto
  show ?thesis unfolding b by (rule reads_all [OF assms(5,6) _ assms(8)]) (use assms(7) b in simp)
qed

theorem aof_stream_parsed_witness:
  "\<exists>s' c. feed_all [(0, OTHER_CMD, 0, [ENC_RAW [68, 69, 76], ENC_RAW [107]])]
       \<lparr>a_selected_db = 0, a_on = True, a_child = False, a_buf = [], a_blocks = []\<rparr> = Some s' \<and>
     reads (2 ^ 30) (run_all (\<lambda>argv w. w @ [argv])) (replicate (length (a_buf s')) 3) (a_buf s') (new_qclient []) = Some (Some c, []) \<and>
     q_world c = [[[68, 69, 76], [107]]]"
proof -
  let ?x = "[(0 :: u64, OTHER_CMD, 0 :: int, [ENC_RAW [68, 69, 76], ENC_RAW [107]])]"
  let ?s = "\<lparr>a_selected_db = 0, a_on = True, a_child = False, a_buf = [], a_blocks = []\<rparr>"
  have p: "feeds_pre ?x" by (simp add: feeds_pre_def feed_pre_def small_args_def min_args_def str_bytes_def)
  then obtain s' where s': "feed_all ?x ?s = Some s'" using feed_all_ok [OF p, of ?s] by auto
  have l: "logged_all 0 ?x = [[[68, 69, 76], [107]]]" by (simp add: logged_select_def logged_def str_bytes_def)
  have v: "\<forall>c \<in> set (logged_all (a_selected_db ?s) ?x). valid_cmd c" using l by (simp add: valid_cmd_def)
  obtain c where c: "reads (2 ^ 30) (run_all (\<lambda>argv w. w @ [argv])) (replicate (length (a_buf s')) 3) (a_buf s') (new_qclient []) = Some (Some c, [])"
    "q_world c = fold (\<lambda>argv w. w @ [argv]) (logged_all (a_selected_db ?s) ?x) []"
    using aof_stream_parsed [OF p _ _ s' v, of "replicate (length (a_buf s')) 3" "2 ^ 30" "\<lambda>argv w. w @ [argv]" "[]"] by auto
  have "q_world c = [[[68, 69, 76], [107]]]" unfolding c(2) aof_state.simps l by simp
  then show ?thesis using s' c(1) by blast
qed

end
