(* ===== verification/Db.thy ===== *)
theory Db
  imports Object Sds "HOL-Library.AList" "HOL-Library.Signed_Division"
begin

text \<open>
  \<open>redis/src/db.c\<close>: the key space.  A database is an association list from keys to values (\<open>DictTypes\<close>
  shows that the hash table refines a map) and one from keys to expire times; the list is in the order in
  which an iterator returns it.  A value of type string is the address of an object in the store of
  \<open>Object\<close>, so that objects shared between keys, the argument vector and the table of shared integers are
  the same object, with a reference count.  A value of another type is opaque.  The clock stands still
  during a command.  \<open>None\<close> is a failed assertion or the use of a freed object.
\<close>

section \<open>State\<close>

type_synonym key = "byte list"

datatype otype = LIST | SET | ZSET | HASH

datatype dval = VStr nat | VAgg otype nat

text \<open>The calls of \<open>signalModifiedKey\<close> and \<open>signalFlushedDb\<close>.\<close>

datatype signal = KeyModified nat key | DbFlushed int

record redisDb =
  db_dict :: "(key \<times> dval) list"
  db_expires :: "(key \<times> int) list"

text \<open>
  The server with the client that runs a command: \<open>d_db\<close>, \<open>d_argv\<close> and \<open>d_out\<close> are the client's.
  \<open>d_alloc\<close> is the length of the longest string the allocator can provide; it aborts the program
  for a longer one.
\<close>

record dserver =
  d_store :: store
  d_dbs :: "nat \<Rightarrow> redisDb"
  d_dbnum :: nat
  d_db :: nat
  d_argv :: "nat list"
  d_out :: "reply list"
  d_signals :: "signal list"
  d_aof_on :: bool
  d_has_slaves :: bool
  d_aof_feed :: "(nat \<times> byte list list) list"
  d_slave_feed :: "(nat \<times> byte list list) list"
  d_dirty :: int
  d_mstime :: int
  d_loading :: bool
  d_slave :: bool
  d_child :: bool
  d_expired :: nat
  d_hits :: nat
  d_misses :: nat
  d_alloc :: nat

definition d_reply :: "reply list \<Rightarrow> dserver \<Rightarrow> dserver" where
  "d_reply rs s = s\<lparr>d_out := d_out s @ rs\<rparr>"

definition bump :: "int \<Rightarrow> dserver \<Rightarrow> dserver" where
  "bump n s = s\<lparr>d_dirty := d_dirty s + n\<rparr>"

definition signalModifiedKey :: "nat \<Rightarrow> key \<Rightarrow> dserver \<Rightarrow> dserver" where
  "signalModifiedKey db k s = s\<lparr>d_signals := d_signals s @ [KeyModified db k]\<rparr>"

definition signalFlushedDb :: "int \<Rightarrow> dserver \<Rightarrow> dserver" where
  "signalFlushedDb dbid s = s\<lparr>d_signals := d_signals s @ [DbFlushed dbid]\<rparr>"

definition dict_of :: "dserver \<Rightarrow> nat \<Rightarrow> (key \<times> dval) list" where
  "dict_of s db = db_dict (d_dbs s db)"

definition expires_of :: "dserver \<Rightarrow> nat \<Rightarrow> (key \<times> int) list" where
  "expires_of s db = db_expires (d_dbs s db)"

definition set_dict :: "nat \<Rightarrow> (key \<times> dval) list \<Rightarrow> dserver \<Rightarrow> dserver" where
  "set_dict db d s = s\<lparr>d_dbs := (d_dbs s)(db := (d_dbs s db)\<lparr>db_dict := d\<rparr>)\<rparr>"

definition set_expires :: "nat \<Rightarrow> (key \<times> int) list \<Rightarrow> dserver \<Rightarrow> dserver" where
  "set_expires db e s = s\<lparr>d_dbs := (d_dbs s)(db := (d_dbs s db)\<lparr>db_expires := e\<rparr>)\<rparr>"

section \<open>Objects\<close>

definition incr_ref :: "nat \<Rightarrow> dserver \<Rightarrow> dserver option" where
  "incr_ref a s = map_option (\<lambda>st. s\<lparr>d_store := st\<rparr>) (incrRefCount a (d_store s))"

definition decr_ref :: "nat \<Rightarrow> dserver \<Rightarrow> dserver option" where
  "decr_ref a s = map_option (\<lambda>st. s\<lparr>d_store := st\<rparr>) (decrRefCount a (d_store s))"

definition incr_val :: "dval \<Rightarrow> dserver \<Rightarrow> dserver option" where
  "incr_val v s = (case v of VStr a \<Rightarrow> incr_ref a s | VAgg _ _ \<Rightarrow> Some s)"

definition free_val :: "dval \<Rightarrow> dserver \<Rightarrow> dserver option" where
  "free_val v s = (case v of VStr a \<Rightarrow> decr_ref a s | VAgg _ _ \<Rightarrow> Some s)"

definition new_obj :: "str_enc \<Rightarrow> dserver \<Rightarrow> nat \<times> dserver" where
  "new_obj v s = (case createObject v (d_store s) of (a, st) \<Rightarrow> (a, s\<lparr>d_store := st\<rparr>))"

definition obj_at :: "dserver \<Rightarrow> nat \<Rightarrow> robj option" where
  "obj_at s a = so_objs (d_store s) a"

definition put_obj :: "nat \<Rightarrow> robj \<Rightarrow> dserver \<Rightarrow> dserver" where
  "put_obj a ob s = s\<lparr>d_store := set_obj a ob (d_store s)\<rparr>"

text \<open>The dynamic string at \<open>ptr\<close>, for a raw object only.\<close>

definition raw :: "dserver \<Rightarrow> nat \<Rightarrow> byte list option" where
  "raw s a = do { ob \<leftarrow> obj_at s a; case o_str ob of ENC_RAW b \<Rightarrow> Some b | ENC_INT _ \<Rightarrow> None }"

definition arg :: "nat \<Rightarrow> dserver \<Rightarrow> nat option" where
  "arg j s = peek (d_argv s) j"

definition arg_raw :: "nat \<Rightarrow> dserver \<Rightarrow> byte list option" where
  "arg_raw j s = do { a \<leftarrow> arg j s; raw s a }"

section \<open>Expires\<close>

definition getExpire :: "nat \<Rightarrow> key \<Rightarrow> dserver \<Rightarrow> int option" where
  "getExpire db k s =
     (if expires_of s db = [] then Some (- 1)
      else case map_of (expires_of s db) k of
        None \<Rightarrow> Some (- 1)
      | Some when \<Rightarrow> if map_of (dict_of s db) k = None then None else Some when)"

definition dbDelete :: "nat \<Rightarrow> key \<Rightarrow> dserver \<Rightarrow> (bool \<times> dserver) option" where
  "dbDelete db k s =
     (let s = (if expires_of s db \<noteq> [] then set_expires db (AList.delete k (expires_of s db)) s else s) in
      case map_of (dict_of s db) k of
        None \<Rightarrow> Some (False, s)
      | Some v \<Rightarrow> map_option (Pair True) (free_val v (set_dict db (AList.delete k (dict_of s db)) s)))"

definition propagateExpire :: "nat \<Rightarrow> key \<Rightarrow> dserver \<Rightarrow> dserver" where
  "propagateExpire db k s =
     (let argv = [[68, 69, 76], k];
          s = (if d_aof_on s then s\<lparr>d_aof_feed := d_aof_feed s @ [(db, argv)]\<rparr> else s)
      in if d_has_slaves s then s\<lparr>d_slave_feed := d_slave_feed s @ [(db, argv)]\<rparr> else s)"

definition expireIfNeeded :: "nat \<Rightarrow> key \<Rightarrow> dserver \<Rightarrow> (bool \<times> dserver) option" where
  "expireIfNeeded db k s = do {
     when \<leftarrow> getExpire db k s;
     if when < 0 then Some (False, s)
     else if d_loading s then Some (False, s)
     else if d_slave s then Some (d_mstime s > when, s)
     else if d_mstime s \<le> when then Some (False, s)
     else dbDelete db k (propagateExpire db k (s\<lparr>d_expired := d_expired s + 1\<rparr>))
   }"

definition removeExpire :: "nat \<Rightarrow> key \<Rightarrow> dserver \<Rightarrow> (bool \<times> dserver) option" where
  "removeExpire db k s =
     (if map_of (dict_of s db) k = None then None
      else Some (map_of (expires_of s db) k \<noteq> None, set_expires db (AList.delete k (expires_of s db)) s))"

definition setExpire :: "nat \<Rightarrow> key \<Rightarrow> int \<Rightarrow> dserver \<Rightarrow> dserver option" where
  "setExpire db k when s =
     (if map_of (dict_of s db) k = None then None
      else Some (set_expires db (AList.update k when (expires_of s db)) s))"

section \<open>The dictionary\<close>

definition touch_lru :: "dval \<Rightarrow> dserver \<Rightarrow> dserver option" where
  "touch_lru v s =
     (if d_child s then Some s
      else case v of
        VStr a \<Rightarrow> do {
          ob \<leftarrow> obj_at s a;
          Some (put_obj a (ob\<lparr>o_lru := so_lruclock (d_store s)\<rparr>) s)
        }
      | VAgg _ _ \<Rightarrow> Some s)"

definition lookupKey :: "nat \<Rightarrow> key \<Rightarrow> dserver \<Rightarrow> (dval option \<times> dserver) option" where
  "lookupKey db k s =
     (case map_of (dict_of s db) k of
        None \<Rightarrow> Some (None, s)
      | Some v \<Rightarrow> map_option (Pair (Some v)) (touch_lru v s))"

definition lookupKeyWrite :: "nat \<Rightarrow> key \<Rightarrow> dserver \<Rightarrow> (dval option \<times> dserver) option" where
  "lookupKeyWrite db k s = do { (_, s) \<leftarrow> expireIfNeeded db k s; lookupKey db k s }"

definition lookupKeyRead :: "nat \<Rightarrow> key \<Rightarrow> dserver \<Rightarrow> (dval option \<times> dserver) option" where
  "lookupKeyRead db k s = do {
     (_, s) \<leftarrow> expireIfNeeded db k s;
     (v, s) \<leftarrow> lookupKey db k s;
     Some (v, if v = None then s\<lparr>d_misses := d_misses s + 1\<rparr> else s\<lparr>d_hits := d_hits s + 1\<rparr>)
   }"

definition lookupKeyReadOrReply :: "nat \<Rightarrow> key \<Rightarrow> reply \<Rightarrow> dserver \<Rightarrow> (dval option \<times> dserver) option" where
  "lookupKeyReadOrReply db k r s = do {
     (v, s) \<leftarrow> lookupKeyRead db k s;
     Some (v, if v = None then d_reply [r] s else s)
   }"

definition lookupKeyWriteOrReply :: "nat \<Rightarrow> key \<Rightarrow> reply \<Rightarrow> dserver \<Rightarrow> (dval option \<times> dserver) option" where
  "lookupKeyWriteOrReply db k r s = do {
     (v, s) \<leftarrow> lookupKeyWrite db k s;
     Some (v, if v = None then d_reply [r] s else s)
   }"

definition dbAdd :: "nat \<Rightarrow> key \<Rightarrow> dval \<Rightarrow> dserver \<Rightarrow> dserver option" where
  "dbAdd db k v s =
     (if map_of (dict_of s db) k \<noteq> None then None
      else Some (set_dict db (AList.update k v (dict_of s db)) s))"

definition dbOverwrite :: "nat \<Rightarrow> key \<Rightarrow> dval \<Rightarrow> dserver \<Rightarrow> dserver option" where
  "dbOverwrite db k v s = do {
     old \<leftarrow> map_of (dict_of s db) k;
     free_val old (set_dict db (AList.update k v (dict_of s db)) s)
   }"

definition setKey :: "nat \<Rightarrow> key \<Rightarrow> dval \<Rightarrow> dserver \<Rightarrow> dserver option" where
  "setKey db k v s = do {
     (old, s) \<leftarrow> lookupKeyWrite db k s;
     s \<leftarrow> (if old = None then dbAdd db k v s else dbOverwrite db k v s);
     s \<leftarrow> incr_val v s;
     (_, s) \<leftarrow> removeExpire db k s;
     Some (signalModifiedKey db k s)
   }"

definition dbExists :: "nat \<Rightarrow> key \<Rightarrow> dserver \<Rightarrow> bool" where
  "dbExists db k s \<longleftrightarrow> map_of (dict_of s db) k \<noteq> None"

text \<open>
  \<open>dbRandomKey\<close>: \<open>pick\<close> is what \<open>dictGetRandomKey\<close> returns in each round of the loop; \<open>Inr\<close> is a search that
  has not ended after the given number of rounds.
\<close>

primrec dbRandomKey :: "nat \<Rightarrow> (nat \<Rightarrow> key list \<Rightarrow> key) \<Rightarrow> nat \<Rightarrow> dserver \<Rightarrow> ((nat option \<times> dserver) + dserver) option" where
  "dbRandomKey db pick 0 s = Some (Inr s)"
| "dbRandomKey db pick (Suc n) s =
     (if dict_of s db = [] then Some (Inl (None, s))
      else
        let k = pick n (map fst (dict_of s db)) in
        if map_of (dict_of s db) k = None then None
        else
          let (a, s) = new_obj (ENC_RAW k) s in
          if map_of (expires_of s db) k \<noteq> None then do {
            (expired, s) \<leftarrow> expireIfNeeded db k s;
            if expired then do { s \<leftarrow> decr_ref a s; dbRandomKey db pick n s }
            else Some (Inl (Some a, s))
          }
          else Some (Inl (Some a, s)))"

primrec free_all :: "(key \<times> dval) list \<Rightarrow> dserver \<Rightarrow> dserver option" where
  "free_all [] s = Some s"
| "free_all (p # ps) s = do { s \<leftarrow> free_val (snd p) s; free_all ps s }"

text \<open>Emptying both dictionaries of a database.\<close>

definition empty_one :: "nat \<Rightarrow> dserver \<Rightarrow> dserver option" where
  "empty_one db s = do {
     s \<leftarrow> free_all (dict_of s db) (set_dict db [] s);
     Some (set_expires db [] s)
   }"

primrec emptyDb :: "nat \<Rightarrow> dserver \<Rightarrow> (int \<times> dserver) option" where
  "emptyDb 0 s = Some (0, s)"
| "emptyDb (Suc j) s = do {
     (removed, s) \<leftarrow> emptyDb j s;
     let n = int (length (dict_of s j));
     s \<leftarrow> empty_one j s;
     Some (removed + n, s)
   }"

definition selectDb :: "int \<Rightarrow> dserver \<Rightarrow> bool \<times> dserver" where
  "selectDb i s = (if i < 0 \<or> i \<ge> int (d_dbnum s) then (False, s) else (True, s\<lparr>d_db := nat i\<rparr>))"

section \<open>Arguments\<close>

text \<open>C arithmetic on \<open>long long\<close> as the compiled code does it, and \<open>atoi\<close>.\<close>

definition llong :: "int \<Rightarrow> int" where
  "llong x = sint (word_of_int x :: u64)"

definition atoi :: "byte list \<Rightarrow> int" where
  "atoi b = int32 (fst (strtoll (b @ [0])))"

definition getLongLongFromObjectOrReply ::
  "nat option \<Rightarrow> string option \<Rightarrow> dserver \<Rightarrow> (int option \<times> dserver) option" where
  "getLongLongFromObjectOrReply ob msg s = do {
     enc \<leftarrow> (case ob of None \<Rightarrow> Some None | Some a \<Rightarrow> map_option (\<lambda>r. Some (o_str r)) (obj_at s a));
     case getLongLongFromObject enc of
       Some value \<Rightarrow> Some (Some (sint value), s)
     | None \<Rightarrow>
         Some (None, d_reply [ReplyError (case msg of Some m \<Rightarrow> m
                                          | None \<Rightarrow> ''value is not an integer or out of range'')] s)
   }"

definition getLongFromObjectOrReply ::
  "nat option \<Rightarrow> string option \<Rightarrow> dserver \<Rightarrow> (int option \<times> dserver) option" where
  "getLongFromObjectOrReply ob msg s = do {
     (v, s) \<leftarrow> getLongLongFromObjectOrReply ob msg s;
     case v of
       None \<Rightarrow> Some (None, s)
     | Some value \<Rightarrow>
         if value < - (2 ^ 63) \<or> value > 2 ^ 63 - 1
         then Some (None, d_reply [ReplyError (case msg of Some m \<Rightarrow> m | None \<Rightarrow> ''value is out of range'')] s)
         else Some (Some value, s)
   }"

primrec incr_all :: "nat list \<Rightarrow> dserver \<Rightarrow> dserver option" where
  "incr_all [] s = Some s"
| "incr_all (a # as) s = do { s \<leftarrow> incr_ref a s; incr_all as s }"

primrec decr_all :: "nat list \<Rightarrow> dserver \<Rightarrow> dserver option" where
  "decr_all [] s = Some s"
| "decr_all (a # as) s = do { s \<leftarrow> decr_ref a s; decr_all as s }"

definition rewriteClientCommandVector :: "nat list \<Rightarrow> dserver \<Rightarrow> dserver option" where
  "rewriteClientCommandVector argv s = do {
     s \<leftarrow> incr_all argv s;
     s \<leftarrow> decr_all (d_argv s) s;
     Some (s\<lparr>d_argv := argv\<rparr>)
   }"

section \<open>Commands on the key space\<close>

definition flushdbCommand :: "dserver \<Rightarrow> dserver option" where
  "flushdbCommand s = do {
     let s = bump (int (length (dict_of s (d_db s)))) s;
     let s = signalFlushedDb (int (d_db s)) s;
     s \<leftarrow> empty_one (d_db s) s;
     Some (d_reply [Shared ''ok''] s)
   }"

text \<open>Killing a saving child and \<open>rdbSave\<close> are not modelled; \<open>dirty\<close> is restored after the latter.\<close>

definition flushallCommand :: "dserver \<Rightarrow> dserver option" where
  "flushallCommand s = do {
     let s = signalFlushedDb (- 1) s;
     (removed, s) \<leftarrow> emptyDb (d_dbnum s) s;
     Some (bump 1 (d_reply [Shared ''ok''] (bump removed s)))
   }"

primrec del_loop :: "nat list \<Rightarrow> int \<Rightarrow> dserver \<Rightarrow> (int \<times> dserver) option" where
  "del_loop [] deleted s = Some (deleted, s)"
| "del_loop (a # as) deleted s = do {
     k \<leftarrow> raw s a;
     (ok, s) \<leftarrow> dbDelete (d_db s) k s;
     if ok then del_loop as (deleted + 1) (bump 1 (signalModifiedKey (d_db s) k s))
     else del_loop as deleted s
   }"

definition delCommand :: "dserver \<Rightarrow> dserver option" where
  "delCommand s = do { (deleted, s) \<leftarrow> del_loop (tl (d_argv s)) 0 s; Some (d_reply [LongLong deleted] s) }"

definition existsCommand :: "dserver \<Rightarrow> dserver option" where
  "existsCommand s = do {
     k \<leftarrow> arg_raw 1 s;
     (_, s) \<leftarrow> expireIfNeeded (d_db s) k s;
     Some (d_reply [Shared (if dbExists (d_db s) k s then ''cone'' else ''czero'')] s)
   }"

definition selectCommand :: "dserver \<Rightarrow> dserver option" where
  "selectCommand s = do {
     b \<leftarrow> arg_raw 1 s;
     let (ok, s) = selectDb (atoi b) s;
     Some (d_reply [if ok then Shared ''ok'' else ReplyError ''invalid DB index''] s)
   }"

definition randomkeyCommand :: "(nat \<Rightarrow> key list \<Rightarrow> key) \<Rightarrow> nat \<Rightarrow> dserver \<Rightarrow> (dserver + dserver) option" where
  "randomkeyCommand pick n s = do {
     r \<leftarrow> dbRandomKey (d_db s) pick n s;
     case r of
       Inr s \<Rightarrow> Some (Inr s)
     | Inl (None, s) \<Rightarrow> Some (Inl (d_reply [Shared ''nullbulk''] s))
     | Inl (Some a, s) \<Rightarrow> do {
         ob \<leftarrow> obj_at s a;
         let s = d_reply [Bulk (str_bytes (o_str ob))] s;
         map_option Inl (decr_ref a s)
       }
   }"

text \<open>The loop over the keys; the replies it adds follow the deferred length.\<close>

primrec keys_loop :: "byte list \<Rightarrow> bool \<Rightarrow> key list \<Rightarrow> dserver \<Rightarrow> (key list \<times> dserver) option" where
  "keys_loop pat allkeys [] s = Some ([], s)"
| "keys_loop pat allkeys (k # ks) s = do {
     m \<leftarrow> (if allkeys then Some True
          else stringmatchlen (pat @ [0]) (int (length pat)) (k @ [0]) (int (length k)) False);
     if m then do {
       let (a, s) = new_obj (ENC_RAW k) s;
       (expired, s) \<leftarrow> expireIfNeeded (d_db s) k s;
       s \<leftarrow> decr_ref a s;
       (ks', s) \<leftarrow> keys_loop pat allkeys ks s;
       Some (if expired then ks' else k # ks', s)
     }
     else keys_loop pat allkeys ks s
   }"

definition keysCommand :: "dserver \<Rightarrow> dserver option" where
  "keysCommand s = do {
     pat \<leftarrow> arg_raw 1 s;
     let allkeys = ((pat @ [0]) ! 0 = 42 \<and> (pat @ [0]) ! 1 = 0);
     (ks, s) \<leftarrow> keys_loop pat allkeys (map fst (dict_of s (d_db s))) s;
     Some (d_reply (MbulkHdr (length ks) # map Bulk ks) s)
   }"

definition dbsizeCommand :: "dserver \<Rightarrow> dserver option" where
  "dbsizeCommand s = Some (d_reply [LongLong (int (length (dict_of s (d_db s))))] s)"

definition type_name :: "dval option \<Rightarrow> string" where
  "type_name v =
     (case v of
        None \<Rightarrow> ''none''
      | Some (VStr _) \<Rightarrow> ''string''
      | Some (VAgg LIST _) \<Rightarrow> ''list''
      | Some (VAgg SET _) \<Rightarrow> ''set''
      | Some (VAgg ZSET _) \<Rightarrow> ''zset''
      | Some (VAgg HASH _) \<Rightarrow> ''hash'')"

definition typeCommand :: "dserver \<Rightarrow> dserver option" where
  "typeCommand s = do {
     k \<leftarrow> arg_raw 1 s;
     (v, s) \<leftarrow> lookupKeyRead (d_db s) k s;
     Some (d_reply [Status (type_name v)] s)
   }"

definition renameGenericCommand :: "bool \<Rightarrow> dserver \<Rightarrow> dserver option" where
  "renameGenericCommand nx s = do {
     k1 \<leftarrow> arg_raw 1 s;
     k2 \<leftarrow> arg_raw 2 s;
     if sdscmp k1 k2 = 0 then Some (d_reply [Shared ''sameobjecterr''] s)
     else do {
       (v, s) \<leftarrow> lookupKeyWriteOrReply (d_db s) k1 (Shared ''nokeyerr'') s;
       case v of
         None \<Rightarrow> Some s
       | Some v \<Rightarrow> do {
           s \<leftarrow> incr_val v s;
           expire \<leftarrow> getExpire (d_db s) k1 s;
           (w, s) \<leftarrow> lookupKeyWrite (d_db s) k2 s;
           if w \<noteq> None \<and> nx then do { s \<leftarrow> free_val v s; Some (d_reply [Shared ''czero''] s) }
           else do {
             (_, s) \<leftarrow> (if w \<noteq> None then dbDelete (d_db s) k2 s else Some (True, s));
             s \<leftarrow> dbAdd (d_db s) k2 v s;
             s \<leftarrow> (if expire \<noteq> - 1 then setExpire (d_db s) k2 expire s else Some s);
             (_, s) \<leftarrow> dbDelete (d_db s) k1 s;
             let s = signalModifiedKey (d_db s) k2 (signalModifiedKey (d_db s) k1 s);
             Some (d_reply [Shared (if nx then ''cone'' else ''ok'')] (bump 1 s))
           }
         }
     }
   }"

definition renameCommand :: "dserver \<Rightarrow> dserver option" where
  "renameCommand s = renameGenericCommand False s"

definition renamenxCommand :: "dserver \<Rightarrow> dserver option" where
  "renamenxCommand s = renameGenericCommand True s"

definition moveCommand :: "dserver \<Rightarrow> dserver option" where
  "moveCommand s = do {
     let src = d_db s;
     b \<leftarrow> arg_raw 2 s;
     let (ok, s) = selectDb (atoi b) s;
     if \<not> ok then Some (d_reply [Shared ''outofrangeerr''] s)
     else do {
       let dst = d_db s;
       let s = snd (selectDb (int src) s);
       if src = dst then Some (d_reply [Shared ''sameobjecterr''] s)
       else do {
         k \<leftarrow> arg_raw 1 s;
         (v, s) \<leftarrow> lookupKeyWrite src k s;
         case v of
           None \<Rightarrow> Some (d_reply [Shared ''czero''] s)
         | Some v \<Rightarrow> do {
             (w, s) \<leftarrow> lookupKeyWrite dst k s;
             if w \<noteq> None then Some (d_reply [Shared ''czero''] s)
             else do {
               s \<leftarrow> dbAdd dst k v s;
               s \<leftarrow> incr_val v s;
               (_, s) \<leftarrow> dbDelete src k s;
               Some (d_reply [Shared ''cone''] (bump 1 s))
             }
           }
       }
     }
   }"

section \<open>Commands on expires\<close>

text \<open>The flag is \<open>UNIT_SECONDS\<close>.\<close>

definition expireGenericCommand :: "int \<Rightarrow> bool \<Rightarrow> dserver \<Rightarrow> dserver option" where
  "expireGenericCommand basetime seconds s = do {
     key \<leftarrow> arg 1 s;
     param \<leftarrow> arg 2 s;
     (v, s) \<leftarrow> getLongLongFromObjectOrReply (Some param) None s;
     case v of
       None \<Rightarrow> Some s
     | Some when \<Rightarrow> do {
         let when = (if seconds then llong (when * 1000) else when);
         let when = llong (when + basetime);
         k \<leftarrow> raw s key;
         if \<not> dbExists (d_db s) k s then Some (d_reply [Shared ''czero''] s)
         else if when \<le> d_mstime s \<and> \<not> d_loading s \<and> \<not> d_slave s then do {
           (ok, s) \<leftarrow> dbDelete (d_db s) k s;
           if \<not> ok then None
           else do {
             let s = bump 1 s;
             let (aux, s) = new_obj (ENC_RAW [68, 69, 76]) s;
             s \<leftarrow> rewriteClientCommandVector [aux, key] s;
             s \<leftarrow> decr_ref aux s;
             Some (d_reply [Shared ''cone''] (signalModifiedKey (d_db s) k s))
           }
         }
         else do {
           s \<leftarrow> setExpire (d_db s) k when s;
           Some (bump 1 (signalModifiedKey (d_db s) k (d_reply [Shared ''cone''] s)))
         }
       }
   }"

definition expireCommand :: "dserver \<Rightarrow> dserver option" where
  "expireCommand s = expireGenericCommand (d_mstime s) True s"

definition expireatCommand :: "dserver \<Rightarrow> dserver option" where
  "expireatCommand s = expireGenericCommand 0 True s"

definition pexpireCommand :: "dserver \<Rightarrow> dserver option" where
  "pexpireCommand s = expireGenericCommand (d_mstime s) False s"

definition pexpireatCommand :: "dserver \<Rightarrow> dserver option" where
  "pexpireatCommand s = expireGenericCommand 0 False s"

definition ttlGenericCommand :: "bool \<Rightarrow> dserver \<Rightarrow> dserver option" where
  "ttlGenericCommand output_ms s = do {
     k \<leftarrow> arg_raw 1 s;
     expire \<leftarrow> getExpire (d_db s) k s;
     let ttl = (if expire \<noteq> - 1 then let ttl = llong (expire - d_mstime s) in if ttl < 0 then - 1 else ttl else - 1);
     Some (d_reply [LongLong (if ttl = - 1 then - 1 else if output_ms then ttl else llong (ttl + 500) sdiv 1000)] s)
   }"

definition ttlCommand :: "dserver \<Rightarrow> dserver option" where
  "ttlCommand s = ttlGenericCommand False s"

definition pttlCommand :: "dserver \<Rightarrow> dserver option" where
  "pttlCommand s = ttlGenericCommand True s"

definition persistCommand :: "dserver \<Rightarrow> dserver option" where
  "persistCommand s = do {
     k \<leftarrow> arg_raw 1 s;
     if \<not> dbExists (d_db s) k s then Some (d_reply [Shared ''czero''] s)
     else do {
       (removed, s) \<leftarrow> removeExpire (d_db s) k s;
       Some (if removed then bump 1 (d_reply [Shared ''cone''] s) else d_reply [Shared ''czero''] s)
     }
   }"

end
