(* ===== verification/Keyspace.thy ===== *)
theory Keyspace
  imports Db
begin

text \<open>
  The invariant of the key space of \<open>Db\<close>: reference counts are the numbers of references, objects without
  any have been freed, expire times belong to keys.  \<open>look\<close> and \<open>expi\<close> are what the dictionaries hold,
  \<open>live\<close> is what clients see at the current time; every operation is described by what it does to these.
\<close>

section \<open>References\<close>

text \<open>
  The references to an object: from the values of every database, from the arguments of the client, and
  one from the table of shared integers.
\<close>

definition dict_refs :: "(key \<times> dval) list \<Rightarrow> nat \<Rightarrow> nat" where
  "dict_refs d a = length (filter (\<lambda>p. snd p = VStr a) d)"

definition shared_ref :: "dserver \<Rightarrow> nat \<Rightarrow> nat" where
  "shared_ref s a = (if \<exists>n < REDIS_SHARED_INTEGERS. so_shared (d_store s) n = a then 1 else 0)"

definition refs :: "dserver \<Rightarrow> nat \<Rightarrow> nat" where
  "refs s a = (\<Sum>db < d_dbnum s. dict_refs (dict_of s db) a) + count_list (d_argv s) a + shared_ref s a"

definition rc :: "dserver \<Rightarrow> nat \<Rightarrow> int" where
  "rc s a = (case obj_at s a of None \<Rightarrow> 0 | Some ob \<Rightarrow> o_refcount ob)"

text \<open>
  The invariant: every reference count is the number of references, plus what the code in progress owes
  (\<open>H\<close>, zero between operations); an object without references has been freed; expire times belong to
  keys that exist.
\<close>

definition dbs_ok :: "dserver \<Rightarrow> bool" where
  "dbs_ok s \<longleftrightarrow> (\<forall>db. distinct (map fst (dict_of s db)) \<and> distinct (map fst (expires_of s db)) \<and>
      fst ` set (expires_of s db) \<subseteq> fst ` set (dict_of s db)) \<and>
    (\<forall>db \<ge> d_dbnum s. dict_of s db = []) \<and> d_db s < d_dbnum s \<and>
    (\<forall>db. \<forall>k \<in> fst ` set (dict_of s db). length k \<le> 2 ^ 29)"

definition small :: "str_enc \<Rightarrow> bool" where
  "small e \<longleftrightarrow> (case e of ENC_RAW b \<Rightarrow> length b \<le> 2 ^ 29 | ENC_INT _ \<Rightarrow> True)"

lemma small_simps [simp]: "small (ENC_INT n)" "small (ENC_RAW b) \<longleftrightarrow> length b \<le> 2 ^ 29"
  by (simp_all add: small_def)

definition objs_ok :: "dserver \<Rightarrow> bool" where
  "objs_ok s \<longleftrightarrow> (\<forall>a ob. obj_at s a = Some ob \<longrightarrow> o_refcount ob \<ge> 1 \<and> small (o_str ob)) \<and>
    (\<forall>a \<ge> so_next (d_store s). obj_at s a = None) \<and>
    (\<forall>n < REDIS_SHARED_INTEGERS. \<exists>ob. obj_at s (so_shared (d_store s) n) = Some ob \<and> o_str ob = ENC_INT (of_nat n))"

definition kv_ok :: "(nat \<Rightarrow> int) \<Rightarrow> dserver \<Rightarrow> bool" where
  "kv_ok H s \<longleftrightarrow> dbs_ok s \<and> objs_ok s \<and> (\<forall>a. rc s a = int (refs s a) + H a)"

abbreviation zero :: "nat \<Rightarrow> int" where "zero \<equiv> \<lambda>_. 0"

lemma rc_pos: "objs_ok s \<Longrightarrow> obj_at s a \<noteq> None \<longleftrightarrow> rc s a > 0"
  by (force simp: objs_ok_def rc_def split: option.split)

lemma dict_refs_simps [simp]:
  "dict_refs [] a = 0"
  "dict_refs (p # d) a = (if snd p = VStr a then 1 else 0) + dict_refs d a"
  by (simp_all add: dict_refs_def)

lemma dict_refs_delete:
  "distinct (map fst d) \<Longrightarrow> dict_refs d a = dict_refs (AList.delete k d) a + (if map_of d k = Some (VStr a) then 1 else 0)"
proof (induction d)
  case (Cons p d)
  show ?case
  proof (cases "fst p = k")
    case True
    then have "k \<notin> fst ` set d" using Cons.prems by auto
    then have "AList.delete k d = d" "map_of d k = None" by (simp_all add: AList.delete_id map_of_eq_None_iff)
    then show ?thesis using True by (cases p) (simp add: AList.delete_eq)
  next
    case False
    then show ?thesis using Cons by (cases p) (auto simp: AList.delete_eq)
  qed
qed simp

lemma dict_refs_update:
  "distinct (map fst d) \<Longrightarrow>
    dict_refs (AList.update k v d) a + (if map_of d k = Some (VStr a) then 1 else 0) =
      dict_refs d a + (if v = VStr a then 1 else 0)"
proof (induction d)
  case (Cons p d)
  show ?case
  proof (cases "fst p = k")
    case True
    then have "k \<notin> fst ` set d" using Cons.prems by auto
    then have "map_of d k = None" by (simp add: map_of_eq_None_iff)
    then show ?thesis using True by (cases p) auto
  next
    case False
    then show ?thesis using Cons by (cases p) auto
  qed
qed simp

lemma dict_refs_pos: "map_of d k = Some (VStr a) \<Longrightarrow> dict_refs d a > 0"
  by (induction d) (auto split: if_splits)

lemma fields [simp]:
  "dict_of (s\<lparr>d_store := st\<rparr>) = dict_of s" "expires_of (s\<lparr>d_store := st\<rparr>) = expires_of s"
  "dict_of (s\<lparr>d_argv := as\<rparr>) = dict_of s" "expires_of (s\<lparr>d_argv := as\<rparr>) = expires_of s"
  "dict_of (s\<lparr>d_expired := n\<rparr>) = dict_of s" "expires_of (s\<lparr>d_expired := n\<rparr>) = expires_of s"
  "dict_of (s\<lparr>d_hits := n\<rparr>) = dict_of s" "expires_of (s\<lparr>d_hits := n\<rparr>) = expires_of s"
  "dict_of (s\<lparr>d_misses := n\<rparr>) = dict_of s" "expires_of (s\<lparr>d_misses := n\<rparr>) = expires_of s"
  "dict_of (s\<lparr>d_db := n\<rparr>) = dict_of s" "expires_of (s\<lparr>d_db := n\<rparr>) = expires_of s"
  "dict_of (s\<lparr>d_aof_feed := fd\<rparr>) = dict_of s" "expires_of (s\<lparr>d_aof_feed := fd\<rparr>) = expires_of s"
  "dict_of (s\<lparr>d_slave_feed := fd\<rparr>) = dict_of s" "expires_of (s\<lparr>d_slave_feed := fd\<rparr>) = expires_of s"
  "dict_of (s\<lparr>d_out := rs\<rparr>) = dict_of s" "expires_of (s\<lparr>d_out := rs\<rparr>) = expires_of s"
  "dict_of (s\<lparr>d_signals := sg\<rparr>) = dict_of s" "expires_of (s\<lparr>d_signals := sg\<rparr>) = expires_of s"
  "dict_of (s\<lparr>d_dirty := i\<rparr>) = dict_of s" "expires_of (s\<lparr>d_dirty := i\<rparr>) = expires_of s"
  "dict_of (set_dict db d s) = (dict_of s)(db := d)" "expires_of (set_dict db d s) = expires_of s"
  "dict_of (set_expires db e s) = dict_of s" "expires_of (set_expires db e s) = (expires_of s)(db := e)"
  "d_store (set_dict db d s) = d_store s" "d_store (set_expires db e s) = d_store s"
  "d_argv (set_dict db d s) = d_argv s" "d_argv (set_expires db e s) = d_argv s"
  "d_dbnum (set_dict db d s) = d_dbnum s" "d_dbnum (set_expires db e s) = d_dbnum s"
  "d_db (set_dict db d s) = d_db s" "d_db (set_expires db e s) = d_db s"
  by (auto simp: dict_of_def expires_of_def set_dict_def set_expires_def fun_eq_iff)

lemma refs_set_dict:
  assumes "db < d_dbnum s"
  shows "int (refs (set_dict db d s) a) = int (refs s a) - int (dict_refs (dict_of s db) a) + int (dict_refs d a)"
proof -
  have "(\<Sum>i < d_dbnum s. dict_refs (((dict_of s)(db := d)) i) a) + dict_refs (dict_of s db) a =
      (\<Sum>i < d_dbnum s. dict_refs (dict_of s i) a) + dict_refs d a"
    using assms by (simp add: sum.remove [of "{..<d_dbnum s}" db])
  then have "refs (set_dict db d s) a + dict_refs (dict_of s db) a = refs s a + dict_refs d a"
    by (simp add: refs_def shared_ref_def del: fun_upd_apply)
  then show ?thesis by linarith
qed

section \<open>What the key space holds\<close>

datatype aval = AStr "byte list" | AAgg otype nat

definition enc :: "dserver \<Rightarrow> nat \<Rightarrow> str_enc option" where
  "enc s a = map_option o_str (obj_at s a)"

definition strs :: "dserver \<Rightarrow> nat \<Rightarrow> byte list option" where
  "strs s a = map_option str_bytes (enc s a)"

definition val_at :: "dserver \<Rightarrow> dval \<Rightarrow> aval option" where
  "val_at s v = (case v of VStr a \<Rightarrow> map_option AStr (strs s a) | VAgg t i \<Rightarrow> Some (AAgg t i))"

definition look :: "dserver \<Rightarrow> nat \<times> key \<Rightarrow> aval option" where
  "look s p = Option.bind (map_of (dict_of s (fst p)) (snd p)) (val_at s)"

definition expi :: "dserver \<Rightarrow> nat \<times> key \<Rightarrow> int option" where
  "expi s p = map_of (expires_of s (fst p)) (snd p)"

text \<open>Changes of the store alone that keep the strings of the objects that stay.\<close>

definition store_step :: "dserver \<Rightarrow> dserver \<Rightarrow> bool" where
  "store_step s s' \<longleftrightarrow> s' = s\<lparr>d_store := d_store s'\<rparr> \<and>
     so_shared (d_store s') = so_shared (d_store s) \<and> so_maxmemory (d_store s') = so_maxmemory (d_store s) \<and>
     so_next (d_store s) \<le> so_next (d_store s') \<and>
     (\<forall>b < so_next (d_store s). obj_at s' b \<noteq> None \<longrightarrow> obj_at s b \<noteq> None \<and> enc s' b = enc s b)"

lemma store_step_refl [simp]: "store_step s s"
  by (simp add: store_step_def)

lemma store_step_trans: "store_step s s' \<Longrightarrow> store_step s' s'' \<Longrightarrow> store_step s s''"
proof -
  assume a: "store_step s s'" and b: "store_step s' s''"
  have "s'' = s'\<lparr>d_store := d_store s''\<rparr>" "s' = s\<lparr>d_store := d_store s'\<rparr>" using a b unfolding store_step_def by blast+
  then have "s'' = s\<lparr>d_store := d_store s''\<rparr>" by (metis dserver.update_convs(1) dserver.surjective)
  moreover have "obj_at s c \<noteq> None \<and> enc s'' c = enc s c" if "c < so_next (d_store s)" "obj_at s'' c \<noteq> None" for c
  proof -
    have "c < so_next (d_store s')" using a that(1) by (simp add: store_step_def)
    then show ?thesis using a b that by (simp add: store_step_def)
  qed
  ultimately show ?thesis using a b unfolding store_step_def by (intro conjI allI impI; simp)
qed

lemma store_step_fields:
  assumes "store_step s s'"
  shows "dict_of s' = dict_of s" "expires_of s' = expires_of s" "d_dbnum s' = d_dbnum s" "d_db s' = d_db s"
    "d_argv s' = d_argv s" "d_out s' = d_out s" "d_signals s' = d_signals s" "d_dirty s' = d_dirty s"
    "d_mstime s' = d_mstime s" "d_loading s' = d_loading s" "d_slave s' = d_slave s" "d_child s' = d_child s"
    "d_alloc s' = d_alloc s" "so_shared (d_store s') = so_shared (d_store s)"
    "so_maxmemory (d_store s') = so_maxmemory (d_store s)" "expi s' = expi s" "refs s' = refs s"
proof -
  obtain st where st: "s' = s\<lparr>d_store := st\<rparr>" "so_shared st = so_shared (d_store s)" "so_maxmemory st = so_maxmemory (d_store s)"
    using assms unfolding store_step_def by metis
  then show "dict_of s' = dict_of s" "expires_of s' = expires_of s" "d_dbnum s' = d_dbnum s" "d_db s' = d_db s"
    "d_argv s' = d_argv s" "d_out s' = d_out s" "d_signals s' = d_signals s" "d_dirty s' = d_dirty s"
    "d_mstime s' = d_mstime s" "d_loading s' = d_loading s" "d_slave s' = d_slave s" "d_child s' = d_child s"
    "d_alloc s' = d_alloc s" "so_shared (d_store s') = so_shared (d_store s)"
    "so_maxmemory (d_store s') = so_maxmemory (d_store s)" "expi s' = expi s" "refs s' = refs s"
    by (simp_all add: expi_def fun_eq_iff refs_def shared_ref_def)
qed

text \<open>Objects that are referenced exist.\<close>

lemma kv_exists: "kv_ok H s \<Longrightarrow> int (refs s a) + H a > 0 \<Longrightarrow> obj_at s a \<noteq> None"
  using rc_pos [of s a] by (simp add: kv_ok_def)

lemma kv_next: "kv_ok H s \<Longrightarrow> obj_at s a \<noteq> None \<Longrightarrow> a < so_next (d_store s)"
  unfolding kv_ok_def objs_ok_def by (meson not_le_imp_less)

lemma refs_dict: "map_of (dict_of s db) k = Some (VStr a) \<Longrightarrow> kv_ok H s \<Longrightarrow> 0 < refs s a"
proof -
  assume m: "map_of (dict_of s db) k = Some (VStr a)" and ok: "kv_ok H s"
  then have "db < d_dbnum s" unfolding kv_ok_def dbs_ok_def by (metis map_of.simps(1) not_le_imp_less option.distinct(1))
  moreover have "0 < dict_refs (dict_of s db) a" using m by (rule dict_refs_pos)
  ultimately have "0 < (\<Sum>db < d_dbnum s. dict_refs (dict_of s db) a)" by (simp add: sum_pos2)
  then show ?thesis by (simp add: refs_def)
qed

lemma refs_argv: "a \<in> set (d_argv s) \<Longrightarrow> 0 < refs s a"
  using count_list_0_iff [of "d_argv s" a] by (simp add: refs_def)

text \<open>A change of the store keeps what the dictionaries show when every referenced object is there before and after.\<close>

definition no_debt :: "(nat \<Rightarrow> int) \<Rightarrow> dserver \<Rightarrow> bool" where
  "no_debt H s \<longleftrightarrow> (\<forall>a. 0 < refs s a \<longrightarrow> 0 < int (refs s a) + H a)"

lemma no_debt_pos [simp]: "(\<forall>a. 0 \<le> H a) \<Longrightarrow> no_debt H s"
  unfolding no_debt_def by (meson add_pos_nonneg of_nat_0_less_iff)

lemma enc_step:
  assumes "kv_ok H s" "store_step s s'" "obj_at s' a \<noteq> None" "obj_at s a \<noteq> None"
  shows "enc s' a = enc s a"
  using assms kv_next unfolding store_step_def by blast

lemma look_step:
  assumes "kv_ok H s" "kv_ok H' s'" "store_step s s'" "no_debt H s" "no_debt H' s'"
  shows "look s' = look s"
proof
  fix p
  have d: "dict_of s' = dict_of s" "refs s' = refs s" using store_step_fields [OF assms(3)] by simp_all
  show "look s' p = look s p"
  proof (cases "map_of (dict_of s (fst p)) (snd p)")
    case (Some v)
    show ?thesis
    proof (cases v)
      case (VStr a)
      then have r: "0 < refs s a" using Some refs_dict [OF _ assms(1)] by simp
      then have "obj_at s a \<noteq> None" "obj_at s' a \<noteq> None"
        using kv_exists [OF assms(1), of a] kv_exists [OF assms(2), of a] assms(4,5) d by (simp_all add: no_debt_def)
      then show ?thesis using enc_step [OF assms(1,3)] Some VStr d by (simp add: look_def val_at_def strs_def)
    qed (use Some d in \<open>simp add: look_def val_at_def\<close>)
  qed (use d in \<open>simp add: look_def\<close>)
qed

lemma look_None: "kv_ok H s \<Longrightarrow> no_debt H s \<Longrightarrow> look s (db, k) = None \<longleftrightarrow> map_of (dict_of s db) k = None"
proof -
  assume ok: "kv_ok H s" "no_debt H s"
  have "val_at s v \<noteq> None" if "map_of (dict_of s db) k = Some v" for v
  proof (cases v)
    case (VStr a)
    then show ?thesis using kv_exists [OF ok(1), of a] ok(2) refs_dict [of s db k a H] ok(1) that
      by (auto simp: no_debt_def val_at_def strs_def enc_def)
  qed (simp add: val_at_def)
  then show ?thesis by (cases "map_of (dict_of s db) k") (auto simp: look_def)
qed

section \<open>Operations on objects\<close>

lemma obj_at_put [simp]: "obj_at (put_obj a ob s) = (obj_at s)(a \<mapsto> ob)"
  by (auto simp: obj_at_def put_obj_def set_obj_def)

lemma put_fields [simp]:
  "dict_of (put_obj a ob s) = dict_of s" "expires_of (put_obj a ob s) = expires_of s" "d_argv (put_obj a ob s) = d_argv s"
  "d_dbnum (put_obj a ob s) = d_dbnum s" "d_db (put_obj a ob s) = d_db s"
  "so_shared (d_store (put_obj a ob s)) = so_shared (d_store s)" "so_next (d_store (put_obj a ob s)) = so_next (d_store s)"
  "so_maxmemory (d_store (put_obj a ob s)) = so_maxmemory (d_store s)"
  by (simp_all add: put_obj_def set_obj_def)

lemma kv_put:
  assumes "kv_ok H s" "obj_at s a = Some ob" "1 \<le> o_refcount ob'"
    "o_str ob' = o_str ob \<or> shared_ref s a = 0 \<and> small (o_str ob')"
  shows "kv_ok (H(a := H a + o_refcount ob' - o_refcount ob)) (put_obj a ob' s)"
proof -
  have d: "dbs_ok (put_obj a ob' s)" using assms(1) by (simp add: kv_ok_def dbs_ok_def)
  have "\<exists>ob''. ((obj_at s)(a \<mapsto> ob')) (so_shared (d_store s) n) = Some ob'' \<and> o_str ob'' = ENC_INT (of_nat n)"
    if n: "n < REDIS_SHARED_INTEGERS" for n
  proof (cases "so_shared (d_store s) n = a")
    case True
    then have "shared_ref s a \<noteq> 0" using n by (auto simp: shared_ref_def)
    moreover obtain ob1 where "obj_at s (so_shared (d_store s) n) = Some ob1" "o_str ob1 = ENC_INT (of_nat n)"
      using assms(1) n unfolding kv_ok_def objs_ok_def by blast
    ultimately show ?thesis using True assms(2,4) by simp
  next
    case False
    then show ?thesis using assms(1) n by (simp add: kv_ok_def objs_ok_def)
  qed
  moreover have "a < so_next (d_store s)" using kv_next [OF assms(1)] assms(2) by simp
  moreover have "small (o_str ob')" using assms(1,2,4) by (auto simp: kv_ok_def objs_ok_def)
  ultimately have o: "objs_ok (put_obj a ob' s)"
    using assms(1,3) by (auto simp: kv_ok_def objs_ok_def)
  have "refs (put_obj a ob' s) = refs s" by (simp add: refs_def shared_ref_def fun_eq_iff)
  then have "rc (put_obj a ob' s) b = int (refs (put_obj a ob' s) b) + (H(a := H a + o_refcount ob' - o_refcount ob)) b" for b
    using assms(1,2) by (auto simp: kv_ok_def rc_def split: if_splits option.splits)
  then show ?thesis using d o by (simp add: kv_ok_def)
qed

lemma store_step_put: "obj_at s a = Some ob \<Longrightarrow> o_str ob' = o_str ob \<Longrightarrow> store_step s (put_obj a ob' s)"
  by (simp add: store_step_def enc_def) (simp add: put_obj_def set_obj_def)

lemma incr_ref_ok:
  assumes "kv_ok H s" "obj_at s a \<noteq> None"
  shows "\<exists>s'. incr_ref a s = Some s' \<and> kv_ok (H(a := H a + 1)) s' \<and> store_step s s' \<and> (\<forall>b. obj_at s' b \<noteq> None \<longleftrightarrow> obj_at s b \<noteq> None)"
proof -
  obtain ob where ob: "obj_at s a = Some ob" using assms(2) by auto
  have "incr_ref a s = Some (put_obj a (ob\<lparr>o_refcount := o_refcount ob + 1\<rparr>) s)"
    using ob by (simp add: incr_ref_def incrRefCount_def obj_at_def put_obj_def)
  moreover have "1 \<le> o_refcount ob" using assms(1) ob by (auto simp: kv_ok_def objs_ok_def)
  ultimately show ?thesis
    using kv_put [OF assms(1) ob, of "ob\<lparr>o_refcount := o_refcount ob + 1\<rparr>"] store_step_put [OF ob, of "ob\<lparr>o_refcount := o_refcount ob + 1\<rparr>"] ob
    by simp
qed

definition vref :: "dval \<Rightarrow> nat \<Rightarrow> int" where
  "vref v a = (if v = VStr a then 1 else 0)"

definition ovref :: "dval option \<Rightarrow> nat \<Rightarrow> int" where
  "ovref v a = (if v = Some (VStr a) then 1 else 0)"

lemma vref_simps [simp]:
  "vref (VAgg t i) = zero" "vref (VStr a) b = (if a = b then 1 else 0)" "ovref None = zero" "ovref (Some v) = vref v"
  by (auto simp: vref_def ovref_def fun_eq_iff)

lemma vref_nonneg [simp]: "0 \<le> vref v a" "0 \<le> ovref w a"
  by (simp_all add: vref_def ovref_def)

lemma kv_cong: "kv_ok H s \<Longrightarrow> (\<And>a. H a = H' a) \<Longrightarrow> kv_ok H' s"
  by (simp add: kv_ok_def)

lemma shared_le_refs: "shared_ref s a \<le> refs s a"
  by (simp add: refs_def)

lemma decr_ref_ok:
  assumes ok: "kv_ok H s" and free: "int (shared_ref s a) < int (refs s a) + H a"
  shows "\<exists>s'. decr_ref a s = Some s' \<and> kv_ok (H(a := H a - 1)) s' \<and> store_step s s'"
proof -
  have "0 < int (refs s a) + H a" using free by linarith
  then obtain ob where ob: "obj_at s a = Some ob" using kv_exists [OF ok] by blast
  have rc: "o_refcount ob = int (refs s a) + H a" using ok ob by (auto simp: kv_ok_def rc_def split: option.splits)
  show ?thesis
  proof (cases "o_refcount ob = 1")
    case False
    then have "1 < o_refcount ob" using rc free by linarith
    then have "decr_ref a s = Some (put_obj a (ob\<lparr>o_refcount := o_refcount ob - 1\<rparr>) s)"
      using ob by (simp add: decr_ref_def decrRefCount_def obj_at_def put_obj_def)
    then show ?thesis
      using kv_put [OF ok ob, of "ob\<lparr>o_refcount := o_refcount ob - 1\<rparr>"] \<open>1 < o_refcount ob\<close>
        store_step_put [OF ob, of "ob\<lparr>o_refcount := o_refcount ob - 1\<rparr>"]
      by simp
  next
    case True
    define s' where "s' = s\<lparr>d_store := (d_store s)\<lparr>so_objs := (so_objs (d_store s))(a := None)\<rparr>\<rparr>"
    have d: "decr_ref a s = Some s'"
      using ob True by (simp add: decr_ref_def decrRefCount_def obj_at_def s'_def)
    have at: "obj_at s' = (obj_at s)(a := None)" by (auto simp: obj_at_def s'_def)
    have st: "so_shared (d_store s') = so_shared (d_store s)" "so_next (d_store s') = so_next (d_store s)"
      by (simp_all add: s'_def)
    have r: "refs s' = refs s" by (simp add: refs_def shared_ref_def fun_eq_iff s'_def)
    have ns: "shared_ref s a = 0" using True rc free by linarith
    then have "so_shared (d_store s) n \<noteq> a" if "n < REDIS_SHARED_INTEGERS" for n
      using that by (auto simp: shared_ref_def split: if_splits)
    then have "objs_ok s'" using ok unfolding kv_ok_def objs_ok_def at st by (simp add: fun_upd_def)
    moreover have "dbs_ok s'" using ok by (simp add: kv_ok_def dbs_ok_def s'_def)
    moreover have "rc s' b = int (refs s' b) + (H(a := H a - 1)) b" for b
      using ok rc True by (auto simp: kv_ok_def rc_def at r)
    ultimately have "kv_ok (H(a := H a - 1)) s'" by (simp add: kv_ok_def)
    moreover have "store_step s s'" by (simp add: store_step_def enc_def at st) (simp add: s'_def)
    ultimately show ?thesis using d by blast
  qed
qed

lemma incr_val_ok:
  assumes "kv_ok H s" "\<And>a. v = VStr a \<Longrightarrow> obj_at s a \<noteq> None"
  shows "\<exists>s'. incr_val v s = Some s' \<and> kv_ok (\<lambda>a. H a + vref v a) s' \<and> store_step s s' \<and> (\<forall>b. obj_at s' b \<noteq> None \<longleftrightarrow> obj_at s b \<noteq> None)"
proof (cases v)
  case (VStr a)
  from incr_ref_ok [OF assms(1) assms(2) [OF VStr]] obtain s'
    where "incr_ref a s = Some s'" "kv_ok (H(a := H a + 1)) s'" "store_step s s'" "\<forall>b. obj_at s' b \<noteq> None \<longleftrightarrow> obj_at s b \<noteq> None" by blast
  moreover from this(2) have "kv_ok (\<lambda>b. H b + vref v b) s'" by (rule kv_cong) (simp add: VStr)
  ultimately show ?thesis using VStr by (simp add: incr_val_def)
qed (use assms in \<open>simp add: incr_val_def\<close>)

lemma free_val_ok:
  assumes "kv_ok H s" "\<And>a. v = VStr a \<Longrightarrow> int (shared_ref s a) < int (refs s a) + H a"
  shows "\<exists>s'. free_val v s = Some s' \<and> kv_ok (\<lambda>a. H a - vref v a) s' \<and> store_step s s'"
proof (cases v)
  case (VStr a)
  from decr_ref_ok [OF assms(1) assms(2) [OF VStr]] obtain s'
    where "decr_ref a s = Some s'" "kv_ok (H(a := H a - 1)) s'" "store_step s s'" by blast
  moreover from this(2) have "kv_ok (\<lambda>b. H b - vref v b) s'" by (rule kv_cong) (simp add: VStr)
  ultimately show ?thesis using VStr by (simp add: free_val_def)
qed (use assms in \<open>simp add: free_val_def\<close>)

lemma new_obj_ok:
  assumes ok: "kv_ok H s" and pos: "\<And>a. 0 \<le> H a" and small: "small v"
  shows "\<exists>a s'. new_obj v s = (a, s') \<and> kv_ok (H(a := H a + 1)) s' \<and> store_step s s' \<and> obj_at s a = None \<and> refs s a = 0 \<and> H a = 0 \<and>
    obj_at s' a = Some \<lparr>o_str = v, o_refcount = 1, o_lru = so_lruclock (d_store s)\<rparr> \<and> (\<forall>b. b \<noteq> a \<longrightarrow> obj_at s' b = obj_at s b)"
proof -
  define a where "a = so_next (d_store s)"
  define ob where "ob = \<lparr>o_str = v, o_refcount = 1, o_lru = so_lruclock (d_store s)\<rparr>"
  define st where "st = (d_store s)\<lparr>so_objs := (so_objs (d_store s))(a \<mapsto> ob), so_next := Suc a\<rparr>"
  define s' where "s' = s\<lparr>d_store := st\<rparr>"
  have n: "new_obj v s = (a, s')"
    by (simp add: s'_def st_def ob_def new_obj_def createObject_def a_def Let_def)
  have at: "obj_at s' = (obj_at s)(a \<mapsto> ob)" by (auto simp: obj_at_def s'_def st_def)
  have f: "obj_at s a = None" using ok by (simp add: a_def kv_ok_def objs_ok_def)
  then have "rc s a = 0" by (simp add: rc_def)
  then have "int (refs s a) + H a = 0" using ok by (simp add: kv_ok_def)
  then have z: "refs s a = 0" "H a = 0" using pos [of a] by linarith+
  have st: "so_shared (d_store s') = so_shared (d_store s)" "so_next (d_store s') = Suc a" by (simp_all add: s'_def st_def)
  have r: "refs s' = refs s" by (simp add: refs_def shared_ref_def fun_eq_iff s'_def st_def)
  have ns: "so_shared (d_store s) n \<noteq> a" if n: "n < REDIS_SHARED_INTEGERS" for n
    using ok f n unfolding kv_ok_def objs_ok_def by (metis option.distinct(1))
  have "objs_ok s'" using ok ns small unfolding kv_ok_def objs_ok_def at st by (simp add: ob_def a_def)
  moreover have "dbs_ok s'" using ok by (simp add: kv_ok_def dbs_ok_def s'_def)
  moreover have "rc s' b = int (refs s' b) + (H(a := H a + 1)) b" for b
    using ok z by (auto simp: kv_ok_def rc_def at r ob_def)
  ultimately have "kv_ok (H(a := H a + 1)) s'" by (simp add: kv_ok_def)
  moreover have "store_step s s'" unfolding store_step_def enc_def at by (auto simp: s'_def st_def a_def)
  ultimately show ?thesis using n f z at by (auto simp: ob_def)
qed

lemma kv_set_dict:
  assumes ok: "kv_ok H s" and d: "db < d_dbnum s" "distinct (map fst d)" "fst ` set (expires_of s db) \<subseteq> fst ` set d"
    "\<forall>k \<in> fst ` set d. length k \<le> 2 ^ 29"
  shows "kv_ok (\<lambda>a. H a + int (dict_refs (dict_of s db) a) - int (dict_refs d a)) (set_dict db d s)"
proof -
  have "dbs_ok (set_dict db d s)" using ok d by (auto simp: kv_ok_def dbs_ok_def)
  moreover have at: "obj_at (set_dict db d s) = obj_at s" by (simp add: obj_at_def fun_eq_iff)
  moreover have "objs_ok (set_dict db d s)" using ok unfolding kv_ok_def objs_ok_def at by simp
  moreover have "rc (set_dict db d s) = rc s" by (simp add: rc_def fun_eq_iff at)
  ultimately show ?thesis using ok refs_set_dict [OF d(1)] by (simp add: kv_ok_def)
qed

lemma kv_set_expires:
  assumes ok: "kv_ok H s" and d: "distinct (map fst e)" "fst ` set e \<subseteq> fst ` set (dict_of s db)"
  shows "kv_ok H (set_expires db e s)"
proof -
  have "dbs_ok (set_expires db e s)" using ok d by (auto simp: kv_ok_def dbs_ok_def)
  moreover have at: "obj_at (set_expires db e s) = obj_at s" by (simp add: obj_at_def fun_eq_iff)
  moreover have "objs_ok (set_expires db e s)" using ok unfolding kv_ok_def objs_ok_def at by simp
  moreover have "rc (set_expires db e s) = rc s" "refs (set_expires db e s) = refs s"
    by (simp_all add: rc_def fun_eq_iff at refs_def shared_ref_def)
  ultimately show ?thesis using ok by (simp add: kv_ok_def)
qed

section \<open>Operations on the dictionaries\<close>

lemma obj_at_fields [simp]:
  "obj_at (set_dict db d s) = obj_at s" "obj_at (set_expires db e s) = obj_at s"
  "obj_at (s\<lparr>d_expired := n\<rparr>) = obj_at s" "obj_at (s\<lparr>d_hits := n\<rparr>) = obj_at s" "obj_at (s\<lparr>d_misses := n\<rparr>) = obj_at s"
  "obj_at (s\<lparr>d_aof_feed := fd\<rparr>) = obj_at s" "obj_at (s\<lparr>d_slave_feed := fd\<rparr>) = obj_at s"
  "obj_at (s\<lparr>d_out := rs\<rparr>) = obj_at s" "obj_at (s\<lparr>d_signals := sg\<rparr>) = obj_at s" "obj_at (s\<lparr>d_dirty := i\<rparr>) = obj_at s"
  "obj_at (s\<lparr>d_argv := as\<rparr>) = obj_at s" "obj_at (s\<lparr>d_db := n\<rparr>) = obj_at s"
  by (simp_all add: obj_at_def fun_eq_iff)

lemma val_at_cong: "obj_at s' = obj_at s \<Longrightarrow> val_at s' = val_at s"
  by (intro ext) (simp add: val_at_def strs_def enc_def split: dval.split)

lemma look_set_dict:
  "look (set_dict db (AList.update k v (dict_of s db)) s) = (look s)((db, k) := val_at s v)"
  "look (set_dict db (AList.delete k (dict_of s db)) s) = (look s)((db, k) := None)"
  "look (set_expires db e s) = look s"
  "expi (set_dict db d s) = expi s"
  "expi (set_expires db (AList.update k w (expires_of s db)) s) = (expi s)((db, k) := Some w)"
  "expi (set_expires db (AList.delete k (expires_of s db)) s) = (expi s)((db, k) := None)"
  by (auto simp: look_def expi_def fun_eq_iff update_conv AList.delete_conv' restrict_map_def
      cong: val_at_cong intro!: arg_cong2 [where f = Option.bind] val_at_cong)

lemma kv_update:
  assumes "kv_ok H s" "db < d_dbnum s" and small: "length k \<le> 2 ^ 29"
  shows "kv_ok (\<lambda>a. H a + ovref (map_of (dict_of s db) k) a - vref v a) (set_dict db (AList.update k v (dict_of s db)) s)"
proof -
  have d: "distinct (map fst (dict_of s db))" "fst ` set (expires_of s db) \<subseteq> fst ` set (dict_of s db)"
    using assms(1) by (auto simp: kv_ok_def dbs_ok_def)
  have "int (dict_refs (AList.update k v (dict_of s db)) a) + ovref (map_of (dict_of s db) k) a = int (dict_refs (dict_of s db) a) + vref v a" for a
    using dict_refs_update [OF d(1), of k v a] by (simp add: ovref_def vref_def split: if_splits)
  note r = this
  show ?thesis
  proof (rule kv_cong [OF kv_set_dict [OF assms(1,2), of "AList.update k v (dict_of s db)"]])
    show "distinct (map fst (AList.update k v (dict_of s db)))" using d(1) by (rule distinct_update)
    show "fst ` set (expires_of s db) \<subseteq> fst ` set (AList.update k v (dict_of s db))"
      using d(2) by (auto simp: dom_update)
    show "\<forall>k \<in> fst ` set (AList.update k v (dict_of s db)). length k \<le> 2 ^ 29"
      using assms(1) small by (auto simp: dom_update kv_ok_def dbs_ok_def)
    show "H a + int (dict_refs (dict_of s db) a) - int (dict_refs (AList.update k v (dict_of s db)) a) =
        H a + ovref (map_of (dict_of s db) k) a - vref v a" for a
      using r [of a] by linarith
  qed
qed

lemma keys_delete: "fst ` set (AList.delete k d) = fst ` set d - {k}"
  using arg_cong [OF AList.delete_keys, of set k d] by simp

lemma kv_delete:
  assumes "kv_ok H s" "db < d_dbnum s" "k \<notin> fst ` set (expires_of s db)"
  shows "kv_ok (\<lambda>a. H a + ovref (map_of (dict_of s db) k) a) (set_dict db (AList.delete k (dict_of s db)) s)"
proof -
  have d: "distinct (map fst (dict_of s db))" "fst ` set (expires_of s db) \<subseteq> fst ` set (dict_of s db)"
    using assms(1) by (auto simp: kv_ok_def dbs_ok_def)
  show ?thesis
  proof (rule kv_cong [OF kv_set_dict [OF assms(1,2), of "AList.delete k (dict_of s db)"]])
    show "distinct (map fst (AList.delete k (dict_of s db)))" using d(1) by (rule distinct_delete)
    show "fst ` set (expires_of s db) \<subseteq> fst ` set (AList.delete k (dict_of s db))"
      using d(2) assms(3) unfolding keys_delete by blast
    show "\<forall>k \<in> fst ` set (AList.delete k (dict_of s db)). length k \<le> 2 ^ 29"
      using assms(1) unfolding keys_delete kv_ok_def dbs_ok_def by blast
    show "H a + int (dict_refs (dict_of s db) a) - int (dict_refs (AList.delete k (dict_of s db)) a) =
        H a + ovref (map_of (dict_of s db) k) a" for a
      using dict_refs_delete [OF d(1), of a k] by (simp add: ovref_def split: if_splits)
  qed
qed

lemma kv_delete_expire:
  assumes "kv_ok H s"
  shows "kv_ok H (set_expires db (AList.delete k (expires_of s db)) s)"
proof (rule kv_set_expires [OF assms])
  have d: "distinct (map fst (expires_of s db))" "fst ` set (expires_of s db) \<subseteq> fst ` set (dict_of s db)"
    using assms by (auto simp: kv_ok_def dbs_ok_def)
  show "distinct (map fst (AList.delete k (expires_of s db)))" using d(1) by (rule distinct_delete)
  show "fst ` set (AList.delete k (expires_of s db)) \<subseteq> fst ` set (dict_of s db)" using d(2) by (auto simp: AList.delete_eq)
qed

lemma kv_update_expire:
  assumes "kv_ok H s" "map_of (dict_of s db) k \<noteq> None"
  shows "kv_ok H (set_expires db (AList.update k w (expires_of s db)) s)"
proof (rule kv_set_expires [OF assms(1)])
  have d: "distinct (map fst (expires_of s db))" "fst ` set (expires_of s db) \<subseteq> fst ` set (dict_of s db)"
    using assms by (auto simp: kv_ok_def dbs_ok_def)
  show "distinct (map fst (AList.update k w (expires_of s db)))" using d(1) by (rule distinct_update)
  show "fst ` set (AList.update k w (expires_of s db)) \<subseteq> fst ` set (dict_of s db)"
    using d(2) assms(2) by (auto simp: dom_update map_of_eq_None_iff)
qed

text \<open>
  Changes of the databases, the objects and the statistics; objects that were there and still are keep their
  strings.  What the client sees of it is stated by \<open>look\<close> and \<open>expi\<close>.
\<close>

definition rest :: "dserver \<Rightarrow> _" where
  "rest s = (d_dbnum s, d_db s, d_argv s, d_out s, d_signals s, d_dirty s, d_mstime s, d_loading s, d_slave s,
     d_child s, d_alloc s, d_aof_on s, d_has_slaves s, so_shared (d_store s), so_maxmemory (d_store s))"

definition kv_step :: "dserver \<Rightarrow> dserver \<Rightarrow> bool" where
  "kv_step s s' \<longleftrightarrow> rest s' = rest s \<and> so_next (d_store s) \<le> so_next (d_store s') \<and>
     (\<forall>b < so_next (d_store s). obj_at s' b \<noteq> None \<longrightarrow> obj_at s b \<noteq> None \<and> enc s' b = enc s b)"

lemma kv_step_refl [simp]: "kv_step s s"
  by (simp add: kv_step_def)

lemma kv_step_fields:
  assumes "kv_step s s'"
  shows "d_dbnum s' = d_dbnum s" "d_db s' = d_db s"
    "d_argv s' = d_argv s" "d_out s' = d_out s" "d_signals s' = d_signals s" "d_dirty s' = d_dirty s"
    "d_mstime s' = d_mstime s" "d_loading s' = d_loading s" "d_slave s' = d_slave s" "d_child s' = d_child s"
    "d_alloc s' = d_alloc s" "so_shared (d_store s') = so_shared (d_store s)"
    "so_maxmemory (d_store s') = so_maxmemory (d_store s)" "shared_ref s' = shared_ref s"
    "d_aof_on s' = d_aof_on s" "d_has_slaves s' = d_has_slaves s"
  using assms by (simp_all add: kv_step_def rest_def shared_ref_def fun_eq_iff)

lemma kv_step_trans: "kv_step s s' \<Longrightarrow> kv_step s' s'' \<Longrightarrow> kv_step s s''"
proof -
  assume a: "kv_step s s'" and b: "kv_step s' s''"
  have "obj_at s c \<noteq> None \<and> enc s'' c = enc s c" if "c < so_next (d_store s)" "obj_at s'' c \<noteq> None" for c
  proof -
    have "c < so_next (d_store s')" using a that(1) unfolding kv_step_def by linarith
    then show ?thesis using a b that unfolding kv_step_def by simp
  qed
  then show ?thesis using a b by (simp add: kv_step_def)
qed

lemma store_kv_step: "store_step s s' \<Longrightarrow> kv_step s s'"
proof -
  assume a: "store_step s s'"
  then obtain st where "s' = s\<lparr>d_store := st\<rparr>" unfolding store_step_def by blast
  then have "rest s' = rest s" using store_step_fields(14,15) [OF a] by (simp add: rest_def)
  then show ?thesis using a unfolding kv_step_def store_step_def by blast
qed

lemma kv_step_simps [simp]:
  "kv_step s (set_dict db d s)" "kv_step s (set_expires db e s)"
  "kv_step s (s\<lparr>d_expired := n\<rparr>)" "kv_step s (s\<lparr>d_hits := n\<rparr>)" "kv_step s (s\<lparr>d_misses := n\<rparr>)"
  "kv_step s (s\<lparr>d_aof_feed := fd\<rparr>)" "kv_step s (s\<lparr>d_slave_feed := fd\<rparr>)"
  unfolding kv_step_def by (simp_all add: enc_def rest_def) (simp_all add: set_dict_def set_expires_def)

section \<open>Looking keys up\<close>

text \<open>
  A key is dead when its time has passed on a server that expires keys: not while it loads, and not as a
  slave.  A negative time is no expire time to the code.  The live contents are what clients see.
\<close>

definition dead :: "dserver \<Rightarrow> int option \<Rightarrow> bool" where
  "dead s w \<longleftrightarrow> \<not> d_loading s \<and> \<not> d_slave s \<and> (case w of None \<Rightarrow> False | Some t \<Rightarrow> 0 \<le> t \<and> t < d_mstime s)"

definition live :: "dserver \<Rightarrow> nat \<times> key \<Rightarrow> (aval \<times> int option) option" where
  "live s p = (if dead s (expi s p) then None else map_option (\<lambda>v. (v, expi s p)) (look s p))"

lemma dead_None [simp]: "\<not> dead s None"
  by (simp add: dead_def)

lemma dead_step: "kv_step s s' \<Longrightarrow> dead s' = dead s"
  using kv_step_fields(7-9) [of s s'] by (intro ext) (simp only: dead_def)

lemma look_cong: "obj_at s' = obj_at s \<Longrightarrow> dict_of s' = dict_of s \<Longrightarrow> look s' = look s"
  using val_at_cong [of s' s] by (intro ext) (simp add: look_def)

text \<open>What a change at one key does to the live contents.\<close>

lemma live_upd:
  assumes "kv_step s s'" "look s' = (look s)(p := x)" "expi s' = (expi s)(p := w)"
  shows "live s' = (live s)(p := if dead s w then None else map_option (\<lambda>v. (v, w)) x)"
  using assms(2,3) dead_step [OF assms(1)] by (auto simp: live_def fun_eq_iff)

lemma live_same: "kv_step s s' \<Longrightarrow> look s' = look s \<Longrightarrow> expi s' = expi s \<Longrightarrow> live s' = live s"
  using dead_step [of s s'] by (auto simp: live_def fun_eq_iff)

lemma obj_in_dict: "kv_ok H s \<Longrightarrow> (\<And>a. 0 \<le> H a) \<Longrightarrow> map_of (dict_of s db) k = Some (VStr a) \<Longrightarrow> obj_at s a \<noteq> None"
  using refs_dict [of s db k a H] kv_exists [of H s a] by (metis add_pos_nonneg of_nat_0_less_iff)

lemma kv_dbnum: "kv_ok H s \<Longrightarrow> map_of (dict_of s db) k \<noteq> None \<Longrightarrow> db < d_dbnum s"
  unfolding kv_ok_def dbs_ok_def by (metis map_of.simps(1) not_le_imp_less)

lemma expi_dict: "kv_ok H s \<Longrightarrow> map_of (expires_of s db) k \<noteq> None \<Longrightarrow> map_of (dict_of s db) k \<noteq> None"
  unfolding kv_ok_def dbs_ok_def map_of_eq_None_iff by blast

lemma dbDelete_ok:
  assumes ok: "kv_ok H s" and pos: "\<And>a. 0 \<le> H a"
  shows "\<exists>s'. dbDelete db k s = Some (map_of (dict_of s db) k \<noteq> None, s') \<and> kv_ok H s' \<and> kv_step s s' \<and>
    look s' = (look s)((db, k) := None) \<and> expi s' = (expi s)((db, k) := None)"
proof -
  define t where "t = (if expires_of s db \<noteq> [] then set_expires db (AList.delete k (expires_of s db)) s else s)"
  have t: "kv_ok H t" "kv_step s t" "dict_of t = dict_of s" "look t = look s" "expi t = (expi s)((db, k) := None)"
    "k \<notin> fst ` set (expires_of t db)"
  proof -
    show "kv_ok H t" using ok kv_delete_expire [OF ok] by (simp add: t_def)
    show "kv_step s t" "dict_of t = dict_of s" "look t = look s" by (simp_all add: t_def look_set_dict)
    show "expi t = (expi s)((db, k) := None)" by (auto simp: t_def look_set_dict) (auto simp: expi_def fun_eq_iff)
    show "k \<notin> fst ` set (expires_of t db)" by (simp add: t_def keys_delete)
  qed
  show ?thesis
  proof (cases "map_of (dict_of s db) k")
    case None
    then have "look t = (look s)((db, k) := None)" using t(4) by (auto simp: look_def fun_eq_iff)
    then show ?thesis using None t by (auto simp: dbDelete_def t_def [symmetric])
  next
    case (Some v)
    define u where "u = set_dict db (AList.delete k (dict_of t db)) t"
    have u: "kv_ok (\<lambda>a. H a + vref v a) u"
      unfolding u_def using kv_delete [OF t(1) _ t(6)] kv_dbnum [OF t(1), of db k] Some t(3) by simp
    have "int (shared_ref u a) < int (refs u a) + (H a + vref v a)" if "v = VStr a" for a
      using shared_le_refs [of u a] pos [of a] that by simp
    from free_val_ok [OF u this] obtain s' where s': "free_val v u = Some s'"
      "kv_ok (\<lambda>a. H a + vref v a - vref v a) s'" "store_step u s'" by blast
    have H: "kv_ok H s'" using s'(2) by simp
    have l: "look u = (look s)((db, k) := None)" "expi u = (expi s)((db, k) := None)"
      unfolding u_def look_set_dict t(4,5) by (rule refl)+
    have "look s' = look u" by (rule look_step [OF u H s'(3)]) (use pos in \<open>simp_all\<close>)
    moreover have "expi s' = expi u" using store_step_fields [OF s'(3)] by simp
    moreover have "kv_step s s'"
      using t(2) store_kv_step [OF s'(3)] kv_step_trans [of s u s'] kv_step_trans [of s t u] by (simp add: u_def)
    moreover have "dbDelete db k s = Some (True, s')"
      using s'(1) Some unfolding dbDelete_def Let_def t_def [symmetric] u_def t(3) by simp
    ultimately show ?thesis using Some l H by simp
  qed
qed

lemma getExpire_ok:
  assumes "kv_ok H s"
  shows "getExpire db k s = Some (case expi s (db, k) of None \<Rightarrow> - 1 | Some w \<Rightarrow> w)"
  using expi_dict [OF assms, of db k] by (auto simp: getExpire_def expi_def split: option.splits)

lemma expireIfNeeded_ok:
  assumes ok: "kv_ok H s" and pos: "\<And>a. 0 \<le> H a"
  shows "\<exists>b s'. expireIfNeeded db k s = Some (b, s') \<and> kv_ok H s' \<and> kv_step s s' \<and> (\<not> d_slave s \<longrightarrow> b = dead s (expi s (db, k))) \<and>
    (if dead s (expi s (db, k)) then look s' = (look s)((db, k) := None) \<and> expi s' = (expi s)((db, k) := None)
     else s' = s)"
proof (cases "dead s (expi s (db, k))")
  case False
  then show ?thesis using getExpire_ok [OF ok, of db k] ok
    by (auto simp: expireIfNeeded_def dead_def split: option.splits)
next
  case True
  then obtain w where w: "expi s (db, k) = Some w" "0 \<le> w" "w < d_mstime s" "\<not> d_loading s" "\<not> d_slave s"
    by (auto simp: dead_def split: option.splits)
  define t where "t = propagateExpire db k (s\<lparr>d_expired := d_expired s + 1\<rparr>)"
  have t: "obj_at t = obj_at s" "dict_of t = dict_of s" "expires_of t = expires_of s" "rest t = rest s" "refs t = refs s" "d_store t = d_store s"
    by (simp_all add: t_def propagateExpire_def rest_def refs_def shared_ref_def fun_eq_iff Let_def)
  have tok: "kv_ok H t" using ok t unfolding kv_ok_def dbs_ok_def objs_ok_def rc_def by (simp add: rest_def)
  have st: "kv_step s t" using t by (simp add: kv_step_def enc_def)
  from dbDelete_ok [OF tok pos, of db k] obtain s' where s': "dbDelete db k t = Some (map_of (dict_of t db) k \<noteq> None, s')" "kv_ok H s'"
    "kv_step t s'" "look s' = (look t)((db, k) := None)" "expi s' = (expi t)((db, k) := None)" by blast
  have "look t = look s" by (rule look_cong [OF t(1,2)])
  moreover have "expi t = expi s" using t(3) by (simp add: expi_def fun_eq_iff)
  moreover have "map_of (dict_of t db) k \<noteq> None" using expi_dict [OF ok, of db k] w(1) t(2) by (simp add: expi_def)
  moreover have "expireIfNeeded db k s = dbDelete db k t"
    using getExpire_ok [OF ok, of db k] w by (simp add: expireIfNeeded_def t_def)
  ultimately show ?thesis using s' True kv_step_trans [OF st s'(3)] by (intro exI [of _ True] exI [of _ s']) simp
qed

lemma touch_lru_ok:
  assumes ok: "kv_ok H s" and "\<And>a. v = VStr a \<Longrightarrow> obj_at s a \<noteq> None"
  shows "\<exists>s'. touch_lru v s = Some s' \<and> kv_ok H s' \<and> store_step s s' \<and> (\<forall>b. enc s' b = enc s b) \<and> (\<forall>b. rc s' b = rc s b)"
proof (cases "d_child s")
  case False
  show ?thesis
  proof (cases v)
    case (VStr a)
    then obtain ob where ob: "obj_at s a = Some ob" using assms(2) by blast
    then have "1 \<le> o_refcount ob" using ok by (auto simp: kv_ok_def objs_ok_def)
    then have "kv_ok (H(a := H a)) (put_obj a (ob\<lparr>o_lru := so_lruclock (d_store s)\<rparr>) s)"
      using kv_put [OF ok ob, of "ob\<lparr>o_lru := so_lruclock (d_store s)\<rparr>"] by simp
    then show ?thesis using False VStr ob store_step_put [OF ob, of "ob\<lparr>o_lru := so_lruclock (d_store s)\<rparr>"]
      by (auto simp: touch_lru_def enc_def rc_def)
  qed (use ok False in \<open>simp add: touch_lru_def\<close>)
qed (use ok in \<open>simp add: touch_lru_def\<close>)

lemma lookupKey_ok:
  assumes ok: "kv_ok H s" and pos: "\<And>a. 0 \<le> H a"
  shows "\<exists>s'. lookupKey db k s = Some (map_of (dict_of s db) k, s') \<and> kv_ok H s' \<and> store_step s s' \<and>
    look s' = look s \<and> (\<forall>b. enc s' b = enc s b) \<and> (\<forall>b. rc s' b = rc s b)"
proof (cases "map_of (dict_of s db) k")
  case (Some v)
  have "obj_at s a \<noteq> None" if "v = VStr a" for a using obj_in_dict [OF ok pos] Some that by simp
  from touch_lru_ok [OF ok this] obtain s' where s': "touch_lru v s = Some s'" "kv_ok H s'" "store_step s s'"
    "\<forall>b. enc s' b = enc s b" "\<forall>b. rc s' b = rc s b" by blast
  then show ?thesis using Some look_step [OF ok s'(2,3)] pos by (simp add: lookupKey_def)
qed (use ok in \<open>simp add: lookupKey_def\<close>)

text \<open>
  A lookup leaves the live contents, and what it returns is the live value: afterwards the dictionary itself
  shows it.
\<close>

definition found :: "nat \<Rightarrow> key \<Rightarrow> dval option \<Rightarrow> dserver \<Rightarrow> bool" where
  "found db k v s \<longleftrightarrow> map_of (dict_of s db) k = v \<and> \<not> dead s (expi s (db, k))"

lemma lookupKeyWrite_ok:
  assumes ok: "kv_ok H s" and pos: "\<And>a. 0 \<le> H a"
  shows "\<exists>v s'. lookupKeyWrite db k s = Some (v, s') \<and> kv_ok H s' \<and> kv_step s s' \<and> live s' = live s \<and> found db k v s'"
proof -
  from expireIfNeeded_ok [OF ok pos, of db k] obtain b t where t: "expireIfNeeded db k s = Some (b, t)" "kv_ok H t" "kv_step s t"
    "if dead s (expi s (db, k)) then look t = (look s)((db, k) := None) \<and> expi t = (expi s)((db, k) := None) else t = s"
    by blast
  from lookupKey_ok [OF t(2) pos, of db k] obtain s' where s': "lookupKey db k t = Some (map_of (dict_of t db) k, s')" "kv_ok H s'"
    "store_step t s'" "look s' = look t" by blast
  note f = store_step_fields [OF s'(3)]
  have st: "kv_step s s'" using kv_step_trans [OF t(3) store_kv_step [OF s'(3)]] .
  have "live t = live s"
  proof (cases "dead s (expi s (db, k))")
    case True
    then show ?thesis using t(4) live_upd [OF t(3), of "(db, k)" None None] by (auto simp: live_def fun_eq_iff)
  qed (use t(4) in simp)
  moreover have "live s' = live t" by (rule live_same [OF store_kv_step [OF s'(3)] s'(4)]) (simp add: f)
  moreover have "\<not> dead s' (expi s' (db, k))"
    using t(4) dead_step [OF st] f by (cases "dead s (expi s (db, k))") simp_all
  ultimately show ?thesis using t(1) s'(1,2) st f by (auto simp: lookupKeyWrite_def found_def)
qed

lemma lookupKeyRead_ok:
  assumes ok: "kv_ok H s" and pos: "\<And>a. 0 \<le> H a"
  shows "\<exists>v s'. lookupKeyRead db k s = Some (v, s') \<and> kv_ok H s' \<and> kv_step s s' \<and> live s' = live s \<and> found db k v s'"
proof -
  from lookupKeyWrite_ok [OF ok pos, of db k] obtain v t where t: "lookupKeyWrite db k s = Some (v, t)" "kv_ok H t" "kv_step s t"
    "live t = live s" "found db k v t" by blast
  define s' where "s' = (if v = None then t\<lparr>d_misses := d_misses t + 1\<rparr> else t\<lparr>d_hits := d_hits t + 1\<rparr>)"
  have f: "obj_at s' = obj_at t" "dict_of s' = dict_of t" "expires_of s' = expires_of t" "rest s' = rest t" "refs s' = refs t" "d_store s' = d_store t"
    by (simp_all add: s'_def rest_def refs_def shared_ref_def fun_eq_iff)
  have st: "kv_step t s'" using f by (simp add: kv_step_def enc_def)
  have "kv_ok H s'" using t(2) f unfolding kv_ok_def dbs_ok_def objs_ok_def rc_def by (simp add: rest_def)
  moreover have l: "look s' = look t" "expi s' = expi t"
    using look_cong [OF f(1,2)] f(3) by (simp_all add: expi_def fun_eq_iff)
  moreover have "live s' = live t" by (rule live_same [OF st l])
  moreover have "found db k v s'" using t(5) l(2) f(2) dead_step [OF st] by (simp add: found_def)
  moreover have "lookupKeyRead db k s = Some (v, s')"
    using t(1) unfolding lookupKeyRead_def lookupKeyWrite_def s'_def by (auto split: bind_splits prod.splits)
  ultimately show ?thesis using t kv_step_trans [OF t(3) st] by simp
qed

section \<open>Writing keys\<close>

text \<open>
  What a command does besides the contents: \<open>ev s s' rs sg n\<close> adds the replies \<open>rs\<close>, the signals \<open>sg\<close> and
  \<open>n\<close> to \<open>dirty\<close>, and keeps the configuration.  \<open>args\<close> are the arguments as they are encoded.
\<close>

definition env :: "dserver \<Rightarrow> _" where
  "env s = (d_dbnum s, d_db s, d_mstime s, d_loading s, d_slave s, d_alloc s, so_maxmemory (d_store s), so_shared (d_store s))"

definition ev :: "dserver \<Rightarrow> dserver \<Rightarrow> reply list \<Rightarrow> signal list \<Rightarrow> int \<Rightarrow> bool" where
  "ev s s' rs sg n \<longleftrightarrow> env s' = env s \<and> d_out s' = d_out s @ rs \<and> d_signals s' = d_signals s @ sg \<and> d_dirty s' = d_dirty s + n"

definition args :: "dserver \<Rightarrow> str_enc option list" where
  "args s = map (enc s) (d_argv s)"

lemma ev_refl [simp]: "ev s s [] [] 0"
  by (simp add: ev_def)

lemma ev_trans: "ev s s' rs sg n \<Longrightarrow> ev s' s'' rs' sg' n' \<Longrightarrow> ev s s'' (rs @ rs') (sg @ sg') (n + n')"
  by (simp add: ev_def)

lemma ev_quiet: "ev s s' [] [] 0 \<Longrightarrow> ev s' s'' rs sg n \<Longrightarrow> ev s s'' rs sg n"
  using ev_trans [of s s' "[]" "[]" 0 s'' rs sg n] by simp

lemma ev_dead: "ev s s' rs sg n \<Longrightarrow> dead s' = dead s"
  by (intro ext) (auto simp: ev_def env_def dead_def split: option.split)

lemma ev_env: "ev s s' rs sg n \<Longrightarrow> d_db s' = d_db s \<and> d_dbnum s' = d_dbnum s \<and> d_mstime s' = d_mstime s \<and> d_alloc s' = d_alloc s"
  by (simp add: ev_def env_def)

lemma kv_step_ev: "kv_step s s' \<Longrightarrow> ev s s' [] [] 0"
  using kv_step_fields [of s s'] by (simp add: ev_def env_def)

lemma quiet_fields [simp]:
  "obj_at (d_reply rs s) = obj_at s" "obj_at (bump n s) = obj_at s" "obj_at (signalModifiedKey db k s) = obj_at s"
  "dict_of (d_reply rs s) = dict_of s" "dict_of (bump n s) = dict_of s" "dict_of (signalModifiedKey db k s) = dict_of s"
  "expires_of (d_reply rs s) = expires_of s" "expires_of (bump n s) = expires_of s" "expires_of (signalModifiedKey db k s) = expires_of s"
  "d_argv (d_reply rs s) = d_argv s" "d_argv (bump n s) = d_argv s" "d_argv (signalModifiedKey db k s) = d_argv s"
  "d_store (d_reply rs s) = d_store s" "d_store (bump n s) = d_store s" "d_store (signalModifiedKey db k s) = d_store s"
  "env (d_reply rs s) = env s" "env (bump n s) = env s" "env (signalModifiedKey db k s) = env s"
  "d_db (d_reply rs s) = d_db s" "d_db (bump n s) = d_db s" "d_db (signalModifiedKey db k s) = d_db s"
  "d_dbnum (d_reply rs s) = d_dbnum s" "d_dbnum (bump n s) = d_dbnum s" "d_dbnum (signalModifiedKey db k s) = d_dbnum s"
  "d_mstime (d_reply rs s) = d_mstime s" "d_mstime (bump n s) = d_mstime s" "d_mstime (signalModifiedKey db k s) = d_mstime s"
  "d_alloc (d_reply rs s) = d_alloc s" "d_alloc (bump n s) = d_alloc s" "d_alloc (signalModifiedKey db k s) = d_alloc s"
  "d_loading (d_reply rs s) = d_loading s" "d_loading (bump n s) = d_loading s" "d_loading (signalModifiedKey db k s) = d_loading s"
  "d_slave (d_reply rs s) = d_slave s" "d_slave (bump n s) = d_slave s" "d_slave (signalModifiedKey db k s) = d_slave s"
  "d_out (d_reply rs s) = d_out s @ rs" "d_out (bump n s) = d_out s" "d_out (signalModifiedKey db k s) = d_out s"
  "d_signals (d_reply rs s) = d_signals s" "d_signals (bump n s) = d_signals s"
  "d_signals (signalModifiedKey db k s) = d_signals s @ [KeyModified db k]"
  "d_dirty (d_reply rs s) = d_dirty s" "d_dirty (bump n s) = d_dirty s + n" "d_dirty (signalModifiedKey db k s) = d_dirty s"
  by (simp_all add: d_reply_def bump_def signalModifiedKey_def env_def dict_of_def expires_of_def obj_at_def fun_eq_iff)

lemma same_objects:
  assumes "obj_at s' = obj_at s" "dict_of s' = dict_of s" "expires_of s' = expires_of s" "d_argv s' = d_argv s"
    "d_store s' = d_store s" "env s' = env s"
  shows "enc s' = enc s" "strs s' = strs s" "look s' = look s" "expi s' = expi s" "dead s' = dead s" "live s' = live s"
    "refs s' = refs s" "rc s' = rc s" "shared_ref s' = shared_ref s" "kv_ok H s' = kv_ok H s" "args s' = args s" "raw s' = raw s"
    "arg j s' = arg j s" "arg_raw j s' = arg_raw j s" "found db k v s' = found db k v s"
proof -
  show e: "enc s' = enc s" "strs s' = strs s" using assms(1) by (simp_all add: enc_def strs_def fun_eq_iff)
  show l: "look s' = look s" "expi s' = expi s" using look_cong assms by (simp_all add: expi_def fun_eq_iff)
  show d: "dead s' = dead s" using assms(6) by (intro ext) (simp add: dead_def env_def split: option.split)
  show "live s' = live s" using l d by (simp add: live_def fun_eq_iff)
  show r: "refs s' = refs s" "rc s' = rc s" "shared_ref s' = shared_ref s"
    using assms by (simp_all add: refs_def rc_def shared_ref_def env_def fun_eq_iff)
  show "kv_ok H s' = kv_ok H s" using assms r by (simp add: kv_ok_def dbs_ok_def objs_ok_def env_def)
  show "args s' = args s" using e assms by (simp add: args_def)
  show w: "raw s' = raw s" using assms by (simp add: raw_def fun_eq_iff)
  show "arg j s' = arg j s" "arg_raw j s' = arg_raw j s" using assms w by (simp_all add: arg_def arg_raw_def)
  show "found db k v s' = found db k v s" using assms l d by (simp add: found_def)
qed

lemma quiet_same [simp]:
  "live (d_reply rs s) = live s" "live (bump n s) = live s" "live (signalModifiedKey db k s) = live s"
  "look (d_reply rs s) = look s" "look (bump n s) = look s" "look (signalModifiedKey db k s) = look s"
  "expi (d_reply rs s) = expi s" "expi (bump n s) = expi s" "expi (signalModifiedKey db k s) = expi s"
  "kv_ok H (d_reply rs s) = kv_ok H s" "kv_ok H (bump n s) = kv_ok H s" "kv_ok H (signalModifiedKey db k s) = kv_ok H s"
  "args (d_reply rs s) = args s" "args (bump n s) = args s" "args (signalModifiedKey db k s) = args s"
  "enc (d_reply rs s) = enc s" "enc (bump n s) = enc s" "enc (signalModifiedKey db k s) = enc s"
  "strs (d_reply rs s) = strs s" "strs (bump n s) = strs s" "strs (signalModifiedKey db k s) = strs s"
  "raw (d_reply rs s) = raw s" "raw (bump n s) = raw s" "raw (signalModifiedKey db k s) = raw s"
  "rc (d_reply rs s) = rc s" "rc (bump n s) = rc s" "rc (signalModifiedKey db k s) = rc s"
  "dead (d_reply rs s) = dead s" "dead (bump n s) = dead s" "dead (signalModifiedKey db k s) = dead s"
  "arg j (d_reply rs s) = arg j s" "arg j (bump n s) = arg j s" "arg j (signalModifiedKey db k s) = arg j s"
  "arg_raw j (d_reply rs s) = arg_raw j s" "arg_raw j (bump n s) = arg_raw j s" "arg_raw j (signalModifiedKey db k s) = arg_raw j s"
  "found db' k' v (d_reply rs s) = found db' k' v s" "found db' k' v (bump n s) = found db' k' v s" "found db' k' v (signalModifiedKey db k s) = found db' k' v s"
  by (rule same_objects; simp)+

lemma ev_more:
  "ev s s' rs sg n \<Longrightarrow> ev s (d_reply r s') (rs @ r) sg n"
  "ev s s' rs sg n \<Longrightarrow> ev s (bump m s') rs sg (n + m)"
  "ev s s' rs sg n \<Longrightarrow> ev s (signalModifiedKey db k s') rs (sg @ [KeyModified db k]) n"
  by (simp_all add: ev_def)

lemma args_step:
  assumes "kv_ok H s" "kv_ok H' s'" "kv_step s s'" "\<And>a. 0 \<le> H a" "\<And>a. 0 \<le> H' a"
  shows "args s' = args s"
proof -
  have "enc s' a = enc s a" if "a \<in> set (d_argv s)" for a
  proof -
    have "a \<in> set (d_argv s')" using that kv_step_fields [OF assms(3)] by simp
    then have "obj_at s a \<noteq> None" "obj_at s' a \<noteq> None"
      using refs_argv that kv_exists [OF assms(1), of a] kv_exists [OF assms(2), of a] assms(4,5)
      by (meson add_pos_nonneg of_nat_0_less_iff)+
    then show ?thesis using assms(3) kv_next [OF assms(1)] unfolding kv_step_def by blast
  qed
  then show ?thesis using kv_step_fields [OF assms(3)] by (simp add: args_def)
qed

lemma refs_two:
  assumes "kv_ok H s" "map_of (dict_of s db) k = Some (VStr a)" "a \<in> set (d_argv s)"
  shows "2 + shared_ref s a \<le> refs s a"
proof -
  have "db < d_dbnum s" using kv_dbnum [OF assms(1), of db k] assms(2) by simp
  moreover have "0 < dict_refs (dict_of s db) a" using assms(2) by (rule dict_refs_pos)
  ultimately have "0 < (\<Sum>db < d_dbnum s. dict_refs (dict_of s db) a)" by (simp add: sum_pos2)
  moreover have "0 < count_list (d_argv s) a" using assms(3) count_list_0_iff [of "d_argv s" a] by linarith
  ultimately show ?thesis by (simp add: refs_def)
qed

lemma no_debt_argv:
  assumes "kv_ok H s" "map_of (dict_of s db) k = Some (VStr a)" "a \<in> set (d_argv s)" "\<And>b. b \<noteq> a \<Longrightarrow> 0 \<le> H b" "- 1 \<le> H a"
  shows "no_debt H s"
  unfolding no_debt_def
proof (intro allI impI)
  fix b assume "0 < refs s b"
  then show "0 < int (refs s b) + H b"
    using refs_two [OF assms(1-3)] assms(4) [of b] assms(5) by (cases "b = a") auto
qed

text \<open>A value that is an argument is stored; \<open>setKey\<close> before it clears the expire time.\<close>

lemma store_arg_ok:
  assumes ok: "kv_ok zero s" and a: "a \<in> set (d_argv s)" and db: "db < d_dbnum s" and small: "length k \<le> 2 ^ 29"
  shows "\<exists>s'. Option.bind (if map_of (dict_of s db) k = None then dbAdd db k (VStr a) s else dbOverwrite db k (VStr a) s) (incr_val (VStr a)) = Some s' \<and>
    kv_ok zero s' \<and> kv_step s s' \<and> look s' = (look s)((db, k) := val_at s (VStr a)) \<and> expi s' = expi s \<and>
    map_of (dict_of s' db) k = Some (VStr a)"
proof -
  let ?old = "map_of (dict_of s db) k"
  define u where "u = set_dict db (AList.update k (VStr a) (dict_of s db)) s"
  define Hu where "Hu = (\<lambda>x. ovref ?old x - vref (VStr a) x)"
  have u: "kv_ok Hu u" using kv_update [OF ok db small, of "VStr a"] by (simp add: u_def Hu_def)
  have au: "a \<in> set (d_argv u)" "map_of (dict_of u db) k = Some (VStr a)" using a by (simp_all add: u_def update_conv)
  have nu: "no_debt Hu u" by (rule no_debt_argv [OF u au(2,1)]) (auto simp: Hu_def ovref_def vref_def)
  have lu: "look u = (look s)((db, k) := val_at s (VStr a))" "expi u = expi s" by (simp_all add: u_def look_set_dict)
  have "\<exists>t. (if ?old = None then Some u else free_val (the ?old) u) = Some t \<and> kv_ok (\<lambda>x. - vref (VStr a) x) t \<and> store_step u t"
  proof (cases ?old)
    case None
    then show ?thesis using u by (simp add: Hu_def)
  next
    case (Some v)
    have "int (shared_ref u b) < int (refs u b) + Hu b" if "v = VStr b" for b
    proof (cases "a = b")
      case True
      then show ?thesis using refs_two [OF u au(2,1)] Some that by (simp add: Hu_def)
    next
      case False
      then show ?thesis using shared_le_refs [of u b] Some that by (simp add: Hu_def)
    qed
    from free_val_ok [OF u this] obtain t where "free_val v u = Some t" "kv_ok (\<lambda>x. Hu x - vref v x) t" "store_step u t" by blast
    then show ?thesis using Some by (auto simp: Hu_def elim: kv_cong)
  qed
  then obtain t where t: "(if ?old = None then Some u else free_val (the ?old) u) = Some t" "kv_ok (\<lambda>x. - vref (VStr a) x) t" "store_step u t"
    by blast
  note ft = store_step_fields [OF t(3)]
  have nt: "no_debt (\<lambda>x. - vref (VStr a) x) t"
    by (rule no_debt_argv [OF t(2), of db k a]) (use au ft in \<open>auto\<close>)
  have "obj_at t a \<noteq> None" using kv_exists [OF t(2), of a] refs_two [OF t(2), of db k a] au ft by simp
  then obtain s' where s': "incr_val (VStr a) t = Some s'" "kv_ok (\<lambda>x. - vref (VStr a) x + vref (VStr a) x) s'" "store_step t s'"
    using incr_val_ok [OF t(2), of "VStr a"] by blast
  have ok': "kv_ok zero s'" using s'(2) by (rule kv_cong) simp
  note fs = store_step_fields [OF s'(3)]
  have "look t = look u" by (rule look_step [OF u t(2,3) nu nt])
  moreover have "look s' = look t" by (rule look_step [OF t(2) ok' s'(3) nt]) simp
  ultimately have "look s' = (look s)((db, k) := val_at s (VStr a))" using lu by simp
  moreover have "expi s' = expi s" using ft fs lu by simp
  moreover have "kv_step s s'"
    using kv_step_trans [OF _ kv_step_trans [OF store_kv_step [OF t(3)] store_kv_step [OF s'(3)]], of s] by (simp add: u_def)
  moreover have "map_of (dict_of s' db) k = Some (VStr a)" using ft fs au by simp
  moreover have "Option.bind (if ?old = None then dbAdd db k (VStr a) s else dbOverwrite db k (VStr a) s) (incr_val (VStr a)) = Some s'"
    using t(1) s'(1) unfolding dbAdd_def dbOverwrite_def u_def by (auto split: if_splits)
  ultimately show ?thesis using ok' by blast
qed

lemma arg_exists: "kv_ok zero s \<Longrightarrow> a \<in> set (d_argv s) \<Longrightarrow> obj_at s a \<noteq> None"
  using refs_argv [of a s] kv_exists [of zero s a] by simp

lemma arg_strs:
  assumes "kv_ok zero s" "kv_ok zero s'" "kv_step s s'" "a \<in> set (d_argv s)"
  shows "strs s' a = strs s a"
proof -
  have "args s' = args s" by (rule args_step [OF assms(1-3)]) simp_all
  then have "enc s' a = enc s a" using assms(4) kv_step_fields [OF assms(3)] by (simp add: args_def)
  then show ?thesis by (simp add: strs_def)
qed

lemma live_new: "look s' p = Some x \<Longrightarrow> expi s' p = None \<Longrightarrow> live s' p = Some (x, None)"
  by (simp add: live_def)

lemma setKey_ok:
  assumes ok: "kv_ok zero s" and a: "a \<in> set (d_argv s)" and db: "db < d_dbnum s" and small: "length k \<le> 2 ^ 29"
  shows "\<exists>s' b. setKey db k (VStr a) s = Some s' \<and> strs s a = Some b \<and> kv_ok zero s' \<and> ev s s' [] [KeyModified db k] 0 \<and>
    args s' = args s \<and> d_argv s' = d_argv s \<and> live s' = (live s)((db, k) \<mapsto> (AStr b, None)) \<and> expi s' (db, k) = None \<and>
    map_of (dict_of s' db) k \<noteq> None \<and> look s' (db, k) = Some (AStr b)"
proof -
  from lookupKeyWrite_ok [OF ok, of db k] obtain v t where t: "lookupKeyWrite db k s = Some (v, t)" "kv_ok zero t" "kv_step s t"
    "live t = live s" "found db k v t" by auto
  note ft = kv_step_fields [OF t(3)]
  have at: "a \<in> set (d_argv t)" "db < d_dbnum t" using a db ft by simp_all
  from store_arg_ok [OF t(2) at small] obtain u where
    u: "Option.bind (if map_of (dict_of t db) k = None then dbAdd db k (VStr a) t else dbOverwrite db k (VStr a) t) (incr_val (VStr a)) = Some u"
    "kv_ok zero u" "kv_step t u" "look u = (look t)((db, k) := val_at t (VStr a))" "expi u = expi t" "map_of (dict_of u db) k = Some (VStr a)"
    by blast
  obtain b where b: "strs s a = Some b" using arg_exists [OF ok a] by (auto simp: strs_def enc_def)
  have bt: "strs t a = Some b" using arg_strs [OF ok t(2,3) a] b by simp
  define w where "w = set_expires db (AList.delete k (expires_of u db)) u"
  have w: "kv_ok zero w" "kv_step u w" "look w = (look t)((db, k) := Some (AStr b))" "expi w = (expi t)((db, k) := None)"
    unfolding w_def look_set_dict using kv_delete_expire [OF u(2)] u(4,5) bt by (simp_all add: val_at_def)
  have st: "kv_step t w" "kv_step s w" using kv_step_trans [OF u(3) w(2)] kv_step_trans [OF t(3)] by blast+
  have "setKey db k (VStr a) s = Some (signalModifiedKey db k w)"
    using t(1,5) u(1,6) by (auto simp: setKey_def found_def removeExpire_def w_def split: if_splits bind_splits)
  moreover have "live w = (live s)((db, k) \<mapsto> (AStr b, None))"
    using live_upd [OF st(1) w(3,4)] t(4) by simp
  moreover have "args w = args s" by (rule args_step [OF ok w(1) st(2)]) simp_all
  moreover have "ev s (signalModifiedKey db k w) [] [KeyModified db k] 0"
    using ev_more(3) [OF kv_step_ev [OF st(2)], of db k] by simp
  moreover have "map_of (dict_of w db) k \<noteq> None" using u(6) by (simp add: w_def)
  ultimately show ?thesis using w b kv_step_fields [OF st(2)] by (intro exI [of _ "signalModifiedKey db k w"] exI [of _ b]) simp
qed

text \<open>An object just created is stored.\<close>

lemma key_small: "kv_ok H s \<Longrightarrow> map_of (dict_of s db) k \<noteq> None \<Longrightarrow> length k \<le> 2 ^ 29"
  unfolding kv_ok_def dbs_ok_def map_of_eq_None_iff by blast

lemma overwrite_new_ok:
  assumes ok: "kv_ok (zero(n := 1)) s" and m: "map_of (dict_of s db) k \<noteq> None"
  shows "\<exists>s'. dbOverwrite db k (VStr n) s = Some s' \<and> kv_ok zero s' \<and> kv_step s s' \<and>
    look s' = (look s)((db, k) := val_at s (VStr n)) \<and> expi s' = expi s \<and> map_of (dict_of s' db) k = Some (VStr n) \<and>
    (\<forall>x. map_of (dict_of s db) k \<noteq> Some (VStr x) \<longrightarrow> obj_at s' x = obj_at s x)"
proof -
  obtain old where old: "map_of (dict_of s db) k = Some old" using m by blast
  define u where "u = set_dict db (AList.update k (VStr n) (dict_of s db)) s"
  have u: "kv_ok (vref old) u"
    using kv_cong [OF kv_update [OF ok kv_dbnum [OF ok m] key_small [OF ok m], of "VStr n"], of "vref old"] old by (simp add: u_def)
  have "int (shared_ref u b) < int (refs u b) + vref old b" if "old = VStr b" for b
    using shared_le_refs [of u b] that by simp
  from free_val_ok [OF u this] obtain s' where s': "free_val old u = Some s'" "kv_ok (\<lambda>x. vref old x - vref old x) s'" "store_step u s'" by blast
  have ok': "kv_ok zero s'" using s'(2) by simp
  have "look s' = look u" by (rule look_step [OF u ok' s'(3)]) simp_all
  then have "look s' = (look s)((db, k) := val_at s (VStr n))" by (simp add: u_def look_set_dict)
  moreover note f = store_step_fields [OF s'(3)]
  moreover have "expi s' = expi s" using f by (simp add: u_def look_set_dict)
  moreover have "map_of (dict_of s' db) k = Some (VStr n)" using f by (simp add: u_def update_conv)
  moreover have "kv_step s s'" using kv_step_trans [OF _ store_kv_step [OF s'(3)], of s] by (simp add: u_def)
  moreover have "obj_at s' x = obj_at s x" if "old \<noteq> VStr x" for x
    using s'(1) that by (cases old) (auto simp: free_val_def decr_ref_def decrRefCount_def obj_at_def u_def set_dict_def set_obj_def split: bind_splits if_splits)
  ultimately show ?thesis using s'(1) ok' old by (auto simp: dbOverwrite_def u_def)
qed

lemma add_new_ok:
  assumes ok: "kv_ok (zero(n := 1)) s" and db: "db < d_dbnum s" and m: "map_of (dict_of s db) k = None"
    and small: "length k \<le> 2 ^ 29"
  shows "\<exists>s'. dbAdd db k (VStr n) s = Some s' \<and> kv_ok zero s' \<and> kv_step s s' \<and>
    look s' = (look s)((db, k) := val_at s (VStr n)) \<and> expi s' = expi s \<and> map_of (dict_of s' db) k = Some (VStr n) \<and> obj_at s' = obj_at s"
proof -
  define u where "u = set_dict db (AList.update k (VStr n) (dict_of s db)) s"
  have "kv_ok zero u" using kv_cong [OF kv_update [OF ok db small, of "VStr n"], of zero] m by (simp add: u_def)
  moreover have "look u = (look s)((db, k) := val_at s (VStr n))" "expi u = expi s" by (simp_all add: u_def look_set_dict)
  ultimately show ?thesis using m by (simp add: dbAdd_def u_def update_conv)
qed

end
