(* ===== verification/Tstring.thy ===== *)
theory Tstring
  imports Keyspace
begin

text \<open>
  \<open>redis/src/t_string.c\<close>: the commands on strings, as functions of the server with the arguments of the client
  in \<open>d_argv\<close>.  INCRBYFLOAT (floating point) is not modelled.  Growing a string beyond what the allocator can
  provide (\<open>d_alloc\<close>) aborts the program, \<open>None\<close>, as does a read outside a string.
\<close>

section \<open>Objects in place\<close>

definition encode_arg :: "nat \<Rightarrow> dserver \<Rightarrow> dserver option" where
  "encode_arg j s = do {
     a \<leftarrow> arg j s;
     (b, st) \<leftarrow> tryObjectEncoding a (d_store s);
     Some (s\<lparr>d_store := st, d_argv := (d_argv s)[j := b]\<rparr>)
   }"

definition decoded :: "nat \<Rightarrow> dserver \<Rightarrow> (nat \<times> dserver) option" where
  "decoded a s = map_option (\<lambda>(b, st). (b, s\<lparr>d_store := st\<rparr>)) (getDecodedObject a (d_store s))"

definition str_of :: "nat \<Rightarrow> dserver \<Rightarrow> byte list option" where
  "str_of a s = do {
     ob \<leftarrow> obj_at s a;
     Some (case o_str ob of ENC_RAW b \<Rightarrow> b | ENC_INT v \<Rightarrow> ll2string_buf 32 v)
   }"

text \<open>The copy made when the object is shared or encoded.\<close>

definition unshare :: "nat \<Rightarrow> key \<Rightarrow> nat \<Rightarrow> dserver \<Rightarrow> (nat \<times> dserver) option" where
  "unshare db k a s = do {
     ob \<leftarrow> obj_at s a;
     if o_refcount ob \<noteq> 1 \<or> (case o_str ob of ENC_RAW _ \<Rightarrow> False | ENC_INT _ \<Rightarrow> True) then do {
       (d, s) \<leftarrow> decoded a s;
       b \<leftarrow> raw s d;
       let (n, s) = new_obj (ENC_RAW b) s;
       s \<leftarrow> decr_ref d s;
       s \<leftarrow> dbOverwrite db k (VStr n) s;
       Some (n, s)
     }
     else Some (a, s)
   }"

text \<open>Assigning \<open>o->ptr\<close>, and \<open>sdsgrowzero\<close> and \<open>sdscatlen\<close> on the contents.\<close>

definition set_raw :: "nat \<Rightarrow> byte list \<Rightarrow> dserver \<Rightarrow> dserver option" where
  "set_raw a b s = do { ob \<leftarrow> obj_at s a; Some (put_obj a (ob\<lparr>o_str := ENC_RAW b\<rparr>) s) }"

definition sds_growzero :: "dserver \<Rightarrow> byte list \<Rightarrow> nat \<Rightarrow> byte list option" where
  "sds_growzero s b len =
     (if len \<le> length b then Some b
      else if len > d_alloc s then None
      else Some (b @ replicate (len - length b) 0))"

definition sds_catlen :: "dserver \<Rightarrow> byte list \<Rightarrow> byte list \<Rightarrow> byte list option" where
  "sds_catlen s b t = (if length b + length t > d_alloc s then None else Some (b @ t))"

definition checkStringLength :: "int \<Rightarrow> dserver \<Rightarrow> bool \<times> dserver" where
  "checkStringLength n s =
     (if n > 512 * 1024 * 1024
      then (False, d_reply [ReplyError ''string exceeds maximum allowed size (512MB)''] s)
      else (True, s))"

text \<open>\<open>checkType(c, o, REDIS_STRING)\<close>: the object when it is a string.\<close>

definition checkType :: "dval \<Rightarrow> dserver \<Rightarrow> nat option \<times> dserver" where
  "checkType v s =
     (case v of VStr a \<Rightarrow> (Some a, s) | VAgg _ _ \<Rightarrow> (None, d_reply [Shared ''wrongtypeerr''] s))"

section \<open>SET and GET\<close>

definition setGenericCommand :: "bool \<Rightarrow> nat \<Rightarrow> nat \<Rightarrow> nat option \<Rightarrow> bool \<Rightarrow> dserver \<Rightarrow> dserver option" where
  "setGenericCommand nx key val expire seconds s = do {
     (ms, s) \<leftarrow> (case expire of
         None \<Rightarrow> Some (Some 0, s)
       | Some e \<Rightarrow> do {
           (v, s) \<leftarrow> getLongLongFromObjectOrReply (Some e) None s;
           case v of
             None \<Rightarrow> Some (None, s)
           | Some milliseconds \<Rightarrow>
               if milliseconds \<le> 0 then Some (None, d_reply [ReplyError ''invalid expire time in SETEX''] s)
               else Some (Some (if seconds then llong (milliseconds * 1000) else milliseconds), s)
         });
     case ms of
       None \<Rightarrow> Some s
     | Some milliseconds \<Rightarrow> do {
         k \<leftarrow> raw s key;
         (old, s) \<leftarrow> lookupKeyWrite (d_db s) k s;
         if old \<noteq> None \<and> nx then Some (d_reply [Shared ''czero''] s)
         else do {
           s \<leftarrow> setKey (d_db s) k (VStr val) s;
           let s = bump 1 s;
           s \<leftarrow> (if expire \<noteq> None then setExpire (d_db s) k (llong (d_mstime s + milliseconds)) s else Some s);
           Some (d_reply [Shared (if nx then ''cone'' else ''ok'')] s)
         }
       }
   }"

definition setCommand :: "dserver \<Rightarrow> dserver option" where
  "setCommand s = do {
     s \<leftarrow> encode_arg 2 s; k \<leftarrow> arg 1 s; v \<leftarrow> arg 2 s;
     setGenericCommand False k v None False s
   }"

definition setnxCommand :: "dserver \<Rightarrow> dserver option" where
  "setnxCommand s = do {
     s \<leftarrow> encode_arg 2 s; k \<leftarrow> arg 1 s; v \<leftarrow> arg 2 s;
     setGenericCommand True k v None False s
   }"

definition setexCommand :: "dserver \<Rightarrow> dserver option" where
  "setexCommand s = do {
     s \<leftarrow> encode_arg 3 s; k \<leftarrow> arg 1 s; v \<leftarrow> arg 3 s; e \<leftarrow> arg 2 s;
     setGenericCommand False k v (Some e) True s
   }"

definition psetexCommand :: "dserver \<Rightarrow> dserver option" where
  "psetexCommand s = do {
     s \<leftarrow> encode_arg 3 s; k \<leftarrow> arg 1 s; v \<leftarrow> arg 3 s; e \<leftarrow> arg 2 s;
     setGenericCommand False k v (Some e) False s
   }"

text \<open>The flag is \<open>REDIS_OK\<close>.\<close>

definition getGenericCommand :: "dserver \<Rightarrow> (bool \<times> dserver) option" where
  "getGenericCommand s = do {
     k \<leftarrow> arg_raw 1 s;
     (v, s) \<leftarrow> lookupKeyReadOrReply (d_db s) k (Shared ''nullbulk'') s;
     case v of
       None \<Rightarrow> Some (True, s)
     | Some (VAgg _ _) \<Rightarrow> Some (False, d_reply [Shared ''wrongtypeerr''] s)
     | Some (VStr a) \<Rightarrow> do { b \<leftarrow> str_of a s; Some (True, d_reply [Bulk b] s) }
   }"

definition getCommand :: "dserver \<Rightarrow> dserver option" where
  "getCommand s = map_option snd (getGenericCommand s)"

definition getsetCommand :: "dserver \<Rightarrow> dserver option" where
  "getsetCommand s = do {
     (ok, s) \<leftarrow> getGenericCommand s;
     if \<not> ok then Some s
     else do {
       s \<leftarrow> encode_arg 2 s;
       k \<leftarrow> arg_raw 1 s;
       v \<leftarrow> arg 2 s;
       s \<leftarrow> setKey (d_db s) k (VStr v) s;
       Some (bump 1 s)
     }
   }"

section \<open>Ranges\<close>

definition setrangeCommand :: "dserver \<Rightarrow> dserver option" where
  "setrangeCommand s = do {
     value \<leftarrow> arg_raw 3 s;
     k \<leftarrow> arg_raw 1 s;
     off \<leftarrow> arg 2 s;
     (v, s) \<leftarrow> getLongFromObjectOrReply (Some off) None s;
     case v of
       None \<Rightarrow> Some s
     | Some offset \<Rightarrow>
         if offset < 0 then Some (d_reply [ReplyError ''offset is out of range''] s)
         else do {
           (ob, s) \<leftarrow> lookupKeyWrite (d_db s) k s;
           (target, s) \<leftarrow> (case ob of
               None \<Rightarrow>
                 if value = [] then Some (None, d_reply [Shared ''czero''] s)
                 else (case checkStringLength (llong (offset + int (length value))) s of
                     (False, s) \<Rightarrow> Some (None, s)
                   | (True, s) \<Rightarrow> do {
                       let (n, s) = new_obj (ENC_RAW []) s;
                       s \<leftarrow> dbAdd (d_db s) k (VStr n) s;
                       Some (Some n, s)
                     })
             | Some ov \<Rightarrow>
                 (case checkType ov s of
                     (None, s) \<Rightarrow> Some (None, s)
                   | (Some a, s) \<Rightarrow> do {
                       olen \<leftarrow> map_option (\<lambda>r. stringObjectLen (o_str r)) (obj_at s a);
                       if value = [] then Some (None, d_reply [LongLong (int olen)] s)
                       else (case checkStringLength (llong (offset + int (length value))) s of
                           (False, s) \<Rightarrow> Some (None, s)
                         | (True, s) \<Rightarrow> do { (n, s) \<leftarrow> unshare (d_db s) k a s; Some (Some n, s) })
                     }));
           case target of
             None \<Rightarrow> Some s
           | Some n \<Rightarrow> do {
               b \<leftarrow> raw s n;
               s \<leftarrow> (if value \<noteq> [] then do {
                   b \<leftarrow> sds_growzero s b (nat ((offset + int (length value)) mod 2 ^ 64));
                   b \<leftarrow> wr b (nat offset) value;
                   s \<leftarrow> set_raw n b s;
                   Some (bump 1 (signalModifiedKey (d_db s) k s))
                 } else Some s);
               b \<leftarrow> raw s n;
               Some (d_reply [LongLong (int (length b))] s)
             }
         }
   }"

text \<open>
  The conversion of the two ends, shared with BITCOUNT: \<open>strlen\<close> is a \<open>size_t\<close>, and \<open>(unsigned)end\<close> keeps
  32 bits.
\<close>

definition range_ends :: "int \<Rightarrow> int \<Rightarrow> int \<Rightarrow> int \<times> int" where
  "range_ends strlen start en =
     (let start = (if start < 0 then llong (strlen + start) else start);
          en = (if en < 0 then llong (strlen + en) else en);
          start = (if start < 0 then 0 else start);
          en = (if en < 0 then 0 else en);
          en = (if en mod 2 ^ 32 \<ge> strlen then llong (strlen - 1) else en)
      in (start, en))"

definition getrangeCommand :: "dserver \<Rightarrow> dserver option" where
  "getrangeCommand s = do {
     a2 \<leftarrow> arg 2 s;
     (v, s) \<leftarrow> getLongFromObjectOrReply (Some a2) None s;
     case v of
       None \<Rightarrow> Some s
     | Some start \<Rightarrow> do {
         a3 \<leftarrow> arg 3 s;
         (w, s) \<leftarrow> getLongFromObjectOrReply (Some a3) None s;
         case w of
           None \<Rightarrow> Some s
         | Some en \<Rightarrow> do {
             k \<leftarrow> arg_raw 1 s;
             (ob, s) \<leftarrow> lookupKeyReadOrReply (d_db s) k (Shared ''emptybulk'') s;
             case ob of
               None \<Rightarrow> Some s
             | Some ov \<Rightarrow>
                 (case checkType ov s of
                     (None, s) \<Rightarrow> Some s
                   | (Some a, s) \<Rightarrow> do {
                       str \<leftarrow> str_of a s;
                       let (start, en) = range_ends (int (length str)) start en;
                       if start > en then Some (d_reply [Shared ''emptybulk''] s)
                       else do {
                         b \<leftarrow> rdz str start (nat (en - start + 1));
                         Some (d_reply [Bulk b] s)
                       }
                     })
           }
       }
   }"

section \<open>Several keys\<close>

primrec mget_loop :: "nat list \<Rightarrow> dserver \<Rightarrow> dserver option" where
  "mget_loop [] s = Some s"
| "mget_loop (a # as) s = do {
     k \<leftarrow> raw s a;
     (v, s) \<leftarrow> lookupKeyRead (d_db s) k s;
     r \<leftarrow> (case v of
         Some (VStr x) \<Rightarrow> map_option Bulk (str_of x s)
       | _ \<Rightarrow> Some (Shared ''nullbulk''));
     mget_loop as (d_reply [r] s)
   }"

definition mgetCommand :: "dserver \<Rightarrow> dserver option" where
  "mgetCommand s = mget_loop (tl (d_argv s)) (d_reply [MbulkHdr (length (d_argv s) - 1)] s)"

text \<open>The keys are the arguments at odd positions.\<close>

fun odd_args :: "'a list \<Rightarrow> 'a list" where
  "odd_args (_ # k # as) = k # odd_args as"
| "odd_args _ = []"

primrec busy_loop :: "nat list \<Rightarrow> nat \<Rightarrow> dserver \<Rightarrow> (nat \<times> dserver) option" where
  "busy_loop [] busykeys s = Some (busykeys, s)"
| "busy_loop (a # as) busykeys s = do {
     k \<leftarrow> raw s a;
     (v, s) \<leftarrow> lookupKeyWrite (d_db s) k s;
     busy_loop as (if v \<noteq> None then busykeys + 1 else busykeys) s
   }"

text \<open>\<open>mset_loop j n\<close> runs the body for \<open>n\<close> pairs, from argument \<open>j\<close> on.\<close>

primrec mset_loop :: "nat \<Rightarrow> nat \<Rightarrow> dserver \<Rightarrow> dserver option" where
  "mset_loop 0 j s = Some s"
| "mset_loop (Suc n) j s = do {
     s \<leftarrow> encode_arg (j + 1) s;
     k \<leftarrow> arg_raw j s;
     v \<leftarrow> arg (j + 1) s;
     s \<leftarrow> setKey (d_db s) k (VStr v) s;
     mset_loop n (j + 2) s
   }"

definition msetGenericCommand :: "bool \<Rightarrow> dserver \<Rightarrow> dserver option" where
  "msetGenericCommand nx s =
     (if even (length (d_argv s)) then Some (d_reply [ReplyError ''wrong number of arguments for MSET''] s)
      else do {
        (busykeys, s) \<leftarrow> (if nx then busy_loop (odd_args (d_argv s)) 0 s else Some (0, s));
        if nx \<and> busykeys \<noteq> 0 then Some (d_reply [Shared ''czero''] s)
        else do {
          s \<leftarrow> mset_loop ((length (d_argv s) - 1) div 2) 1 s;
          let s = bump ((int (length (d_argv s)) - 1) div 2) s;
          Some (d_reply [Shared (if nx then ''cone'' else ''ok'')] s)
        }
      })"

definition msetCommand :: "dserver \<Rightarrow> dserver option" where
  "msetCommand s = msetGenericCommand False s"

definition msetnxCommand :: "dserver \<Rightarrow> dserver option" where
  "msetnxCommand s = msetGenericCommand True s"

section \<open>Counters\<close>

definition long_obj :: "int \<Rightarrow> dserver \<Rightarrow> (nat \<times> dserver) option" where
  "long_obj v s = map_option (\<lambda>(a, st). (a, s\<lparr>d_store := st\<rparr>)) (createStringObjectFromLongLong (word_of_int v) (d_store s))"

definition incrDecrCommand :: "int \<Rightarrow> dserver \<Rightarrow> dserver option" where
  "incrDecrCommand incr s = do {
     k \<leftarrow> arg_raw 1 s;
     (ov, s) \<leftarrow> lookupKeyWrite (d_db s) k s;
     let (ok, ob, s) = (case ov of None \<Rightarrow> (True, None, s)
                                 | Some v \<Rightarrow> (case checkType v s of (r, s) \<Rightarrow> (r \<noteq> None, r, s)));
     if \<not> ok then Some s
     else do {
       (v, s) \<leftarrow> getLongLongFromObjectOrReply ob None s;
       case v of
         None \<Rightarrow> Some s
       | Some oldvalue \<Rightarrow>
           if incr < 0 \<and> oldvalue < 0 \<and> incr < - (2 ^ 63) - oldvalue \<or>
              incr > 0 \<and> oldvalue > 0 \<and> incr > 2 ^ 63 - 1 - oldvalue
           then Some (d_reply [ReplyError ''increment or decrement would overflow''] s)
           else do {
             (n, s) \<leftarrow> long_obj (llong (oldvalue + incr)) s;
             s \<leftarrow> (if ob \<noteq> None then dbOverwrite (d_db s) k (VStr n) s else dbAdd (d_db s) k (VStr n) s);
             let s = bump 1 (signalModifiedKey (d_db s) k s);
             b \<leftarrow> str_of n s;
             Some (d_reply [Shared ''colon'', Raw b, Shared ''crlf''] s)
           }
     }
   }"

definition incrCommand :: "dserver \<Rightarrow> dserver option" where
  "incrCommand s = incrDecrCommand 1 s"

definition decrCommand :: "dserver \<Rightarrow> dserver option" where
  "decrCommand s = incrDecrCommand (- 1) s"

definition incrbyCommand :: "dserver \<Rightarrow> dserver option" where
  "incrbyCommand s = do {
     a \<leftarrow> arg 2 s;
     (v, s) \<leftarrow> getLongLongFromObjectOrReply (Some a) None s;
     case v of None \<Rightarrow> Some s | Some incr \<Rightarrow> incrDecrCommand incr s
   }"

definition decrbyCommand :: "dserver \<Rightarrow> dserver option" where
  "decrbyCommand s = do {
     a \<leftarrow> arg 2 s;
     (v, s) \<leftarrow> getLongLongFromObjectOrReply (Some a) None s;
     case v of None \<Rightarrow> Some s | Some incr \<Rightarrow> incrDecrCommand (llong (- incr)) s
   }"

section \<open>APPEND and STRLEN\<close>

definition appendCommand :: "dserver \<Rightarrow> dserver option" where
  "appendCommand s = do {
     k \<leftarrow> arg_raw 1 s;
     (ov, s) \<leftarrow> lookupKeyWrite (d_db s) k s;
     case ov of
       None \<Rightarrow> do {
         s \<leftarrow> encode_arg 2 s;
         v \<leftarrow> arg 2 s;
         s \<leftarrow> dbAdd (d_db s) k (VStr v) s;
         s \<leftarrow> incr_ref v s;
         totlen \<leftarrow> map_option (\<lambda>r. stringObjectLen (o_str r)) (obj_at s v);
         Some (d_reply [LongLong (int totlen)] (bump 1 (signalModifiedKey (d_db s) k s)))
       }
     | Some v \<Rightarrow>
         (case checkType v s of
            (None, s) \<Rightarrow> Some s
          | (Some a, s) \<Rightarrow> do {
              app \<leftarrow> arg_raw 2 s;
              olen \<leftarrow> map_option (\<lambda>r. stringObjectLen (o_str r)) (obj_at s a);
              case checkStringLength (int (olen + length app)) s of
                (False, s) \<Rightarrow> Some s
              | (True, s) \<Rightarrow> do {
                  (n, s) \<leftarrow> unshare (d_db s) k a s;
                  b \<leftarrow> raw s n;
                  b \<leftarrow> sds_catlen s b app;
                  s \<leftarrow> set_raw n b s;
                  Some (d_reply [LongLong (int (length b))] (bump 1 (signalModifiedKey (d_db s) k s)))
                }
            })
   }"

definition strlenCommand :: "dserver \<Rightarrow> dserver option" where
  "strlenCommand s = do {
     k \<leftarrow> arg_raw 1 s;
     (v, s) \<leftarrow> lookupKeyReadOrReply (d_db s) k (Shared ''czero'') s;
     case v of
       None \<Rightarrow> Some s
     | Some v \<Rightarrow>
         (case checkType v s of
            (None, s) \<Rightarrow> Some s
          | (Some a, s) \<Rightarrow> do {
              n \<leftarrow> map_option (\<lambda>r. stringObjectLen (o_str r)) (obj_at s a);
              Some (d_reply [LongLong (int n)] s)
            })
   }"

section \<open>Modifying an object in place\<close>

lemma enc_Some: "enc s a = Some e \<longleftrightarrow> (\<exists>ob. obj_at s a = Some ob \<and> o_str ob = e)"
  by (auto simp: enc_def)

lemma raw_enc: "raw s a = Some b \<longleftrightarrow> enc s a = Some (ENC_RAW b)"
  by (auto simp: raw_def enc_def split: bind_splits str_enc.splits)

lemma small_strs: "kv_ok H s \<Longrightarrow> strs s a = Some b \<Longrightarrow> small (ENC_RAW b)"
proof -
  assume ok: "kv_ok H s" and b: "strs s a = Some b"
  then obtain ob where ob: "obj_at s a = Some ob" "b = str_bytes (o_str ob)" by (auto simp: strs_def enc_def)
  then have "small (o_str ob)" using ok by (simp add: kv_ok_def objs_ok_def)
  moreover have "length (idec (sint v)) \<le> 2 ^ 29" for v :: u64
    using length_idec [of "sint v"] sint_range_u64 [of v] by simp
  ultimately show ?thesis using ob(2) by (cases "o_str ob") (simp_all add: str_bytes_def)
qed

lemma raw_small: "kv_ok H s \<Longrightarrow> raw s a = Some b \<Longrightarrow> length b \<le> 2 ^ 29"
  using small_strs [of H s a b] by (auto simp: raw_enc strs_def str_bytes_def)

lemma str_of_strs: "str_of a s = strs s a"
  by (cases "obj_at s a") (auto simp: str_of_def strs_def enc_def str_bytes_def ll2string_buf_eq split: str_enc.split)

text \<open>An object with one reference, from a dictionary, is not an argument and nobody else's value.\<close>

lemma refs_unique:
  assumes ok: "kv_ok zero s" and m: "map_of (dict_of s db) k = Some (VStr a)" and one: "rc s a = 1"
  shows "map_of (dict_of s db') k' = Some (VStr a) \<Longrightarrow> db' = db \<and> k' = k" "a \<notin> set (d_argv s)" "shared_ref s a = 0"
proof -
  have d: "distinct (map fst (dict_of s db))" "db < d_dbnum s" using ok kv_dbnum [OF ok, of db k] m by (auto simp: kv_ok_def dbs_ok_def)
  define u where "u = set_dict db (AList.delete k (dict_of s db)) s"
  have "refs s a = 1" using ok one by (simp add: kv_ok_def)
  then have z: "refs u a = 0"
    using refs_set_dict [OF d(2), of "AList.delete k (dict_of s db)" a] dict_refs_delete [OF d(1), of a k] m by (simp add: u_def)
  then show "a \<notin> set (d_argv s)" using refs_argv [of a u] by (auto simp: u_def)
  have "shared_ref s a = shared_ref u a" by (simp add: shared_ref_def u_def)
  then show "shared_ref s a = 0" using z shared_le_refs [of u a] by simp
  show "db' = db \<and> k' = k" if "map_of (dict_of s db') k' = Some (VStr a)"
  proof (rule ccontr)
    assume "\<not> (db' = db \<and> k' = k)"
    then have m': "map_of (dict_of u db') k' = Some (VStr a)" using that by (auto simp: u_def AList.delete_conv')
    have "db' < d_dbnum u" using kv_dbnum [OF ok, of db' k'] that by (simp add: u_def)
    moreover have "0 < dict_refs (dict_of u db') a" using m' by (rule dict_refs_pos)
    ultimately have "0 < (\<Sum>i < d_dbnum u. dict_refs (dict_of u i) a)" by (simp add: sum_pos2)
    then show False using z by (simp add: refs_def)
  qed
qed

lemma set_raw_ok:
  assumes ok: "kv_ok zero s" and m: "map_of (dict_of s db) k = Some (VStr a)" and one: "rc s a = 1" and small: "length b \<le> 2 ^ 29"
  shows "\<exists>s'. set_raw a b s = Some s' \<and> kv_ok zero s' \<and> ev s s' [] [] 0 \<and> args s' = args s \<and> d_argv s' = d_argv s \<and>
    look s' = (look s)((db, k) \<mapsto> AStr b) \<and> expi s' = expi s \<and> raw s' a = Some b"
proof -
  obtain ob where ob: "obj_at s a = Some ob" using one by (auto simp: rc_def split: option.splits)
  define ob' where "ob' = ob\<lparr>o_str := ENC_RAW b\<rparr>"
  define s' where "s' = put_obj a ob' s"
  note un = refs_unique [OF ok m one]
  have "o_refcount ob = 1" using one ob by (simp add: rc_def)
  then have "kv_ok (zero(a := 0)) s'" using kv_put [OF ok ob, of ob'] un(3) small by (simp add: ob'_def s'_def)
  then have ok': "kv_ok zero s'" by (rule kv_cong) simp
  have "look s' (db', k') = ((look s)((db, k) \<mapsto> AStr b)) (db', k')" for db' k'
  proof (cases "map_of (dict_of s db') k'")
    case None
    then show ?thesis using m by (auto simp: look_def s'_def)
  next
    case (Some v)
    show ?thesis
    proof (cases "v = VStr a")
      case True
      then show ?thesis using un(1) [of db' k'] Some by (simp add: look_def val_at_def strs_def enc_def s'_def ob'_def str_bytes_def)
    next
      case False
      then have "(db', k') \<noteq> (db, k)" using Some m by auto
      then show ?thesis using False Some by (auto simp: look_def val_at_def strs_def enc_def s'_def split: dval.split)
    qed
  qed
  then have "look s' = (look s)((db, k) \<mapsto> AStr b)" by (intro ext) (metis surj_pair)
  moreover have "expi s' = expi s" by (simp add: expi_def s'_def fun_eq_iff)
  moreover have "args s' = args s" using un(2) by (auto simp: args_def enc_def s'_def)
  moreover have "ev s s' [] [] 0" by (simp add: ev_def env_def s'_def) (simp add: put_obj_def)
  moreover have "set_raw a b s = Some s'" by (simp add: set_raw_def ob s'_def ob'_def)
  moreover have "raw s' a = Some b" by (simp add: raw_def s'_def ob'_def)
  ultimately show ?thesis using ok' by (intro exI [of _ s']) (simp add: s'_def)
qed

lemma decr_ref_other: "decr_ref a s = Some s' \<Longrightarrow> x \<noteq> a \<Longrightarrow> obj_at s' x = obj_at s x"
  by (auto simp: decr_ref_def decrRefCount_def obj_at_def set_obj_def split: bind_splits if_splits)

lemma decoded_held:
  assumes ok: "kv_ok H s" and pos: "\<And>a. 0 \<le> H a" and b: "strs s a = Some b"
  shows "\<exists>d s'. decoded a s = Some (d, s') \<and> kv_ok (H(d := H d + 1)) s' \<and> store_step s s' \<and> raw s' d = Some b"
proof -
  obtain ob where ob: "obj_at s a = Some ob" "b = str_bytes (o_str ob)" using b by (auto simp: strs_def enc_def)
  show ?thesis
  proof (cases "o_str ob")
    case (ENC_RAW c)
    have "obj_at s a \<noteq> None" using ob by simp
    from incr_ref_ok [OF ok this] obtain s' where s': "incr_ref a s = Some s'" "kv_ok (H(a := H a + 1)) s'" "store_step s s'"
      "\<forall>b. (obj_at s' b \<noteq> None) = (obj_at s b \<noteq> None)" by blast
    have "decoded a s = Some (a, s')"
      using s'(1) ob ENC_RAW by (auto simp: decoded_def getDecodedObject_def obj_at_def incr_ref_def split: bind_splits)
    moreover have "enc s' a = enc s a" using enc_step [OF ok s'(3)] s'(4) ob by auto
    then have "raw s' a = Some b" using ob ENC_RAW by (simp add: raw_enc enc_def str_bytes_def)
    ultimately show ?thesis using s' by auto
  next
    case (ENC_INT v)
    from new_obj_ok [OF ok pos small_strs [OF ok b]] obtain n s' where s': "new_obj (ENC_RAW b) s = (n, s')" "kv_ok (H(n := H n + 1)) s'" "store_step s s'"
      "obj_at s' n = Some \<lparr>o_str = ENC_RAW b, o_refcount = 1, o_lru = so_lruclock (d_store s)\<rparr>" by auto
    have "decoded a s = Some (n, s')"
      using s'(1) ob ENC_INT by (auto simp: decoded_def getDecodedObject_def obj_at_def createStringObject_def ll2string_buf_eq
        str_bytes_def new_obj_def split: bind_splits prod.splits)
    moreover have "raw s' n = Some b" using s'(4) by (simp add: raw_def)
    ultimately show ?thesis using s' by auto
  qed
qed

lemma decoded_ok:
  assumes ok: "kv_ok zero s" and b: "strs s a = Some b"
  shows "\<exists>d s'. decoded a s = Some (d, s') \<and> kv_ok (zero(d := 1)) s' \<and> store_step s s' \<and> raw s' d = Some b"
  using decoded_held [OF ok _ b] by simp

lemma unshare_ok:
  assumes ok: "kv_ok zero s" and m: "map_of (dict_of s db) k = Some (VStr a)"
  shows "\<exists>n s' b. unshare db k a s = Some (n, s') \<and> kv_ok zero s' \<and> kv_step s s' \<and> look s' = look s \<and> expi s' = expi s \<and>
    map_of (dict_of s' db) k = Some (VStr n) \<and> rc s' n = 1 \<and> raw s' n = Some b \<and> strs s a = Some b"
proof -
  obtain ob where ob: "obj_at s a = Some ob" using obj_in_dict [OF ok _ m] by auto
  define b where "b = str_bytes (o_str ob)"
  have b: "strs s a = Some b" using ob by (simp add: strs_def enc_def b_def)
  show ?thesis
  proof (cases "o_refcount ob \<noteq> 1 \<or> (case o_str ob of ENC_RAW _ \<Rightarrow> False | ENC_INT _ \<Rightarrow> True)")
    case False
    then have "unshare db k a s = Some (a, s)" using ob by (simp add: unshare_def)
    moreover have "rc s a = 1" using False ob by (simp add: rc_def)
    moreover have "raw s a = Some b" using False ob by (auto simp: raw_def b_def str_bytes_def split: str_enc.splits)
    ultimately show ?thesis using ok m b by auto
  next
    case True
    from decoded_ok [OF ok b] obtain d t where t: "decoded a s = Some (d, t)" "kv_ok (zero(d := 1)) t" "store_step s t" "raw t d = Some b" by blast
    have "\<And>x. 0 \<le> (zero(d := 1)) x" by simp
    from new_obj_ok [OF t(2) this small_strs [OF ok b]] obtain n u where
      u: "new_obj (ENC_RAW b) t = (n, u)" "kv_ok ((zero(d := 1))(n := (zero(d := 1)) n + 1)) u" "store_step t u"
        "obj_at t n = None" "refs t n = 0" "(zero(d := 1)) n = 0"
        "obj_at u n = Some \<lparr>o_str = ENC_RAW b, o_refcount = 1, o_lru = so_lruclock (d_store t)\<rparr>" by blast
    have nd: "n \<noteq> d" using u(6) by (auto split: if_splits)
    have kd: "int (shared_ref u d) < int (refs u d) + ((zero(d := 1))(n := (zero(d := 1)) n + 1)) d"
      using shared_le_refs [of u d] nd by simp
    from decr_ref_ok [OF u(2) kd] obtain w where w: "decr_ref d u = Some w" "kv_ok (((zero(d := 1))(n := (zero(d := 1)) n + 1))(d := ((zero(d := 1))(n := (zero(d := 1)) n + 1)) d - 1)) w"
      "store_step u w" by blast
    have okw: "kv_ok (zero(n := 1)) w" using w(2) by (rule kv_cong) (use nd in auto)
    have nw: "obj_at w n = obj_at u n" by (rule decr_ref_other [OF w(1) nd])
    have st: "store_step s w" using store_step_trans [OF store_step_trans [OF t(3) u(3)] w(3)] .
    note fw = store_step_fields [OF st]
    have lw: "look w = look s" by (rule look_step [OF ok okw st]) simp_all
    have "map_of (dict_of w db) k \<noteq> None" using m fw by simp
    from overwrite_new_ok [OF okw this] obtain s' where s': "dbOverwrite db k (VStr n) w = Some s'" "kv_ok zero s'" "kv_step w s'"
      "look s' = (look w)((db, k) := val_at w (VStr n))" "expi s' = expi w" "map_of (dict_of s' db) k = Some (VStr n)"
      "\<forall>x. map_of (dict_of w db) k \<noteq> Some (VStr x) \<longrightarrow> obj_at s' x = obj_at w x" by blast
    have "n \<noteq> a"
    proof
      assume "n = a"
      then have "0 < refs t n" using refs_dict [of t db k a] m store_step_fields [OF t(3)] t(2) by simp
      then show False using u(5) by simp
    qed
    then have ns: "obj_at s' n = Some \<lparr>o_str = ENC_RAW b, o_refcount = 1, o_lru = so_lruclock (d_store t)\<rparr>"
      using s'(7) m fw nw u(7) by simp
    have "val_at w (VStr n) = Some (AStr b)" using nw u(7) by (simp add: val_at_def strs_def enc_def str_bytes_def)
    moreover have "look s (db, k) = Some (AStr b)" using m b by (simp add: look_def val_at_def)
    ultimately have "look s' = look s" using s'(4) lw by (simp add: fun_upd_idem)
    moreover have "expi s' = expi s" using s'(5) fw by simp
    moreover have "kv_step s s'" by (rule kv_step_trans [OF store_kv_step [OF st] s'(3)])
    moreover have "rc s' n = 1" "raw s' n = Some b" using ns by (simp_all add: rc_def raw_def)
    moreover have "unshare db k a s = Some (n, s')"
      using True ob t(1,4) u(1) w(1) s'(1) by (simp add: unshare_def)
    ultimately show ?thesis using s'(2,6) b by blast
  qed
qed

lemma count_list_update:
  "j < length xs \<Longrightarrow> count_list (xs[j := y]) x + (if xs ! j = x then 1 else 0) = count_list xs x + (if y = x then 1 else 0)"
proof (induction xs arbitrary: j)
  case (Cons z xs)
  show ?case
  proof (cases j)
    case (Suc i)
    then show ?thesis using Cons.IH [of i] Cons.prems by (cases "z = x") simp_all
  qed simp
qed simp

lemma count_list_one:
  assumes "count_list xs (x :: nat) = 1" "i < length xs" "j < length xs" "xs ! i = x" "xs ! j = x"
  shows "i = j"
proof (rule ccontr)
  assume "i \<noteq> j"
  then have "xs[j := Suc x] ! i = x" using assms(4) by simp
  then have "x \<in> set (xs[j := Suc x])" using assms(2) by (metis length_list_update nth_mem)
  then have "count_list (xs[j := Suc x]) x \<noteq> 0" by (simp add: count_list_0_iff)
  then show False using count_list_update [OF assms(3), of "Suc x" x] assms(1,5) by simp
qed

lemma kv_set_argv:
  assumes "kv_ok H s"
  shows "kv_ok (\<lambda>x. H x + int (count_list (d_argv s) x) - int (count_list as x)) (s\<lparr>d_argv := as\<rparr>)"
proof -
  have "int (refs (s\<lparr>d_argv := as\<rparr>) x) = int (refs s x) - int (count_list (d_argv s) x) + int (count_list as x)" for x
    by (simp add: refs_def shared_ref_def)
  moreover have "rc (s\<lparr>d_argv := as\<rparr>) = rc s" by (simp add: rc_def fun_eq_iff)
  ultimately show ?thesis using assms by (simp add: kv_ok_def dbs_ok_def objs_ok_def)
qed

lemma look_keep:
  assumes "dict_of s' = dict_of s" "\<And>db k a. map_of (dict_of s db) k = Some (VStr a) \<Longrightarrow> strs s' a = strs s a"
  shows "look s' = look s"
proof
  fix p
  show "look s' p = look s p"
    using assms(1) assms(2) [of "fst p" "snd p"] by (cases "map_of (dict_of s (fst p)) (snd p)") (auto simp: look_def val_at_def split: dval.split)
qed

text \<open>The only reference of an argument that is encoded is its place in the argument vector.\<close>

lemma arg_unique:
  assumes ok: "kv_ok zero s" and a: "j < length (d_argv s)" "d_argv s ! j = a" and one: "rc s a = 1"
  shows "count_list (d_argv s) a = 1" "shared_ref s a = 0" "map_of (dict_of s db) k \<noteq> Some (VStr a)"
    "i < length (d_argv s) \<Longrightarrow> i \<noteq> j \<Longrightarrow> d_argv s ! i \<noteq> a"
proof -
  have m: "a \<in> set (d_argv s)" using a by auto
  then have c: "0 < count_list (d_argv s) a" using count_list_0_iff [of "d_argv s" a] by linarith
  have r: "refs s a = 1" using ok one by (simp add: kv_ok_def)
  then show c1: "count_list (d_argv s) a = 1" "shared_ref s a = 0" using c by (simp_all add: refs_def)
  show "map_of (dict_of s db) k \<noteq> Some (VStr a)" using refs_two [OF ok _ m, of db k] r by auto
  show "d_argv s ! i \<noteq> a" if "i < length (d_argv s)" "i \<noteq> j" using count_list_one [OF c1(1) that(1) a(1)] a(2) that(2) by blast
qed

lemma args_nth: "args s' = (args s)[j := v]" if "length (d_argv s') = length (d_argv s)"
    "\<And>i. i < length (d_argv s) \<Longrightarrow> enc s' (d_argv s' ! i) = (if i = j then v else enc s (d_argv s ! i))"
  using that by (intro nth_equalityI) (auto simp: args_def nth_list_update)

lemma encode_arg_ok:
  assumes ok: "kv_ok zero s" and a: "j < length (d_argv s)"
  shows "\<exists>s' v. encode_arg j s = Some s' \<and> kv_ok zero s' \<and> ev s s' [] [] 0 \<and> look s' = look s \<and> expi s' = expi s \<and> dict_of s' = dict_of s \<and>
    length (d_argv s') = length (d_argv s) \<and> args s' = (args s)[j := Some v] \<and> strs s (d_argv s ! j) = Some (str_bytes v)"
proof -
  define x where "x = d_argv s ! j"
  have xin: "x \<in> set (d_argv s)" using a by (simp add: x_def)
  obtain ob where ob: "obj_at s x = Some ob" using arg_exists [OF ok xin] by blast
  have same: ?thesis if e: "tryObjectEncoding x (d_store s) = Some (x, d_store s)"
  proof -
    have "encode_arg j s = Some s" using e a by (simp add: encode_arg_def arg_def peek_def x_def [symmetric]) (simp add: x_def)
    moreover have "args s = (args s)[j := Some (o_str ob)]"
      using ob a by (intro args_nth) (auto simp: enc_def x_def)
    ultimately show ?thesis using ok ob by (intro exI [of _ s] exI [of _ "o_str ob"]) (simp add: strs_def enc_def x_def [symmetric])
  qed
  show ?thesis
  proof (cases "\<exists>c n. o_str ob = ENC_RAW c \<and> o_refcount ob = 1 \<and> string2ll c = Some n")
    case False
    have "1 \<le> o_refcount ob" using ok ob by (auto simp: kv_ok_def objs_ok_def)
    then have "tryObjectEncoding x (d_store s) = Some (x, d_store s)"
      using False ob by (auto simp: tryObjectEncoding_def obj_at_def string2l_eq split: str_enc.split option.split)
    then show ?thesis by (rule same)
  next
    case True
    then obtain c n where c: "o_str ob = ENC_RAW c" "o_refcount ob = 1" "string2ll c = Some n" by blast
    have one: "rc s x = 1" using ob c(2) by (simp add: rc_def)
    note un = arg_unique [OF ok a x_def [symmetric] one]
    have bytes: "strs s x = Some (str_bytes (ENC_INT n))"
      using c ob string2ll_Some [OF c(3)] by (simp add: strs_def enc_def str_bytes_def)
    show ?thesis
    proof (cases "so_maxmemory (d_store s) = 0 \<and> 0 \<le> sint n \<and> sint n < int REDIS_SHARED_INTEGERS")
      case False
      define ob' where "ob' = ob\<lparr>o_str := ENC_INT n\<rparr>"
      define s' where "s' = put_obj x ob' s"
      have t: "tryObjectEncoding x (d_store s) = Some (x, set_obj x ob' (d_store s))"
        using False c ob by (auto simp: tryObjectEncoding_def obj_at_def string2l_eq ob'_def)
      have "(d_argv s)[j := x] = d_argv s" by (simp add: x_def)
      then have "encode_arg j s = Some s'" using t a by (simp add: encode_arg_def arg_def peek_def x_def [symmetric] s'_def put_obj_def)
      moreover have "kv_ok (zero(x := 0)) s'" using kv_put [OF ok ob, of ob'] un(2) c(2) by (simp add: s'_def ob'_def)
      then have "kv_ok zero s'" by (rule kv_cong) simp
      moreover have "look s' = look s" by (rule look_keep) (use un(3) in \<open>auto simp: s'_def strs_def enc_def\<close>)
      moreover have "expi s' = expi s" "ev s s' [] [] 0" "dict_of s' = dict_of s" "d_argv s' = d_argv s"
        by (simp_all add: s'_def expi_def fun_eq_iff ev_def env_def) (simp_all add: put_obj_def)
      moreover have "args s' = (args s)[j := Some (ENC_INT n)]"
        by (rule args_nth) (use un(4) in \<open>auto simp: s'_def enc_def ob'_def x_def [symmetric]\<close>)
      ultimately show ?thesis using bytes by (intro exI [of _ s'] exI [of _ "ENC_INT n"]) (simp add: x_def [symmetric])
    next
      case True
      define b where "b = so_shared (d_store s) (nat (sint n))"
      have nb: "nat (sint n) < REDIS_SHARED_INTEGERS" using True by linarith
      then obtain bo where bo: "obj_at s b = Some bo" "o_str bo = ENC_INT (of_nat (nat (sint n)))"
        using ok unfolding kv_ok_def objs_ok_def b_def by blast
      have bn: "(of_nat (nat (sint n)) :: u64) = n" using True by (simp add: of_nat_nat)
      have bx: "b \<noteq> x" using un(2) nb by (auto simp: shared_ref_def b_def split: if_splits)
      define st1 where "st1 = (d_store s)\<lparr>so_objs := (so_objs (d_store s))(x := None)\<rparr>"
      define st2 where "st2 = set_obj b (bo\<lparr>o_refcount := o_refcount bo + 1\<rparr>) st1"
      define t where "t = s\<lparr>d_store := st1\<rparr>"
      define u where "u = s\<lparr>d_store := st2\<rparr>"
      define s' where "s' = u\<lparr>d_argv := (d_argv s)[j := b]\<rparr>"
      have "int (shared_ref s x) < int (refs s x) + zero x" using un(2) ok one by (simp add: kv_ok_def)
      moreover have dx: "decr_ref x s = Some t" using ob c(2) by (simp add: decr_ref_def decrRefCount_def obj_at_def t_def st1_def)
      ultimately have t: "kv_ok (zero(x := 0 - 1)) t" using decr_ref_ok [OF ok, of x] by auto
      have at: "obj_at t = (obj_at s)(x := None)" by (auto simp: obj_at_def t_def st1_def)
      have tb: "obj_at t b = Some bo" using bo bx by (simp add: at)
      have ib: "incr_ref b t = Some u"
        using tb by (simp add: incr_ref_def incrRefCount_def obj_at_def u_def st2_def t_def)
      then have u: "kv_ok ((zero(x := 0 - 1))(b := (zero(x := 0 - 1)) b + 1)) u" using incr_ref_ok [OF t, of b] tb by auto
      have au: "obj_at u = (obj_at s)(x := None, b := Some (bo\<lparr>o_refcount := o_refcount bo + 1\<rparr>))"
        using bx by (auto simp: obj_at_def u_def st2_def st1_def set_obj_def)
      have "d_argv u = d_argv s" by (simp add: u_def)
      then have k: "kv_ok (\<lambda>y. ((zero(x := 0 - 1))(b := (zero(x := 0 - 1)) b + 1)) y + int (count_list (d_argv s) y) - int (count_list ((d_argv s)[j := b]) y)) s'"
        using kv_set_argv [OF u, of "(d_argv s)[j := b]"] by (simp add: s'_def)
      have cnt: "int (count_list ((d_argv s)[j := b]) y) = int (count_list (d_argv s) y) + (if b = y then 1 else 0) - (if x = y then 1 else 0)" for y
        using count_list_update [OF a, of b y] by (simp add: x_def [symmetric] split: if_splits)
      have "kv_ok zero s'" by (rule kv_cong [OF k]) (use bx in \<open>simp add: cnt\<close>)
      moreover have e: "enc s' y = enc s y" if "y \<noteq> x" for y using that bo by (auto simp: enc_def s'_def au)
      moreover have "tryObjectEncoding x (d_store s) = Some (b, st2)"
      proof -
        have "so_objs (d_store s) x = Some ob" "so_objs st1 b = Some bo" using ob tb by (simp_all add: obj_at_def t_def)
        then have d: "decrRefCount x (d_store s) = Some st1" "incrRefCount b st1 = Some st2" "so_shared st1 = so_shared (d_store s)"
          using c(2) by (simp_all add: decrRefCount_def incrRefCount_def st1_def st2_def)
        show ?thesis using True c ob d by (simp add: tryObjectEncoding_def obj_at_def string2l_eq b_def [symmetric])
      qed
      then have "encode_arg j s = Some s'" using a by (simp add: encode_arg_def arg_def peek_def x_def [symmetric] s'_def u_def)
      moreover have "look s' = look s" 
      proof (rule look_keep)
        fix db k a assume "map_of (dict_of s db) k = Some (VStr a)"
        then have "a \<noteq> x" using un(3) by metis
        then show "strs s' a = strs s a" using e by (simp add: strs_def)
      qed (simp add: s'_def u_def)
      moreover have "expi s' = expi s" "ev s s' [] [] 0" "dict_of s' = dict_of s" "length (d_argv s') = length (d_argv s)"
        by (simp_all add: s'_def u_def st2_def st1_def set_obj_def expi_def fun_eq_iff ev_def env_def)
      moreover have "args s' = (args s)[j := Some (ENC_INT n)]"
      proof (rule args_nth)
        fix i assume i: "i < length (d_argv s)"
        show "enc s' (d_argv s' ! i) = (if i = j then Some (ENC_INT n) else enc s (d_argv s ! i))"
        proof (cases "i = j")
          case True
          then show ?thesis using i bo bn by (simp add: s'_def enc_def au)
        next
          case False
          then show ?thesis using e [of "d_argv s ! i"] un(4) [OF i] by (simp add: s'_def)
        qed
      qed (simp add: s'_def)
      ultimately show ?thesis using bytes by (intro exI [of _ s'] exI [of _ "ENC_INT n"]) (simp add: x_def [symmetric])
    qed
  qed
qed

end
