(* ===== verification/Strings.thy ===== *)
theory Strings
  imports Tstring
begin

text \<open>
  What the string commands of \<open>Tstring\<close> promise: an abstract key space that maps a key to its value and
  expire time, expired keys being absent, and for every command the new contents, the replies, the signals
  and the change of \<open>dirty\<close>.
\<close>

section \<open>The abstract commands\<close>

type_synonym contents = "nat \<times> key \<Rightarrow> (aval \<times> int option) option"
type_synonym outcome = "contents \<times> reply list \<times> signal list \<times> int"

text \<open>The database of the client, their number, the time, and whether keys do not expire (a slave, or loading).\<close>

record ctx =
  c_db :: nat
  c_dbnum :: nat
  c_now :: int
  c_frozen :: bool

definition ctx_of :: "dserver \<Rightarrow> ctx" where
  "ctx_of s = \<lparr>c_db = d_db s, c_dbnum = d_dbnum s, c_now = d_mstime s, c_frozen = (d_loading s \<or> d_slave s)\<rparr>"

definition gone :: "ctx \<Rightarrow> int \<Rightarrow> bool" where
  "gone c t \<longleftrightarrow> \<not> c_frozen c \<and> 0 \<le> t \<and> t < c_now c"

text \<open>The integer a string stands for.\<close>

definition num :: "byte list \<Rightarrow> int option" where
  "num b = map_option sint (getLongLongFromObject (Some (ENC_RAW b)))"

definition not_int :: reply where
  "not_int = ReplyError ''value is not an integer or out of range''"

definition sp_err :: "reply \<Rightarrow> contents \<Rightarrow> outcome" where
  "sp_err r L = (L, [r], [], 0)"

definition sp_set :: "ctx \<Rightarrow> bool \<Rightarrow> key \<Rightarrow> byte list \<Rightarrow> int option \<Rightarrow> contents \<Rightarrow> outcome" where
  "sp_set c nx k v t L =
     (let p = (c_db c, k) in
      if nx \<and> L p \<noteq> None then sp_err (Shared ''czero'') L
      else (L(p := case t of None \<Rightarrow> Some (AStr v, None)
                   | Some w \<Rightarrow> if gone c w then None else Some (AStr v, Some w)),
            [Shared (if nx then ''cone'' else ''ok'')], [KeyModified (c_db c) k], 1))"

definition sp_setex :: "ctx \<Rightarrow> int \<Rightarrow> key \<Rightarrow> byte list \<Rightarrow> byte list \<Rightarrow> contents \<Rightarrow> outcome" where
  "sp_setex c unit k e v L =
     (case num e of
        None \<Rightarrow> sp_err not_int L
      | Some n \<Rightarrow>
          if n \<le> 0 then sp_err (ReplyError ''invalid expire time in SETEX'') L
          else sp_set c False k v (Some (llong (c_now c + llong (n * unit)))) L)"

definition sp_get :: "ctx \<Rightarrow> key \<Rightarrow> contents \<Rightarrow> outcome" where
  "sp_get c k L =
     (case L (c_db c, k) of
        None \<Rightarrow> sp_err (Shared ''nullbulk'') L
      | Some (AStr b, _) \<Rightarrow> sp_err (Bulk b) L
      | Some (AAgg _ _, _) \<Rightarrow> sp_err (Shared ''wrongtypeerr'') L)"

definition sp_getset :: "ctx \<Rightarrow> key \<Rightarrow> byte list \<Rightarrow> contents \<Rightarrow> outcome" where
  "sp_getset c k v L =
     (case L (c_db c, k) of
        Some (AAgg _ _, _) \<Rightarrow> sp_err (Shared ''wrongtypeerr'') L
      | x \<Rightarrow> (L((c_db c, k) \<mapsto> (AStr v, None)),
              [case x of Some (AStr b, _) \<Rightarrow> Bulk b | _ \<Rightarrow> Shared ''nullbulk''], [KeyModified (c_db c) k], 1))"

definition too_long :: reply where
  "too_long = ReplyError ''string exceeds maximum allowed size (512MB)''"

text \<open>Overwriting \<open>v\<close> at an offset, the gap filled with zero bytes.\<close>

definition overlay :: "nat \<Rightarrow> byte list \<Rightarrow> byte list \<Rightarrow> byte list" where
  "overlay off v b = take off (b @ replicate (off - length b) 0) @ v @ drop (off + length v) b"

definition sp_setrange :: "ctx \<Rightarrow> key \<Rightarrow> byte list \<Rightarrow> byte list \<Rightarrow> contents \<Rightarrow> outcome" where
  "sp_setrange c k off v L =
     (let p = (c_db c, k);
          store = (\<lambda>offset b e. if offset + int (length v) > 512 * 1024 * 1024 then sp_err too_long L
            else let b = overlay (nat offset) v b
                 in (L(p \<mapsto> (AStr b, e)), [LongLong (int (length b))], [KeyModified (c_db c) k], 1))
      in case num off of
           None \<Rightarrow> sp_err not_int L
         | Some offset \<Rightarrow>
             if offset < 0 then sp_err (ReplyError ''offset is out of range'') L
             else (case L p of
                 None \<Rightarrow> if v = [] then sp_err (Shared ''czero'') L else store offset [] None
               | Some (AAgg _ _, _) \<Rightarrow> sp_err (Shared ''wrongtypeerr'') L
               | Some (AStr b, e) \<Rightarrow> if v = [] then sp_err (LongLong (int (length b))) L else store offset b e))"

text \<open>Both ends count from the end of the string when negative, and are brought into it.\<close>

definition slice :: "int \<Rightarrow> int \<Rightarrow> byte list \<Rightarrow> byte list" where
  "slice i j b =
     (let n = int (length b);
          i = (if i < 0 then max 0 (n + i) else i);
          j = min (if j < 0 then max 0 (n + j) else j) (n - 1)
      in take (nat (j - i + 1)) (drop (nat i) b))"

definition sp_getrange :: "ctx \<Rightarrow> key \<Rightarrow> byte list \<Rightarrow> byte list \<Rightarrow> contents \<Rightarrow> outcome" where
  "sp_getrange c k i j L =
     (case num i of
        None \<Rightarrow> sp_err not_int L
      | Some i \<Rightarrow>
          (case num j of
             None \<Rightarrow> sp_err not_int L
           | Some j \<Rightarrow>
               (case L (c_db c, k) of
                  None \<Rightarrow> sp_err (Shared ''emptybulk'') L
                | Some (AAgg _ _, _) \<Rightarrow> sp_err (Shared ''wrongtypeerr'') L
                | Some (AStr b, _) \<Rightarrow> sp_err (if slice i j b = [] then Shared ''emptybulk'' else Bulk (slice i j b)) L)))"

definition sp_mget :: "ctx \<Rightarrow> key list \<Rightarrow> contents \<Rightarrow> outcome" where
  "sp_mget c ks L =
     (L, MbulkHdr (length ks) #
        map (\<lambda>k. case L (c_db c, k) of Some (AStr b, _) \<Rightarrow> Bulk b | _ \<Rightarrow> Shared ''nullbulk'') ks, [], 0)"

primrec put_all :: "nat \<Rightarrow> (key \<times> byte list) list \<Rightarrow> contents \<Rightarrow> contents" where
  "put_all db [] L = L"
| "put_all db (kv # kvs) L = put_all db kvs (L((db, fst kv) \<mapsto> (AStr (snd kv), None)))"

definition sp_mset :: "ctx \<Rightarrow> bool \<Rightarrow> (key \<times> byte list) list \<Rightarrow> contents \<Rightarrow> outcome" where
  "sp_mset c nx kvs L =
     (if nx \<and> (\<exists>kv \<in> set kvs. L (c_db c, fst kv) \<noteq> None) then sp_err (Shared ''czero'') L
      else (put_all (c_db c) kvs L, [Shared (if nx then ''cone'' else ''ok'')],
            map (\<lambda>kv. KeyModified (c_db c) (fst kv)) kvs, int (length kvs)))"

definition sp_incr :: "ctx \<Rightarrow> key \<Rightarrow> int \<Rightarrow> contents \<Rightarrow> outcome" where
  "sp_incr c k i L =
     (let p = (c_db c, k);
          count = (\<lambda>old e. if old + i < - (2 ^ 63) \<or> old + i \<ge> 2 ^ 63
            then sp_err (ReplyError ''increment or decrement would overflow'') L
            else (L(p \<mapsto> (AStr (idec (old + i)), e)), [Shared ''colon'', Raw (idec (old + i)), Shared ''crlf''],
                  [KeyModified (c_db c) k], 1))
      in case L p of
           None \<Rightarrow> count 0 None
         | Some (AAgg _ _, _) \<Rightarrow> sp_err (Shared ''wrongtypeerr'') L
         | Some (AStr b, e) \<Rightarrow> (case num b of None \<Rightarrow> sp_err not_int L | Some old \<Rightarrow> count old e))"

definition sp_incrby :: "ctx \<Rightarrow> int \<Rightarrow> key \<Rightarrow> byte list \<Rightarrow> contents \<Rightarrow> outcome" where
  "sp_incrby c sign k b L =
     (case num b of None \<Rightarrow> sp_err not_int L | Some i \<Rightarrow> sp_incr c k (sign * i) L)"

definition sp_append :: "ctx \<Rightarrow> key \<Rightarrow> byte list \<Rightarrow> contents \<Rightarrow> outcome" where
  "sp_append c k v L =
     (let p = (c_db c, k);
          store = (\<lambda>b e. (L(p \<mapsto> (AStr (b @ v), e)), [LongLong (int (length (b @ v)))], [KeyModified (c_db c) k], 1))
      in case L p of
           None \<Rightarrow> store [] None
         | Some (AAgg _ _, _) \<Rightarrow> sp_err (Shared ''wrongtypeerr'') L
         | Some (AStr b, e) \<Rightarrow> if length (b @ v) > 512 * 1024 * 1024 then sp_err too_long L else store b e)"

definition sp_strlen :: "ctx \<Rightarrow> key \<Rightarrow> contents \<Rightarrow> outcome" where
  "sp_strlen c k L =
     (case L (c_db c, k) of
        None \<Rightarrow> sp_err (Shared ''czero'') L
      | Some (AAgg _ _, _) \<Rightarrow> sp_err (Shared ''wrongtypeerr'') L
      | Some (AStr b, _) \<Rightarrow> sp_err (LongLong (int (length b))) L)"

section \<open>Arguments\<close>

text \<open>The arguments of a client are raw strings when a command starts.\<close>

definition raw_args :: "byte list list \<Rightarrow> dserver \<Rightarrow> bool" where
  "raw_args as s \<longleftrightarrow> args s = map (\<lambda>b. Some (ENC_RAW b)) as"

definition meets :: "dserver \<Rightarrow> dserver option \<Rightarrow> outcome \<Rightarrow> bool" where
  "meets s r oc \<longleftrightarrow> (case oc of (L, rs, sg, n) \<Rightarrow>
     \<exists>s'. r = Some s' \<and> kv_ok zero s' \<and> live s' = L \<and> ev s s' rs sg n)"

lemma meetsI: "r = Some s' \<Longrightarrow> kv_ok zero s' \<Longrightarrow> live s' = L \<Longrightarrow> ev s s' rs sg n \<Longrightarrow> meets s r (L, rs, sg, n)"
  by (auto simp: meets_def)

lemma meets_sp_err: "kv_ok zero t \<Longrightarrow> live t = L \<Longrightarrow> ev s t [] [] 0 \<Longrightarrow> meets s (Some (d_reply [r] t)) (sp_err r L)"
  unfolding sp_err_def by (rule meetsI [OF refl]) (auto dest: ev_more(1) [of s t "[]" "[]" 0 "[r]"])

lemma meets_quiet: "ev s t [] [] 0 \<Longrightarrow> meets t r oc \<Longrightarrow> meets s r oc"
  unfolding meets_def by (auto split: prod.splits dest: ev_quiet)

lemma dead_gone: "dead s w = (case w of None \<Rightarrow> False | Some t \<Rightarrow> gone (ctx_of s) t)"
  by (auto simp: dead_def gone_def ctx_of_def split: option.split)

lemma ctx_of_ev: "ev s s' rs sg n \<Longrightarrow> ctx_of s' = ctx_of s"
  by (simp add: ev_def env_def ctx_of_def)

lemma ctx_db [simp]: "c_db (ctx_of s) = d_db s" "c_dbnum (ctx_of s) = d_dbnum s" "c_now (ctx_of s) = d_mstime s"
  by (simp_all add: ctx_of_def)

lemma arg_nth: "j < length (args s) \<Longrightarrow> arg j s = Some (d_argv s ! j) \<and> d_argv s ! j \<in> set (d_argv s) \<and> enc s (d_argv s ! j) = args s ! j"
  by (simp add: arg_def peek_def args_def)

lemma arg_raw_nth: "j < length (args s) \<Longrightarrow> args s ! j = Some (ENC_RAW b) \<Longrightarrow> arg_raw j s = Some b \<and> raw s (d_argv s ! j) = Some b"
  using arg_nth [of j s] by (simp add: arg_raw_def raw_enc)

lemma raw_args_nth:
  assumes "raw_args as s" "j < length as"
  shows "arg j s = Some (d_argv s ! j)" "d_argv s ! j \<in> set (d_argv s)" "enc s (d_argv s ! j) = Some (ENC_RAW (as ! j))"
    "arg_raw j s = Some (as ! j)" "raw s (d_argv s ! j) = Some (as ! j)" "strs s (d_argv s ! j) = Some (as ! j)"
  using assms arg_nth [of j s] arg_raw_nth [of j s] by (simp_all add: raw_args_def strs_def str_bytes_def)

lemma getll_str: "getLongLongFromObject (Some e) = getLongLongFromObject (Some (ENC_RAW (str_bytes e)))"
proof (cases e)
  case (ENC_INT v)
  have "- (2 ^ 63) \<le> sint v" "sint v \<le> 2 ^ 63 - 1" using sint_range_u64 [of v] by simp_all
  from strtoll_idec [OF this, of "[]"] show ?thesis by (simp add: ENC_INT str_bytes_def getLongLongFromObject_def)
qed (simp add: str_bytes_def)

lemma getLongLong_num:
  assumes "strs s a = Some b"
  shows "getLongLongFromObjectOrReply (Some a) None s =
    Some (case num b of Some n \<Rightarrow> (Some n, s) | None \<Rightarrow> (None, d_reply [not_int] s))"
proof -
  obtain ob where ob: "obj_at s a = Some ob" "b = str_bytes (o_str ob)" using assms by (auto simp: strs_def enc_def)
  have "num b = map_option sint (getLongLongFromObject (Some (o_str ob)))" unfolding num_def ob(2) using getll_str by metis
  then show ?thesis using ob(1) by (cases "getLongLongFromObject (Some (o_str ob))") (simp_all add: getLongLongFromObjectOrReply_def not_int_def)
qed

lemma num_range: "num b = Some n \<Longrightarrow> - (2 ^ 63) \<le> n \<and> n \<le> 2 ^ 63 - 1"
  using sint_range_u64 by (auto simp: num_def)

lemma getLong_num:
  assumes "strs s a = Some b"
  shows "getLongFromObjectOrReply (Some a) None s =
    Some (case num b of Some n \<Rightarrow> (Some n, s) | None \<Rightarrow> (None, d_reply [not_int] s))"
  using num_range [of b] by (auto simp: getLongFromObjectOrReply_def getLongLong_num [OF assms] split: option.split)

text \<open>What a lookup finds.\<close>

lemma found_cases:
  assumes ok: "kv_ok zero s" and f: "found db k v s"
  obtains (Absent) "v = None" "live s (db, k) = None" "map_of (dict_of s db) k = None" "expi s (db, k) = None" "look s (db, k) = None"
  | (String) a b e where "v = Some (VStr a)" "live s (db, k) = Some (AStr b, e)" "strs s a = Some b" "expi s (db, k) = e"
      "map_of (dict_of s db) k = Some (VStr a)" "look s (db, k) = Some (AStr b)"
  | (Other) t i e where "v = Some (VAgg t i)" "live s (db, k) = Some (AAgg t i, e)"
proof (cases v)
  case None
  have "expi s (db, k) = None" using expi_dict [OF ok, of db k] f None
    by (cases "map_of (expires_of s db) k") (simp_all add: found_def expi_def)
  then show ?thesis using None f Absent by (simp add: found_def live_def look_def)
next
  case (Some d)
  show ?thesis
  proof (cases d)
    case (VStr a)
    then have m: "map_of (dict_of s db) k = Some (VStr a)" using f Some by (simp add: found_def)
    then obtain b where b: "strs s a = Some b" using obj_in_dict [OF ok _ m] by (auto simp: strs_def enc_def)
    then have l: "look s (db, k) = Some (AStr b)" using m by (simp add: look_def val_at_def)
    then have "live s (db, k) = Some (AStr b, expi s (db, k))" using f by (simp add: live_def found_def)
    then show ?thesis using String Some VStr b m l by blast
  next
    case (VAgg t i)
    then have "look s (db, k) = Some (AAgg t i)" using f Some by (simp add: look_def val_at_def found_def)
    then have "live s (db, k) = Some (AAgg t i, expi s (db, k))" using f by (simp add: live_def found_def)
    then show ?thesis using Other Some VAgg by blast
  qed
qed

lemma ctx_of_quiet [simp]:
  "ctx_of (d_reply rs s) = ctx_of s" "ctx_of (bump n s) = ctx_of s" "ctx_of (signalModifiedKey db k s) = ctx_of s"
  by (simp_all add: ctx_of_def)

lemma lookup_write:
  assumes ok: "kv_ok zero s"
  obtains v t where "lookupKeyWrite db k s = Some (v, t)" "kv_ok zero t" "kv_step s t" "live t = live s" "found db k v t"
    "ev s t [] [] 0" "args t = args s" "d_argv t = d_argv s" "ctx_of t = ctx_of s" "d_db t = d_db s"
proof -
  from lookupKeyWrite_ok [OF ok, of db k] obtain v t where t: "lookupKeyWrite db k s = Some (v, t)" "kv_ok zero t" "kv_step s t"
    "live t = live s" "found db k v t" by auto
  show ?thesis by (rule that [OF t])
    (use kv_step_ev [OF t(3)] args_step [OF ok t(2,3)] kv_step_fields [OF t(3)] ctx_of_ev in simp_all)
qed

lemma lookup_read:
  assumes ok: "kv_ok zero s"
  obtains v t where "lookupKeyRead db k s = Some (v, t)" "kv_ok zero t" "kv_step s t" "live t = live s" "found db k v t"
    "ev s t [] [] 0" "args t = args s" "d_argv t = d_argv s" "ctx_of t = ctx_of s" "d_db t = d_db s"
proof -
  from lookupKeyRead_ok [OF ok, of db k] obtain v t where t: "lookupKeyRead db k s = Some (v, t)" "kv_ok zero t" "kv_step s t"
    "live t = live s" "found db k v t" by auto
  show ?thesis by (rule that [OF t])
    (use kv_step_ev [OF t(3)] args_step [OF ok t(2,3)] kv_step_fields [OF t(3)] ctx_of_ev in simp_all)
qed

lemma kv_db: "kv_ok H s \<Longrightarrow> d_db s < d_dbnum s"
  by (simp add: kv_ok_def dbs_ok_def)

lemma arg_small: "kv_ok H s \<Longrightarrow> arg_raw j s = Some b \<Longrightarrow> length b \<le> 2 ^ 29"
  using raw_small [of H s _ b] by (auto simp: arg_raw_def split: bind_splits)

lemma setGeneric_plain:
  assumes ok: "kv_ok zero s" and k: "raw s key = Some k" and v: "v \<in> set (d_argv s)" "strs s v = Some b"
    and e: "expire = None \<and> t = None \<and> ms = Some 0 \<or> expire \<noteq> None \<and> t = Some (llong (d_mstime s + the ms)) \<and> ms \<noteq> None \<and> \<not> nx"
  shows "meets s (case ms of
       None \<Rightarrow> Some s
     | Some milliseconds \<Rightarrow> do {
         k \<leftarrow> raw s key;
         (old, s) \<leftarrow> lookupKeyWrite (d_db s) k s;
         if old \<noteq> None \<and> nx then Some (d_reply [Shared ''czero''] s)
         else do {
           s \<leftarrow> setKey (d_db s) k (VStr v) s;
           let s = bump 1 s;
           s \<leftarrow> (if expire \<noteq> None then setExpire (d_db s) k (llong (d_mstime s + milliseconds)) s else Some s);
           Some (d_reply [Shared (if nx then ''cone'' else ''ok'')] s)
         }
       }) (sp_set (ctx_of s) nx k b t (live s))"
proof -
  obtain milli where ms: "ms = Some milli" using e by auto
  obtain old s1 where s1: "lookupKeyWrite (d_db s) k s = Some (old, s1)" "kv_ok zero s1" "kv_step s s1" "live s1 = live s"
    "found (d_db s) k old s1" "ev s s1 [] [] 0" "args s1 = args s" "d_argv s1 = d_argv s" "ctx_of s1 = ctx_of s" "d_db s1 = d_db s"
    by (rule lookup_write [OF ok])
  have old: "old \<noteq> None \<longleftrightarrow> live s (d_db s, k) \<noteq> None" using s1(2,4,5) by (auto elim: found_cases)
  show ?thesis
  proof (cases "old \<noteq> None \<and> nx")
    case True
    then have "sp_set (ctx_of s) nx k b t (live s) = sp_err (Shared ''czero'') (live s)" using old by (simp add: sp_set_def Let_def)
    then show ?thesis using meets_sp_err [OF s1(2,4,6)] k s1(1) True by (simp add: ms)
  next
    case False
    have v1: "v \<in> set (d_argv s1)" "d_db s < d_dbnum s1" "strs s1 v = Some b"
      using v(1) s1(8) kv_db [OF s1(2)] s1(10) arg_strs [OF ok s1(2,3) v(1)] v(2) by simp_all
    from setKey_ok [OF s1(2) v1(1,2) raw_small [OF ok k]] obtain s2 where s2: "setKey (d_db s) k (VStr v) s1 = Some s2" "kv_ok zero s2"
      "ev s1 s2 [] [KeyModified (d_db s) k] 0" "live s2 = (live s)((d_db s, k) \<mapsto> (AStr b, None))"
      "map_of (dict_of s2 (d_db s)) k \<noteq> None" "look s2 (d_db s, k) = Some (AStr b)"
      using s1(4) v1(3) by auto
    have e2: "ev s (bump 1 s2) [] [KeyModified (d_db s) k] 1"
      using ev_more(2) [OF ev_quiet [OF s1(6) s2(3)], of 1] by simp
    note en = ev_env [OF ev_quiet [OF s1(6) s2(3)]]
    have sp: "sp_set (ctx_of s) nx k b t (live s) =
      ((live s)((d_db s, k) := case t of None \<Rightarrow> Some (AStr b, None) | Some w \<Rightarrow> if gone (ctx_of s) w then None else Some (AStr b, Some w)),
       [Shared (if nx then ''cone'' else ''ok'')], [KeyModified (d_db s) k], 1)"
    proof -
      have "\<not> (nx \<and> live s (d_db s, k) \<noteq> None)" using False old by blast
      then show ?thesis unfolding sp_set_def Let_def ctx_db by (rule if_not_P)
    qed
    show ?thesis
    proof (cases "expire = None")
      case True
      then show ?thesis unfolding sp using e
        by (intro meetsI [of _ "d_reply [Shared (if nx then ''cone'' else ''ok'')] (bump 1 s2)"])
          (use k s1(1,10) s2 False ms ev_more(1) [OF e2, of "[Shared (if nx then ''cone'' else ''ok'')]"] en in \<open>auto simp: Let_def\<close>)
    next
      case exp: False
      then have t: "t = Some (llong (d_mstime s + milli))" using e ms by auto
      define w where "w = llong (d_mstime s + milli)"
      define s3 where "s3 = set_expires (d_db s) (AList.update k w (expires_of s2 (d_db s))) (bump 1 s2)"
      have s3: "setExpire (d_db s) k w (bump 1 s2) = Some s3" using s2(5) by (simp add: setExpire_def s3_def)
      have ok3: "kv_ok zero s3" unfolding s3_def using kv_update_expire [of zero "bump 1 s2" "d_db s" k w] s2(2,5) by simp
      have st: "kv_step (bump 1 s2) s3" by (simp add: s3_def)
      have "look s3 = (look s2)((d_db s, k) := Some (AStr b))" "expi s3 = (expi s2)((d_db s, k) := Some w)"
        using s2(6) look_set_dict(3) [of "d_db s" "AList.update k w (expires_of s2 (d_db s))" "bump 1 s2"] look_set_dict(5) [of "d_db s" k w "bump 1 s2"]
        by (simp_all add: s3_def fun_upd_idem)
      then have "live s3 = (live s)((d_db s, k) := if gone (ctx_of s) w then None else Some (AStr b, Some w))"
        using live_upd [OF st, of "(d_db s, k)" "Some (AStr b)" "Some w"] s2(4) ctx_of_ev [OF e2]
        by (simp add: dead_gone)
      moreover have "ev s (d_reply [Shared (if nx then ''cone'' else ''ok'')] s3) [Shared (if nx then ''cone'' else ''ok'')] [KeyModified (d_db s) k] 1"
        using ev_more(1) [OF ev_trans [OF e2 kv_step_ev [OF st]], of "[Shared (if nx then ''cone'' else ''ok'')]"] by simp
      ultimately show ?thesis unfolding sp unfolding t option.case
        by (intro meetsI [of _ "d_reply [Shared (if nx then ''cone'' else ''ok'')] s3"])
          (use k s1(1,10) s2(1) False ms en exp s3 ok3 in \<open>auto simp: Let_def w_def\<close>)
    qed
  qed
qed

lemma raw_args_length: "raw_args as s \<Longrightarrow> length (d_argv s) = length as"
  by (metis args_def length_map raw_args_def)

lemma raw_args_cong: "args t = args s \<Longrightarrow> raw_args as t = raw_args as s"
  by (simp add: raw_args_def)

text \<open>The arguments after the one at \<open>j\<close> has been encoded.\<close>

definition enc_args :: "byte list list \<Rightarrow> nat \<Rightarrow> dserver \<Rightarrow> bool" where
  "enc_args as j s \<longleftrightarrow> length (args s) = length as \<and>
     (\<forall>i < length as. \<exists>v. args s ! i = Some v \<and> str_bytes v = as ! i \<and> (i \<noteq> j \<longrightarrow> v = ENC_RAW (as ! i)))"

lemma enc_args_nth:
  assumes "enc_args as j s" "i < length as"
  shows "arg i s = Some (d_argv s ! i)" "d_argv s ! i \<in> set (d_argv s)" "strs s (d_argv s ! i) = Some (as ! i)"
    "i \<noteq> j \<Longrightarrow> arg_raw i s = Some (as ! i)" "i \<noteq> j \<Longrightarrow> raw s (d_argv s ! i) = Some (as ! i)"
proof -
  have l: "i < length (args s)" using assms by (simp add: enc_args_def)
  obtain v where v: "args s ! i = Some v" "str_bytes v = as ! i" "i \<noteq> j \<longrightarrow> v = ENC_RAW (as ! i)"
    using assms unfolding enc_args_def by blast
  then show "arg i s = Some (d_argv s ! i)" "d_argv s ! i \<in> set (d_argv s)" "strs s (d_argv s ! i) = Some (as ! i)"
    "i \<noteq> j \<Longrightarrow> arg_raw i s = Some (as ! i)" "i \<noteq> j \<Longrightarrow> raw s (d_argv s ! i) = Some (as ! i)"
    using arg_nth [OF l] arg_raw_nth [OF l] by (simp_all add: strs_def)
qed

lemma encode_raw:
  assumes ok: "kv_ok zero s" and as: "raw_args as s" "j < length as"
  shows "\<exists>t. encode_arg j s = Some t \<and> kv_ok zero t \<and> ev s t [] [] 0 \<and> live t = live s \<and> ctx_of t = ctx_of s \<and> d_db t = d_db s \<and>
    dict_of t = dict_of s \<and> look t = look s \<and> expi t = expi s \<and> enc_args as j t"
proof -
  note l = raw_args_length [OF as(1)]
  from encode_arg_ok [OF ok, of j] as l obtain t v where t: "encode_arg j s = Some t" "kv_ok zero t" "ev s t [] [] 0" "look t = look s"
    "expi t = expi s" "dict_of t = dict_of s" "length (d_argv t) = length (d_argv s)" "args t = (args s)[j := Some v]"
    "strs s (d_argv s ! j) = Some (str_bytes v)" by auto
  have v: "str_bytes v = as ! j" using t(9) raw_args_nth(6) [OF as] by simp
  have "enc_args as j t" using t(8) as v by (auto simp: enc_args_def raw_args_def nth_list_update str_bytes_def)
  moreover have "live t = live s" using t(4,5) ev_dead [OF t(3)] by (simp add: live_def fun_eq_iff)
  ultimately show ?thesis using t ev_env [OF t(3)] ctx_of_ev [OF t(3)] by blast
qed

lemma set_ok:
  assumes ok: "kv_ok zero s" and as: "raw_args [c, k, v] s"
  shows "meets s (setCommand s) (sp_set (ctx_of s) False k v None (live s))"
    "meets s (setnxCommand s) (sp_set (ctx_of s) True k v None (live s))"
proof -
  obtain t where t: "encode_arg 2 s = Some t" "kv_ok zero t" "ev s t [] [] 0" "live t = live s" "ctx_of t = ctx_of s" "enc_args [c, k, v] 2 t"
    using encode_raw [OF ok as, of 2] by auto
  note a = enc_args_nth [OF t(6)]
  have "meets t (setGenericCommand nx (d_argv t ! 1) (d_argv t ! 2) None False t) (sp_set (ctx_of t) nx k v None (live t))" for nx
    unfolding setGenericCommand_def
    using setGeneric_plain [OF t(2), of "d_argv t ! 1" k "d_argv t ! 2" v None None "Some 0" nx] a(2,3) [of 1] a(2,3) [of 2] a(5) [of 1] by simp
  then have m: "meets s (setGenericCommand nx (d_argv t ! 1) (d_argv t ! 2) None False t) (sp_set (ctx_of s) nx k v None (live s))" for nx
    using meets_quiet [OF t(3)] t(4,5) by simp
  show "meets s (setCommand s) (sp_set (ctx_of s) False k v None (live s))"
    "meets s (setnxCommand s) (sp_set (ctx_of s) True k v None (live s))"
    using m t(1) a(1) [of 1] a(1) [of 2] by (simp_all add: setCommand_def setnxCommand_def)
qed

lemma setex_generic:
  assumes ok: "kv_ok zero s" and k: "raw s key = Some k" and v: "v \<in> set (d_argv s)" "strs s v = Some b" and e: "strs s e = Some eb"
  shows "meets s (setGenericCommand False key v (Some e) seconds s)
    (sp_setex (ctx_of s) (if seconds then 1000 else 1) k eb b (live s))"
proof (cases "num eb")
  case None
  have "meets s (Some (d_reply [not_int] s)) (sp_err not_int (live s))" by (rule meets_sp_err [OF ok]) simp_all
  then show ?thesis using None by (simp add: setGenericCommand_def getLongLong_num [OF e] sp_setex_def)
next
  case (Some n)
  show ?thesis
  proof (cases "n \<le> 0")
    case True
    have "meets s (Some (d_reply [ReplyError ''invalid expire time in SETEX''] s)) (sp_err (ReplyError ''invalid expire time in SETEX'') (live s))"
      by (rule meets_sp_err [OF ok]) simp_all
    then show ?thesis using Some True by (simp add: setGenericCommand_def getLongLong_num [OF e] sp_setex_def)
  next
    case False
    have "sint (v :: u64) = llong (sint v)" for v by (simp add: llong_def)
    then have n: "llong n = n" using Some by (auto simp: num_def)
    define ms where "ms = (if seconds then llong (n * 1000) else n)"
    have "llong (n * (if seconds then 1000 else 1)) = ms" using n by (simp add: ms_def)
    then show ?thesis
      using setGeneric_plain [OF ok k v, of "Some e" "Some (llong (d_mstime s + ms))" "Some ms" False] Some False
      by (simp add: setGenericCommand_def getLongLong_num [OF e] sp_setex_def ms_def)
  qed
qed

lemma setex_ok:
  assumes ok: "kv_ok zero s" and as: "raw_args [c, k, e, v] s"
  shows "meets s (setexCommand s) (sp_setex (ctx_of s) 1000 k e v (live s))"
    "meets s (psetexCommand s) (sp_setex (ctx_of s) 1 k e v (live s))"
proof -
  obtain t where t: "encode_arg 3 s = Some t" "kv_ok zero t" "ev s t [] [] 0" "live t = live s" "ctx_of t = ctx_of s" "enc_args [c, k, e, v] 3 t"
    using encode_raw [OF ok as, of 3] by auto
  note a = enc_args_nth [OF t(6)]
  have "meets t (setGenericCommand False (d_argv t ! 1) (d_argv t ! 3) (Some (d_argv t ! 2)) seconds t)
      (sp_setex (ctx_of t) (if seconds then 1000 else 1) k e v (live t))" for seconds
    by (rule setex_generic [OF t(2)]) (use a(2,3) [of 3] a(2,3) [of 2] a(5) [of 1] in simp_all)
  then have m: "meets s (setGenericCommand False (d_argv t ! 1) (d_argv t ! 3) (Some (d_argv t ! 2)) seconds t)
      (sp_setex (ctx_of s) (if seconds then 1000 else 1) k e v (live s))" for seconds
    using meets_quiet [OF t(3)] t(4,5) by simp
  show "meets s (setexCommand s) (sp_setex (ctx_of s) 1000 k e v (live s))"
    "meets s (psetexCommand s) (sp_setex (ctx_of s) 1 k e v (live s))"
    using m [of True] m [of False] t(1) a(1) [of 1] a(1) [of 2] a(1) [of 3] by (simp_all add: setexCommand_def psetexCommand_def)
qed

lemma checkType_simps [simp]:
  "checkType (VStr a) s = (Some a, s)" "checkType (VAgg t i) s = (None, d_reply [Shared ''wrongtypeerr''] s)"
  by (simp_all add: checkType_def)

lemma getGeneric_ok:
  assumes ok: "kv_ok zero s" and k: "arg_raw 1 s = Some k"
  shows "\<exists>b s'. getGenericCommand s = Some (b, s') \<and> kv_ok zero s' \<and> live s' = live s \<and> args s' = args s \<and> d_argv s' = d_argv s \<and>
    b = (case live s (d_db s, k) of Some (AAgg _ _, _) \<Rightarrow> False | _ \<Rightarrow> True) \<and>
    ev s s' [case live s (d_db s, k) of None \<Rightarrow> Shared ''nullbulk'' | Some (AStr b, _) \<Rightarrow> Bulk b | Some (AAgg _ _, _) \<Rightarrow> Shared ''wrongtypeerr''] [] 0"
proof -
  obtain v t where t: "lookupKeyRead (d_db s) k s = Some (v, t)" "kv_ok zero t" "live t = live s" "found (d_db s) k v t"
    "ev s t [] [] 0" "args t = args s" "d_argv t = d_argv s"
    by (rule lookup_read [OF ok, of "d_db s" k])
  have e: "ev s (d_reply [r] t) [r] [] 0" for r using ev_more(1) [OF t(5), of "[r]"] by simp
  show ?thesis
    using t(2,4)
  proof (cases rule: found_cases)
    case Absent
    then show ?thesis using t e k
      by (intro exI [of _ True] exI [of _ "d_reply [Shared ''nullbulk''] t"]) (simp add: getGenericCommand_def lookupKeyReadOrReply_def)
  next
    case (String a b w)
    then show ?thesis using t e k
      by (intro exI [of _ True] exI [of _ "d_reply [Bulk b] t"]) (simp add: getGenericCommand_def lookupKeyReadOrReply_def str_of_strs)
  next
    case (Other ty i w)
    then show ?thesis using t e k
      by (intro exI [of _ False] exI [of _ "d_reply [Shared ''wrongtypeerr''] t"]) (simp add: getGenericCommand_def lookupKeyReadOrReply_def)
  qed
qed

lemma get_ok:
  assumes ok: "kv_ok zero s" and as: "raw_args [c, k] s"
  shows "meets s (getCommand s) (sp_get (ctx_of s) k (live s))"
proof -
  have k: "arg_raw 1 s = Some k" using raw_args_nth(4) [OF as, of 1] by simp
  from getGeneric_ok [OF ok k] show ?thesis
    by (auto simp: getCommand_def sp_get_def sp_err_def meets_def split: option.splits aval.splits)
qed

lemma getset_ok:
  assumes ok: "kv_ok zero s" and as: "raw_args [c, k, v] s"
  shows "meets s (getsetCommand s) (sp_getset (ctx_of s) k v (live s))"
proof -
  have k: "arg_raw 1 s = Some k" using raw_args_nth(4) [OF as, of 1] by simp
  define r where "r = (case live s (d_db s, k) of None \<Rightarrow> Shared ''nullbulk'' | Some (AStr b, _) \<Rightarrow> Bulk b | Some (AAgg _ _, _) \<Rightarrow> Shared ''wrongtypeerr'')"
  from getGeneric_ok [OF ok k, folded r_def] obtain b t where t: "getGenericCommand s = Some (b, t)" "kv_ok zero t" "live t = live s" "args t = args s"
    "b = (case live s (d_db s, k) of Some (AAgg _ _, _) \<Rightarrow> False | _ \<Rightarrow> True)" "ev s t [r] [] 0" by auto
  show ?thesis
  proof (cases b)
    case False
    then obtain ty i w where "live s (d_db s, k) = Some (AAgg ty i, w)" using t(5) by (auto split: option.splits aval.splits)
    then show ?thesis using t False by (auto simp: getsetCommand_def sp_getset_def sp_err_def meets_def r_def)
  next
    case True
    have ra: "raw_args [c, k, v] t" "2 < length [c, k, v]" using as t(4) by (simp_all add: raw_args_def)
    from encode_raw [OF t(2) ra] obtain u where u: "encode_arg 2 t = Some u" "kv_ok zero u" "ev t u [] [] 0" "live u = live t" "d_db u = d_db t"
      "enc_args [c, k, v] 2 u" by blast
    note a = enc_args_nth [OF u(6)]
    have d: "d_db u = d_db s" using u(5) ev_env [OF t(6)] by simp
    from setKey_ok [OF u(2) a(2), of 2 "d_db s" k] arg_small [OF ok k] obtain w where w: "setKey (d_db s) k (VStr (d_argv u ! 2)) u = Some w" "kv_ok zero w"
      "ev u w [] [KeyModified (d_db s) k] 0" "live w = (live s)((d_db s, k) \<mapsto> (AStr v, None))"
      using kv_db [OF u(2)] d u(4) a(3) [of 2] t(3) by auto
    have "ev s (bump 1 w) [r] [KeyModified (d_db s) k] 1"
      using ev_more(2) [OF ev_trans [OF t(6) ev_quiet [OF u(3) w(3)]], of 1] by simp
    moreover have "getsetCommand s = Some (bump 1 w)" using t(1) True u(1) a(1) [of 2] a(4) [of 1] w(1) d by (simp add: getsetCommand_def)
    moreover have "sp_getset (ctx_of s) k v (live s) = ((live s)((d_db s, k) \<mapsto> (AStr v, None)), [r], [KeyModified (d_db s) k], 1)"
      using True t(5) by (auto simp: sp_getset_def r_def split: option.splits aval.splits)
    ultimately show ?thesis using w(2,4) by (auto intro: meetsI)
  qed
qed

lemma slen: "strs s a = Some b \<Longrightarrow> \<exists>ob. obj_at s a = Some ob \<and> stringObjectLen (o_str ob) = length b"
  by (cases "obj_at s a") (simp_all add: strs_def enc_def stringObjectLen_ok)

lemma strlen_ok:
  assumes ok: "kv_ok zero s" and as: "raw_args [c, k] s"
  shows "meets s (strlenCommand s) (sp_strlen (ctx_of s) k (live s))"
proof -
  have k: "arg_raw 1 s = Some k" using raw_args_nth(4) [OF as, of 1] by simp
  obtain v t where t: "lookupKeyRead (d_db s) k s = Some (v, t)" "kv_ok zero t" "live t = live s" "found (d_db s) k v t" "ev s t [] [] 0"
    by (rule lookup_read [OF ok, of "d_db s" k])
  note e = meets_sp_err [OF t(2,3,5)]
  show ?thesis
    using t(2,4)
  proof (cases rule: found_cases)
    case Absent
    then show ?thesis using t e k by (simp add: strlenCommand_def lookupKeyReadOrReply_def sp_strlen_def)
  next
    case (String a b w)
    obtain ob where "obj_at t a = Some ob" "stringObjectLen (o_str ob) = length b" using slen [OF String(3)] by blast
    then show ?thesis using t e k String by (simp add: strlenCommand_def lookupKeyReadOrReply_def sp_strlen_def)
  next
    case (Other ty i w)
    then show ?thesis using t e k by (simp add: strlenCommand_def lookupKeyReadOrReply_def sp_strlen_def)
  qed
qed

lemma mget_loop_ok:
  assumes "kv_ok zero s" "list_all2 (\<lambda>a k. raw s a = Some k \<and> a \<in> set (d_argv s)) as ks"
  shows "\<exists>s'. mget_loop as s = Some s' \<and> kv_ok zero s' \<and> live s' = live s \<and>
    ev s s' (map (\<lambda>k. case live s (d_db s, k) of Some (AStr b, _) \<Rightarrow> Bulk b | _ \<Rightarrow> Shared ''nullbulk'') ks) [] 0"
  using assms
proof (induction as arbitrary: s ks)
  case (Cons a as)
  obtain k ks' where ks: "ks = k # ks'" "raw s a = Some k" "list_all2 (\<lambda>a k. raw s a = Some k \<and> a \<in> set (d_argv s)) as ks'"
    using Cons.prems(2) by (auto simp: list_all2_Cons1)
  obtain v t where t: "lookupKeyRead (d_db s) k s = Some (v, t)" "kv_ok zero t" "kv_step s t" "live t = live s" "found (d_db s) k v t"
    "ev s t [] [] 0" "args t = args s" "d_argv t = d_argv s" "ctx_of t = ctx_of s" "d_db t = d_db s"
    by (rule lookup_read [OF Cons.prems(1), of "d_db s" k])
  define r where "r = (case live s (d_db s, k) of Some (AStr b, _) \<Rightarrow> Bulk b | _ \<Rightarrow> Shared ''nullbulk'')"
  have r: "(case v of Some (VStr x) \<Rightarrow> map_option Bulk (str_of x t) | _ \<Rightarrow> Some (Shared ''nullbulk'')) = Some r"
    using t(2,5) by (cases rule: found_cases) (use t(4) in \<open>simp_all add: r_def str_of_strs\<close>)
  have enc: "enc t x = enc s x" if "x \<in> set (d_argv s)" for x
    using t(7,8) that by (simp add: args_def)
  have "list_all2 (\<lambda>a k. raw (d_reply [r] t) a = Some k \<and> a \<in> set (d_argv (d_reply [r] t))) as ks'"
    using ks(3) by (rule list_all2_mono) (use enc t(8) in \<open>simp add: raw_enc\<close>)
  from Cons.IH [OF _ this] t(2) obtain s' where s': "mget_loop as (d_reply [r] t) = Some s'" "kv_ok zero s'" "live s' = live s"
    "ev (d_reply [r] t) s' (map (\<lambda>k. case live s (d_db s, k) of Some (AStr b, _) \<Rightarrow> Bulk b | _ \<Rightarrow> Shared ''nullbulk'') ks') [] 0"
    using t(4,10) by auto
  have "ev s s' (r # map (\<lambda>k. case live s (d_db s, k) of Some (AStr b, _) \<Rightarrow> Bulk b | _ \<Rightarrow> Shared ''nullbulk'') ks') [] 0"
    using ev_trans [OF ev_more(1) [OF t(6), of "[r]"] s'(4)] by simp
  then show ?case using s' ks t(1) r by (auto simp: r_def)
qed simp

lemma raw_args_all:
  assumes "raw_args as s"
  shows "list_all2 (\<lambda>a k. raw s a = Some k \<and> a \<in> set (d_argv s)) (d_argv s) as"
  using raw_args_nth [OF assms] raw_args_length [OF assms] by (auto simp: list_all2_conv_all_nth)

lemma mget_ok:
  assumes ok: "kv_ok zero s" and as: "raw_args (c # ks) s"
  shows "meets s (mgetCommand s) (sp_mget (ctx_of s) ks (live s))"
proof -
  obtain x xs where x: "d_argv s = x # xs" "list_all2 (\<lambda>a k. raw s a = Some k \<and> a \<in> set (d_argv s)) xs ks"
    using raw_args_all [OF as] by (auto simp: list_all2_Cons2)
  have l: "length (d_argv s) = Suc (length ks)" using raw_args_length [OF as] by simp
  define t where "t = d_reply [MbulkHdr (length ks)] s"
  have "list_all2 (\<lambda>a k. raw t a = Some k \<and> a \<in> set (d_argv t)) xs ks" using x(2) by (simp add: t_def)
  from mget_loop_ok [OF _ this] ok obtain s' where s': "mget_loop xs t = Some s'" "kv_ok zero s'" "live s' = live s"
    "ev t s' (map (\<lambda>k. case live s (d_db s, k) of Some (AStr b, _) \<Rightarrow> Bulk b | _ \<Rightarrow> Shared ''nullbulk'') ks) [] 0"
    by (auto simp: t_def)
  have "ev s t [MbulkHdr (length ks)] [] 0" using ev_more(1) [OF ev_refl, of s "[MbulkHdr (length ks)]"] by (simp add: t_def)
  from ev_trans [OF this s'(4)] show ?thesis
    unfolding sp_mget_def ctx_db by (intro meetsI [OF _ s'(2,3)]) (use s'(1) x(1) l in \<open>simp_all add: mgetCommand_def t_def\<close>)
qed

text \<open>Changing a string in place, after the copy of a shared one.\<close>

lemma modify_ok:
  assumes ok: "kv_ok zero s" and f: "map_of (dict_of s db) k = Some (VStr a)" "strs s a = Some b" "expi s (db, k) = e" "\<not> dead s e"
  shows "\<exists>n t. unshare db k a s = Some (n, t) \<and> raw t n = Some b \<and> ev s t [] [] 0 \<and> d_db t = d_db s \<and> d_alloc t = d_alloc s \<and> args t = args s \<and>
    d_argv t = d_argv s \<and>
    (\<forall>b'. length b' \<le> 2 ^ 29 \<longrightarrow> (\<exists>s'. set_raw n b' t = Some s' \<and> kv_ok zero s' \<and> ev s s' [] [] 0 \<and> live s' = (live s)((db, k) \<mapsto> (AStr b', e)) \<and> raw s' n = Some b'))"
proof -
  from unshare_ok [OF ok f(1)] f(2) obtain n t where t: "unshare db k a s = Some (n, t)" "kv_ok zero t" "kv_step s t" "look t = look s" "expi t = expi s"
    "map_of (dict_of t db) k = Some (VStr n)" "rc t n = 1" "raw t n = Some b" by auto
  note e = kv_step_ev [OF t(3)]
  have "\<exists>s'. set_raw n b' t = Some s' \<and> kv_ok zero s' \<and> ev s s' [] [] 0 \<and> live s' = (live s)((db, k) \<mapsto> (AStr b', e)) \<and> raw s' n = Some b'" if "length b' \<le> 2 ^ 29" for b'
  proof -
    from set_raw_ok [OF t(2,6,7) that] obtain s' where s': "set_raw n b' t = Some s'" "kv_ok zero s'" "ev t s' [] [] 0"
      "look s' = (look t)((db, k) \<mapsto> AStr b')" "expi s' = expi t" "raw s' n = Some b'" by blast
    have "live s' = (live s)((db, k) \<mapsto> (AStr b', e))"
      using s'(4,5) t(4,5) f(3,4) ev_dead [OF ev_quiet [OF e s'(3)]] by (auto simp: live_def fun_eq_iff)
    then show ?thesis using s' ev_quiet [OF e s'(3)] by blast
  qed
  then show ?thesis using t e kv_step_fields [OF t(3)] args_step [OF ok t(2,3)] by auto
qed

lemma append_ok:
  assumes ok: "kv_ok zero s" and as: "raw_args [c, k, v] s" and alloc: "2 ^ 29 \<le> d_alloc s"
  shows "meets s (appendCommand s) (sp_append (ctx_of s) k v (live s))"
proof -
  have k: "arg_raw 1 s = Some k" using raw_args_nth(4) [OF as, of 1] by simp
  obtain ov t where t: "lookupKeyWrite (d_db s) k s = Some (ov, t)" "kv_ok zero t" "kv_step s t" "live t = live s" "found (d_db s) k ov t"
    "ev s t [] [] 0" "args t = args s" "d_argv t = d_argv s" "ctx_of t = ctx_of s" "d_db t = d_db s"
    by (rule lookup_write [OF ok, of "d_db s" k])
  have ra: "raw_args [c, k, v] t" "2 < length [c, k, v]" using as t(7) by (simp_all add: raw_args_def)
  note e = meets_sp_err [OF t(2,4,6)]
  show ?thesis
    using t(2,5)
  proof (cases rule: found_cases)
    case Absent
    from encode_raw [OF t(2) ra] obtain u where u: "encode_arg 2 t = Some u" "kv_ok zero u" "ev t u [] [] 0" "live u = live t" "d_db u = d_db t"
      "dict_of u = dict_of t" "expi u = expi t" "enc_args [c, k, v] 2 u" by blast
    note a = enc_args_nth [OF u(8)]
    have m: "map_of (dict_of u (d_db s)) k = None" using Absent u(6) by simp
    have db: "d_db s < d_dbnum u" using kv_db [OF u(2)] u(5) t(10) by simp
    let ?x = "d_argv u ! 2"
    from store_arg_ok [OF u(2) a(2) db arg_small [OF ok k], of 2] m obtain w where
      w: "Option.bind (dbAdd (d_db s) k (VStr ?x) u) (incr_val (VStr ?x)) = Some w" "kv_ok zero w" "kv_step u w"
        "look w = (look u)((d_db s, k) := val_at u (VStr ?x))" "expi w = expi u" by auto
    have sx: "strs w ?x = Some v" using arg_strs [OF u(2) w(2,3) a(2)] a(3) by simp
    have ew: "ev s w [] [] 0" using ev_quiet [OF t(6) ev_quiet [OF u(3) kv_step_ev [OF w(3)]]] .
    obtain ob where ob: "obj_at w ?x = Some ob" "stringObjectLen (o_str ob) = length v" using slen [OF sx] by blast
    have "live w = (live s)((d_db s, k) \<mapsto> (AStr v, None))"
      using live_upd [OF w(3), of "(d_db s, k)" "Some (AStr v)" None] w(4,5) a(3) [of 2] u(4,7) t(4) Absent
      by (simp add: val_at_def fun_upd_idem)
    moreover have "appendCommand s = Some (d_reply [LongLong (int (length v))] (bump 1 (signalModifiedKey (d_db s) k w)))"
      using k t(1) Absent u(1,5) t(10) a(1) [of 2] w(1) ob ev_env [OF ew]
      by (auto simp: appendCommand_def incr_val_def split: bind_splits)
    moreover have "ev s (d_reply [LongLong (int (length v))] (bump 1 (signalModifiedKey (d_db s) k w))) [LongLong (int (length v))] [KeyModified (d_db s) k] 1"
      using ev_more(1) [OF ev_more(2) [OF ev_more(3) [OF ew, of "d_db s" k], of 1], of "[LongLong (int (length v))]"] by simp
    ultimately show ?thesis using Absent t(4) w(2) by (simp add: sp_append_def meets_def)
  next
    case (String a b w)
    have nd: "\<not> dead t w" using t(5) String by (simp add: found_def)
    obtain ob where ob: "obj_at t a = Some ob" "stringObjectLen (o_str ob) = length b" using slen [OF String(3)] by blast
    have app: "arg_raw 2 t = Some v" using raw_args_nth(4) [OF ra] by simp
    show ?thesis
    proof (cases "length (b @ v) > 512 * 1024 * 1024")
      case True
      then show ?thesis using e [of too_long] String t k app ob
        by (simp add: appendCommand_def sp_append_def checkStringLength_def too_long_def)
    next
      case False
      from modify_ok [OF t(2) String(5,3,4) nd] obtain n u where u: "unshare (d_db s) k a t = Some (n, u)" "raw u n = Some b" "ev t u [] [] 0"
        "d_db u = d_db t" "d_alloc u = d_alloc t"
        and m: "\<forall>b'. length b' \<le> 2 ^ 29 \<longrightarrow> (\<exists>s'. set_raw n b' u = Some s' \<and> kv_ok zero s' \<and> ev t s' [] [] 0 \<and> live s' = (live t)((d_db s, k) \<mapsto> (AStr b', w)) \<and> raw s' n = Some b')"
        by blast
      have "length (b @ v) \<le> 2 ^ 29" using False by simp
      with m obtain x where x: "set_raw n (b @ v) u = Some x" "kv_ok zero x" "ev t x [] [] 0" "live x = (live t)((d_db s, k) \<mapsto> (AStr (b @ v), w))" by blast
      have ex: "ev s x [] [] 0" by (rule ev_quiet [OF t(6) x(3)])
      have "sds_catlen u b v = Some (b @ v)" using False alloc u(5) ev_env [OF t(6)] by (simp add: sds_catlen_def)
      then have "appendCommand s = Some (d_reply [LongLong (int (length (b @ v)))] (bump 1 (signalModifiedKey (d_db s) k x)))"
        using k t(1,10) String app ob False u x(1) ev_env [OF ex]
        by (simp add: appendCommand_def checkStringLength_def)
      moreover have "ev s (d_reply [LongLong (int (length (b @ v)))] (bump 1 (signalModifiedKey (d_db s) k x))) [LongLong (int (length (b @ v)))] [KeyModified (d_db s) k] 1"
        using ev_more(1) [OF ev_more(2) [OF ev_more(3) [OF ex, of "d_db s" k], of 1], of "[LongLong (int (length (b @ v)))]"] by simp
      ultimately show ?thesis using String t(4) x(2,4) False by (simp add: sp_append_def meets_def)
    qed
  next
    case (Other ty i w)
    then show ?thesis using t e k by (simp add: appendCommand_def sp_append_def)
  qed
qed

lemma llong_small: "- (2 ^ 63) \<le> v \<Longrightarrow> v < 2 ^ 63 \<Longrightarrow> llong v = v"
  by (simp add: llong_def signed_of_int signed_take_bit_int_eq_self)

lemma long_obj_ok:
  assumes ok: "kv_ok zero s" and v: "- (2 ^ 63) \<le> v" "v < 2 ^ 63"
  shows "\<exists>n t. long_obj v s = Some (n, t) \<and> kv_ok (zero(n := 1)) t \<and> store_step s t \<and> strs t n = Some (idec v)"
proof -
  have sv: "sint (word_of_int v :: u64) = v" using llong_small [OF v] by (simp add: llong_def)
  show ?thesis
  proof (cases "0 \<le> v \<and> v < int REDIS_SHARED_INTEGERS")
    case True
    define b where "b = so_shared (d_store s) (nat v)"
    have nb: "nat v < REDIS_SHARED_INTEGERS" using True by linarith
    then obtain bo where bo: "obj_at s b = Some bo" "o_str bo = ENC_INT (of_nat (nat v))"
      using ok unfolding kv_ok_def objs_ok_def b_def by blast
    have ex: "obj_at s b \<noteq> None" using bo by simp
    from incr_ref_ok [OF ok ex] obtain t where t: "incr_ref b s = Some t" "kv_ok (zero(b := 0 + 1)) t" "store_step s t"
      "\<forall>x. (obj_at t x \<noteq> None) = (obj_at s x \<noteq> None)" by blast
    have "enc t b = enc s b" using enc_step [OF ok t(3)] t(4) bo by auto
    then have "enc t b = Some (ENC_INT (word_of_int v))" using bo True by (simp add: enc_def of_nat_nat)
    then have "strs t b = Some (idec v)" using sv by (simp only: strs_def option.map str_bytes_def str_enc.case)
    moreover have "long_obj v s = Some (b, t)"
      using t(1) True sv by (auto simp: long_obj_def createStringObjectFromLongLong_def b_def incr_ref_def Let_def split: bind_splits)
    ultimately show ?thesis using t by auto
  next
    case False
    from new_obj_ok [OF ok, of "ENC_INT (word_of_int v)"] obtain n t where t: "new_obj (ENC_INT (word_of_int v)) s = (n, t)" "kv_ok (zero(n := 0 + 1)) t"
      "store_step s t" "obj_at t n = Some \<lparr>o_str = ENC_INT (word_of_int v), o_refcount = 1, o_lru = so_lruclock (d_store s)\<rparr>" by auto
    have "long_obj v s = Some (n, t)"
      using t(1) False sv v by (auto simp: long_obj_def createStringObjectFromLongLong_def new_obj_def split: prod.splits)
    moreover have "strs t n = Some (idec v)" using t(4) sv by (simp add: strs_def enc_def str_bytes_def)
    ultimately show ?thesis using t by auto
  qed
qed

lemma overflow_test:
  fixes i old :: int
  assumes "- (2 ^ 63) \<le> i" "i < 2 ^ 63" "- (2 ^ 63) \<le> old" "old < 2 ^ 63"
  shows "(i < 0 \<and> old < 0 \<and> i < - (2 ^ 63) - old \<or> i > 0 \<and> old > 0 \<and> i > 2 ^ 63 - 1 - old) \<longleftrightarrow>
    (old + i < - (2 ^ 63) \<or> old + i \<ge> 2 ^ 63)"
  using assms by linarith

lemma incr_store:
  assumes ok: "kv_ok zero t" and v: "- (2 ^ 63) \<le> v" "v < 2 ^ 63" and db: "db < d_dbnum t"
    and f: "expi t (db, k) = e" "\<not> dead t e" and small: "length k \<le> 2 ^ 29"
  shows "\<exists>n u w. long_obj v t = Some (n, u) \<and>
    (if map_of (dict_of t db) k \<noteq> None then dbOverwrite db k (VStr n) u else dbAdd db k (VStr n) u) = Some w \<and>
    kv_ok zero w \<and> ev t w [] [] 0 \<and> live w = (live t)((db, k) \<mapsto> (AStr (idec v), e)) \<and> strs w n = Some (idec v) \<and> d_db u = d_db t"
proof -
  from long_obj_ok [OF ok v] obtain n u where u: "long_obj v t = Some (n, u)" "kv_ok (zero(n := 1)) u" "store_step t u" "strs u n = Some (idec v)" by blast
  note fu = store_step_fields [OF u(3)]
  have lu: "look u = look t" by (rule look_step [OF ok u(2,3)]) simp_all
  have "\<exists>w. (if map_of (dict_of t db) k \<noteq> None then dbOverwrite db k (VStr n) u else dbAdd db k (VStr n) u) = Some w \<and>
    kv_ok zero w \<and> kv_step u w \<and> look w = (look u)((db, k) := val_at u (VStr n)) \<and> expi w = expi u \<and> map_of (dict_of w db) k = Some (VStr n)"
  proof (cases "map_of (dict_of t db) k = None")
    case True
    then show ?thesis using add_new_ok [OF u(2) _ _ small, of db] db fu by auto
  next
    case False
    then show ?thesis using overwrite_new_ok [OF u(2), of db k] fu by auto
  qed
  then obtain w where w: "(if map_of (dict_of t db) k \<noteq> None then dbOverwrite db k (VStr n) u else dbAdd db k (VStr n) u) = Some w"
    "kv_ok zero w" "kv_step u w" "look w = (look u)((db, k) := val_at u (VStr n))" "expi w = expi u" "map_of (dict_of w db) k = Some (VStr n)" by blast
  have st: "kv_step t w" by (rule kv_step_trans [OF store_kv_step [OF u(3)] w(3)])
  have lw: "look w = (look t)((db, k) \<mapsto> AStr (idec v))" using w(4) lu u(4) by (simp add: val_at_def)
  have "live w = (live t)((db, k) \<mapsto> (AStr (idec v), e))"
    using live_upd [OF st lw, of e] w(5) fu f by (simp add: fun_upd_idem)
  moreover have "look w (db, k) = Some (AStr (idec v))" using lw by simp
  then have "strs w n = Some (idec v)" using w(6) by (simp add: look_def val_at_def)
  ultimately show ?thesis using u(1) w(1,2) kv_step_ev [OF st] fu by blast
qed

lemma incrDecr_ok:
  assumes ok: "kv_ok zero s" and k: "arg_raw 1 s = Some k" and i: "- (2 ^ 63) \<le> i" "i < 2 ^ 63"
  shows "meets s (incrDecrCommand i s) (sp_incr (ctx_of s) k i (live s))"
proof -
  obtain ov t where t: "lookupKeyWrite (d_db s) k s = Some (ov, t)" "kv_ok zero t" "kv_step s t" "live t = live s" "found (d_db s) k ov t"
    "ev s t [] [] 0" "args t = args s" "d_argv t = d_argv s" "ctx_of t = ctx_of s" "d_db t = d_db s"
    by (rule lookup_write [OF ok, of "d_db s" k])
  note e = meets_sp_err [OF t(2,4,6)]
  have db: "d_db s < d_dbnum t" using kv_db [OF t(2)] t(10) by simp
  define C where "C b0 old = (if i < 0 \<and> old < 0 \<and> i < - (2 ^ 63) - old \<or> i > 0 \<and> old > 0 \<and> i > 2 ^ 63 - 1 - old
       then Some (d_reply [ReplyError ''increment or decrement would overflow''] t)
       else do {
         (n, s) \<leftarrow> long_obj (llong (old + i)) t;
         s \<leftarrow> (if b0 then dbOverwrite (d_db s) k (VStr n) s else dbAdd (d_db s) k (VStr n) s);
         let s = bump 1 (signalModifiedKey (d_db s) k s);
         b \<leftarrow> str_of n s;
         Some (d_reply [Shared ''colon'', Raw b, Shared ''crlf''] s)
       })" for b0 old
  define S where "S old w = (if old + i < - (2 ^ 63) \<or> old + i \<ge> 2 ^ 63
       then sp_err (ReplyError ''increment or decrement would overflow'') (live s)
       else ((live s)((d_db s, k) \<mapsto> (AStr (idec (old + i)), w)), [Shared ''colon'', Raw (idec (old + i)), Shared ''crlf''],
             [KeyModified (d_db s) k], 1))" for old w
  have count: "meets s (C (map_of (dict_of t (d_db s)) k \<noteq> None) old) (S old w)"
    if old: "- (2 ^ 63) \<le> old" "old < 2 ^ 63" and w: "expi t (d_db s, k) = w" "\<not> dead t w" for old w
  proof (cases "old + i < - (2 ^ 63) \<or> old + i \<ge> 2 ^ 63")
    case True
    then show ?thesis using overflow_test [OF i old] e by (simp add: C_def S_def)
  next
    case False
    then have r: "- (2 ^ 63) \<le> old + i" "old + i < 2 ^ 63" by linarith+
    from incr_store [OF t(2) r db w arg_small [OF ok k]] obtain n u x where x: "long_obj (old + i) t = Some (n, u)"
      "(if map_of (dict_of t (d_db s)) k \<noteq> None then dbOverwrite (d_db s) k (VStr n) u else dbAdd (d_db s) k (VStr n) u) = Some x"
      "kv_ok zero x" "ev t x [] [] 0" "live x = (live t)((d_db s, k) \<mapsto> (AStr (idec (old + i)), w))" "strs x n = Some (idec (old + i))" "d_db u = d_db t"
      by blast
    have ex: "ev s x [] [] 0" by (rule ev_quiet [OF t(6) x(4)])
    have ee: "ev s (d_reply rs (bump 1 (signalModifiedKey (d_db s) k x))) rs [KeyModified (d_db s) k] 1" for rs
      using ev_more(1) [OF ev_more(2) [OF ev_more(3) [OF ex, of "d_db s" k], of 1], of rs] by simp
    show ?thesis unfolding C_def S_def if_not_P [OF False] if_not_P [OF False [folded overflow_test [OF i old]]]
      by (rule meetsI [OF _ _ _ ee])
        (use x t(4,10) llong_small [OF r] ev_env [OF ex] in \<open>(cases "map_of (dict_of t (d_db s)) k"; simp add: Let_def str_of_strs)+\<close>)
  qed
  show ?thesis
    using t(2,5)
  proof (cases rule: found_cases)
    case Absent
    have "getLongLongFromObjectOrReply None None t = Some (Some 0, t)"
      by (simp add: getLongLongFromObjectOrReply_def getLongLongFromObject_def)
    then have "incrDecrCommand i s = C False 0" using Absent t(1,10) k by (simp add: incrDecrCommand_def C_def)
    moreover have "sp_incr (ctx_of s) k i (live s) = S 0 None" using Absent t(4) by (simp add: sp_incr_def S_def)
    ultimately show ?thesis using count [of 0 None] Absent by simp
  next
    case (String a b w)
    have nd: "\<not> dead t w" using t(5) String by (simp add: found_def)
    show ?thesis
    proof (cases "num b")
      case None
      then show ?thesis using e [of not_int] String t k by (simp add: incrDecrCommand_def sp_incr_def getLongLong_num [OF String(3)])
    next
      case (Some old)
      then have "- (2 ^ 63) \<le> old" "old < 2 ^ 63" using num_range [OF Some] by linarith+
      from count [OF this String(4) nd] have "meets s (C True old) (S old w)" using String by simp
      moreover have "incrDecrCommand i s = C True old" using String t(1,10) k Some
        by (simp add: incrDecrCommand_def C_def getLongLong_num [OF String(3)])
      moreover have "sp_incr (ctx_of s) k i (live s) = S old w" using String t(4) Some by (simp add: sp_incr_def S_def)
      ultimately show ?thesis by simp
    qed
  next
    case (Other ty j w)
    then show ?thesis using t e k by (simp add: incrDecrCommand_def sp_incr_def)
  qed
qed

lemma incr_ok:
  assumes ok: "kv_ok zero s" and as: "raw_args [c, k] s"
  shows "meets s (incrCommand s) (sp_incr (ctx_of s) k 1 (live s))" "meets s (decrCommand s) (sp_incr (ctx_of s) k (- 1) (live s))"
  using incrDecr_ok [OF ok] raw_args_nth(4) [OF as, of 1] by (simp_all add: incrCommand_def decrCommand_def)

lemma incrby_ok:
  assumes ok: "kv_ok zero s" and as: "raw_args [c, k, b] s"
  shows "meets s (incrbyCommand s) (sp_incrby (ctx_of s) 1 k b (live s))"
    "num b \<noteq> Some (- (2 ^ 63)) \<Longrightarrow> meets s (decrbyCommand s) (sp_incrby (ctx_of s) (- 1) k b (live s))"
proof -
  have k: "arg_raw 1 s = Some k" using raw_args_nth(4) [OF as, of 1] by simp
  have a: "arg 2 s = Some (d_argv s ! 2)" "strs s (d_argv s ! 2) = Some b" using raw_args_nth(1,6) [OF as, of 2] by simp_all
  have e: "meets s (Some (d_reply [not_int] s)) (sp_err not_int (live s))" by (rule meets_sp_err [OF ok]) simp_all
  show "meets s (incrbyCommand s) (sp_incrby (ctx_of s) 1 k b (live s))"
    using e incrDecr_ok [OF ok k] num_range [of b] a
    by (cases "num b") (simp_all add: incrbyCommand_def sp_incrby_def getLongLong_num)
  show "meets s (decrbyCommand s) (sp_incrby (ctx_of s) (- 1) k b (live s))" if n: "num b \<noteq> Some (- (2 ^ 63))"
  proof (cases "num b")
    case None
    then show ?thesis using e a by (simp add: decrbyCommand_def sp_incrby_def getLongLong_num)
  next
    case (Some i)
    then have r: "- (2 ^ 63) \<le> - i" "- i < 2 ^ 63" using num_range [OF Some] n by auto
    then show ?thesis using incrDecr_ok [OF ok k r] a Some llong_small [OF r]
      by (simp add: decrbyCommand_def sp_incrby_def getLongLong_num)
  qed
qed

lemma overlay_wr:
  "wr (b @ replicate (off + length v - length b) 0) off v = Some (overlay off v b)"
proof -
  have "take off (replicate (off + length v - length b) (0 :: byte)) = take off (replicate (off - length b) 0)"
    if "length b = 0" using that by (simp add: min_def)
  have t: "take off (b @ replicate (off + length v - length b) (0 :: byte)) = take off (b @ replicate (off - length b) 0)"
    by (simp add: min_def)
  have d: "drop (off + length v) (b @ replicate (off + length v - length b) (0 :: byte)) = drop (off + length v) b" by simp
  show ?thesis unfolding wr_def overlay_def t d by simp
qed

lemma length_overlay: "length (overlay off v b) = max (off + length v) (length b)"
  by (simp add: overlay_def)

lemma grow_wr:
  assumes "0 \<le> off" "off + int (length v) \<le> 512 * 1024 * 1024" "2 ^ 29 \<le> d_alloc s"
  shows "Option.bind (sds_growzero s b (nat ((off + int (length v)) mod 2 ^ 64))) (\<lambda>b. wr b (nat off) v) = Some (overlay (nat off) v b)"
proof -
  have m: "(off + int (length v)) mod 2 ^ 64 = off + int (length v)" using assms(1,2) by (intro mod_pos_pos_trivial) auto
  have n: "nat (off + int (length v)) = nat off + length v" using assms(1) by simp
  have "nat off + length v \<le> d_alloc s" using assms by simp
  then have "sds_growzero s b (nat off + length v) = Some (b @ replicate (nat off + length v - length b) 0)"
    by (simp add: sds_growzero_def)
  then show ?thesis using overlay_wr [of b "nat off" v] unfolding m n by simp
qed

text \<open>The end of SETRANGE, on the object that is modified.\<close>

lemma setrange_store:
  assumes e: "ev s u [] [] 0" and b: "raw u n = Some b" and off: "0 \<le> off" "off + int (length v) \<le> 512 * 1024 * 1024" and alloc: "2 ^ 29 \<le> d_alloc s"
    and v: "v \<noteq> []" and len: "length b \<le> 2 ^ 29"
    and m: "\<forall>b'. length b' \<le> 2 ^ 29 \<longrightarrow> (\<exists>s'. set_raw n b' u = Some s' \<and> kv_ok zero s' \<and> ev s s' [] [] 0 \<and> live s' = L((d_db s, k) \<mapsto> (AStr b', w)) \<and> raw s' n = Some b')"
  shows "meets s (do {
      b \<leftarrow> raw u n;
      s \<leftarrow> (if v \<noteq> [] then do {
          b \<leftarrow> sds_growzero u b (nat ((off + int (length v)) mod 2 ^ 64));
          b \<leftarrow> wr b (nat off) v;
          s \<leftarrow> set_raw n b u;
          Some (bump 1 (signalModifiedKey (d_db s) k s))
        } else Some u);
      b \<leftarrow> raw s n;
      Some (d_reply [LongLong (int (length b))] s) })
    (L((d_db s, k) \<mapsto> (AStr (overlay (nat off) v b), w)), [LongLong (int (length (overlay (nat off) v b)))], [KeyModified (d_db s) k], 1)"
proof -
  let ?o = "overlay (nat off) v b"
  have "length ?o \<le> 2 ^ 29" using length_overlay [of "nat off" v b] len off by simp
  with m obtain x where x: "set_raw n ?o u = Some x" "kv_ok zero x" "ev s x [] [] 0" "live x = L((d_db s, k) \<mapsto> (AStr ?o, w))" "raw x n = Some ?o"
    by blast
  have "2 ^ 29 \<le> d_alloc u" using alloc ev_env [OF e] by simp
  from grow_wr [OF off this, of b] obtain c where c: "sds_growzero u b (nat ((off + int (length v)) mod 2 ^ 64)) = Some c" "wr c (nat off) v = Some ?o"
    by (auto split: bind_splits)
  show ?thesis
    using x b c v ev_env [OF x(3)] ev_more(1) [OF ev_more(2) [OF ev_more(3) [OF x(3), of "d_db s" k], of 1], of "[LongLong (int (length ?o))]"]
    by (intro meetsI [of _ "d_reply [LongLong (int (length ?o))] (bump 1 (signalModifiedKey (d_db s) k x))"]) simp_all
qed

text \<open>A new empty string, ready to be modified.\<close>

lemma fresh_ok:
  assumes ok: "kv_ok zero t" and abs: "map_of (dict_of t db) k = None" "expi t (db, k) = None" and db: "db < d_dbnum t" and small: "length k \<le> 2 ^ 29"
  shows "\<exists>n u w. new_obj (ENC_RAW []) t = (n, u) \<and> d_db u = d_db t \<and> dbAdd db k (VStr n) u = Some w \<and> raw w n = Some [] \<and> ev t w [] [] 0 \<and>
    (\<forall>b'. length b' \<le> 2 ^ 29 \<longrightarrow> (\<exists>s'. set_raw n b' w = Some s' \<and> kv_ok zero s' \<and> ev t s' [] [] 0 \<and> live s' = (live t)((db, k) \<mapsto> (AStr b', None)) \<and> raw s' n = Some b'))"
proof -
  from new_obj_ok [OF ok, of "ENC_RAW []"] obtain n u where u: "new_obj (ENC_RAW []) t = (n, u)" "kv_ok (zero(n := 0 + 1)) u" "store_step t u"
    "obj_at u n = Some \<lparr>o_str = ENC_RAW [], o_refcount = 1, o_lru = so_lruclock (d_store t)\<rparr>" by auto
  have u1: "kv_ok (zero(n := 1)) u" using u(2) by simp
  note fu = store_step_fields [OF u(3)]
  have lu: "look u = look t" by (rule look_step [OF ok u1 u(3)]) simp_all
  from add_new_ok [OF u1 _ _ small, of db] obtain w where w: "dbAdd db k (VStr n) u = Some w" "kv_ok zero w" "kv_step u w"
    "look w = (look u)((db, k) := val_at u (VStr n))" "expi w = expi u" "map_of (dict_of w db) k = Some (VStr n)" "obj_at w = obj_at u"
    using db fu abs by auto
  have st: "kv_step t w" by (rule kv_step_trans [OF store_kv_step [OF u(3)] w(3)])
  have one: "rc w n = 1" "raw w n = Some []" using u(4) w(7) by (simp_all add: rc_def raw_def)
  have "\<exists>s'. set_raw n b' w = Some s' \<and> kv_ok zero s' \<and> ev t s' [] [] 0 \<and> live s' = (live t)((db, k) \<mapsto> (AStr b', None)) \<and> raw s' n = Some b'"
    if "length b' \<le> 2 ^ 29" for b'
  proof -
    from set_raw_ok [OF w(2,6) one(1) that] obtain x where x: "set_raw n b' w = Some x" "kv_ok zero x" "ev w x [] [] 0"
      "look x = (look w)((db, k) \<mapsto> AStr b')" "expi x = expi w" "raw x n = Some b'" by blast
    have "look x = (look t)((db, k) \<mapsto> AStr b')" "expi x = expi t" using x(4,5) w(4,5) lu fu by simp_all
    then have "live x = (live t)((db, k) \<mapsto> (AStr b', None))"
      using abs ev_dead [OF ev_quiet [OF kv_step_ev [OF st] x(3)]] by (auto simp: live_def fun_eq_iff)
    then show ?thesis using x ev_quiet [OF kv_step_ev [OF st] x(3)] by simp
  qed
  then show ?thesis using u(1) fu w(1) one(2) kv_step_ev [OF st] by blast
qed

lemma setrange_ok:
  assumes ok: "kv_ok zero s" and as: "raw_args [c, k, off, v] s" and alloc: "2 ^ 29 \<le> d_alloc s"
    and fit: "case num off of None \<Rightarrow> True | Some i \<Rightarrow> i + int (length v) < 2 ^ 63"
  shows "meets s (setrangeCommand s) (sp_setrange (ctx_of s) k off v (live s))"
proof -
  have k: "arg_raw 1 s = Some k" "arg_raw 3 s = Some v" "arg 2 s = Some (d_argv s ! 2)" "strs s (d_argv s ! 2) = Some off"
    using raw_args_nth(4) [OF as, of 1] raw_args_nth(4) [OF as, of 3] raw_args_nth(1,6) [OF as, of 2] by simp_all
  note es = meets_sp_err [OF ok refl ev_refl]
  show ?thesis
  proof (cases "num off")
    case None
    then show ?thesis using k es [of not_int] by (simp add: setrangeCommand_def sp_setrange_def getLong_num)
  next
    case (Some i)
    show ?thesis
    proof (cases "i < 0")
      case True
      then show ?thesis using k Some es by (simp add: setrangeCommand_def sp_setrange_def getLong_num)
    next
      case pos: False
      obtain ov t where t: "lookupKeyWrite (d_db s) k s = Some (ov, t)" "kv_ok zero t" "kv_step s t" "live t = live s" "found (d_db s) k ov t"
        "ev s t [] [] 0" "args t = args s" "d_argv t = d_argv s" "ctx_of t = ctx_of s" "d_db t = d_db s"
        by (rule lookup_write [OF ok, of "d_db s" k])
      note e = meets_sp_err [OF t(2,4,6)]
      have ll: "llong (i + int (length v)) = i + int (length v)" using fit Some pos by (intro llong_small) auto
      show ?thesis
        using t(2,5)
      proof (cases rule: found_cases)
        case Absent
        show ?thesis
        proof (cases "v = [] \<or> i + int (length v) > 512 * 1024 * 1024")
          case True
          then show ?thesis using k Some pos t Absent e ll
            by (auto simp: setrangeCommand_def sp_setrange_def getLong_num checkStringLength_def too_long_def)
        next
          case False
          have "d_db s < d_dbnum t" using kv_db [OF t(2)] t(10) by simp
          from fresh_ok [OF t(2) Absent(3,4) this arg_small [OF ok k(1)]] obtain n u w where
            u: "new_obj (ENC_RAW []) t = (n, u)" "d_db u = d_db t" "dbAdd (d_db s) k (VStr n) u = Some w" "raw w n = Some []" "ev t w [] [] 0"
            and m': "\<forall>b'. length b' \<le> 2 ^ 29 \<longrightarrow> (\<exists>s'. set_raw n b' w = Some s' \<and> kv_ok zero s' \<and> ev t s' [] [] 0 \<and> live s' = (live t)((d_db s, k) \<mapsto> (AStr b', None)) \<and> raw s' n = Some b')"
            by blast
          have m: "\<forall>b'. length b' \<le> 2 ^ 29 \<longrightarrow> (\<exists>s'. set_raw n b' w = Some s' \<and> kv_ok zero s' \<and> ev s s' [] [] 0 \<and> live s' = (live s)((d_db s, k) \<mapsto> (AStr b', None)) \<and> raw s' n = Some b')"
            using m' ev_quiet [OF t(6)] t(4) by metis
          note ew = ev_quiet [OF t(6) u(5)]
          have sp: "sp_setrange (ctx_of s) k off v (live s) = ((live s)((d_db s, k) \<mapsto> (AStr (overlay (nat i) v []), None)),
              [LongLong (int (length (overlay (nat i) v [])))], [KeyModified (d_db s) k], 1)"
            using False Some pos Absent t(4) by (simp add: sp_setrange_def Let_def)
          have "meets s (do {
              b \<leftarrow> raw w n;
              s \<leftarrow> (if v \<noteq> [] then do {
                  b \<leftarrow> sds_growzero w b (nat ((i + int (length v)) mod 2 ^ 64));
                  b \<leftarrow> wr b (nat i) v;
                  s \<leftarrow> set_raw n b w;
                  Some (bump 1 (signalModifiedKey (d_db s) k s))
                } else Some w);
              b \<leftarrow> raw s n;
              Some (d_reply [LongLong (int (length b))] s) }) (sp_setrange (ctx_of s) k off v (live s))"
            unfolding sp by (rule setrange_store [OF ew u(4) _ _ alloc]) (use m False pos in auto)
          moreover have "\<not> 536870912 < i + int (length v)" "v \<noteq> []" using False by auto
          ultimately show ?thesis using k Some pos t(1,10) Absent u(1-3) ll
            by (simp add: setrangeCommand_def getLong_num checkStringLength_def)
        qed
      next
        case (String a b w)
        obtain ob where ob: "obj_at t a = Some ob" "stringObjectLen (o_str ob) = length b" using slen [OF String(3)] by blast
        show ?thesis
        proof (cases "v = [] \<or> i + int (length v) > 512 * 1024 * 1024")
          case True
          then show ?thesis using k Some pos t String e ll ob
            by (auto simp: setrangeCommand_def sp_setrange_def getLong_num checkStringLength_def too_long_def)
        next
          case False
          have nd: "\<not> dead t w" using t(5) String by (simp add: found_def)
          from modify_ok [OF t(2) String(5,3,4) nd] obtain n u where u: "unshare (d_db s) k a t = Some (n, u)" "raw u n = Some b" "ev t u [] [] 0" "d_db u = d_db t"
            and m: "\<forall>b'. length b' \<le> 2 ^ 29 \<longrightarrow> (\<exists>s'. set_raw n b' u = Some s' \<and> kv_ok zero s' \<and> ev t s' [] [] 0 \<and> live s' = (live t)((d_db s, k) \<mapsto> (AStr b', w)) \<and> raw s' n = Some b')"
            by blast
          have eu: "ev s u [] [] 0" by (rule ev_quiet [OF t(6) u(3)])
          have sp: "sp_setrange (ctx_of s) k off v (live s) = ((live s)((d_db s, k) \<mapsto> (AStr (overlay (nat i) v b), w)),
              [LongLong (int (length (overlay (nat i) v b)))], [KeyModified (d_db s) k], 1)"
            using False Some pos String t(4) by (simp add: sp_setrange_def Let_def)
          have "meets s (do {
              b \<leftarrow> raw u n;
              s \<leftarrow> (if v \<noteq> [] then do {
                  b \<leftarrow> sds_growzero u b (nat ((i + int (length v)) mod 2 ^ 64));
                  b \<leftarrow> wr b (nat i) v;
                  s \<leftarrow> set_raw n b u;
                  Some (bump 1 (signalModifiedKey (d_db s) k s))
                } else Some u);
              b \<leftarrow> raw s n;
              Some (d_reply [LongLong (int (length b))] s) }) (sp_setrange (ctx_of s) k off v (live s))"
            unfolding sp
          proof (rule setrange_store [OF eu u(2) _ _ alloc])
            show "\<forall>b'. length b' \<le> 2 ^ 29 \<longrightarrow> (\<exists>s'. set_raw n b' u = Some s' \<and> kv_ok zero s' \<and> ev s s' [] [] 0 \<and> live s' = (live s)((d_db s, k) \<mapsto> (AStr b', w)) \<and> raw s' n = Some b')"
              using m ev_quiet [OF t(6)] t(4) by metis
          qed (use False pos small_strs [OF t(2) String(3)] in auto)
          moreover have "\<not> 536870912 < i + int (length v)" "v \<noteq> []" using False by auto
          ultimately show ?thesis using k Some pos t(1,10) String u(1) ll ob
            by (simp add: setrangeCommand_def getLong_num checkStringLength_def)
        qed
      next
        case (Other ty j w)
        then show ?thesis using k Some pos t e by (simp add: setrangeCommand_def sp_setrange_def getLong_num)
      qed
    qed
  qed
qed

lemma range_ends_eq:
  fixes n :: int
  assumes n: "0 \<le> n" "n \<le> 2 ^ 29" and i: "- (2 ^ 63) \<le> i" "i < 2 ^ 63" and j: "- (2 ^ 63) \<le> j" "j < 2 ^ 32"
  shows "range_ends n i j = (if i < 0 then max 0 (n + i) else i, min (if j < 0 then max 0 (n + j) else j) (n - 1))"
proof -
  have l: "i < 0 \<Longrightarrow> llong (n + i) = n + i" "j < 0 \<Longrightarrow> llong (n + j) = n + j" "llong (n - 1) = n - 1"
    using n i j by (auto intro!: llong_small)
  define e where "e = (if j < 0 then max 0 (n + j) else j)"
  have e: "0 \<le> e" "e < 2 ^ 32" using n j by (auto simp: e_def)
  then have m: "e mod 2 ^ 32 = e" by (rule mod_pos_pos_trivial)
  have s: "(if (if i < 0 then llong (n + i) else i) < 0 then 0 else (if i < 0 then llong (n + i) else i)) = (if i < 0 then max 0 (n + i) else i)"
    using l(1) by auto
  have en: "(if (if j < 0 then llong (n + j) else j) < 0 then 0 else (if j < 0 then llong (n + j) else j)) = e"
    using l(2) by (auto simp: e_def)
  show ?thesis unfolding range_ends_def Let_def s en m l(3) e_def [symmetric] by auto
qed

lemma getrange_ok:
  assumes ok: "kv_ok zero s" and as: "raw_args [c, k, i, j] s"
    and fit: "case num j of None \<Rightarrow> True | Some n \<Rightarrow> n < 2 ^ 32"
  shows "meets s (getrangeCommand s) (sp_getrange (ctx_of s) k i j (live s))"
proof -
  have k: "arg_raw 1 s = Some k" "arg 2 s = Some (d_argv s ! 2)" "strs s (d_argv s ! 2) = Some i"
    "arg 3 s = Some (d_argv s ! 3)" "strs s (d_argv s ! 3) = Some j"
    using raw_args_nth(4) [OF as, of 1] raw_args_nth(1,6) [OF as, of 2] raw_args_nth(1,6) [OF as, of 3] by simp_all
  note es = meets_sp_err [OF ok refl ev_refl]
  consider "num i = None \<or> num j = None" | a b where "num i = Some a" "num j = Some b"
    by (cases "num i"; cases "num j"; simp)
  then show ?thesis
  proof cases
    case 1
    then show ?thesis using k es [of not_int]
      by (auto simp: getrangeCommand_def sp_getrange_def getLong_num split: option.split)
  next
    case (2 x y)
    obtain ov t where t: "lookupKeyRead (d_db s) k s = Some (ov, t)" "kv_ok zero t" "live t = live s" "found (d_db s) k ov t" "ev s t [] [] 0"
      by (rule lookup_read [OF ok, of "d_db s" k])
    note e = meets_sp_err [OF t(2,3,5)]
    show ?thesis
      using t(2,4)
    proof (cases rule: found_cases)
      case Absent
      then show ?thesis using t e k 2 by (simp add: getrangeCommand_def lookupKeyReadOrReply_def sp_getrange_def getLong_num)
    next
      case (Other ty n w)
      then show ?thesis using t e k 2 by (simp add: getrangeCommand_def lookupKeyReadOrReply_def sp_getrange_def getLong_num)
    next
      case (String a b w)
      define n where "n = int (length b)"
      have len: "n \<le> 2 ^ 29" using small_strs [OF t(2) String(3)] by (simp add: n_def)
      define x' where "x' = (if x < 0 then max 0 (n + x) else x)"
      define y' where "y' = min (if y < 0 then max 0 (n + y) else y) (n - 1)"
      have r: "range_ends (int (length b)) x y = (x', y')"
        unfolding x'_def y'_def n_def
        by (rule range_ends_eq) (use len num_range [OF 2(1)] num_range [OF 2(2)] fit 2(2) in \<open>simp_all add: n_def\<close>)
      have sl: "slice x y b = take (nat (y' - x' + 1)) (drop (nat x') b)" by (simp add: slice_def x'_def y'_def n_def Let_def)
      have base: "getrangeCommand s = (if x' > y' then Some (d_reply [Shared ''emptybulk''] t)
          else map_option (\<lambda>b. d_reply [Bulk b] t) (rdz b x' (nat (y' - x' + 1))))"
        using k 2 t(1) String r
        by (cases "rdz b x' (nat (y' - x' + 1))") (simp_all add: getrangeCommand_def lookupKeyReadOrReply_def getLong_num str_of_strs)
      have sp: "sp_getrange (ctx_of s) k i j (live s) = sp_err (if slice x y b = [] then Shared ''emptybulk'' else Bulk (slice x y b)) (live s)"
        using 2 String t(3) by (simp add: sp_getrange_def)
      show ?thesis
      proof (cases "x' > y'")
        case True
        then have "slice x y b = []" by (simp add: sl)
        then show ?thesis using base sp e True by simp
      next
        case False
        have p: "0 \<le> x'" "y' \<le> n - 1" by (auto simp: x'_def y'_def)
        then have "nat x' + nat (y' - x' + 1) \<le> length b" using False by (simp add: n_def)
        then have "rdz b x' (nat (y' - x' + 1)) = Some (slice x y b)" using p(1) by (simp add: rdz_def rd_def sl)
        moreover have "slice x y b \<noteq> []" using p False by (simp add: sl n_def)
        ultimately show ?thesis using base sp e False by simp
      qed
    qed
  qed
qed

section \<open>MSET\<close>

lemma busy_loop_ok:
  assumes "kv_ok zero s" "list_all2 (\<lambda>a k. raw s a = Some k \<and> a \<in> set (d_argv s)) as ks"
  shows "\<exists>s'. busy_loop as n s = Some (n + length (filter (\<lambda>k. live s (d_db s, k) \<noteq> None) ks), s') \<and> kv_ok zero s' \<and> live s' = live s \<and>
    ev s s' [] [] 0 \<and> args s' = args s"
  using assms
proof (induction as arbitrary: s ks n)
  case (Cons a as)
  obtain k ks' where ks: "ks = k # ks'" "raw s a = Some k" "list_all2 (\<lambda>a k. raw s a = Some k \<and> a \<in> set (d_argv s)) as ks'"
    using Cons.prems(2) by (auto simp: list_all2_Cons1)
  obtain v t where t: "lookupKeyWrite (d_db s) k s = Some (v, t)" "kv_ok zero t" "kv_step s t" "live t = live s" "found (d_db s) k v t"
    "ev s t [] [] 0" "args t = args s" "d_argv t = d_argv s" "ctx_of t = ctx_of s" "d_db t = d_db s"
    by (rule lookup_write [OF Cons.prems(1), of "d_db s" k])
  have v: "v \<noteq> None \<longleftrightarrow> live s (d_db s, k) \<noteq> None" using t(2,5) by (cases rule: found_cases) (use t(4) in simp_all)
  have enc: "enc t x = enc s x" if "x \<in> set (d_argv s)" for x using t(7,8) that by (simp add: args_def)
  have l: "list_all2 (\<lambda>a k. raw t a = Some k \<and> a \<in> set (d_argv t)) as ks'"
    using ks(3) by (rule list_all2_mono) (use enc t(8) in \<open>simp add: raw_enc\<close>)
  define m where "m = (if v \<noteq> None then n + 1 else n)"
  from Cons.IH [OF t(2) l, of m] obtain s' where s': "busy_loop as m t = Some (m + length (filter (\<lambda>k. live t (d_db t, k) \<noteq> None) ks'), s')"
    "kv_ok zero s'" "live s' = live t" "ev t s' [] [] 0" "args s' = args t" by blast
  have "busy_loop (a # as) n s = busy_loop as m t" using ks(2) t(1) by (simp add: m_def)
  moreover have "m + length (filter (\<lambda>k. live t (d_db t, k) \<noteq> None) ks') = n + length (filter (\<lambda>k. live s (d_db s, k) \<noteq> None) ks)"
    using v t(4,10) ks(1) unfolding m_def by simp
  ultimately show ?case using s' t(4,7) ev_quiet [OF t(6) s'(4)] by simp
qed simp

text \<open>The arguments from position \<open>j\<close> on are still as they came.\<close>

definition tail_raw :: "byte list list \<Rightarrow> nat \<Rightarrow> dserver \<Rightarrow> bool" where
  "tail_raw as j s \<longleftrightarrow> length (args s) = length as \<and> (\<forall>i < length as. j \<le> i \<longrightarrow> args s ! i = Some (ENC_RAW (as ! i)))"

definition pair_args :: "(key \<times> byte list) list \<Rightarrow> byte list list" where
  "pair_args kvs = concat (map (\<lambda>(k, v). [k, v]) kvs)"

lemma pair_args_simps [simp]: "pair_args [] = []" "pair_args ((k, v) # kvs) = k # v # pair_args kvs"
  by (simp_all add: pair_args_def)

lemma length_pair_args [simp]: "length (pair_args kvs) = 2 * length kvs"
  by (induction kvs) auto

lemma mset_loop_ok:
  assumes "kv_ok zero s" "tail_raw as j s" "drop j as = pair_args kvs"
  shows "\<exists>s'. mset_loop (length kvs) j s = Some s' \<and> kv_ok zero s' \<and>
    live s' = put_all (d_db s) kvs (live s) \<and>
    ev s s' [] (map (\<lambda>kv. KeyModified (d_db s) (fst kv)) kvs) 0 \<and> length (d_argv s') = length (d_argv s)"
  using assms
proof (induction kvs arbitrary: s j)
  case (Cons kv kvs)
  obtain k v where kv: "kv = (k, v)" by force
  have d: "drop j as = k # v # pair_args kvs" using Cons.prems(3) kv by simp
  have "length as - j = 2 + 2 * length kvs" using arg_cong [OF d, of length] by simp
  then have j: "j + 1 < length as" by arith
  have ka: "as ! j = k" "as ! (j + 1) = v" "drop (j + 2) as = pair_args kvs"
    using d j nth_drop [of j as 0] nth_drop [of j as 1] drop_drop [of 2 j as] by (simp_all add: add.commute)
  have la: "length (args s) = length as" "length (d_argv s) = length as" using Cons.prems(2) by (simp_all add: tail_raw_def args_def)
  from encode_arg_ok [OF Cons.prems(1), of "j + 1"] j la obtain t w where t: "encode_arg (j + 1) s = Some t" "kv_ok zero t" "ev s t [] [] 0"
    "look t = look s" "expi t = expi s" "dict_of t = dict_of s" "args t = (args s)[j + 1 := Some w]" "strs s (d_argv s ! (j + 1)) = Some (str_bytes w)"
    "length (d_argv t) = length (d_argv s)" by auto
  have w: "str_bytes w = v"
    using t(8) Cons.prems(2) j ka la(2) by (simp add: tail_raw_def strs_def args_def str_bytes_def)
  have lt: "live t = live s" using t(4,5) ev_dead [OF t(3)] by (simp add: live_def fun_eq_iff)
  have lat: "length (args t) = length as" using t(7) la by simp
  have kt: "arg_raw j t = Some k" using arg_raw_nth [of j t k] lat j t(7) Cons.prems(2) ka by (simp add: tail_raw_def)
  have vt: "arg (j + 1) t = Some (d_argv t ! (j + 1))" "d_argv t ! (j + 1) \<in> set (d_argv t)" "strs t (d_argv t ! (j + 1)) = Some v"
    using arg_nth [of "j + 1" t] lat j t(7) la w by (simp_all add: strs_def)
  have db: "d_db s < d_dbnum t" "d_db t = d_db s" using kv_db [OF t(2)] ev_env [OF t(3)] by simp_all
  from setKey_ok [OF t(2) vt(2) db(1) arg_small [OF t(2) kt]] vt(3) obtain u where u: "setKey (d_db s) k (VStr (d_argv t ! (j + 1))) t = Some u" "kv_ok zero u"
    "ev t u [] [KeyModified (d_db s) k] 0" "args u = args t" "live u = (live t)((d_db s, k) \<mapsto> (AStr v, None))"
    "d_argv u = d_argv t" by auto
  have eu: "ev s u [] [KeyModified (d_db s) k] 0" by (rule ev_quiet [OF t(3) u(3)])
  have dbu: "d_db u = d_db s" using ev_env [OF eu] by simp
  have "tail_raw as (j + 2) u"
    using Cons.prems(2) t(7) u(4) la by (auto simp: tail_raw_def nth_list_update)
  from Cons.IH [OF u(2) this ka(3)] obtain s' where s': "mset_loop (length kvs) (j + 2) u = Some s'" "kv_ok zero s'"
    "live s' = put_all (d_db u) kvs (live u)" "ev u s' [] (map (\<lambda>kv. KeyModified (d_db u) (fst kv)) kvs) 0"
    "length (d_argv s') = length (d_argv u)" by blast
  have "mset_loop (length (kv # kvs)) j s = Some s'" using t(1) kt vt(1) u(1) s'(1) db(2) by simp
  moreover have "ev s s' [] (map (\<lambda>kv. KeyModified (d_db s) (fst kv)) (kv # kvs)) 0"
    using ev_trans [OF eu s'(4)] dbu kv by simp
  ultimately show ?case using s'(2,3,5) u(5,6) t(9) lt dbu kv by auto
qed simp

lemma odd_args_pairs:
  assumes "list_all2 P xs (pair_args kvs)"
  shows "list_all2 P (odd_args (x # xs)) (map fst kvs)"
  using assms
proof (induction kvs arbitrary: x xs)
  case (Cons kv kvs)
  then show ?case by (cases kv) (auto simp: list_all2_Cons2)
qed simp

lemma mset_ok:
  assumes ok: "kv_ok zero s" and as: "raw_args (c # pair_args kvs) s"
  shows "meets s (msetGenericCommand nx s) (sp_mset (ctx_of s) nx kvs (live s))"
proof -
  obtain x xs where x: "d_argv s = x # xs" "list_all2 (\<lambda>a k. raw s a = Some k \<and> a \<in> set (d_argv s)) xs (pair_args kvs)"
    using raw_args_all [OF as] by (auto simp: list_all2_Cons2)
  have len: "length (d_argv s) = 1 + 2 * length kvs" using raw_args_length [OF as] by simp
  have keys: "list_all2 (\<lambda>a k. raw s a = Some k \<and> a \<in> set (d_argv s)) (odd_args (d_argv s)) (map fst kvs)"
    using odd_args_pairs [OF x(2), of x] x(1) by simp
  from busy_loop_ok [OF ok keys, of 0] obtain t0 where t0: "busy_loop (odd_args (d_argv s)) 0 s =
      Some (length (filter (\<lambda>k. live s (d_db s, k) \<noteq> None) (map fst kvs)), t0)" "kv_ok zero t0" "live t0 = live s" "ev s t0 [] [] 0" "args t0 = args s"
    by auto
  define busy where "busy = (if nx then length (filter (\<lambda>k. live s (d_db s, k) \<noteq> None) (map fst kvs)) else 0)"
  define t where "t = (if nx then t0 else s)"
  have t: "(if nx then busy_loop (odd_args (d_argv s)) 0 s else Some (0, s)) = Some (busy, t)" "kv_ok zero t" "live t = live s" "ev s t [] [] 0" "args t = args s"
    using t0 ok by (simp_all add: busy_def t_def)
  have b: "busy \<noteq> 0 \<longleftrightarrow> nx \<and> (\<exists>kv \<in> set kvs. live s (d_db s, fst kv) \<noteq> None)"
    by (auto simp: busy_def filter_empty_conv)
  have odd: "\<not> even (length (d_argv s))" using len by simp
  show ?thesis
  proof (cases "busy \<noteq> 0")
    case True
    then have "msetGenericCommand nx s = Some (d_reply [Shared ''czero''] t)" using b t(1) odd by (simp add: msetGenericCommand_def)
    moreover have "sp_mset (ctx_of s) nx kvs (live s) = sp_err (Shared ''czero'') (live s)" using True b by (simp add: sp_mset_def)
    ultimately show ?thesis using meets_sp_err [OF t(2,3,4)] by simp
  next
    case False
    have "tail_raw (c # pair_args kvs) 1 t" using as t(5) by (simp add: tail_raw_def raw_args_def)
    from mset_loop_ok [OF t(2) this] obtain u where u: "mset_loop (length kvs) 1 t = Some u" "kv_ok zero u"
      "live u = put_all (d_db t) kvs (live t)" "ev t u [] (map (\<lambda>kv. KeyModified (d_db t) (fst kv)) kvs) 0"
      "length (d_argv u) = length (d_argv t)" by auto
    have db: "d_db t = d_db s" using ev_env [OF t(4)] by simp
    have lt: "length (d_argv t) = 1 + 2 * length kvs" using t(5) len by (metis args_def length_map)
    let ?r = "[Shared (if nx then ''cone'' else ''ok'')]"
    have nb: "\<not> (nx \<and> busy \<noteq> 0)" using False by blast
    have "msetGenericCommand nx s = Some (d_reply ?r (bump (int (length kvs)) u))"
      using t(1) odd False lt u(1,5) by (simp add: msetGenericCommand_def)
    moreover have "sp_mset (ctx_of s) nx kvs (live s) =
      (put_all (d_db s) kvs (live s), ?r, map (\<lambda>kv. KeyModified (d_db s) (fst kv)) kvs, int (length kvs))"
      using False b unfolding sp_mset_def ctx_db by (intro if_not_P) simp
    moreover have "ev s (d_reply ?r (bump (int (length kvs)) u)) ?r (map (\<lambda>kv. KeyModified (d_db s) (fst kv)) kvs) (int (length kvs))"
      using ev_more(1) [OF ev_more(2) [OF ev_quiet [OF t(4) u(4)], of "int (length kvs)"], of ?r] db by simp
    ultimately show ?thesis using u(2,3) t(3) db by (auto intro!: meetsI)
  qed
qed

end
