(* ===== verification/Keycmds.thy ===== *)
theory Keycmds
  imports Strings
begin

text \<open>
  The commands of \<open>Db\<close> on the key space.  Those that look a key up first behave as functions of the live
  contents, as the string commands do; DEL, EXPIRE and PERSIST do not look at the expire time of a key and
  are described by the contents of the dictionaries.
\<close>

section \<open>EXISTS, TYPE and TTL\<close>

definition sp_exists :: "ctx \<Rightarrow> key \<Rightarrow> contents \<Rightarrow> outcome" where
  "sp_exists c k L = sp_err (Shared (if L (c_db c, k) \<noteq> None then ''cone'' else ''czero'')) L"

definition sp_type :: "ctx \<Rightarrow> key \<Rightarrow> contents \<Rightarrow> outcome" where
  "sp_type c k L =
     sp_err (Status (case L (c_db c, k) of
         None \<Rightarrow> ''none''
       | Some (AStr _, _) \<Rightarrow> ''string''
       | Some (AAgg t _, _) \<Rightarrow> (case t of LIST \<Rightarrow> ''list'' | SET \<Rightarrow> ''set'' | ZSET \<Rightarrow> ''zset'' | HASH \<Rightarrow> ''hash''))) L"

text \<open>An expire time of -1 is none; seconds are rounded.\<close>

definition sp_ttl :: "ctx \<Rightarrow> bool \<Rightarrow> key \<Rightarrow> contents \<Rightarrow> outcome" where
  "sp_ttl c ms k L =
     sp_err (LongLong (case L (c_db c, k) of
         Some (_, Some t) \<Rightarrow>
           if t = - 1 \<or> llong (t - c_now c) < 0 then - 1
           else if ms then llong (t - c_now c) else llong (llong (t - c_now c) + 500) sdiv 1000
       | _ \<Rightarrow> - 1)) L"

lemma live_cases:
  assumes "kv_ok zero s"
  obtains (Missing) "live s p = None" "look s p = None" "expi s p = None"
  | (Dead) t x where "live s p = None" "look s p = Some x" "expi s p = Some t" "dead s (Some t)"
  | (Live) x where "live s p = Some (x, expi s p)" "look s p = Some x" "\<not> dead s (expi s p)"
proof (cases "look s p")
  case None
  then have m: "map_of (dict_of s (fst p)) (snd p) = None" using look_None [OF assms, of "fst p" "snd p"] by simp
  have "expi s p = None" using expi_dict [OF assms, of "fst p" "snd p"] m
    by (cases "map_of (expires_of s (fst p)) (snd p)") (simp_all add: expi_def)
  then show ?thesis using None Missing by (simp add: live_def)
next
  case (Some x)
  show ?thesis
  proof (cases "dead s (expi s p)")
    case True
    then obtain t where "expi s p = Some t" by (cases "expi s p") auto
    then show ?thesis using Some True Dead by (simp add: live_def)
  next
    case False
    then show ?thesis using Some Live by (simp add: live_def)
  qed
qed

text \<open>What \<open>expireIfNeeded\<close> leaves.\<close>

lemma expire_quiet:
  assumes ok: "kv_ok zero s"
  obtains b t where "expireIfNeeded db k s = Some (b, t)" "kv_ok zero t" "kv_step s t" "live t = live s" "ev s t [] [] 0" "args t = args s"
    "d_argv t = d_argv s" "\<not> dead t (expi t (db, k))" "\<not> d_slave s \<longrightarrow> b = dead s (expi s (db, k))"
    "\<And>p. p \<noteq> (db, k) \<Longrightarrow> look t p = look s p \<and> expi t p = expi s p"
proof -
  from expireIfNeeded_ok [OF ok, of db k] obtain b t where t: "expireIfNeeded db k s = Some (b, t)" "kv_ok zero t" "kv_step s t"
    "\<not> d_slave s \<longrightarrow> b = dead s (expi s (db, k))"
    "if dead s (expi s (db, k)) then look t = (look s)((db, k) := None) \<and> expi t = (expi s)((db, k) := None) else t = s" by auto
  have "live t = live s"
  proof (cases "dead s (expi s (db, k))")
    case True
    then show ?thesis using t(5) live_upd [OF t(3), of "(db, k)" None None] by (auto simp: live_def fun_eq_iff)
  qed (use t(5) in simp)
  moreover have "\<not> dead t (expi t (db, k))" using t(5) dead_step [OF t(3)] by (cases "dead s (expi s (db, k))") simp_all
  moreover have "look t p = look s p \<and> expi t p = expi s p" if "p \<noteq> (db, k)" for p
    using t(5) that by (cases "dead s (expi s (db, k))") simp_all
  ultimately show ?thesis using that [OF t(1-3)] kv_step_ev [OF t(3)] args_step [OF ok t(2,3)] kv_step_fields [OF t(3)] t(4) by simp
qed

lemma exists_ok:
  assumes ok: "kv_ok zero s" and as: "raw_args [c, k] s"
  shows "meets s (existsCommand s) (sp_exists (ctx_of s) k (live s))"
proof -
  have k: "arg_raw 1 s = Some k" using raw_args_nth(4) [OF as, of 1] by simp
  obtain b t where t: "expireIfNeeded (d_db s) k s = Some (b, t)" "kv_ok zero t" "kv_step s t" "live t = live s" "ev s t [] [] 0"
    "\<not> dead t (expi t (d_db s, k))" by (rule expire_quiet [OF ok, of "d_db s" k])
  have "dbExists (d_db s) k t \<longleftrightarrow> live s (d_db s, k) \<noteq> None"
    using look_None [OF t(2), of "d_db s" k] t(4,6) by (auto simp: dbExists_def live_def simp flip: t(4))
  then show ?thesis using k t(1) meets_sp_err [OF t(2,4,5)] ev_env [OF t(5)] by (simp add: existsCommand_def sp_exists_def)
qed

lemma type_ok:
  assumes ok: "kv_ok zero s" and as: "raw_args [c, k] s"
  shows "meets s (typeCommand s) (sp_type (ctx_of s) k (live s))"
proof -
  have k: "arg_raw 1 s = Some k" using raw_args_nth(4) [OF as, of 1] by simp
  obtain ov t where t: "lookupKeyRead (d_db s) k s = Some (ov, t)" "kv_ok zero t" "live t = live s" "found (d_db s) k ov t" "ev s t [] [] 0"
    by (rule lookup_read [OF ok, of "d_db s" k])
  note e = meets_sp_err [OF t(2,3,5)]
  show ?thesis using t(2,4)
    by (cases rule: found_cases) (use t(1,3) e k in \<open>simp_all add: typeCommand_def type_name_def sp_type_def split: otype.split\<close>)
qed

text \<open>The clock is a \<open>long long\<close>.\<close>

lemma ttl_ok:
  assumes ok: "kv_ok zero s" and as: "raw_args [c, k] s" and clock: "0 \<le> d_mstime s" "d_mstime s < 2 ^ 63"
  shows "meets s (ttlCommand s) (sp_ttl (ctx_of s) False k (live s))" "meets s (pttlCommand s) (sp_ttl (ctx_of s) True k (live s))"
proof -
  have k: "arg_raw 1 s = Some k" using raw_args_nth(4) [OF as, of 1] by simp
  note e = meets_sp_err [OF ok refl ev_refl]
  have g: "getExpire (d_db s) k s = Some (case expi s (d_db s, k) of None \<Rightarrow> - 1 | Some w \<Rightarrow> w)" by (rule getExpire_ok [OF ok])
  have "meets s (ttlGenericCommand ms s) (sp_ttl (ctx_of s) ms k (live s))" for ms
    using ok
  proof (cases rule: live_cases [where p = "(d_db s, k)"])
    case Missing
    then show ?thesis using e k g by (simp add: ttlGenericCommand_def sp_ttl_def Let_def)
  next
    case (Dead t x)
    then have t: "0 \<le> t" "t < d_mstime s" by (simp_all add: dead_def)
    then have "llong (t - d_mstime s) = t - d_mstime s" using clock by (intro llong_small) auto
    then show ?thesis using e k g Dead t by (simp add: ttlGenericCommand_def sp_ttl_def Let_def)
  next
    case (Live x)
    then show ?thesis using e k g by (auto simp: ttlGenericCommand_def sp_ttl_def Let_def split: option.split)
  qed
  then show "meets s (ttlCommand s) (sp_ttl (ctx_of s) False k (live s))" "meets s (pttlCommand s) (sp_ttl (ctx_of s) True k (live s))"
    by (simp_all add: ttlCommand_def pttlCommand_def)
qed

section \<open>RENAME and MOVE\<close>

lemma lookup_keeps:
  assumes ok: "kv_ok H s" and pos: "\<And>a. 0 \<le> H a" and l: "lookupKeyWrite db k s = Some (v, s')" and p: "p \<noteq> (db, k)"
  shows "look s' p = look s p \<and> expi s' p = expi s p"
proof -
  from expireIfNeeded_ok [OF ok pos, of db k] obtain b t where t: "expireIfNeeded db k s = Some (b, t)" "kv_ok H t"
    "if dead s (expi s (db, k)) then look t = (look s)((db, k) := None) \<and> expi t = (expi s)((db, k) := None) else t = s" by blast
  from lookupKey_ok [OF t(2) pos, of db k] obtain u where u: "lookupKey db k t = Some (map_of (dict_of t db) k, u)" "store_step t u"
    "look u = look t" by blast
  have "s' = u" using l t(1) u(1) by (simp add: lookupKeyWrite_def)
  then show ?thesis using t(3) u(3) store_step_fields(16) [OF u(2)] p by (cases "dead s (expi s (db, k))") simp_all
qed

lemma val_step:
  assumes "kv_ok H s" "kv_step s s'" "\<And>a. d = VStr a \<Longrightarrow> obj_at s a \<noteq> None \<and> obj_at s' a \<noteq> None"
  shows "val_at s' d = val_at s d"
proof (cases d)
  case (VStr a)
  then have "enc s' a = enc s a" using assms(2,3) kv_next [OF assms(1), of a] unfolding kv_step_def by blast
  then show ?thesis by (simp add: VStr val_at_def strs_def)
qed (simp add: val_at_def)

text \<open>A value owed a reference exists.\<close>

lemma owed_exists: "kv_ok H s \<Longrightarrow> (\<And>a. vref d a \<le> H a) \<Longrightarrow> d = VStr a \<Longrightarrow> obj_at s a \<noteq> None"
  using kv_exists [of H s a] vref_simps(2) [of a a] by (metis add_nonneg_pos of_nat_0_le_iff order_less_le_trans zero_less_one)

lemma add_val_ok:
  assumes ok: "kv_ok H s" and db: "db < d_dbnum s" and m: "map_of (dict_of s db) k = None"
    and small: "length k \<le> 2 ^ 29"
  shows "\<exists>s'. dbAdd db k v s = Some s' \<and> kv_ok (\<lambda>a. H a - vref v a) s' \<and> kv_step s s' \<and>
    look s' = (look s)((db, k) := val_at s v) \<and> expi s' = expi s \<and> map_of (dict_of s' db) k = Some v \<and> obj_at s' = obj_at s"
proof -
  define u where "u = set_dict db (AList.update k v (dict_of s db)) s"
  have "kv_ok (\<lambda>a. H a - vref v a) u" using kv_cong [OF kv_update [OF ok db small, of v], of "\<lambda>a. H a - vref v a"] m by (simp add: u_def)
  moreover have "look u = (look s)((db, k) := val_at s v)" "expi u = expi s" by (simp_all add: u_def look_set_dict)
  ultimately show ?thesis using m by (simp add: dbAdd_def u_def update_conv)
qed

lemma set_expire_ok:
  assumes ok: "kv_ok H s" and m: "map_of (dict_of s db) k \<noteq> None"
  shows "\<exists>s'. setExpire db k w s = Some s' \<and> kv_ok H s' \<and> kv_step s s' \<and> look s' = look s \<and> expi s' = (expi s)((db, k) := Some w) \<and>
    dict_of s' = dict_of s"
  using kv_update_expire [OF ok m, of w] m by (simp add: setExpire_def look_set_dict)

definition sp_rename :: "ctx \<Rightarrow> bool \<Rightarrow> key \<Rightarrow> key \<Rightarrow> contents \<Rightarrow> outcome" where
  "sp_rename c nx k1 k2 L =
     (if k1 = k2 then sp_err (Shared ''sameobjecterr'') L
      else case L (c_db c, k1) of
        None \<Rightarrow> sp_err (Shared ''nokeyerr'') L
      | Some (x, e) \<Rightarrow>
          if nx \<and> L (c_db c, k2) \<noteq> None then sp_err (Shared ''czero'') L
          else (L((c_db c, k2) \<mapsto> (x, if e = Some (- 1) then None else e), (c_db c, k1) := None),
                [Shared (if nx then ''cone'' else ''ok'')], [KeyModified (c_db c) k1, KeyModified (c_db c) k2], 1))"

text \<open>The target is emptied, the value added with its expire time, and the source deleted.\<close>

lemma rename_move:
  assumes ok: "kv_ok (vref d) s" and db: "db < d_dbnum s" and k: "k1 \<noteq> k2" and f: "found db k2 w s" and d: "db = d_db s"
    and small: "length k2 \<le> 2 ^ 29"
  shows "\<exists>s'. (do {
       (_, s) \<leftarrow> (if w \<noteq> None then dbDelete (d_db s) k2 s else Some (True, s));
       s \<leftarrow> dbAdd (d_db s) k2 d s;
       s \<leftarrow> (if expire \<noteq> - 1 then setExpire (d_db s) k2 expire s else Some s);
       (_, s) \<leftarrow> dbDelete (d_db s) k1 s;
       let s = signalModifiedKey (d_db s) k2 (signalModifiedKey (d_db s) k1 s);
       Some (d_reply [Shared (if nx then ''cone'' else ''ok'')] (bump 1 s)) }) =
         Some (d_reply [Shared (if nx then ''cone'' else ''ok'')] (bump 1 (signalModifiedKey db k2 (signalModifiedKey db k1 s')))) \<and>
     kv_ok zero s' \<and> kv_step s s' \<and>
     look s' = (look s)((db, k2) := val_at s d, (db, k1) := None) \<and>
     expi s' = (expi s)((db, k2) := if expire = - 1 then None else Some expire, (db, k1) := None)"
proof -
  have "\<exists>b t. (if w \<noteq> None then dbDelete db k2 s else Some (True, s)) = Some (b, t) \<and> kv_ok (vref d) t \<and> kv_step s t \<and>
      look t = (look s)((db, k2) := None) \<and> expi t = (expi s)((db, k2) := None)"
  proof (cases "w = None")
    case True
    then have m: "map_of (dict_of s db) k2 = None" using f by (simp add: found_def)
    then have "expi s (db, k2) = None" using expi_dict [OF ok, of db k2]
      by (cases "map_of (expires_of s db) k2") (simp_all add: expi_def)
    moreover have "look s (db, k2) = None" using m by (simp add: look_def)
    ultimately have "look s = (look s)((db, k2) := None)" "expi s = (expi s)((db, k2) := None)" by (simp_all add: fun_upd_idem)
    then show ?thesis using True ok by (intro exI [of _ True] exI [of _ s]) simp
  next
    case False
    then show ?thesis using dbDelete_ok [OF ok, of db k2] by auto
  qed
  then obtain b t where t: "(if w \<noteq> None then dbDelete db k2 s else Some (True, s)) = Some (b, t)" "kv_ok (vref d) t" "kv_step s t"
    "look t = (look s)((db, k2) := None)" "expi t = (expi s)((db, k2) := None)" by blast
  have dt: "db < d_dbnum t" "map_of (dict_of t db) k2 = None" using db kv_step_fields [OF t(3)] look_None [OF t(2), of db k2] t(4) by simp_all
  have "val_at t d = val_at s d"
    by (rule val_step [OF ok t(3)]) (use owed_exists [OF ok] owed_exists [OF t(2)] in blast)
  with add_val_ok [OF t(2) dt small, of d] obtain u where u: "dbAdd db k2 d t = Some u" "kv_ok (\<lambda>a. vref d a - vref d a) u" "kv_step t u"
    "look u = (look t)((db, k2) := val_at s d)" "expi u = expi t" "map_of (dict_of u db) k2 = Some d" by auto
  have oku: "kv_ok zero u" using u(2) by simp
  obtain x where x: "(if expire \<noteq> - 1 then setExpire db k2 expire u else Some u) = Some x" "kv_ok zero x" "kv_step u x" "look x = look u"
    "expi x = (expi u)((db, k2) := if expire = - 1 then None else Some expire)"
    using set_expire_ok [OF oku, of db k2 expire] oku u(5,6) t(5) by (cases "expire = - 1") (auto simp: fun_upd_idem)
  from dbDelete_ok [OF x(2), of db k1] obtain y where y: "dbDelete db k1 x = Some (map_of (dict_of x db) k1 \<noteq> None, y)" "kv_ok zero y"
    "kv_step x y" "look y = (look x)((db, k1) := None)" "expi y = (expi x)((db, k1) := None)" by auto
  have "kv_step s y" using kv_step_trans [OF kv_step_trans [OF t(3) u(3)] kv_step_trans [OF x(3) y(3)]] .
  moreover have "look y = (look s)((db, k2) := val_at s d, (db, k1) := None)" using y(4) x(4) u(4) t(4) by simp
  moreover have "expi y = (expi s)((db, k2) := if expire = - 1 then None else Some expire, (db, k1) := None)" using y(5) x(5) u(5) t(5) by simp
  moreover have "d_db t = db" "d_db u = db" "d_db x = db" "d_db y = db"
    using d kv_step_fields(2) [OF t(3)] kv_step_fields(2) [OF u(3)] kv_step_fields(2) [OF x(3)] kv_step_fields(2) [OF y(3)] by simp_all
  ultimately show ?thesis using t(1) u(1) x(1) y(1,2) unfolding d [symmetric]
    by (intro exI [of _ y]) (cases "expire = - 1"; cases w; simp add: Let_def)
qed

lemma found_val:
  assumes ok: "kv_ok zero s" and f: "found db k (Some d) s"
  obtains x where "live s (db, k) = Some (x, expi s (db, k))" "val_at s d = Some x" "map_of (dict_of s db) k = Some d"
    "\<not> dead s (expi s (db, k))" "\<And>a. d = VStr a \<Longrightarrow> obj_at s a \<noteq> None"
proof -
  have m: "map_of (dict_of s db) k = Some d" "\<not> dead s (expi s (db, k))" using f by (simp_all add: found_def)
  then obtain x where "look s (db, k) = Some x" using look_None [OF ok, of db k] by auto
  then show ?thesis using that [of x] m obj_in_dict [OF ok _, of db k] by (simp add: look_def live_def)
qed

lemma rename_ok:
  assumes ok: "kv_ok zero s" and as: "raw_args [c, k1, k2] s"
  shows "meets s (renameGenericCommand nx s) (sp_rename (ctx_of s) nx k1 k2 (live s))"
proof -
  have k: "arg_raw 1 s = Some k1" "arg_raw 2 s = Some k2" using raw_args_nth(4) [OF as, of 1] raw_args_nth(4) [OF as, of 2] by simp_all
  show ?thesis
  proof (cases "k1 = k2")
    case True
    then show ?thesis using k meets_sp_err [OF ok refl ev_refl] by (simp add: renameGenericCommand_def sp_rename_def sdscmp_zero)
  next
    case ne: False
    obtain ov t where t: "lookupKeyWrite (d_db s) k1 s = Some (ov, t)" "kv_ok zero t" "kv_step s t" "live t = live s" "found (d_db s) k1 ov t"
      "ev s t [] [] 0" "d_db t = d_db s"
      by (rule lookup_write [OF ok, of "d_db s" k1])
    show ?thesis
    proof (cases ov)
      case None
      then have "live s (d_db s, k1) = None" using t(4) t(2,5) by (auto elim: found_cases)
      then show ?thesis using None ne k t(1) meets_sp_err [OF t(2,4,6)]
        by (simp add: renameGenericCommand_def sp_rename_def sdscmp_zero lookupKeyWriteOrReply_def)
    next
      case (Some d)
      obtain x where x: "live t (d_db s, k1) = Some (x, expi t (d_db s, k1))" "val_at t d = Some x" "map_of (dict_of t (d_db s)) k1 = Some d"
        "\<not> dead t (expi t (d_db s, k1))" "\<And>a. d = VStr a \<Longrightarrow> obj_at t a \<noteq> None"
        using found_val [OF t(2), of "d_db s" k1 d] t(5) Some by blast
      from incr_val_ok [OF t(2) x(5)] obtain u where u: "incr_val d t = Some u" "kv_ok (\<lambda>a. 0 + vref d a) u" "store_step t u" by blast
      have oku: "kv_ok (vref d) u" using u(2) by simp
      note fu = store_step_fields [OF u(3)]
      have lu: "look u = look t" by (rule look_step [OF t(2) oku u(3)]) simp_all
      from lookupKeyWrite_ok [OF oku, of "d_db s" k2] obtain w r where r: "lookupKeyWrite (d_db s) k2 u = Some (w, r)" "kv_ok (vref d) r" "kv_step u r"
        "live r = live u" "found (d_db s) k2 w r" by auto
      have st: "kv_step t r" by (rule kv_step_trans [OF store_kv_step [OF u(3)] r(3)])
      have er: "ev s r [] [] 0" by (rule ev_quiet [OF t(6) kv_step_ev [OF st]])
      have lr: "live r = live s" using r(4) t(4) live_same [OF store_kv_step [OF u(3)] lu] fu by simp
      have vr: "val_at r d = Some x" using val_step [OF t(2) st, of d] x(2,5) owed_exists [OF r(2)] by auto
      have w: "w \<noteq> None \<longleftrightarrow> live s (d_db s, k2) \<noteq> None"
        using r(5) look_None [OF r(2), of "d_db s" k2] lr by (auto simp: found_def live_def simp flip: lr)
      have db: "d_db s < d_dbnum r" using kv_db [OF ok] ev_env [OF er] by simp
      define expire where "expire = (case expi u (d_db s, k1) of None \<Rightarrow> - 1 | Some w \<Rightarrow> w)"
      have g: "getExpire (d_db s) k1 u = Some expire" unfolding expire_def by (rule getExpire_ok [OF oku])
      show ?thesis
      proof (cases "w \<noteq> None \<and> nx")
        case True
        have "int (shared_ref r b) < int (refs r b) + vref d b" if "d = VStr b" for b using shared_le_refs [of r b] that by simp
        from free_val_ok [OF r(2) this] obtain y where y: "free_val d r = Some y" "kv_ok (\<lambda>a. vref d a - vref d a) y" "store_step r y" by blast
        have oky: "kv_ok zero y" using y(2) by simp
        have "look y = look r" by (rule look_step [OF r(2) oky y(3)]) simp_all
        then have ly: "live y = live s" using live_same [OF store_kv_step [OF y(3)]] store_step_fields [OF y(3)] lr by simp
        have "renameGenericCommand nx s = Some (d_reply [Shared ''czero''] y)"
          using True Some ne k t(1,7) u(1) g r(1) y(1) fu by (simp add: renameGenericCommand_def sdscmp_zero lookupKeyWriteOrReply_def)
        then show ?thesis using True w ne x(1) t(4) meets_sp_err [OF oky ly ev_quiet [OF er kv_step_ev [OF store_kv_step [OF y(3)]]]]
          by (simp add: sp_rename_def)
      next
        case False
        have d: "d_db r = d_db s" using ev_env [OF er] by simp
        from rename_move [OF r(2) db ne r(5) d [symmetric] arg_small [OF ok k(2)], of expire nx] obtain y where y: "(do {
            (_, s) \<leftarrow> (if w \<noteq> None then dbDelete (d_db r) k2 r else Some (True, r));
            s \<leftarrow> dbAdd (d_db s) k2 d s;
            s \<leftarrow> (if expire \<noteq> - 1 then setExpire (d_db s) k2 expire s else Some s);
            (_, s) \<leftarrow> dbDelete (d_db s) k1 s;
            let s = signalModifiedKey (d_db s) k2 (signalModifiedKey (d_db s) k1 s);
            Some (d_reply [Shared (if nx then ''cone'' else ''ok'')] (bump 1 s)) }) =
              Some (d_reply [Shared (if nx then ''cone'' else ''ok'')] (bump 1 (signalModifiedKey (d_db s) k2 (signalModifiedKey (d_db s) k1 y))))"
          "kv_ok zero y" "kv_step r y"
          "look y = (look r)((d_db s, k2) := val_at r d, (d_db s, k1) := None)"
          "expi y = (expi r)((d_db s, k2) := if expire = - 1 then None else Some expire, (d_db s, k1) := None)" by blast
        have "renameGenericCommand nx s =
            Some (d_reply [Shared (if nx then ''cone'' else ''ok'')] (bump 1 (signalModifiedKey (d_db s) k2 (signalModifiedKey (d_db s) k1 y))))"
          using False Some ne k t(1,7) u(1) g r(1) y(1) fu
          by (cases w; cases nx) (simp_all add: renameGenericCommand_def sdscmp_zero lookupKeyWriteOrReply_def)
        moreover have "live y = (live s)((d_db s, k2) := Some (x, if expire = - 1 then None else Some expire), (d_db s, k1) := None)"
          unfolding lr [symmetric]
        proof -
          have dd: "dead y = dead r" "dead r = dead t" by (rule dead_step [OF y(3)], rule dead_step [OF st])
          have "\<not> dead r (if expire = - 1 then None else Some expire)"
            using x(4) fu(16) dd(2) by (auto simp: expire_def split: option.split)
          then show "live y = (live r)((d_db s, k2) := Some (x, if expire = - 1 then None else Some expire), (d_db s, k1) := None)"
            using y(4,5) vr ne dd(1) by (auto simp: live_def fun_eq_iff)
        qed
        moreover have "ev s (d_reply [Shared (if nx then ''cone'' else ''ok'')] (bump 1 (signalModifiedKey (d_db s) k2 (signalModifiedKey (d_db s) k1 y))))
            [Shared (if nx then ''cone'' else ''ok'')] [KeyModified (d_db s) k1, KeyModified (d_db s) k2] 1"
          using ev_more(1) [OF ev_more(2) [OF ev_more(3) [OF ev_more(3) [OF ev_quiet [OF er kv_step_ev [OF y(3)]], of "d_db s" k1], of "d_db s" k2], of 1]]
          by simp
        moreover have "sp_rename (ctx_of s) nx k1 k2 (live s) =
          ((live s)((d_db s, k2) := Some (x, if expire = - 1 then None else Some expire), (d_db s, k1) := None),
            [Shared (if nx then ''cone'' else ''ok'')], [KeyModified (d_db s) k1, KeyModified (d_db s) k2], 1)"
        proof -
          have "live s (d_db s, k1) = Some (x, expi u (d_db s, k1))" using x(1) t(4) fu by simp
          moreover have "(if expi u (d_db s, k1) = Some (- 1) then None else expi u (d_db s, k1)) = (if expire = - 1 then None else Some expire)"
            by (simp add: expire_def split: option.split)
          moreover have "\<not> (nx \<and> live s (d_db s, k2) \<noteq> None)" using False w by blast
          ultimately show ?thesis unfolding sp_rename_def ctx_db if_not_P [OF ne] by (simp only: option.case prod.case if_False)
        qed
        ultimately show ?thesis using y(2) by (simp add: meetsI)
      qed
    qed
  qed
qed

definition sp_move :: "ctx \<Rightarrow> key \<Rightarrow> byte list \<Rightarrow> contents \<Rightarrow> outcome" where
  "sp_move c k b L =
     (let dst = nat (atoi b) in
      if atoi b < 0 \<or> atoi b \<ge> int (c_dbnum c) then sp_err (Shared ''outofrangeerr'') L
      else if dst = c_db c then sp_err (Shared ''sameobjecterr'') L
      else case L (c_db c, k) of
        None \<Rightarrow> sp_err (Shared ''czero'') L
      | Some (x, _) \<Rightarrow>
          if L (dst, k) \<noteq> None then sp_err (Shared ''czero'') L
          else (L((dst, k) \<mapsto> (x, None), (c_db c, k) := None), [Shared ''cone''], [], 1))"

lemma lookup_other_db: "lookupKeyWrite db k s = Some (v, s') \<Longrightarrow> db' \<noteq> db \<Longrightarrow> dict_of s' db' = dict_of s db'"
  by (auto simp: lookupKeyWrite_def expireIfNeeded_def dbDelete_def lookupKey_def touch_lru_def free_val_def decr_ref_def propagateExpire_def
      Let_def split: bind_splits if_splits option.splits dval.splits)

lemma look_same_objs:
  assumes "kv_ok H s" "store_step s s'" "\<forall>b. obj_at s' b \<noteq> None \<longleftrightarrow> obj_at s b \<noteq> None"
  shows "look s' = look s"
proof (rule look_keep)
  show "dict_of s' = dict_of s" using store_step_fields [OF assms(2)] by simp
  fix db k a
  show "strs s' a = strs s a"
  proof (cases "obj_at s a")
    case None
    then have "obj_at s' a = None" using assms(3) by blast
    then show ?thesis using None by (simp add: strs_def enc_def)
  next
    case (Some ob)
    then have "obj_at s a \<noteq> None" "obj_at s' a \<noteq> None" using assms(3) by simp_all
    then show ?thesis using enc_step [OF assms(1,2), of a] by (simp add: strs_def)
  qed
qed

lemma select_back: "d_db s < d_dbnum s \<Longrightarrow> snd (selectDb (int (d_db s)) (s\<lparr>d_db := n\<rparr>)) = s"
  by (simp add: selectDb_def)

lemma move_ok:
  assumes ok: "kv_ok zero s" and as: "raw_args [c, k, b] s"
  shows "meets s (moveCommand s) (sp_move (ctx_of s) k b (live s))"
proof -
  have k: "arg_raw 1 s = Some k" "arg_raw 2 s = Some b" using raw_args_nth(4) [OF as, of 1] raw_args_nth(4) [OF as, of 2] by simp_all
  note es = meets_sp_err [OF ok refl ev_refl]
  note bk = select_back [OF kv_db [OF ok]]
  define dst where "dst = nat (atoi b)"
  consider "atoi b < 0 \<or> atoi b \<ge> int (d_dbnum s)" | "0 \<le> atoi b" "atoi b < int (d_dbnum s)" "dst = d_db s"
    | "0 \<le> atoi b" "atoi b < int (d_dbnum s)" "dst \<noteq> d_db s" by fastforce
  then show ?thesis
  proof cases
    case 1
    then show ?thesis using k es by (auto simp: moveCommand_def selectDb_def sp_move_def)
  next
    case 2
    then show ?thesis using k es bk by (simp add: moveCommand_def selectDb_def sp_move_def dst_def Let_def)
  next
    case 3
    have db: "dst < d_dbnum s" using 3 by (simp add: dst_def)
    have sel: "selectDb (atoi b) s = (True, s\<lparr>d_db := dst\<rparr>)" using 3 by (simp add: selectDb_def dst_def)
    obtain ov t where t: "lookupKeyWrite (d_db s) k s = Some (ov, t)" "kv_ok zero t" "kv_step s t" "live t = live s" "found (d_db s) k ov t"
      "ev s t [] [] 0" "d_db t = d_db s"
      by (rule lookup_write [OF ok, of "d_db s" k])
    show ?thesis
    proof (cases ov)
      case None
      then have "live s (d_db s, k) = None" using t(4) t(2,5) by (auto elim: found_cases)
      then show ?thesis using None 3 k sel bk t(1) meets_sp_err [OF t(2,4,6)] by (simp add: moveCommand_def sp_move_def Let_def dst_def)
    next
      case (Some d)
      obtain x where x: "live t (d_db s, k) = Some (x, expi t (d_db s, k))" "val_at t d = Some x" "map_of (dict_of t (d_db s)) k = Some d"
        using found_val [OF t(2), of "d_db s" k d] t(5) Some by blast
      obtain w r where r: "lookupKeyWrite dst k t = Some (w, r)" "kv_ok zero r" "kv_step t r" "live r = live t" "found dst k w r" "ev t r [] [] 0"
        by (rule lookup_write [OF t(2), of dst k])
      note er = ev_quiet [OF t(6) r(6)]
      have lr: "live r = live s" using r(4) t(4) by simp
      have w: "w \<noteq> None \<longleftrightarrow> live s (dst, k) \<noteq> None"
        using r(5) look_None [OF r(2), of dst k] lr by (auto simp: found_def live_def simp flip: lr)
      show ?thesis
      proof (cases "w = None")
        case False
        then show ?thesis using Some 3 k sel bk t(1) r(1) w x(1) t(4) meets_sp_err [OF r(2) lr er]
          by (auto simp: moveCommand_def sp_move_def Let_def dst_def)
      next
        case True
        have mr: "map_of (dict_of r (d_db s)) k = Some d" using lookup_other_db [OF r(1), of "d_db s"] 3(3) x(3) by simp
        have "map_of (dict_of r dst) k = None" "dst < d_dbnum r" using r(5) True db ev_env [OF er] by (simp_all add: found_def)
        from add_val_ok [OF r(2) this(2,1) arg_small [OF ok k(1)], of d] obtain u where u: "dbAdd dst k d r = Some u" "kv_ok (\<lambda>a. 0 - vref d a) u" "kv_step r u"
          "look u = (look r)((dst, k) := val_at r d)" "expi u = expi r" "obj_at u = obj_at r" by blast
        have ex: "obj_at r a \<noteq> None" if "d = VStr a" for a using obj_in_dict [OF r(2), of "d_db s" k a] mr that by simp
        have "obj_at u a \<noteq> None" if "d = VStr a" for a using ex [OF that] u(6) by simp
        from incr_val_ok [OF u(2) this] obtain v where v: "incr_val d u = Some v" "kv_ok (\<lambda>a. 0 - vref d a + vref d a) v" "store_step u v"
          "\<forall>b. obj_at v b \<noteq> None \<longleftrightarrow> obj_at u b \<noteq> None" by blast
        have okv: "kv_ok zero v" using v(2) by simp
        have lv: "look v = look u" by (rule look_same_objs [OF u(2) v(3,4)])
        note fv = store_step_fields [OF v(3)]
        from dbDelete_ok [OF okv, of "d_db s" k] obtain y where y: "dbDelete (d_db s) k v = Some (map_of (dict_of v (d_db s)) k \<noteq> None, y)" "kv_ok zero y"
          "kv_step v y" "look y = (look v)((d_db s, k) := None)" "expi y = (expi v)((d_db s, k) := None)" by auto
        have st: "kv_step r y" using kv_step_trans [OF u(3) kv_step_trans [OF store_kv_step [OF v(3)] y(3)]] .
        have vr: "val_at r d = Some x"
          using val_step [OF t(2) r(3), of d] ex obj_in_dict [OF t(2), of "d_db s" k] x(2,3) by auto
        have eu: "expi r (dst, k) = None" using expi_dict [OF r(2), of dst k] r(5) True
          by (cases "map_of (expires_of r dst) k") (simp_all add: found_def expi_def)
        have "live y = (live r)((dst, k) := Some (x, None), (d_db s, k) := None)"
          using y(4,5) lv fv(16) u(4,5) vr eu 3(3) dead_step [OF st] by (auto simp: live_def fun_eq_iff)
        then have ly: "live y = (live s)((dst, k) := Some (x, None), (d_db s, k) := None)" by (simp add: lr)
        have "moveCommand s = Some (d_reply [Shared ''cone''] (bump 1 y))"
          using Some True 3 k sel bk t(1) r(1) u(1) v(1) y(1) by (simp add: moveCommand_def Let_def)
        moreover have "ev s (d_reply [Shared ''cone''] (bump 1 y)) [Shared ''cone''] [] 1"
          using ev_more(1) [OF ev_more(2) [OF ev_quiet [OF er kv_step_ev [OF st]], of 1], of "[Shared ''cone'']"] by simp
        moreover have "sp_move (ctx_of s) k b (live s) =
          ((live s)((dst, k) := Some (x, None), (d_db s, k) := None), [Shared ''cone''], [], 1)"
          using 3 True w x(1) t(4) by (simp add: sp_move_def dst_def)
        ultimately show ?thesis using y(2) ly by (simp add: meetsI)
      qed
    qed
  qed
qed

section \<open>The stored contents\<close>

text \<open>What the dictionaries hold, keys that have expired included; clients see it aged.\<close>

definition stored :: "dserver \<Rightarrow> contents" where
  "stored s p = map_option (\<lambda>v. (v, expi s p)) (look s p)"

definition age :: "ctx \<Rightarrow> contents \<Rightarrow> contents" where
  "age c L = (\<lambda>p. case L p of Some (v, Some t) \<Rightarrow> if gone c t then None else Some (v, Some t) | x \<Rightarrow> x)"

lemma live_stored: "live s = age (ctx_of s) (stored s)"
  by (auto simp: fun_eq_iff live_def age_def stored_def dead_gone split: option.split)

definition stores :: "dserver \<Rightarrow> dserver option \<Rightarrow> outcome \<Rightarrow> bool" where
  "stores s r oc \<longleftrightarrow> (case oc of (S, rs, sg, n) \<Rightarrow>
     \<exists>s'. r = Some s' \<and> kv_ok zero s' \<and> stored s' = S \<and> ev s s' rs sg n)"

lemma storesI: "r = Some s' \<Longrightarrow> kv_ok zero s' \<Longrightarrow> stored s' = S \<Longrightarrow> ev s s' rs sg n \<Longrightarrow> stores s r (S, rs, sg, n)"
  by (auto simp: stores_def)

lemma stored_None: "kv_ok H s \<Longrightarrow> no_debt H s \<Longrightarrow> stored s (db, k) = None \<longleftrightarrow> map_of (dict_of s db) k = None"
  using look_None [of H s db k] by (simp add: stored_def)

lemma stored_upd:
  "look s' = (look s)(p := x) \<Longrightarrow> expi s' = (expi s)(p := w) \<Longrightarrow> stored s' = (stored s)(p := map_option (\<lambda>v. (v, w)) x)"
  by (auto simp: stored_def fun_eq_iff)

lemma stored_same: "look s' = look s \<Longrightarrow> expi s' = expi s \<Longrightarrow> stored s' = stored s"
  by (simp add: stored_def fun_eq_iff)

lemma stored_quiet [simp]:
  "stored (d_reply rs s) = stored s" "stored (bump n s) = stored s" "stored (signalModifiedKey db k s) = stored s"
  by (simp_all add: stored_def fun_eq_iff)

lemma stores_sp_err: "kv_ok zero t \<Longrightarrow> stored t = L \<Longrightarrow> ev s t [] [] 0 \<Longrightarrow> stores s (Some (d_reply [r] t)) (sp_err r L)"
  unfolding sp_err_def by (rule storesI [OF refl]) (auto dest: ev_more(1) [of s t "[]" "[]" 0 "[r]"])

text \<open>A command that does so leaves the live contents that follow.\<close>

lemma stores_live: "stores s r (S, rs, sg, n) \<Longrightarrow> meets s r (age (ctx_of s) S, rs, sg, n)"
  by (force simp: stores_def meets_def live_stored ctx_of_ev)

section \<open>DEL\<close>

text \<open>The keys that are deleted, in order.\<close>

primrec deleted :: "nat \<Rightarrow> key list \<Rightarrow> contents \<Rightarrow> key list" where
  "deleted db [] S = []"
| "deleted db (k # ks) S =
     (if S (db, k) = None then deleted db ks S else k # deleted db ks (S((db, k) := None)))"

definition sp_del :: "ctx \<Rightarrow> key list \<Rightarrow> contents \<Rightarrow> outcome" where
  "sp_del c ks S =
     (let ds = deleted (c_db c) ks S in
      (\<lambda>p. if fst p = c_db c \<and> snd p \<in> set ks then None else S p, [LongLong (int (length ds))],
       map (KeyModified (c_db c)) ds, int (length ds)))"

lemma delete_stored:
  assumes ok: "kv_ok zero s"
  obtains t where "dbDelete db k s = Some (stored s (db, k) \<noteq> None, t)" "kv_ok zero t" "stored t = (stored s)((db, k) := None)"
    "kv_step s t" "ev s t [] [] 0" "args t = args s" "d_argv t = d_argv s"
proof -
  from dbDelete_ok [OF ok, of db k] obtain t where t: "dbDelete db k s = Some (map_of (dict_of s db) k \<noteq> None, t)" "kv_ok zero t" "kv_step s t"
    "look t = (look s)((db, k) := None)" "expi t = (expi s)((db, k) := None)" by auto
  show ?thesis
    using that [of t] t stored_upd [OF t(4,5)] stored_None [OF ok, of db k] kv_step_ev [OF t(3)] args_step [OF ok t(2,3)] kv_step_fields [OF t(3)]
    by simp
qed

lemma del_loop_ok:
  assumes "kv_ok zero s" "list_all2 (\<lambda>a k. raw s a = Some k \<and> a \<in> set (d_argv s)) as ks"
  shows "\<exists>s'. del_loop as n s = Some (n + int (length (deleted (d_db s) ks (stored s))), s') \<and> kv_ok zero s' \<and>
    stored s' = (\<lambda>p. if fst p = d_db s \<and> snd p \<in> set ks then None else stored s p) \<and>
    ev s s' [] (map (KeyModified (d_db s)) (deleted (d_db s) ks (stored s))) (int (length (deleted (d_db s) ks (stored s))))"
  using assms
proof (induction as arbitrary: s ks n)
  case (Cons a as)
  obtain k ks' where ks: "ks = k # ks'" "raw s a = Some k" "list_all2 (\<lambda>a k. raw s a = Some k \<and> a \<in> set (d_argv s)) as ks'"
    using Cons.prems(2) by (auto simp: list_all2_Cons1)
  obtain t where t: "dbDelete (d_db s) k s = Some (stored s (d_db s, k) \<noteq> None, t)" "kv_ok zero t" "stored t = (stored s)((d_db s, k) := None)"
    "kv_step s t" "ev s t [] [] 0" "args t = args s" "d_argv t = d_argv s" by (rule delete_stored [OF Cons.prems(1)])
  have enc: "enc t x = enc s x" if "x \<in> set (d_argv s)" for x using t(6,7) that by (simp add: args_def)
  define u where "u = (if stored s (d_db s, k) = None then t else bump 1 (signalModifiedKey (d_db s) k t))"
  define m where "m = (if stored s (d_db s, k) = None then n else n + 1)"
  have u: "kv_ok zero u" "stored u = (stored s)((d_db s, k) := None)" "d_db u = d_db s" "d_argv u = d_argv s" "enc u = enc t"
    using t ev_env [OF t(5)] by (simp_all add: u_def)
  have l: "list_all2 (\<lambda>a k. raw u a = Some k \<and> a \<in> set (d_argv u)) as ks'"
    using ks(3) by (rule list_all2_mono) (use enc u in \<open>simp add: raw_enc\<close>)
  from Cons.IH [OF u(1) l, of m] obtain s' where s': "del_loop as m u = Some (m + int (length (deleted (d_db u) ks' (stored u))), s')" "kv_ok zero s'"
    "stored s' = (\<lambda>p. if fst p = d_db u \<and> snd p \<in> set ks' then None else stored u p)"
    "ev u s' [] (map (KeyModified (d_db u)) (deleted (d_db u) ks' (stored u))) (int (length (deleted (d_db u) ks' (stored u))))" by blast
  have "del_loop (a # as) n s = del_loop as m u" using ks(2) t(1) ev_env [OF t(5)]
    by (cases "stored s (d_db s, k)") (simp_all add: u_def m_def)
  moreover have "stored s' = (\<lambda>p. if fst p = d_db s \<and> snd p \<in> set ks then None else stored s p)"
    unfolding s'(3) u(2,3) ks(1) by (auto simp: fun_eq_iff)
  moreover have "stored s (d_db s, k) = None \<Longrightarrow> (stored s)((d_db s, k) := None) = stored s" by (simp add: fun_upd_idem)
  moreover have "ev s u [] (if stored s (d_db s, k) = None then [] else [KeyModified (d_db s) k]) (if stored s (d_db s, k) = None then 0 else 1)"
    using t(5) ev_more(2) [OF ev_more(3) [OF t(5), of "d_db s" k], of 1] by (simp add: u_def)
  from ev_trans [OF this s'(4)] have "ev s s' [] (map (KeyModified (d_db s)) (deleted (d_db s) ks (stored s))) (int (length (deleted (d_db s) ks (stored s))))"
    using u(2,3) ks(1) calculation(3) by (cases "stored s (d_db s, k)") simp_all
  ultimately show ?case using s'(1,2) u(2,3) ks(1) by (cases "stored s (d_db s, k)") (simp_all add: m_def)
qed simp

lemma del_ok:
  assumes ok: "kv_ok zero s" and as: "raw_args (c # ks) s"
  shows "stores s (delCommand s) (sp_del (ctx_of s) ks (stored s))"
proof -
  obtain x xs where x: "d_argv s = x # xs" "list_all2 (\<lambda>a k. raw s a = Some k \<and> a \<in> set (d_argv s)) xs ks"
    using raw_args_all [OF as] by (auto simp: list_all2_Cons2)
  define ds where "ds = deleted (d_db s) ks (stored s)"
  from del_loop_ok [OF ok x(2), of 0] obtain t where t: "del_loop xs 0 s = Some (int (length ds), t)" "kv_ok zero t"
    "stored t = (\<lambda>p. if fst p = d_db s \<and> snd p \<in> set ks then None else stored s p)"
    "ev s t [] (map (KeyModified (d_db s)) ds) (int (length ds))" by (auto simp: ds_def)
  have "delCommand s = Some (d_reply [LongLong (int (length ds))] t)" using x(1) t(1) by (simp add: delCommand_def)
  moreover note ev_more(1) [OF t(4), of "[LongLong (int (length ds))]"]
  ultimately show ?thesis using t(2,3) by (simp add: sp_del_def ds_def Let_def storesI)
qed

section \<open>EXPIRE and PERSIST\<close>

lemma decr_all_ok:
  assumes "kv_ok H s" "\<And>x. int (count_list as x) + int (shared_ref s x) \<le> int (refs s x) + H x"
  shows "\<exists>s'. decr_all as s = Some s' \<and> kv_ok (\<lambda>x. H x - int (count_list as x)) s' \<and> store_step s s'"
  using assms
proof (induction as arbitrary: s H)
  case (Cons a as)
  have "int (shared_ref s a) < int (refs s a) + H a" using Cons.prems(2) [of a] by simp
  from decr_ref_ok [OF Cons.prems(1) this] obtain t where t: "decr_ref a s = Some t" "kv_ok (H(a := H a - 1)) t" "store_step s t" by blast
  have f: "refs t = refs s" "shared_ref t = shared_ref s"
    using store_step_fields(17) [OF t(3)] kv_step_fields(14) [OF store_kv_step [OF t(3)]] by simp_all
  have c: "int (count_list as x) + int (shared_ref t x) \<le> int (refs t x) + (H(a := H a - 1)) x" for x
    using Cons.prems(2) [of x] by (cases "a = x") (simp_all add: f)
  from Cons.IH [OF t(2) c] obtain s' where s': "decr_all as t = Some s'" "kv_ok (\<lambda>x. (H(a := H a - 1)) x - int (count_list as x)) s'" "store_step t s'"
    by blast
  have "kv_ok (\<lambda>x. H x - int (count_list (a # as) x)) s'" using s'(2) by (rule kv_cong) simp
  then show ?case using t(1) s'(1) store_step_trans [OF t(3) s'(3)] by simp
qed simp

lemma incr_all_ok:
  assumes "kv_ok H s" "\<And>x. x \<in> set as \<Longrightarrow> obj_at s x \<noteq> None"
  shows "\<exists>s'. incr_all as s = Some s' \<and> kv_ok (\<lambda>x. H x + int (count_list as x)) s' \<and> store_step s s'"
  using assms
proof (induction as arbitrary: s H)
  case (Cons a as)
  have "obj_at s a \<noteq> None" using Cons.prems(2) by simp
  from incr_ref_ok [OF Cons.prems(1) this] obtain t where t: "incr_ref a s = Some t" "kv_ok (H(a := H a + 1)) t" "store_step s t"
    "\<forall>b. obj_at t b \<noteq> None \<longleftrightarrow> obj_at s b \<noteq> None" by blast
  have c: "obj_at t x \<noteq> None" if "x \<in> set as" for x using t(4) Cons.prems(2) [of x] that by simp
  from Cons.IH [OF t(2) c] obtain s' where s': "incr_all as t = Some s'" "kv_ok (\<lambda>x. (H(a := H a + 1)) x + int (count_list as x)) s'" "store_step t s'"
    by blast
  have "kv_ok (\<lambda>x. H x + int (count_list (a # as) x)) s'" using s'(2) by (rule kv_cong) simp
  then show ?case using t(1) s'(1) store_step_trans [OF t(3) s'(3)] by simp
qed simp

text \<open>Objects that a dictionary refers to keep their strings while the argument vector is replaced.\<close>

lemma look_argv:
  assumes "kv_ok H s" "kv_ok H' s'" "\<And>a. 0 \<le> H a" "\<And>a. 0 \<le> H' a" "store_step s t" "dict_of s' = dict_of s" "obj_at s' = obj_at t"
  shows "look s' = look s"
proof (rule look_keep [OF assms(6)])
  fix db k a assume m: "map_of (dict_of s db) k = Some (VStr a)"
  have "obj_at s' a \<noteq> None" "obj_at s a \<noteq> None"
    using obj_in_dict [OF assms(2,4), of db k a] obj_in_dict [OF assms(1,3), of db k a] m assms(6) by simp_all
  then have "enc t a = enc s a" using enc_step [OF assms(1,5)] assms(7) by simp
  then show "strs s' a = strs s a" using assms(7) by (simp add: strs_def enc_def)
qed

lemma rewrite_ok:
  assumes ok: "kv_ok (zero(n := 1)) s" and key: "key \<in> set (d_argv s)"
  shows "\<exists>s' t. rewriteClientCommandVector [n, key] s = Some t \<and> decr_ref n t = Some s' \<and> kv_ok zero s' \<and> look s' = look s \<and> expi s' = expi s \<and>
    ev s s' [] [] 0 \<and> ev s t [] [] 0 \<and> d_argv s' = [n, key] \<and> args s' = [enc s n, enc s key]"
proof -
  have "obj_at s x \<noteq> None" if "x \<in> set [n, key]" for x
  proof -
    have "0 < int (refs s x) + (zero(n := 1)) x" using that refs_argv [OF key] by auto
    then show ?thesis using kv_exists [OF ok, of x] by blast
  qed
  from incr_all_ok [OF ok this] obtain t where t: "incr_all [n, key] s = Some t" "kv_ok (\<lambda>x. (zero(n := 1)) x + int (count_list [n, key] x)) t" "store_step s t"
    by blast
  note ft = store_step_fields [OF t(3)]
  have "int (count_list (d_argv s) x) + int (shared_ref t x) \<le> int (refs t x) + ((zero(n := 1)) x + int (count_list [n, key] x))" for x
    using kv_step_fields(14) [OF store_kv_step [OF t(3)]] by (simp add: ft refs_def flip: of_nat_sum)
  from decr_all_ok [OF t(2) this] obtain u where u: "decr_all (d_argv s) t = Some u"
    "kv_ok (\<lambda>x. ((zero(n := 1)) x + int (count_list [n, key] x)) - int (count_list (d_argv s) x)) u" "store_step t u" by blast
  note fu = store_step_fields [OF u(3)]
  define v where "v = u\<lparr>d_argv := [n, key]\<rparr>"
  have "kv_ok (\<lambda>x. (((zero(n := 1)) x + int (count_list [n, key] x)) - int (count_list (d_argv s) x)) + int (count_list (d_argv u) x) - int (count_list [n, key] x)) v"
    unfolding v_def by (rule kv_set_argv [OF u(2)])
  then have v: "kv_ok (zero(n := 1)) v" by (rule kv_cong) (simp add: ft fu)
  have "int (shared_ref v n) < int (refs v n) + (zero(n := 1)) n" using shared_le_refs [of v n] by simp
  from decr_ref_ok [OF v this] obtain s' where s': "decr_ref n v = Some s'" "kv_ok ((zero(n := 1))(n := (zero(n := 1)) n - 1)) s'" "store_step v s'" by blast
  note fs = store_step_fields [OF s'(3)]
  have ok': "kv_ok zero s'" using s'(2) by (rule kv_cong) simp
  have su: "store_step s u" by (rule store_step_trans [OF t(3) u(3)])
  have dv: "dict_of v = dict_of s" "expires_of v = expires_of s" "d_argv v = [n, key]" using ft fu by (simp_all add: v_def)
  have "look v = look s" by (rule look_argv [OF ok v _ _ su dv(1)]) (simp_all add: v_def)
  moreover have "look s' = look v" by (rule look_step [OF v ok' s'(3)]) simp_all
  moreover have "expi s' = expi s" using fs ft fu by (simp add: v_def expi_def fun_eq_iff)
  moreover have ev: "ev s v [] [] 0" using kv_step_ev [OF store_kv_step [OF su]] by (simp add: v_def ev_def env_def)
  moreover have "ev s s' [] [] 0" by (rule ev_quiet [OF ev kv_step_ev [OF store_kv_step [OF s'(3)]]])
  moreover have "enc s' x = enc s x" if "x \<in> {n, key}" for x
  proof -
    have "x \<in> set (d_argv s')" using that fs dv by auto
    then have e: "obj_at s' x \<noteq> None" by (rule arg_exists [OF ok'])
    have "0 < refs v x" using that dv(3) refs_argv [of x v] by auto
    then have "obj_at v x \<noteq> None" using kv_exists [OF v, of x] by (cases "x = n") simp_all
    then have "enc s' x = enc u x" using enc_step [OF v s'(3) e] by (simp add: v_def enc_def)
    moreover have "enc u x = enc s x"
    proof (rule enc_step [OF ok su])
      show "obj_at u x \<noteq> None" using \<open>obj_at v x \<noteq> None\<close> by (simp add: v_def)
      have "0 < int (refs s x) + (zero(n := 1)) x" using that refs_argv [OF key] by auto
      then show "obj_at s x \<noteq> None" using kv_exists [OF ok, of x] by blast
    qed
    ultimately show ?thesis by simp
  qed
  moreover have "rewriteClientCommandVector [n, key] s = Some v"
    using t(1) u(1) by (simp add: rewriteClientCommandVector_def v_def ft del: incr_all.simps)
  moreover have "d_argv s' = [n, key]" using fs dv by simp
  ultimately show ?thesis using s'(1) ok' by (intro exI [of _ s'] exI [of _ v]) (simp add: args_def)
qed

definition sp_expire :: "ctx \<Rightarrow> int \<Rightarrow> bool \<Rightarrow> key \<Rightarrow> byte list \<Rightarrow> contents \<Rightarrow> outcome" where
  "sp_expire c base seconds k e S =
     (case num e of
        None \<Rightarrow> sp_err not_int S
      | Some n \<Rightarrow>
          (let p = (c_db c, k); t = llong ((if seconds then llong (n * 1000) else n) + base) in
           case S p of
             None \<Rightarrow> sp_err (Shared ''czero'') S
           | Some (x, _) \<Rightarrow>
               (S(p := if t \<le> c_now c \<and> \<not> c_frozen c then None else Some (x, Some t)),
                [Shared ''cone''], [KeyModified (c_db c) k], 1)))"

lemma expire_ok:
  assumes ok: "kv_ok zero s" and as: "raw_args [c, k, e] s"
  shows "stores s (expireGenericCommand base seconds s) (sp_expire (ctx_of s) base seconds k e (stored s))"
proof -
  define key where "key = d_argv s ! 1"
  have k: "arg 1 s = Some key" "key \<in> set (d_argv s)" "raw s key = Some k" and a: "arg 2 s = Some (d_argv s ! 2)" "strs s (d_argv s ! 2) = Some e"
    using raw_args_nth(1,2,5) [OF as, of 1] raw_args_nth(1,6) [OF as, of 2] by (simp_all add: key_def)
  note es = stores_sp_err [OF ok refl ev_refl]
  have there: "dbExists (d_db s) k s \<longleftrightarrow> stored s (d_db s, k) \<noteq> None" using stored_None [OF ok, of "d_db s" k] by (simp add: dbExists_def)
  show ?thesis
  proof (cases "num e")
    case None
    then show ?thesis using es k a by (simp add: expireGenericCommand_def sp_expire_def getLongLong_num)
  next
    case (Some n)
    define t where "t = llong ((if seconds then llong (n * 1000) else n) + base)"
    show ?thesis
    proof (cases "stored s (d_db s, k)")
      case None
      then show ?thesis using es k a Some there by (simp add: expireGenericCommand_def sp_expire_def getLongLong_num)
    next
      case there': (Some xe)
      obtain x w where x: "stored s (d_db s, k) = Some (x, w)" using there' by (cases xe) simp
      show ?thesis
      proof (cases "t \<le> d_mstime s \<and> \<not> d_loading s \<and> \<not> d_slave s")
        case True
        obtain u where u: "dbDelete (d_db s) k s = Some (stored s (d_db s, k) \<noteq> None, u)" "kv_ok zero u" "stored u = (stored s)((d_db s, k) := None)"
          "kv_step s u" "ev s u [] [] 0" "args u = args s" "d_argv u = d_argv s" by (rule delete_stored [OF ok])
        define b where "b = bump 1 u"
        have b: "kv_ok zero b" "stored b = (stored s)((d_db s, k) := None)" "ev s b [] [] 1" "d_argv b = d_argv s"
          using u(2,3,7) ev_more(2) [OF u(5), of 1] by (simp_all add: b_def)
        from new_obj_ok [OF b(1), of "ENC_RAW [68, 69, 76]"] obtain aux v where v: "new_obj (ENC_RAW [68, 69, 76]) b = (aux, v)"
          "kv_ok (zero(aux := 0 + 1)) v" "store_step b v" by auto
        have okv: "kv_ok (zero(aux := 1)) v" using v(2) by simp
        have "key \<in> set (d_argv v)" using k(2) b(4) store_step_fields [OF v(3)] by simp
        from rewrite_ok [OF okv this] obtain y z where y: "rewriteClientCommandVector [aux, key] v = Some z" "decr_ref aux z = Some y" "kv_ok zero y"
          "look y = look v" "expi y = expi v" "ev v y [] [] 0" by blast
        have "look v = look b" by (rule look_step [OF b(1) okv v(3)]) simp_all
        then have sy: "stored y = (stored s)((d_db s, k) := None)"
          using stored_same [of y b] y(4,5) store_step_fields [OF v(3)] b(2) by simp
        from ev_trans [OF b(3) ev_quiet [OF kv_step_ev [OF store_kv_step [OF v(3)]] y(6)]] have ey: "ev s y [] [] 1" by simp
        have "expireGenericCommand base seconds s = Some (d_reply [Shared ''cone''] (signalModifiedKey (d_db s) k y))"
          using k a Some there x True u(1) v(1) y(1,2) ev_env [OF ey] ev_env [OF u(5)]
          by (simp add: expireGenericCommand_def getLongLong_num t_def [symmetric] Let_def b_def)
        moreover have "ev s (d_reply [Shared ''cone''] (signalModifiedKey (d_db s) k y)) [Shared ''cone''] [KeyModified (d_db s) k] 1"
          using ev_more(1) [OF ev_more(3) [OF ey, of "d_db s" k], of "[Shared ''cone'']"] by simp
        moreover have "sp_expire (ctx_of s) base seconds k e (stored s) =
            ((stored s)((d_db s, k) := None), [Shared ''cone''], [KeyModified (d_db s) k], 1)"
          using True Some x by (simp add: sp_expire_def t_def [symmetric] Let_def) (simp add: ctx_of_def)
        ultimately show ?thesis using y(3) sy by (simp add: storesI)
      next
        case False
        have "map_of (dict_of s (d_db s)) k \<noteq> None" using there x by (simp add: dbExists_def)
        from set_expire_ok [OF ok this, of t] obtain y where y: "setExpire (d_db s) k t s = Some y" "kv_ok zero y" "kv_step s y" "look y = look s"
          "expi y = (expi s)((d_db s, k) := Some t)" by blast
        have "look y = (look s)((d_db s, k) := look s (d_db s, k))" using y(4) by simp
        from stored_upd [OF this y(5)] have sy: "stored y = (stored s)((d_db s, k) := Some (x, Some t))"
          using x by (auto simp: stored_def)
        note ey = kv_step_ev [OF y(3)]
        have "expireGenericCommand base seconds s = Some (bump 1 (signalModifiedKey (d_db s) k (d_reply [Shared ''cone''] y)))"
          using k a Some there x False y(1) ev_env [OF ey]
          by (auto simp: expireGenericCommand_def getLongLong_num t_def [symmetric] Let_def)
        moreover have "ev s (bump 1 (signalModifiedKey (d_db s) k (d_reply [Shared ''cone''] y))) [Shared ''cone''] [KeyModified (d_db s) k] 1"
          using ev_more(2) [OF ev_more(3) [OF ev_more(1) [OF ey, of "[Shared ''cone'']"], of "d_db s" k], of 1] by simp
        moreover have "sp_expire (ctx_of s) base seconds k e (stored s) =
            ((stored s)((d_db s, k) := Some (x, Some t)), [Shared ''cone''], [KeyModified (d_db s) k], 1)"
          using False Some x by (auto simp: sp_expire_def t_def [symmetric] Let_def ctx_of_def)
        ultimately show ?thesis using y(2) sy by (simp add: storesI)
      qed
    qed
  qed
qed

definition sp_persist :: "ctx \<Rightarrow> key \<Rightarrow> contents \<Rightarrow> outcome" where
  "sp_persist c k S =
     (case S (c_db c, k) of
        Some (x, Some _) \<Rightarrow> (S((c_db c, k) \<mapsto> (x, None)), [Shared ''cone''], [], 1)
      | _ \<Rightarrow> sp_err (Shared ''czero'') S)"

lemma persist_ok:
  assumes ok: "kv_ok zero s" and as: "raw_args [c, k] s"
  shows "stores s (persistCommand s) (sp_persist (ctx_of s) k (stored s))"
proof -
  have k: "arg_raw 1 s = Some k" using raw_args_nth(4) [OF as, of 1] by simp
  have there: "dbExists (d_db s) k s \<longleftrightarrow> stored s (d_db s, k) \<noteq> None" using stored_None [OF ok, of "d_db s" k] by (simp add: dbExists_def)
  show ?thesis
  proof (cases "stored s (d_db s, k)")
    case None
    then show ?thesis using k there stores_sp_err [OF ok refl ev_refl] by (simp add: persistCommand_def sp_persist_def)
  next
    case (Some xe)
    obtain x w where x: "stored s (d_db s, k) = Some (x, w)" using Some by (cases xe) simp
    define y where "y = set_expires (d_db s) (AList.delete k (expires_of s (d_db s))) s"
    have y: "kv_ok zero y" "kv_step s y" "look y = look s" "expi y = (expi s)((d_db s, k) := None)"
      using kv_delete_expire [OF ok] by (simp_all add: y_def look_set_dict)
    have "look y = (look s)((d_db s, k) := look s (d_db s, k))" using y(3) by simp
    from stored_upd [OF this y(4)] have sy: "stored y = (stored s)((d_db s, k) := Some (x, None))"
      using x by (auto simp: stored_def)
    have w: "expi s (d_db s, k) = w" using x by (auto simp: stored_def)
    obtain d where m: "map_of (dict_of s (d_db s)) k = Some d" using there x by (auto simp: dbExists_def)
    note ey = kv_step_ev [OF y(2)]
    show ?thesis
    proof (cases w)
      case None
      then have "map_of (expires_of s (d_db s)) k = None" using w by (simp add: expi_def)
      moreover have "stored y = stored s" using sy x None by (simp add: fun_upd_idem)
      ultimately show ?thesis using k m x None stores_sp_err [OF y(1) _ ey]
        by (simp add: persistCommand_def sp_persist_def dbExists_def removeExpire_def y_def [symmetric])
    next
      case (Some t)
      then have "map_of (expires_of s (d_db s)) k \<noteq> None" using w by (simp add: expi_def)
      then have "persistCommand s = Some (bump 1 (d_reply [Shared ''cone''] y))"
        using k m by (simp add: persistCommand_def dbExists_def removeExpire_def y_def [symmetric])
      moreover have "ev s (bump 1 (d_reply [Shared ''cone''] y)) [Shared ''cone''] [] 1"
        using ev_more(2) [OF ev_more(1) [OF ey, of "[Shared ''cone'']"], of 1] by simp
      ultimately show ?thesis using x Some sy y(1) by (simp add: sp_persist_def storesI)
    qed
  qed
qed

section \<open>FLUSHDB, FLUSHALL and DBSIZE\<close>

lemma free_all_expires: "free_all ps (set_expires db e s) = map_option (set_expires db e) (free_all ps s)"
proof (induction ps arbitrary: s)
  case (Cons p ps)
  have "free_val v (set_expires db e s) = map_option (set_expires db e) (free_val v s)" for v s
    by (cases v; cases s) (simp_all add: free_val_def decr_ref_def set_expires_def option.map_comp comp_def)
  then show ?case using Cons.IH by (cases "free_val (snd p) s") simp_all
qed simp

lemma free_all_ok:
  assumes "kv_ok H s" "\<And>x. int (dict_refs ps x) + int (shared_ref s x) \<le> int (refs s x) + H x"
  shows "\<exists>s'. free_all ps s = Some s' \<and> kv_ok (\<lambda>x. H x - int (dict_refs ps x)) s' \<and> store_step s s'"
  using assms
proof (induction ps arbitrary: s H)
  case (Cons p ps)
  have "int (shared_ref s a) < int (refs s a) + H a" if "snd p = VStr a" for a using Cons.prems(2) [of a] that by simp
  from free_val_ok [OF Cons.prems(1) this] obtain t where t: "free_val (snd p) s = Some t" "kv_ok (\<lambda>a. H a - vref (snd p) a) t" "store_step s t"
    by blast
  have f: "refs t = refs s" "shared_ref t = shared_ref s"
    using store_step_fields(17) [OF t(3)] kv_step_fields(14) [OF store_kv_step [OF t(3)]] by simp_all
  have c: "int (dict_refs ps x) + int (shared_ref t x) \<le> int (refs t x) + (H x - vref (snd p) x)" for x
    using Cons.prems(2) [of x] by (simp add: f vref_def split: if_splits)
  from Cons.IH [OF t(2) c] obtain s' where s': "free_all ps t = Some s'" "kv_ok (\<lambda>x. H x - vref (snd p) x - int (dict_refs ps x)) s'" "store_step t s'"
    by blast
  have "kv_ok (\<lambda>x. H x - int (dict_refs (p # ps) x)) s'" using s'(2) by (rule kv_cong) (simp add: vref_def)
  then show ?case using t(1) s'(1) store_step_trans [OF t(3) s'(3)] by simp
qed simp

definition flushed :: "nat set \<Rightarrow> contents \<Rightarrow> contents" where
  "flushed dbs S = (\<lambda>p. if fst p \<in> dbs then None else S p)"

text \<open>The number of keys in a database.\<close>

definition keys_in :: "nat \<Rightarrow> contents \<Rightarrow> int" where
  "keys_in db S = int (card {k. S (db, k) \<noteq> None})"

lemma keys_in_stored:
  assumes "kv_ok zero s"
  shows "int (length (dict_of s db)) = keys_in db (stored s)"
proof -
  have "{k. stored s (db, k) \<noteq> None} = set (map fst (dict_of s db))"
    using stored_None [OF assms, of db] by (simp add: map_of_eq_None_iff set_eq_iff)
  moreover have "distinct (map fst (dict_of s db))" using assms by (simp add: kv_ok_def dbs_ok_def)
  ultimately show ?thesis unfolding keys_in_def by (metis distinct_card length_map)
qed

lemma empty_one_ok:
  assumes ok: "kv_ok zero s" and db: "db < d_dbnum s"
  shows "\<exists>s'. empty_one db s = Some s' \<and> kv_ok zero s' \<and> stored s' = flushed {db} (stored s) \<and> kv_step s s'"
proof -
  define t where "t = set_dict db [] (set_expires db [] s)"
  have e: "kv_ok zero (set_expires db [] s)" by (rule kv_set_expires [OF ok]) simp_all
  have "kv_ok (\<lambda>a. 0 + int (dict_refs (dict_of (set_expires db [] s) db) a) - int (dict_refs [] a)) t"
    unfolding t_def by (rule kv_set_dict [OF e]) (use db in simp_all)
  then have t: "kv_ok (\<lambda>a. int (dict_refs (dict_of s db) a)) t" by (rule kv_cong) simp
  have "int (dict_refs (dict_of s db) x) + int (shared_ref t x) \<le> int (refs t x) + int (dict_refs (dict_of s db) x)" for x
    using shared_le_refs [of t x] by simp
  from free_all_ok [OF t this] obtain y where y: "free_all (dict_of s db) t = Some y"
    "kv_ok (\<lambda>x. int (dict_refs (dict_of s db) x) - int (dict_refs (dict_of s db) x)) y" "store_step t y" by blast
  have oky: "kv_ok zero y" using y(2) by simp
  have c: "set_dict db [] (set_expires db [] s) = set_expires db [] (set_dict db [] s)" 
    by (cases "d_dbs s db") (simp add: set_dict_def set_expires_def)
  have one: "empty_one db s = Some y" using y(1) free_all_expires [of "dict_of s db" db "[]" "set_dict db [] s"]
    by (cases "free_all (dict_of s db) (set_dict db [] s)") (simp_all add: empty_one_def t_def c)
  have ly: "look y = look t" by (rule look_step [OF t oky y(3)]) simp_all
  have "look t p = (if fst p = db then None else look s p)" for p
    by (simp add: look_def t_def val_at_cong [of t s, unfolded t_def])
  moreover have "expi t p = (if fst p = db then None else expi s p)" for p by (simp add: expi_def t_def)
  moreover have "expi y = expi t" using store_step_fields(16) [OF y(3)] .
  ultimately have "stored y = flushed {db} (stored s)" using ly by (simp add: stored_def flushed_def fun_eq_iff)
  moreover have "kv_step s t" unfolding t_def using kv_step_trans [of s "set_expires db [] s"] by simp
  then have "kv_step s y" using kv_step_trans [OF _ store_kv_step [OF y(3)]] by blast
  ultimately show ?thesis using one oky by blast
qed

lemma signalFlushed_same:
  "kv_ok H (signalFlushedDb i s) = kv_ok H s" "stored (signalFlushedDb i s) = stored s" "dict_of (signalFlushedDb i s) = dict_of s"
  "d_db (signalFlushedDb i s) = d_db s" "d_dbnum (signalFlushedDb i s) = d_dbnum s"
proof -
  have s: "obj_at (signalFlushedDb i s) = obj_at s" "dict_of (signalFlushedDb i s) = dict_of s" "expires_of (signalFlushedDb i s) = expires_of s"
    "d_argv (signalFlushedDb i s) = d_argv s" "d_store (signalFlushedDb i s) = d_store s" "env (signalFlushedDb i s) = env s"
    by (simp_all add: signalFlushedDb_def env_def)
  show "kv_ok H (signalFlushedDb i s) = kv_ok H s" "stored (signalFlushedDb i s) = stored s" "dict_of (signalFlushedDb i s) = dict_of s"
    using same_objects [OF s] s by (simp_all add: stored_def fun_eq_iff)
  show "d_db (signalFlushedDb i s) = d_db s" "d_dbnum (signalFlushedDb i s) = d_dbnum s" by (simp_all add: signalFlushedDb_def)
qed

lemma ev_flushed: "ev s s' rs sg n \<Longrightarrow> ev s (signalFlushedDb i s') rs (sg @ [DbFlushed i]) n"
  by (simp add: ev_def env_def signalFlushedDb_def)

definition sp_flushdb :: "ctx \<Rightarrow> contents \<Rightarrow> outcome" where
  "sp_flushdb c S = (flushed {c_db c} S, [Shared ''ok''], [DbFlushed (int (c_db c))], keys_in (c_db c) S)"

definition sp_flushall :: "ctx \<Rightarrow> contents \<Rightarrow> outcome" where
  "sp_flushall c S =
     (flushed {..<c_dbnum c} S, [Shared ''ok''], [DbFlushed (- 1)], (\<Sum>db < c_dbnum c. keys_in db S) + 1)"

definition sp_dbsize :: "ctx \<Rightarrow> contents \<Rightarrow> outcome" where
  "sp_dbsize c S = sp_err (LongLong (keys_in (c_db c) S)) S"

lemma dbsize_ok: "kv_ok zero s \<Longrightarrow> stores s (dbsizeCommand s) (sp_dbsize (ctx_of s) (stored s))"
  using stores_sp_err [OF _ refl ev_refl, of s] by (simp add: dbsizeCommand_def sp_dbsize_def keys_in_stored)

lemma flushdb_ok:
  assumes ok: "kv_ok zero s"
  shows "stores s (flushdbCommand s) (sp_flushdb (ctx_of s) (stored s))"
proof -
  define t where "t = signalFlushedDb (int (d_db s)) (bump (keys_in (d_db s) (stored s)) s)"
  have t: "kv_ok zero t" "stored t = stored s" "d_db s < d_dbnum t" using ok kv_db [OF ok] by (simp_all add: t_def signalFlushed_same)
  from empty_one_ok [OF t(1,3)] obtain u where u: "empty_one (d_db s) t = Some u" "kv_ok zero u" "stored u = flushed {d_db s} (stored s)" "kv_step t u"
    unfolding t(2) by blast
  have "ev s t [] [DbFlushed (int (d_db s))] (keys_in (d_db s) (stored s))"
    using ev_flushed [OF ev_more(2) [OF ev_refl, of s "keys_in (d_db s) (stored s)"]] by (simp add: t_def)
  from ev_more(1) [OF ev_trans [OF this kv_step_ev [OF u(4)]], of "[Shared ''ok'']"]
  have e: "ev s (d_reply [Shared ''ok''] u) [Shared ''ok''] [DbFlushed (int (d_db s))] (keys_in (d_db s) (stored s))" by simp
  have f: "flushdbCommand s = Some (d_reply [Shared ''ok''] u)"
    using u(1) keys_in_stored [OF ok, of "d_db s"] by (simp add: flushdbCommand_def t_def Let_def signalFlushed_same)
  show ?thesis unfolding sp_flushdb_def ctx_db by (rule storesI [OF f _ _ e]) (use u(2,3) in simp_all)
qed

lemma emptyDb_ok:
  assumes ok: "kv_ok zero s" and "n \<le> d_dbnum s"
  shows "\<exists>s'. emptyDb n s = Some (\<Sum>db < n. keys_in db (stored s), s') \<and> kv_ok zero s' \<and> stored s' = flushed {..<n} (stored s) \<and> kv_step s s'"
  using assms(2)
proof (induction n)
  case 0
  then show ?case using ok by (simp add: flushed_def)
next
  case (Suc n)
  from Suc obtain t where t: "emptyDb n s = Some (\<Sum>db < n. keys_in db (stored s), t)" "kv_ok zero t" "stored t = flushed {..<n} (stored s)" "kv_step s t"
    by auto
  have "n < d_dbnum t" using Suc.prems kv_step_fields [OF t(4)] by simp
  from empty_one_ok [OF t(2) this] obtain u where u: "empty_one n t = Some u" "kv_ok zero u" "stored u = flushed {n} (stored t)" "kv_step t u" by blast
  have "keys_in n (stored t) = keys_in n (stored s)" by (simp add: keys_in_def t(3) flushed_def)
  then have "emptyDb (Suc n) s = Some ((\<Sum>db < Suc n. keys_in db (stored s)), u)" using t(1) u(1) keys_in_stored [OF t(2), of n] by simp
  moreover have "stored u = flushed {..<Suc n} (stored s)" by (auto simp: u(3) t(3) flushed_def fun_eq_iff less_Suc_eq)
  ultimately show ?case using u(2) kv_step_trans [OF t(4) u(4)] by blast
qed

lemma flushall_ok:
  assumes ok: "kv_ok zero s"
  shows "stores s (flushallCommand s) (sp_flushall (ctx_of s) (stored s))"
proof -
  define t where "t = signalFlushedDb (- 1) s"
  define n where "n = (\<Sum>db < d_dbnum s. keys_in db (stored s))"
  have t: "kv_ok zero t" "stored t = stored s" "d_dbnum t = d_dbnum s" using ok by (simp_all add: t_def signalFlushed_same)
  have "d_dbnum s \<le> d_dbnum t" using t(3) by simp
  from emptyDb_ok [OF t(1) this] obtain u where u: "emptyDb (d_dbnum s) t = Some (n, u)" "kv_ok zero u" "stored u = flushed {..<d_dbnum s} (stored s)"
    "kv_step t u" unfolding t(2) n_def by blast
  have "ev s t [] [DbFlushed (- 1)] 0" using ev_flushed [OF ev_refl, of s "- 1"] by (simp add: t_def)
  from ev_more(2) [OF ev_more(1) [OF ev_more(2) [OF ev_trans [OF this kv_step_ev [OF u(4)]], of n], of "[Shared ''ok'']"], of 1]
  have e: "ev s (bump 1 (d_reply [Shared ''ok''] (bump n u))) [Shared ''ok''] [DbFlushed (- 1)] (n + 1)" by simp
  have f: "flushallCommand s = Some (bump 1 (d_reply [Shared ''ok''] (bump n u)))" using u(1) t(3) by (simp add: flushallCommand_def t_def Let_def)
  show ?thesis unfolding sp_flushall_def ctx_db n_def [symmetric] by (rule storesI [OF f _ _ e]) (use u(2,3) in simp_all)
qed

section \<open>KEYS and RANDOMKEY\<close>

text \<open>The keys \<open>expireIfNeeded\<close> reports as expired: on a slave too, where they stay.\<close>

definition past :: "dserver \<Rightarrow> nat \<times> key \<Rightarrow> bool" where
  "past s p \<longleftrightarrow> \<not> d_loading s \<and> (case expi s p of None \<Rightarrow> False | Some t \<Rightarrow> 0 \<le> t \<and> t < d_mstime s)"

lemma past_dead: "\<not> d_slave s \<Longrightarrow> past s p = dead s (expi s p)"
  by (simp add: past_def dead_def)

lemma expire_flag: "kv_ok H s \<Longrightarrow> expireIfNeeded db k s = Some (b, t) \<Longrightarrow> (\<And>a. 0 \<le> H a) \<Longrightarrow> b = past s (db, k)"
proof (cases "d_slave s")
  case True
  assume ok: "kv_ok H s" and e: "expireIfNeeded db k s = Some (b, t)"
  show ?thesis using e True getExpire_ok [OF ok, of db k] by (auto simp: expireIfNeeded_def past_def split: option.splits if_splits)
next
  case False
  assume "kv_ok H s" "expireIfNeeded db k s = Some (b, t)" "\<And>a. 0 \<le> H a"
  then show ?thesis using expireIfNeeded_ok [of H s db k] False past_dead [OF False] by auto
qed

text \<open>A round of either loop: the key becomes an object, is expired if need be, and the object is freed.\<close>

lemma probe_ok:
  assumes ok: "kv_ok zero s" and k: "length k \<le> 2 ^ 29"
  obtains a t u w where "new_obj (ENC_RAW k) s = (a, t)" "expireIfNeeded db k t = Some (past s (db, k), u)" "decr_ref a u = Some w"
    "kv_ok zero w" "ev s w [] [] 0" "live w = live s" "d_db t = d_db s" "expires_of t = expires_of s"
    "\<And>p. p \<noteq> (db, k) \<Longrightarrow> stored w p = stored s p" "stored w (db, k) = (if past s (db, k) \<and> \<not> d_slave s then None else stored s (db, k))"
    "past w = (past s)((db, k) := past s (db, k) \<and> d_slave s)" "args w = args s" "d_argv w = d_argv s"
    "kv_ok (zero(a := 1)) u" "raw u a = Some k" "ev s u [] [] 0" "live u = live s" "kv_step s w"
proof -
  from new_obj_ok [OF ok, of "ENC_RAW k"] k obtain a t where t: "new_obj (ENC_RAW k) s = (a, t)" "kv_ok (zero(a := 0 + 1)) t" "store_step s t"
    "obj_at t a = Some \<lparr>o_str = ENC_RAW k, o_refcount = 1, o_lru = so_lruclock (d_store s)\<rparr>" by auto
  have okt: "kv_ok (zero(a := 1)) t" "\<And>x. 0 \<le> (zero(a := 1)) x" using t(2) by simp_all
  note ft = store_step_fields [OF t(3)]
  have lt: "look t = look s" by (rule look_step [OF ok okt(1) t(3)]) simp_all
  have dt: "dead t = dead s" by (rule dead_step [OF store_kv_step [OF t(3)]])
  have pt: "past t = past s" by (intro ext) (simp add: past_def ft split: option.split)
  from expireIfNeeded_ok [OF okt, of db k] obtain b u where u: "expireIfNeeded db k t = Some (b, u)" "kv_ok (zero(a := 1)) u" "kv_step t u"
    "if dead t (expi t (db, k)) then look u = (look t)((db, k) := None) \<and> expi u = (expi t)((db, k) := None) else u = t" by blast
  have b: "b = past s (db, k)" using expire_flag [OF okt(1) u(1) okt(2)] pt by simp
  have du: "dead u = dead s" using dead_step [OF u(3)] dt by simp
  have "int (shared_ref u a) < int (refs u a) + (zero(a := 1)) a" using shared_le_refs [of u a] by simp
  from decr_ref_ok [OF u(2) this] obtain w where w: "decr_ref a u = Some w" "kv_ok ((zero(a := 1))(a := (zero(a := 1)) a - 1)) w" "store_step u w" by blast
  have okw: "kv_ok zero w" using w(2) by (rule kv_cong) simp
  have lw: "look w = look u" by (rule look_step [OF u(2) okw w(3)]) simp_all
  have xw: "expi w = expi u" using store_step_fields [OF w(3)] by simp
  have st: "kv_step s w" using kv_step_trans [OF kv_step_trans [OF store_kv_step [OF t(3)] u(3)] store_kv_step [OF w(3)]] .
  have su: "kv_step s u" using kv_step_trans [OF store_kv_step [OF t(3)] u(3)] .
  have c: "look w p = (if p = (db, k) \<and> dead s (expi s p) then None else look s p)"
    "expi w p = (if p = (db, k) \<and> dead s (expi s p) then None else expi s p)" for p
    using u(4) lw xw lt ft dt by (auto split: if_splits)
  have lwl: "live w p = live s p" for p using c [of p] dead_step [OF st] by (simp add: live_def)
  have "live u p = live w p" for p using lw xw du dead_step [OF st] by (simp add: live_def)
  with lwl have lu: "live u = live s" by (simp add: fun_eq_iff)
  have "raw u a = Some k"
  proof -
    have "0 < int (refs u a) + (zero(a := 1)) a" by simp
    then have "obj_at u a \<noteq> None" using kv_exists [OF u(2)] by blast
    moreover have "a < so_next (d_store t)" using kv_next [OF okt(1), of a] t(4) by simp
    ultimately have "enc u a = enc t a" using u(3) unfolding kv_step_def by blast
    then show ?thesis using t(4) by (simp add: raw_enc enc_def)
  qed
  moreover have "past w = (past s)((db, k) := past s (db, k) \<and> d_slave s)"
    using c(2) kv_step_fields [OF st] by (auto simp: past_def fun_eq_iff dead_def split: option.splits)
  moreover have "stored w (db, k) = (if past s (db, k) \<and> \<not> d_slave s then None else stored s (db, k))"
    using c [of "(db, k)"] past_dead [of s "(db, k)"] by (cases "d_slave s") (auto simp: stored_def dead_def)
  ultimately show ?thesis
    using that [OF t(1) _ w(1) okw] u(1,2) b c lwl lu ft kv_step_ev [OF st] kv_step_ev [OF su] args_step [OF ok okw st] kv_step_fields [OF st] st
    by (simp add: stored_def fun_eq_iff)
qed

lemma keys_loop_ok:
  assumes "kv_ok zero s" "distinct ks" "\<forall>k \<in> set ks. length k \<le> 2 ^ 29"
    and m: "\<forall>k \<in> set ks. allkeys \<or> stringmatchlen (pat @ [0]) (int (length pat)) (k @ [0]) (int (length k)) False = Some (m k)"
  shows "\<exists>s'. keys_loop pat allkeys ks s = Some (filter (\<lambda>k. (allkeys \<or> m k) \<and> \<not> past s (d_db s, k)) ks, s') \<and>
    kv_ok zero s' \<and> live s' = live s \<and> ev s s' [] [] 0"
  using assms
proof (induction ks arbitrary: s)
  case (Cons k ks)
  show ?case
  proof (cases "allkeys \<or> m k")
    case False
    then show ?thesis using Cons.IH [of s] Cons.prems by simp
  next
    case True
    then have mk: "(if allkeys then Some True else stringmatchlen (pat @ [0]) (int (length pat)) (k @ [0]) (int (length k)) False) = Some True"
      using Cons.prems(4) by auto
    have small: "length k \<le> 2 ^ 29" using Cons.prems(3) by simp
    obtain a t u w where w: "new_obj (ENC_RAW k) s = (a, t)" "expireIfNeeded (d_db s) k t = Some (past s (d_db s, k), u)" "decr_ref a u = Some w"
      "kv_ok zero w" "ev s w [] [] 0" "live w = live s" "d_db t = d_db s"
      and p: "past w = (past s)((d_db s, k) := past s (d_db s, k) \<and> d_slave s)"
      by (rule probe_ok [OF Cons.prems(1) small, of "d_db s"])
    have d: "d_db w = d_db s" using ev_env [OF w(5)] by simp
    from Cons.IH [OF w(4)] Cons.prems(2,3,4) obtain s' where s': "keys_loop pat allkeys ks w =
        Some (filter (\<lambda>k. (allkeys \<or> m k) \<and> \<not> past w (d_db w, k)) ks, s')" "kv_ok zero s'" "live s' = live w" "ev w s' [] [] 0" by auto
    have f: "filter (\<lambda>k. (allkeys \<or> m k) \<and> \<not> past w (d_db w, k)) ks = filter (\<lambda>k. (allkeys \<or> m k) \<and> \<not> past s (d_db s, k)) ks"
      using Cons.prems(2) by (intro filter_cong) (auto simp: p d)
    have "keys_loop pat allkeys (k # ks) s = Some (filter (\<lambda>k. (allkeys \<or> m k) \<and> \<not> past s (d_db s, k)) (k # ks), s')"
      unfolding keys_loop.simps mk bind.bind_lunit if_True Let_def w(1,2,3,7) prod.case s'(1) f using True by simp
    then show ?thesis using s'(2,3) w(6) ev_quiet [OF w(5) s'(4)] by (intro exI [of _ s'] conjI) (simp_all only:)
  qed
qed simp

text \<open>The keys KEYS replies with, given what the matcher says.\<close>

definition matching :: "dserver \<Rightarrow> byte list \<Rightarrow> (key \<Rightarrow> bool) \<Rightarrow> key list" where
  "matching s pat m = filter (\<lambda>k. (pat = [42] \<or> hd (pat @ [0]) = 42 \<and> (pat @ [0]) ! 1 = 0 \<or> m k) \<and> \<not> past s (d_db s, k)) (map fst (dict_of s (d_db s)))"

lemma keys_ok:
  assumes ok: "kv_ok zero s" and as: "raw_args [c, pat] s"
    and m: "\<And>k. k \<in> fst ` set (dict_of s (d_db s)) \<Longrightarrow>
      stringmatchlen (pat @ [0]) (int (length pat)) (k @ [0]) (int (length k)) False = Some (m k)"
  shows "meets s (keysCommand s) (live s, MbulkHdr (length (matching s pat m)) # map Bulk (matching s pat m), [], 0)"
proof -
  have k: "arg_raw 1 s = Some pat" using raw_args_nth(4) [OF as, of 1] by simp
  define allkeys where "allkeys \<longleftrightarrow> (pat @ [0]) ! 0 = 42 \<and> (pat @ [0]) ! 1 = 0"
  have a: "(pat = [42] \<or> hd (pat @ [0]) = 42 \<and> (pat @ [0]) ! 1 = 0) \<longleftrightarrow> allkeys" by (cases pat) (auto simp: allkeys_def)
  have d: "distinct (map fst (dict_of s (d_db s)))" "\<forall>k \<in> set (map fst (dict_of s (d_db s))). length k \<le> 2 ^ 29"
    using ok by (auto simp: kv_ok_def dbs_ok_def)
  have mm: "\<forall>k \<in> set (map fst (dict_of s (d_db s))). allkeys \<or>
      stringmatchlen (pat @ [0]) (int (length pat)) (k @ [0]) (int (length k)) False = Some (m k)" using m by auto
  from keys_loop_ok [OF ok d mm] obtain s' where s': "keys_loop pat allkeys (map fst (dict_of s (d_db s))) s =
      Some (filter (\<lambda>k. (allkeys \<or> m k) \<and> \<not> past s (d_db s, k)) (map fst (dict_of s (d_db s))), s')" "kv_ok zero s'" "live s' = live s" "ev s s' [] [] 0"
    by blast
  have f: "filter (\<lambda>k. (allkeys \<or> m k) \<and> \<not> past s (d_db s, k)) (map fst (dict_of s (d_db s))) = matching s pat m"
    unfolding matching_def a [symmetric] by (intro filter_cong) auto
  have "keysCommand s = Some (d_reply (MbulkHdr (length (matching s pat m)) # map Bulk (matching s pat m)) s')"
    using k s'(1) unfolding f by (simp add: keysCommand_def allkeys_def Let_def)
  then show ?thesis by (rule meetsI) (use s'(2,3) ev_more(1) [OF s'(4)] in simp_all)
qed

lemma removed_key:
  assumes ok: "kv_ok zero s" and ok': "kv_ok zero w" and k: "stored s (db, k) \<noteq> None"
    and w: "\<And>p. p \<noteq> (db, k) \<Longrightarrow> stored w p = stored s p" "stored w (db, k) = None"
  shows "length (dict_of s db) = Suc (length (dict_of w db))"
proof -
  have f: "{k. stored s (db, k) \<noteq> None} = set (map fst (dict_of s db))"
    using stored_None [OF ok, of db] by (simp add: map_of_eq_None_iff set_eq_iff)
  have "{k'. stored w (db, k') \<noteq> None} = {k. stored s (db, k) \<noteq> None} - {k}"
  proof (intro set_eqI)
    fix k' show "k' \<in> {k'. stored w (db, k') \<noteq> None} \<longleftrightarrow> k' \<in> {k. stored s (db, k) \<noteq> None} - {k}"
      using w(1) [of "(db, k')"] w(2) by (cases "k' = k") simp_all
  qed
  then have "keys_in db (stored w) = int (card ({k. stored s (db, k) \<noteq> None} - {k}))" by (simp add: keys_in_def)
  moreover have "card {k. stored s (db, k) \<noteq> None} = Suc (card ({k. stored s (db, k) \<noteq> None} - {k}))"
    using k card.remove [of "{k. stored s (db, k) \<noteq> None}" k] f by (metis (mono_tags, lifting) List.finite_set mem_Collect_eq)
  ultimately show ?thesis using keys_in_stored [OF ok, of db] keys_in_stored [OF ok', of db] by (simp add: keys_in_def)
qed

text \<open>\<open>dictGetRandomKey\<close> returns a key of the dictionary.\<close>

definition fair :: "(nat \<Rightarrow> key list \<Rightarrow> key) \<Rightarrow> bool" where
  "fair pick \<longleftrightarrow> (\<forall>i ks. ks \<noteq> [] \<longrightarrow> pick i ks \<in> set ks)"

lemma fair_pick: "fair pick \<Longrightarrow> dict_of s db \<noteq> [] \<Longrightarrow> map_of (dict_of s db) (pick i (map fst (dict_of s db))) \<noteq> None"
  unfolding fair_def map_of_eq_None_iff by (metis list.set_map map_is_Nil_conv)

text \<open>A server that expires keys deletes a key in every round that goes on.\<close>

lemma random_master:
  assumes "kv_ok zero s" "\<not> d_slave s" "fair pick" "length (dict_of s db) < n"
  shows "\<exists>r u. dbRandomKey db pick n s = Some (Inl (r, u)) \<and> live u = live s \<and> ev s u [] [] 0 \<and>
    (case r of None \<Rightarrow> kv_ok zero u \<and> (\<forall>k. live s (db, k) = None)
     | Some a \<Rightarrow> kv_ok (zero(a := 1)) u \<and> (\<exists>k. raw u a = Some k \<and> live s (db, k) \<noteq> None))"
  using assms
proof (induction n arbitrary: s)
  case (Suc n)
  show ?case
  proof (cases "dict_of s db = []")
    case True
    then have "stored s (db, k) = None" for k using stored_None [OF Suc.prems(1), of db k] by simp
    then have "live s (db, k) = None" for k by (simp add: live_stored age_def)
    then show ?thesis using True Suc.prems(1) by simp
  next
    case False
    define k where "k = pick n (map fst (dict_of s db))"
    have k: "map_of (dict_of s db) k \<noteq> None" using fair_pick [OF Suc.prems(3) False] by (simp add: k_def)
    obtain a t u w where w: "new_obj (ENC_RAW k) s = (a, t)" "expireIfNeeded db k t = Some (past s (db, k), u)" "decr_ref a u = Some w"
      "kv_ok zero w" "ev s w [] [] 0" "live w = live s" "expires_of t = expires_of s" "kv_step s w"
      "\<And>p. p \<noteq> (db, k) \<Longrightarrow> stored w p = stored s p" "stored w (db, k) = (if past s (db, k) \<and> \<not> d_slave s then None else stored s (db, k))"
      "kv_ok (zero(a := 1)) u" "raw u a = Some k" "ev s u [] [] 0" "live u = live s"
      by (rule probe_ok [OF Suc.prems(1) key_small [OF Suc.prems(1) k], of db]) (rule that)
    have there: "stored s (db, k) \<noteq> None" using stored_None [OF Suc.prems(1), of db k] k by simp
    show ?thesis
    proof (cases "past s (db, k)")
      case True
      then have x: "map_of (expires_of s db) k \<noteq> None" by (auto simp: past_def expi_def split: option.splits)
      have "stored w (db, k) = None" using w(10) True Suc.prems(2) by simp
      from removed_key [OF Suc.prems(1) w(4) there w(9) this] have "length (dict_of w db) < n" using Suc.prems(4) by simp
      from Suc.IH [OF w(4) _ Suc.prems(3) this] obtain r u' where r: "dbRandomKey db pick n w = Some (Inl (r, u'))" "live u' = live w" "ev w u' [] [] 0"
        "case r of None \<Rightarrow> kv_ok zero u' \<and> (\<forall>k. live w (db, k) = None)
         | Some a \<Rightarrow> kv_ok (zero(a := 1)) u' \<and> (\<exists>k. raw u' a = Some k \<and> live w (db, k) \<noteq> None)"
        using kv_step_fields [OF w(8)] Suc.prems(2) by auto
      have "dbRandomKey db pick (Suc n) s = dbRandomKey db pick n w"
        using False k x True w(1,2,3,7) by (auto simp: k_def [symmetric] Let_def)
      then show ?thesis using r(1-3) r(4) [unfolded w(6)] w(6) ev_quiet [OF w(5) r(3)] by (intro exI [of _ r] exI [of _ u']) (simp del: dbRandomKey.simps)
    next
      case np: False
      have u: "u = t" if "map_of (expires_of s db) k = None"
        using w(2) that w(7) by (simp add: expireIfNeeded_def getExpire_def split: if_splits)
      have "dbRandomKey db pick (Suc n) s = Some (Inl (Some a, u))"
        using False k np w(1,2,7) u by (simp add: k_def [symmetric] Let_def)
      moreover have "live s (db, k) \<noteq> None"
        using there np past_dead [OF Suc.prems(2)] by (auto simp: live_def stored_def)
      ultimately show ?thesis using w(11-14) by (intro exI [of _ "Some a"] exI [of _ u]) auto
    qed
  qed
qed simp

text \<open>On a slave the expired keys stay, and the search goes on as long as there is nothing else.\<close>

lemma random_slave:
  assumes "kv_ok zero s" "d_slave s" "fair pick" "dict_of s db \<noteq> []" "\<forall>k. stored s (db, k) \<noteq> None \<longrightarrow> past s (db, k)"
  shows "\<exists>u. dbRandomKey db pick n s = Some (Inr u)"
  using assms
proof (induction n arbitrary: s)
  case (Suc n)
  define k where "k = pick n (map fst (dict_of s db))"
  have k: "map_of (dict_of s db) k \<noteq> None" using fair_pick [OF Suc.prems(3,4)] by (simp add: k_def)
  have there: "stored s (db, k) \<noteq> None" using stored_None [OF Suc.prems(1), of db k] k by simp
  then have p: "past s (db, k)" using Suc.prems(5) by blast
  then have x: "map_of (expires_of s db) k \<noteq> None" by (auto simp: past_def expi_def split: option.splits)
  obtain a t u w where w: "new_obj (ENC_RAW k) s = (a, t)" "expireIfNeeded db k t = Some (past s (db, k), u)" "decr_ref a u = Some w"
    "kv_ok zero w" "expires_of t = expires_of s" "kv_step s w" "past w = (past s)((db, k) := past s (db, k) \<and> d_slave s)"
    "\<And>p. p \<noteq> (db, k) \<Longrightarrow> stored w p = stored s p" "stored w (db, k) = (if past s (db, k) \<and> \<not> d_slave s then None else stored s (db, k))"
    by (rule probe_ok [OF Suc.prems(1) key_small [OF Suc.prems(1) k], of db]) (rule that)
  have sl: "d_slave w" using kv_step_fields [OF w(6)] Suc.prems(2) by simp
  have st: "stored w q = stored s q" for q using w(8,9) Suc.prems(2) by (cases "q = (db, k)") simp_all
  have pw: "past w = past s" using w(7) p Suc.prems(2) by (simp add: fun_upd_idem)
  have "dict_of w db \<noteq> []" using stored_None [OF w(4), of db k] there st by auto
  from Suc.IH [OF w(4) sl Suc.prems(3) this] obtain u' where "dbRandomKey db pick n w = Some (Inr u')" using Suc.prems(5) st pw by auto
  then show ?case using Suc.prems(4) k x p w(1,2,3,5) by (simp add: k_def [symmetric] Let_def)
qed simp

end
