(* ===== verification/Bitops.thy ===== *)
theory Bitops
  imports Endianconv
begin

text \<open>
  The computations of \<open>redis/src/bitops.c\<close> on memory: counting ones with 32 bit arithmetic, and the operations of
  BITOP, which run on words of 64 bits as far as all strings reach and on bytes from there.  Strings are the bytes
  of their buffers, and every read outside one is \<open>None\<close>.
\<close>

unbundle bit_operations_syntax

section \<open>Digits of a power of two\<close>

primrec digits :: "nat \<Rightarrow> int list \<Rightarrow> int" where
  "digits k [] = 0"
| "digits k (d # ds) = d + 2 ^ k * digits k ds"

definition digit :: "nat \<Rightarrow> int \<Rightarrow> bool" where
  "digit k d \<longleftrightarrow> 0 \<le> d \<and> d < 2 ^ k"

lemma digit_simps [simp]: "digit k 0"
  by (simp add: digit_def)

lemma digit_and: "digit k c \<Longrightarrow> digit k (d AND c)"
  unfolding digit_def by (auto intro: AND_upper2'')

lemma bit_digits:
  assumes "0 < k" "\<forall>d \<in> set ds. digit k d"
  shows "bit (digits k ds) n \<longleftrightarrow> n div k < length ds \<and> bit (ds ! (n div k)) (n mod k)"
  using assms(2)
proof (induction ds arbitrary: n)
  case (Cons d ds)
  have d: "take_bit k d = d" using Cons.prems by (simp add: digit_def take_bit_int_eq_self)
  have "digits k (d # ds) = concat_bit k d (digits k ds)"
    by (simp add: concat_bit_eq d push_bit_eq_mult ac_simps)
  then have b: "bit (digits k (d # ds)) n \<longleftrightarrow> (if n < k then bit d n else bit (digits k ds) (n - k))"
    by (auto simp: bit_concat_bit_iff)
  show ?case
  proof (cases "n < k")
    case False
    then have n: "n div k = Suc ((n - k) div k)" "n mod k = (n - k) mod k" using assms(1) by (simp_all add: le_div_geq le_mod_geq)
    have "bit (digits k (d # ds)) n \<longleftrightarrow> bit (digits k ds) (n - k)" unfolding b using False by simp
    then show ?thesis using Cons.IH [of "n - k"] Cons.prems unfolding n by simp
  qed (use b in simp)
qed simp

lemma digits_map2: "length as = length bs \<Longrightarrow> digits k (map2 (+) as bs) = digits k as + digits k bs"
  "length as = length bs \<Longrightarrow> digits k (map2 (-) as bs) = digits k as - digits k bs"
  by (induction as bs rule: list_induct2) (simp_all add: distrib_left right_diff_distrib)

lemma le_uint_digits: "le_uint bs = digits 8 (map uint bs)"
  by (induction bs) simp_all

text \<open>Words given by eight hexadecimal digits.\<close>

definition hex :: "int list \<Rightarrow> u32" where
  "hex ds = word_of_int (digits 4 ds)"

definition nibbles :: "int list \<Rightarrow> bool" where
  "nibbles ds \<longleftrightarrow> length ds = 8 \<and> (\<forall>d \<in> set ds. digit 4 d)"

lemma bit_hex: "nibbles ds \<Longrightarrow> n < 32 \<Longrightarrow> bit (hex ds) n = bit (ds ! (n div 4)) (n mod 4)"
  using bit_digits [of 4 ds n] less_mult_imp_div_less [of n 8 4] by (simp add: hex_def nibbles_def bit_word_of_int_iff)

lemma hex_and:
  assumes "nibbles ds" "nibbles cs"
  shows "hex ds AND hex cs = hex (map2 (AND) ds cs)" "nibbles (map2 (AND) ds cs)"
proof -
  show n: "nibbles (map2 (AND) ds cs)" using assms by (auto simp: nibbles_def set_zip intro!: digit_and)
  show "hex ds AND hex cs = hex (map2 (AND) ds cs)"
  proof (rule bit_word_eqI)
    fix i :: nat assume "i < LENGTH(32)"
    then have i: "i < 32" "i div 4 < 8" by simp_all
    then show "bit (hex ds AND hex cs) i = bit (hex (map2 (AND) ds cs)) i"
      using assms n by (simp add: bit_and_iff bit_hex) (simp add: nibbles_def bit_and_iff)
  qed
qed

lemma hex_shift_and:
  assumes ds: "nibbles ds" and c: "digit (4 - m) c" and m: "m < 4"
  shows "drop_bit m (hex ds) AND hex (replicate 8 c) = hex (map (\<lambda>d. drop_bit m d AND c) ds)" "nibbles (map (\<lambda>d. drop_bit m d AND c) ds)"
proof -
  have "(2 :: int) ^ (4 - m) \<le> 2 ^ 4" by (intro power_increasing) simp_all
  then have c4: "digit 4 c" using c by (simp add: digit_def)
  then show n: "nibbles (map (\<lambda>d. drop_bit m d AND c) ds)" using ds by (auto simp: nibbles_def intro!: digit_and)
  have r: "nibbles (replicate 8 c)" using c4 by (simp add: nibbles_def)
  show "drop_bit m (hex ds) AND hex (replicate 8 c) = hex (map (\<lambda>d. drop_bit m d AND c) ds)"
  proof (rule bit_word_eqI)
    fix i :: nat assume "i < LENGTH(32)"
    then have i: "i < 32" "i div 4 < 8" by simp_all
    have high: "\<not> bit c j" if "4 - m \<le> j" for j
      using c that by (metis digit_def take_bit_int_eq_self bit_take_bit_iff not_le)
    show "bit (drop_bit m (hex ds) AND hex (replicate 8 c)) i = bit (hex (map (\<lambda>d. drop_bit m d AND c) ds)) i"
    proof (cases "i mod 4 < 4 - m")
      case True
      have e: "(m + i) div 4 = i div 4" "(m + i) mod 4 = m + i mod 4" 
      proof -
        have "m + i = (m + i mod 4) + 4 * (i div 4)" using mod_mult_div_eq [of i 4] by linarith
        then have "(m + i) div 4 = (m + i mod 4) div 4 + i div 4" "(m + i) mod 4 = (m + i mod 4) mod 4"
          by (metis add.commute div_mult_self2 zero_neq_numeral, metis mod_mult_self2)
        then show "(m + i) div 4 = i div 4" "(m + i) mod 4 = m + i mod 4" using True by simp_all
      qed
      have "m + i < 32" using e(1) i by linarith
      have "bit (drop_bit m (hex ds)) i = bit (ds ! (i div 4)) (m + i mod 4)"
        using bit_hex [OF ds \<open>m + i < 32\<close>] unfolding bit_drop_bit_eq e comp_apply .
      moreover have "bit (hex (replicate 8 c)) i = bit c (i mod 4)" using bit_hex [OF r i(1)] i(2) by simp
      moreover have "bit (hex (map (\<lambda>d. drop_bit m d AND c) ds)) i = (bit (ds ! (i div 4)) (m + i mod 4) \<and> bit c (i mod 4))"
        using bit_hex [OF n i(1)] i(2) ds by (simp add: nibbles_def bit_and_iff bit_drop_bit_eq)
      ultimately show ?thesis by (simp only: bit_and_iff)
    next
      case False
      then have "\<not> bit c (i mod 4)" using high by simp
      then show ?thesis using i ds n r by (simp add: bit_and_iff bit_hex) (simp add: nibbles_def bit_and_iff)
    qed
  qed
qed

section \<open>Counting bits\<close>

definition bitsinbyte :: "nat list" where
  "bitsinbyte = [
     0, 1, 1, 2, 1, 2, 2, 3, 1, 2, 2, 3, 2, 3, 3, 4, 1, 2, 2, 3, 2, 3, 3, 4, 2, 3, 3, 4, 3, 4, 4, 5,
     1, 2, 2, 3, 2, 3, 3, 4, 2, 3, 3, 4, 3, 4, 4, 5, 2, 3, 3, 4, 3, 4, 4, 5, 3, 4, 4, 5, 4, 5, 5, 6,
     1, 2, 2, 3, 2, 3, 3, 4, 2, 3, 3, 4, 3, 4, 4, 5, 2, 3, 3, 4, 3, 4, 4, 5, 3, 4, 4, 5, 4, 5, 5, 6,
     2, 3, 3, 4, 3, 4, 4, 5, 3, 4, 4, 5, 4, 5, 5, 6, 3, 4, 4, 5, 4, 5, 5, 6, 4, 5, 5, 6, 5, 6, 6, 7,
     1, 2, 2, 3, 2, 3, 3, 4, 2, 3, 3, 4, 3, 4, 4, 5, 2, 3, 3, 4, 3, 4, 4, 5, 3, 4, 4, 5, 4, 5, 5, 6,
     2, 3, 3, 4, 3, 4, 4, 5, 3, 4, 4, 5, 4, 5, 5, 6, 3, 4, 4, 5, 4, 5, 5, 6, 4, 5, 5, 6, 5, 6, 6, 7,
     2, 3, 3, 4, 3, 4, 4, 5, 3, 4, 4, 5, 4, 5, 5, 6, 3, 4, 4, 5, 4, 5, 5, 6, 4, 5, 5, 6, 5, 6, 6, 7,
     3, 4, 4, 5, 4, 5, 5, 6, 4, 5, 5, 6, 5, 6, 6, 7, 4, 5, 5, 6, 5, 6, 6, 7, 5, 6, 6, 7, 6, 7, 7, 8]"

text \<open>The bits of a 32 bit word, two, four, and eight at a time.\<close>

definition count32 :: "u32 \<Rightarrow> u32" where
  "count32 aux =
     (let aux = aux - (drop_bit 1 aux AND 0x55555555);
          aux = (aux AND 0x33333333) + (drop_bit 2 aux AND 0x33333333)
      in drop_bit 24 (((aux + drop_bit 4 aux) AND 0x0F0F0F0F) * 0x01010101))"

fun count16 :: "host \<Rightarrow> byte list \<Rightarrow> nat \<Rightarrow> int \<Rightarrow> (byte list \<times> nat \<times> int) option" where
  "count16 h p count bits =
     (if count \<ge> 16 then do {
        a \<leftarrow> rd p 0 4; b \<leftarrow> rd p 4 4; c \<leftarrow> rd p 8 4; d \<leftarrow> rd p 12 4;
        let aux = (\<lambda>x. count32 (word_of_int (native_uint h x)));
        count16 h (drop 16 p) (count - 16) (bits + uint (aux a + aux b + aux c + aux d))
      }
      else Some (p, count, bits))"

declare count16.simps [simp del]

fun count1 :: "byte list \<Rightarrow> nat \<Rightarrow> int \<Rightarrow> int option" where
  "count1 p 0 bits = Some bits"
| "count1 [] (Suc count) bits = None"
| "count1 (b # p) (Suc count) bits = count1 p count (bits + int (bitsinbyte ! unat b))"

definition popcount :: "host \<Rightarrow> byte list \<Rightarrow> int \<Rightarrow> int option" where
  "popcount h s count =
     (if count < 0 then None
      else do { (p, n, bits) \<leftarrow> count16 h s (nat count) 0; count1 p n bits })"

text \<open>The number of ones.\<close>

definition ones :: "'a::len word \<Rightarrow> nat" where
  "ones w = length (filter (bit w) [0..<LENGTH('a)])"

definition ones4 :: "int \<Rightarrow> int" where
  "ones4 d = int (length (filter (bit d) [0..<4]))"

lemma unat_lt: "unat (b :: byte) < 256"
proof -
  have "unat b < 2 ^ LENGTH(8)" by (rule unsigned_less)
  then show ?thesis by simp
qed

lemma bitsinbyte_ones: "bitsinbyte ! unat (b :: byte) = ones b"
proof -
  have t: "bitsinbyte = map (\<lambda>n. length (filter (bit (int n)) [0..<8])) [0..<256]" unfolding bitsinbyte_def by code_simp
  have "bitsinbyte ! unat b = length (filter (bit (int (unat b))) [0..<8])"
    unfolding t using unat_lt [of b] by (subst nth_map) simp_all
  also have "int (unat b) = uint b" by simp
  also have "filter (bit (uint b)) [0..<8] = filter (bit b) [0..<8]" by (rule filter_cong [OF refl]) (simp add: bit_uint_iff)
  finally show ?thesis by (simp add: ones_def)
qed

lemma nibble_facts:
  assumes "digit 4 d"
  shows "digit 4 (drop_bit 1 d AND 5)" "digit 4 (d - (drop_bit 1 d AND 5))"
    "((d - (drop_bit 1 d AND 5)) AND 3) + (drop_bit 2 (d - (drop_bit 1 d AND 5)) AND 3) = ones4 d" "0 \<le> ones4 d" "ones4 d \<le> 4"
proof -
  have "\<forall>d \<in> set [0..15]. 0 \<le> (drop_bit 1 d AND 5) \<and> (drop_bit 1 d AND 5) < 16 \<and> 0 \<le> d - (drop_bit 1 d AND 5) \<and> d - (drop_bit 1 d AND 5) < 16 \<and>
      ((d - (drop_bit 1 d AND 5)) AND 3) + (drop_bit 2 (d - (drop_bit 1 d AND 5)) AND 3) = ones4 d \<and> 0 \<le> ones4 d \<and> ones4 d \<le> 4"
    by code_simp
  moreover have "d \<in> set [0..15]" using assms by (simp add: digit_def)
  ultimately show "digit 4 (drop_bit 1 d AND 5)" "digit 4 (d - (drop_bit 1 d AND 5))"
    "((d - (drop_bit 1 d AND 5)) AND 3) + (drop_bit 2 (d - (drop_bit 1 d AND 5)) AND 3) = ones4 d" "0 \<le> ones4 d" "ones4 d \<le> 4"
    unfolding digit_def by auto
qed

lemma uint_drop: "uint (drop_bit n (w :: 'a::len word)) = uint w div 2 ^ n"
proof -
  have "uint (drop_bit n w) = drop_bit n (uint w)"
    by (rule bit_eqI) (auto simp: bit_uint_iff bit_drop_bit_eq dest: bit_imp_le_length)
  then show ?thesis by (simp add: drop_bit_eq_div)
qed

lemma hex_masks:
  "hex (replicate 8 5) = 0x55555555" "hex (replicate 8 3) = 0x33333333" "hex [15, 0, 15, 0, 15, 0, 15, 0] = 0x0F0F0F0F"
  by code_simp+

lemma map2_map_same: "map2 f (map g xs) (map h xs) = map (\<lambda>x. f (g x) (h x)) xs"
  by (induction xs) simp_all

lemma hex_plus: "length as = length bs \<Longrightarrow> hex as + hex bs = hex (map2 (+) as bs)"
  and hex_minus: "length as = length bs \<Longrightarrow> hex as - hex bs = hex (map2 (-) as bs)"
  by (simp_all add: hex_def digits_map2)

text \<open>After the second step every hexadecimal digit is the number of ones of the digit that was there.\<close>

lemma count32_nibbles:
  assumes "nibbles ds"
  defines "aux \<equiv> hex ds - (drop_bit 1 (hex ds) AND 0x55555555)"
  shows "(aux AND 0x33333333) + (drop_bit 2 aux AND 0x33333333) = hex (map ones4 ds)"
proof -
  define g where "g d = d - (drop_bit 1 d AND 5)" for d :: int
  have l: "length ds = 8" and d: "\<And>d. d \<in> set ds \<Longrightarrow> digit 4 d" using assms(1) by (auto simp: nibbles_def)
  have "drop_bit 1 (hex ds) AND 0x55555555 = hex (map (\<lambda>d. drop_bit 1 d AND 5) ds)"
    using hex_shift_and(1) [OF assms(1), of 1 5] by (simp add: hex_masks digit_def)
  then have a: "aux = hex (map g ds)"
    unfolding aux_def using hex_minus [of ds "map (\<lambda>d. drop_bit 1 d AND 5) ds"] map2_map_same [of "(-)" id ds "\<lambda>d. drop_bit 1 d AND 5"]
    by (simp add: g_def [abs_def])
  have n: "nibbles (map g ds)" using l d nibble_facts(2) by (auto simp: nibbles_def g_def)
  have "drop_bit 2 aux AND 0x33333333 = hex (map (\<lambda>d. drop_bit 2 d AND 3) (map g ds))"
    unfolding a using hex_shift_and(1) [OF n, of 2 3] by (simp add: hex_masks digit_def)
  moreover have "aux AND 0x33333333 = hex (map (\<lambda>d. drop_bit 0 d AND 3) (map g ds))"
    unfolding a using hex_shift_and(1) [OF n, of 0 3] by (simp add: hex_masks digit_def)
  ultimately have "(aux AND 0x33333333) + (drop_bit 2 aux AND 0x33333333) =
      hex (map2 (+) (map (\<lambda>d. drop_bit 0 d AND 3) (map g ds)) (map (\<lambda>d. drop_bit 2 d AND 3) (map g ds)))"
    by (simp only: hex_plus length_map)
  also have "map2 (+) (map (\<lambda>d. drop_bit 0 d AND 3) (map g ds)) (map (\<lambda>d. drop_bit 2 d AND 3) (map g ds)) = map ones4 ds"
    unfolding map2_map_same map_map comp_def using nibble_facts(3) d by (simp add: g_def)
  finally show ?thesis .
qed

lemma top_byte:
  assumes "0 \<le> a" "a \<le> 8" "0 \<le> b" "b \<le> 8" "0 \<le> c" "c \<le> 8" "0 \<le> d" "(d :: int) \<le> 8"
  shows "drop_bit 24 (hex [a, 0, b, 0, c, 0, d, 0] * 0x01010101) = word_of_int (a + b + c + d)"
proof -
  let ?x = "a + 256 * b + 65536 * c + 16777216 * d"
  let ?low = "a + 256 * (a + b) + 65536 * (a + b + c)"
  let ?high = "b + c + d + 256 * (c + d) + 65536 * d"
  let ?s = "a + b + c + d"
  have "?low = 65793 * a + 65792 * b + 65536 * c" by simp
  then have low: "0 \<le> ?low" "?low < 16777216" using assms by linarith+
  have s: "0 \<le> ?s" "?s \<le> 32" using assms by linarith+
  have small: "(l + 16777216 * t) mod 4294967296 = l + 16777216 * t" if "0 \<le> l" "l < 16777216" "0 \<le> t" "t \<le> 32" for l t :: int
    using that by simp
  have top: "(l + 16777216 * t) div 16777216 = t" if "0 \<le> l" "l < 16777216" for l t :: int
    using that by simp
  have x: "hex [a, 0, b, 0, c, 0, d, 0] = word_of_int ?x" by (simp add: hex_def)
  have "?x * 16843009 = ?low + 16777216 * (a + b + c + d) + 4294967296 * ?high" by simp
  then have "(?x * 16843009) mod 4294967296 = (?low + 16777216 * (a + b + c + d)) mod 4294967296" by (simp only: mod_mult_self2)
  also have "\<dots> = ?low + 16777216 * (a + b + c + d)" by (rule small) (rule low s)+
  finally have m: "(?x * 16843009) mod 4294967296 = ?low + 16777216 * (a + b + c + d)" .
  have "uint (word_of_int (?x * 16843009) :: u32) = ?low + 16777216 * (a + b + c + d)"
    unfolding uint_word_of_int using m by simp
  moreover have "(?low + 16777216 * (a + b + c + d)) div 16777216 = a + b + c + d"
    by (rule top) (rule low)+
  ultimately have "uint (drop_bit 24 (word_of_int (?x * 16843009) :: u32)) = a + b + c + d"
    by (simp only: uint_drop) simp
  then have "drop_bit 24 (word_of_int (?x * 16843009) :: u32) = word_of_int (a + b + c + d)" by (metis word_of_int_uint)
  then show ?thesis by (simp add: x)
qed

lemma count32_hex:
  assumes "nibbles ds"
  shows "count32 (hex ds) = word_of_int (\<Sum>d\<leftarrow>ds. ones4 d)"
proof -
  obtain d0 d1 d2 d3 d4 d5 d6 d7 where ds: "ds = [d0, d1, d2, d3, d4, d5, d6, d7]"
    using assms by (auto simp: nibbles_def numeral_eq_Suc length_Suc_conv)
  let ?p = "map ones4 ds"
  have p: "\<forall>p \<in> set ?p. 0 \<le> p \<and> p \<le> 4" using assms nibble_facts(4,5) by (auto simp: nibbles_def)
  have np: "nibbles ?p" using p assms by (auto simp: nibbles_def digit_def)
  define q where "q = [ones4 d0 + ones4 d1, ones4 d1 + ones4 d2, ones4 d2 + ones4 d3, ones4 d3 + ones4 d4, ones4 d4 + ones4 d5,
    ones4 d5 + ones4 d6, ones4 d6 + ones4 d7, ones4 d7]"
  have eq: "digits 4 ?p = ones4 d0 + 16 * digits 4 (tl ?p)" by (simp add: ds)
  have o: "0 \<le> ones4 d0" "ones4 d0 < 16" using p by (auto simp: ds)
  then have "digits 4 ?p div 16 = digits 4 (tl ?p)" unfolding eq by simp
  moreover have bound: "0 \<le> digits 4 ?p" "digits 4 ?p < 2 ^ 32"
    using p by (simp_all add: ds)
  then have "uint (hex ?p) = digits 4 ?p" by (simp add: hex_def uint_word_of_int)
  ultimately have "uint (drop_bit 4 (hex ?p)) = digits 4 (tl ?p)" by (simp only: uint_drop) simp
  then have "drop_bit 4 (hex ?p) = hex (tl ?p @ [0])" 
  proof -
    assume u: "uint (drop_bit 4 (hex ?p)) = digits 4 (tl ?p)"
    have "hex (tl ?p @ [0]) = word_of_int (uint (drop_bit 4 (hex ?p)))" unfolding u by (simp add: hex_def ds)
    then show ?thesis by simp
  qed
  then have sum: "hex ?p + drop_bit 4 (hex ?p) = hex q" by (simp add: hex_plus ds q_def)
  have nq: "nibbles q" using p by (auto simp: ds q_def nibbles_def digit_def)
  have nm: "nibbles [15, 0, 15, 0, 15, 0, 15, 0]" by (simp add: nibbles_def digit_def)
  have lowmask: "x AND 15 = x" if "0 \<le> x" "x \<le> 8" for x :: int
  proof -
    have "x AND 15 = take_bit 4 x" by (simp add: take_bit_eq_mask mask_eq_exp_minus_1)
    then show ?thesis using that by (simp add: take_bit_int_eq_self)
  qed
  have z: "x AND 0 = 0" for x :: int by simp
  have "hex q AND 0x0F0F0F0F = hex (map2 (AND) q [15, 0, 15, 0, 15, 0, 15, 0])" using hex_and(1) [OF nq nm] by (simp only: hex_masks)
  also have "map2 (AND) q [15, 0, 15, 0, 15, 0, 15, 0] =
      [ones4 d0 + ones4 d1, 0, ones4 d2 + ones4 d3, 0, ones4 d4 + ones4 d5, 0, ones4 d6 + ones4 d7, 0]"
    using p by (simp add: q_def ds lowmask del: and_numerals)
  finally have m: "hex q AND 0x0F0F0F0F = hex [ones4 d0 + ones4 d1, 0, ones4 d2 + ones4 d3, 0, ones4 d4 + ones4 d5, 0, ones4 d6 + ones4 d7, 0]" .
  have "count32 (hex ds) = drop_bit 24 (((hex ?p + drop_bit 4 (hex ?p)) AND 0x0F0F0F0F) * 0x01010101)"
    unfolding count32_def Let_def count32_nibbles [OF assms] ..
  also have "\<dots> = word_of_int (ones4 d0 + ones4 d1 + (ones4 d2 + ones4 d3) + (ones4 d4 + ones4 d5) + (ones4 d6 + ones4 d7))"
    unfolding sum m using p by (intro top_byte) (simp_all add: ds)
  also have "\<dots> = word_of_int (\<Sum>d\<leftarrow>ds. ones4 d)" by (simp add: ds add.assoc)
  finally show ?thesis .
qed

text \<open>A word of four bytes.\<close>

definition halves :: "byte \<Rightarrow> int list" where
  "halves b = [uint b mod 16, uint b div 16]"

lemma le_uint_halves: "le_uint bs = digits 4 (concat (map halves bs))"
proof (induction bs)
  case (Cons b bs)
  have "uint b = uint b mod 16 + 16 * (uint b div 16)" by simp
  then show ?case using Cons.IH by (simp add: halves_def)
qed simp

lemma ones_halves: "(\<Sum>d\<leftarrow>halves b. ones4 d) = int (ones b)"
proof -
  have "\<forall>n \<in> set [0..<256]. ones4 (int n mod 16) + ones4 (int n div 16) = int (length (filter (bit (int n)) [0..<8]))" by code_simp
  then have "ones4 (int (unat b) mod 16) + ones4 (int (unat b) div 16) = int (length (filter (bit (int (unat b))) [0..<8]))"
  proof -
    assume all: "\<forall>n \<in> set [0..<256]. ones4 (int n mod 16) + ones4 (int n div 16) = int (length (filter (bit (int n)) [0..<8]))"
    show ?thesis using unat_lt [of b] by (intro bspec [OF all]) simp
  qed
  then have "ones4 (uint b mod 16) + ones4 (uint b div 16) = int (length (filter (bit (uint b)) [0..<8]))" by (simp only: uint_nat)
  moreover have "filter (bit (uint b)) [0..<8] = filter (bit b) [0..<8]" by (rule filter_cong [OF refl]) (simp add: bit_uint_iff)
  ultimately show ?thesis by (simp add: halves_def ones_def)
qed

definition ones_in :: "byte list \<Rightarrow> nat" where
  "ones_in bs = (\<Sum>b\<leftarrow>bs. ones b)"

lemma ones_in_simps [simp]: "ones_in [] = 0" "ones_in (b # bs) = ones b + ones_in bs" "ones_in (as @ bs) = ones_in as + ones_in bs"
  by (simp_all add: ones_in_def)

lemma ones_le: "ones b \<le> 8" for b :: byte
  using length_filter_le [of "bit b" "[0..<8]"] by (simp add: ones_def)

lemma ones_in_le: "ones_in bs \<le> 8 * length bs"
proof (induction bs)
  case (Cons b bs)
  then show ?case using ones_le [of b] by simp
qed simp

lemma count32_bytes:
  assumes "length bs = 4"
  shows "count32 (word_of_int (le_uint bs)) = of_nat (ones_in bs)"
proof -
  have d: "digit 4 (uint b mod 16)" "digit 4 (uint b div 16)" for b :: byte
    using uint_byte_bounds [of b] by (auto simp: digit_def pos_imp_zdiv_nonneg_iff)
  have "length (concat (map halves bs)) = 8" using assms by (auto simp: halves_def length_Suc_conv numeral_eq_Suc)
  then have "nibbles (concat (map halves bs))" using d by (auto simp: nibbles_def halves_def)
  from count32_hex [OF this] have "count32 (word_of_int (le_uint bs)) = word_of_int (\<Sum>d\<leftarrow>concat (map halves bs). ones4 d)"
    by (simp add: hex_def le_uint_halves)
  also have "(\<Sum>d\<leftarrow>concat (map halves bs). ones4 d) = int (ones_in bs)"
    by (induction bs) (simp_all add: ones_halves)
  finally show ?thesis by simp
qed

lemma count32_native: "length bs = 4 \<Longrightarrow> count32 (word_of_int (native_uint h bs)) = of_nat (ones_in bs)"
  using count32_bytes [of "if big_endian h then rev bs else bs"] by (simp add: native_uint_def ones_in_def rev_map [symmetric])

lemma count16_ok:
  assumes "count \<le> length p"
  shows "\<exists>m. count16 h p count bits = Some (drop (16 * m) p, count - 16 * m, bits + int (ones_in (take (16 * m) p))) \<and> 16 * m \<le> count"
  using assms
proof (induction h p count bits rule: count16.induct)
  case (1 h p count bits)
  show ?case
  proof (cases "count \<ge> 16")
    case True
    define q where "q i = take 4 (drop i p)" for i
    have l: "length p \<ge> 16" using True 1(2) by simp
    then have q: "rd p 0 4 = Some (q 0)" "rd p 4 4 = Some (q 4)" "rd p 8 4 = Some (q 8)" "rd p 12 4 = Some (q 12)"
      "length (q 0) = 4" "length (q 4) = 4" "length (q 8) = 4" "length (q 12) = 4" by (simp_all add: rd_def q_def)
    have t: "take 16 p = q 0 @ q 4 @ q 8 @ q 12"
      using take_add [of 4 12 p] take_add [of 4 8 "drop 4 p"] take_add [of 4 4 "drop 8 p"] by (simp add: q_def)
    define aux where "aux x = count32 (word_of_int (native_uint h x))" for x
    have "uint (aux (q 0) + aux (q 4) + aux (q 8) + aux (q 12)) = int (ones_in (take 16 p))"
    proof -
      have "aux (q 0) + aux (q 4) + aux (q 8) + aux (q 12) = of_nat (ones_in (take 16 p))"
        using q by (simp add: aux_def count32_native t)
      moreover have "ones_in (take 16 p) < 4294967296" using ones_in_le [of "take 16 p"] by simp
      ultimately show ?thesis by (metis unat_of_nat_u32 uint_nat)
    qed
    note u = this
    have "count16 h p count bits = count16 h (drop 16 p) (count - 16) (bits + int (ones_in (take 16 p)))"
      using True q u by (subst count16.simps) (simp add: aux_def)
    moreover
    have "count - 16 \<le> length (drop 16 p)" using 1(2) by simp
    from 1(1) [OF True q(1-4) refl this] u [unfolded aux_def] obtain m where
      m: "count16 h (drop 16 p) (count - 16) (bits + int (ones_in (take 16 p))) =
        Some (drop (16 * m) (drop 16 p), count - 16 - 16 * m, bits + int (ones_in (take 16 p)) + int (ones_in (take (16 * m) (drop 16 p))))"
      "16 * m \<le> count - 16" by auto
    moreover have "take (16 * Suc m) p = take 16 p @ take (16 * m) (drop 16 p)" using take_add [of 16 "16 * m" p] by simp
    ultimately show ?thesis using True by (intro exI [of _ "Suc m"]) (simp add: add.commute)
  next
    case False
    then show ?thesis by (intro exI [of _ 0]) (simp add: count16.simps)
  qed
qed

lemma count1_ok: "n \<le> length p \<Longrightarrow> count1 p n bits = Some (bits + int (ones_in (take n p)))"
  by (induction p n bits rule: count1.induct) (simp_all add: bitsinbyte_ones)

lemma popcount_count:
  assumes "0 \<le> count" "count \<le> int (length s)"
  shows "popcount h s count = Some (int (ones_in (take (nat count) s)))"
proof -
  have "nat count \<le> length s" using assms by simp
  from count16_ok [OF this, of h 0] obtain m where m: "count16 h s (nat count) 0 = Some (drop (16 * m) s, nat count - 16 * m, 0 + int (ones_in (take (16 * m) s)))"
    "16 * m \<le> nat count" by blast
  have "take (nat count) s = take (16 * m) s @ take (nat count - 16 * m) (drop (16 * m) s)" using take_add [of "16 * m" "nat count - 16 * m" s] m(2) by simp
  moreover have "nat count - 16 * m \<le> length (drop (16 * m) s)" using \<open>nat count \<le> length s\<close> by simp
  ultimately show ?thesis using m(1) assms(1) by (simp add: popcount_def count1_ok)
qed

text \<open>
  C5: The optimised count, sixteen bytes at a time with 32 bit arithmetic and then a table of the counts of single
  bytes, is the number of ones, on hosts of both byte orders; it reads inside the string when the count does not
  exceed its length.
\<close>

theorem popcount_ones:
  assumes "0 \<le> count" "count \<le> int (length s)"
  shows "popcount h s count = Some (int (ones_in (take (nat count) s)))"
  using assms by (rule popcount_count)

theorem popcount_ones_witness:
  "popcount \<lparr>big_endian = True, junk = \<lambda>_. 0\<rparr> (replicate 17 3 @ [255]) 18 = Some 42"
proof -
  have "ones_in (take (nat 18) (replicate 17 3 @ [255])) = 42" by code_simp
  then show ?thesis by (subst popcount_ones) simp_all
qed

section \<open>BITOP\<close>

datatype bitop = BITOP_AND | BITOP_OR | BITOP_XOR | BITOP_NOT

text \<open>The strings of the keys: an absent key has a null pointer and the length 0.\<close>

fun bit_lens :: "nat \<Rightarrow> byte list option list \<Rightarrow> nat \<Rightarrow> nat \<Rightarrow> nat \<times> nat" where
  "bit_lens j [] minlen maxlen = (minlen, maxlen)"
| "bit_lens j (None # srcs) minlen maxlen = bit_lens (j + 1) srcs 0 maxlen"
| "bit_lens j (Some s # srcs) minlen maxlen =
     (let maxlen = (if length s > maxlen then length s else maxlen);
          minlen = (if j = 0 \<or> length s < minlen then length s else minlen)
      in bit_lens (j + 1) srcs minlen maxlen)"

text \<open>A word of \<open>res\<close> is combined with the word of a source at the same offset.\<close>

definition long_at :: "host \<Rightarrow> byte list \<Rightarrow> nat \<Rightarrow> u64 option" where
  "long_at h m off = map_option (\<lambda>b. word_of_int (native_uint h b)) (rd m off 8)"

definition put_long :: "host \<Rightarrow> byte list \<Rightarrow> nat \<Rightarrow> u64 \<Rightarrow> byte list option" where
  "put_long h m off w = wr m off (native_bytes h 8 (uint w))"

definition long_op :: "bitop \<Rightarrow> u64 \<Rightarrow> u64 \<Rightarrow> u64" where
  "long_op op x y = (case op of BITOP_AND \<Rightarrow> x AND y | BITOP_OR \<Rightarrow> x OR y | BITOP_XOR \<Rightarrow> x XOR y | BITOP_NOT \<Rightarrow> x)"

definition word_step :: "host \<Rightarrow> bitop \<Rightarrow> byte list \<Rightarrow> nat \<Rightarrow> byte list \<Rightarrow> byte list option" where
  "word_step h op src off res = do {
     x \<leftarrow> long_at h res off;
     y \<leftarrow> long_at h src off;
     put_long h res off (long_op op x y)
   }"

definition not_step :: "host \<Rightarrow> nat \<Rightarrow> byte list \<Rightarrow> byte list option" where
  "not_step h off res = do { x \<leftarrow> long_at h res off; put_long h res off (NOT x) }"

primrec four :: "(nat \<Rightarrow> byte list \<Rightarrow> byte list option) \<Rightarrow> nat list \<Rightarrow> byte list \<Rightarrow> byte list option" where
  "four f [] res = Some res"
| "four f (i # is') res = do { res \<leftarrow> f i res; four f is' res }"

primrec key_steps :: "host \<Rightarrow> bitop \<Rightarrow> byte list list \<Rightarrow> nat \<Rightarrow> byte list \<Rightarrow> byte list option" where
  "key_steps h op [] j res = Some res"
| "key_steps h op (src # srcs) j res = do {
     res \<leftarrow> four (word_step h op src) [j, j + 8, j + 16, j + 24] res;
     key_steps h op srcs j res
   }"

function fast_loop :: "host \<Rightarrow> bitop \<Rightarrow> byte list list \<Rightarrow> nat \<Rightarrow> nat \<Rightarrow> byte list \<Rightarrow> (nat \<times> byte list) option" where
  "fast_loop h op srcs minlen j res =
     (if minlen \<ge> 32 then do {
        res \<leftarrow> (if op = BITOP_NOT then four (not_step h) [j, j + 8, j + 16, j + 24] res
               else key_steps h op (tl srcs) j res);
        fast_loop h op srcs (minlen - 32) (j + 32) res
      }
      else Some (j, res))"
  by auto
termination by (relation "measure (\<lambda>(h, op, srcs, minlen, j, res). minlen)") auto

declare fast_loop.simps [simp del]

text \<open>The bytes from \<open>j\<close> on; a string that has ended counts as zero.\<close>

definition byte_of :: "byte list \<Rightarrow> nat \<Rightarrow> byte" where
  "byte_of s j = (if length s \<le> j then 0 else s ! j)"

definition byte_op :: "bitop \<Rightarrow> byte \<Rightarrow> byte \<Rightarrow> byte" where
  "byte_op op x y = (case op of BITOP_AND \<Rightarrow> x AND y | BITOP_OR \<Rightarrow> x OR y | BITOP_XOR \<Rightarrow> x XOR y | BITOP_NOT \<Rightarrow> x)"

definition out_byte :: "bitop \<Rightarrow> byte list list \<Rightarrow> nat \<Rightarrow> byte" where
  "out_byte op srcs j =
     foldl (\<lambda>out s. byte_op op out (byte_of s j))
       (let out = byte_of (hd srcs) j in if op = BITOP_NOT then NOT out else out) (tl srcs)"

function byte_loop :: "bitop \<Rightarrow> byte list list \<Rightarrow> nat \<Rightarrow> nat \<Rightarrow> byte list \<Rightarrow> byte list option" where
  "byte_loop op srcs maxlen j res =
     (if j < maxlen then do {
        res \<leftarrow> wr res j [out_byte op srcs j];
        byte_loop op srcs maxlen (j + 1) res
      }
      else Some res)"
  by auto
termination by (relation "measure (\<lambda>(op, srcs, maxlen, j, res). maxlen - j)") auto

declare byte_loop.simps [simp del]

text \<open>The result, \<open>None\<close> in it when all strings are empty.  Null pointers are not read.\<close>

definition bitop_result :: "host \<Rightarrow> bitop \<Rightarrow> byte list option list \<Rightarrow> (nat \<times> byte list option) option" where
  "bitop_result h op keys = do {
     let (minlen, maxlen) = bit_lens 0 keys 0 0;
     let srcs = map (\<lambda>x. case x of None \<Rightarrow> [] | Some s \<Rightarrow> s) keys;
     if maxlen \<noteq> 0 then do {
       let res = replicate maxlen 0;
       (j, res) \<leftarrow> (if minlen \<noteq> 0 \<and> length keys \<le> 16 then do {
           b \<leftarrow> rd (hd srcs) 0 minlen;
           res \<leftarrow> wr res 0 b;
           fast_loop h op srcs minlen 0 res
         } else Some (0, res));
       res \<leftarrow> byte_loop op srcs maxlen j res;
       Some (maxlen, Some res)
     }
     else Some (maxlen, None)
   }"

section \<open>The operations are bytewise\<close>

text \<open>The bit at an offset as SETBIT and GETBIT count them.\<close>

definition bit_at :: "byte list \<Rightarrow> nat \<Rightarrow> bool" where
  "bit_at b n \<longleftrightarrow> n div 8 < length b \<and> bit (b ! (n div 8)) (7 - n mod 8)"

primrec combine :: "bitop \<Rightarrow> bool list \<Rightarrow> bool" where
  "combine BITOP_AND bs = list_all id bs"
| "combine BITOP_OR bs = list_ex id bs"
| "combine BITOP_XOR bs = odd (length (filter id bs))"
| "combine BITOP_NOT bs = (\<not> hd bs)"

definition key_bytes :: "byte list option \<Rightarrow> byte list" where
  "key_bytes x = (case x of None \<Rightarrow> [] | Some s \<Rightarrow> s)"

lemma key_bytes_simps [simp]: "key_bytes None = []" "key_bytes (Some s) = s"
  by (simp_all add: key_bytes_def)

lemma bit_lens_max:
  "snd (bit_lens j srcs mn mx) = fold (\<lambda>s m. max m (length (key_bytes s))) srcs mx"
  by (induction j srcs mn mx rule: bit_lens.induct) (auto simp: Let_def max_def)

lemma fold_max: "(\<forall>x \<in> set xs. f x \<le> fold (\<lambda>s m. max m (f s)) xs (m :: nat)) \<and> m \<le> fold (\<lambda>s m. max m (f s)) xs m"
proof (induction xs arbitrary: m)
  case (Cons x xs)
  have "max m (f x) \<le> fold (\<lambda>s m. max m (f s)) xs (max m (f x))" "\<forall>y \<in> set xs. f y \<le> fold (\<lambda>s m. max m (f s)) xs (max m (f x))"
    using Cons.IH by blast+
  then show ?case by (simp add: max.bounded_iff del: max.cobounded1)
qed simp

lemma bit_lens_min: "0 < j \<Longrightarrow> fst (bit_lens j srcs mn mx) \<le> mn \<and> (\<forall>s \<in> set srcs. fst (bit_lens j srcs mn mx) \<le> length (key_bytes s))"
proof (induction j srcs mn mx rule: bit_lens.induct)
  case (3 j s srcs minlen maxlen)
  from 3(1) [OF refl refl] 3(2) show ?case by (simp add: Let_def) (auto split: if_splits)
qed auto

lemma bit_lens_bounds:
  assumes "bit_lens 0 keys 0 0 = (mn, mx)"
  shows "\<forall>s \<in> set keys. mn \<le> length (key_bytes s) \<and> length (key_bytes s) \<le> mx"
proof -
  have "\<forall>s \<in> set keys. length (key_bytes s) \<le> mx"
    using fold_max [of keys "\<lambda>s. length (key_bytes s)" 0] bit_lens_max [of 0 keys 0 0] assms by simp
  moreover have "\<forall>s \<in> set keys. mn \<le> length (key_bytes s)"
  proof (cases keys)
    case (Cons k ks)
    then show ?thesis
      using assms bit_lens_min [of 1 ks 0 0] bit_lens_min [of 1 ks "length (key_bytes k)" "length (key_bytes k)"]
      by (cases k) (auto simp: Let_def split: if_splits)
  qed simp
  ultimately show ?thesis by blast
qed

text \<open>Bytes \<open>lo\<close> to \<open>hi\<close> replaced.\<close>

definition upd :: "nat \<Rightarrow> nat \<Rightarrow> (nat \<Rightarrow> byte) \<Rightarrow> byte list \<Rightarrow> byte list" where
  "upd lo hi f res = map (\<lambda>i. if lo \<le> i \<and> i < hi then f i else res ! i) [0..<length res]"

lemma length_upd [simp]: "length (upd lo hi f res) = length res"
  by (simp add: upd_def)

lemma nth_upd: "i < length res \<Longrightarrow> upd lo hi f res ! i = (if lo \<le> i \<and> i < hi then f i else res ! i)"
  by (simp add: upd_def)

lemma upd_empty [simp]: "upd lo lo f res = res"
  by (rule nth_equalityI) (auto simp: nth_upd)

lemma upd_upd:
  assumes "lo \<le> mid" "mid \<le> hi" "\<And>i. lo \<le> i \<Longrightarrow> i < mid \<Longrightarrow> f i = h i" "\<And>i. mid \<le> i \<Longrightarrow> i < hi \<Longrightarrow> g i = h i"
  shows "upd mid hi g (upd lo mid f res) = upd lo hi h res"
  using assms by (intro nth_equalityI) (auto simp: nth_upd)

lemma upd_again:
  assumes "\<And>i. lo \<le> i \<Longrightarrow> i < hi \<Longrightarrow> i < length res \<Longrightarrow> g i = h i"
  shows "upd lo hi g (upd lo hi f res) = upd lo hi h res"
  using assms by (intro nth_equalityI) (auto simp: nth_upd)

lemma wr_upd: "off + length bs \<le> length res \<Longrightarrow> wr res off bs = Some (upd off (off + length bs) (\<lambda>i. bs ! (i - off)) res)"
proof -
  assume l: "off + length bs \<le> length res"
  have "take off res @ bs @ drop (off + length bs) res = upd off (off + length bs) (\<lambda>i. bs ! (i - off)) res"
    using l by (intro nth_equalityI) (auto simp: nth_upd nth_append)
  then show ?thesis using l by (simp add: wr_def)
qed

text \<open>Words of eight bytes.\<close>

definition word8 :: "byte list \<Rightarrow> u64" where
  "word8 bs = word_of_int (le_uint bs)"

lemma bit_word8: "length bs = 8 \<Longrightarrow> n < 64 \<Longrightarrow> bit (word8 bs) n = bit (bs ! (n div 8)) (n mod 8)"
proof -
  assume a: "length bs = 8" "n < 64"
  have "\<forall>d \<in> set (map uint bs). digit 8 d" using uint_byte_bounds by (auto simp: digit_def)
  from bit_digits [OF _ this, of n] show ?thesis
    using a less_mult_imp_div_less [of n 8 8] by (simp add: word8_def le_uint_digits bit_word_of_int_iff bit_uint_iff)
qed

lemma bytes_word8: "length bs = 8 \<Longrightarrow> le_bytes 8 (uint (word8 bs)) = bs"
proof -
  assume l: "length bs = 8"
  have "le_uint bs < 2 ^ 64" using le_uint_bound [of bs] l by simp
  then have "uint (word8 bs) = le_uint bs" by (simp add: word8_def uint_word_of_int)
  then show ?thesis using le_bytes_le_uint [of bs] l by simp
qed

lemma word8_op:
  assumes "length xs = 8" "length ys = 8"
  shows "long_op op (word8 xs) (word8 ys) = word8 (map2 (byte_op op) xs ys)" "NOT (word8 xs) = word8 (map NOT xs)"
proof -
  show "long_op op (word8 xs) (word8 ys) = word8 (map2 (byte_op op) xs ys)"
  proof (rule bit_word_eqI)
    fix n :: nat assume "n < LENGTH(64)"
    then have n: "n < 64" "n div 8 < 8" by simp_all
    then show "bit (long_op op (word8 xs) (word8 ys)) n = bit (word8 (map2 (byte_op op) xs ys)) n"
      using assms by (cases op) (simp_all add: bit_word8 long_op_def byte_op_def bit_and_iff bit_or_iff bit_xor_iff)
  qed
  show "NOT (word8 xs) = word8 (map NOT xs)"
  proof (rule bit_word_eqI)
    fix n :: nat assume "n < LENGTH(64)"
    then have n: "n < 64" "n div 8 < 8" by simp_all
    then show "bit (NOT (word8 xs)) n = bit (word8 (map NOT xs)) n"
      using assms by (simp add: bit_word8 bit_not_iff)
  qed
qed

lemma native_op:
  assumes "length xs = 8" "length ys = 8"
  shows "native_bytes h 8 (uint (long_op op (word_of_int (native_uint h xs)) (word_of_int (native_uint h ys)))) = map2 (byte_op op) xs ys"
    "native_bytes h 8 (uint (NOT (word_of_int (native_uint h xs) :: u64))) = map NOT xs"
  using assms
  by (simp_all add: native_bytes_def native_uint_def word8_op bytes_word8 zip_rev rev_map flip: word8_def)

lemma word_step_ok:
  assumes "off + 8 \<le> length res" "off + 8 \<le> length src"
  shows "word_step h op src off res = Some (upd off (off + 8) (\<lambda>i. byte_op op (res ! i) (src ! i)) res)"
    "not_step h off res = Some (upd off (off + 8) (\<lambda>i. NOT (res ! i)) res)"
proof -
  let ?x = "take 8 (drop off res)" and ?y = "take 8 (drop off src)"
  have l: "length ?x = 8" "length ?y = 8" using assms by simp_all
  have "put_long h res off w = Some (upd off (off + 8) (\<lambda>i. native_bytes h 8 (uint w) ! (i - off)) res)" for w
    using wr_upd [of off "native_bytes h 8 (uint w)" res] assms(1) by (simp add: put_long_def)
  note p = this
  have "upd off (off + 8) (\<lambda>i. map2 (byte_op op) ?x ?y ! (i - off)) res = upd off (off + 8) (\<lambda>i. byte_op op (res ! i) (src ! i)) res"
    using assms by (intro nth_equalityI) (auto simp: nth_upd)
  then show "word_step h op src off res = Some (upd off (off + 8) (\<lambda>i. byte_op op (res ! i) (src ! i)) res)"
    using assms p native_op(1) [OF l] by (simp add: word_step_def long_at_def rd_def)
  have "upd off (off + 8) (\<lambda>i. map NOT ?x ! (i - off)) res = upd off (off + 8) (\<lambda>i. NOT (res ! i)) res"
    using assms by (intro nth_equalityI) (auto simp: nth_upd)
  then show "not_step h off res = Some (upd off (off + 8) (\<lambda>i. NOT (res ! i)) res)"
    using assms p native_op(2) [OF l] by (simp add: not_step_def long_at_def rd_def)
qed

lemma four_ok:
  assumes f: "\<And>off r. j \<le> off \<Longrightarrow> off + 8 \<le> j + 32 \<Longrightarrow> length r = length res \<Longrightarrow> f off r = Some (upd off (off + 8) (\<lambda>i. g i (r ! i)) r)"
    and l: "j + 32 \<le> length res"
  shows "four f [j, j + 8, j + 16, j + 24] res = Some (upd j (j + 32) (\<lambda>i. g i (res ! i)) res)"
proof -
  let ?u = "\<lambda>hi. upd j hi (\<lambda>i. g i (res ! i)) res"
  have s: "f (j + k) (?u (j + k)) = Some (?u (j + k + 8))" if "k \<le> 24" for k
  proof -
    have "f (j + k) (?u (j + k)) = Some (upd (j + k) (j + k + 8) (\<lambda>i. g i (?u (j + k) ! i)) (?u (j + k)))"
      using that by (intro f) simp_all
    also have "upd (j + k) (j + k + 8) (\<lambda>i. g i (?u (j + k) ! i)) (?u (j + k)) = ?u (j + k + 8)"
      using l that by (intro upd_upd) (simp_all add: nth_upd)
    finally show ?thesis .
  qed
  show ?thesis using s [of 0] s [of 8] s [of 16] s [of 24] by (simp add: add.assoc)
qed

lemma key_steps_ok:
  assumes "j + 32 \<le> length res" "\<forall>s \<in> set srcs. j + 32 \<le> length s"
  shows "key_steps h op srcs j res = Some (upd j (j + 32) (\<lambda>i. foldl (\<lambda>out s. byte_op op out (s ! i)) (res ! i) srcs) res)"
  using assms
proof (induction srcs arbitrary: res)
  case Nil
  then show ?case by (simp add: nth_equalityI nth_upd)
next
  case (Cons s srcs)
  let ?r = "upd j (j + 32) (\<lambda>i. byte_op op (res ! i) (s ! i)) res"
  have "four (word_step h op s) [j, j + 8, j + 16, j + 24] res = Some ?r"
    by (rule four_ok) (use Cons.prems in \<open>auto intro!: word_step_ok(1)\<close>)
  moreover have "key_steps h op srcs j ?r = Some (upd j (j + 32) (\<lambda>i. foldl (\<lambda>out s. byte_op op out (s ! i)) (?r ! i) srcs) ?r)"
    using Cons.prems by (intro Cons.IH) auto
  moreover have "upd j (j + 32) (\<lambda>i. foldl (\<lambda>out s. byte_op op out (s ! i)) (?r ! i) srcs) ?r =
      upd j (j + 32) (\<lambda>i. foldl (\<lambda>out s. byte_op op out (s ! i)) (res ! i) (s # srcs)) res"
    by (rule upd_again) (simp add: nth_upd)
  ultimately show ?case by simp
qed

text \<open>The part done on words.\<close>

lemma fast_loop_ok:
  assumes "j + minlen \<le> length res" "\<forall>s \<in> set srcs. j + minlen \<le> length s" "srcs \<noteq> []" "op = BITOP_NOT \<longrightarrow> tl srcs = []"
    and "\<And>i. j \<le> i \<Longrightarrow> i < j + minlen \<Longrightarrow> res ! i = hd srcs ! i"
  shows "\<exists>m. fast_loop h op srcs minlen j res = Some (j + m, upd j (j + m) (out_byte op srcs) res) \<and> m \<le> minlen"
  using assms
proof (induction h op srcs minlen j res rule: fast_loop.induct)
  case (1 h op srcs minlen j res)
  show ?case
  proof (cases "minlen \<ge> 32")
    case True
    let ?u = "upd j (j + 32) (out_byte op srcs) res"
    have l: "j + 32 \<le> length res" "\<forall>s \<in> set srcs. j + 32 \<le> length s" using True 1(2,3) by auto
    have tl: "s \<in> set srcs" if "s \<in> set (tl srcs)" for s using that 1(4) by (metis list.set_sel(2))
    have ob: "out_byte op srcs i = foldl (\<lambda>out s. byte_op op out (s ! i)) (if op = BITOP_NOT then NOT (res ! i) else res ! i) (tl srcs)"
      if i: "j \<le> i" "i < j + 32" for i
    proof -
      have "byte_of s i = s ! i" if "s \<in> set srcs" for s using l(2) that i by (force simp: byte_of_def)
      moreover have "res ! i = hd srcs ! i" using i True by (intro 1(6)) simp_all
      ultimately have "byte_of (hd srcs) i = res ! i" "\<And>s. s \<in> set (tl srcs) \<Longrightarrow> byte_of s i = s ! i" using 1(4) tl by simp_all
      then show ?thesis unfolding out_byte_def Let_def by (intro foldl_cong) simp_all
    qed
    have step: "(if op = BITOP_NOT then four (not_step h) [j, j + 8, j + 16, j + 24] res else key_steps h op (tl srcs) j res) = Some ?u"
    proof (cases "op = BITOP_NOT")
      case True
      have "four (not_step h) [j, j + 8, j + 16, j + 24] res = Some (upd j (j + 32) (\<lambda>i. NOT (res ! i)) res)"
        by (rule four_ok) (use l word_step_ok(2) [of _ r r for r] in auto)
      moreover have "upd j (j + 32) (\<lambda>i. NOT (res ! i)) res = ?u"
        using True 1(5) ob by (intro nth_equalityI) (simp_all add: nth_upd)
      ultimately show ?thesis using True by simp
    next
      case False
      have "key_steps h op (tl srcs) j res = Some (upd j (j + 32) (\<lambda>i. foldl (\<lambda>out s. byte_op op out (s ! i)) (res ! i) (tl srcs)) res)"
        by (rule key_steps_ok) (use l tl in auto)
      moreover have "upd j (j + 32) (\<lambda>i. foldl (\<lambda>out s. byte_op op out (s ! i)) (res ! i) (tl srcs)) res = ?u"
        using False ob by (intro nth_equalityI) (simp_all add: nth_upd)
      ultimately show ?thesis using False by simp
    qed
    have "j + 32 + (minlen - 32) \<le> length ?u" "\<forall>s \<in> set srcs. j + 32 + (minlen - 32) \<le> length s"
      "\<And>i. j + 32 \<le> i \<Longrightarrow> i < j + 32 + (minlen - 32) \<Longrightarrow> ?u ! i = hd srcs ! i"
      using 1(2,3,6) True by (auto simp: nth_upd)
    from 1(1) [OF True step this(1,2) 1(4,5) this(3)] obtain m where
      m: "fast_loop h op srcs (minlen - 32) (j + 32) ?u = Some (j + 32 + m, upd (j + 32) (j + 32 + m) (out_byte op srcs) ?u)" "m \<le> minlen - 32" by blast
    have "upd (j + 32) (j + 32 + m) (out_byte op srcs) ?u = upd j (j + 32 + m) (out_byte op srcs) res" by (rule upd_upd) simp_all
    then have "fast_loop h op srcs minlen j res = Some (j + (32 + m), upd j (j + (32 + m)) (out_byte op srcs) res)"
      unfolding fast_loop.simps [of h op srcs minlen] step using True m(1) by (simp add: add.assoc)
    then show ?thesis using m(2) True by (intro exI [of _ "32 + m"]) simp
  next
    case False
    then have "fast_loop h op srcs minlen j res = Some (j + 0, upd j (j + 0) (out_byte op srcs) res)" by (simp add: fast_loop.simps)
    then show ?thesis by blast
  qed
qed

lemma byte_loop_ok:
  assumes "j \<le> maxlen" "maxlen = length res"
  shows "byte_loop op srcs maxlen j res = Some (upd j maxlen (out_byte op srcs) res)"
  using assms
proof (induction op srcs maxlen j res rule: byte_loop.induct)
  case (1 op srcs maxlen j res)
  show ?case
  proof (cases "j < maxlen")
    case True
    have w: "wr res j [out_byte op srcs j] = Some (upd j (j + 1) (\<lambda>i. [out_byte op srcs j] ! (i - j)) res)"
      using wr_upd [of j "[out_byte op srcs j]" res] True 1(3) by simp
    have "byte_loop op srcs maxlen (j + 1) (upd j (j + 1) (\<lambda>i. [out_byte op srcs j] ! (i - j)) res) =
        Some (upd (j + 1) maxlen (out_byte op srcs) (upd j (j + 1) (\<lambda>i. [out_byte op srcs j] ! (i - j)) res))"
      by (rule 1(1) [OF True w]) (use True 1(3) in simp_all)
    also have "upd (j + 1) maxlen (out_byte op srcs) (upd j (j + 1) (\<lambda>i. [out_byte op srcs j] ! (i - j)) res) = upd j maxlen (out_byte op srcs) res"
    proof (rule upd_upd)
      fix i assume "j \<le> i" "i < j + 1"
      then have "i = j" by simp
      then show "[out_byte op srcs j] ! (i - j) = out_byte op srcs i" by simp
    qed (use True in simp_all)
    finally show ?thesis using True w by (subst byte_loop.simps) simp
  next
    case False
    then show ?thesis using 1(2,3) by (simp add: byte_loop.simps)
  qed
qed

definition max_length :: "byte list option list \<Rightarrow> nat" where
  "max_length keys = fold (\<lambda>s m. max m (length (key_bytes s))) keys 0"

lemma bitop_result_eq:
  assumes "keys \<noteq> []" "op = BITOP_NOT \<longrightarrow> tl keys = []"
  shows "bitop_result h op keys = Some (max_length keys,
    if max_length keys = 0 then None else Some (map (out_byte op (map key_bytes keys)) [0..<max_length keys]))"
proof -
  define srcs where "srcs = map key_bytes keys"
  obtain mn mx where b: "bit_lens 0 keys 0 0 = (mn, mx)" by (cases "bit_lens 0 keys 0 0") auto
  have mx: "mx = max_length keys" using bit_lens_max [of 0 keys 0 0] b by (simp add: max_length_def)
  have lens: "\<forall>s \<in> set srcs. mn \<le> length s \<and> length s \<le> mx" using bit_lens_bounds [OF b] by (simp add: srcs_def)
  have ne: "srcs \<noteq> []" "op = BITOP_NOT \<longrightarrow> tl srcs = []" using assms by (auto simp: srcs_def map_tl [symmetric])
  have all: "byte_loop op srcs mx j (upd 0 j (out_byte op srcs) res) = Some (map (out_byte op srcs) [0..<mx])"
    if "j \<le> mx" "length res = mx" for j res
  proof -
    have "byte_loop op srcs mx j (upd 0 j (out_byte op srcs) res) = Some (upd j mx (out_byte op srcs) (upd 0 j (out_byte op srcs) res))"
      using that by (intro byte_loop_ok) simp_all
    also have "upd j mx (out_byte op srcs) (upd 0 j (out_byte op srcs) res) = map (out_byte op srcs) [0..<mx]"
      using that by (intro nth_equalityI) (auto simp: nth_upd)
    finally show ?thesis .
  qed
  have k: "(\<lambda>x. case x of None \<Rightarrow> [] | Some s \<Rightarrow> s) = key_bytes" by (rule ext) (simp add: key_bytes_def)
  show ?thesis
  proof (cases "mx = 0")
    case False
    show ?thesis
    proof (cases "mn \<noteq> 0 \<and> length keys \<le> 16")
      case True
      define res where "res = take mn (hd srcs) @ drop mn (replicate mx 0)"
      have h: "mn \<le> length (hd srcs)" "mn \<le> mx" using lens ne(1) le_trans [of mn "length (hd srcs)" mx] by auto
      then have i: "rd (hd srcs) 0 mn = Some (take mn (hd srcs))" "wr (replicate mx 0) 0 (take mn (hd srcs)) = Some res" "length res = mx"
        by (simp_all add: rd_def wr_def res_def)
      from fast_loop_ok [of 0 mn res srcs op h] h i(3) lens ne obtain m where
        m: "fast_loop h op srcs mn 0 res = Some (m, upd 0 m (out_byte op srcs) res)" "m \<le> mn"
        by (auto simp: res_def nth_append)
      show ?thesis using True False b i m all [of m res] h
        by (simp add: bitop_result_def k mx flip: srcs_def)
    next
      case fast: False
      have "byte_loop op srcs mx 0 (replicate mx 0) = Some (map (out_byte op srcs) [0..<mx])" using all [of 0 "replicate mx 0"] by simp
      then show ?thesis using False fast b by (auto simp: bitop_result_def k mx simp flip: srcs_def)
    qed
  qed (use b mx in \<open>simp add: bitop_result_def\<close>)
qed

text \<open>The operation on the bits of the bytes.\<close>

lemma bit_foldl:
  "bit (foldl (byte_op BITOP_AND) x bs) n \<longleftrightarrow> bit x n \<and> (\<forall>b \<in> set bs. bit b n)"
  "bit (foldl (byte_op BITOP_OR) x bs) n \<longleftrightarrow> bit x n \<or> (\<exists>b \<in> set bs. bit b n)"
  "bit (foldl (byte_op BITOP_XOR) x bs) n \<longleftrightarrow> bit x n \<noteq> odd (length (filter (\<lambda>b. bit b n) bs))"
  "foldl (byte_op BITOP_NOT) x bs = x"
  by (induction bs arbitrary: x) (auto simp: byte_op_def bit_and_iff bit_or_iff bit_xor_iff)

lemma bit_out_byte:
  assumes "srcs \<noteq> []" "op = BITOP_NOT \<longrightarrow> tl srcs = []" "n < 8"
  shows "bit (out_byte op srcs j) n \<longleftrightarrow> combine op (map (\<lambda>s. bit (byte_of s j) n) srcs)"
proof -
  obtain s ss where s: "srcs = s # ss" using assms(1) by (cases srcs) auto
  have f: "foldl (\<lambda>out s. byte_op op out (byte_of s j)) x ss = foldl (byte_op op) x (map (\<lambda>s. byte_of s j) ss)" for op x
    by (simp add: foldl_map)
  show ?thesis
    using assms(2,3)
    by (cases op) (simp_all add: s out_byte_def Let_def f bit_foldl bit_not_iff list_all_iff list_ex_iff filter_map comp_def)
qed

text \<open>
  C4: BITOP, which works on words of 64 bits as far as at most sixteen strings reach and on single bytes
  from there, gives the string as long as the longest whose bits are the conjunction, disjunction, parity or
  negation of the bits of the strings, absent keys and the missing ends of shorter strings being zero, on
  hosts of both byte orders, and reads no byte outside a string.
\<close>

theorem bitop_bits:
  assumes "keys \<noteq> []" "op = BITOP_NOT \<longrightarrow> length keys = 1"
  shows "\<exists>res. bitop_result h op keys = Some (max_length keys, if max_length keys = 0 then None else Some res) \<and>
    length res = max_length keys \<and>
    (\<forall>n < 8 * max_length keys. bit_at res n = combine op (map (\<lambda>k. bit_at (key_bytes k) n) keys))"
proof -
  define srcs where "srcs = map key_bytes keys"
  define res where "res = map (out_byte op srcs) [0..<max_length keys]"
  have t: "op = BITOP_NOT \<longrightarrow> tl keys = []" using assms(2) by (cases keys) auto
  have ne: "srcs \<noteq> []" "op = BITOP_NOT \<longrightarrow> tl srcs = []" using assms(1) t by (auto simp: srcs_def map_tl [symmetric])
  have "bit_at res n = combine op (map (\<lambda>k. bit_at (key_bytes k) n) keys)" if n: "n < 8 * max_length keys" for n
  proof -
    have "n div 8 < max_length keys" using n by (simp add: less_mult_imp_div_less)
    then have "bit_at res n = bit (out_byte op srcs (n div 8)) (7 - n mod 8)" by (simp add: bit_at_def res_def)
    also have "\<dots> = combine op (map (\<lambda>s. bit (byte_of s (n div 8)) (7 - n mod 8)) srcs)" by (rule bit_out_byte [OF ne]) simp
    also have "map (\<lambda>s. bit (byte_of s (n div 8)) (7 - n mod 8)) srcs = map (\<lambda>k. bit_at (key_bytes k) n) keys"
      by (auto simp: srcs_def bit_at_def byte_of_def)
    finally show ?thesis .
  qed
  moreover have "length res = max_length keys" by (simp add: res_def)
  ultimately show ?thesis using bitop_result_eq [OF assms(1) t, of h] by (intro exI [of _ res]) (simp add: res_def srcs_def)
qed

theorem bitop_bits_witness:
  "\<exists>res. bitop_result \<lparr>big_endian = False, junk = \<lambda>_. 0\<rparr> BITOP_XOR [Some (replicate 40 5), None, Some [1]] = Some (40, Some res) \<and>
    bit_at res 7 = False \<and> bit_at res 13 = True"
proof -
  let ?k = "[Some (replicate 40 5), None, Some [1 :: byte]]"
  have m: "max_length ?k = 40" by (simp add: max_length_def)
  obtain res where r: "bitop_result \<lparr>big_endian = False, junk = \<lambda>_. 0\<rparr> BITOP_XOR ?k = Some (40, Some res)"
    "\<forall>n < 320. bit_at res n = combine BITOP_XOR (map (\<lambda>k. bit_at (key_bytes k) n) ?k)"
    using bitop_bits [of ?k BITOP_XOR] m by auto
  have "combine BITOP_XOR (map (\<lambda>k. bit_at (key_bytes k) 7) ?k) = False" "combine BITOP_XOR (map (\<lambda>k. bit_at (key_bytes k) 13) ?k) = True"
    by code_simp+
  then show ?thesis using r by auto
qed

end
