(* ===== verification/Bitcmds.thy ===== *)
theory Bitcmds
  imports Keycmds Bitops
begin

text \<open>
  The commands of \<open>redis/src/bitops.c\<close>: SETBIT, GETBIT, BITCOUNT and BITOP as functions of the server, the abstract
  commands on the bits of strings, and the proof that the former meet the latter.  BITOP holds the decoded objects of
  its keys while it looks further keys up, so the invariant is carried with the references it holds.
\<close>

section \<open>The commands\<close>

text \<open>The host's byte order does not change what they do (\<open>popcount_ones\<close>, \<open>bitop_bits\<close>); it is a little endian one.\<close>

definition x86 :: host where
  "x86 = \<lparr>big_endian = False, junk = \<lambda>_. 0\<rparr>"

definition getBitOffsetFromArgument :: "nat \<Rightarrow> dserver \<Rightarrow> (int option \<times> dserver) option" where
  "getBitOffsetFromArgument a s = do {
     let err = ''bit offset is not an integer or out of range'';
     (v, s) \<leftarrow> getLongLongFromObjectOrReply (Some a) (Some err) s;
     case v of
       None \<Rightarrow> Some (None, s)
     | Some loffset \<Rightarrow>
         if loffset < 0 \<or> drop_bit 3 (loffset mod 2 ^ 64) \<ge> 512 * 1024 * 1024
         then Some (None, d_reply [ReplyError err] s)
         else Some (Some loffset, s)
   }"

text \<open>The new byte and the old bit.\<close>

definition put_bit :: "int \<Rightarrow> nat \<Rightarrow> int \<Rightarrow> int" where
  "put_bit byteval pos on = (byteval AND NOT (push_bit pos 1)) OR push_bit pos (on AND 1)"

definition setbitCommand :: "dserver \<Rightarrow> dserver option" where
  "setbitCommand s = do {
     let err = ''bit is not an integer or out of range'';
     a2 \<leftarrow> arg 2 s;
     (off, s) \<leftarrow> getBitOffsetFromArgument a2 s;
     case off of
       None \<Rightarrow> Some s
     | Some bitoffset \<Rightarrow> do {
         a3 \<leftarrow> arg 3 s;
         (v, s) \<leftarrow> getLongFromObjectOrReply (Some a3) (Some err) s;
         case v of
           None \<Rightarrow> Some s
         | Some on \<Rightarrow>
             if on AND NOT 1 \<noteq> 0 then Some (d_reply [ReplyError err] s)
             else do {
               k \<leftarrow> arg_raw 1 s;
               (ob, s) \<leftarrow> lookupKeyWrite (d_db s) k s;
               (target, s) \<leftarrow> (case ob of
                   None \<Rightarrow> do {
                     let (n, s) = new_obj (ENC_RAW []) s;
                     s \<leftarrow> dbAdd (d_db s) k (VStr n) s;
                     Some (Some n, s)
                   }
                 | Some ov \<Rightarrow>
                     (case checkType ov s of
                         (None, s) \<Rightarrow> Some (None, s)
                       | (Some a, s) \<Rightarrow> do { (n, s) \<leftarrow> unshare (d_db s) k a s; Some (Some n, s) }));
               case target of
                 None \<Rightarrow> Some s
               | Some n \<Rightarrow> do {
                   let byte = nat (drop_bit 3 bitoffset);
                   b \<leftarrow> raw s n;
                   b \<leftarrow> sds_growzero s b (byte + 1);
                   p \<leftarrow> rd b byte 1;
                   let byteval = uint (hd p);
                   let pos = 7 - nat (bitoffset AND 7);
                   let bitval = byteval AND push_bit pos 1;
                   b \<leftarrow> wr b byte [word_of_int (put_bit byteval pos on)];
                   s \<leftarrow> set_raw n b s;
                   let s = bump 1 (signalModifiedKey (d_db s) k s);
                   Some (d_reply [Shared (if bitval \<noteq> 0 then ''cone'' else ''czero'')] s)
                 }
             }
       }
   }"

definition getbitCommand :: "dserver \<Rightarrow> dserver option" where
  "getbitCommand s = do {
     a2 \<leftarrow> arg 2 s;
     (off, s) \<leftarrow> getBitOffsetFromArgument a2 s;
     case off of
       None \<Rightarrow> Some s
     | Some bitoffset \<Rightarrow> do {
         k \<leftarrow> arg_raw 1 s;
         (ob, s) \<leftarrow> lookupKeyReadOrReply (d_db s) k (Shared ''czero'') s;
         case ob of
           None \<Rightarrow> Some s
         | Some ov \<Rightarrow>
             (case checkType ov s of
                 (None, s) \<Rightarrow> Some s
               | (Some a, s) \<Rightarrow> do {
                   str \<leftarrow> str_of a s;
                   let byte = nat (drop_bit 3 bitoffset);
                   let pos = 7 - nat (bitoffset AND 7);
                   bitval \<leftarrow> (if byte < length str then map_option (\<lambda>p. uint (hd p) AND push_bit pos 1) (rd str byte 1) else Some 0);
                   Some (d_reply [Shared (if bitval \<noteq> 0 then ''cone'' else ''czero'')] s)
                 })
       }
   }"

definition bitcountCommand :: "dserver \<Rightarrow> dserver option" where
  "bitcountCommand s = do {
     k \<leftarrow> arg_raw 1 s;
     (ob, s) \<leftarrow> lookupKeyReadOrReply (d_db s) k (Shared ''czero'') s;
     case ob of
       None \<Rightarrow> Some s
     | Some ov \<Rightarrow>
         (case checkType ov s of
             (None, s) \<Rightarrow> Some s
           | (Some a, s) \<Rightarrow> do {
               p \<leftarrow> str_of a s;
               let strlen = int (length p);
               (range, s) \<leftarrow> (if length (d_argv s) = 4 then do {
                   a2 \<leftarrow> arg 2 s;
                   (v, s) \<leftarrow> getLongFromObjectOrReply (Some a2) None s;
                   case v of
                     None \<Rightarrow> Some (None, s)
                   | Some start \<Rightarrow> do {
                       a3 \<leftarrow> arg 3 s;
                       (w, s) \<leftarrow> getLongFromObjectOrReply (Some a3) None s;
                       case w of
                         None \<Rightarrow> Some (None, s)
                       | Some en \<Rightarrow> Some (Some (range_ends strlen start en), s)
                     }
                 }
                 else if length (d_argv s) = 2 then Some (Some (0, llong (strlen - 1)), s)
                 else Some (None, d_reply [Shared ''syntaxerr''] s));
               case range of
                 None \<Rightarrow> Some s
               | Some (start, en) \<Rightarrow>
                   if start > en then Some (d_reply [Shared ''czero''] s)
                   else do {
                     n \<leftarrow> popcount x86 (drop (nat start) p) (llong (en - start + 1));
                     Some (d_reply [LongLong n] s)
                   }
             })
   }"

text \<open>The operation: the first letter is tested before the comparison of the whole name, up to a zero byte.\<close>

definition bitop_name :: "byte list \<Rightarrow> bitop option" where
  "bitop_name opname =
     (let p = opname @ [0];
          named = (\<lambda>n. (p ! 0 = hd n \<or> p ! 0 = hd n - 32) \<and> strcaseeq p (n @ [0]))
      in if named [97, 110, 100] then Some BITOP_AND
         else if named [111, 114] then Some BITOP_OR
         else if named [120, 111, 114] then Some BITOP_XOR
         else if named [110, 111, 116] then Some BITOP_NOT
         else None)"

definition held :: "nat option list \<Rightarrow> nat list" where
  "held objs = concat (map (\<lambda>x. case x of None \<Rightarrow> [] | Some d \<Rightarrow> [d]) objs)"

text \<open>The decoded objects of the keys, which are held until the operation is done.\<close>

primrec bitop_objects :: "nat list \<Rightarrow> nat option list \<Rightarrow> dserver \<Rightarrow> (nat option list option \<times> dserver) option" where
  "bitop_objects [] objects s = Some (Some objects, s)"
| "bitop_objects (a # as) objects s = do {
     k \<leftarrow> raw s a;
     (v, s) \<leftarrow> lookupKeyRead (d_db s) k s;
     case v of
       None \<Rightarrow> bitop_objects as (objects @ [None]) s
     | Some ov \<Rightarrow>
         (case checkType ov s of
             (None, s) \<Rightarrow> do { s \<leftarrow> decr_all (rev (held objects)) s; Some (None, s) }
           | (Some x, s) \<Rightarrow> do { (d, s) \<leftarrow> decoded x s; bitop_objects as (objects @ [Some d]) s })
   }"

primrec buffers :: "nat option list \<Rightarrow> dserver \<Rightarrow> byte list option list option" where
  "buffers [] s = Some []"
| "buffers (x # xs) s = do {
     b \<leftarrow> (case x of None \<Rightarrow> Some None | Some d \<Rightarrow> map_option Some (raw s d));
     bs \<leftarrow> buffers xs s;
     Some (b # bs)
   }"

definition bitopCommand :: "dserver \<Rightarrow> dserver option" where
  "bitopCommand s = do {
     opname \<leftarrow> arg_raw 1 s;
     case bitop_name opname of
       None \<Rightarrow> Some (d_reply [Shared ''syntaxerr''] s)
     | Some op \<Rightarrow>
         if op = BITOP_NOT \<and> length (d_argv s) \<noteq> 4
         then Some (d_reply [ReplyError ''BITOP NOT must be called with a single source key.''] s)
         else do {
           (objs, s) \<leftarrow> bitop_objects (drop 3 (d_argv s)) [] s;
           case objs of
             None \<Rightarrow> Some s
           | Some objects \<Rightarrow> do {
               src \<leftarrow> buffers objects s;
               (maxlen, res) \<leftarrow> bitop_result x86 op src;
               s \<leftarrow> decr_all (held objects) s;
               target \<leftarrow> arg_raw 2 s;
               s \<leftarrow> (case res of
                   Some b \<Rightarrow>
                     if maxlen > d_alloc s then None
                     else do {
                       let (n, s) = new_obj (ENC_RAW b) s;
                       s \<leftarrow> setKey (d_db s) target (VStr n) s;
                       decr_ref n s
                     }
                 | None \<Rightarrow> do {
                     (deleted, s) \<leftarrow> dbDelete (d_db s) target s;
                     Some (if deleted then signalModifiedKey (d_db s) target s else s)
                   });
               Some (d_reply [LongLong (int maxlen)] (bump 1 s))
             }
         }
   }"

section \<open>The abstract commands\<close>

definition off_err :: reply where
  "off_err = ReplyError ''bit offset is not an integer or out of range''"

definition bit_err :: reply where
  "bit_err = ReplyError ''bit is not an integer or out of range''"

text \<open>A bit set or cleared, in a string grown to hold it.\<close>

definition with_bit :: "nat \<Rightarrow> bool \<Rightarrow> byte list \<Rightarrow> byte list" where
  "with_bit n x b =
     (let b = b @ replicate (n div 8 + 1 - length b) 0; i = n div 8; m = 7 - n mod 8
      in b[i := if x then set_bit m (b ! i) else unset_bit m (b ! i)])"

definition bit_offset :: "byte list \<Rightarrow> nat option" where
  "bit_offset off = (case num off of None \<Rightarrow> None | Some i \<Rightarrow> if 0 \<le> i \<and> i < 2 ^ 32 then Some (nat i) else None)"

definition sp_setbit :: "ctx \<Rightarrow> key \<Rightarrow> byte list \<Rightarrow> byte list \<Rightarrow> contents \<Rightarrow> outcome" where
  "sp_setbit c k off on L =
     (let p = (c_db c, k);
          store = (\<lambda>n x b e. (L(p \<mapsto> (AStr (with_bit n x b), e)), [Shared (if bit_at b n then ''cone'' else ''czero'')],
            [KeyModified (c_db c) k], 1))
      in case bit_offset off of
           None \<Rightarrow> sp_err off_err L
         | Some n \<Rightarrow>
             if num on \<noteq> Some 0 \<and> num on \<noteq> Some 1 then sp_err bit_err L
             else (case L p of
                 None \<Rightarrow> store n (num on = Some 1) [] None
               | Some (AAgg _ _, _) \<Rightarrow> sp_err (Shared ''wrongtypeerr'') L
               | Some (AStr b, e) \<Rightarrow> store n (num on = Some 1) b e))"

definition sp_getbit :: "ctx \<Rightarrow> key \<Rightarrow> byte list \<Rightarrow> contents \<Rightarrow> outcome" where
  "sp_getbit c k off L =
     (case bit_offset off of
        None \<Rightarrow> sp_err off_err L
      | Some n \<Rightarrow>
          (case L (c_db c, k) of
             Some (AAgg _ _, _) \<Rightarrow> sp_err (Shared ''wrongtypeerr'') L
           | Some (AStr b, _) \<Rightarrow> sp_err (Shared (if bit_at b n then ''cone'' else ''czero'')) L
           | None \<Rightarrow> sp_err (Shared ''czero'') L))"

definition sp_bitcount :: "ctx \<Rightarrow> byte list list \<Rightarrow> contents \<Rightarrow> outcome" where
  "sp_bitcount c as L =
     (let total = (\<lambda>b. if b = [] then Shared ''czero'' else LongLong (int (ones_in b)))
      in case L (c_db c, as ! 1) of
           None \<Rightarrow> sp_err (Shared ''czero'') L
         | Some (AAgg _ _, _) \<Rightarrow> sp_err (Shared ''wrongtypeerr'') L
         | Some (AStr b, _) \<Rightarrow>
             if length as = 2 then sp_err (total b) L
             else if length as = 4 then
               (case (num (as ! 2), num (as ! 3)) of
                  (Some i, Some j) \<Rightarrow> sp_err (total (slice i j b)) L
                | _ \<Rightarrow> sp_err not_int L)
             else sp_err (Shared ''syntaxerr'') L)"

section \<open>Bits of a string\<close>

lemma length_with_bit: "length (with_bit n x b) = max (length b) (n div 8 + 1)"
  by (simp add: with_bit_def Let_def)

lemma bit_at_with_bit: "bit_at (with_bit n x b) m \<longleftrightarrow> (if m = n then x else bit_at b m)"
proof -
  define c where "c = b @ replicate (n div 8 + 1 - length b) 0"
  have same: "bit_at c m = bit_at b m" for m
    by (auto simp: bit_at_def c_def nth_append)
  have i: "n div 8 < length c" by (simp add: c_def)
  have w: "with_bit n x b = c[n div 8 := if x then set_bit (7 - n mod 8) (c ! (n div 8)) else unset_bit (7 - n mod 8) (c ! (n div 8))]"
    by (simp add: with_bit_def c_def Let_def)
  show ?thesis
  proof (cases "m div 8 = n div 8")
    case True
    have "m mod 8 < 8" "n mod 8 < 8" by simp_all
    then have "7 - m mod 8 = 7 - n mod 8 \<longleftrightarrow> m mod 8 = n mod 8" by linarith
    moreover have "m = n \<longleftrightarrow> m mod 8 = n mod 8" using True by (metis div_mod_decomp)
    ultimately have e: "7 - m mod 8 = 7 - n mod 8 \<longleftrightarrow> m = n" by simp
    have "bit_at (with_bit n x b) m = (if m = n then x else bit_at c m)"
      using True i e by (auto simp: w bit_at_def bit_set_bit_iff bit_unset_bit_iff)
    then show ?thesis using same by simp
  next
    case False
    then have "m \<noteq> n" "bit_at (with_bit n x b) m = bit_at c m" by (auto simp: w bit_at_def)
    then show ?thesis using same by simp
  qed
qed

text \<open>The byte that SETBIT writes, and the bit that it returns.\<close>

lemma put_bit_word:
  fixes v :: byte
  assumes "m < 8" "on = 0 \<or> on = 1"
  shows "word_of_int (put_bit (uint v) m on) = (if on = 1 then set_bit m v else unset_bit m v)"
    "uint v AND push_bit m 1 \<noteq> 0 \<longleftrightarrow> bit v m"
proof -
  show "word_of_int (put_bit (uint v) m on) = (if on = 1 then set_bit m v else unset_bit m v)"
    using assms
    by (intro bit_word_eqI)
      (auto simp: put_bit_def bit_word_of_int_iff bit_or_iff bit_and_iff bit_not_iff bit_push_bit_iff bit_uint_iff bit_set_bit_iff bit_unset_bit_iff bit_1_iff bit_exp_iff)
  have "uint v AND push_bit m 1 = (if bit v m then push_bit m 1 else 0)"
    using assms by (intro bit_eqI) (auto simp: bit_and_iff bit_push_bit_iff bit_uint_iff bit_1_iff bit_exp_iff)
  then show "uint v AND push_bit m 1 \<noteq> 0 \<longleftrightarrow> bit v m" by simp
qed

lemma bit_address:
  assumes "0 \<le> i"
  shows "nat (drop_bit 3 i) = nat i div 8" "7 - nat (i AND 7) = 7 - nat i mod 8"
proof -
  show "nat (drop_bit 3 i) = nat i div 8" using assms by (simp add: drop_bit_eq_div nat_div_distrib)
  have "i AND 7 = take_bit 3 i" by (simp add: take_bit_eq_mask mask_eq_exp_minus_1)
  then have "i AND 7 = i mod 8" by (simp add: take_bit_eq_mod)
  then show "7 - nat (i AND 7) = 7 - nat i mod 8" using assms by (simp add: nat_mod_distrib)
qed

lemma getLongLong_msg:
  assumes "strs s a = Some b"
  shows "getLongLongFromObjectOrReply (Some a) (Some m) s =
    Some (case num b of Some n \<Rightarrow> (Some n, s) | None \<Rightarrow> (None, d_reply [ReplyError m] s))"
proof -
  obtain ob where ob: "obj_at s a = Some ob" "b = str_bytes (o_str ob)" using assms by (auto simp: strs_def enc_def)
  have "num b = map_option sint (getLongLongFromObject (Some (o_str ob)))" unfolding num_def ob(2) using getll_str by metis
  then show ?thesis using ob(1) by (cases "getLongLongFromObject (Some (o_str ob))") (simp_all add: getLongLongFromObjectOrReply_def)
qed

lemma getLong_msg:
  assumes "strs s a = Some b"
  shows "getLongFromObjectOrReply (Some a) (Some m) s =
    Some (case num b of Some n \<Rightarrow> (Some n, s) | None \<Rightarrow> (None, d_reply [ReplyError m] s))"
  using num_range [of b] by (auto simp: getLongFromObjectOrReply_def getLongLong_msg [OF assms] split: option.split)

lemma getBitOffset_ok:
  assumes "strs s a = Some off"
  shows "getBitOffsetFromArgument a s = Some (case bit_offset off of Some n \<Rightarrow> (Some (int n), s) | None \<Rightarrow> (None, d_reply [off_err] s))"
proof (cases "num off")
  case None
  then show ?thesis using assms by (simp add: getBitOffsetFromArgument_def getLongLong_msg bit_offset_def off_err_def)
next
  case (Some i)
  have r: "- (2 ^ 63) \<le> i" "i \<le> 2 ^ 63 - 1" using num_range [OF Some] by auto
  have "drop_bit 3 (i mod 2 ^ 64) \<ge> 512 * 1024 * 1024 \<longleftrightarrow> i \<ge> 2 ^ 32" if "0 \<le> i"
  proof -
    have "i mod 2 ^ 64 = i" using that r by (intro mod_pos_pos_trivial) auto
    then have "drop_bit 3 (i mod 2 ^ 64) = i div 8" by (simp add: drop_bit_eq_div)
    then show ?thesis by (auto simp: le_div_geq) 
  qed
  then show ?thesis using assms Some
    by (auto simp: getBitOffsetFromArgument_def getLongLong_msg bit_offset_def off_err_def)
qed

section \<open>SETBIT and GETBIT\<close>

text \<open>The end of SETBIT, on the object that is modified.\<close>

lemma setbit_store:
  assumes e: "ev s u [] [] 0" and b: "raw u n = Some b" and off: "i < 2 ^ 32" and alloc: "2 ^ 29 \<le> d_alloc s" and on: "on = 0 \<or> on = 1"
    and len: "length b \<le> 2 ^ 29"
    and m: "\<forall>b'. length b' \<le> 2 ^ 29 \<longrightarrow> (\<exists>s'. set_raw n b' u = Some s' \<and> kv_ok zero s' \<and> ev s s' [] [] 0 \<and> live s' = L((d_db s, k) \<mapsto> (AStr b', w)) \<and> raw s' n = Some b')"
  shows "meets s (do {
       let byte = nat (drop_bit 3 (int i));
       b \<leftarrow> raw u n;
       b \<leftarrow> sds_growzero u b (byte + 1);
       p \<leftarrow> rd b byte 1;
       let byteval = uint (hd p);
       let pos = 7 - nat (int i AND 7);
       let bitval = byteval AND push_bit pos 1;
       b \<leftarrow> wr b byte [word_of_int (put_bit byteval pos on)];
       s \<leftarrow> set_raw n b u;
       let s = bump 1 (signalModifiedKey (d_db s) k s);
       Some (d_reply [Shared (if bitval \<noteq> 0 then ''cone'' else ''czero'')] s)
     })
    (L((d_db s, k) \<mapsto> (AStr (with_bit i (on = 1) b), w)), [Shared (if bit_at b i then ''cone'' else ''czero'')], [KeyModified (d_db s) k], 1)"
proof -
  define c where "c = b @ replicate (i div 8 + 1 - length b) 0"
  define v where "v = c ! (i div 8)"
  have i: "i div 8 < 2 ^ 29" "i div 8 < length c" using off by (simp_all add: c_def less_mult_imp_div_less)
  have g: "sds_growzero u b (i div 8 + 1) = Some c" using alloc i(1) ev_env [OF e] by (simp add: sds_growzero_def c_def)
  have p: "rd c (i div 8) 1 = Some [v]" using i(2) by (simp add: rd_def v_def take_Suc_conv_app_nth [of 0 "drop (i div 8) c", simplified])
  have pos: "7 - i mod 8 < 8" by simp
  have "wr c (i div 8) [word_of_int (put_bit (uint v) (7 - i mod 8) on)] = Some (with_bit i (on = 1) b)"
  proof -
    have "with_bit i (on = 1) b = c[i div 8 := if on = 1 then set_bit (7 - i mod 8) v else unset_bit (7 - i mod 8) v]"
      by (simp add: with_bit_def c_def v_def Let_def)
    then show ?thesis unfolding put_bit_word(1) [OF pos on] using i(2) by (simp add: wr_def upd_conv_take_nth_drop)
  qed
  note wr = this
  have "bit v (7 - i mod 8) = bit_at b i" by (auto simp: v_def c_def bit_at_def nth_append)
  then have r: "uint v AND push_bit (7 - i mod 8) 1 \<noteq> 0 \<longleftrightarrow> bit_at b i" using put_bit_word(2) [OF pos on, of v] by simp
  have "length (with_bit i (on = 1) b) \<le> 2 ^ 29" using len i(1) by (simp add: length_with_bit)
  with m obtain x where x: "set_raw n (with_bit i (on = 1) b) u = Some x" "kv_ok zero x" "ev s x [] [] 0"
    "live x = L((d_db s, k) \<mapsto> (AStr (with_bit i (on = 1) b), w))" by blast
  let ?r = "Shared (if bit_at b i then ''cone'' else ''czero'')"
  have "ev s (d_reply [?r] (bump 1 (signalModifiedKey (d_db s) k x))) [?r] [KeyModified (d_db s) k] 1"
    using ev_more(1) [OF ev_more(2) [OF ev_more(3) [OF x(3), of "d_db s" k], of 1], of "[?r]"] by simp
  then show ?thesis
    using x b g p wr r ev_env [OF x(3)] bit_address [of "int i"]
    by (intro meetsI [of _ "d_reply [?r] (bump 1 (signalModifiedKey (d_db s) k x))"]) (simp_all add: Let_def)
qed

lemma on_bit: "on AND - 2 = 0 \<longleftrightarrow> on = 0 \<or> on = (1 :: int)"
proof -
  have "on AND NOT 1 = 2 * drop_bit 1 on"
    by (rule bit_eqI) (auto simp: bit_and_iff bit_not_iff bit_double_iff bit_drop_bit_eq bit_1_iff)
  then have "on AND - 2 = 2 * (on div 2)" by (simp add: drop_bit_eq_div)
  then show ?thesis by presburger
qed

lemma setbit_ok:
  assumes ok: "kv_ok zero s" and as: "raw_args [c, k, off, on] s" and alloc: "2 ^ 29 \<le> d_alloc s"
  shows "meets s (setbitCommand s) (sp_setbit (ctx_of s) k off on (live s))"
proof -
  have k: "arg_raw 1 s = Some k" "arg 2 s = Some (d_argv s ! 2)" "strs s (d_argv s ! 2) = Some off" "arg 3 s = Some (d_argv s ! 3)" "strs s (d_argv s ! 3) = Some on"
    using raw_args_nth(4) [OF as, of 1] raw_args_nth(1,6) [OF as, of 2] raw_args_nth(1,6) [OF as, of 3] by simp_all
  note es = meets_sp_err [OF ok refl ev_refl]
  show ?thesis
  proof (cases "bit_offset off")
    case None
    then show ?thesis using k es [of off_err] by (simp add: setbitCommand_def sp_setbit_def getBitOffset_ok)
  next
    case (Some i)
    then have i: "i < 2 ^ 32" by (auto simp: bit_offset_def split: option.splits if_splits)
    show ?thesis
    proof (cases "num on = Some 0 \<or> num on = Some 1")
      case False
      then show ?thesis using k Some es [of bit_err]
        by (cases "num on") (auto simp: setbitCommand_def sp_setbit_def getBitOffset_ok getLong_msg bit_err_def on_bit)
    next
      case True
      then obtain v where v: "num on = Some v" "v = 0 \<or> v = 1" by auto
      obtain ov t where t: "lookupKeyWrite (d_db s) k s = Some (ov, t)" "kv_ok zero t" "kv_step s t" "live t = live s" "found (d_db s) k ov t"
        "ev s t [] [] 0" "args t = args s" "d_argv t = d_argv s" "ctx_of t = ctx_of s" "d_db t = d_db s"
        by (rule lookup_write [OF ok, of "d_db s" k])
      note e = meets_sp_err [OF t(2,4,6)]
      have lift: "\<forall>b'. length b' \<le> 2 ^ 29 \<longrightarrow> (\<exists>s'. set_raw n b' u = Some s' \<and> kv_ok zero s' \<and> ev s s' [] [] 0 \<and> live s' = (live s)((d_db s, k) \<mapsto> (AStr b', w)) \<and> raw s' n = Some b')"
        if "\<forall>b'. length b' \<le> 2 ^ 29 \<longrightarrow> (\<exists>s'. set_raw n b' u = Some s' \<and> kv_ok zero s' \<and> ev t s' [] [] 0 \<and> live s' = (live t)((d_db s, k) \<mapsto> (AStr b', w)) \<and> raw s' n = Some b')" for n u w
        using that ev_quiet [OF t(6)] t(4) by metis
      show ?thesis
        using t(2,5)
      proof (cases rule: found_cases)
        case Absent
        have "d_db s < d_dbnum t" using kv_db [OF t(2)] t(10) by simp
        from fresh_ok [OF t(2) Absent(3,4) this arg_small [OF ok k(1)]] obtain n u w where
          u: "new_obj (ENC_RAW []) t = (n, u)" "d_db u = d_db t" "dbAdd (d_db s) k (VStr n) u = Some w" "raw w n = Some []" "ev t w [] [] 0"
          and m: "\<forall>b'. length b' \<le> 2 ^ 29 \<longrightarrow> (\<exists>s'. set_raw n b' w = Some s' \<and> kv_ok zero s' \<and> ev t s' [] [] 0 \<and> live s' = (live t)((d_db s, k) \<mapsto> (AStr b', None)) \<and> raw s' n = Some b')"
          by blast
        note st = setbit_store [OF ev_quiet [OF t(6) u(5)] u(4) i alloc v(2) _ lift [OF m]]
        have sp: "sp_setbit (ctx_of s) k off on (live s) = ((live s)((d_db s, k) \<mapsto> (AStr (with_bit i (v = 1) []), None)),
            [Shared (if bit_at [] i then ''cone'' else ''czero'')], [KeyModified (d_db s) k], 1)"
          using Some v Absent t(4) by (auto simp: sp_setbit_def Let_def)
        show ?thesis unfolding sp using st k Some v t(1,10) u Absent
          by (simp add: setbitCommand_def getBitOffset_ok getLong_msg on_bit)
      next
        case (String a b w)
        have nd: "\<not> dead t w" using t(5) String by (simp add: found_def)
        from modify_ok [OF t(2) String(5,3,4) nd] obtain n u where u: "unshare (d_db s) k a t = Some (n, u)" "raw u n = Some b" "ev t u [] [] 0" "d_db u = d_db t"
          and m: "\<forall>b'. length b' \<le> 2 ^ 29 \<longrightarrow> (\<exists>s'. set_raw n b' u = Some s' \<and> kv_ok zero s' \<and> ev t s' [] [] 0 \<and> live s' = (live t)((d_db s, k) \<mapsto> (AStr b', w)) \<and> raw s' n = Some b')"
          by blast
        have "length b \<le> 2 ^ 29" using small_strs [OF t(2) String(3)] by simp
        note st = setbit_store [OF ev_quiet [OF t(6) u(3)] u(2) i alloc v(2) this lift [OF m]]
        have sp: "sp_setbit (ctx_of s) k off on (live s) = ((live s)((d_db s, k) \<mapsto> (AStr (with_bit i (v = 1) b), w)),
            [Shared (if bit_at b i then ''cone'' else ''czero'')], [KeyModified (d_db s) k], 1)"
          using Some v String t(4) by (auto simp: sp_setbit_def Let_def)
        show ?thesis unfolding sp using st k Some v t(1,10) u String
          by (simp add: setbitCommand_def getBitOffset_ok getLong_msg on_bit)
      next
        case (Other ty j w)
        then show ?thesis using k Some v t e by (auto simp: setbitCommand_def sp_setbit_def getBitOffset_ok getLong_msg on_bit)
      qed
    qed
  qed
qed

lemma getbit_ok:
  assumes ok: "kv_ok zero s" and as: "raw_args [c, k, off] s"
  shows "meets s (getbitCommand s) (sp_getbit (ctx_of s) k off (live s))"
proof -
  have k: "arg_raw 1 s = Some k" "arg 2 s = Some (d_argv s ! 2)" "strs s (d_argv s ! 2) = Some off"
    using raw_args_nth(4) [OF as, of 1] raw_args_nth(1,6) [OF as, of 2] by simp_all
  show ?thesis
  proof (cases "bit_offset off")
    case None
    then show ?thesis using k meets_sp_err [OF ok refl ev_refl, of off_err] by (simp add: getbitCommand_def sp_getbit_def getBitOffset_ok)
  next
    case (Some i)
    obtain ov t where t: "lookupKeyRead (d_db s) k s = Some (ov, t)" "kv_ok zero t" "live t = live s" "found (d_db s) k ov t" "ev s t [] [] 0"
      by (rule lookup_read [OF ok, of "d_db s" k])
    note e = meets_sp_err [OF t(2,3,5)]
    show ?thesis
      using t(2,4)
    proof (cases rule: found_cases)
      case Absent
      then show ?thesis using t e k Some by (simp add: getbitCommand_def lookupKeyReadOrReply_def sp_getbit_def getBitOffset_ok)
    next
      case (Other ty n w)
      then show ?thesis using t e k Some by (simp add: getbitCommand_def lookupKeyReadOrReply_def sp_getbit_def getBitOffset_ok)
    next
      case (String a b w)
      have "(uint (b ! (i div 8)) AND push_bit (7 - i mod 8) 1 \<noteq> 0) = bit_at b i" if "i div 8 < length b"
        using that put_bit_word(2) [of "7 - i mod 8" 0 "b ! (i div 8)"] by (simp add: bit_at_def)
      moreover have "rd b (i div 8) 1 = Some [b ! (i div 8)]" if "i div 8 < length b"
        using that by (simp add: rd_def take_Suc_conv_app_nth [of 0 "drop (i div 8) b", simplified])
      moreover have "bit_at b i \<Longrightarrow> i div 8 < length b" by (simp add: bit_at_def)
      ultimately have "getbitCommand s = Some (d_reply [Shared (if bit_at b i then ''cone'' else ''czero'')] t)"
        using t(1) k Some String bit_address [of "int i"]
        by (cases "i div 8 < length b") (auto simp: getbitCommand_def lookupKeyReadOrReply_def getBitOffset_ok str_of_strs)
      then show ?thesis using e Some String t(3) by (simp add: sp_getbit_def)
    qed
  qed
qed

section \<open>BITCOUNT\<close>

text \<open>The count between two ends that are in the string.\<close>

lemma count_slice:
  assumes "length b \<le> 2 ^ 29" "x' = (if x < 0 then max 0 (int (length b) + x) else x)"
    "y' = min (if y < 0 then max 0 (int (length b) + y) else y) (int (length b) - 1)"
  shows "if y' < x' then slice x y b = [] else slice x y b \<noteq> [] \<and> popcount h (drop (nat x') b) (llong (y' - x' + 1)) = Some (int (ones_in (slice x y b)))"
proof -
  define n where "n = int (length b)"
  have sl: "slice x y b = take (nat (y' - x' + 1)) (drop (nat x') b)" by (simp add: slice_def assms(2,3) Let_def)
  have p: "0 \<le> x'" "y' \<le> n - 1" "n \<le> 2 ^ 29" using assms by (auto simp: n_def)
  show ?thesis
  proof (cases "y' < x'")
    case False
    then have l: "llong (y' - x' + 1) = y' - x' + 1" using p by (intro llong_small) auto
    have "y' - x' + 1 \<le> int (length (drop (nat x') b))" using p False by (simp add: n_def)
    then show ?thesis using popcount_count [of "y' - x' + 1" "drop (nat x') b" h] False l p by (simp add: sl n_def)
  qed (simp add: sl)
qed

lemma bitcount_ok:
  assumes ok: "kv_ok zero s" and as: "raw_args as s" "2 \<le> length as"
    and fit: "length as = 4 \<Longrightarrow> case num (as ! 3) of None \<Rightarrow> True | Some n \<Rightarrow> n < 2 ^ 32"
  shows "meets s (bitcountCommand s) (sp_bitcount (ctx_of s) as (live s))"
proof -
  define k where "k = as ! Suc 0"
  have k: "arg_raw 1 s = Some k" "length (d_argv s) = length as" using raw_args_nth(4) [OF as(1), of 1] as raw_args_length [OF as(1)] by (simp_all add: k_def)
  obtain ov t where t: "lookupKeyRead (d_db s) k s = Some (ov, t)" "kv_ok zero t" "kv_step s t" "live t = live s" "found (d_db s) k ov t"
    "ev s t [] [] 0" "args t = args s" "d_argv t = d_argv s" "ctx_of t = ctx_of s" "d_db t = d_db s"
    by (rule lookup_read [OF ok, of "d_db s" k])
  have ra: "raw_args as t" using as(1) raw_args_cong [OF t(7)] by simp
  note e = meets_sp_err [OF t(2,4,6)]
  show ?thesis
    using t(2,5)
  proof (cases rule: found_cases)
    case Absent
    then show ?thesis using t e k by (simp add: bitcountCommand_def lookupKeyReadOrReply_def sp_bitcount_def Let_def flip: k_def)
  next
    case (Other ty n w)
    then show ?thesis using t e k by (simp add: bitcountCommand_def lookupKeyReadOrReply_def sp_bitcount_def Let_def flip: k_def)
  next
    case (String a b w)
    have len: "length b \<le> 2 ^ 29" using small_strs [OF t(2) String(3)] by simp
    have str: "str_of a t = Some b" using String by (simp add: str_of_strs)
    consider (two) "length as = 2" | (four) "length as = 4" | (other) "length as \<noteq> 2" "length as \<noteq> 4" by blast
    then show ?thesis
    proof cases
      case other
      then show ?thesis using t e k String str by (simp add: bitcountCommand_def lookupKeyReadOrReply_def sp_bitcount_def Let_def flip: k_def)
    next
      case two
      have "llong (int (length b) - 1) = int (length b) - 1" using len by (intro llong_small) auto
      moreover have "llong (int (length b)) = int (length b)" using len by (intro llong_small) auto
      ultimately show ?thesis using popcount_count [of "int (length b)" b x86] t e k String str two
        by (cases "b = []") (auto simp: bitcountCommand_def lookupKeyReadOrReply_def sp_bitcount_def Let_def max_def simp flip: k_def)
    next
      case four
      have a: "arg 2 t = Some (d_argv t ! 2)" "strs t (d_argv t ! 2) = Some (as ! 2)" "arg 3 t = Some (d_argv t ! 3)" "strs t (d_argv t ! 3) = Some (as ! 3)"
        using raw_args_nth(1,6) [OF ra, of 2] raw_args_nth(1,6) [OF ra, of 3] four by simp_all
      consider "num (as ! 2) = None \<or> num (as ! 3) = None" | x y where "num (as ! 2) = Some x" "num (as ! 3) = Some y"
        by (cases "num (as ! 2)"; cases "num (as ! 3)"; simp)
      then show ?thesis
      proof cases
        case 1
        then show ?thesis using t(1,4,8) e [of not_int] k String str four a
          by (auto simp: bitcountCommand_def lookupKeyReadOrReply_def sp_bitcount_def Let_def getLong_num split: option.split simp flip: k_def)
      next
        case (2 x y)
        define x' where "x' = (if x < 0 then max 0 (int (length b) + x) else x)"
        define y' where "y' = min (if y < 0 then max 0 (int (length b) + y) else y) (int (length b) - 1)"
        have r: "range_ends (int (length b)) x y = (x', y')"
          unfolding x'_def y'_def
          by (rule range_ends_eq) (use len num_range [OF 2(1)] num_range [OF 2(2)] fit 2(2) four in simp_all)
        have "bitcountCommand s = (if x' > y' then Some (d_reply [Shared ''czero''] t)
            else map_option (\<lambda>n. d_reply [LongLong n] t) (popcount x86 (drop (nat x') b) (llong (y' - x' + 1))))"
          using t(1,8) k String str four a 2 r
          by (cases "popcount x86 (drop (nat x') b) (llong (y' - x' + 1))")
            (simp_all add: bitcountCommand_def lookupKeyReadOrReply_def Let_def getLong_num)
        then have "bitcountCommand s = Some (d_reply [if slice x y b = [] then Shared ''czero'' else LongLong (int (ones_in (slice x y b)))] t)"
          using count_slice [OF len x'_def y'_def, of x86] by (auto split: if_splits)
        moreover have "sp_bitcount (ctx_of s) as (live s) = sp_err (if slice x y b = [] then Shared ''czero'' else LongLong (int (ones_in (slice x y b)))) (live s)"
          using String four 2 t(4) by (simp add: sp_bitcount_def Let_def flip: k_def)
        ultimately show ?thesis using e by simp
      qed
    qed
  qed
qed

section \<open>BITOP\<close>

text \<open>Objects that are held while keys are looked up.\<close>

lemma held_enc:
  assumes "kv_ok H s" "kv_ok H' s'" "kv_step s s'" "obj_at s a \<noteq> None" "0 < int (refs s' a) + H' a"
  shows "enc s' a = enc s a"
  using assms kv_next [OF assms(1,4)] kv_exists [OF assms(2,5)] unfolding kv_step_def by blast

lemma found_held:
  assumes ok: "kv_ok H s" and pos: "\<And>a. 0 \<le> H a" and f: "found db k v s"
  shows "(case v of
      None \<Rightarrow> live s (db, k) = None
    | Some (VStr a) \<Rightarrow> \<exists>b. strs s a = Some b \<and> live s (db, k) = Some (AStr b, expi s (db, k))
    | Some (VAgg t i) \<Rightarrow> live s (db, k) = Some (AAgg t i, expi s (db, k)))"
proof (cases v)
  case None
  then show ?thesis using f by (simp add: found_def live_def look_def)
next
  case (Some d)
  show ?thesis
  proof (cases d)
    case (VStr a)
    then have m: "map_of (dict_of s db) k = Some (VStr a)" using f Some by (simp add: found_def)
    then obtain b where b: "strs s a = Some b" using obj_in_dict [OF ok pos m] by (auto simp: strs_def enc_def)
    then have l: "look s (db, k) = Some (AStr b)" using m by (simp add: look_def val_at_def)
    then show ?thesis using Some VStr b f by (simp add: live_def found_def)
  next
    case (VAgg t i)
    then have "look s (db, k) = Some (AAgg t i)" using f Some by (simp add: look_def val_at_def found_def)
    then show ?thesis using Some VAgg f by (simp add: live_def found_def)
  qed
qed

definition hold :: "nat option list \<Rightarrow> nat \<Rightarrow> int" where
  "hold objs x = int (count_list (held objs) x)"

lemma held_simps [simp]: "held [] = []" "held (None # xs) = held xs" "held (Some d # xs) = d # held xs" "held (xs @ ys) = held xs @ held ys"
  by (simp_all add: held_def)

lemma hold_simps: "hold [] = zero" "hold (xs @ [None]) = hold xs" "hold (xs @ [Some d]) = (hold xs)(d := hold xs d + 1)" "0 \<le> hold xs x"
  by (simp_all add: hold_def fun_eq_iff)

lemma buffers_cong: "(\<And>d. d \<in> set (held objs) \<Longrightarrow> enc s' d = enc s d) \<Longrightarrow> buffers objs s' = buffers objs s"
proof (induction objs)
  case (Cons x xs)
  have r: "raw s' d = raw s d" if "d \<in> set (held (x # xs))" for d
    using Cons.prems [OF that] by (metis option.exhaust raw_enc)
  have "buffers xs s' = buffers xs s" using Cons.prems by (intro Cons.IH) (cases x; simp)
  then show ?case using r by (cases x) simp_all
qed simp

lemma buffers_snoc: "buffers objs s = Some bs \<Longrightarrow> buffers (objs @ [None]) s = Some (bs @ [None])"
  "buffers objs s = Some bs \<Longrightarrow> raw s d = Some b \<Longrightarrow> buffers (objs @ [Some d]) s = Some (bs @ [Some b])"
  by (induction objs arbitrary: bs) (auto split: bind_splits)

lemma hold_pos: "d \<in> set (held objs) \<Longrightarrow> 0 < hold objs d"
  using count_list_0_iff [of "held objs" d] by (simp add: hold_def)

lemma buffers_step:
  assumes "kv_ok (hold objs) s" "kv_ok H' s'" "kv_step s s'" "\<And>x. hold objs x \<le> H' x"
  shows "buffers objs s' = buffers objs s"
proof (rule buffers_cong)
  fix d assume d: "d \<in> set (held objs)"
  have p: "0 < int (refs s d) + hold objs d" "0 < int (refs s' d) + H' d" using hold_pos [OF d] assms(4) [of d] by linarith+
  show "enc s' d = enc s d" by (rule held_enc [OF assms(1-3) kv_exists [OF assms(1) p(1)] p(2)])
qed

lemma release_ok:
  assumes ok: "kv_ok (hold objs) s" and perm: "\<And>x. count_list ds x = count_list (held objs) x"
  shows "\<exists>s'. decr_all ds s = Some s' \<and> kv_ok zero s' \<and> live s' = live s \<and> ev s s' [] [] 0 \<and> args s' = args s \<and> d_argv s' = d_argv s"
proof -
  have "int (count_list ds x) + int (shared_ref s x) \<le> int (refs s x) + hold objs x" for x
    using shared_le_refs [of s x] by (simp add: hold_def perm)
  from decr_all_ok [OF ok this] obtain t where t: "decr_all ds s = Some t" "kv_ok (\<lambda>x. hold objs x - int (count_list ds x)) t" "store_step s t" by blast
  have okt: "kv_ok zero t" using t(2) by (rule kv_cong) (simp add: hold_def perm)
  note st = store_kv_step [OF t(3)]
  have "look t = look s" by (rule look_step [OF ok okt t(3)]) (simp_all add: hold_simps)
  then have "live t = live s" by (rule live_same [OF st]) (simp add: store_step_fields [OF t(3)])
  moreover have "args t = args s" by (rule args_step [OF ok okt st]) (simp_all add: hold_simps)
  ultimately show ?thesis using t(1) okt kv_step_ev [OF st] kv_step_fields [OF st] by auto
qed

definition string_at :: "contents \<Rightarrow> nat \<times> key \<Rightarrow> byte list option" where
  "string_at L p = (case L p of Some (AStr b, _) \<Rightarrow> Some b | _ \<Rightarrow> None)"

definition other_type :: "contents \<Rightarrow> nat \<times> key \<Rightarrow> bool" where
  "other_type L p = (case L p of Some (AAgg _ _, _) \<Rightarrow> True | _ \<Rightarrow> False)"

lemma bitop_objects_ok:
  assumes "kv_ok (hold objs) s" "list_all2 (\<lambda>a k. raw s a = Some k \<and> a \<in> set (d_argv s)) as ks" "buffers objs s = Some bs"
  shows "if \<exists>k \<in> set ks. other_type (live s) (d_db s, k)
    then \<exists>s'. bitop_objects as objs s = Some (None, s') \<and> kv_ok zero s' \<and> live s' = live s \<and> ev s s' [Shared ''wrongtypeerr''] [] 0
    else \<exists>s' objs'. bitop_objects as objs s = Some (Some objs', s') \<and> kv_ok (hold objs') s' \<and> live s' = live s \<and> ev s s' [] [] 0 \<and>
      args s' = args s \<and> d_argv s' = d_argv s \<and> buffers objs' s' = Some (bs @ map (\<lambda>k. string_at (live s) (d_db s, k)) ks)"
  using assms
proof (induction as arbitrary: s ks objs bs)
  case Nil
  then show ?case by simp
next
  case (Cons a as)
  obtain k ks' where ks: "ks = k # ks'" "raw s a = Some k" "list_all2 (\<lambda>a k. raw s a = Some k \<and> a \<in> set (d_argv s)) as ks'"
    using Cons.prems(2) by (auto simp: list_all2_Cons1)
  from lookupKeyRead_ok [OF Cons.prems(1) hold_simps(4), of "d_db s" k] obtain v t where
    t: "lookupKeyRead (d_db s) k s = Some (v, t)" "kv_ok (hold objs) t" "kv_step s t" "live t = live s" "found (d_db s) k v t" by blast
  have bt: "buffers objs t = Some bs" using buffers_step [OF Cons.prems(1) t(2,3)] Cons.prems(3) by simp
  have at: "args t = args s" by (rule args_step [OF Cons.prems(1) t(2,3)]) (simp_all add: hold_simps)
  note ft = kv_step_fields [OF t(3)] and et = kv_step_ev [OF t(3)]
  have f: "case v of
      None \<Rightarrow> live s (d_db s, k) = None
    | Some (VStr a) \<Rightarrow> \<exists>b. strs t a = Some b \<and> live s (d_db s, k) = Some (AStr b, expi t (d_db s, k))
    | Some (VAgg ty i) \<Rightarrow> live s (d_db s, k) = Some (AAgg ty i, expi t (d_db s, k))"
    using found_held [OF t(2) hold_simps(4) t(5)] unfolding t(4) .
  have keep: "list_all2 (\<lambda>a k. raw u a = Some k \<and> a \<in> set (d_argv u)) as ks'" if "args u = args s" "d_argv u = d_argv s" for u
    using ks(3) by (rule list_all2_mono) (use that in \<open>simp add: raw_enc args_def\<close>)
  have go: ?case
    if u: "kv_ok (hold (objs @ [x])) u" "live u = live s" "ev s u [] [] 0" "args u = args s" "d_argv u = d_argv s" "d_db u = d_db s"
      and b: "buffers (objs @ [x]) u = Some (bs @ [string_at (live s) (d_db s, k)])"
      and no: "\<not> other_type (live s) (d_db s, k)"
      and run: "bitop_objects (a # as) objs s = bitop_objects as (objs @ [x]) u" for x u
  proof (cases "\<exists>k \<in> set ks'. other_type (live s) (d_db s, k)")
    case True
    then obtain s' where "bitop_objects as (objs @ [x]) u = Some (None, s')" "kv_ok zero s'" "live s' = live s" "ev u s' [Shared ''wrongtypeerr''] [] 0"
      using Cons.IH [OF u(1) keep [OF u(4,5)] b] u(2,6) by auto
    then show ?thesis using True run ks(1) ev_quiet [OF u(3)] by auto
  next
    case False
    then obtain s' objs' where "bitop_objects as (objs @ [x]) u = Some (Some objs', s')" "kv_ok (hold objs') s'" "live s' = live s" "ev u s' [] [] 0"
      "args s' = args s" "d_argv s' = d_argv s" "buffers objs' s' = Some ((bs @ [string_at (live s) (d_db s, k)]) @ map (\<lambda>k. string_at (live s) (d_db s, k)) ks')"
      using Cons.IH [OF u(1) keep [OF u(4,5)] b] u(2,4,5,6) by auto
    then show ?thesis using False no run ks(1) ev_quiet [OF u(3)] by auto
  qed
  consider (none) "v = None" | (str) x where "v = Some (VStr x)" | (agg) ty i where "v = Some (VAgg ty i)"
    by (cases v; cases "the v"; simp)
  then show ?case
  proof cases
    case none
    show ?thesis
      by (rule go [of None t]) (use none f t ft et at ks buffers_snoc(1) [OF bt] in \<open>simp_all add: hold_simps string_at_def other_type_def\<close>)
  next
    case (str x)
    then obtain b where b: "strs t x = Some b" "live s (d_db s, k) = Some (AStr b, expi t (d_db s, k))" using f by auto
    from decoded_held [OF t(2) hold_simps(4) b(1)] obtain d u where u: "decoded x t = Some (d, u)" "kv_ok ((hold objs)(d := hold objs d + 1)) u"
      "store_step t u" "raw u d = Some b" by blast
    note st = store_kv_step [OF u(3)]
    have oku: "kv_ok (hold (objs @ [Some d])) u" using u(2) by (simp add: hold_simps)
    have "look u = look t" by (rule look_step [OF t(2) u(2,3)]) (simp_all add: hold_simps)
    then have lu: "live u = live s" using live_same [OF st] store_step_fields [OF u(3)] t(4) by simp
    have bu: "buffers objs u = Some bs" using buffers_step [OF t(2) u(2) st] bt by simp
    have au: "args u = args t" by (rule args_step [OF t(2) u(2) st]) (simp_all add: hold_simps)
    show ?thesis
      by (rule go [of "Some d" u]) (use str b u(1,4) oku lu bu au t ft ev_quiet [OF et kv_step_ev [OF st]] at ks
          kv_step_fields [OF st] buffers_snoc(2) [OF bu u(4)] in \<open>simp_all add: string_at_def other_type_def\<close>)
  next
    case (agg ty i)
    then have o: "other_type (live s) (d_db s, k)" using f by (simp add: other_type_def)
    define u where "u = d_reply [Shared ''wrongtypeerr''] t"
    have "kv_ok (hold objs) u" using t(2) by (simp add: u_def)
    from release_ok [OF this, of "rev (held objs)"] obtain s' where s': "decr_all (rev (held objs)) u = Some s'" "kv_ok zero s'" "live s' = live u" "ev u s' [] [] 0"
      by auto
    have "ev s s' [Shared ''wrongtypeerr''] [] 0"
      using ev_trans [OF ev_more(1) [OF et, of "[Shared ''wrongtypeerr'']"], of s' "[]" "[]" 0] s'(4) by (simp add: u_def)
    then show ?thesis using o agg s' t ks by (auto simp: u_def)
  qed
qed

text \<open>\<open>setKey\<close> of an object just created, which its creator then releases.\<close>

lemma setKey_new_ok:
  assumes ok: "kv_ok zero s" and b: "length b \<le> 2 ^ 29" and db: "db < d_dbnum s" and small: "length k \<le> 2 ^ 29"
  shows "\<exists>n t u s'. new_obj (ENC_RAW b) s = (n, t) \<and> d_db t = d_db s \<and> setKey db k (VStr n) t = Some u \<and> decr_ref n u = Some s' \<and> kv_ok zero s' \<and>
    ev s s' [] [KeyModified db k] 0 \<and> live s' = (live s)((db, k) \<mapsto> (AStr b, None))"
proof -
  from new_obj_ok [OF ok, of "ENC_RAW b"] b obtain n t where t: "new_obj (ENC_RAW b) s = (n, t)" "kv_ok (zero(n := 0 + 1)) t" "store_step s t"
    "obj_at t n = Some \<lparr>o_str = ENC_RAW b, o_refcount = 1, o_lru = so_lruclock (d_store s)\<rparr>" by auto
  have t1: "kv_ok (zero(n := 1)) t" using t(2) by simp
  note ft = store_step_fields [OF t(3)]
  have lt: "look t = look s" by (rule look_step [OF ok t1 t(3)]) simp_all
  have ev1: "live t = live s" by (rule live_same [OF store_kv_step [OF t(3)] lt]) (simp add: ft)
  have pos: "\<And>a. 0 \<le> (zero(n := 1)) a" by simp
  from lookupKeyWrite_ok [OF t1 pos, of db k] obtain v w where w: "lookupKeyWrite db k t = Some (v, w)" "kv_ok (zero(n := 1)) w" "kv_step t w"
    "live w = live t" "found db k v w" by blast
  note fw = kv_step_fields [OF w(3)]
  have nw: "enc w n = enc t n" by (rule held_enc [OF t1 w(2,3)]) (use t(4) in simp_all)
  have wb: "val_at w (VStr n) = Some (AStr b)" 
  proof -
    have "enc t n = Some (ENC_RAW b)" using t(4) by (simp add: enc_def)
    then show ?thesis using nw by (simp add: val_at_def strs_def str_bytes_def)
  qed
  have dbw: "db < d_dbnum w" using db fw ft by simp
  have "\<exists>x. (if v = None then dbAdd db k (VStr n) w else dbOverwrite db k (VStr n) w) = Some x \<and> kv_ok zero x \<and> kv_step w x \<and>
      look x = (look w)((db, k) \<mapsto> AStr b) \<and> expi x = expi w \<and> map_of (dict_of x db) k = Some (VStr n)"
  proof (cases v)
    case None
    then have "map_of (dict_of w db) k = None" using w(5) by (simp add: found_def)
    from add_new_ok [OF w(2) dbw this small] show ?thesis using None wb by auto
  next
    case (Some y)
    then have "map_of (dict_of w db) k \<noteq> None" using w(5) by (simp add: found_def)
    from overwrite_new_ok [OF w(2) this] show ?thesis using Some wb by auto
  qed
  then obtain x where x: "(if v = None then dbAdd db k (VStr n) w else dbOverwrite db k (VStr n) w) = Some x" "kv_ok zero x" "kv_step w x"
      "look x = (look w)((db, k) \<mapsto> AStr b)" "expi x = expi w" "map_of (dict_of x db) k = Some (VStr n)" by blast
  have "obj_at x n \<noteq> None" by (rule obj_in_dict [OF x(2) _ x(6)]) simp
  from incr_ref_ok [OF x(2) this] obtain y where y: "incr_ref n x = Some y" "kv_ok (zero(n := 0 + 1)) y" "store_step x y" by blast
  have y1: "kv_ok (zero(n := 1)) y" using y(2) by simp
  have ly: "look y = look x" by (rule look_step [OF x(2) y1 y(3)]) simp_all
  define z where "z = set_expires db (AList.delete k (expires_of y db)) y"
  have z: "kv_ok (zero(n := 1)) z" "kv_step y z" "look z = look y" "expi z = (expi y)((db, k) := None)"
    unfolding z_def look_set_dict using kv_delete_expire [OF y1] by simp_all
  define u where "u = signalModifiedKey db k z"
  have okU: "kv_ok (zero(n := 1)) u" using z(1) by (simp add: u_def)
  have "map_of (dict_of y db) k \<noteq> None" using x(6) store_step_fields [OF y(3)] by simp
  then have "setKey db k (VStr n) t = Some u"
    using w(1) x(1) y(1) by (simp add: setKey_def incr_val_def removeExpire_def u_def z_def)
  have "int (shared_ref u n) < int (refs u n) + (zero(n := 1)) n" using shared_le_refs [of u n] by simp
  from decr_ref_ok [OF okU this] obtain s' where s': "decr_ref n u = Some s'" "kv_ok ((zero(n := 1))(n := (zero(n := 1)) n - 1)) s'" "store_step u s'" by blast
  have ok': "kv_ok zero s'" using s'(2) by (rule kv_cong) simp
  have "look s' = look u" by (rule look_step [OF okU ok' s'(3)]) simp_all
  then have l: "look s' = (look w)((db, k) \<mapsto> AStr b)" using ly x(4) z(3) by (simp add: u_def)
  have e: "expi s' = (expi w)((db, k) := None)" using store_step_fields [OF s'(3)] store_step_fields [OF y(3)] x(5) z(4) by (simp add: u_def)
  have kz: "kv_step s z" using kv_step_trans [OF store_kv_step [OF t(3)] kv_step_trans [OF w(3) kv_step_trans [OF x(3) kv_step_trans [OF store_kv_step [OF y(3)] z(2)]]]] .
  have "ev s u [] [KeyModified db k] 0" using ev_more(3) [OF kv_step_ev [OF kz], of db k] by (simp add: u_def)
  from ev_trans [OF this kv_step_ev [OF store_kv_step [OF s'(3)]]] have ev2: "ev s s' [] [KeyModified db k] 0" by simp
  have "dead s' = dead w"
    using ev_dead [OF ev2] dead_step [OF w(3)] dead_step [OF store_kv_step [OF t(3)]] by simp
  then have "live s' = (live w)((db, k) \<mapsto> (AStr b, None))"
    using l e by (auto simp: live_def fun_eq_iff)
  then have "live s' = (live s)((db, k) \<mapsto> (AStr b, None))" using w(4) ev1 by simp
  moreover have "d_db t = d_db s" by (simp add: ft)
  ultimately show ?thesis using t(1) \<open>setKey db k (VStr n) t = Some u\<close> s'(1) ok' ev2 by blast
qed

definition sp_bitop :: "ctx \<Rightarrow> bool \<Rightarrow> byte list list \<Rightarrow> contents \<Rightarrow> outcome" where
  "sp_bitop c there as L =
     (case bitop_name (as ! 1) of
        None \<Rightarrow> sp_err (Shared ''syntaxerr'') L
      | Some op \<Rightarrow>
          if op = BITOP_NOT \<and> length as \<noteq> 4 then sp_err (ReplyError ''BITOP NOT must be called with a single source key.'') L
          else if \<exists>k \<in> set (drop 3 as). other_type L (c_db c, k) then sp_err (Shared ''wrongtypeerr'') L
          else (let p = (c_db c, as ! 2);
                    srcs = map (\<lambda>k. string_at L (c_db c, k)) (drop 3 as);
                    m = max_length srcs
                in if m = 0 then (L(p := None), [LongLong 0], if there then [KeyModified (c_db c) (as ! 2)] else [], 1)
                   else (L(p \<mapsto> (AStr (map (out_byte op (map key_bytes srcs)) [0..<m]), None)), [LongLong (int m)],
                         [KeyModified (c_db c) (as ! 2)], 1)))"

lemma max_length_le: "(\<And>b. Some b \<in> set srcs \<Longrightarrow> length b \<le> n) \<Longrightarrow> max_length srcs \<le> n"
proof -
  have "fold (\<lambda>s m. max m (length (key_bytes s))) srcs m \<le> max m n" if "\<And>b. Some b \<in> set srcs \<Longrightarrow> length b \<le> n" for m
    using that
  proof (induction srcs arbitrary: m)
    case (Cons x xs)
    have "length (key_bytes x) \<le> n" using Cons.prems by (cases x) auto
    moreover have "fold (\<lambda>s m. max m (length (key_bytes s))) xs (max m (length (key_bytes x))) \<le> max (max m (length (key_bytes x))) n"
      by (rule Cons.IH) (use Cons.prems in auto)
    ultimately show ?case by simp
  qed simp
  from this [of 0] show "(\<And>b. Some b \<in> set srcs \<Longrightarrow> length b \<le> n) \<Longrightarrow> max_length srcs \<le> n" by (simp add: max_length_def)
qed

lemma live_small: "kv_ok zero s \<Longrightarrow> string_at (live s) p = Some b \<Longrightarrow> length b \<le> 2 ^ 29"
proof -
  assume ok: "kv_ok zero s" and b: "string_at (live s) p = Some b"
  then have "look s p = Some (AStr b)" by (auto simp: string_at_def live_def split: option.splits prod.splits aval.splits if_splits)
  then obtain a where "strs s a = Some b" by (auto simp: look_def val_at_def split: bind_splits dval.splits)
  then show ?thesis using small_strs [OF ok] by simp
qed

lemma bitop_ok:
  assumes ok: "kv_ok zero s" and as: "raw_args as s" "4 \<le> length as" and alloc: "2 ^ 29 \<le> d_alloc s"
  shows "\<exists>there. (live s (d_db s, as ! 2) \<noteq> None \<longrightarrow> there) \<and> meets s (bitopCommand s) (sp_bitop (ctx_of s) there as (live s))"
proof -
  have n: "arg_raw 1 s = Some (as ! 1)" using raw_args_nth(4) [OF as(1), of 1] as(2) by simp
  have len: "length (d_argv s) = length as" by (rule raw_args_length [OF as(1)])
  note es = meets_sp_err [OF ok refl ev_refl]
  show ?thesis
  proof (cases "bitop_name (as ! 1)")
    case None
    then show ?thesis using n es by (intro exI [of _ True]) (simp add: bitopCommand_def sp_bitop_def)
  next
    case (Some op)
    show ?thesis
    proof (cases "op = BITOP_NOT \<and> length as \<noteq> 4")
      case True
      then show ?thesis using n es Some len by (intro exI [of _ True]) (simp add: bitopCommand_def sp_bitop_def)
    next
      case single: False
      have "list_all2 (\<lambda>a k. raw s a = Some k \<and> a \<in> set (d_argv s)) (drop 3 (d_argv s)) (drop 3 as)"
        using raw_args_nth [OF as(1)] len by (simp add: list_all2_conv_all_nth)
      note obj = bitop_objects_ok [of "[]" s, unfolded hold_simps(1), OF ok this, of "[]"]
      show ?thesis
      proof (cases "\<exists>k \<in> set (drop 3 as). other_type (live s) (d_db s, k)")
        case True
        then obtain s' where s': "bitop_objects (drop 3 (d_argv s)) [] s = Some (None, s')" "kv_ok zero s'" "live s' = live s" "ev s s' [Shared ''wrongtypeerr''] [] 0"
          using obj by auto
        have "sp_bitop (ctx_of s) True as (live s) = sp_err (Shared ''wrongtypeerr'') (live s)" using True single Some by (auto simp: sp_bitop_def)
        then show ?thesis using s' n Some single len
          by (intro exI [of _ True]) (auto simp: bitopCommand_def sp_err_def meets_def)
      next
        case False
        define srcs where "srcs = map (\<lambda>k. string_at (live s) (d_db s, k)) (drop 3 as)"
        define m where "m = max_length srcs"
        define res where "res = map (out_byte op (map key_bytes srcs)) [0..<m]"
        from False obtain t objs where t: "bitop_objects (drop 3 (d_argv s)) [] s = Some (Some objs, t)" "kv_ok (hold objs) t" "live t = live s" "ev s t [] [] 0"
          "args t = args s" "d_argv t = d_argv s" "buffers objs t = Some srcs"
          using obj by (auto simp: srcs_def)
        from release_ok [OF t(2) refl] obtain u where u: "decr_all (held objs) t = Some u" "kv_ok zero u" "live u = live t" "ev t u [] [] 0" "args u = args t" "d_argv u = d_argv t"
          by blast
        have eu: "ev s u [] [] 0" by (rule ev_quiet [OF t(4) u(4)])
        note fu = ev_env [OF eu]
        have "raw_args as u" using as(1) u(5) t(5) raw_args_cong by metis
        then have k: "arg_raw 2 u = Some (as ! 2)" using raw_args_nth(4) [of as u 2] as(2) by simp
        have ne: "srcs \<noteq> []" "op = BITOP_NOT \<longrightarrow> tl srcs = []" using as(2) single by (auto simp: srcs_def map_tl [symmetric] tl_drop)
        have r: "bitop_result x86 op srcs = Some (m, if m = 0 then None else Some res)"
          using bitop_result_eq [OF ne, of x86] by (simp add: m_def res_def)
        have m: "m \<le> 2 ^ 29" unfolding m_def by (rule max_length_le) (use live_small [OF ok] in \<open>auto simp: srcs_def\<close>)
        have base: "bitopCommand s = Option.bind (case (if m = 0 then None else Some res) of
              Some b \<Rightarrow> if m > d_alloc u then None
                else do { let (n, s) = new_obj (ENC_RAW b) u; s \<leftarrow> setKey (d_db s) (as ! 2) (VStr n) s; decr_ref n s }
            | None \<Rightarrow> do { (deleted, s) \<leftarrow> dbDelete (d_db u) (as ! 2) u;
                Some (if deleted then signalModifiedKey (d_db s) (as ! 2) s else s) })
            (\<lambda>s. Some (d_reply [LongLong (int m)] (bump 1 s)))"
          using n Some single len t(1,7) u(1) k r by (cases "op = BITOP_NOT") (simp_all add: bitopCommand_def)
        have sp: "sp_bitop (ctx_of s) there as (live s) = (if m = 0 then ((live s)((d_db s, as ! 2) := None), [LongLong 0], if there then [KeyModified (d_db s) (as ! 2)] else [], 1)
            else ((live s)((d_db s, as ! 2) \<mapsto> (AStr res, None)), [LongLong (int m)], [KeyModified (d_db s) (as ! 2)], 1))" for there
          using Some single False by (auto simp: sp_bitop_def Let_def srcs_def m_def res_def)
        show ?thesis
        proof (cases "m = 0")
          case True
          from dbDelete_ok [OF u(2), of "d_db s" "as ! 2"] obtain w where w: "dbDelete (d_db s) (as ! 2) u = Some (map_of (dict_of u (d_db s)) (as ! 2) \<noteq> None, w)"
            "kv_ok zero w" "kv_step u w" "look w = (look u)((d_db s, as ! 2) := None)" "expi w = (expi u)((d_db s, as ! 2) := None)" by auto
          define there where "there = (map_of (dict_of u (d_db s)) (as ! 2) \<noteq> None)"
          have lw: "live w = (live s)((d_db s, as ! 2) := None)"
            using live_upd [OF w(3-5)] u(3) t(3) by simp
          have "live s (d_db s, as ! 2) \<noteq> None \<longrightarrow> there"

          proof -
            have "live u (d_db s, as ! 2) = None" if "\<not> there" using that by (simp add: there_def live_def look_def)
            then show ?thesis using u(3) t(3) by metis
          qed
          moreover have "meets s (bitopCommand s) (sp_bitop (ctx_of s) there as (live s))"
          proof -
            have ew: "ev s w [] [] 0" by (rule ev_quiet [OF eu kv_step_ev [OF w(3)]])
            define x where "x = (if there then signalModifiedKey (d_db s) (as ! 2) w else w)"
            have x: "kv_ok zero x" "live x = live w" "ev s x [] (if there then [KeyModified (d_db s) (as ! 2)] else []) 0"
              using w(2) ew ev_more(3) [OF ew, of "d_db s" "as ! 2"] by (simp_all add: x_def)
            have "bitopCommand s = Some (d_reply [LongLong 0] (bump 1 x))"
              unfolding base using True w(1) fu ev_env [OF ew] by (simp add: x_def there_def)
            then show ?thesis unfolding sp using True x lw
                ev_more(1) [OF ev_more(2) [OF x(3), of 1], of "[LongLong 0]"]
              by (simp add: meets_def)
          qed
          ultimately show ?thesis by blast
        next
          case nz: False
          have kk: "length (as ! 2) \<le> 2 ^ 29" by (rule arg_small [OF u(2) k])
          from setKey_new_ok [OF u(2) _ _ kk, of res "d_db s"] m kv_db [OF u(2)] fu obtain i v w s' where
            s': "new_obj (ENC_RAW res) u = (i, v)" "d_db v = d_db u" "setKey (d_db s) (as ! 2) (VStr i) v = Some w" "decr_ref i w = Some s'" "kv_ok zero s'"
            "ev u s' [] [KeyModified (d_db s) (as ! 2)] 0" "live s' = (live u)((d_db s, as ! 2) \<mapsto> (AStr res, None))"
            by (auto simp: res_def)
          have "bitopCommand s = Some (d_reply [LongLong (int m)] (bump 1 s'))"
            unfolding base using nz s' fu m alloc by simp
          then show ?thesis unfolding sp using nz s'(5,7) u(3) t(3)
              ev_more(1) [OF ev_more(2) [OF ev_quiet [OF eu s'(6)], of 1], of "[LongLong (int m)]"]
            by (intro exI [of _ True]) (simp add: meets_def)
        qed
      qed
    qed
  qed
qed

end
