(* ===== verification/Commands.thy ===== *)
theory Commands
  imports Bitcmds
begin

text \<open>
  A request from its arguments to the end of its execution: the table of commands and \<open>call\<close> of
  \<open>redis/src/redis.c\<close>, the argument vector of \<open>redis/src/networking.c\<close>.  Of \<open>processCommand\<close> the test of
  the number of arguments and the call are modelled; passwords, memory limits, replication states and
  scripts are not.  Statistics, MONITOR and the slow log have no state here.
\<close>

section \<open>The command table\<close>

datatype cproc =
    GetC | SetC | SetnxC | SetexC | PsetexC | AppendC | StrlenC | SetbitC | GetbitC | SetrangeC | GetrangeC | SubstrC | IncrC | DecrC | MgetC
  | IncrbyC | DecrbyC | GetsetC | MsetC | MsetnxC | BitopC | BitcountC
  | DelC | ExistsC | SelectC | MoveC | RenameC | RenamenxC | ExpireC | ExpireatC | PexpireC | PexpireatC
  | KeysC | DbsizeC | TypeC | FlushdbC | FlushallC | TtlC | PttlC | PersistC

primrec proc :: "cproc \<Rightarrow> dserver \<Rightarrow> dserver option" where
  "proc GetC = getCommand"
| "proc SetC = setCommand"
| "proc SetnxC = setnxCommand"
| "proc SetexC = setexCommand"
| "proc PsetexC = psetexCommand"
| "proc AppendC = appendCommand"
| "proc StrlenC = strlenCommand"
| "proc SetbitC = setbitCommand"
| "proc GetbitC = getbitCommand"
| "proc SetrangeC = setrangeCommand"
| "proc GetrangeC = getrangeCommand"
| "proc SubstrC = getrangeCommand"
| "proc IncrC = incrCommand"
| "proc DecrC = decrCommand"
| "proc MgetC = mgetCommand"
| "proc IncrbyC = incrbyCommand"
| "proc DecrbyC = decrbyCommand"
| "proc GetsetC = getsetCommand"
| "proc MsetC = msetCommand"
| "proc MsetnxC = msetnxCommand"
| "proc BitopC = bitopCommand"
| "proc BitcountC = bitcountCommand"
| "proc DelC = delCommand"
| "proc ExistsC = existsCommand"
| "proc SelectC = selectCommand"
| "proc MoveC = moveCommand"
| "proc RenameC = renameCommand"
| "proc RenamenxC = renamenxCommand"
| "proc ExpireC = expireCommand"
| "proc ExpireatC = expireatCommand"
| "proc PexpireC = pexpireCommand"
| "proc PexpireatC = pexpireatCommand"
| "proc KeysC = keysCommand"
| "proc DbsizeC = dbsizeCommand"
| "proc TypeC = typeCommand"
| "proc FlushdbC = flushdbCommand"
| "proc FlushallC = flushallCommand"
| "proc TtlC = ttlCommand"
| "proc PttlC = pttlCommand"
| "proc PersistC = persistCommand"

text \<open>The name, and the number of arguments with the name; a negative one is a minimum.\<close>

primrec cmd_info :: "cproc \<Rightarrow> string \<times> int" where
  "cmd_info GetC = (''get'', 2)"
| "cmd_info SetC = (''set'', 3)"
| "cmd_info SetnxC = (''setnx'', 3)"
| "cmd_info SetexC = (''setex'', 4)"
| "cmd_info PsetexC = (''psetex'', 4)"
| "cmd_info AppendC = (''append'', 3)"
| "cmd_info StrlenC = (''strlen'', 2)"
| "cmd_info SetbitC = (''setbit'', 4)"
| "cmd_info GetbitC = (''getbit'', 3)"
| "cmd_info SetrangeC = (''setrange'', 4)"
| "cmd_info GetrangeC = (''getrange'', 4)"
| "cmd_info SubstrC = (''substr'', 4)"
| "cmd_info IncrC = (''incr'', 2)"
| "cmd_info DecrC = (''decr'', 2)"
| "cmd_info MgetC = (''mget'', - 2)"
| "cmd_info IncrbyC = (''incrby'', 3)"
| "cmd_info DecrbyC = (''decrby'', 3)"
| "cmd_info GetsetC = (''getset'', 3)"
| "cmd_info MsetC = (''mset'', - 3)"
| "cmd_info MsetnxC = (''msetnx'', - 3)"
| "cmd_info BitopC = (''bitop'', - 4)"
| "cmd_info BitcountC = (''bitcount'', - 2)"
| "cmd_info DelC = (''del'', - 2)"
| "cmd_info ExistsC = (''exists'', 2)"
| "cmd_info SelectC = (''select'', 2)"
| "cmd_info MoveC = (''move'', 3)"
| "cmd_info RenameC = (''rename'', 3)"
| "cmd_info RenamenxC = (''renamenx'', 3)"
| "cmd_info ExpireC = (''expire'', 3)"
| "cmd_info ExpireatC = (''expireat'', 3)"
| "cmd_info PexpireC = (''pexpire'', 3)"
| "cmd_info PexpireatC = (''pexpireat'', 3)"
| "cmd_info KeysC = (''keys'', 2)"
| "cmd_info DbsizeC = (''dbsize'', 1)"
| "cmd_info TypeC = (''type'', 2)"
| "cmd_info FlushdbC = (''flushdb'', 1)"
| "cmd_info FlushallC = (''flushall'', 1)"
| "cmd_info TtlC = (''ttl'', 2)"
| "cmd_info PttlC = (''pttl'', 2)"
| "cmd_info PersistC = (''persist'', 2)"

definition arity_error :: "cproc \<Rightarrow> nat \<Rightarrow> bool" where
  "arity_error c argc \<longleftrightarrow>
     (let arity = snd (cmd_info c) in arity > 0 \<and> arity \<noteq> int argc \<or> int argc < - arity)"

section \<open>Executing a command\<close>

primrec strings_of :: "nat list \<Rightarrow> dserver \<Rightarrow> byte list list option" where
  "strings_of [] s = Some []"
| "strings_of (a # as) s = do { b \<leftarrow> str_of a s; bs \<leftarrow> strings_of as s; Some (b # bs) }"

text \<open>What is fed to the append only file and to the slaves is the argument vector as it is after the command.\<close>

definition propagate :: "nat \<Rightarrow> nat list \<Rightarrow> dserver \<Rightarrow> dserver option" where
  "propagate dbid argv s = do {
     bs \<leftarrow> strings_of argv s;
     let s = (if d_aof_on s then s\<lparr>d_aof_feed := d_aof_feed s @ [(dbid, bs)]\<rparr> else s);
     Some (if d_has_slaves s then s\<lparr>d_slave_feed := d_slave_feed s @ [(dbid, bs)]\<rparr> else s)
   }"

definition call :: "cproc \<Rightarrow> dserver \<Rightarrow> dserver option" where
  "call c s = do {
     let dirty = d_dirty s;
     s \<leftarrow> proc c s;
     if d_dirty s - dirty \<noteq> 0 then propagate (d_db s) (d_argv s) s else Some s
   }"

definition processCommand :: "cproc \<Rightarrow> dserver \<Rightarrow> dserver option" where
  "processCommand c s =
     (if arity_error c (length (d_argv s))
      then Some (d_reply [ReplyError (''wrong number of arguments for '' @ [CHR 0x27] @ fst (cmd_info c) @ [CHR 0x27] @ '' command'')] s)
      else call c s)"

text \<open>The arguments become objects one by one; \<open>resetClient\<close> frees them.\<close>

primrec push_args :: "byte list list \<Rightarrow> dserver \<Rightarrow> dserver" where
  "push_args [] s = s"
| "push_args (b # bs) s = (case new_obj (ENC_RAW b) s of (a, s) \<Rightarrow> push_args bs (s\<lparr>d_argv := d_argv s @ [a]\<rparr>))"

definition freeClientArgv :: "dserver \<Rightarrow> dserver option" where
  "freeClientArgv s = do { s \<leftarrow> decr_all (d_argv s) s; Some (s\<lparr>d_argv := []\<rparr>) }"

definition serve :: "(dserver \<Rightarrow> dserver option) \<Rightarrow> byte list list \<Rightarrow> dserver \<Rightarrow> dserver option" where
  "serve run as s = do { s \<leftarrow> run (push_args as s); freeClientArgv s }"

text \<open>Requests one after the other, each with the time of the server's clock.\<close>

primrec requests ::
  "('c \<Rightarrow> dserver \<Rightarrow> dserver option) \<Rightarrow> (int \<times> 'c \<times> byte list list) list \<Rightarrow> dserver \<Rightarrow> dserver option" where
  "requests run [] s = Some s"
| "requests run (r # rs) s = do {
     s \<leftarrow> serve (run (fst (snd r))) (snd (snd r)) (s\<lparr>d_mstime := fst r\<rparr>);
     requests run rs s
   }"

section \<open>Arguments\<close>

lemma args_snoc: "args (s\<lparr>d_argv := d_argv s @ [a]\<rparr>) = args s @ [enc s a]"
  by (simp add: args_def enc_def)

lemma push_args_ok:
  assumes "kv_ok zero s" "\<forall>b \<in> set as. length b \<le> 2 ^ 29"
  shows "kv_ok zero (push_args as s) \<and> args (push_args as s) = args s @ map (\<lambda>b. Some (ENC_RAW b)) as \<and>
    look (push_args as s) = look s \<and> expi (push_args as s) = expi s \<and> ev s (push_args as s) [] [] 0"
  using assms
proof (induction as arbitrary: s)
  case (Cons b as)
  from new_obj_ok [OF Cons.prems(1), of "ENC_RAW b"] Cons.prems(2) obtain a t where t: "new_obj (ENC_RAW b) s = (a, t)" "kv_ok (zero(a := 0 + 1)) t"
    "store_step s t" "obj_at t a = Some \<lparr>o_str = ENC_RAW b, o_refcount = 1, o_lru = so_lruclock (d_store s)\<rparr>" by auto
  define u where "u = t\<lparr>d_argv := d_argv t @ [a]\<rparr>"
  have "kv_ok (\<lambda>x. (zero(a := 0 + 1)) x + int (count_list (d_argv t) x) - int (count_list (d_argv t @ [a]) x)) u"
    unfolding u_def by (rule kv_set_argv [OF t(2)])
  then have ok: "kv_ok zero u" by (rule kv_cong) simp
  have okt: "kv_ok (zero(a := 1)) t" using t(2) by simp
  have "args t = args s" by (rule args_step [OF Cons.prems(1) okt store_kv_step [OF t(3)]]) simp_all
  then have au: "args u = args s @ [Some (ENC_RAW b)]" using t(4) by (simp add: u_def args_snoc) (simp add: enc_def)
  have "look t = look s" by (rule look_step [OF Cons.prems(1) okt t(3)]) simp_all
  moreover have "look u = look t" by (rule look_cong) (simp_all add: u_def)
  ultimately have l: "look u = look s" by simp
  have x: "expi u = expi s" using store_step_fields(16) [OF t(3)] by (simp add: u_def expi_def fun_eq_iff)
  have e: "ev s u [] [] 0" using kv_step_ev [OF store_kv_step [OF t(3)]] by (simp add: u_def ev_def env_def)
  have p: "push_args (b # as) s = push_args as u" by (simp add: t(1) u_def)
  show ?case unfolding p using Cons.IH [OF ok] Cons.prems(2) au l x ev_quiet [OF e] by simp
qed simp

lemma freeClientArgv_ok:
  assumes ok: "kv_ok zero s"
  shows "\<exists>s'. freeClientArgv s = Some s' \<and> kv_ok zero s' \<and> d_argv s' = [] \<and> look s' = look s \<and> expi s' = expi s \<and> ev s s' [] [] 0"
proof -
  have "int (count_list (d_argv s) x) + int (shared_ref s x) \<le> int (refs s x) + zero x" for x
    by (simp add: refs_def flip: of_nat_sum)
  from decr_all_ok [OF ok this] obtain t where t: "decr_all (d_argv s) s = Some t"
    "kv_ok (\<lambda>x. 0 - int (count_list (d_argv s) x)) t" "store_step s t" by blast
  define u where "u = t\<lparr>d_argv := []\<rparr>"
  note f = store_step_fields [OF t(3)]
  have "kv_ok (\<lambda>x. (0 - int (count_list (d_argv s) x)) + int (count_list (d_argv t) x) - int (count_list [] x)) u"
    unfolding u_def by (rule kv_set_argv [OF t(2)])
  then have oku: "kv_ok zero u" by (rule kv_cong) (simp add: f)
  have "look u = look s" by (rule look_argv [OF ok oku _ _ t(3)]) (simp_all add: u_def f)
  moreover have "expi u = expi s" using f by (simp add: u_def expi_def fun_eq_iff)
  moreover have "ev s u [] [] 0" using kv_step_ev [OF store_kv_step [OF t(3)]] by (simp add: u_def ev_def env_def)
  ultimately show ?thesis using t(1) oku by (auto simp: freeClientArgv_def u_def)
qed

lemma strings_of_ok: "(\<And>a. a \<in> set as \<Longrightarrow> obj_at s a \<noteq> None) \<Longrightarrow> strings_of as s = Some (map (\<lambda>a. the (strs s a)) as)"
proof (induction as)
  case (Cons a as)
  then have "strs s a \<noteq> None" by (simp add: strs_def enc_def)
  then show ?case using Cons by (auto simp: str_of_strs)
qed simp

lemma propagate_ok:
  assumes "kv_ok zero s"
  shows "\<exists>s'. propagate db (d_argv s) s = Some s' \<and> kv_ok zero s' \<and> look s' = look s \<and> expi s' = expi s \<and> ev s s' [] [] 0 \<and>
    args s' = args s \<and> d_argv s' = d_argv s"
proof -
  define bs where "bs = map (\<lambda>a. the (strs s a)) (d_argv s)"
  define t where "t = (if d_aof_on s then s\<lparr>d_aof_feed := d_aof_feed s @ [(db, bs)]\<rparr> else s)"
  define s' where "s' = (if d_has_slaves t then t\<lparr>d_slave_feed := d_slave_feed t @ [(db, bs)]\<rparr> else t)"
  have "strings_of (d_argv s) s = Some bs" unfolding bs_def by (rule strings_of_ok) (rule arg_exists [OF assms])
  then have "propagate db (d_argv s) s = Some s'" by (simp add: propagate_def t_def s'_def)
  moreover have s': "obj_at s' = obj_at s" "dict_of s' = dict_of s" "expires_of s' = expires_of s"
    "d_argv s' = d_argv s" "d_store s' = d_store s" "env s' = env s" by (simp_all add: s'_def t_def env_def)
  moreover have "ev s s' [] [] 0" by (simp add: ev_def s'_def t_def env_def)
  ultimately show ?thesis using same_objects [OF s'] assms by simp
qed

section \<open>What the commands promise\<close>

fun pairs :: "'a list \<Rightarrow> ('a \<times> 'a) list" where
  "pairs (k # v # xs) = (k, v) # pairs xs"
| "pairs _ = []"

lemma pair_args_pairs: "even (length xs) \<Longrightarrow> pair_args (pairs xs) = xs"
  by (induction xs rule: pairs.induct) auto

definition sp_msets :: "ctx \<Rightarrow> bool \<Rightarrow> byte list list \<Rightarrow> contents \<Rightarrow> outcome" where
  "sp_msets c nx as L =
     (if even (length as) then sp_err (ReplyError ''wrong number of arguments for MSET'') L
      else sp_mset c nx (pairs (tl as)) L)"

text \<open>The commands that are functions of the live contents; \<open>None\<close> for the others.\<close>

primrec sp :: "cproc \<Rightarrow> ctx \<Rightarrow> byte list list \<Rightarrow> contents \<Rightarrow> outcome option" where
  "sp GetC = (\<lambda>c as L. Some (sp_get c (as ! 1) L))"
| "sp SetC = (\<lambda>c as L. Some (sp_set c False (as ! 1) (as ! 2) None L))"
| "sp SetnxC = (\<lambda>c as L. Some (sp_set c True (as ! 1) (as ! 2) None L))"
| "sp SetexC = (\<lambda>c as L. Some (sp_setex c 1000 (as ! 1) (as ! 2) (as ! 3) L))"
| "sp PsetexC = (\<lambda>c as L. Some (sp_setex c 1 (as ! 1) (as ! 2) (as ! 3) L))"
| "sp AppendC = (\<lambda>c as L. Some (sp_append c (as ! 1) (as ! 2) L))"
| "sp StrlenC = (\<lambda>c as L. Some (sp_strlen c (as ! 1) L))"
| "sp SetbitC = (\<lambda>c as L. Some (sp_setbit c (as ! 1) (as ! 2) (as ! 3) L))"
| "sp GetbitC = (\<lambda>c as L. Some (sp_getbit c (as ! 1) (as ! 2) L))"
| "sp SetrangeC = (\<lambda>c as L. Some (sp_setrange c (as ! 1) (as ! 2) (as ! 3) L))"
| "sp GetrangeC = (\<lambda>c as L. Some (sp_getrange c (as ! 1) (as ! 2) (as ! 3) L))"
| "sp SubstrC = (\<lambda>c as L. Some (sp_getrange c (as ! 1) (as ! 2) (as ! 3) L))"
| "sp IncrC = (\<lambda>c as L. Some (sp_incr c (as ! 1) 1 L))"
| "sp DecrC = (\<lambda>c as L. Some (sp_incr c (as ! 1) (- 1) L))"
| "sp MgetC = (\<lambda>c as L. Some (sp_mget c (tl as) L))"
| "sp IncrbyC = (\<lambda>c as L. Some (sp_incrby c 1 (as ! 1) (as ! 2) L))"
| "sp DecrbyC = (\<lambda>c as L. Some (sp_incrby c (- 1) (as ! 1) (as ! 2) L))"
| "sp GetsetC = (\<lambda>c as L. Some (sp_getset c (as ! 1) (as ! 2) L))"
| "sp MsetC = (\<lambda>c as L. Some (sp_msets c False as L))"
| "sp MsetnxC = (\<lambda>c as L. Some (sp_msets c True as L))"
| "sp BitopC = (\<lambda>c as L. None)"
| "sp BitcountC = (\<lambda>c as L. Some (sp_bitcount c as L))"
| "sp DelC = (\<lambda>c as L. None)"
| "sp ExistsC = (\<lambda>c as L. Some (sp_exists c (as ! 1) L))"
| "sp SelectC = (\<lambda>c as L. None)"
| "sp MoveC = (\<lambda>c as L. Some (sp_move c (as ! 1) (as ! 2) L))"
| "sp RenameC = (\<lambda>c as L. Some (sp_rename c False (as ! 1) (as ! 2) L))"
| "sp RenamenxC = (\<lambda>c as L. Some (sp_rename c True (as ! 1) (as ! 2) L))"
| "sp ExpireC = (\<lambda>c as L. None)"
| "sp ExpireatC = (\<lambda>c as L. None)"
| "sp PexpireC = (\<lambda>c as L. None)"
| "sp PexpireatC = (\<lambda>c as L. None)"
| "sp KeysC = (\<lambda>c as L. None)"
| "sp DbsizeC = (\<lambda>c as L. None)"
| "sp TypeC = (\<lambda>c as L. Some (sp_type c (as ! 1) L))"
| "sp FlushdbC = (\<lambda>c as L. None)"
| "sp FlushallC = (\<lambda>c as L. None)"
| "sp TtlC = (\<lambda>c as L. Some (sp_ttl c False (as ! 1) L))"
| "sp PttlC = (\<lambda>c as L. Some (sp_ttl c True (as ! 1) L))"
| "sp PersistC = (\<lambda>c as L. None)"

text \<open>
  The arguments for which the commands work: at most 512 MB each, as the request parser ensures, offsets that
  do not leave 64 bits (SETRANGE, DECRBY) or 32 (GETRANGE, BITCOUNT), and no classes in a pattern.
\<close>

definition fits :: "cproc \<Rightarrow> byte list list \<Rightarrow> bool" where
  "fits c as \<longleftrightarrow> (\<forall>b \<in> set as. length b \<le> 2 ^ 29) \<and>
     (case c of
        SetrangeC \<Rightarrow> (case num (as ! 2) of None \<Rightarrow> True | Some i \<Rightarrow> i + int (length (as ! 3)) < 2 ^ 63)
      | GetrangeC \<Rightarrow> (case num (as ! 3) of None \<Rightarrow> True | Some j \<Rightarrow> j < 2 ^ 32)
      | SubstrC \<Rightarrow> (case num (as ! 3) of None \<Rightarrow> True | Some j \<Rightarrow> j < 2 ^ 32)
      | BitcountC \<Rightarrow> length as = 4 \<longrightarrow> (case num (as ! 3) of None \<Rightarrow> True | Some j \<Rightarrow> j < 2 ^ 32)
      | DecrbyC \<Rightarrow> num (as ! 2) \<noteq> Some (- (2 ^ 63))
      | KeysC \<Rightarrow> 0 \<notin> set (as ! 1) \<and> 91 \<notin> set (as ! 1)
      | _ \<Rightarrow> True)"

text \<open>A string can grow to 512 MB, and the clock is a \<open>long long\<close>.\<close>

definition ready :: "dserver \<Rightarrow> bool" where
  "ready s \<longleftrightarrow> 2 ^ 29 \<le> d_alloc s \<and> 0 \<le> d_mstime s \<and> d_mstime s < 2 ^ 63"

lemma list_args:
  "length as = 1 \<Longrightarrow> as = [as ! 0]" "length as = 2 \<Longrightarrow> as = [as ! 0, as ! 1]" "length as = 3 \<Longrightarrow> as = [as ! 0, as ! 1, as ! 2]"
  "length as = 4 \<Longrightarrow> as = [as ! 0, as ! 1, as ! 2, as ! 3]" "1 \<le> length as \<Longrightarrow> as = (as ! 0) # tl as"
  by (auto simp: numeral_eq_Suc length_Suc_conv) (cases as; simp)

lemma arity_length:
  assumes "\<not> arity_error c (length as)"
  shows "0 < snd (cmd_info c) \<Longrightarrow> length as = nat (snd (cmd_info c))" "snd (cmd_info c) < 0 \<Longrightarrow> nat (- snd (cmd_info c)) \<le> length as"
  using assms by (auto simp: arity_error_def Let_def)

lemma msets_ok:
  assumes ok: "kv_ok zero s" and as: "raw_args as s" "3 \<le> length as"
  shows "meets s (msetGenericCommand nx s) (sp_msets (ctx_of s) nx as (live s))"
proof (cases "even (length as)")
  case True
  then have "even (length (d_argv s))" using raw_args_length [OF as(1)] by simp
  then show ?thesis using True meets_sp_err [OF ok refl ev_refl] by (simp add: msetGenericCommand_def sp_msets_def)
next
  case False
  then have "pair_args (pairs (tl as)) = tl as" by (intro pair_args_pairs) simp
  then have "raw_args ((as ! 0) # pair_args (pairs (tl as))) s" using as list_args(5) [of as] by simp
  from mset_ok [OF ok this] show ?thesis using False by (simp add: sp_msets_def)
qed

lemma proc_meets:
  assumes ok: "kv_ok zero s" and as: "raw_args as s" and ar: "\<not> arity_error c (length as)" and fit: "fits c as" and rd: "ready s"
    and sp: "sp c (ctx_of s) as (live s) = Some oc"
  shows "meets s (proc c s) oc"
proof -
  have r: "length as = 2 \<Longrightarrow> raw_args [as ! 0, as ! 1] s" "length as = 3 \<Longrightarrow> raw_args [as ! 0, as ! 1, as ! 2] s"
    "length as = 4 \<Longrightarrow> raw_args [as ! 0, as ! 1, as ! 2, as ! 3] s" "1 \<le> length as \<Longrightarrow> raw_args (as ! 0 # tl as) s"
    using as list_args [of as] by simp_all
  note l = arity_length [OF ar] and rd' = rd [unfolded ready_def]
  show ?thesis
  proof (cases c)
    case GetC then show ?thesis using l sp get_ok [OF ok r(1)] by simp
  next
    case SetC then show ?thesis using l sp set_ok(1) [OF ok r(2)] by simp
  next
    case SetnxC then show ?thesis using l sp set_ok(2) [OF ok r(2)] by simp
  next
    case SetexC then show ?thesis using l sp setex_ok(1) [OF ok r(3)] by simp
  next
    case PsetexC then show ?thesis using l sp setex_ok(2) [OF ok r(3)] by simp
  next
    case AppendC then show ?thesis using l sp rd' append_ok [OF ok r(2)] by simp
  next
    case StrlenC then show ?thesis using l sp strlen_ok [OF ok r(1)] by simp
  next
    case SetrangeC then show ?thesis using l sp rd' fit setrange_ok [OF ok r(3)] by (simp add: fits_def)
  next
    case GetrangeC then show ?thesis using l sp fit getrange_ok [OF ok r(3)] by (simp add: fits_def)
  next
    case SubstrC then show ?thesis using l sp fit getrange_ok [OF ok r(3)] by (simp add: fits_def)
  next
    case SetbitC then show ?thesis using l sp rd' setbit_ok [OF ok r(3)] by simp
  next
    case GetbitC then show ?thesis using l sp getbit_ok [OF ok r(2)] by simp
  next
    case BitcountC then show ?thesis using l sp fit bitcount_ok [OF ok as] by (simp add: fits_def)
  next
    case IncrC then show ?thesis using l sp incr_ok(1) [OF ok r(1)] by simp
  next
    case DecrC then show ?thesis using l sp incr_ok(2) [OF ok r(1)] by simp
  next
    case MgetC then show ?thesis using l sp mget_ok [OF ok r(4)] by simp
  next
    case IncrbyC then show ?thesis using l sp incrby_ok(1) [OF ok r(2)] by simp
  next
    case DecrbyC then show ?thesis using l sp fit incrby_ok(2) [OF ok r(2)] by (simp add: fits_def)
  next
    case GetsetC then show ?thesis using l sp getset_ok [OF ok r(2)] by simp
  next
    case MsetC then show ?thesis using l sp msets_ok [OF ok as, of False] by (auto simp: msetCommand_def)
  next
    case MsetnxC then show ?thesis using l sp msets_ok [OF ok as, of True] by (auto simp: msetnxCommand_def)
  next
    case ExistsC then show ?thesis using l sp exists_ok [OF ok r(1)] by simp
  next
    case MoveC then show ?thesis using l sp move_ok [OF ok r(2)] by simp
  next
    case RenameC then show ?thesis using l sp rename_ok [OF ok r(2), of False] by (auto simp: renameCommand_def)
  next
    case RenamenxC then show ?thesis using l sp rename_ok [OF ok r(2), of True] by (auto simp: renamenxCommand_def)
  next
    case TypeC then show ?thesis using l sp type_ok [OF ok r(1)] by simp
  next
    case TtlC then show ?thesis using l sp rd' ttl_ok(1) [OF ok r(1)] by simp
  next
    case PttlC then show ?thesis using l sp rd' ttl_ok(2) [OF ok r(1)] by simp
  qed (use sp in simp_all)
qed


text \<open>Every command of the table runs, and keeps the invariant.\<close>

definition safe :: "dserver \<Rightarrow> dserver option \<Rightarrow> bool" where
  "safe s r \<longleftrightarrow> (\<exists>s'. r = Some s' \<and> kv_ok zero s' \<and> d_alloc s' = d_alloc s \<and> d_mstime s' = d_mstime s \<and> d_dbnum s' = d_dbnum s)"

lemma meets_safe: "meets s r oc \<Longrightarrow> safe s r"
  unfolding meets_def safe_def by (auto split: prod.splits dest: ev_env)

lemma stores_safe: "stores s r oc \<Longrightarrow> safe s r"
  unfolding stores_def safe_def by (auto split: prod.splits dest: ev_env)

lemma select_safe:
  assumes ok: "kv_ok zero s" and as: "raw_args [c, b] s"
  shows "safe s (selectCommand s)"
proof -
  have b: "arg_raw 1 s = Some b" using raw_args_nth(4) [OF as, of 1] by simp
  define t where "t = snd (selectDb (atoi b) s)"
  have t: "obj_at t = obj_at s" "dict_of t = dict_of s" "expires_of t = expires_of s" "d_argv t = d_argv s" "d_store t = d_store s"
    "d_dbnum t = d_dbnum s" "d_db t < d_dbnum t" "d_alloc t = d_alloc s" "d_mstime t = d_mstime s"
    using kv_db [OF ok] by (auto simp: t_def selectDb_def)
  have "refs t = refs s" "rc t = rc s" using t by (simp_all add: refs_def rc_def shared_ref_def fun_eq_iff)
  then have "kv_ok zero t" using ok t unfolding kv_ok_def dbs_ok_def objs_ok_def by simp
  moreover have "\<exists>r. selectCommand s = Some (d_reply [r] t)" using b by (auto simp: selectCommand_def t_def split_beta Let_def)
  ultimately show ?thesis using t(6,8,9) by (auto simp: safe_def)
qed

lemma proc_safe:
  assumes ok: "kv_ok zero s" and as: "raw_args as s" and ar: "\<not> arity_error c (length as)" and fit: "fits c as" and rd: "ready s"
  shows "safe s (proc c s)"
proof (cases "sp c (ctx_of s) as (live s)")
  case (Some oc)
  then show ?thesis by (rule meets_safe [OF proc_meets [OF assms]])
next
  case None
  have r: "length as = 2 \<Longrightarrow> raw_args [as ! 0, as ! 1] s" "length as = 3 \<Longrightarrow> raw_args [as ! 0, as ! 1, as ! 2] s"
    "1 \<le> length as \<Longrightarrow> raw_args (as ! 0 # tl as) s"
    using as list_args [of as] by simp_all
  note l = arity_length [OF ar]
  show ?thesis
  proof (cases c)
    case BitopC
    then obtain there where "meets s (bitopCommand s) (sp_bitop (ctx_of s) there as (live s))"
      using bitop_ok [OF ok as] l rd by (auto simp: ready_def)
    then show ?thesis using BitopC meets_safe by simp
  next
    case DelC then show ?thesis using l stores_safe [OF del_ok [OF ok r(3)]] by simp
  next
    case SelectC then show ?thesis using l select_safe [OF ok r(1)] by simp
  next
    case ExpireC then show ?thesis using l stores_safe [OF expire_ok [OF ok r(2)]] by (simp add: expireCommand_def)
  next
    case ExpireatC then show ?thesis using l stores_safe [OF expire_ok [OF ok r(2)]] by (simp add: expireatCommand_def)
  next
    case PexpireC then show ?thesis using l stores_safe [OF expire_ok [OF ok r(2)]] by (simp add: pexpireCommand_def)
  next
    case PexpireatC then show ?thesis using l stores_safe [OF expire_ok [OF ok r(2)]] by (simp add: pexpireatCommand_def)
  next
    case KeysC
    then have "meets s (keysCommand s) (live s, MbulkHdr (length (matching s (as ! 1) (glob_spec False (as ! 1)))) #
        map Bulk (matching s (as ! 1) (glob_spec False (as ! 1))), [], 0)"
      using l fit by (intro keys_ok [OF ok r(1)] matchlen_glob) (simp_all add: fits_def)
    then show ?thesis using KeysC meets_safe by simp
  next
    case DbsizeC then show ?thesis using stores_safe [OF dbsize_ok [OF ok]] by simp
  next
    case FlushdbC then show ?thesis using stores_safe [OF flushdb_ok [OF ok]] by simp
  next
    case FlushallC then show ?thesis using stores_safe [OF flushall_ok [OF ok]] by simp
  next
    case PersistC then show ?thesis using l stores_safe [OF persist_ok [OF ok r(1)]] by simp
  qed (use None in simp_all)
qed

lemma live_ev: "ev s s' rs sg n \<Longrightarrow> look s' = look s \<Longrightarrow> expi s' = expi s \<Longrightarrow> live s' = live s"
  using ev_dead [of s s' rs sg n] by (simp add: live_def fun_eq_iff)

lemma call_meets:
  assumes "meets s (proc c s) oc"
  shows "meets s (call c s) oc"
proof -
  obtain L rs sg n where oc: "oc = (L, rs, sg, n)" by (cases oc) auto
  then obtain t where t: "proc c s = Some t" "kv_ok zero t" "live t = L" "ev s t rs sg n" using assms by (auto simp: meets_def)
  from propagate_ok [OF t(2), of "d_db t"] obtain u where u: "propagate (d_db t) (d_argv t) t = Some u" "kv_ok zero u" "look u = look t" "expi u = expi t"
    "ev t u [] [] 0" by blast
  have lu: "live u = L" using live_ev [OF u(5,3,4)] t(3) by simp
  have "ev s u rs sg n" using ev_trans [OF t(4) u(5)] by simp
  then show ?thesis using t u lu oc by (auto simp: meets_def call_def Let_def)
qed

lemma call_safe:
  assumes "safe s (proc c s)"
  shows "safe s (call c s)"
proof -
  obtain t where t: "proc c s = Some t" "kv_ok zero t" "d_alloc t = d_alloc s" "d_mstime t = d_mstime s" "d_dbnum t = d_dbnum s"
    using assms by (auto simp: safe_def)
  from propagate_ok [OF t(2), of "d_db t"] obtain u where u: "propagate (d_db t) (d_argv t) t = Some u" "kv_ok zero u" "ev t u [] [] 0" by blast
  show ?thesis using t u(1,2) ev_env [OF u(3)] by (simp add: safe_def call_def Let_def)
qed

section \<open>Sequences of requests\<close>

definition sp_request :: "cproc \<Rightarrow> ctx \<Rightarrow> byte list list \<Rightarrow> contents \<Rightarrow> outcome option" where
  "sp_request cmd c as L =
     (if arity_error cmd (length as)
      then Some (sp_err (ReplyError (''wrong number of arguments for '' @ [CHR 0x27] @ fst (cmd_info cmd) @ [CHR 0x27] @ '' command'')) L)
      else sp cmd c as L)"

text \<open>Keys expire when the time has come, and the command finds what is left.\<close>

primrec sp_requests ::
  "('c \<Rightarrow> ctx \<Rightarrow> byte list list \<Rightarrow> contents \<Rightarrow> outcome option) \<Rightarrow> (int \<times> 'c \<times> byte list list) list \<Rightarrow> ctx \<Rightarrow> contents \<Rightarrow> outcome option" where
  "sp_requests spec [] c L = Some (L, [], [], 0)"
| "sp_requests spec (r # rs) c L =
     (let c = c\<lparr>c_now := fst r\<rparr> in do {
        (L, out, sg, n) \<leftarrow> spec (fst (snd r)) c (snd (snd r)) (age c L);
        (L, out', sg', n') \<leftarrow> sp_requests spec rs c L;
        Some (L, out @ out', sg @ sg', n + n')
      })"

text \<open>The times of the requests do not go back.\<close>

primrec timely :: "int \<Rightarrow> (int \<times> 'a) list \<Rightarrow> bool" where
  "timely t [] \<longleftrightarrow> True"
| "timely t (r # rs) \<longleftrightarrow> t \<le> fst r \<and> fst r < 2 ^ 63 \<and> timely (fst r) rs"

text \<open>A state between two requests.\<close>

definition idle :: "dserver \<Rightarrow> bool" where
  "idle s \<longleftrightarrow> kv_ok zero s \<and> d_argv s = [] \<and> ready s"

lemma set_time:
  fixes s n defines "t \<equiv> s\<lparr>d_mstime := n\<rparr>"
  shows "kv_ok H t = kv_ok H s" "stored t = stored s" "d_argv t = d_argv s" "ctx_of t = (ctx_of s)\<lparr>c_now := n\<rparr>"
    "d_alloc t = d_alloc s" "d_out t = d_out s" "d_signals t = d_signals s" "d_dirty t = d_dirty s" "d_mstime t = n" "d_dbnum t = d_dbnum s"
proof -
  have o: "obj_at t = obj_at s" "dict_of t = dict_of s" "expires_of t = expires_of s"
    by (simp_all add: t_def obj_at_def dict_of_def expires_of_def fun_eq_iff)
  have "refs t = refs s" "rc t = rc s" using o by (simp_all add: refs_def rc_def shared_ref_def fun_eq_iff t_def)
  then show "kv_ok H t = kv_ok H s" using o by (simp add: kv_ok_def dbs_ok_def objs_ok_def) (simp add: t_def)
  show "stored t = stored s" using look_cong [OF o(1,2)] o(3) by (simp add: stored_def expi_def fun_eq_iff)
qed (simp_all add: t_def ctx_of_def)

lemma age_age: "c_now c \<le> n \<Longrightarrow> age (c\<lparr>c_now := n\<rparr>) (age c L) = age (c\<lparr>c_now := n\<rparr>) L"
  by (auto simp: age_def gone_def fun_eq_iff split: option.split)

lemma live_at: "d_mstime s \<le> n \<Longrightarrow> live (s\<lparr>d_mstime := n\<rparr>) = age ((ctx_of s)\<lparr>c_now := n\<rparr>) (live s)"
  unfolding live_stored [of "s\<lparr>d_mstime := n\<rparr>"] live_stored [of s] set_time by (simp add: age_age)

text \<open>Running a command on arguments that become objects before and are freed after.\<close>

lemma push_raw:
  assumes "kv_ok zero s" "d_argv s = []" "\<forall>b \<in> set as. length b \<le> 2 ^ 29"
  shows "raw_args as (push_args as s)" "kv_ok zero (push_args as s)" "live (push_args as s) = live s" "ev s (push_args as s) [] [] 0"
  using push_args_ok [OF assms(1,3)] assms(2) live_ev by (auto simp: raw_args_def args_def)

lemma serve_meets:
  assumes ok: "idle s" and small: "\<forall>b \<in> set as. length b \<le> 2 ^ 29" and m: "meets (push_args as s) (run (push_args as s)) (L, rs, sg, n)"
  shows "\<exists>s'. serve run as s = Some s' \<and> idle s' \<and> live s' = L \<and> ev s s' rs sg n"
proof -
  note p = push_raw [OF _ _ small, of s]
  have i: "kv_ok zero s" "d_argv s = []" "ready s" using ok by (simp_all add: idle_def)
  obtain t where t: "run (push_args as s) = Some t" "kv_ok zero t" "live t = L" "ev (push_args as s) t rs sg n" using m by (auto simp: meets_def)
  from freeClientArgv_ok [OF t(2)] obtain s' where s': "freeClientArgv t = Some s'" "kv_ok zero s'" "d_argv s' = []" "look s' = look t" "expi s' = expi t"
    "ev t s' [] [] 0" by blast
  have e: "ev s s' rs sg n" using ev_trans [OF ev_quiet [OF p(4) [OF i(1,2)] t(4)] s'(6)] by simp
  have "live s' = L" using live_ev [OF s'(6,4,5)] t(3) by simp
  moreover have "ready s'" using i(3) ev_env [OF e] by (simp add: ready_def)
  ultimately show ?thesis using t(1) s'(1,2,3) e by (auto simp: serve_def idle_def)
qed

lemma serve_safe:
  assumes ok: "idle s" and small: "\<forall>b \<in> set as. length b \<le> 2 ^ 29" and m: "safe (push_args as s) (run (push_args as s))"
  shows "\<exists>s'. serve run as s = Some s' \<and> idle s' \<and> d_mstime s' = d_mstime s"
proof -
  note p = push_raw [OF _ _ small, of s]
  have i: "kv_ok zero s" "d_argv s = []" "ready s" using ok by (simp_all add: idle_def)
  note e = ev_env [OF p(4) [OF i(1,2)]]
  obtain t where t: "run (push_args as s) = Some t" "kv_ok zero t" "d_alloc t = d_alloc s" "d_mstime t = d_mstime s"
    using m e by (auto simp: safe_def)
  from freeClientArgv_ok [OF t(2)] obtain s' where s': "freeClientArgv t = Some s'" "kv_ok zero s'" "d_argv s' = []" "ev t s' [] [] 0" by blast
  then show ?thesis using t i(3) ev_env [OF s'(4)] by (auto simp: serve_def idle_def ready_def)
qed

text \<open>
  What a table of commands owes its clients: every command that has a description meets it, and the others
  run and keep the invariant.
\<close>

locale command_table =
  fixes run :: "'c \<Rightarrow> dserver \<Rightarrow> dserver option"
    and spec :: "'c \<Rightarrow> ctx \<Rightarrow> byte list list \<Rightarrow> contents \<Rightarrow> outcome option"
    and fit :: "'c \<Rightarrow> byte list list \<Rightarrow> bool"
  assumes fit_small: "fit c as \<Longrightarrow> b \<in> set as \<Longrightarrow> length b \<le> 2 ^ 29"
    and run_safe: "kv_ok zero s \<Longrightarrow> raw_args as s \<Longrightarrow> ready s \<Longrightarrow> fit c as \<Longrightarrow> safe s (run c s)"
    and run_meets: "kv_ok zero s \<Longrightarrow> raw_args as s \<Longrightarrow> ready s \<Longrightarrow> fit c as \<Longrightarrow> spec c (ctx_of s) as (live s) = Some oc \<Longrightarrow>
      meets s (run c s) oc"
begin

lemma request_safe:
  assumes "idle s" "fit c as"
  shows "\<exists>s'. serve (run c) as s = Some s' \<and> idle s' \<and> d_mstime s' = d_mstime s"
proof (rule serve_safe [OF assms(1)])
  have i: "kv_ok zero s" "d_argv s = []" "ready s" and small: "\<forall>b \<in> set as. length b \<le> 2 ^ 29"
    using assms fit_small by (auto simp: idle_def)
  show "\<forall>b \<in> set as. length b \<le> 2 ^ 29" by (rule small)
  note p = push_raw [OF i(1,2) small]
  show "safe (push_args as s) (run c (push_args as s))"
    by (rule run_safe [OF p(2,1) _ assms(2)]) (use i(3) ev_env [OF p(4)] in \<open>simp add: ready_def\<close>)
qed

lemma request_meets:
  assumes "idle s" "fit c as" "spec c (ctx_of s) as (live s) = Some (L, rs, sg, n)"
  shows "\<exists>s'. serve (run c) as s = Some s' \<and> idle s' \<and> live s' = L \<and> ev s s' rs sg n"
proof (rule serve_meets [OF assms(1)])
  have i: "kv_ok zero s" "d_argv s = []" "ready s" and small: "\<forall>b \<in> set as. length b \<le> 2 ^ 29"
    using assms(1,2) fit_small by (auto simp: idle_def)
  show "\<forall>b \<in> set as. length b \<le> 2 ^ 29" by (rule small)
  note p = push_raw [OF i(1,2) small]
  show "meets (push_args as s) (run c (push_args as s)) (L, rs, sg, n)"
    by (rule run_meets [OF p(2,1) _ assms(2)])
      (use i(3) ev_env [OF p(4)] ctx_of_ev [OF p(4)] p(3) assms(3) in \<open>simp_all add: ready_def\<close>)
qed

lemma requests_safe:
  assumes "idle s" "timely (d_mstime s) reqs" "\<forall>r \<in> set reqs. fit (fst (snd r)) (snd (snd r))"
  shows "\<exists>s'. requests run reqs s = Some s' \<and> idle s'"
  using assms
proof (induction reqs arbitrary: s)
  case (Cons r reqs)
  define t where "t = s\<lparr>d_mstime := fst r\<rparr>"
  have t: "idle t" "d_mstime t = fst r" using Cons.prems(1,2) by (auto simp: idle_def ready_def t_def set_time)
  have f: "fit (fst (snd r)) (snd (snd r))" using Cons.prems(3) by simp
  from request_safe [OF t(1) f] obtain u where u: "serve (run (fst (snd r))) (snd (snd r)) t = Some u" "idle u" "d_mstime u = d_mstime t" by blast
  have "timely (d_mstime u) reqs" using Cons.prems(2) u(3) t(2) by simp
  from Cons.IH [OF u(2) this] Cons.prems(3) u(1) show ?case by (auto simp: t_def)
qed simp

lemma requests_meet:
  assumes "idle s" "timely (d_mstime s) reqs" "\<forall>r \<in> set reqs. fit (fst (snd r)) (snd (snd r))"
    and "sp_requests spec reqs (ctx_of s) (live s) = Some (L, rs, sg, n)"
  shows "\<exists>s'. requests run reqs s = Some s' \<and> idle s' \<and> live s' = L \<and> d_out s' = d_out s @ rs \<and> d_signals s' = d_signals s @ sg \<and>
    d_dirty s' = d_dirty s + n"
  using assms
proof (induction reqs arbitrary: s L rs sg n)
  case (Cons r reqs)
  define t where "t = s\<lparr>d_mstime := fst r\<rparr>"
  define c where "c = (ctx_of s)\<lparr>c_now := fst r\<rparr>"
  have t: "idle t" "d_mstime t = fst r" "ctx_of t = c" using Cons.prems(1,2) by (auto simp: idle_def ready_def t_def c_def set_time)
  have lt: "live t = age c (live s)" using Cons.prems(2) live_at [of s "fst r"] by (simp add: t_def c_def)
  have f: "fit (fst (snd r)) (snd (snd r))" using Cons.prems(3) by simp
  from Cons.prems(4) obtain L1 rs1 sg1 n1 L2 rs2 sg2 n2 where
    s1: "spec (fst (snd r)) c (snd (snd r)) (age c (live s)) = Some (L1, rs1, sg1, n1)" and
    s2: "sp_requests spec reqs c L1 = Some (L2, rs2, sg2, n2)" and
    eq: "L = L2" "rs = rs1 @ rs2" "sg = sg1 @ sg2" "n = n1 + n2"
    by (auto simp: Let_def c_def split: bind_splits)
  from request_meets [OF t(1) f] s1 t(3) lt obtain u where u: "serve (run (fst (snd r))) (snd (snd r)) t = Some u" "idle u" "live u = L1"
    "ev t u rs1 sg1 n1" by auto
  have "timely (d_mstime u) reqs" using Cons.prems(2) ev_env [OF u(4)] t(2) by simp
  from Cons.IH [OF u(2) this] Cons.prems(3) s2 u(3) ctx_of_ev [OF u(4)] t(3) obtain s' where
    s': "requests run reqs u = Some s'" "idle s'" "live s' = L2" "d_out s' = d_out u @ rs2" "d_signals s' = d_signals u @ sg2" "d_dirty s' = d_dirty u + n2"
    by auto
  have "d_out u = d_out s @ rs1" "d_signals u = d_signals s @ sg1" "d_dirty u = d_dirty s + n1"
    using u(4) by (simp_all add: ev_def t_def)
  then show ?case using s' u(1) eq by (auto simp: t_def)
qed simp

end

interpretation redis: command_table processCommand sp_request fits
proof
  show "length b \<le> 2 ^ 29" if "fits c as" "b \<in> set as" for c as b using that by (simp add: fits_def)
next
  fix s as c
  assume a: "kv_ok zero s" "raw_args as s" "ready s" "fits c as"
  have l: "length (d_argv s) = length as" by (rule raw_args_length [OF a(2)])
  show "safe s (processCommand c s)"
  proof (cases "arity_error c (length as)")
    case True
    then show ?thesis using a(1) by (simp add: processCommand_def l safe_def)
  next
    case False
    then show ?thesis using call_safe [OF proc_safe [OF a(1,2) False a(4,3)]] by (simp add: processCommand_def l)
  qed
  fix oc assume sp: "sp_request c (ctx_of s) as (live s) = Some oc"
  show "meets s (processCommand c s) oc"
  proof (cases "arity_error c (length as)")
    case True
    then show ?thesis using sp meets_sp_err [OF a(1) refl ev_refl] by (auto simp: processCommand_def l sp_request_def)
  next
    case False
    then have "sp c (ctx_of s) as (live s) = Some oc" using sp by (simp add: sp_request_def)
    from call_meets [OF proc_meets [OF a(1,2) False a(4,3) this]] False show ?thesis by (simp add: processCommand_def l)
  qed
qed

end
