(* ===== verification/Server.thy ===== *)
theory Server
  imports Commands
begin

text \<open>
  The server from its start on: the shared integers of \<open>createSharedObjects\<close>, empty databases, and what holds
  after any sequence of requests.
\<close>

section \<open>The start\<close>

definition shared_integers :: store where
  "shared_integers =
     \<lparr>so_objs = \<lambda>a. if a < REDIS_SHARED_INTEGERS then Some \<lparr>o_str = ENC_INT (of_nat a), o_refcount = 1, o_lru = 0\<rparr> else None,
      so_next = REDIS_SHARED_INTEGERS, so_lruclock = 0, so_maxmemory = 0, so_shared = \<lambda>n. n\<rparr>"

definition start :: "nat \<Rightarrow> bool \<Rightarrow> dserver" where
  "start dbnum slave =
     \<lparr>d_store = shared_integers, d_dbs = (\<lambda>_. \<lparr>db_dict = [], db_expires = []\<rparr>), d_dbnum = dbnum, d_db = 0, d_argv = [],
      d_out = [], d_signals = [], d_aof_on = True, d_has_slaves = True, d_aof_feed = [], d_slave_feed = [], d_dirty = 0,
      d_mstime = 0, d_loading = False, d_slave = slave, d_child = False, d_expired = 0, d_hits = 0, d_misses = 0,
      d_alloc = 2 ^ 29\<rparr>"

lemma start_fields:
  "dict_of (start n sl) = (\<lambda>_. [])" "expires_of (start n sl) = (\<lambda>_. [])"
  "obj_at (start n sl) a = (if a < REDIS_SHARED_INTEGERS then Some \<lparr>o_str = ENC_INT (of_nat a), o_refcount = 1, o_lru = 0\<rparr> else None)"
  "shared_ref (start n sl) a = (if a < REDIS_SHARED_INTEGERS then 1 else 0)"
  by (simp_all add: start_def shared_integers_def dict_of_def expires_of_def obj_at_def shared_ref_def fun_eq_iff)

lemma start_idle: "0 < n \<Longrightarrow> idle (start n sl)"
proof -
  assume n: "0 < n"
  have "dbs_ok (start n sl)" using n by (simp add: dbs_ok_def start_fields) (simp add: start_def)
  moreover have "objs_ok (start n sl)"
    by (simp add: objs_ok_def start_fields) (simp add: start_def shared_integers_def)
  moreover have "refs (start n sl) a = shared_ref (start n sl) a" for a
    by (simp add: refs_def start_fields) (simp add: start_def)
  then have "rc (start n sl) a = int (refs (start n sl) a)" for a
    by (simp add: rc_def start_fields)
  ultimately show ?thesis by (simp add: idle_def kv_ok_def ready_def) (simp add: start_def)
qed

lemma start_live: "live (start n sl) = Map.empty"
  by (simp add: live_stored stored_def look_def start_fields age_def fun_eq_iff)

lemma start_ctx: "ctx_of (start n sl) = \<lparr>c_db = 0, c_dbnum = n, c_now = 0, c_frozen = sl\<rparr>"
  by (simp add: ctx_of_def start_def)

section \<open>Sequences of requests\<close>

text \<open>
  C1: Any sequence of requests to the commands that are functions of what clients see (the string commands,
  EXISTS, TYPE, TTL, RENAME, MOVE), with any arguments that fit and at times that do not go back, runs without a failed assertion, an
  access to freed memory or a leak, and replies, changes, signals and counts what the abstract commands
  say: sharing and encoding of objects, reference counts, lazy expiry and the copies made before an object is
  modified cannot be seen.
\<close>

theorem commands_refine:
  assumes "idle s" "timely (d_mstime s) reqs" "\<forall>r \<in> set reqs. fits (fst (snd r)) (snd (snd r))"
    and "sp_requests sp_request reqs (ctx_of s) (live s) = Some (L, out, sg, n)"
  shows "\<exists>s'. requests processCommand reqs s = Some s' \<and> idle s' \<and> live s' = L \<and> d_out s' = d_out s @ out \<and>
    d_signals s' = d_signals s @ sg \<and> d_dirty s' = d_dirty s + n"
  using assms by (rule redis.requests_meet)

lemma demo_numbers:
  "num [50] = Some 2" "num [57] = Some 9" "num [49, 48] = Some 10" "num [49, 48, 120] = None" "idec 10 = [49, 48]"
  "llong 2000 = 2000" "llong 2001 = 2001"
  by code_simp+

definition demo_requests :: "(int \<times> cproc \<times> byte list list) list" where
  "demo_requests =
     [(1, SetexC, [[115], [107], [50], [57]]), (2, IncrC, [[105], [107]]), (3, AppendC, [[97], [107], [120]]),
      (4, IncrC, [[105], [107]]), (2005, GetC, [[103], [107]])]"

theorem commands_refine_witness:
  "\<exists>s'. requests processCommand demo_requests (start 16 False) = Some s' \<and> idle s' \<and> live s' = Map.empty \<and>
    d_out s' = [Shared ''ok'', Shared ''colon'', Raw [49, 48], Shared ''crlf'', LongLong 3, not_int, Shared ''nullbulk''] \<and>
    d_signals s' = [KeyModified 0 [107], KeyModified 0 [107], KeyModified 0 [107]] \<and> d_dirty s' = 3"
proof -
  have "sp_requests sp_request demo_requests (ctx_of (start 16 False)) (live (start 16 False)) =
      Some (Map.empty, [Shared ''ok'', Shared ''colon'', Raw [49, 48], Shared ''crlf'', LongLong 3, not_int, Shared ''nullbulk''],
        [KeyModified 0 [107], KeyModified 0 [107], KeyModified 0 [107]], 3)"
    unfolding start_live start_ctx demo_requests_def
    by (simp add: sp_request_def arity_error_def sp_setex_def sp_set_def sp_incr_def sp_append_def sp_get_def sp_err_def age_def gone_def
        demo_numbers Let_def not_int_def fun_eq_iff)
  from commands_refine [OF start_idle _ _ this] show ?thesis
    by (simp add: demo_requests_def fits_def) (simp add: start_def)
qed

section \<open>States that are reached\<close>

text \<open>A request that fits, at a time that does not go back, on an idle server.\<close>

inductive reached :: "dserver \<Rightarrow> dserver \<Rightarrow> bool" for s\<^sub>0 where
  here: "reached s\<^sub>0 s\<^sub>0"
| served: "reached s\<^sub>0 s \<Longrightarrow> d_mstime s \<le> now \<Longrightarrow> now < 2 ^ 63 \<Longrightarrow> fits c as \<Longrightarrow>
    serve (processCommand c) as (s\<lparr>d_mstime := now\<rparr>) = Some s' \<Longrightarrow> reached s\<^sub>0 s'"

inductive_cases reachedE: "reached s\<^sub>0 s"

lemma idle_at: "idle s \<Longrightarrow> d_mstime s \<le> now \<Longrightarrow> now < 2 ^ 63 \<Longrightarrow> idle (s\<lparr>d_mstime := now\<rparr>)"
  by (auto simp: idle_def ready_def set_time)

lemma reached_idle: "reached s\<^sub>0 s \<Longrightarrow> idle s\<^sub>0 \<Longrightarrow> idle s"
proof (induction rule: reached.induct)
  case (served s now c as s')
  from redis.request_safe [OF idle_at [OF served.IH [OF served.prems] served.hyps(2,3)] served.hyps(4)] served.hyps(5)
  show ?case by auto
qed

text \<open>
  C2: The states a server reaches are well formed: every object has as many references as its count says and
  none is left without, expire times belong to keys, strings and keys have at most 512 MB.  From every such
  state every request to any command of the table that fits is served: no assertion fails and no freed
  object is used.
\<close>

theorem reached_well_formed:
  assumes "reached (start n sl) s" "0 < n"
  shows "kv_ok zero s \<and> d_argv s = [] \<and>
    (\<forall>now c as. d_mstime s \<le> now \<longrightarrow> now < 2 ^ 63 \<longrightarrow> fits c as \<longrightarrow>
      (\<exists>s'. serve (processCommand c) as (s\<lparr>d_mstime := now\<rparr>) = Some s' \<and> reached (start n sl) s'))"
proof -
  have i: "idle s" using reached_idle [OF assms(1) start_idle [OF assms(2)]] .
  have "\<exists>s'. serve (processCommand c) as (s\<lparr>d_mstime := now\<rparr>) = Some s' \<and> reached (start n sl) s'"
    if now: "d_mstime s \<le> now" "now < 2 ^ 63" and f: "fits c as" for now c as
  proof -
    from redis.request_safe [OF idle_at [OF i now] f] obtain s' where s': "serve (processCommand c) as (s\<lparr>d_mstime := now\<rparr>) = Some s'" by blast
    then show ?thesis using reached.served [OF assms(1) now f s'] by blast
  qed
  then show ?thesis using i by (simp add: idle_def)
qed

theorem reached_well_formed_witness:
  "\<exists>s. serve (processCommand DelC) [[100], [107]] ((start 16 False)\<lparr>d_mstime := 7\<rparr>) = Some s \<and> reached (start 16 False) s"
proof -
  have "(0 :: nat) < 16" "d_mstime (start 16 False) \<le> 7" "(7 :: int) < 2 ^ 63" "fits DelC [[100], [107]]" by (simp_all add: start_def fits_def)
  then show ?thesis using reached_well_formed [OF reached.here, of 16 False] by blast
qed

section \<open>What is signalled\<close>

text \<open>The signals that reach the clients that watch a key.\<close>

definition touches :: "signal list \<Rightarrow> nat \<times> key \<Rightarrow> bool" where
  "touches sg p \<longleftrightarrow> KeyModified (fst p) (snd p) \<in> set sg \<or> DbFlushed (int (fst p)) \<in> set sg \<or> DbFlushed (- 1) \<in> set sg"

definition announced :: "contents \<Rightarrow> outcome \<Rightarrow> bool" where
  "announced L oc \<longleftrightarrow> (case oc of (L', rs, sg, n) \<Rightarrow> \<forall>p. L' p \<noteq> L p \<longrightarrow> touches sg p \<and> 0 < n)"

lemma announced_simps [simp]:
  "announced L (sp_err r L)" "announced L (L, rs, [], 0)" "announced L (L((db, k) := v), rs, [KeyModified db k], 1)"
  by (simp_all add: announced_def sp_err_def touches_def)

lemma put_all_change: "put_all db kvs L p \<noteq> L p \<Longrightarrow> \<exists>kv \<in> set kvs. p = (db, fst kv)"
proof (induction kvs arbitrary: L)
  case (Cons kv kvs)
  show ?case
  proof (cases "p = (db, fst kv)")
    case False
    then have "put_all db kvs (L((db, fst kv) \<mapsto> (AStr (snd kv), None))) p \<noteq> (L((db, fst kv) \<mapsto> (AStr (snd kv), None))) p"
      using Cons.prems by (simp del: fun_upd_apply) (simp add: fun_upd_other)
    from Cons.IH [OF this] show ?thesis by auto
  qed simp
qed simp

lemma sp_announced:
  assumes "sp c cx as L = Some oc" "c \<noteq> MoveC"
  shows "announced L oc"
proof -
  have m: "announced L (sp_mset cx nx kvs L)" for nx kvs
    using put_all_change [of "c_db cx" kvs L] by (force simp: sp_mset_def announced_def sp_err_def touches_def)
  have r: "announced L (L((db, k2) := v, (db, k1) := w), rs, [KeyModified db k1, KeyModified db k2], 1)" for db k1 k2 v w rs
    by (simp add: announced_def touches_def)
  show ?thesis
    using assms m r
    by (cases c)
      (auto simp: sp_get_def sp_set_def sp_setex_def sp_append_def sp_strlen_def sp_setrange_def sp_getrange_def sp_incr_def sp_mget_def
        sp_incrby_def sp_getset_def sp_msets_def sp_exists_def sp_type_def sp_ttl_def sp_rename_def sp_setbit_def sp_getbit_def sp_bitcount_def Let_def
        split: option.splits aval.splits if_splits)
qed

lemma bitop_announced: "L (c_db c, as ! 2) \<noteq> None \<longrightarrow> there \<Longrightarrow> announced L (sp_bitop c there as L)"
  by (cases "L (c_db c, as ! 2)") (auto simp: sp_bitop_def announced_def sp_err_def touches_def Let_def split: option.split)

definition tells :: "dserver \<Rightarrow> dserver \<Rightarrow> bool" where
  "tells s s' \<longleftrightarrow> (\<exists>sg. d_signals s' = d_signals s @ sg \<and> (\<forall>p. live s' p \<noteq> live s p \<longrightarrow> touches sg p \<and> d_dirty s < d_dirty s'))"

lemma meets_tells: "meets s (Some s') oc \<Longrightarrow> announced (live s) oc \<Longrightarrow> tells s s'"
  by (auto simp: meets_def announced_def tells_def ev_def)

lemma stores_tells: "stores s (Some s') oc \<Longrightarrow> announced (stored s) oc \<Longrightarrow> tells s s'"
proof -
  assume st: "stores s (Some s') oc" and an: "announced (stored s) oc"
  obtain S rs sg n where oc: "oc = (S, rs, sg, n)" by (cases oc) auto
  then have s': "stored s' = S" "ev s s' rs sg n" using st by (auto simp: stores_def)
  have "stored s' p \<noteq> stored s p" if "live s' p \<noteq> live s p" for p
    using that ctx_of_ev [OF s'(2)] by (auto simp: live_stored age_def)
  then show ?thesis using an oc s' by (auto simp: announced_def tells_def ev_def)
qed

lemma deleted_iff: "k \<in> set (deleted db ks S) \<longleftrightarrow> k \<in> set ks \<and> S (db, k) \<noteq> None"
  by (induction ks arbitrary: S) auto

lemma del_announced: "announced S (sp_del c ks S)"
proof -
  have "0 < int (length (deleted (c_db c) ks S)) \<and> touches (map (KeyModified (c_db c)) (deleted (c_db c) ks S)) p"
    if "S p \<noteq> None" "fst p = c_db c" "snd p \<in> set ks" for p
  proof -
    have d: "snd p \<in> set (deleted (c_db c) ks S)" using that deleted_iff [of "snd p" "c_db c" ks S] by (metis prod.collapse)
    then show ?thesis using that(2) by (auto simp: touches_def intro: length_pos_if_in_set)
  qed
  note * = this
  show ?thesis unfolding announced_def sp_del_def Let_def prod.case
  proof (intro allI impI)
    fix p assume "(if fst p = c_db c \<and> snd p \<in> set ks then None else S p) \<noteq> S p"
    then have "S p \<noteq> None" "fst p = c_db c" "snd p \<in> set ks" by (metis, metis, metis)
    from * [OF this] show "touches (map (KeyModified (c_db c)) (deleted (c_db c) ks S)) p \<and> 0 < int (length (deleted (c_db c) ks S))" by blast
  qed
qed

lemma keys_in_pos: "kv_ok zero s \<Longrightarrow> stored s (db, k) \<noteq> None \<Longrightarrow> 0 < keys_in db (stored s)"
  using keys_in_stored [of s db] stored_None [of zero s db k] by (cases "dict_of s db") auto

lemma flush_announced:
  assumes ok: "kv_ok zero s"
  shows "announced (stored s) (sp_flushdb (ctx_of s) (stored s))" "announced (stored s) (sp_flushall (ctx_of s) (stored s))"
proof -
  show "announced (stored s) (sp_flushdb (ctx_of s) (stored s))"
    unfolding announced_def sp_flushdb_def prod.case
  proof (intro allI impI)
    fix p assume "flushed {c_db (ctx_of s)} (stored s) p \<noteq> stored s p"
    then have "fst p = d_db s" "None \<noteq> stored s p" by (auto simp: flushed_def split: if_splits)
    then have "fst p = d_db s" "stored s (fst p, snd p) \<noteq> None" unfolding prod.collapse by (simp, metis)
    then show "touches [DbFlushed (int (c_db (ctx_of s)))] p \<and> 0 < keys_in (c_db (ctx_of s)) (stored s)"
      using keys_in_pos [OF ok, of "fst p" "snd p"] by (simp add: touches_def)
  qed
  have "0 \<le> keys_in db S" for db S by (simp add: keys_in_def)
  then have "0 < (\<Sum>db < d_dbnum s. keys_in db (stored s)) + 1" by (meson add_nonneg_pos sum_nonneg zero_less_one)
  then show "announced (stored s) (sp_flushall (ctx_of s) (stored s))"
    by (auto simp: announced_def sp_flushall_def touches_def)
qed

lemma proc_tells:
  assumes ok: "kv_ok zero s" and as: "raw_args as s" and ar: "\<not> arity_error c (length as)" and fit: "fits c as" and rd: "ready s"
    and c: "c \<noteq> MoveC" "c \<noteq> PersistC" and run: "proc c s = Some s'"
  shows "tells s s'"
proof (cases "sp c (ctx_of s) as (live s)")
  case (Some oc)
  then show ?thesis using proc_meets [OF assms(1-5) Some] run sp_announced [OF Some c(1)] meets_tells by simp
next
  case None
  have r: "length as = 2 \<Longrightarrow> raw_args [as ! 0, as ! 1] s" "length as = 3 \<Longrightarrow> raw_args [as ! 0, as ! 1, as ! 2] s"
    "1 \<le> length as \<Longrightarrow> raw_args (as ! 0 # tl as) s"
    using as list_args [of as] by simp_all
  note l = arity_length [OF ar]
  have ex: "announced (stored s) (sp_expire (ctx_of s) base sec k e (stored s))" for base sec k e
    by (auto simp: sp_expire_def Let_def split: option.split)
  have "stores s (expireGenericCommand base sec s) (sp_expire (ctx_of s) base sec (as ! 1) (as ! 2) (stored s))" if "length as = 3" for base sec
    by (rule expire_ok [OF ok r(2) [OF that]])
  then have ext: "tells s s'" if "length as = 3" "expireGenericCommand base sec s = Some s'" for base sec
    using stores_tells ex that by metis
  show ?thesis
  proof (cases c)
    case BitopC
    then obtain there where "live s (d_db s, as ! 2) \<noteq> None \<longrightarrow> there" "meets s (bitopCommand s) (sp_bitop (ctx_of s) there as (live s))"
      using bitop_ok [OF ok as] l rd by (auto simp: ready_def)
    then show ?thesis using BitopC run meets_tells bitop_announced [of "live s" "ctx_of s" as there] by simp
  next
    case DelC
    then show ?thesis using l run stores_tells [OF _ del_announced] del_ok [OF ok r(3)] by force
  next
    case SelectC
    then have "\<exists>r. s' = d_reply [r] s \<or> (\<exists>n. s' = d_reply [r] (s\<lparr>d_db := n\<rparr>))" using run
      by (auto simp: selectCommand_def selectDb_def Let_def split: bind_splits if_splits)
    moreover have "live (s\<lparr>d_db := n\<rparr>) = live s" for n
    proof -
      have "look (s\<lparr>d_db := n\<rparr>) = look s" by (rule look_cong) simp_all
      moreover have "expi (s\<lparr>d_db := n\<rparr>) = expi s" "dead (s\<lparr>d_db := n\<rparr>) = dead s"
        by (simp_all add: expi_def dead_def fun_eq_iff split: option.split)
      ultimately show ?thesis by (simp add: live_def fun_eq_iff)
    qed
    ultimately show ?thesis by (auto simp: tells_def)
  next
    case ExpireC then show ?thesis using l run ext by (simp add: expireCommand_def)
  next
    case ExpireatC then show ?thesis using l run ext by (simp add: expireatCommand_def)
  next
    case PexpireC then show ?thesis using l run ext by (simp add: pexpireCommand_def)
  next
    case PexpireatC then show ?thesis using l run ext by (simp add: pexpireatCommand_def)
  next
    case KeysC
    then have "meets s (keysCommand s) (live s, MbulkHdr (length (matching s (as ! 1) (glob_spec False (as ! 1)))) #
        map Bulk (matching s (as ! 1) (glob_spec False (as ! 1))), [], 0)"
      using l fit by (intro keys_ok [OF ok r(1)] matchlen_glob) (simp_all add: fits_def)
    then show ?thesis using KeysC run meets_tells by simp
  next
    case DbsizeC
    then show ?thesis using run stores_tells [of s s' "sp_dbsize (ctx_of s) (stored s)"] dbsize_ok [OF ok] by (simp add: sp_dbsize_def)
  next
    case FlushdbC
    then show ?thesis using run stores_tells [OF _ flush_announced(1) [OF ok]] flushdb_ok [OF ok] by simp
  next
    case FlushallC
    then show ?thesis using run stores_tells [OF _ flush_announced(2) [OF ok]] flushall_ok [OF ok] by simp
  qed (use None c in simp_all)
qed

lemma tells_after: "tells s t \<Longrightarrow> ev t u [] [] 0 \<Longrightarrow> live u = live t \<Longrightarrow> tells s u"
  by (auto simp: tells_def ev_def)

lemma tells_before: "tells t u \<Longrightarrow> ev s t [] [] 0 \<Longrightarrow> live t = live s \<Longrightarrow> tells s u"
  by (auto simp: tells_def ev_def)

text \<open>
  C3: Whatever a request changes for clients, a key that appears, disappears or has another value or expire
  time, is announced: \<open>signalModifiedKey\<close> is called for the key or \<open>signalFlushedDb\<close> for its database, so that
  transactions watching it abort, and \<open>dirty\<close> grows, so that the command is propagated.  This holds for every
  command of the table but MOVE and PERSIST.
\<close>

theorem changes_announced:
  assumes "idle s" "fits c as" "c \<noteq> MoveC" "c \<noteq> PersistC" "serve (processCommand c) as s = Some s'" "live s' p \<noteq> live s p"
  shows "\<exists>sg. d_signals s' = d_signals s @ sg \<and> touches sg p \<and> d_dirty s < d_dirty s'"
proof -
  have i: "kv_ok zero s" "d_argv s = []" "ready s" and small: "\<forall>b \<in> set as. length b \<le> 2 ^ 29"
    using assms(1,2) by (auto simp: idle_def fits_def)
  define t where "t = push_args as s"
  note p = push_raw [OF i(1,2) small, folded t_def]
  have rd: "ready t" using i(3) ev_env [OF p(4)] by (simp add: ready_def)
  obtain u where u: "processCommand c t = Some u" "freeClientArgv u = Some s'" using assms(5) by (auto simp: serve_def t_def split: bind_splits)
  have "kv_ok zero u \<and> tells t u"
  proof (cases "arity_error c (length as)")
    case True
    then have "u = d_reply [ReplyError (''wrong number of arguments for '' @ [CHR 0x27] @ fst (cmd_info c) @ [CHR 0x27] @ '' command'')] t"
      using u(1) raw_args_length [OF p(1)] by (simp add: processCommand_def)
    then show ?thesis using p(2) by (simp add: tells_def)
  next
    case False
    then have run: "call c t = Some u" using u(1) raw_args_length [OF p(1)] by (simp add: processCommand_def)
    from proc_safe [OF p(2,1) False assms(2) rd] obtain v where v: "proc c t = Some v" "kv_ok zero v" by (auto simp: safe_def)
    have tv: "tells t v" by (rule proc_tells [OF p(2,1) False assms(2) rd assms(3,4) v(1)])
    from propagate_ok [OF v(2), of "d_db v"] obtain w where w: "propagate (d_db v) (d_argv v) v = Some w" "kv_ok zero w" "look w = look v" "expi w = expi v"
      "ev v w [] [] 0" by blast
    have "u = v \<or> u = w" using run v(1) w(1) by (auto simp: call_def Let_def split: if_splits)
    then show ?thesis using v(2) w(2) tv tells_after [OF tv w(5) live_ev [OF w(5,3,4)]] by auto
  qed
  then have ok: "kv_ok zero u" and tu: "tells t u" by blast+
  from freeClientArgv_ok [OF ok] u(2) have f: "look s' = look u" "expi s' = expi u" "ev u s' [] [] 0" by auto
  have "tells s s'" by (rule tells_before [OF tells_after [OF tu f(3) live_ev [OF f(3,1,2)]] p(4,3)])
  then show ?thesis using assms(6) unfolding tells_def by blast
qed


theorem changes_announced_witness:
  "\<exists>s' sg. serve (processCommand SetC) [[115], [107], [118]] (start 16 False) = Some s' \<and>
    d_signals s' = d_signals (start 16 False) @ sg \<and> touches sg (0, [107]) \<and> d_dirty (start 16 False) < d_dirty s'"
proof -
  have i: "idle (start 16 False)" and f: "fits SetC [[115], [107], [118]]" by (simp_all add: start_idle fits_def)
  have "sp_request SetC (ctx_of (start 16 False)) [[115], [107], [118]] (live (start 16 False)) =
      Some ([(0, [107]) \<mapsto> (AStr [118], None)], [Shared ''ok''], [KeyModified 0 [107]], 1)"
    by (simp add: sp_request_def arity_error_def start_ctx start_live sp_set_def)
  from redis.request_meets [OF i f this] obtain s' where s': "serve (processCommand SetC) [[115], [107], [118]] (start 16 False) = Some s'"
    "live s' = [(0, [107]) \<mapsto> (AStr [118], None)]" by blast
  have "live s' (0, [107]) \<noteq> live (start 16 False) (0, [107])" by (simp add: s'(2) start_live)
  from changes_announced [OF i f _ _ s'(1) this] s'(1) show ?thesis by simp
qed

section \<open>The limits of the commands\<close>

lemma getrange_string:
  assumes ok: "kv_ok zero s" and as: "raw_args [c, k, i, j] s" and b: "live s (d_db s, k) = Some (AStr b, e)"
    and n: "num i = Some x" "num j = Some y" and r: "range_ends (int (length b)) x y = (x', y')" and xy: "x' \<le> y'"
    and out: "rdz b x' (nat (y' - x' + 1)) = None"
  shows "getrangeCommand s = None"
proof -
  have k: "arg_raw 1 s = Some k" "arg 2 s = Some (d_argv s ! 2)" "strs s (d_argv s ! 2) = Some i"
    "arg 3 s = Some (d_argv s ! 3)" "strs s (d_argv s ! 3) = Some j"
    using raw_args_nth(4) [OF as, of 1] raw_args_nth(1,6) [OF as, of 2] raw_args_nth(1,6) [OF as, of 3] by simp_all
  obtain ov t where t: "lookupKeyRead (d_db s) k s = Some (ov, t)" "kv_ok zero t" "live t = live s" "found (d_db s) k ov t"
    by (rule lookup_read [OF ok, of "d_db s" k])
  show ?thesis using t(2,4)
  proof (cases rule: found_cases)
    case (String a b' w)
    then have "b' = b" using t(3) b by simp
    then show ?thesis using t(1) k n String r xy out
      by (simp add: getrangeCommand_def lookupKeyReadOrReply_def getLong_num str_of_strs)
  qed (use t(3) b in simp_all)
qed

text \<open>A server that holds one string, with the arguments of the next command.\<close>

lemma demo_state:
  assumes "\<forall>b \<in> set as. length b \<le> 2 ^ 29"
  obtains t where "kv_ok zero t" "raw_args as t" "live t = [(0, [107]) \<mapsto> (AStr [118], None)]" "d_db t = 0" "d_dbnum t = 16" "d_alloc t = 2 ^ 29"
proof -
  have "sp_request SetC (ctx_of (start 16 False)) [[115], [107], [118]] (live (start 16 False)) =
      Some ([(0, [107]) \<mapsto> (AStr [118], None)], [Shared ''ok''], [KeyModified 0 [107]], 1)"
    by (simp add: sp_request_def arity_error_def start_ctx start_live sp_set_def)
  moreover have f: "fits SetC [[115], [107], [118]]" and i: "idle (start 16 False)" by (simp_all add: fits_def start_idle)
  ultimately obtain s where s: "idle s" "live s = [(0, [107]) \<mapsto> (AStr [118], None)]"
    "ev (start 16 False) s [Shared ''ok''] [KeyModified 0 [107]] 1" using redis.request_meets [OF i f] by metis
  have i: "kv_ok zero s" "d_argv s = []" using s(1) by (simp_all add: idle_def)
  note p = push_raw [OF i assms]
  have "d_db (push_args as s) = 0" "d_dbnum (push_args as s) = 16" "d_alloc (push_args as s) = 2 ^ 29"
    using ev_env [OF p(4)] ev_env [OF s(3)] by (simp_all add: start_def)
  with that [OF p(2,1)] p(3) s(2) show ?thesis by simp
qed

lemma num_idec:
  assumes "- (2 ^ 63) \<le> i" "i < 2 ^ 63"
  shows "num (idec i) = Some i"
proof -
  have "sint (word_of_int i :: u64) = i" using assms llong_small [of i] by (simp add: llong_def)
  then show ?thesis using strtoll_idec [of i "[]"] assms by (simp add: num_def getLongLongFromObject_def)
qed

lemma demo_small: "- (2 ^ 63) \<le> i \<Longrightarrow> i < 2 ^ 63 \<Longrightarrow> length (idec i) \<le> 536870912"
  using length_idec [of i] by simp

text \<open>
  C12: GETRANGE compares only the low 32 bits of its end with the length: an end of 2^32 or more whose low bits are
  below the length, with a start not behind it, is not cut to the string, and bytes beyond the string are read and sent to the client.
\<close>

theorem getrange_reads_outside:
  assumes "kv_ok zero s" "raw_args [c, k, i, j] s" "live s (d_db s, k) = Some (AStr b, e)"
    and "num i = Some x" "0 \<le> x" "num j = Some y" "2 ^ 32 \<le> y" "x \<le> y" "y mod 2 ^ 32 < int (length b)" "length b \<le> 2 ^ 29"
  shows "getrangeCommand s = None"
proof (rule getrange_string [OF assms(1-4,6), of x y])
  show "range_ends (int (length b)) x y = (x, y)" using assms(5,7,9) by (simp add: range_ends_def Let_def)
  show "x \<le> y" by (rule assms(8))
  have "nat x + nat (y - x + 1) > length b" using assms(5,7,8,10) by (simp add: nat_add_distrib [symmetric])
  then show "rdz b x (nat (y - x + 1)) = None" using assms(5) by (simp add: rdz_def rd_def)
qed

theorem getrange_reads_outside_witness:
  "\<exists>s. live s (0, [107]) = Some (AStr [118], None) \<and> getrangeCommand s = None"
proof -
  let ?as = "[[103], [107], idec 0, idec (2 ^ 32)]"
  have "\<forall>b \<in> set ?as. length b \<le> 2 ^ 29" by (simp add: demo_small)
  from demo_state [OF this] obtain t where t: "kv_ok zero t" "raw_args ?as t" "live t = [(0, [107]) \<mapsto> (AStr [118], None)]" "d_db t = 0" by blast
  have "live t (d_db t, [107]) = Some (AStr [118], None)" using t(3,4) by simp
  from getrange_reads_outside [OF t(1,2) this num_idec _ num_idec] have "getrangeCommand t = None" by simp
  then show ?thesis using t(3) by (intro exI [of _ t]) simp
qed

lemma llong_wraps:
  assumes "2 ^ 63 \<le> z" "z < 2 ^ 64"
  shows "llong z < 0"
proof -
  have "(word_of_int (z - 2 ^ 64) :: u64) = word_of_int z" by (simp add: word_of_int_eq_iff take_bit_eq_mod)
  then have "llong z = llong (z - 2 ^ 64)" by (simp only: llong_def)
  also have "\<dots> = z - 2 ^ 64" using assms by (intro llong_small) simp_all
  finally show ?thesis using assms by simp
qed

text \<open>
  C13: SETRANGE adds its offset to the length of the value in 64 bits before it checks the limit of 512 MB: when
  the sum wraps it is negative, the check passes, and the program aborts for want of memory, for a key that
  does not exist and for one that holds a string.
\<close>

theorem setrange_overflow_aborts:
  assumes ok: "kv_ok zero s" and as: "raw_args [c, k, off, v] s"
    and l: "live s (d_db s, k) = None \<or> (\<exists>b e. live s (d_db s, k) = Some (AStr b, e))"
    and n: "num off = Some i" "0 \<le> i" "2 ^ 63 \<le> i + int (length v)" and a: "d_alloc s < 2 ^ 63"
  shows "setrangeCommand s = None"
proof -
  have k: "arg_raw 1 s = Some k" "arg_raw 3 s = Some v" "arg 2 s = Some (d_argv s ! 2)" "strs s (d_argv s ! 2) = Some off"
    using raw_args_nth(4) [OF as, of 1] raw_args_nth(4) [OF as, of 3] raw_args_nth(1,6) [OF as, of 2] by simp_all
  have v: "v \<noteq> []" "length v \<le> 2 ^ 29" using n num_range [OF n(1)] arg_small [OF ok k(2)] by auto
  define z where "z = i + int (length v)"
  have z: "2 ^ 63 \<le> z" "z < 2 ^ 64" using n num_range [OF n(1)] v(2) by (simp_all add: z_def)
  have neg: "llong z < 0" by (rule llong_wraps [OF z])
  have m: "z mod 2 ^ 64 = z" using z by simp
  have grow: "sds_growzero w b (nat (z mod 2 ^ 64)) = None" if "d_alloc w = d_alloc s" "length b \<le> 2 ^ 29" for w b
    using a z that unfolding m by (simp add: sds_growzero_def nat_le_iff)
  obtain ov t where t: "lookupKeyWrite (d_db s) k s = Some (ov, t)" "kv_ok zero t" "live t = live s" "found (d_db s) k ov t" "ev s t [] [] 0" "d_db t = d_db s"
    by (rule lookup_write [OF ok, of "d_db s" k])
  have alloc: "d_alloc w = d_alloc s" if "ev t w [] [] 0" for w using ev_env [OF ev_quiet [OF t(5) that]] by simp
  show ?thesis
    using t(2,4)
  proof (cases rule: found_cases)
    case Absent
    have "d_db s < d_dbnum t" using kv_db [OF t(2)] t(6) by simp
    from fresh_ok [OF t(2) Absent(3,4) this arg_small [OF ok k(1)]] obtain n u w where
      u: "new_obj (ENC_RAW []) t = (n, u)" "d_db u = d_db t" "dbAdd (d_db s) k (VStr n) u = Some w" "raw w n = Some []" "ev t w [] [] 0"
      by blast
    then show ?thesis
      using k n v t(1,6) Absent neg grow [OF alloc, of w "[]"] by (simp add: setrangeCommand_def getLong_num checkStringLength_def flip: z_def)
  next
    case (String a b w)
    obtain ob where ob: "obj_at t a = Some ob" "stringObjectLen (o_str ob) = length b" using slen [OF String(3)] by blast
    have nd: "\<not> dead t w" using t(4) String by (simp add: found_def)
    from modify_ok [OF t(2) String(5,3,4) nd] obtain n u where u: "unshare (d_db s) k a t = Some (n, u)" "raw u n = Some b" "ev t u [] [] 0"
      by blast
    have "length b \<le> 2 ^ 29" using small_strs [OF t(2) String(3)] by auto
    then show ?thesis
      using k n v t(1,6) String neg ob u grow [OF alloc, of u b] by (simp add: setrangeCommand_def getLong_num checkStringLength_def flip: z_def)
  next
    case (Other ty j w)
    then show ?thesis using l t(3) by simp
  qed
qed

theorem setrange_overflow_aborts_witness:
  "(\<exists>s. live s = [(0, [107]) \<mapsto> (AStr [118], None)] \<and> raw_args [[115], [107], idec (2 ^ 63 - 1), [118]] s \<and> setrangeCommand s = None) \<and>
   (\<exists>s. live s = [(0, [107]) \<mapsto> (AStr [118], None)] \<and> raw_args [[115], [120], idec (2 ^ 63 - 1), [118]] s \<and> setrangeCommand s = None)"
proof -
  have go: "\<exists>t. live t = [(0, [107]) \<mapsto> (AStr [118], None)] \<and> raw_args [[115], k, idec (2 ^ 63 - 1), [118]] t \<and> setrangeCommand t = None"
    if "k = [107] \<or> k = [120]" for k
  proof -
    let ?as = "[[115], k, idec (2 ^ 63 - 1), [118]]"
    have "\<forall>b \<in> set ?as. length b \<le> 2 ^ 29" using that by (auto simp: demo_small)
    from demo_state [OF this] obtain t where t: "kv_ok zero t" "raw_args ?as t" "live t = [(0, [107]) \<mapsto> (AStr [118], None)]" "d_db t = 0"
      "d_alloc t = 2 ^ 29" by blast
    have "live t (d_db t, k) = None \<or> (\<exists>b e. live t (d_db t, k) = Some (AStr b, e))" using t(3,4) that by auto
    from setrange_overflow_aborts [OF t(1,2) this num_idec] t(5) have "setrangeCommand t = None" by simp
    then show ?thesis using t(2,3) by blast
  qed
  show ?thesis by (intro conjI go) simp_all
qed

section \<open>MOVE and EXPIRE\<close>

text \<open>
  MOVE takes a key away without a call of \<open>signalModifiedKey\<close>, so a transaction that watches the key, or the
  key of the same name in the other database, is not aborted; it also drops the expire time.
\<close>

theorem move_not_announced:
  assumes "kv_ok zero s" "raw_args [c, k, b] s" "0 \<le> atoi b" "atoi b < int (d_dbnum s)" "nat (atoi b) \<noteq> d_db s"
    and "live s (d_db s, k) = Some (x, e)" "live s (nat (atoi b), k) = None"
  shows "\<exists>s'. moveCommand s = Some s' \<and> live s' = (live s)((nat (atoi b), k) \<mapsto> (x, None), (d_db s, k) := None) \<and>
    d_out s' = d_out s @ [Shared ''cone''] \<and> d_signals s' = d_signals s"
  using move_ok [OF assms(1,2)] assms(3-7) by (auto simp: meets_def sp_move_def ev_def)

theorem move_not_announced_witness:
  "\<exists>s s'. live s (0, [107]) = Some (AStr [118], None) \<and> moveCommand s = Some s' \<and> live s' (0, [107]) = None \<and> d_signals s' = d_signals s"
proof -
  let ?as = "[[109], [107], [49]]"
  have "\<forall>b \<in> set ?as. length b \<le> 2 ^ 29" by (simp add: demo_small)
  from demo_state [OF this] obtain t where t: "kv_ok zero t" "raw_args ?as t" "live t = [(0, [107]) \<mapsto> (AStr [118], None)]" "d_db t = 0"
    "d_dbnum t = 16" by blast
  have a: "atoi [49] = 1" by code_simp
  have "live t (d_db t, [107]) = Some (AStr [118], None)" "live t (nat (atoi [49]), [107]) = None" using t(3,4) a by simp_all
  from move_not_announced [OF t(1,2) _ _ _ this] a t(4,5) obtain s' where
    "moveCommand t = Some s'" "live s' = (live t)((1, [107]) \<mapsto> (AStr [118], None), (0, [107]) := None)" "d_signals s' = d_signals t" by auto
  then show ?thesis using t(3) by (intro exI [of _ t] exI [of _ s']) simp
qed

text \<open>
  C11: EXPIRE finds its key without looking at the time it already has: a key that has expired, and that no client
  can see, comes back with its old value.
\<close>

theorem expire_revives:
  assumes ok: "kv_ok zero s" and as: "raw_args [c, k, e] s" and up: "\<not> d_slave s" "\<not> d_loading s"
    and st: "stored s (d_db s, k) = Some (x, Some t)" "0 \<le> t" "t < d_mstime s"
    and n: "num e = Some n" "0 < n" "n * 1000 + d_mstime s < 2 ^ 63"
  shows "live s (d_db s, k) = None \<and>
    (\<exists>s'. expireCommand s = Some s' \<and> live s' (d_db s, k) = Some (x, Some (n * 1000 + d_mstime s)) \<and> d_out s' = d_out s @ [Shared ''cone''])"
proof -
  have l: "llong (n * 1000) = n * 1000" "llong (n * 1000 + d_mstime s) = n * 1000 + d_mstime s"
    using n st by (auto intro!: llong_small)
  have "sp_expire (ctx_of s) (d_mstime s) True k e (stored s) =
      ((stored s)((d_db s, k) \<mapsto> (x, Some (n * 1000 + d_mstime s))), [Shared ''cone''], [KeyModified (d_db s) k], 1)"
    using n st l by (simp add: sp_expire_def)
  then obtain s' where s': "expireCommand s = Some s'" "stored s' = (stored s)((d_db s, k) \<mapsto> (x, Some (n * 1000 + d_mstime s)))"
    "ev s s' [Shared ''cone''] [KeyModified (d_db s) k] 1"
    using expire_ok [OF ok as, of "d_mstime s" True] by (auto simp: expireCommand_def stores_def)
  have "live s (d_db s, k) = None" using st up by (simp add: live_stored age_def gone_def) (simp add: ctx_of_def)
  moreover have "live s' (d_db s, k) = Some (x, Some (n * 1000 + d_mstime s))"
    using ctx_of_ev [OF s'(3)] s'(2) n(2) by (simp add: live_stored age_def gone_def)
  ultimately show ?thesis using s'(1,3) by (auto simp: ev_def)
qed

text \<open>A server where the time set by SETEX for a key has passed: the key is stored, and on a master not seen.\<close>

lemma live_slave_stored: "d_slave s \<Longrightarrow> stored s = live s"
  by (simp add: live_stored age_def ctx_of_def fun_eq_iff gone_def split: option.split)

lemma expired_key:
  obtains u where "idle u" "d_db u = 0" "d_mstime u = 5000" "d_slave u \<longleftrightarrow> sl" "\<not> d_loading u"
    "stored u (0, [107]) = Some (AStr [118], Some 2001)" "sl \<Longrightarrow> stored u = [(0, [107]) \<mapsto> (AStr [118], Some 2001)]"
proof -
  define s0 where "s0 = (start 16 sl)\<lparr>d_mstime := 1\<rparr>"
  have i0: "idle s0" unfolding s0_def by (rule idle_at [OF start_idle]) (simp_all add: start_def)
  have "ctx_of s0 = \<lparr>c_db = 0, c_dbnum = 16, c_now = 1, c_frozen = sl\<rparr>" by (simp add: s0_def set_time start_ctx)
  moreover have "d_mstime (start 16 sl) \<le> 1" by (simp add: start_def)
  then have "live s0 = Map.empty" unfolding s0_def by (simp add: live_at start_live age_def fun_eq_iff)
  ultimately have "sp_request SetexC (ctx_of s0) [[115], [107], [50], [118]] (live s0) =
      Some ([(0, [107]) \<mapsto> (AStr [118], Some 2001)], [Shared ''ok''], [KeyModified 0 [107]], 1)"
    by (simp add: sp_request_def arity_error_def sp_setex_def sp_set_def demo_numbers gone_def)
  moreover have f: "fits SetexC [[115], [107], [50], [118]]" by (simp add: fits_def)
  ultimately obtain s where s: "idle s" "live s = [(0, [107]) \<mapsto> (AStr [118], Some 2001)]"
    "ev s0 s [Shared ''ok''] [KeyModified 0 [107]] 1" using redis.request_meets [OF i0 f] by metis
  have st: "stored s (0, [107]) = Some (AStr [118], Some 2001)"
    using fun_cong [OF s(2), of "(0, [107])"] by (auto simp: live_stored age_def split: option.splits if_splits)
  have env: "d_slave s \<longleftrightarrow> sl" "d_db s = 0" "d_mstime s = 1" "\<not> d_loading s" using s(3) by (simp_all add: ev_def env_def s0_def start_def)
  define u where "u = s\<lparr>d_mstime := 5000\<rparr>"
  have "idle u" unfolding u_def by (rule idle_at [OF s(1)]) (simp_all add: env)
  moreover have "stored u = stored s" by (simp add: u_def set_time)
  moreover have "stored u = [(0, [107]) \<mapsto> (AStr [118], Some 2001)]" if "sl"
    using that live_slave_stored [of s] env(1) s(2) \<open>stored u = stored s\<close> by simp
  ultimately show thesis using that [of u] st env by (simp add: u_def)
qed

theorem expire_revives_witness:
  "\<exists>s s'. live s (0, [107]) = None \<and> expireCommand s = Some s' \<and> live s' (0, [107]) = Some (AStr [118], Some 14000)"
proof -
  obtain u where u: "idle u" "d_db u = 0" "d_mstime u = 5000" "\<not> d_slave u" "\<not> d_loading u"
    "stored u (0, [107]) = Some (AStr [118], Some 2001)" using expired_key [of False] by metis
  let ?as = "[[101], [107], [57]]"
  have sm: "\<forall>b \<in> set ?as. length b \<le> 2 ^ 29" and iu: "kv_ok zero u" "d_argv u = []" using u(1) by (simp_all add: idle_def)
  note p = push_raw [OF iu sm]
  have v: "d_db (push_args ?as u) = 0" "d_mstime (push_args ?as u) = 5000" "\<not> d_slave (push_args ?as u)" "\<not> d_loading (push_args ?as u)"
    using p(4) u by (simp_all add: ev_def env_def)
  have "stored (push_args ?as u) = stored u" using push_args_ok [OF iu(1) sm] stored_same by blast
  then have "stored (push_args ?as u) (d_db (push_args ?as u), [107]) = Some (AStr [118], Some 2001)" using u(6) v by simp
  from expire_revives [OF p(2,1) v(3,4) this _ _ demo_numbers(2)] v show ?thesis by auto
qed

section \<open>RANDOMKEY\<close>

text \<open>
  C9: On a server that expires keys the loop of RANDOMKEY ends, whatever keys \<open>dictGetRandomKey\<close> returns, after at
  most one round more than there are keys, and the reply is a key clients can see, or nil when there is none.
\<close>

theorem randomkey_terminates:
  assumes "kv_ok zero s" "\<not> d_slave s" "fair pick" "length (dict_of s (d_db s)) < n"
  shows "\<exists>s' r. randomkeyCommand pick n s = Some (Inl s') \<and> kv_ok zero s' \<and> live s' = live s \<and> d_out s' = d_out s @ [r] \<and>
    (r = Shared ''nullbulk'' \<and> (\<forall>k. live s (d_db s, k) = None) \<or> (\<exists>k. r = Bulk k \<and> live s (d_db s, k) \<noteq> None))"
proof -
  from random_master [OF assms] obtain r u where r: "dbRandomKey (d_db s) pick n s = Some (Inl (r, u))" "live u = live s" "ev s u [] [] 0"
    "case r of None \<Rightarrow> kv_ok zero u \<and> (\<forall>k. live s (d_db s, k) = None)
     | Some a \<Rightarrow> kv_ok (zero(a := 1)) u \<and> (\<exists>k. raw u a = Some k \<and> live s (d_db s, k) \<noteq> None)" by blast
  show ?thesis
  proof (cases r)
    case None
    then show ?thesis using r by (intro exI [of _ "d_reply [Shared ''nullbulk''] u"]) (simp add: randomkeyCommand_def ev_def)
  next
    case (Some a)
    then obtain k where k: "kv_ok (zero(a := 1)) u" "raw u a = Some k" "live s (d_db s, k) \<noteq> None" using r(4) by auto
    obtain ob where ob: "obj_at u a = Some ob" "str_bytes (o_str ob) = k" using k(2) by (auto simp: raw_enc enc_def str_bytes_def)
    define v where "v = d_reply [Bulk k] u"
    have v: "kv_ok (zero(a := 1)) v" "live v = live s" "ev s v [Bulk k] [] 0"
      using k(1) r(2) ev_more(1) [OF r(3), of "[Bulk k]"] by (simp_all add: v_def)
    have "int (shared_ref v a) < int (refs v a) + (zero(a := 1)) a" using shared_le_refs [of v a] by simp
    from decr_ref_ok [OF v(1) this] obtain w where w: "decr_ref a v = Some w" "kv_ok ((zero(a := 1))(a := (zero(a := 1)) a - 1)) w" "store_step v w" by blast
    have okw: "kv_ok zero w" using w(2) by (rule kv_cong) simp
    have "look w = look v" by (rule look_step [OF v(1) okw w(3)]) simp_all
    then have "live w = live s" using live_same [OF store_kv_step [OF w(3)]] store_step_fields [OF w(3)] v(2) by simp
    moreover have "d_out w = d_out s @ [Bulk k]" using store_step_fields [OF w(3)] v(3) by (simp add: ev_def)
    moreover have "randomkeyCommand pick n s = Some (Inl w)" using r(1) Some ob w(1) by (simp add: randomkeyCommand_def v_def)
    ultimately show ?thesis using okw k(3) by blast
  qed
qed

text \<open>A master whose only key has expired: RANDOMKEY deletes it and replies nil.\<close>

theorem randomkey_terminates_witness:
  "\<exists>u n s' r. stored u (0, [107]) = Some (AStr [118], Some 2001) \<and> d_mstime u = 5000 \<and>
    randomkeyCommand (\<lambda>_ ks. hd ks) n u = Some (Inl s') \<and> live s' = live u \<and> live u (0, [107]) = None \<and> d_out s' = d_out u @ [r] \<and> r \<noteq> Bulk [107]"
proof -
  obtain u where u: "idle u" "d_db u = 0" "d_mstime u = 5000" "\<not> d_slave u" "\<not> d_loading u"
    "stored u (0, [107]) = Some (AStr [118], Some 2001)" using expired_key [of False] by metis
  have "kv_ok zero u" using u(1) by (simp add: idle_def)
  moreover have "fair (\<lambda>_ ks. hd ks)" by (simp add: fair_def)
  moreover have "length (dict_of u (d_db u)) < Suc (length (dict_of u (d_db u)))" by simp
  ultimately obtain s' r where r: "randomkeyCommand (\<lambda>_ ks. hd ks) (Suc (length (dict_of u (d_db u)))) u = Some (Inl s')" "live s' = live u"
    "d_out s' = d_out u @ [r]" "r = Shared ''nullbulk'' \<or> (\<exists>k. r = Bulk k \<and> live u (d_db u, k) \<noteq> None)"
    using randomkey_terminates [OF _ u(4)] by blast
  have l: "live u (0, [107]) = None" using u by (simp add: live_stored age_def gone_def) (simp add: ctx_of_def)
  then have "r \<noteq> Bulk [107]" using r(4) u(2) by auto
  then show ?thesis using u(3,6) r(1-3) l by blast
qed

text \<open>
  C10: On a slave, which keeps expired keys until its master deletes them, the same loop never ends when every key of the
  database has expired: no number of rounds is enough, and the server hangs.
\<close>

theorem randomkey_hangs_on_slave:
  assumes "kv_ok zero s" "d_slave s" "fair pick" "dict_of s (d_db s) \<noteq> []" "\<forall>k. stored s (d_db s, k) \<noteq> None \<longrightarrow> past s (d_db s, k)"
  shows "\<forall>n. \<exists>u. randomkeyCommand pick n s = Some (Inr u)"
proof
  fix n
  from random_slave [OF assms] obtain u where "dbRandomKey (d_db s) pick n s = Some (Inr u)" by blast
  then show "\<exists>u. randomkeyCommand pick n s = Some (Inr u)" by (simp add: randomkeyCommand_def)
qed

text \<open>The slave has replayed SETEX with a past time of its master: the key is there and has expired.\<close>

theorem randomkey_hangs_on_slave_witness:
  "\<exists>s. live s = [(0, [107]) \<mapsto> (AStr [118], Some 2001)] \<and> d_mstime s = 5000 \<and> (\<forall>n. \<exists>u. randomkeyCommand (\<lambda>_ ks. hd ks) n s = Some (Inr u))"
proof -
  obtain u where u: "idle u" "d_db u = 0" "d_mstime u = 5000" "d_slave u" "\<not> d_loading u"
    "stored u = [(0, [107]) \<mapsto> (AStr [118], Some 2001)]" using expired_key [of True] by metis
  have ok: "kv_ok zero u" using u(1) by (simp add: idle_def)
  have "dict_of u (d_db u) \<noteq> []" using stored_None [OF ok, of 0 "[107]"] u by auto
  moreover have "\<forall>k. stored u (d_db u, k) \<noteq> None \<longrightarrow> past u (d_db u, k)"
  proof (intro allI impI)
    fix k assume "stored u (d_db u, k) \<noteq> None"
    then have "stored u (d_db u, k) = Some (AStr [118], Some 2001)" using u by (auto split: if_splits)
    then have "expi u (d_db u, k) = Some 2001" by (auto simp: stored_def)
    then show "past u (d_db u, k)" using u by (simp add: past_def)
  qed
  moreover have "fair (\<lambda>_ ks. hd ks)" by (simp add: fair_def)
  ultimately have "\<forall>n. \<exists>u'. randomkeyCommand (\<lambda>_ ks. hd ks) n u = Some (Inr u')" by (intro randomkey_hangs_on_slave ok u(4))
  moreover have "live u = [(0, [107]) \<mapsto> (AStr [118], Some 2001)]" using u(6) live_slave_stored [OF u(4)] by simp
  ultimately show ?thesis using u(3) by blast
qed

section \<open>Bounds\<close>

text \<open>
  C8: Whatever the requests, what clients can see is within bounds: the database exists, a key has at most 512 MB
  and a string at most 512 MB, APPEND, SETRANGE, SETBIT and BITOP included.
\<close>

theorem values_bounded:
  assumes "reached (start n sl) s" "0 < n" "live s (db, k) = Some (x, e)"
  shows "db < d_dbnum s \<and> length k \<le> 2 ^ 29 \<and> (\<forall>b. x = AStr b \<longrightarrow> length b \<le> 2 ^ 29)"
proof -
  have ok: "kv_ok zero s" using reached_idle [OF assms(1) start_idle [OF assms(2)]] by (simp add: idle_def)
  have "look s (db, k) \<noteq> None" using assms(3) by (auto simp: live_def split: if_splits)
  then have m: "map_of (dict_of s db) k \<noteq> None" by (cases "map_of (dict_of s db) k") (simp_all add: look_def)
  have "length b \<le> 2 ^ 29" if "x = AStr b" for b
    by (rule live_small [OF ok, of "(db, k)"]) (simp add: string_at_def assms(3) that)
  then show ?thesis using kv_dbnum [OF ok m] key_small [OF ok m] by blast
qed

theorem values_bounded_witness:
  "\<exists>s. reached (start 16 False) s \<and> live s (0, [107]) = Some (AStr [118], None) \<and> 0 < d_dbnum s"
proof -
  have i: "idle (start 16 False)" and f: "fits SetC [[115], [107], [118]]" by (simp_all add: start_idle fits_def)
  have t: "(start 16 False)\<lparr>d_mstime := 0\<rparr> = start 16 False" by (simp add: start_def)
  have "sp_request SetC (ctx_of (start 16 False)) [[115], [107], [118]] (live (start 16 False)) =
      Some ([(0, [107]) \<mapsto> (AStr [118], None)], [Shared ''ok''], [KeyModified 0 [107]], 1)"
    by (simp add: sp_request_def arity_error_def start_ctx start_live sp_set_def)
  from redis.request_meets [OF i f this] obtain s where s: "serve (processCommand SetC) [[115], [107], [118]] (start 16 False) = Some s"
    "live s = [(0, [107]) \<mapsto> (AStr [118], None)]" by blast
  have "d_mstime (start 16 False) \<le> 0" by (simp add: start_def)
  from reached.served [OF reached.here this _ f] s(1) t have r: "reached (start 16 False) s" by simp
  have l: "live s (0, [107]) = Some (AStr [118], None)" by (simp add: s(2))
  from values_bounded [OF r _ l] have "0 < d_dbnum s" by simp
  then show ?thesis using r l by (intro exI [of _ s] conjI)
qed

end
