(* ===== verification/Lzf.thy ===== *)
theory Lzf
  imports Prelude
begin

text \<open>
  \<open>lzf_c.c\<close> and \<open>lzf_d.c\<close>, the compression of strings in a dump, as \<open>lzfP.h\<close> configures it: \<open>HLOG\<close> is 16,
  \<open>VERY_FAST\<close> and \<open>CHECK_INPUT\<close> are on, \<open>ULTRA_FAST\<close>, \<open>INIT_HTAB\<close> and \<open>STRICT_ALIGN\<close> are off.  Pointers are
  positions in the input and the output; a read or write outside of them is \<open>None\<close>.  The entries of the hash
  table, which starts as whatever the stack holds, are 64-bit pointers relative to the start of the input.
\<close>

unbundle bit_operations_syntax

section \<open>Compression\<close>

text \<open>\<open>FRST\<close>, \<open>NEXT\<close> and, for \<open>VERY_FAST\<close>, \<open>IDX\<close>.\<close>

definition FRST :: "byte list \<Rightarrow> nat \<Rightarrow> u32 option" where
  "FRST inp p = do { b \<leftarrow> rd inp p 2; Some (push_bit 8 (ucast (b ! 0)) OR ucast (b ! 1)) }"

definition NEXT :: "byte list \<Rightarrow> u32 \<Rightarrow> nat \<Rightarrow> u32 option" where
  "NEXT inp v p = do { b \<leftarrow> rd inp (p + 2) 1; Some (push_bit 8 v OR ucast (b ! 0)) }"

definition IDX :: "u32 \<Rightarrow> nat" where
  "IDX h = unat ((drop_bit 8 h - h * 5) AND 65535)"

text \<open>The length of a match: sixteen steps without a look at the limit, and the rest.\<close>

primrec unrolled :: "byte list \<Rightarrow> nat \<Rightarrow> nat \<Rightarrow> nat \<Rightarrow> nat \<Rightarrow> (nat \<times> bool) option" where
  "unrolled inp ref ip 0 len = Some (len, False)"
| "unrolled inp ref ip (Suc n) len = do {
     a \<leftarrow> rd inp (ref + (len + 1)) 1;
     b \<leftarrow> rd inp (ip + (len + 1)) 1;
     if a \<noteq> b then Some (len + 1, True) else unrolled inp ref ip n (len + 1)
   }"

function match_rest :: "byte list \<Rightarrow> nat \<Rightarrow> nat \<Rightarrow> nat \<Rightarrow> nat \<Rightarrow> nat option" where
  "match_rest inp ref ip maxlen len =
     (if len + 1 < maxlen then do {
        a \<leftarrow> rd inp (ref + (len + 1)) 1;
        b \<leftarrow> rd inp (ip + (len + 1)) 1;
        if a = b then match_rest inp ref ip maxlen (len + 1) else Some (len + 1)
      }
      else Some (len + 1))"
  by auto
termination by (relation "measure (\<lambda>(inp, ref, ip, maxlen, len). maxlen - len)") auto

declare match_rest.simps [simp del]

definition match_len :: "byte list \<Rightarrow> nat \<Rightarrow> nat \<Rightarrow> nat \<Rightarrow> nat option" where
  "match_len inp ref ip maxlen = do {
     (len, stop) \<leftarrow> (if maxlen > 16 then unrolled inp ref ip 16 2 else Some (2, False));
     if stop then Some len else match_rest inp ref ip maxlen len
   }"

text \<open>
  The state of the main loop: the positions in the input and the output, the literals of the current run, the
  output, and the hash table, whose entries are pointers relative to the start of the input.
\<close>

record lzf =
  z_ip :: nat
  z_op :: nat
  z_lit :: nat
  z_out :: "byte list"
  z_htab :: "nat \<Rightarrow> u64"

definition put_byte :: "nat \<Rightarrow> int \<Rightarrow> lzf \<Rightarrow> lzf option" where
  "put_byte off v z = do { out \<leftarrow> wr (z_out z) off [word_of_int v]; Some (z\<lparr>z_out := out\<rparr>) }"

definition stop_run :: "lzf \<Rightarrow> lzf option" where
  "stop_run z = (if z_op z < z_lit z + 1 then None else put_byte (z_op z - (z_lit z + 1)) (int (z_lit z) - 1) z)"

text \<open>\<open>lit++; *op++ = *ip++\<close>, and the end of a run of 32.\<close>

definition copy_literal :: "byte list \<Rightarrow> lzf \<Rightarrow> lzf option" where
  "copy_literal inp z = do {
     b \<leftarrow> rd inp (z_ip z) 1;
     z \<leftarrow> put_byte (z_op z) (uint (b ! 0)) z;
     let z = z\<lparr>z_ip := z_ip z + 1, z_op := z_op z + 1, z_lit := z_lit z + 1\<rparr>;
     if z_lit z = 32 then do {
       z \<leftarrow> stop_run z;
       Some (z\<lparr>z_lit := 0, z_op := z_op z + 1\<rparr>)
     }
     else Some z
   }"

definition match_at :: "byte list \<Rightarrow> nat \<Rightarrow> u64 \<Rightarrow> bool option" where
  "match_at inp ip ref =
     (if of_nat ip - ref - 1 < 8192 \<and> ip + 4 < length inp \<and> 0 < sint ref then do {
        a \<leftarrow> rd inp (unat ref) 2; b \<leftarrow> rd inp ip 2;
        if a \<noteq> b then Some False
        else do { a \<leftarrow> rd inp (unat ref + 2) 1; b \<leftarrow> rd inp (ip + 2) 1; Some (a = b) }
      }
      else Some False)"

text \<open>The two or three bytes of a back reference.\<close>

definition put_ref :: "nat \<Rightarrow> nat \<Rightarrow> lzf \<Rightarrow> lzf option" where
  "put_ref off len z = do {
     z \<leftarrow> (if len < 7 then do {
         z \<leftarrow> put_byte (z_op z) (int (off div 256 + len * 32)) z;
         Some (z\<lparr>z_op := z_op z + 1\<rparr>)
       }
       else do {
         z \<leftarrow> put_byte (z_op z) (int (off div 256 + 7 * 32)) z;
         z \<leftarrow> put_byte (z_op z + 1) (int (len - 7)) z;
         Some (z\<lparr>z_op := z_op z + 2\<rparr>)
       });
     z \<leftarrow> put_byte (z_op z) (int off) z;
     Some (z\<lparr>z_op := z_op z + 1\<rparr>)
   }"

text \<open>A back reference; the flag says whether there is room for it.\<close>

definition emit_ref :: "byte list \<Rightarrow> nat \<Rightarrow> nat \<Rightarrow> lzf \<Rightarrow> (bool \<times> lzf) option" where
  "emit_ref inp out_len ref z = do {
     let off = z_ip z - ref - 1;
     let maxlen = length inp - z_ip z - 2;
     let maxlen = (if maxlen > 264 then 264 else maxlen);
     z \<leftarrow> stop_run z;
     let z = z\<lparr>z_op := (if z_lit z = 0 then z_op z - 1 else z_op z)\<rparr>;
     if z_op z + 3 + 1 \<ge> out_len then Some (False, z)
     else do {
       len \<leftarrow> match_len inp ref (z_ip z) maxlen;
       let len = len - 2;
       let ip = z_ip z + 1;
       z \<leftarrow> put_ref off len z;
       Some (True, z\<lparr>z_op := z_op z + 1, z_lit := 0, z_ip := ip + (len + 1)\<rparr>)
     }
   }"

text \<open>The two positions before the next one are entered in the table.\<close>

definition enter_two :: "byte list \<Rightarrow> lzf \<Rightarrow> (u32 \<times> lzf) option" where
  "enter_two inp z = do {
     let ip = z_ip z - 2;
     hval \<leftarrow> FRST inp ip;
     hval \<leftarrow> NEXT inp hval ip;
     let z = z\<lparr>z_htab := (z_htab z)(IDX hval := of_nat ip)\<rparr>;
     let ip = ip + 1;
     hval \<leftarrow> NEXT inp hval ip;
     Some (hval, z\<lparr>z_htab := (z_htab z)(IDX hval := of_nat ip)\<rparr>)
   }"

lemma put_byte_fields: "put_byte off v z = Some z' \<Longrightarrow> z_ip z' = z_ip z \<and> z_op z' = z_op z \<and> z_lit z' = z_lit z \<and> z_htab z' = z_htab z"
  by (auto simp: put_byte_def split: bind_splits)

lemma stop_run_fields: "stop_run z = Some z' \<Longrightarrow> z_ip z' = z_ip z \<and> z_op z' = z_op z \<and> z_lit z' = z_lit z \<and> z_htab z' = z_htab z"
  by (auto simp: stop_run_def dest: put_byte_fields split: if_splits)

lemma copy_literal_ip: "copy_literal inp z = Some z' \<Longrightarrow> z_ip z' = z_ip z + 1"
  by (auto simp: copy_literal_def Let_def dest!: put_byte_fields stop_run_fields split: bind_splits if_splits)

lemma put_ref_fields: "put_ref off len z = Some z' \<Longrightarrow> z_ip z' = z_ip z \<and> z_lit z' = z_lit z \<and> z_htab z' = z_htab z"
  by (auto simp: put_ref_def dest!: put_byte_fields split: bind_splits if_splits)

lemma emit_ref_ip: "emit_ref inp out_len ref z = Some (True, z') \<Longrightarrow> z_ip z + 2 \<le> z_ip z'"
  by (auto simp: emit_ref_def Let_def dest!: put_ref_fields stop_run_fields split: bind_splits if_splits)

lemma enter_two_ip: "enter_two inp z = Some (h, z') \<Longrightarrow> z_ip z' = z_ip z"
  by (auto simp: enter_two_def Let_def split: bind_splits)

text \<open>The flag of the loop is false when the output is too small.\<close>

function compress_loop :: "byte list \<Rightarrow> nat \<Rightarrow> u32 \<Rightarrow> lzf \<Rightarrow> (bool \<times> lzf) option" where
  "compress_loop inp out_len hval z =
     (if z_ip z + 2 < length inp then do {
        hval \<leftarrow> NEXT inp hval (z_ip z);
        let ref = z_htab z (IDX hval);
        let z = z\<lparr>z_htab := (z_htab z)(IDX hval := of_nat (z_ip z))\<rparr>;
        m \<leftarrow> match_at inp (z_ip z) ref;
        if m then do {
          (room, z) \<leftarrow> emit_ref inp out_len (unat ref) z;
          if \<not> room then Some (False, z)
          else if z_ip z + 2 \<ge> length inp then Some (True, z)
          else do {
            (hval, z) \<leftarrow> enter_two inp z;
            compress_loop inp out_len hval z
          }
        }
        else if z_op z \<ge> out_len then Some (False, z)
        else do {
          z \<leftarrow> copy_literal inp z;
          compress_loop inp out_len hval z
        }
      }
      else Some (True, z))"
  by auto
termination
  by (relation "measure (\<lambda>(inp, out_len, hval, z). length inp - z_ip z)")
    (auto dest!: copy_literal_ip emit_ref_ip enter_two_ip)

declare compress_loop.simps [simp del]

text \<open>The last bytes, and the end of the last run.\<close>

function copy_rest :: "byte list \<Rightarrow> lzf \<Rightarrow> lzf option" where
  "copy_rest inp z =
     (if z_ip z < length inp then do { z \<leftarrow> copy_literal inp z; copy_rest inp z } else Some z)"
  by auto
termination
  by (relation "measure (\<lambda>(inp, z). length inp - z_ip z)") (auto dest!: copy_literal_ip)

declare copy_rest.simps [simp del]

text \<open>
  \<open>htab\<close> is what the table on the stack holds: it is not cleared.  \<open>out\<close> is the memory at \<open>out_data\<close>, which may be larger
  than \<open>out_len\<close>.  The result is the number of bytes written, 0 when they do not fit, and the memory.
\<close>

definition lzf_compress :: "(nat \<Rightarrow> u64) \<Rightarrow> byte list \<Rightarrow> byte list \<Rightarrow> nat \<Rightarrow> (nat \<times> byte list) option" where
  "lzf_compress htab inp out out_len =
     (if inp = [] \<or> out_len = 0 then Some (0, out)
      else do {
        let z = \<lparr>z_ip = 0, z_op = 1, z_lit = 0, z_out = out, z_htab = htab\<rparr>;
        hval \<leftarrow> FRST inp 0;
        (room, z) \<leftarrow> compress_loop inp out_len hval z;
        if \<not> room \<or> z_op z + 3 > out_len then Some (0, z_out z)
        else do {
          z \<leftarrow> copy_rest inp z;
          z \<leftarrow> stop_run z;
          Some (if z_lit z = 0 then z_op z - 1 else z_op z, z_out z)
        }
      })"

section \<open>Decompression\<close>

text \<open>Byte by byte, so that a reference can reach what it writes.\<close>

primrec copy_bytes :: "nat \<Rightarrow> byte list \<Rightarrow> int \<Rightarrow> nat \<Rightarrow> byte list option" where
  "copy_bytes 0 out ref op = Some out"
| "copy_bytes (Suc n) out ref op = do {
     b \<leftarrow> rdz out ref 1;
     out \<leftarrow> wr out op b;
     copy_bytes n out (ref + 1) (op + 1)
   }"

datatype lzf_result = Done nat "byte list" | E2BIG "byte list" | EINVAL "byte list"

text \<open>The end of a back reference: the low byte of the distance, the checks and the copy.\<close>

definition back_ref :: "byte list \<Rightarrow> nat \<Rightarrow> int \<Rightarrow> nat \<Rightarrow> nat \<Rightarrow> nat \<Rightarrow> byte list \<Rightarrow> ((nat \<times> nat \<times> byte list) + lzf_result) option" where
  "back_ref inp out_len ref len ip op out = do {
     b \<leftarrow> rd inp ip 1;
     let ref = ref - uint (b ! 0);
     if op + len + 2 > out_len then Some (Inr (E2BIG out))
     else if ref < 0 then Some (Inr (EINVAL out))
     else do {
       out \<leftarrow> copy_bytes (len + 2) out ref op;
       Some (Inl (ip + 1, op + len + 2, out))
     }
   }"

text \<open>One round: the new positions and output, or an error.\<close>

definition decompress_step :: "byte list \<Rightarrow> nat \<Rightarrow> nat \<Rightarrow> nat \<Rightarrow> byte list \<Rightarrow> ((nat \<times> nat \<times> byte list) + lzf_result) option" where
  "decompress_step inp out_len ip op out = do {
     c \<leftarrow> rd inp ip 1;
     let ctrl = unat (c ! 0);
     let ip = ip + 1;
     if ctrl < 32 then do {
       let ctrl = ctrl + 1;
       if op + ctrl > out_len then Some (Inr (E2BIG out))
       else if ip + ctrl > length inp then Some (Inr (EINVAL out))
       else do {
         b \<leftarrow> rd inp ip ctrl;
         out \<leftarrow> wr out op b;
         Some (Inl (ip + ctrl, op + ctrl, out))
       }
     }
     else do {
       let len = ctrl div 32;
       let ref = int op - int ((ctrl mod 32) * 256) - 1;
       if ip \<ge> length inp then Some (Inr (EINVAL out))
       else do {
         (len, ip, more) \<leftarrow> (if len = 7 then do {
             b \<leftarrow> rd inp ip 1;
             Some (len + unat (b ! 0), ip + 1, ip + 1 < length inp)
           } else Some (len, ip, True));
         if \<not> more then Some (Inr (EINVAL out))
         else back_ref inp out_len ref len ip op out
       }
     }
   }"

lemma decompress_step_ip: "decompress_step inp out_len ip op out = Some (Inl (ip', op', out')) \<Longrightarrow> ip < length inp \<and> ip < ip'"
  by (auto simp: decompress_step_def back_ref_def Let_def rd_def split: bind_splits if_splits)

function decompress_loop :: "byte list \<Rightarrow> nat \<Rightarrow> nat \<Rightarrow> nat \<Rightarrow> byte list \<Rightarrow> lzf_result option" where
  "decompress_loop inp out_len ip op out = do {
     r \<leftarrow> decompress_step inp out_len ip op out;
     case r of
       Inr e \<Rightarrow> Some e
     | Inl (ip, op, out) \<Rightarrow>
         if ip < length inp then decompress_loop inp out_len ip op out else Some (Done op out)
   }"
  by auto
termination
  by (relation "measure (\<lambda>(inp, out_len, ip, op, out). length inp - ip)") (auto dest!: decompress_step_ip)

declare decompress_loop.simps [simp del]

definition lzf_decompress :: "byte list \<Rightarrow> byte list \<Rightarrow> nat \<Rightarrow> lzf_result option" where
  "lzf_decompress inp out out_len = decompress_loop inp out_len 0 0 out"

section \<open>The format\<close>

text \<open>A run of 1 to 32 literals, or a reference of 3 to 264 bytes that starts \<open>off + 1\<close> bytes back.\<close>

datatype token = Lit "byte list" | Ref nat nat

definition encode :: "token \<Rightarrow> byte list" where
  "encode t =
     (case t of
        Lit bs \<Rightarrow> of_nat (length bs - 1) # bs
      | Ref off len \<Rightarrow>
          if len - 2 < 7 then [of_nat (off div 256 + (len - 2) * 32), of_nat off]
          else [of_nat (off div 256 + 7 * 32), of_nat (len - 2 - 7), of_nat off])"

definition again :: "nat \<Rightarrow> byte list \<Rightarrow> byte list" where
  "again off o' = o' @ [o' ! (length o' - (off + 1))]"

definition expand :: "byte list \<Rightarrow> token \<Rightarrow> byte list" where
  "expand o' t = (case t of Lit bs \<Rightarrow> o' @ bs | Ref off len \<Rightarrow> (again off ^^ len) o')"

definition valid :: "byte list \<Rightarrow> token \<Rightarrow> bool" where
  "valid o' t =
     (case t of
        Lit bs \<Rightarrow> bs \<noteq> [] \<and> length bs \<le> 32
      | Ref off len \<Rightarrow> off < length o' \<and> off < 8192 \<and> 3 \<le> len \<and> len \<le> 264)"

primrec means :: "byte list \<Rightarrow> token list \<Rightarrow> byte list \<Rightarrow> bool" where
  "means o' [] b \<longleftrightarrow> b = o'"
| "means o' (t # ts) b \<longleftrightarrow> valid o' t \<and> means (expand o' t) ts b"

definition bytes_of :: "token list \<Rightarrow> byte list" where
  "bytes_of ts = concat (map encode ts)"

lemma bytes_of_simps [simp]: "bytes_of [] = []" "bytes_of (t # ts) = encode t @ bytes_of ts" "bytes_of (ts @ us) = bytes_of ts @ bytes_of us"
  by (simp_all add: bytes_of_def)

lemma means_snoc: "means o' ts b \<Longrightarrow> valid b t \<Longrightarrow> means o' (ts @ [t]) (expand b t)"
  by (induction ts arbitrary: o') simp_all

lemma length_again1 [simp]: "length (again off o') = length o' + 1"
  by (simp add: again_def)

lemma length_again [simp]: "length ((again off ^^ n) o') = length o' + n"
  by (induction n) simp_all

lemma length_expand: "length (expand o' t) = length o' + (case t of Lit bs \<Rightarrow> length bs | Ref off len \<Rightarrow> len)"
  by (simp add: expand_def split: token.split)

lemma means_length: "means o' ts b \<Longrightarrow> length o' \<le> length b"
proof (induction ts arbitrary: o')
  case (Cons t ts)
  then have "length (expand o' t) \<le> length b" by simp
  then show ?case by (simp add: length_expand split: token.splits)
qed simp

text \<open>A reference to bytes that are equal to the next ones extends a prefix of the input.\<close>

lemma again_prefix:
  assumes "off < ip" "ip + n \<le> length inp" "\<And>i. i < n \<Longrightarrow> inp ! (ip - (off + 1) + i) = inp ! (ip + i)"
  shows "(again off ^^ n) (take ip inp) = take (ip + n) inp"
  using assms(2,3)
proof (induction n)
  case (Suc n)
  have "(again off ^^ n) (take ip inp) = take (ip + n) inp" using Suc by simp
  moreover have "inp ! (ip - (off + 1) + n) = inp ! (ip + n)" using Suc.prems(2) [of n] by simp
  moreover have "ip + n - (off + 1) = ip - (off + 1) + n" using assms(1) by simp
  moreover have "again off (take (ip + n) inp) = take (ip + n) inp @ [take (ip + n) inp ! (ip + n - (off + 1))]"
    using Suc.prems(1) by (simp add: again_def)
  ultimately show ?case using Suc.prems(1) assms(1) by (simp add: take_Suc_conv_app_nth)
qed simp

lemma rd1: "i < length m \<Longrightarrow> rd m i 1 = Some [m ! i]"
  by (simp add: rd_def take_Suc_conv_app_nth [of 0 "drop i m", simplified])

section \<open>Decompression of the format\<close>

lemma copy_bytes_ok:
  assumes "off < length o'" "n \<le> length rest"
  shows "copy_bytes n (o' @ rest) (int (length o') - int off - 1) (length o') = Some ((again off ^^ n) o' @ drop n rest)"
  using assms
proof (induction n arbitrary: o' rest)
  case (Suc n)
  obtain r rest' where r: "rest = r # rest'" using Suc.prems(2) by (cases rest) auto
  have i: "nat (int (length o') - int off - 1) = length o' - (off + 1)" "0 \<le> int (length o') - int off - 1" "length o' - (off + 1) < length o'" using Suc.prems(1) by simp_all
  have "rdz (o' @ rest) (int (length o') - int off - 1) 1 = Some [o' ! (length o' - (off + 1))]"
    using Suc.prems(1) i rd1 [of "length o' - (off + 1)" "o' @ rest"] by (simp add: rdz_def nth_append)
  moreover have "wr (o' @ rest) (length o') [o' ! (length o' - (off + 1))] = Some (again off o' @ rest')"
    by (simp add: wr_def r again_def [of off o'])
  moreover have "copy_bytes n (again off o' @ rest') (int (length (again off o')) - int off - 1) (length (again off o')) =
      Some ((again off ^^ n) (again off o') @ drop n rest')"
    by (rule Suc.IH) (use Suc.prems r in simp_all)
  ultimately show ?case using r by (simp add: funpow_swap1 algebra_simps)
qed simp

lemma unat_of_nat_byte: "n < 256 \<Longrightarrow> unat (of_nat n :: byte) = n"
  by (simp add: unsigned_of_nat take_bit_nat_eq_self)

lemma uint_of_nat_byte: "uint (of_nat n :: byte) = int (n mod 256)"
  by (simp add: unsigned_of_nat take_bit_eq_mod zmod_int)

lemma decompress_token:
  assumes v: "valid o' t" and l: "length (expand o' t) \<le> out_len" "out_len \<le> length (o' @ rest)"
  shows "decompress_step (e @ encode t @ e') out_len (length e) (length o') (o' @ rest) =
    Some (Inl (length (e @ encode t), length (expand o' t), expand o' t @ drop (length (expand o' t) - length o') rest))"
proof (cases t)
  case (Lit bs)
  have n: "length bs - 1 < 256" "unat (of_nat (length bs - 1) :: byte) = length bs - 1" "length bs - 1 < 32" "length bs - 1 + 1 = length bs"
    using v Lit unat_of_nat_byte [of "length bs - 1"] by (auto simp: valid_def)
  have "rd (e @ encode t @ e') (length e) 1 = Some [of_nat (length bs - 1)]" "rd (e @ encode t @ e') (length e + 1) (length bs) = Some bs"
    by (simp_all add: Lit encode_def rd_def)
  moreover have "wr (o' @ rest) (length o') bs = Some (expand o' t @ drop (length bs) rest)"
    using l by (simp add: wr_def Lit expand_def)
  moreover have "length o' + length bs \<le> out_len" "length e + 1 + length bs \<le> length (e @ encode t @ e')"
    using l(1) by (simp_all add: Lit length_expand encode_def)
  ultimately show ?thesis using n by (simp add: decompress_step_def Let_def Lit length_expand) (simp add: encode_def)
next
  case (Ref off len)
  define l' where "l' = len - 2"
  define hi where "hi = off div 256"
  have v': "off < length o'" "off < 8192" "1 \<le> l'" "l' \<le> 262" "l' + 2 = len" "hi < 32" using v Ref by (auto simp: valid_def l'_def hi_def)
  have o: "hi * 256 + off mod 256 = off" by (simp add: hi_def)
  have le: "length o' + l' + 2 \<le> out_len" using l(1) v' by (simp add: Ref length_expand)
  define rf where "rf = int (length o') - int off - 1"
  have "len \<le> length rest" using le l(2) v'(5) by simp
  from copy_bytes_ok [OF v'(1) this] have cp: "copy_bytes len (o' @ rest) rf (length o') = Some ((again off ^^ len) o' @ drop len rest)"
    by (simp add: rf_def)
  have "int off = int hi * 256 + int (off mod 256)" using o by linarith
  then have r: "int (length o') - int hi * 256 - 1 - int (off mod 256) = rf" "0 \<le> rf" using v'(1) by (simp_all add: rf_def)
  show ?thesis
  proof (cases "l' < 7")
    case True
    have c: "unat (of_nat (hi + l' * 32) :: byte) = hi + l' * 32" "(hi + l' * 32) div 32 = l'" "(hi + l' * 32) mod 32 = hi" "\<not> hi + l' * 32 < 32"
      using True v' by (auto intro: unat_of_nat_byte simp del: of_nat_add of_nat_mult)
    have e: "encode t = [of_nat (hi + l' * 32), of_nat off]" using True by (simp add: Ref encode_def hi_def l'_def)
    have "rd (e @ encode t @ e') (length e) 1 = Some [of_nat (hi + l' * 32)]" "rd (e @ encode t @ e') (length e + 1) 1 = Some [of_nat off]"
      "length e + 1 < length (e @ encode t @ e')" by (simp_all add: e rd_def)
    then show ?thesis
      using True c le cp r v' by (simp add: decompress_step_def back_ref_def Let_def uint_of_nat_byte Ref expand_def) (simp add: e [unfolded Ref])
  next
    case False
    have c: "unat (of_nat (hi + 7 * 32) :: byte) = hi + 7 * 32" by (rule unat_of_nat_byte) (use v'(6) in simp)
    have c2: "unat (of_nat (l' - 7) :: byte) = l' - 7" by (rule unat_of_nat_byte) (use v'(4) in simp)
    have c3: "(hi + 7 * 32) div 32 = 7" "7 + (l' - 7) = l'" using False v'(6) by simp_all
    have m: "(hi + 7 * 32) mod 32 = hi" unfolding mod_mult_self1 using v'(6) by simp
    have e: "encode t = [of_nat (hi + 7 * 32), of_nat (l' - 7), of_nat off]" using False by (simp add: Ref encode_def hi_def l'_def)
    have "rd (e @ encode t @ e') (length e) 1 = Some [of_nat (hi + 7 * 32)]" "rd (e @ encode t @ e') (length e + 1) 1 = Some [of_nat (l' - 7)]"
      "rd (e @ encode t @ e') (length e + 1 + 1) 1 = Some [of_nat off]" "length e + 1 + 1 < length (e @ encode t @ e')" by (simp_all add: e rd_def)
    then show ?thesis
      using c c2 c3 m le cp r v' by (simp add: decompress_step_def back_ref_def Let_def uint_of_nat_byte Ref expand_def) (simp add: e [unfolded Ref])
  qed
qed

lemma encode_not_Nil [simp]: "encode t \<noteq> []"
  by (simp add: encode_def split: token.split)

lemma decompress_tokens:
  assumes "means o' ts b" "ts \<noteq> []" "length b \<le> out_len" "out_len \<le> length (o' @ rest)"
  shows "decompress_loop (e @ bytes_of ts) out_len (length e) (length o') (o' @ rest) =
    Some (Done (length b) (b @ drop (length b - length o') rest))"
  using assms
proof (induction ts arbitrary: e o' rest)
  case (Cons t ts)
  let ?o = "expand o' t" and ?rest = "drop (length (expand o' t) - length o') rest"
  have v: "valid o' t" "means ?o ts b" using Cons.prems(1) by simp_all
  have l: "length ?o \<le> length b" by (rule means_length [OF v(2)])
  have lo: "length o' \<le> length ?o" by (simp add: length_expand)
  have st: "decompress_step (e @ bytes_of (t # ts)) out_len (length e) (length o') (o' @ rest) = Some (Inl (length (e @ encode t), length ?o, ?o @ ?rest))"
    using decompress_token [OF v(1), of out_len rest e "bytes_of ts"] l Cons.prems(3,4) by simp
  show ?case
  proof (cases "ts = []")
    case True
    then have "b = ?o" using v(2) by simp
    then show ?thesis using st True by (subst decompress_loop.simps) simp
  next
    case False
    then have "bytes_of ts \<noteq> []" by (cases ts) simp_all
    moreover have "decompress_loop ((e @ encode t) @ bytes_of ts) out_len (length (e @ encode t)) (length ?o) (?o @ ?rest) =
        Some (Done (length b) (b @ drop (length b - length ?o) ?rest))"
      by (rule Cons.IH [OF v(2) False Cons.prems(3)]) (use Cons.prems(4) l lo Cons.prems(3) in simp)
    ultimately show ?thesis using st l lo by (subst decompress_loop.simps) simp
  qed
qed simp

section \<open>The length of a match\<close>

definition same :: "byte list \<Rightarrow> nat \<Rightarrow> nat \<Rightarrow> nat \<Rightarrow> bool" where
  "same inp ref ip n \<longleftrightarrow> (\<forall>i < n. inp ! (ref + i) = inp ! (ip + i))"

lemma same_Suc: "same inp ref ip (Suc n) \<longleftrightarrow> same inp ref ip n \<and> inp ! (ref + n) = inp ! (ip + n)"
  by (auto simp: same_def less_Suc_eq)

lemma unrolled_ok:
  assumes "ref < ip" "ip + len + n < length inp" "same inp ref ip (Suc len)"
  shows "\<exists>l stop. unrolled inp ref ip n len = Some (l, stop) \<and> len \<le> l \<and> l \<le> len + n \<and>
    (if stop then len < l \<and> same inp ref ip l else l = len + n \<and> same inp ref ip (Suc l))"
  using assms(2,3)
proof (induction n arbitrary: len)
  case (Suc n)
  have r: "rd inp (ref + (len + 1)) 1 = Some [inp ! (ref + (len + 1))]" "rd inp (ip + (len + 1)) 1 = Some [inp ! (ip + (len + 1))]"
    using Suc.prems(1) assms(1) by (intro rd1; simp)+
  show ?case
  proof (cases "inp ! (ref + (len + 1)) = inp ! (ip + (len + 1))")
    case True
    then have "same inp ref ip (Suc (len + 1))" using Suc.prems(2) same_Suc [of inp ref ip "Suc len"] by simp
    moreover have "ip + (len + 1) + n < length inp" using Suc.prems(1) by simp
    ultimately obtain l stop where "unrolled inp ref ip n (len + 1) = Some (l, stop)" "len + 1 \<le> l" "l \<le> len + 1 + n"
      "if stop then len + 1 < l \<and> same inp ref ip l else l = len + 1 + n \<and> same inp ref ip (Suc l)"
      using Suc.IH by blast
    then show ?thesis using r True by (auto split: if_splits)
  next
    case False
    then show ?thesis using r Suc.prems(2) by (intro exI [of _ "len + 1"] exI [of _ True]) simp
  qed
next
  case 0
  then show ?case by (intro exI [of _ len] exI [of _ False]) simp
qed

lemma match_rest_ok:
  assumes "ref < ip" "ip + maxlen \<le> length inp" "same inp ref ip (Suc len)"
  shows "\<exists>l. match_rest inp ref ip maxlen len = Some l \<and> len < l \<and> l \<le> max (len + 1) maxlen \<and> same inp ref ip l"
  using assms(3)
proof (induction "maxlen - len" arbitrary: len rule: less_induct)
  case less
  show ?case
  proof (cases "len + 1 < maxlen")
    case True
    then have r: "rd inp (ref + (len + 1)) 1 = Some [inp ! (ref + (len + 1))]" "rd inp (ip + (len + 1)) 1 = Some [inp ! (ip + (len + 1))]"
      using assms(1,2) by (intro rd1; simp)+
    show ?thesis
    proof (cases "inp ! (ref + (len + 1)) = inp ! (ip + (len + 1))")
      case eq: True
      then have "same inp ref ip (Suc (len + 1))" using less.prems same_Suc [of inp ref ip "Suc len"] by simp
      moreover have "maxlen - (len + 1) < maxlen - len" using True by simp
      ultimately obtain l where "match_rest inp ref ip maxlen (len + 1) = Some l" "len + 1 < l" "l \<le> max (len + 1 + 1) maxlen" "same inp ref ip l"
        using less.hyps by blast
      then show ?thesis using r eq True by (subst match_rest.simps) auto
    next
      case False
      then show ?thesis using r True less.prems by (subst match_rest.simps) simp
    qed
  next
    case False
    then show ?thesis using less.prems by (subst match_rest.simps) simp
  qed
qed

lemma match_len_ok:
  assumes "ref < ip" "same inp ref ip 3" "ip + 4 < length inp" "maxlen = min 264 (length inp - ip - 2)"
  shows "\<exists>len. match_len inp ref ip maxlen = Some len \<and> 3 \<le> len \<and> len \<le> 264 \<and> ip + len \<le> length inp \<and> same inp ref ip len"
proof -
  have s: "same inp ref ip (Suc 2)" using assms(2) by (simp add: eval_nat_numeral)
  have m: "ip + maxlen + 2 \<le> length inp" "3 \<le> maxlen" "maxlen \<le> 264" using assms(3,4) by auto
  show ?thesis
  proof (cases "maxlen > 16")
    case True
    then have "ip + 2 + 16 < length inp" using m by simp
    from unrolled_ok [OF assms(1) this s] obtain l stop where u: "unrolled inp ref ip 16 2 = Some (l, stop)" "2 \<le> l" "l \<le> 2 + 16"
      "if stop then 2 < l \<and> same inp ref ip l else l = 2 + 16 \<and> same inp ref ip (Suc l)" by blast
    show ?thesis
    proof (cases stop)
      case True
      then show ?thesis using u \<open>maxlen > 16\<close> m by (auto simp: match_len_def)
    next
      case False
      then have s': "same inp ref ip (Suc l)" "l = 18" using u(4) by (metis, simp)
      from match_rest_ok [OF assms(1) _ s'(1), of maxlen] m obtain n where
        "match_rest inp ref ip maxlen l = Some n" "l < n" "n \<le> max (l + 1) maxlen" "same inp ref ip n" by auto
      then show ?thesis using u(1) False True m s'(2) by (auto simp: match_len_def)
    qed
  next
    case False
    from match_rest_ok [OF assms(1) _ s, of maxlen] m obtain n where
      "match_rest inp ref ip maxlen 2 = Some n" "2 < n" "n \<le> max (2 + 1) maxlen" "same inp ref ip n" by auto
    then show ?thesis using False m by (auto simp: match_len_def)
  qed
qed

section \<open>Decompression of anything\<close>

lemma copy_bytes_safe:
  assumes "0 \<le> ref" "ref < int op" "op + n \<le> length out"
  shows "\<exists>out'. copy_bytes n out ref op = Some out' \<and> length out' = length out \<and> (\<forall>m. op + n \<le> m \<longrightarrow> drop m out' = drop m out)"
  using assms
proof (induction n arbitrary: out ref op)
  case (Suc n)
  have "rdz out ref 1 = Some [out ! nat ref]" using Suc.prems rd1 [of "nat ref" out] by (simp add: rdz_def)
  moreover define o2 where "o2 = out[op := out ! nat ref]"
  have "wr out op [out ! nat ref] = Some o2" using Suc.prems by (simp add: wr_def o2_def upd_conv_take_nth_drop)
  moreover have o2: "length o2 = length out" "\<forall>m. op < m \<longrightarrow> drop m o2 = drop m out" by (simp_all add: o2_def)
  moreover have "\<exists>out'. copy_bytes n o2 (ref + 1) (op + 1) = Some out' \<and> length out' = length o2 \<and> (\<forall>m. op + 1 + n \<le> m \<longrightarrow> drop m out' = drop m o2)"
    by (rule Suc.IH) (use Suc.prems o2 in simp_all)
  ultimately show ?case by auto
qed simp

definition memory :: "lzf_result \<Rightarrow> byte list" where
  "memory r = (case r of Done _ out \<Rightarrow> out | E2BIG out \<Rightarrow> out | EINVAL out \<Rightarrow> out)"

lemma decompress_step_safe:
  assumes "ip < length inp" "op \<le> out_len" "out_len \<le> length out"
  shows "\<exists>r. decompress_step inp out_len ip op out = Some r \<and>
    (case r of
       Inr e \<Rightarrow> memory e = out \<and> (\<forall>n out. e \<noteq> Done n out)
     | Inl (ip', op', out') \<Rightarrow> ip < ip' \<and> op' \<le> out_len \<and> length out' = length out \<and> drop out_len out' = drop out_len out)"
proof -
  define ctrl where "ctrl = unat (inp ! ip)"
  have c: "rd inp ip 1 = Some [inp ! ip]" using assms(1) by (rule rd1)
  show ?thesis
  proof (cases "ctrl < 32")
    case True
    show ?thesis
    proof (cases "op + (ctrl + 1) > out_len \<or> ip + 1 + (ctrl + 1) > length inp")
      case True
      then show ?thesis using c \<open>ctrl < 32\<close> by (auto simp: decompress_step_def Let_def memory_def simp flip: ctrl_def)
    next
      case False
      then obtain b where b: "rd inp (ip + 1) (ctrl + 1) = Some b" "length b = ctrl + 1" by (auto simp: rd_def)
      moreover have "wr out op b = Some (take op out @ b @ drop (op + (ctrl + 1)) out)" using False assms b(2) by (simp add: wr_def)
      ultimately show ?thesis using c \<open>ctrl < 32\<close> False assms by (auto simp: decompress_step_def Let_def simp flip: ctrl_def)
    qed
  next
    case False
    define l where "l = ctrl div 32"
    define hi where "hi = ctrl mod 32"
    have l: "1 \<le> l" using False by (simp add: l_def)
    have tail: "\<exists>r. back_ref inp out_len (int op - int (hi * 256) - 1) n i op out = Some r \<and>
        (case r of
           Inr e \<Rightarrow> memory e = out \<and> (\<forall>n out. e \<noteq> Done n out)
         | Inl (ip', op', out') \<Rightarrow> ip < ip' \<and> op' \<le> out_len \<and> length out' = length out \<and> drop out_len out' = drop out_len out)"
      if i: "i < length inp" "ip < i" for i n
    proof -
      define ref where "ref = int op - int (hi * 256) - 1 - uint (inp ! i)"
      have ref: "ref < int op" using uint_byte_bounds(1) [of "inp ! i"] of_nat_0_le_iff [of "hi * 256"] unfolding ref_def by linarith
      have b: "rd inp i 1 = Some [inp ! i]" by (rule rd1 [OF i(1)])
      show ?thesis
      proof (cases "op + n + 2 > out_len \<or> ref < 0")
        case True
        then show ?thesis unfolding back_ref_def b [unfolded One_nat_def] One_nat_def bind.bind_lunit Let_def nth_Cons_0 ref_def [symmetric]
          by (cases "op + n + 2 > out_len") (simp_all add: memory_def)
      next
        case False
        then have "op + (n + 2) \<le> length out" "0 \<le> ref" using assms(3) by simp_all
        from copy_bytes_safe [OF this(2) ref this(1)] obtain out' where "copy_bytes (n + 2) out ref op = Some out'" "length out' = length out"
          "\<forall>m. op + (n + 2) \<le> m \<longrightarrow> drop m out' = drop m out" by blast
        moreover define m where "m = n + 2"
        ultimately show ?thesis using False i
          unfolding back_ref_def b [unfolded One_nat_def] One_nat_def bind.bind_lunit Let_def nth_Cons_0 ref_def [symmetric] m_def [symmetric]
          by (auto simp: m_def simp del: copy_bytes.simps)
      qed
    qed
    show ?thesis
    proof (cases "ip + 1 < length inp")
      case e: True
      have b: "rd inp (ip + 1) 1 = Some [inp ! (ip + 1)]" by (rule rd1 [OF e])
      show ?thesis
      proof (cases "l = 7")
        case True
        show ?thesis
        proof (cases "ip + 1 + 1 < length inp")
          case m: True
          show ?thesis using tail [of "ip + 1 + 1" "l + unat (inp ! (ip + 1))"] c b \<open>\<not> ctrl < 32\<close> e m True
            by (simp add: decompress_step_def Let_def flip: ctrl_def l_def hi_def)
        next
          case False
          then show ?thesis using c b \<open>\<not> ctrl < 32\<close> e True
            by (auto simp: decompress_step_def Let_def memory_def simp flip: ctrl_def l_def hi_def)
        qed
      next
        case False
        then show ?thesis using tail [of "ip + 1" l] c \<open>\<not> ctrl < 32\<close> e
          by (simp add: decompress_step_def Let_def flip: ctrl_def l_def hi_def)
      qed
    next
      case e: False
      then show ?thesis using c False by (auto simp: decompress_step_def Let_def memory_def simp flip: ctrl_def)
    qed
  qed
qed

lemma decompress_loop_safe:
  assumes "ip < length inp" "op \<le> out_len" "out_len \<le> length out"
  shows "\<exists>r. decompress_loop inp out_len ip op out = Some r \<and> length (memory r) = length out \<and> drop out_len (memory r) = drop out_len out \<and>
    (\<forall>n out'. r = Done n out' \<longrightarrow> n \<le> out_len)"
  using assms
proof (induction inp out_len ip op out rule: decompress_loop.induct)
  case (1 inp out_len ip op out)
  from decompress_step_safe [OF 1(2-4)] obtain r where r: "decompress_step inp out_len ip op out = Some r"
    "case r of
       Inr e \<Rightarrow> memory e = out \<and> (\<forall>n out. e \<noteq> Done n out)
     | Inl (ip', op', out') \<Rightarrow> ip < ip' \<and> op' \<le> out_len \<and> length out' = length out \<and> drop out_len out' = drop out_len out" by blast
  show ?case
  proof (cases r)
    case (Inl x)
    obtain ip' op' out' where x: "x = (ip', op', out')" by (cases x) auto
    have i: "op' \<le> out_len" "length out' = length out" "drop out_len out' = drop out_len out" using r(2) Inl x by simp_all
    show ?thesis
    proof (cases "ip' < length inp")
      case True
      have "\<exists>r. decompress_loop inp out_len ip' op' out' = Some r \<and> length (memory r) = length out' \<and> drop out_len (memory r) = drop out_len out' \<and>
          (\<forall>n out'. r = Done n out' \<longrightarrow> n \<le> out_len)"
        by (rule 1(1) [OF r(1) Inl x [symmetric] refl True True i(1)]) (use 1(4) i in simp)
      then show ?thesis using r(1) Inl x True i by (subst decompress_loop.simps) simp
    next
      case False
      then show ?thesis using r(1) Inl x i by (subst decompress_loop.simps) (simp add: memory_def)
    qed
  next
    case (Inr e)
    then show ?thesis using r by (subst decompress_loop.simps) simp
  qed
qed

text \<open>
  C7: Whatever bytes it is given, decompression ends, reads only inside its input and writes only inside
  the given part of the output; it reports a length within it, or an error.
\<close>

theorem decompress_safe:
  assumes "inp \<noteq> []" "out_len \<le> length out"
  shows "\<exists>r. lzf_decompress inp out out_len = Some r \<and> length (memory r) = length out \<and> drop out_len (memory r) = drop out_len out \<and>
    (\<forall>n out'. r = Done n out' \<longrightarrow> n \<le> out_len)"
  using decompress_loop_safe [of 0 inp 0 out_len out] assms by (simp add: lzf_decompress_def)

theorem decompress_safe_witness:
  "\<exists>r. lzf_decompress [255, 255, 255, 3] [1, 2, 3] 2 = Some r \<and> drop 2 (memory r) = [3]"
proof -
  have "[255, 255, 255, 3 :: byte] \<noteq> []" "2 \<le> length [1, 2, 3 :: byte]" by simp_all
  from decompress_safe [OF this] show ?thesis by auto
qed

section \<open>The invariant of compression\<close>

text \<open>
  The tokens before the current run stand for the input before it; then come the place for the length of the
  run and its literals.
\<close>

definition run_inv :: "byte list \<Rightarrow> nat \<Rightarrow> lzf \<Rightarrow> bool" where
  "run_inv inp out_len z \<longleftrightarrow>
     (\<exists>ts h bs rest. z_out z = bytes_of ts @ h # bs @ rest \<and> z_op z = length (bytes_of ts) + 1 + length bs \<and> z_lit z = length bs \<and>
        length bs < 32 \<and> length bs \<le> z_ip z \<and> z_ip z \<le> length inp \<and> means [] ts (take (z_ip z - length bs) inp) \<and>
        bs = drop (z_ip z - length bs) (take (z_ip z) inp) \<and> z_op z \<le> out_len + 1)"

definition stopped :: "byte list \<Rightarrow> lzf \<Rightarrow> bool" where
  "stopped inp z \<longleftrightarrow> (\<exists>ts rest. z_out z = bytes_of ts @ rest \<and> length (bytes_of ts) = (if z_lit z = 0 then z_op z - 1 else z_op z) \<and>
     means [] ts (take (z_ip z) inp))"

lemma stop_run_ok:
  assumes "run_inv inp out_len z" "out_len < length (z_out z)"
  shows "\<exists>z'. stop_run z = Some z' \<and> stopped inp z' \<and> length (z_out z') = length (z_out z)"
proof -
  from assms(1) obtain ts h bs rest where o: "z_out z = bytes_of ts @ h # bs @ rest" and
    op: "z_op z = length (bytes_of ts) + 1 + length bs" "z_lit z = length bs" and
    b: "length bs < 32" "length bs \<le> z_ip z" "z_ip z \<le> length inp" and m: "means [] ts (take (z_ip z - length bs) inp)" and
    bs: "bs = drop (z_ip z - length bs) (take (z_ip z) inp)" unfolding run_inv_def by blast
  define v where "v = (word_of_int (int (length bs) - 1) :: byte)"
  define z' where "z' = z\<lparr>z_out := bytes_of ts @ v # bs @ rest\<rparr>"
  have run: "stop_run z = Some z'"
    by (simp add: stop_run_def put_byte_def op o wr_def z'_def v_def)
  have "stopped inp z'"
  proof (cases "bs = []")
    case True
    then have "z_out z' = bytes_of ts @ (v # rest)" "length (bytes_of ts) = (if z_lit z' = 0 then z_op z' - 1 else z_op z')"
      "means [] ts (take (z_ip z') inp)" using op m by (simp_all add: z'_def)
    then show ?thesis unfolding stopped_def by blast
  next
    case False
    have "v = of_nat (length bs - 1)" using False by (simp add: v_def of_nat_diff Suc_leI)
    then have e: "encode (Lit bs) = v # bs" by (simp add: encode_def)
    have "valid (take (z_ip z - length bs) inp) (Lit bs)" using False b by (simp add: valid_def)
    from means_snoc [OF m this] have "means [] (ts @ [Lit bs]) (take (z_ip z - length bs) inp @ bs)" by (simp add: expand_def)
    moreover have "take (z_ip z - length bs) inp @ bs = take (z_ip z) inp"
      using append_take_drop_id [of "z_ip z - length bs" "take (z_ip z) inp"] bs by (simp add: min_def split: if_splits)
    ultimately have "means [] (ts @ [Lit bs]) (take (z_ip z') inp)" by (simp add: z'_def)
    moreover have "z_out z' = bytes_of (ts @ [Lit bs]) @ rest" "length (bytes_of (ts @ [Lit bs])) = (if z_lit z' = 0 then z_op z' - 1 else z_op z')"
      using False op by (simp_all add: z'_def e)
    ultimately show ?thesis unfolding stopped_def by blast
  qed
  then show ?thesis using run by (auto simp: z'_def o)
qed

text \<open>A new run begins where the tokens end.\<close>

lemma new_run:
  assumes "stopped inp z" "z_lit z \<noteq> 0" "z_op z < length (z_out z)" "z_op z \<le> out_len" "z_ip z \<le> length inp"
  shows "run_inv inp out_len (z\<lparr>z_lit := 0, z_op := z_op z + 1\<rparr>)"
proof -
  from assms(1,2) obtain ts rest where o: "z_out z = bytes_of ts @ rest" "length (bytes_of ts) = z_op z" "means [] ts (take (z_ip z) inp)"
    unfolding stopped_def by auto
  then obtain h rest' where "rest = h # rest'" using assms(3) by (cases rest) auto
  then show ?thesis using o assms(4,5) unfolding run_inv_def by (intro exI [of _ ts] exI [of _ h] exI [of _ "[]"] exI [of _ rest']) simp
qed

lemma copy_literal_ok:
  assumes inv: "run_inv inp out_len z" and len: "out_len < length (z_out z)" and room: "z_op z < out_len" and ip: "z_ip z < length inp"
  shows "\<exists>z'. copy_literal inp z = Some z' \<and> run_inv inp out_len z' \<and> length (z_out z') = length (z_out z) \<and> z_ip z' = z_ip z + 1 \<and>
    z_op z' \<le> z_op z + 2 \<and> (z_op z' = z_op z + 2 \<longrightarrow> z_lit z = 31 \<and> z_lit z' = 0) \<and> (z_lit z' \<noteq> 0 \<longrightarrow> z_lit z' = z_lit z + 1)"
proof -
  from inv obtain ts h bs rest where o: "z_out z = bytes_of ts @ h # bs @ rest" and
    op: "z_op z = length (bytes_of ts) + 1 + length bs" "z_lit z = length bs" and
    b: "length bs < 32" "length bs \<le> z_ip z" "z_ip z \<le> length inp" and m: "means [] ts (take (z_ip z - length bs) inp)" and
    bs: "bs = drop (z_ip z - length bs) (take (z_ip z) inp)" unfolding run_inv_def by blast
  define x where "x = inp ! z_ip z"
  obtain r rest' where rest: "rest = r # rest'" using o op len room by (cases rest) auto
  define z1 where "z1 = z\<lparr>z_out := bytes_of ts @ h # (bs @ [x]) @ rest', z_ip := z_ip z + 1, z_op := z_op z + 1, z_lit := z_lit z + 1\<rparr>"
  have "put_byte (z_op z) (uint x) z = Some (z\<lparr>z_out := bytes_of ts @ h # (bs @ [x]) @ rest'\<rparr>)"
    by (simp add: put_byte_def op o wr_def rest)
  then have step: "copy_literal inp z = (if z_lit z1 = 32 then do { z \<leftarrow> stop_run z1; Some (z\<lparr>z_lit := 0, z_op := z_op z + 1\<rparr>) } else Some z1)"
    using rd1 [OF ip] by (simp add: copy_literal_def z1_def Let_def flip: x_def)
  have bs1: "bs @ [x] = drop (z_ip z1 - length (bs @ [x])) (take (z_ip z1) inp)"
  proof -
    have "drop (z_ip z - length bs) (take (z_ip z) inp @ [x]) = bs @ [x]" using bs ip by simp
    then show ?thesis using ip by (simp add: z1_def take_Suc_conv_app_nth x_def)
  qed
  have len1: "length (z_out z1) = length (z_out z)" by (simp add: z1_def o rest)
  show ?thesis
  proof (cases "length bs = 31")
    case False
    have "run_inv inp out_len z1"
      unfolding run_inv_def
      by (intro exI [of _ ts] exI [of _ h] exI [of _ "bs @ [x]"] exI [of _ rest'])
        (use bs1 b op m ip room False in \<open>simp_all add: z1_def\<close>)
    then show ?thesis using step False op len1 by (simp add: z1_def)
  next
    case True
    define v where "v = (31 :: byte)"
    define z2 where "z2 = z1\<lparr>z_out := bytes_of ts @ v # (bs @ [x]) @ rest'\<rparr>"
    have s: "stop_run z1 = Some z2"
      using True op by (simp add: stop_run_def put_byte_def z1_def z2_def wr_def v_def)
    have e: "encode (Lit (bs @ [x])) = v # bs @ [x]" using True by (simp add: encode_def v_def)
    have "valid (take (z_ip z - length bs) inp) (Lit (bs @ [x]))" using True by (simp add: valid_def)
    from means_snoc [OF m this] have m1: "means [] (ts @ [Lit (bs @ [x])]) (take (z_ip z - length bs) inp @ bs @ [x])" by (simp add: expand_def)
    have "take (z_ip z - length bs) inp @ bs @ [x] = take (z_ip z2) inp"
      using append_take_drop_id [of "z_ip z - length bs" "take (z_ip z) inp"] bs ip by (simp add: min_def z2_def z1_def take_Suc_conv_app_nth x_def)
    then have "stopped inp z2" unfolding stopped_def
      by (intro exI [of _ "ts @ [Lit (bs @ [x])]"] exI [of _ rest']) (use m1 op in \<open>simp add: z2_def z1_def e\<close>)
    moreover have l2: "length (z_out z2) = length (z_out z)" using len1 by (simp add: z1_def z2_def)
    ultimately have "run_inv inp out_len (z2\<lparr>z_lit := 0, z_op := z_op z2 + 1\<rparr>)"
      using len room ip by (intro new_run) (simp_all add: z2_def z1_def)
    then show ?thesis using step s True op l2 by (simp add: z1_def z2_def)
  qed
qed

section \<open>A back reference\<close>

lemma put_byte_at:
  assumes "z_out z = a @ r # rest" "off = length a"
  shows "put_byte off v z = Some (z\<lparr>z_out := a @ word_of_int v # rest\<rparr>)"
  using assms by (simp add: put_byte_def wr_def)

lemma put_ref_ok:
  assumes "z_out z = a @ rest" "z_op z = length a" "3 \<le> length rest"
  shows "\<exists>rest'. put_ref off l z = Some (z\<lparr>z_out := a @ encode (Ref off (l + 2)) @ rest', z_op := length a + length (encode (Ref off (l + 2)))\<rparr>) \<and>
     length (encode (Ref off (l + 2))) + length rest' = length rest"
proof -
  obtain r r2 r3 rest3 where "rest = r # r2 # r3 # rest3" using assms(3) by (auto simp: numeral_3_eq_3 Suc_le_length_iff)
  then have o: "z_out z = a @ r # r2 # r3 # rest3" using assms(1) by simp
  show ?thesis
  proof (cases "l < 7")
    case True
    then show ?thesis using \<open>rest = _\<close> assms(2)
      by (intro exI [of _ "r3 # rest3"])
        (simp add: put_ref_def encode_def put_byte_at [OF o] put_byte_at [of _ "a @ [b]" for b] del: of_nat_add of_nat_mult of_nat_diff)
  next
    case False
    then show ?thesis using \<open>rest = _\<close> assms(2)
      by (intro exI [of _ rest3])
        (simp add: put_ref_def encode_def put_byte_at [OF o] put_byte_at [of _ "a @ [b]" for b] put_byte_at [of _ "a @ [b, c]" for b c]
           del: of_nat_add of_nat_mult of_nat_diff)
  qed
qed

lemma emit_ref_ok:
  assumes inv: "run_inv inp out_len z" and len: "out_len < length (z_out z)"
    and ref: "ref < z_ip z" "z_ip z - ref - 1 < 8192" "same inp ref (z_ip z) 3" and ip: "z_ip z + 4 < length inp"
  shows "\<exists>room z'. emit_ref inp out_len ref z = Some (room, z') \<and> length (z_out z') = length (z_out z) \<and>
    (room \<longrightarrow> run_inv inp out_len z' \<and> z_ip z + 3 \<le> z_ip z')"
proof -
  from stop_run_ok [OF inv len] obtain z1 where s: "stop_run z = Some z1" "stopped inp z1" "length (z_out z1) = length (z_out z)" by blast
  have f: "z_ip z1 = z_ip z" "z_lit z1 = z_lit z" using stop_run_fields [OF s(1)] by simp_all
  define z2 where "z2 = z1\<lparr>z_op := (if z_lit z1 = 0 then z_op z1 - 1 else z_op z1)\<rparr>"
  from s(2) f obtain ts rest where t: "z_out z2 = bytes_of ts @ rest" "z_op z2 = length (bytes_of ts)" "means [] ts (take (z_ip z) inp)"
    unfolding stopped_def z2_def by auto
  define off where "off = z_ip z - ref - 1"
  define maxlen where "maxlen = min 264 (length inp - z_ip z - 2)"
  from match_len_ok [OF ref(1,3) ip maxlen_def] obtain n where
    n: "match_len inp ref (z_ip z) maxlen = Some n" "3 \<le> n" "n \<le> 264" "z_ip z + n \<le> length inp" "same inp ref (z_ip z) n" by blast
  have mm: "(if length inp - z_ip z - 2 > 264 then 264 else length inp - z_ip z - 2) = maxlen" by (simp add: maxlen_def)
  have k: "Suc (Suc (z_ip z + n - 2)) = z_ip z + n" using n(2) by simp
  have step: "emit_ref inp out_len ref z =
      (if z_op z2 + 3 + 1 \<ge> out_len then Some (False, z2)
       else do { z \<leftarrow> put_ref off (n - 2) z2; Some (True, z\<lparr>z_op := z_op z + 1, z_lit := 0, z_ip := z_ip z2 + n\<rparr>) })"
    using s(1) n(1,2) f unfolding emit_ref_def Let_def mm by (simp add: off_def flip: z2_def) (simp add: z2_def k)
  show ?thesis
  proof (cases "z_op z2 + 3 + 1 \<ge> out_len")
    case True
    then show ?thesis using step s(3) by (intro exI [of _ False] exI [of _ z2]) (simp add: z2_def)
  next
    case False
    have l2: "length (z_out z2) = length (z_out z)" using s(3) by (simp add: z2_def)
    have "5 \<le> length rest" using False len l2 t(1,2) by simp
    then have "3 \<le> length rest" by simp
    define e where "e = encode (Ref off n)"
    have n2: "n - 2 + 2 = n" using n(2) by simp
    from put_ref_ok [OF t(1,2) \<open>3 \<le> length rest\<close>, of off "n - 2"] obtain rest' where
      r: "put_ref off (n - 2) z2 = Some (z2\<lparr>z_out := bytes_of ts @ e @ rest', z_op := length (bytes_of ts) + length e\<rparr>)"
        "length e + length rest' = length rest" unfolding n2 e_def by blast
    define z3 where "z3 = z2\<lparr>z_out := bytes_of ts @ e @ rest', z_op := length (bytes_of ts) + length e + 1, z_lit := 0, z_ip := z_ip z2 + n\<rparr>"
    have res: "emit_ref inp out_len ref z = Some (True, z3)" using step False r(1) by (simp add: z3_def)
    have le: "length e \<le> 3" by (simp add: e_def encode_def)
    then obtain h rest2 where h: "rest' = h # rest2" using r(2) \<open>5 \<le> length rest\<close> by (cases rest') auto
    have ip2: "z_ip z2 = z_ip z" using f by (simp add: z2_def)
    have "valid (take (z_ip z) inp) (Ref off n)" using ref n(2,3) ip by (auto simp: valid_def off_def min_def)
    from means_snoc [OF t(3) this] have "means [] (ts @ [Ref off n]) ((again off ^^ n) (take (z_ip z) inp))" by (simp add: expand_def)
    moreover have "(again off ^^ n) (take (z_ip z) inp) = take (z_ip z + n) inp"
    proof (rule again_prefix)
      show "off < z_ip z" "z_ip z + n \<le> length inp" using ref(1) n(4) by (simp_all add: off_def)
      show "inp ! (z_ip z - (off + 1) + i) = inp ! (z_ip z + i)" if "i < n" for i
        using n(5) that ref(1) by (simp add: same_def off_def)
    qed
    ultimately have m: "means [] (ts @ [Ref off n]) (take (z_ip z + n) inp)" by simp
    have "run_inv inp out_len z3" unfolding run_inv_def
      by (intro exI [of _ "ts @ [Ref off n]"] exI [of _ h] exI [of _ "[]"] exI [of _ rest2])
        (use m n(4) False le t(2) ip2 in \<open>simp add: z3_def h e_def [symmetric]\<close>)
    moreover have "length (z_out z3) = length (z_out z)" using l2 r(2) t(1) by (simp add: z3_def)
    ultimately show ?thesis using res n(2) ip2 by (intro exI [of _ True] exI [of _ z3]) (simp add: z3_def)
  qed
qed


lemma match_at_ok:
  assumes l: "length inp < 2 ^ 32" and ip: "ip + 2 < length inp"
  shows "\<exists>m. match_at inp ip ref = Some m \<and>
    (m \<longrightarrow> unat ref < ip \<and> ip - unat ref - 1 < 8192 \<and> same inp (unat ref) ip 3 \<and> ip + 4 < length inp)"
proof (cases "of_nat ip - ref - 1 < 8192 \<and> ip + 4 < length inp \<and> 0 < sint ref")
  case False
  then show ?thesis by (auto simp: match_at_def)
next
  case True
  define r where "r = unat ref"
  have ref: "ref = word_of_nat r" by (simp add: r_def)
  have "uint ref = sint ref" unfolding uint_sint [of ref] take_bit_eq_mod using True sint_lt [of ref] by (intro mod_pos_pos_trivial) simp_all
  then have rb: "int r < 2 ^ 63" using sint_lt [of ref] by (simp add: r_def)
  define k where "k = int ip - int r - 1"
  have "of_nat ip - ref - 1 = (word_of_int k :: u64)" by (simp add: ref k_def)
  then have u: "uint (of_nat ip - ref - 1) = k mod 2 ^ 64" by (simp only: uint_word_of_int) simp
  have k8: "k mod 2 ^ 64 < 8192" using True unfolding word_less_def u by simp
  have kl: "- (2 ^ 63) \<le> k" "k < 2 ^ 32" using rb l ip by (simp_all add: k_def)
  have "0 \<le> k"
  proof (rule ccontr)
    assume n: "\<not> 0 \<le> k"
    have "(k + 2 ^ 64) mod 2 ^ 64 = k + 2 ^ 64" using kl n by (intro mod_pos_pos_trivial) simp_all
    then have "k mod 2 ^ 64 = k + 2 ^ 64" by simp
    then show False using k8 kl(1) by simp
  qed
  moreover have "k mod 2 ^ 64 = k" if "0 \<le> k" using that kl(2) by (intro mod_pos_pos_trivial) simp_all
  ultimately have d: "r < ip \<and> ip - r - 1 < 8192" using k8 by (auto simp: k_def)
  have "r + 2 < length inp" using d ip by simp
  then obtain a b where a: "rd inp r 2 = Some a" "rd inp ip 2 = Some b" using ip by (auto simp: rd_def)
  have c: "rd inp (r + 2) 1 = Some [inp ! (r + 2)]" "rd inp (ip + 2) 1 = Some [inp ! (ip + 2)]" using ip \<open>r + 2 < _\<close> rd1 by blast+
  have "same inp r ip 3" if "a = b" "inp ! (r + 2) = inp ! (ip + 2)"
  proof -
    have "a ! i = inp ! (r + i)" "b ! i = inp ! (ip + i)" if "i < 2" for i
      using a that ip \<open>r + 2 < _\<close> by (auto simp: rd_def split: if_splits)
    from this [of 0] this [of 1] show ?thesis using that by (auto simp: same_def less_Suc_eq numeral_3_eq_3)
  qed
  then show ?thesis using True a c d unfolding match_at_def r_def [symmetric] by auto
qed

section \<open>Compression\<close>

lemma run_inv_htab [simp]: "run_inv inp out_len (z\<lparr>z_htab := h\<rparr>) = run_inv inp out_len z"
  by (simp add: run_inv_def)

lemma enter_two_ok:
  assumes "run_inv inp out_len z" "2 \<le> z_ip z" "z_ip z + 2 < length inp"
  shows "\<exists>h z'. enter_two inp z = Some (h, z') \<and> run_inv inp out_len z' \<and> z_out z' = z_out z"
proof -
  obtain a where a: "rd inp (z_ip z - 2) 2 = Some a" using assms(2,3) rd_Some [of "z_ip z - 2" 2 inp] by auto
  have "rd inp (z_ip z - 2 + 2) 1 = Some [inp ! (z_ip z - 2 + 2)]" "rd inp (z_ip z - 2 + 1 + 2) 1 = Some [inp ! (z_ip z - 2 + 1 + 2)]"
    using assms(2,3) by (intro rd1; simp)+
  then show ?thesis using a assms(1) by (simp add: enter_two_def FRST_def NEXT_def Let_def)
qed

lemma compress_loop_ok:
  assumes "run_inv inp out_len z" "out_len < length (z_out z)" "length inp < 2 ^ 32"
  shows "\<exists>room z'. compress_loop inp out_len hval z = Some (room, z') \<and> length (z_out z') = length (z_out z) \<and>
    (room \<longrightarrow> run_inv inp out_len z' \<and> length inp \<le> z_ip z' + 2)"
  using assms(1,2)
proof (induction "length inp - z_ip z" arbitrary: hval z rule: less_induct)
  case less
  show ?case
  proof (cases "z_ip z + 2 < length inp")
    case False
    then show ?thesis using less.prems by (subst compress_loop.simps, intro exI [of _ True] exI [of _ z]) simp
  next
    case True
    define h where "h = push_bit 8 hval OR ucast (inp ! (z_ip z + 2))"
    have nx: "NEXT inp hval (z_ip z) = Some h" using rd1 [OF True] by (simp add: NEXT_def h_def)
    define ref where "ref = z_htab z (IDX h)"
    define z1 where "z1 = z\<lparr>z_htab := (z_htab z)(IDX h := of_nat (z_ip z))\<rparr>"
    have z1: "run_inv inp out_len z1" "out_len < length (z_out z1)" "z_ip z1 = z_ip z" "z_op z1 = z_op z" "z_out z1 = z_out z"
      using less.prems by (simp_all add: z1_def)
    from match_at_ok [OF assms(3) True, of ref] obtain m where m: "match_at inp (z_ip z) ref = Some m"
      "m \<longrightarrow> unat ref < z_ip z \<and> z_ip z - unat ref - 1 < 8192 \<and> same inp (unat ref) (z_ip z) 3 \<and> z_ip z + 4 < length inp" by blast
    have step: "compress_loop inp out_len hval z =
      (if m then do {
          (room, z) \<leftarrow> emit_ref inp out_len (unat ref) z1;
          if \<not> room then Some (False, z)
          else if z_ip z + 2 \<ge> length inp then Some (True, z)
          else do {
            (hval, z) \<leftarrow> enter_two inp z;
            compress_loop inp out_len hval z
          }
        }
        else if z_op z \<ge> out_len then Some (False, z1)
        else do {
          z \<leftarrow> copy_literal inp z1;
          compress_loop inp out_len h z
        })"
      using True by (subst compress_loop.simps) (simp add: nx m(1) Let_def z1(4) flip: ref_def z1_def)
    show ?thesis
    proof (cases m)
      case m': True
      with m(2) have r: "unat ref < z_ip z1" "z_ip z1 - unat ref - 1 < 8192" "same inp (unat ref) (z_ip z1) 3" "z_ip z1 + 4 < length inp" by (simp_all add: z1)
      from emit_ref_ok [OF z1(1,2) r] obtain room z2 where e: "emit_ref inp out_len (unat ref) z1 = Some (room, z2)"
        "length (z_out z2) = length (z_out z1)" "room \<longrightarrow> run_inv inp out_len z2 \<and> z_ip z1 + 3 \<le> z_ip z2" by blast
      show ?thesis
      proof (cases "room \<and> z_ip z2 + 2 < length inp")
        case False
        then show ?thesis using step m' e z1(5) by auto
      next
        case go: True
        then have i: "run_inv inp out_len z2" "2 \<le> z_ip z2" "z_ip z2 + 2 < length inp" using e(3) by auto
        from enter_two_ok [OF this] obtain h2 z3 where t: "enter_two inp z2 = Some (h2, z3)" "run_inv inp out_len z3" "z_out z3 = z_out z2" by blast
        have "length inp - z_ip z3 < length inp - z_ip z" using enter_two_ip [OF t(1)] e(3) go z1(3) True by auto
        moreover have "out_len < length (z_out z3)" using t(3) e(2) z1(2) by simp
        ultimately obtain room' z' where "compress_loop inp out_len h2 z3 = Some (room', z')" "length (z_out z') = length (z_out z3)"
          "room' \<longrightarrow> run_inv inp out_len z' \<and> length inp \<le> z_ip z' + 2" using less.hyps [OF _ t(2)] by blast
        then show ?thesis using step m' e(1,2) go t(1,3) z1(5) by simp
      qed
    next
      case m': False
      show ?thesis
      proof (cases "z_op z \<ge> out_len")
        case full: True
        then show ?thesis using step m' z1(5) by (intro exI [of _ False] exI [of _ z1]) simp
      next
        case False
        then have "z_op z1 < out_len" "z_ip z1 < length inp" using True z1 by simp_all
        from copy_literal_ok [OF z1(1,2) this] obtain z2 where c: "copy_literal inp z1 = Some z2" "run_inv inp out_len z2"
          "length (z_out z2) = length (z_out z1)" "z_ip z2 = z_ip z1 + 1" by blast
        have "length inp - z_ip z2 < length inp - z_ip z" using c(4) z1(3) True by simp
        moreover have "out_len < length (z_out z2)" using c(3) z1(2) by simp
        ultimately obtain room' z' where "compress_loop inp out_len h z2 = Some (room', z')" "length (z_out z') = length (z_out z2)"
          "room' \<longrightarrow> run_inv inp out_len z' \<and> length inp \<le> z_ip z' + 2" using less.hyps [OF _ c(2)] by blast
        then show ?thesis using step m' False c(1,3) z1(5) by simp
      qed
    qed
  qed
qed


lemma copy_rest_ok:
  assumes "run_inv inp out_len z" "out_len < length (z_out z)" "rem = length inp - z_ip z"
    "z_op z + rem + 1 \<le> out_len \<or> z_lit z + rem \<le> 31 \<and> z_op z + rem \<le> out_len" "rem \<le> 2"
  shows "\<exists>z'. copy_rest inp z = Some z' \<and> run_inv inp out_len z' \<and> length (z_out z') = length (z_out z) \<and> z_ip z' = length inp \<and> z_op z' \<le> out_len"
  using assms
proof (induction rem arbitrary: z)
  case 0
  have "z_ip z \<le> length inp" using "0.prems"(1) by (auto simp: run_inv_def)
  then show ?case using "0.prems" by (subst copy_rest.simps) auto
next
  case (Suc rem)
  then have "z_op z < out_len" "z_ip z < length inp" by auto
  from copy_literal_ok [OF Suc.prems(1,2) this] obtain z2 where c: "copy_literal inp z = Some z2" "run_inv inp out_len z2"
    "length (z_out z2) = length (z_out z)" "z_ip z2 = z_ip z + 1" and
    o: "z_op z2 \<le> z_op z + 2" "z_op z2 = z_op z + 2 \<longrightarrow> z_lit z = 31 \<and> z_lit z2 = 0" "z_lit z2 \<noteq> 0 \<longrightarrow> z_lit z2 = z_lit z + 1" by blast
  have "rem = length inp - z_ip z2" "rem \<le> 2" "out_len < length (z_out z2)" using Suc.prems c by simp_all
  moreover have "z_op z2 + rem + 1 \<le> out_len \<or> z_lit z2 + rem \<le> 31 \<and> z_op z2 + rem \<le> out_len"
    using Suc.prems(4,5) o by linarith
  ultimately obtain z' where "copy_rest inp z2 = Some z'" "run_inv inp out_len z'" "length (z_out z') = length (z_out z2)" "z_ip z' = length inp" "z_op z' \<le> out_len"
    using Suc.IH [OF c(2)] by blast
  then show ?case using c \<open>z_ip z < length inp\<close> by (subst copy_rest.simps) simp
qed

lemma compress_ok:
  assumes "2 \<le> length inp" "length inp < 2 ^ 32" "out_len < length out"
  shows "\<exists>n out'. lzf_compress htab inp out out_len = Some (n, out') \<and> n \<le> out_len \<and> length out' = length out \<and>
    (n \<noteq> 0 \<longrightarrow> (\<exists>ts. take n out' = bytes_of ts \<and> means [] ts inp))"
proof (cases "out_len = 0")
  case True
  then show ?thesis by (simp add: lzf_compress_def)
next
  case False
  define z where "z = \<lparr>z_ip = 0, z_op = 1, z_lit = 0, z_out = out, z_htab = htab\<rparr>"
  obtain h0 rest where "out = h0 # rest" using assms(3) by (cases out) auto
  then have i: "run_inv inp out_len z" "out_len < length (z_out z)" using assms(3)
    unfolding run_inv_def by (auto simp: z_def intro!: exI [of _ "[]"])
  obtain hval where hv: "FRST inp 0 = Some hval" using assms(1) by (simp add: FRST_def rd_def)
  from compress_loop_ok [OF i assms(2), of hval] obtain room z1 where l: "compress_loop inp out_len hval z = Some (room, z1)"
    "length (z_out z1) = length (z_out z)" "room \<longrightarrow> run_inv inp out_len z1 \<and> length inp \<le> z_ip z1 + 2" by blast
  have "inp \<noteq> []" using assms(1) by auto
  show ?thesis
  proof (cases "room \<and> z_op z1 + 3 \<le> out_len")
    case no: False
    then show ?thesis using hv l(1,2) False \<open>inp \<noteq> []\<close> by (auto simp: lzf_compress_def z_def Let_def)
  next
    case yes: True
    have "\<exists>z'. copy_rest inp z1 = Some z' \<and> run_inv inp out_len z' \<and> length (z_out z') = length (z_out z1) \<and> z_ip z' = length inp \<and> z_op z' \<le> out_len"
      by (rule copy_rest_ok [OF _ _ refl]) (use l yes i(2) in auto)
    then obtain z2 where c: "copy_rest inp z1 = Some z2" "run_inv inp out_len z2" "length (z_out z2) = length (z_out z1)" "z_ip z2 = length inp" "z_op z2 \<le> out_len" by blast
    have "out_len < length (z_out z2)" using c(3) l(2) i(2) by simp
    from stop_run_ok [OF c(2) this] obtain z3 where s: "stop_run z2 = Some z3" "stopped inp z3" "length (z_out z3) = length (z_out z2)" by blast
    have f: "z_ip z3 = length inp" "z_op z3 \<le> out_len" using stop_run_fields [OF s(1)] c(4,5) by simp_all
    define n where "n = (if z_lit z3 = 0 then z_op z3 - 1 else z_op z3)"
    have "lzf_compress htab inp out out_len = Some (n, z_out z3)"
      using hv l(1) yes False \<open>inp \<noteq> []\<close> c(1) s(1) by (simp add: lzf_compress_def z_def Let_def n_def)
    moreover have "n \<le> out_len" using f(2) by (auto simp: n_def)
    moreover have "\<exists>ts. take n (z_out z3) = bytes_of ts \<and> means [] ts inp" using s(2) f(1) unfolding stopped_def n_def by auto
    moreover have "length (z_out z3) = length out" using s(3) c(3) l(2) by (simp add: z_def)
    ultimately show ?thesis by blast
  qed
qed

text \<open>
  C6: Compression followed by decompression gives the input back, whatever the table on the stack holds, when
  the memory has one byte more than the limit given: compression ends, stays inside that memory and reports 0,
  when the result does not fit, or a length within the limit.
\<close>

theorem lzf_roundtrip:
  assumes "2 \<le> length inp" "length inp < 2 ^ 32" "out_len < length out" "length inp \<le> length buf"
  shows "\<exists>n out'. lzf_compress htab inp out out_len = Some (n, out') \<and> n \<le> out_len \<and> length out' = length out \<and>
    (n \<noteq> 0 \<longrightarrow> lzf_decompress (take n out') buf (length inp) = Some (Done (length inp) (inp @ drop (length inp) buf)))"
proof -
  from compress_ok [OF assms(1-3), of htab] obtain n out' where c: "lzf_compress htab inp out out_len = Some (n, out')" "n \<le> out_len" "length out' = length out"
    "n \<noteq> 0 \<longrightarrow> (\<exists>ts. take n out' = bytes_of ts \<and> means [] ts inp)" by blast
  have "lzf_decompress (take n out') buf (length inp) = Some (Done (length inp) (inp @ drop (length inp) buf))" if n: "n \<noteq> 0"
  proof -
    from c(4) n obtain ts where t: "take n out' = bytes_of ts" "means [] ts inp" by blast
    have "ts \<noteq> []" using t(2) assms(1) by auto
    then show ?thesis using decompress_tokens [OF t(2), of "length inp" buf "[]"] assms(4) t(1) by (simp add: lzf_decompress_def)
  qed
  then show ?thesis using c by blast
qed

lemmas compress_eval = lzf_compress_def FRST_def NEXT_def IDX_def rd_def compress_loop.simps copy_rest.simps copy_literal_def put_byte_def wr_def
  stop_run_def Let_def match_at_def emit_ref_def put_ref_def match_len_def match_rest.simps enter_two_def

theorem lzf_roundtrip_witness:
  "\<exists>n out'. lzf_compress (\<lambda>_. 0) [7,7,7,7,7,7,7,7,7,7,7,7] [0,0,0,0,0,0,0,0,0,0,0,0] 11 = Some (n, out') \<and> n = 8 \<and>
    lzf_decompress (take n out') [0,0,0,0,0,0,0,0,0,0,0,0] 12 = Some (Done 12 [7,7,7,7,7,7,7,7,7,7,7,7])"
proof -
  have e: "lzf_compress (\<lambda>_. 0) [7,7,7,7,7,7,7,7,7,7,7,7] [0,0,0,0,0,0,0,0,0,0,0,0] 11 = Some (8, [1, 7, 7, 192, 0, 1, 7, 7, 0, 0, 0, 0])"
    by (simp add: compress_eval)
  have l: "length [7 :: byte,7,7,7,7,7,7,7,7,7,7,7] = 12" by simp
  show ?thesis using lzf_roundtrip [of "[7,7,7,7,7,7,7,7,7,7,7,7]" 11 "[0,0,0,0,0,0,0,0,0,0,0,0]" "[0,0,0,0,0,0,0,0,0,0,0,0]" "\<lambda>_. 0"]
    unfolding e l by simp
qed

text \<open>
  The byte more is needed: a run of 32 literals that ends at the limit makes the next run start one byte behind
  it, and when the following bytes match, the length of that empty run is stored there before the limit is looked at.
\<close>

lemma run_starts_past:
  assumes "z_op z + 1 = out_len" "z_lit z = 31" "copy_literal inp z = Some z'"
  shows "z_op z' = out_len + 1 \<and> z_lit z' = 0"
  using assms by (auto simp: copy_literal_def Let_def dest!: put_byte_fields stop_run_fields split: bind_splits)

lemma emit_ref_past:
  assumes "z_op z = out_len + 1" "z_lit z = 0" "length (z_out z) = out_len"
  shows "emit_ref inp out_len ref z = None"
  using assms by (simp add: emit_ref_def stop_run_def put_byte_def wr_def Let_def)

end
