(* ===== verification/Spec2Isabelle.thy ===== *)
theory Spec2Isabelle
  imports Prelude Endianconv SetOps Intset Adlist Dict Util Object DictTypes Pubsub Multi Sds Sdsline Networking Aof Db Keyspace Tstring Strings Keycmds Bitops Bitcmds Commands Server Lzf
begin

text \<open>
  The Redis 2.6 server in \<open>redis/src\<close>: its data structures, its key space with the commands on keys and strings,
  transactions, publish/subscribe, the request parser, the append only file and the compression of the dump.

  \<^bold>\<open>How the parts interact.\<close>  Bytes from a client are collected and parsed by \<open>readQueryFromClient\<close> and
  \<open>processInputBuffer\<close> (\<open>networking.c\<close>, theory \<open>Networking\<close>) into an argument vector of string objects.
  \<open>processCommand\<close> and \<open>call\<close> (\<open>redis.c\<close>, \<open>Commands\<close>) look the command up in the table and run it.  Commands read
  and change the databases (\<open>db.c\<close>, \<open>Db\<close>; \<open>t_string.c\<close>, \<open>Tstring\<close>; \<open>bitops.c\<close>, \<open>Bitcmds\<close>), whose values are
  reference counted objects (\<open>object.c\<close>, \<open>Object\<close>) in hash tables (\<open>dict.c\<close>, \<open>Dict\<close>), signal the keys they
  modify to transactions (\<open>multi.c\<close>, \<open>Multi\<close>), count changes in \<open>dirty\<close>, and are then propagated to the append only
  file (\<open>aof.c\<close>, \<open>Aof\<close>).  Publishing (\<open>pubsub.c\<close>, \<open>Pubsub\<close>) uses the same lists (\<open>adlist.c\<close>, \<open>Adlist\<close>),
  dictionaries and the glob matcher (\<open>util.c\<close>, \<open>Util\<close>).  Strings are dynamic (\<open>sds.c\<close>, \<open>Sds\<close> and \<open>Sdsline\<close>); small
  sets of integers are sorted arrays (\<open>intset.c\<close>, \<open>Intset\<close>) stored in little endian (\<open>endianconv.c\<close>, \<open>Endianconv\<close>);
  strings in a dump are compressed (\<open>lzf_c.c\<close>, \<open>lzf_d.c\<close>, \<open>Lzf\<close>).

  \<^bold>\<open>Conventions.\<close>  A C function keeps its name.  A struct is a record, memory is a list of bytes or a map from
  addresses, machine integers are words or integers with the wrap-around written out.  The result \<open>None\<close> is what must
  not happen: an access outside a block or to a freed object, a failed assertion, an abort, signed overflow.
  An error the code reports is an ordinary value (a reply, \<open>DICT_ERR\<close>, 0 bytes).  That a theorem concludes with
  \<open>Some\<close> therefore includes termination without any of these.  What the code does not choose is an argument: the byte
  order, the clock, the answers of allocation and of \<open>read\<close> and \<open>write\<close>, the random choice of \<open>dictGetRandomKey\<close>, the
  order of an iterator, the content of uninitialised memory.

  \<^bold>\<open>Data structures.\<close>
  \<open>Prelude\<close> has memory accesses, byte encodings and the rules \<open>mem_simps\<close> that evaluate them.
  \<open>SetOps\<close> is the contract \<open>set_ops\<close> of a set with a run of operations as client; \<open>Intset\<close> interprets it (\<open>intset_set\<close>),
  and so does the hash table of string objects in \<open>DictTypes\<close> (\<open>hash_set\<close>), so both refine a mathematical set.
  \<open>Intset\<close> also shows that the array stays sorted, that the width grows only when needed, and that the bytes do not
  depend on the host.  \<open>Dict\<close> has the hash table with incremental rehashing; its locale \<open>dict_keys\<close> is what it asks of
  a \<open>dictType\<close> (equal keys have equal hashes, and so on), \<open>DictTypes\<close> interprets it on the types of \<open>redis.c\<close>
  and shows resizing and rehashing to refine a finite map, iteration to return every entry once.  \<open>Adlist\<close> is the linked list on an
  explicit heap, abstracted to a list of addresses and values.  \<open>Sds\<close> refines strings to byte lists with a consistent header;
  \<open>Sdsline\<close> has splitting, printing and parsing of lines with their round trip.  \<open>Util\<close> has glob matching
  with a recursive description of patterns, and the conversions of integers.  \<open>Lzf\<close> describes the compressed format by tokens; compression is
  shown to write tokens that stand for its input whatever the hash table on the stack holds, decompression to
  give a token list its meaning, and to be safe on any bytes.

  \<^bold>\<open>Server.\<close>
  \<open>Object\<close> has string objects: encodings, sharing of small integers, comparison.  \<open>Db\<close> is the state \<open>dserver\<close> of the key space with
  the operations and commands of \<open>db.c\<close>; \<open>Keyspace\<close> is its invariant \<open>kv_ok\<close> (every reference count is the number of
  references) and the abstraction \<open>live\<close>, what clients see at the current time.  \<open>Tstring\<close> and \<open>Bitcmds\<close> have the commands,
  \<open>Strings\<close>, \<open>Keycmds\<close> and the second half of \<open>Bitcmds\<close> the abstract commands \<open>sp_\<dots>\<close> on \<open>live\<close> and the proofs that the commands meet
  them: the same contents, replies, signals and count of changes.  \<open>Bitops\<close> shows the arithmetic of \<open>popcount\<close> to
  count ones and the word loops of BITOP to agree with the bytewise definition.
  \<open>Commands\<close> is the table, a request from its argument vector to its release, and the locale \<open>command_table\<close> that lifts what holds of each command to any
  sequence of requests; \<open>redis\<close> interprets it.  \<open>Server\<close> starts the server and draws the conclusions: the refinement for any
  requests, the invariant in every reached state, the announcement of changes, the bound on sizes, and what
  happens at the limits.  DEL, the EXPIRE family, PERSIST, KEYS, DBSIZE, SELECT and the FLUSH commands do not depend on
  \<open>live\<close> alone and are covered by the invariant and by their own lemmas in \<open>Keycmds\<close>; RANDOMKEY has lemmas of its own.
  \<open>Multi\<close> and \<open>Pubsub\<close> model their tables with clients as numbers; \<open>Networking\<close> and \<open>Aof\<close> both protocols and
  the log, whose replay is shown to execute what was logged.

  \<^bold>\<open>Bounds.\<close>  Loops are recursions with a measure, so they end on every input.  Two are given a number of rounds:
  the loop of RANDOMKEY, because it need not end (\<open>Server.randomkey_terminates\<close>: on a master one round more than
  there are keys is enough; \<open>Server.randomkey_hangs_on_slave\<close>: on a slave no number may be), and the loop of \<open>sdssplitlen\<close>, whose
  variable grows in every round to at most the length of the input.  Arguments of requests have at most \<open>2 ^ 29\<close> bytes, the
  limit the parser enforces.  The predicate \<open>fits\<close> leaves out the arguments with which the code overflows or reads outside a
  string; what happens there is shown by \<open>Server.getrange_reads_outside\<close> and
  \<open>Server.setrange_overflow_aborts\<close>.

  \<^bold>\<open>Not modelled.\<close>  Lists, sets, hashes and sorted sets with their packed encodings and commands; SORT; the
  dump file but for its compression; replication; scripts; configuration; the event loop, sockets and background threads; output
  buffers of clients; the rewrite of the log and its child process; everything with floating point (INCRBYFLOAT, scores); memory
  limits, passwords, MONITOR, the slow log, statistics; cluster and MIGRATE.  Of \<open>processCommand\<close> in \<open>Commands\<close> the
  test of the number of arguments and the call are modelled, in \<open>Multi\<close> the queueing.  The key space takes the
  dictionaries of a database as association lists, which \<open>DictTypes\<close> justifies; \<open>zmalloc\<close> aborts when
  memory is exhausted, so only the code that tests its result has a branch for that.  The libraries under \<open>redis/deps\<close>
  and the application that uses the server are not part of the development.
\<close>

end
